(* ===== verification/Prelude.thy ===== *)
theory Prelude
  imports Main "HOL-Library.Word" "HOL-Library.Monad_Syntax"
begin

text \<open>
  What every component shares: the machine integers of Shared/primitive_types.h, the memory
  model of the C++ arrays (bounds-checked reads and writes, \<open>None\<close> for an access outside the
  object), the little-endian image of the integers that the code copies with CopyMemory and
  memcpy, and the named collections of facts the component proofs use.

  Memory faults. C++ leaves an access outside an array undefined. Every definition that touches
  memory therefore has an option type: \<open>None\<close> is an access outside the object (or, where a
  definition says so, an abort of the process), and a proof that a call is \<open>Some\<close> is a proof of
  memory safety of that call.
\<close>

unbundle bit_operations_syntax

named_theorems mem_simps "reads and writes of bounded memory"
named_theorems le_simps "little-endian images of machine integers"

section \<open>Machine integers (Shared/primitive_types.h)\<close>

type_synonym uint8 = "8 word"
type_synonym uint16 = "16 word"
type_synonym uint32 = "32 word"
type_synonym uint64 = "64 word"

text \<open>A \<open>char\<close> of a buffer is kept as the byte it stores.\<close>

type_synonym byte = uint8

text \<open>
  Values of the C++ type \<open>int\<close> are kept as mathematical integers; \<open>to_int32\<close> is the value a
  64-bit or unsigned expression has after conversion to \<open>int\<close> on the platform (two's complement,
  32 bits), \<open>INT_MAX\<close> the largest one.
\<close>

definition INT_MAX :: int where
  "INT_MAX = 2147483647"

definition to_int32 :: "int \<Rightarrow> int" where
  "to_int32 i = sint (word_of_int i :: uint32)"

lemma to_int32_id: "- 2147483648 \<le> i \<Longrightarrow> i \<le> 2147483647 \<Longrightarrow> to_int32 i = i"
  unfolding to_int32_def by (subst signed_of_int) (simp add: signed_take_bit_int_eq_self)

lemma unat_uint16_le: "unat (w :: uint16) \<le> 65535"
  using unsigned_less [of w, where ?'a = nat] by simp

lemma unat_of_nat16: "n \<le> 65535 \<Longrightarrow> unat (of_nat n :: uint16) = n"
  by (simp add: unat_of_nat)

lemma unat_of_nat8: "n \<le> 255 \<Longrightarrow> unat (of_nat n :: uint8) = n"
  by (simp add: unat_of_nat)

section \<open>C strings\<close>

definition NUL :: char where
  "NUL = CHR 0x00"

text \<open>The string at the start of an array; without a terminator it is read past the end.\<close>

definition c_str :: "string \<Rightarrow> string option" where
  "c_str buf = (if NUL \<in> set buf then Some (takeWhile (\<lambda>c. c \<noteq> NUL) buf) else None)"

lemma c_str_terminated: "NUL \<notin> set s \<Longrightarrow> c_str (s @ NUL # r) = Some s"
  by (simp add: c_str_def takeWhile_append)

section \<open>Bounded memory\<close>

definition mem_read :: "nat \<Rightarrow> nat \<Rightarrow> 'a list \<Rightarrow> 'a list option" where
  "mem_read off n m = (if off + n \<le> length m then Some (take n (drop off m)) else None)"

definition mem_write :: "nat \<Rightarrow> 'a list \<Rightarrow> 'a list \<Rightarrow> 'a list option" where
  "mem_write off bs m =
     (if off + length bs \<le> length m
      then Some (take off m @ bs @ drop (off + length bs) m) else None)"

text \<open>One byte, the dereference of a pointer.\<close>

definition mem_get :: "nat \<Rightarrow> 'a list \<Rightarrow> 'a option" where
  "mem_get i m = (if i < length m then Some (m ! i) else None)"

lemma mem_read_Some [mem_simps]:
  "off + n \<le> length m \<Longrightarrow> mem_read off n m = Some (take n (drop off m))"
  by (simp add: mem_read_def)

lemma mem_read_None [mem_simps]: "length m < off + n \<Longrightarrow> mem_read off n m = None"
  by (simp add: mem_read_def)

lemma mem_write_Some [mem_simps]:
  "off + length bs \<le> length m \<Longrightarrow>
     mem_write off bs m = Some (take off m @ bs @ drop (off + length bs) m)"
  by (simp add: mem_write_def)

lemma mem_write_None [mem_simps]: "length m < off + length bs \<Longrightarrow> mem_write off bs m = None"
  by (simp add: mem_write_def)

lemma mem_get_Some [mem_simps]: "i < length m \<Longrightarrow> mem_get i m = Some (m ! i)"
  by (simp add: mem_get_def)

lemma mem_get_None [mem_simps]: "length m \<le> i \<Longrightarrow> mem_get i m = None"
  by (simp add: mem_get_def)

lemma mem_read_length: "mem_read off n m = Some bs \<Longrightarrow> length bs = n"
  by (auto simp: mem_read_def split: if_splits)

lemma mem_write_length: "mem_write off bs m = Some m' \<Longrightarrow> length m' = length m"
  by (auto simp: mem_write_def split: if_splits)

lemma mem_read_after_write:
  "mem_write off bs m = Some m' \<Longrightarrow> mem_read off (length bs) m' = Some bs"
  by (auto simp: mem_write_def mem_read_def split: if_splits)

section \<open>Option-valued computations\<close>

lemma bind_Some_iff: "(x \<bind> f) = Some y \<longleftrightarrow> (\<exists>z. x = Some z \<and> f z = Some y)"
  by (cases x) auto

lemma bind_None_iff: "(x \<bind> f) = None \<longleftrightarrow> x = None \<or> (\<exists>z. x = Some z \<and> f z = None)"
  by (cases x) auto

lemma map_bind: "map_option f (x \<bind> g) = x \<bind> (\<lambda>y. map_option f (g y))"
  by (cases x) auto

lemma bind_eqI: "(\<And>b. x = Some b \<Longrightarrow> f b = g b) \<Longrightarrow> x \<bind> f = x \<bind> g"
  by (cases x) auto

lemma mem_get_drop: "mem_get (p + i) m = mem_get i (drop p m)"
  by (simp add: mem_get_def less_diff_conv add.commute)

lemma mem_get_drop_0: "mem_get p m = mem_get 0 (drop p m)"
  using mem_get_drop [of p 0 m] by simp

section \<open>Bits of machine integers\<close>

lemma or_push_bit_nat:
  fixes a b :: nat
  assumes "a < 2 ^ k"
  shows "a OR push_bit k b = a + 2 ^ k * b"
proof -
  have "a AND push_bit k b = 0"
  proof (rule bit_eqI)
    fix n
    have "\<not> bit a n" if "k \<le> n"
      using assms that by (metis bit_take_bit_iff not_le take_bit_nat_eq_self_iff)
    then show "bit (a AND push_bit k b) n = bit 0 n"
      by (auto simp: bit_simps)
  qed
  then show ?thesis
    by (simp add: disjunctive_add_eq_or [symmetric] push_bit_eq_mult mult.commute)
qed

text \<open>The low seven bits of a byte, and the eighth set on top of them.\<close>

lemma byte_and_7F: "(of_nat n :: byte) AND 0x7F = of_nat (n mod 128)"
proof -
  have "(of_nat n :: byte) AND mask 7 = of_nat (take_bit 7 n)"
    by (simp add: take_bit_eq_mask [symmetric] of_nat_take_bit)
  then show ?thesis by (simp add: mask_eq_exp_minus_1 take_bit_eq_mod)
qed

lemma byte_or_80: "(of_nat n :: byte) OR 0x80 = of_nat (n mod 128 + 128)"
proof -
  have "(of_nat n AND 0x7F) OR 0x80 = (of_nat n OR 0x80) AND (0x7F OR 0x80 :: byte)"
    by (simp only: bit.disj_conj_distrib2)
  moreover have "(0x7F OR 0x80 :: byte) = - 1" by simp
  ultimately have "(of_nat n :: byte) OR 0x80 = (of_nat n AND 0x7F) OR 0x80"
    by (simp only: bit.conj_one_right)
  also have "\<dots> = of_nat ((n mod 128) OR push_bit 7 1)"
    by (simp add: byte_and_7F of_nat_or_eq)
  also have "(n mod 128) OR push_bit 7 1 = n mod 128 + 128"
    by (subst or_push_bit_nat) simp_all
  finally show ?thesis .
qed

section \<open>Little-endian images\<close>

definition le16 :: "uint16 \<Rightarrow> byte list" where
  "le16 w = [ucast w, ucast (drop_bit 8 w)]"

definition of_le16 :: "byte list \<Rightarrow> uint16" where
  "of_le16 bs = (case bs of a # b # _ \<Rightarrow> ucast a + push_bit 8 (ucast b) | _ \<Rightarrow> 0)"

lemma length_le16 [simp, le_simps]: "length (le16 w) = 2"
  by (simp add: le16_def)

lemma of_le16_le16 [simp, le_simps]: "of_le16 (le16 w @ xs) = w"
proof -
  have "(ucast (ucast w :: byte) :: uint16) + push_bit 8 (ucast (ucast (drop_bit 8 w) :: byte))
      = take_bit 8 w + push_bit 8 (drop_bit 8 w)"
    by (rule arg_cong2 [where f = "(+)"]; rule bit_word_eqI)
       (auto simp: bit_simps dest: bit_imp_le_length)
  also have "\<dots> = w"
    using bits_ident [of 8 w] by (simp only: add.commute)
  finally show ?thesis
    by (simp add: le16_def of_le16_def)
qed

lemma of_le16_le16_0 [simp, le_simps]: "of_le16 (le16 w) = w"
  using of_le16_le16 [of w "[]"] by simp

lemma of_le16_take [simp, le_simps]: "2 \<le> n \<Longrightarrow> of_le16 (take n bs) = of_le16 bs"
  by (cases n; cases bs; cases "tl bs"; simp add: of_le16_def split: nat.splits list.splits)
     (auto simp: take_Cons split: nat.splits)

lemma of_le16_append [le_simps]: "2 \<le> length bs \<Longrightarrow> of_le16 (bs @ cs) = of_le16 bs"
  by (cases bs; cases "tl bs") (auto simp: of_le16_def)

section \<open>Lists\<close>

lemma take_drop_append_middle:
  "n \<le> length xs \<Longrightarrow> take n (drop (length ys) (ys @ xs @ zs)) = take n xs"
  by simp

end
