(* ===== verification/Framing.thy ===== *)
theory Framing
  imports Prelude
begin

text \<open>
  The abstract specification of the packet stream: how a sequence of bytes splits into packets
  (the header comment of Shared/PacketBuffer.h), and the contract a buffer of such bytes has
  with the code that fills and drains it. Nothing here models code; PacketBuffer.thy shows
  that the class meets the contract, and the session components rest on it.
\<close>

section \<open>Packets of a byte stream\<close>

definition frame_len :: "byte list \<Rightarrow> nat" where
  "frame_len bs = unat (of_le16 bs)"

definition frame_ready :: "byte list \<Rightarrow> bool" where
  "frame_ready bs \<longleftrightarrow> 2 \<le> length bs \<and> 0 < frame_len bs \<and> frame_len bs \<le> length bs"

function frames :: "byte list \<Rightarrow> byte list list \<times> byte list" where
  "frames bs =
     (if frame_ready bs
      then (case frames (drop (frame_len bs) bs) of (ps, r) \<Rightarrow> (take (frame_len bs) bs # ps, r))
      else ([], bs))"
  by pat_completeness auto
termination
  by (relation "measure length") (auto simp: frame_ready_def)

declare frames.simps [simp del]

definition frame :: "uint16 \<Rightarrow> byte list \<Rightarrow> byte list" where
  "frame no payload = le16 (of_nat (4 + length payload)) @ le16 no @ payload"

definition frame_no :: "byte list \<Rightarrow> uint16" where
  "frame_no p = of_le16 (drop 2 p)"

definition frame_payload :: "byte list \<Rightarrow> byte list" where
  "frame_payload p = drop 4 p"

lemma length_frame [simp]: "length (frame no payload) = 4 + length payload"
  by (simp add: frame_def)

lemma frame_no_frame [simp]: "frame_no (frame no payload) = no"
  by (simp add: frame_def frame_no_def)

lemma frame_payload_frame [simp]: "frame_payload (frame no payload) = payload"
  by (simp add: frame_def frame_payload_def)

lemma frame_len_append: "2 \<le> length bs \<Longrightarrow> frame_len (bs @ cs) = frame_len bs"
  by (simp add: frame_len_def of_le16_append)

lemma frame_ready_append: "frame_ready bs \<Longrightarrow> frame_ready (bs @ cs)"
  by (auto simp: frame_ready_def frame_len_append)

lemma frame_len_frame: "length payload \<le> 65531 \<Longrightarrow> frame_len (frame no payload @ bs) = 4 + length payload"
  unfolding frame_len_def frame_def append_assoc of_le16_le16 by (rule unat_of_nat16) simp

lemma frame_ready_frame: "length payload \<le> 65531 \<Longrightarrow> frame_ready (frame no payload @ bs)"
  by (simp add: frame_ready_def frame_len_frame)

lemma frames_Nil [simp]: "frames [] = ([], [])"
  by (simp add: frames.simps frame_ready_def)

lemma frames_not_ready: "\<not> frame_ready bs \<Longrightarrow> frames bs = ([], bs)"
  by (simp add: frames.simps)

lemma frames_ready:
  "frame_ready bs \<Longrightarrow> frames bs =
     (take (frame_len bs) bs # fst (frames (drop (frame_len bs) bs)), snd (frames (drop (frame_len bs) bs)))"
  by (simp add: frames.simps [of bs] split_beta)

lemma frames_frame:
  "length payload \<le> 65531 \<Longrightarrow>
     frames (frame no payload @ bs) = (frame no payload # fst (frames bs), snd (frames bs))"
  by (simp add: frames_ready frame_ready_frame frame_len_frame)

lemma frames_concat: "concat (fst (frames bs)) @ snd (frames bs) = bs"
proof (induction bs rule: frames.induct)
  case (1 bs)
  show ?case
    by (cases "frame_ready bs") (simp_all add: frames_ready frames_not_ready 1)
qed

lemma frames_rest_not_ready: "\<not> frame_ready (snd (frames bs))"
proof (induction bs rule: frames.induct)
  case (1 bs)
  show ?case
    by (cases "frame_ready bs") (simp_all add: frames_ready frames_not_ready 1)
qed

text \<open>
  The packets of a stream do not depend on how the stream was cut into reads: splitting the
  first part, and then what is left of it followed by the second part, splits the whole.
\<close>

lemma frames_append:
  "frames (as @ bs) = (fst (frames as) @ fst (frames (snd (frames as) @ bs)),
     snd (frames (snd (frames as) @ bs)))"
proof (induction as rule: frames.induct)
  case (1 as)
  show ?case
  proof (cases "frame_ready as")
    case True
    then have "frame_len (as @ bs) = frame_len as" and le: "frame_len as \<le> length as"
      by (simp_all add: frame_ready_def frame_len_append)
    with True 1 [OF True] show ?thesis
      by (simp add: frames_ready [OF frame_ready_append [OF True]] frames_ready [OF True])
  next
    case False
    then show ?thesis by (simp add: frames_not_ready)
  qed
qed

lemma frames_concat_frames:
  "\<forall>p \<in> set ps. length (snd p) \<le> 65531 \<Longrightarrow>
     frames (concat (map (\<lambda>(no, payload). frame no payload) ps) @ bs) =
       (map (\<lambda>(no, payload). frame no payload) ps @ fst (frames bs), snd (frames bs))"
  by (induction ps) (auto simp: frames_frame split: prod.splits)

section \<open>The contract of a buffer of packets\<close>

text \<open>
  \<open>append\<close> adds bytes at the end if they fit and changes nothing otherwise, \<open>ready\<close> says whether
  a whole packet is at the front, \<open>consume\<close> drops it. No operation faults on a valid buffer.
\<close>

locale frame_queue =
  fixes invar :: "'q \<Rightarrow> bool"
    and abs :: "'q \<Rightarrow> byte list"
    and capacity :: nat
    and append :: "byte list \<Rightarrow> 'q \<Rightarrow> (bool \<times> 'q) option"
    and ready :: "'q \<Rightarrow> bool option"
    and consume :: "'q \<Rightarrow> 'q option"
  assumes abs_bounded: "invar q \<Longrightarrow> length (abs q) \<le> capacity"
    and append_fits: "invar q \<Longrightarrow> bs \<noteq> [] \<Longrightarrow> length (abs q) + length bs \<le> capacity \<Longrightarrow>
      \<exists>q'. append bs q = Some (True, q') \<and> invar q' \<and> abs q' = abs q @ bs"
    and append_full: "invar q \<Longrightarrow> length (abs q) + length bs > capacity \<Longrightarrow> length bs \<le> capacity \<Longrightarrow>
      \<exists>q'. append bs q = Some (False, q') \<and> invar q' \<and> abs q' = abs q"
    and append_nothing: "append [] q = Some (False, q)"
    and ready_iff: "invar q \<Longrightarrow> ready q = Some (frame_ready (abs q))"
    and consume_ready: "invar q \<Longrightarrow> frame_ready (abs q) \<Longrightarrow>
      \<exists>q'. consume q = Some q' \<and> invar q' \<and> abs q' = drop (frame_len (abs q)) (abs q)"
begin

text \<open>Appending never faults, keeps the invariant, and returns true exactly when it stored the bytes.\<close>

lemma append_total:
  assumes "invar q" and "length bs \<le> capacity"
  shows "\<exists>ok q'. append bs q = Some (ok, q') \<and> invar q' \<and> abs q' = (if ok then abs q @ bs else abs q) \<and>
    (ok \<longleftrightarrow> bs \<noteq> [] \<and> length (abs q) + length bs \<le> capacity)"
proof (cases "bs = []")
  case True
  with assms append_nothing [of q] show ?thesis by auto
next
  case False
  show ?thesis
  proof (cases "length (abs q) + length bs \<le> capacity")
    case True
    with append_fits [OF assms(1) False] False show ?thesis by fastforce
  next
    case False
    with append_full [OF assms(1), of bs] assms(2) show ?thesis by fastforce
  qed
qed

text \<open>Consuming a packet makes progress: what drains the buffer ends.\<close>

lemma consume_progress:
  assumes "invar q" and "ready q = Some True"
  shows "\<exists>q'. consume q = Some q' \<and> invar q' \<and> length (abs q') < length (abs q)"
proof -
  from assms have "frame_ready (abs q)" by (simp add: ready_iff)
  with consume_ready [OF assms(1)] show ?thesis by (auto simp: frame_ready_def)
qed

text \<open>Consuming takes the first packet off the split of the contents and leaves the others.\<close>

lemma consume_frames:
  assumes "invar q" and "ready q = Some True"
  shows "\<exists>q'. consume q = Some q' \<and> invar q' \<and>
    frames (abs q) = (take (frame_len (abs q)) (abs q) # fst (frames (abs q')), snd (frames (abs q')))"
proof -
  from assms have r: "frame_ready (abs q)" by (simp add: ready_iff)
  with consume_ready [OF assms(1)] show ?thesis by (auto simp: frames_ready [OF r])
qed

lemma not_ready_frames:
  "invar q \<Longrightarrow> ready q = Some False \<Longrightarrow> frames (abs q) = ([], abs q)"
  by (simp add: ready_iff frames_not_ready)

text \<open>A packet that is ready stays at the front when more bytes arrive.\<close>

lemma ready_append:
  assumes "invar q" and "ready q = Some True" and "append bs q = Some (ok, q')"
    and "length bs \<le> capacity"
  shows "ready q' = Some True"
    and "take (frame_len (abs q')) (abs q') = take (frame_len (abs q)) (abs q)"
proof -
  have r: "frame_ready (abs q)" using assms by (simp add: ready_iff)
  have q': "invar q'" "abs q' = abs q @ bs \<or> abs q' = abs q"
    using append_total [OF assms(1,4)] assms(3) by (auto split: if_splits)
  show "ready q' = Some True"
    using q' r by (auto simp: ready_iff frame_ready_append)
  show "take (frame_len (abs q')) (abs q') = take (frame_len (abs q)) (abs q)"
    using q'(2) r by (auto simp: frame_ready_def frame_len_append)
qed

end

end
