(* ===== verification/PacketBuffer.thy ===== *)
theory PacketBuffer
  imports Framing
begin

text \<open>
  Shared/PacketBuffer.h and Shared/PacketBuffer.cpp: the fixed buffer in which the server and the
  client collect the bytes of a TCP stream and from which they take length-prefixed packets. A
  packet is its size (2 bytes, header included), its protocol number (2 bytes) and its payload.

  The state is the class's three members. Positions are \<open>uint16\<close> and wrap as the code's do;
  the array is a list of bytes, and a copy outside of it is \<open>None\<close>. The messages the code logs on
  its error paths are output only and are left out.
\<close>

section \<open>State\<close>

definition MAX_BUF_SIZE :: nat where
  "MAX_BUF_SIZE = 65535"

record packet_buffer =
  buffer :: "byte list"
  readPos :: uint16
  writePos :: uint16

text \<open>The constructor; \<open>buffer.assign(0)\<close> fills the array with zeros.\<close>

definition PacketBuffer_init :: packet_buffer where
  "PacketBuffer_init = \<lparr>buffer = replicate MAX_BUF_SIZE 0, readPos = 0, writePos = 0\<rparr>"

definition Clear :: "packet_buffer \<Rightarrow> packet_buffer" where
  "Clear pb = pb\<lparr>readPos := 0, writePos := 0, buffer := replicate MAX_BUF_SIZE 0\<rparr>"

section \<open>Operations\<close>

definition GetHeaderSize :: uint16 where
  "GetHeaderSize = 2 + 2"

definition GetRemainSize :: "packet_buffer \<Rightarrow> uint16" where
  "GetRemainSize pb = word_of_int (int (length (buffer pb)) - uint (writePos pb))"

definition GetBufferSize :: "packet_buffer \<Rightarrow> uint16" where
  "GetBufferSize pb = (if readPos pb > writePos pb then 0 else writePos pb - readPos pb)"

text \<open>The pointer \<open>buffer.data() + readPos\<close>, as an index into the array.\<close>

definition GetBuffer :: "packet_buffer \<Rightarrow> nat" where
  "GetBuffer pb = unat (readPos pb)"

definition GetPacketBuffer :: "packet_buffer \<Rightarrow> nat" where
  "GetPacketBuffer pb = GetBuffer pb"

definition GetPacketSize :: "packet_buffer \<Rightarrow> uint16 option" where
  "GetPacketSize pb =
     (if GetBufferSize pb < 2 then Some 0
      else map_option of_le16 (mem_read (unat (readPos pb)) 2 (buffer pb)))"

definition GetPacketNo :: "packet_buffer \<Rightarrow> uint16 option" where
  "GetPacketNo pb =
     (if writePos pb < GetHeaderSize then Some 0
      else map_option of_le16 (mem_read (unat (readPos pb) + 2) 2 (buffer pb)))"

definition GetPayloadBuffer :: "packet_buffer \<Rightarrow> nat" where
  "GetPayloadBuffer pb = GetBuffer pb + unat GetHeaderSize"

definition GetPayloadBufferSize :: "packet_buffer \<Rightarrow> uint16 option" where
  "GetPayloadBufferSize pb = map_option (\<lambda>n. n - GetHeaderSize) (GetPacketSize pb)"

definition GetPayloadSize :: "packet_buffer \<Rightarrow> uint16 option" where
  "GetPayloadSize pb = map_option (\<lambda>n. n - GetHeaderSize) (GetPacketSize pb)"

definition IsAbleToGetPacket :: "packet_buffer \<Rightarrow> bool option" where
  "IsAbleToGetPacket pb = do {
     packetSize \<leftarrow> GetPacketSize pb;
     if packetSize = 0 then Some False
     else let packetBufferSize = GetBufferSize pb in
       if packetBufferSize = 0 then Some False
       else Some (packetSize \<le> packetBufferSize)
   }"

definition TruncateBuffer :: "uint16 \<Rightarrow> packet_buffer \<Rightarrow> packet_buffer" where
  "TruncateBuffer n pb =
     (if n > GetBufferSize pb then pb else pb\<lparr>readPos := readPos pb + n\<rparr>)"

definition ConsumePacket :: "packet_buffer \<Rightarrow> packet_buffer option" where
  "ConsumePacket pb = map_option (\<lambda>packetSize. TruncateBuffer packetSize pb) (GetPacketSize pb)"

definition ReArrange :: "packet_buffer \<Rightarrow> packet_buffer option" where
  "ReArrange pb = (let bufferSize = GetBufferSize pb in do {
     bs \<leftarrow> mem_read (GetBuffer pb) (unat bufferSize) (buffer pb);
     mem \<leftarrow> mem_write 0 bs (buffer pb);
     Some (pb\<lparr>buffer := mem, readPos := 0, writePos := bufferSize\<rparr>)
   })"

text \<open>
  \<open>AppendBuffer\<close>: the pointer argument is \<open>None\<close> for a null pointer, otherwise the memory it points
  to, from which \<open>n\<close> bytes are copied.
\<close>

definition AppendBuffer :: "byte list option \<Rightarrow> uint16 \<Rightarrow> packet_buffer \<Rightarrow> (bool \<times> packet_buffer) option"
where
  "AppendBuffer pBuffer n pb =
     (case pBuffer of
        None \<Rightarrow> Some (False, pb)
      | Some src \<Rightarrow>
          if n = 0 then Some (False, pb)
          else do {
            pb \<leftarrow> (if n > GetRemainSize pb then ReArrange pb else Some pb);
            if n > GetRemainSize pb then Some (False, pb)
            else do {
              bs \<leftarrow> mem_read 0 (unat n) src;
              mem \<leftarrow> mem_write (unat (writePos pb)) bs (buffer pb);
              Some (True, pb\<lparr>buffer := mem, writePos := writePos pb + n\<rparr>)
            }
          })"

definition SetPacketSize :: "uint16 \<Rightarrow> packet_buffer \<Rightarrow> (bool \<times> packet_buffer) option" where
  "SetPacketSize packetSize pb =
     (if unat packetSize > MAX_BUF_SIZE then Some (False, pb)
      else do {
        mem \<leftarrow> mem_write (unat (writePos pb)) (le16 packetSize) (buffer pb);
        Some (True, pb\<lparr>buffer := mem, writePos := writePos pb + 2\<rparr>)
      })"

definition SetPacketNo :: "uint16 \<Rightarrow> packet_buffer \<Rightarrow> (bool \<times> packet_buffer) option" where
  "SetPacketNo packetNo pb = do {
     mem \<leftarrow> mem_write (unat (writePos pb)) (le16 packetNo) (buffer pb);
     Some (True, pb\<lparr>buffer := mem, writePos := writePos pb + 2\<rparr>)
   }"

text \<open>
  The template argument of \<open>SetPacket\<close>: what it calls on a packet class. \<open>SerializeToArray\<close> gets
  the array it may write to and returns its result and the array afterwards (\<open>None\<close>: the process
  aborts, or the write is outside the array).
\<close>

record 'm packet_class =
  ByteSize :: "'m \<Rightarrow> int"
  SerializeToArray :: "'m \<Rightarrow> byte list \<Rightarrow> int \<Rightarrow> (bool \<times> byte list) option"
  PROTOCOL_NUMBER :: uint16

definition SetPacket :: "('m, 'z) packet_class_scheme \<Rightarrow> 'm \<Rightarrow> packet_buffer \<Rightarrow> (bool \<times> packet_buffer) option"
where
  "SetPacket C packet pb =
     (let packetSize = word_of_int (uint GetHeaderSize + ByteSize C packet) :: uint16 in do {
        pb \<leftarrow> (if packetSize > GetRemainSize pb then ReArrange pb else Some pb);
        if packetSize > GetRemainSize pb then Some (False, pb)
        else do {
          (ok, pb) \<leftarrow> SetPacketSize packetSize pb;
          if \<not> ok then Some (False, pb)
          else do {
            (ok, pb) \<leftarrow> SetPacketNo (PROTOCOL_NUMBER C) pb;
            if \<not> ok then Some (False, pb)
            else do {
              (ok, buf) \<leftarrow> SerializeToArray C packet (replicate MAX_BUF_SIZE 0) (int MAX_BUF_SIZE);
              if \<not> ok then Some (False, pb)
              else do {
                (ok, pb) \<leftarrow> AppendBuffer (Some buf) (word_of_int (ByteSize C packet)) pb;
                if \<not> ok then Some (False, pb) else Some (True, pb)
              }
            }
          }
        }
      })"

section \<open>The abstract view: a bounded queue of bytes\<close>

text \<open>
  \<open>pb_ok\<close> is the class invariant, \<open>contents\<close> the bytes that were appended and not yet consumed.
\<close>

definition pb_ok :: "packet_buffer \<Rightarrow> bool" where
  "pb_ok pb \<longleftrightarrow> length (buffer pb) = MAX_BUF_SIZE \<and> readPos pb \<le> writePos pb"

definition contents :: "packet_buffer \<Rightarrow> byte list" where
  "contents pb = take (unat (writePos pb) - unat (readPos pb)) (drop (unat (readPos pb)) (buffer pb))"

named_theorems pb_simps "exact effect of the packet buffer's operations"

lemma pb_okD:
  assumes "pb_ok pb"
  shows "length (buffer pb) = 65535" and "unat (readPos pb) \<le> unat (writePos pb)"
    and "unat (writePos pb) \<le> 65535"
  using assms by (auto simp: pb_ok_def MAX_BUF_SIZE_def word_le_nat_alt unat_uint16_le)

lemma length_contents: "pb_ok pb \<Longrightarrow> length (contents pb) = unat (writePos pb) - unat (readPos pb)"
  using pb_okD [of pb] by (simp add: contents_def)

lemma length_contents_le: "pb_ok pb \<Longrightarrow> length (contents pb) \<le> 65535"
  using pb_okD [of pb] by (simp add: length_contents)

lemma pb_ok_init [simp]: "pb_ok PacketBuffer_init" and contents_init [simp]: "contents PacketBuffer_init = []"
  by (simp_all add: pb_ok_def PacketBuffer_init_def contents_def)

lemma pb_ok_Clear [simp]: "pb_ok (Clear pb)" and contents_Clear [simp]: "contents (Clear pb) = []"
  by (simp_all add: pb_ok_def Clear_def contents_def)

lemma unat_GetHeaderSize [simp]: "unat GetHeaderSize = 4"
  by (simp add: GetHeaderSize_def)

lemma unat_GetRemainSize: "pb_ok pb \<Longrightarrow> unat (GetRemainSize pb) = 65535 - unat (writePos pb)"
proof -
  assume ok: "pb_ok pb"
  have "writePos pb \<le> 65535"
    by (simp add: word_le_nat_alt unat_uint16_le)
  with pb_okD [OF ok] show ?thesis
    by (simp add: GetRemainSize_def unat_sub)
qed

lemma unat_GetBufferSize: "pb_ok pb \<Longrightarrow> unat (GetBufferSize pb) = length (contents pb)"
  by (auto simp: GetBufferSize_def pb_ok_def length_contents unat_sub)

lemma GetBufferSize_eq: "pb_ok pb \<Longrightarrow> GetBufferSize pb = of_nat (length (contents pb))"
  by (metis unat_GetBufferSize of_nat_unat ucast_id)

text \<open>Reading at an offset of the unconsumed bytes.\<close>

lemma mem_read_contents:
  assumes "pb_ok pb" and "off + n \<le> length (contents pb)"
  shows "mem_read (unat (readPos pb) + off) n (buffer pb) = Some (take n (drop off (contents pb)))"
proof -
  from assms have "unat (readPos pb) + off + n \<le> length (buffer pb)"
    using pb_okD [OF assms(1)] by (simp add: length_contents)
  moreover have "take n (drop (unat (readPos pb) + off) (buffer pb)) = take n (drop off (contents pb))"
    using assms(2) unfolding length_contents [OF assms(1)]
    by (auto simp: contents_def drop_take add.commute)
  ultimately show ?thesis by (simp add: mem_simps)
qed

text \<open>Writing after the unconsumed bytes, which every operation that adds bytes does.\<close>

lemma pb_put:
  assumes ok: "pb_ok pb" and room: "unat (writePos pb) + length bs \<le> 65535"
  obtains mem where "mem_write (unat (writePos pb)) bs (buffer pb) = Some mem"
    and "pb_ok (pb\<lparr>buffer := mem, writePos := writePos pb + of_nat (length bs)\<rparr>)"
    and "contents (pb\<lparr>buffer := mem, writePos := writePos pb + of_nat (length bs)\<rparr>) = contents pb @ bs"
    and "unat (writePos pb + of_nat (length bs)) = unat (writePos pb) + length bs"
proof -
  note d = pb_okD [OF ok]
  have w: "unat (writePos pb + of_nat (length bs)) = unat (writePos pb) + length bs"
    using room by (simp add: unat_word_ariths unat_of_nat)
  let ?mem = "take (unat (writePos pb)) (buffer pb) @ bs @ drop (unat (writePos pb) + length bs) (buffer pb)"
  have "mem_write (unat (writePos pb)) bs (buffer pb) = Some ?mem"
    using d room by (simp add: mem_simps)
  moreover have "pb_ok (pb\<lparr>buffer := ?mem, writePos := writePos pb + of_nat (length bs)\<rparr>)"
    using d room w by (simp add: pb_ok_def MAX_BUF_SIZE_def word_le_nat_alt)
  moreover have "contents (pb\<lparr>buffer := ?mem, writePos := writePos pb + of_nat (length bs)\<rparr>) = contents pb @ bs"
    using d room w by (simp add: contents_def drop_take)
  ultimately show ?thesis using w that by blast
qed

lemma ReArrange_Some:
  assumes ok: "pb_ok pb"
  obtains pb' where "ReArrange pb = Some pb'" and "pb_ok pb'" and "contents pb' = contents pb"
    and "readPos pb' = 0" and "unat (writePos pb') = length (contents pb)"
proof -
  let ?n = "length (contents pb)"
  let ?mem = "contents pb @ drop ?n (buffer pb)"
  let ?pb' = "pb\<lparr>buffer := ?mem, readPos := 0, writePos := GetBufferSize pb\<rparr>"
  note d = pb_okD [OF ok] and bs = unat_GetBufferSize [OF ok]
  have rd: "mem_read (unat (readPos pb)) ?n (buffer pb) = Some (contents pb)"
    using mem_read_contents [OF ok, of 0 ?n] by simp
  have n: "?n \<le> 65535" by (rule length_contents_le [OF ok])
  have "mem_write 0 (contents pb) (buffer pb) = Some ?mem"
    using d n by (simp add: mem_simps)
  with rd have "ReArrange pb = Some ?pb'"
    by (simp add: ReArrange_def GetBuffer_def bs)
  moreover have "pb_ok ?pb'"
    using n d by (simp add: pb_ok_def MAX_BUF_SIZE_def)
  moreover have "contents ?pb' = contents pb"
    using bs by (simp add: contents_def [of ?pb'])
  ultimately show ?thesis
    using bs that [of ?pb'] by simp
qed

text \<open>The first half of \<open>AppendBuffer\<close> and of \<open>SetPacket\<close>: compact when the tail is too short.\<close>

lemma make_room:
  assumes ok: "pb_ok pb"
  obtains pb' where "(if n > GetRemainSize pb then ReArrange pb else Some pb) = Some pb'"
    and "pb_ok pb'" and "contents pb' = contents pb"
    and "n > GetRemainSize pb' \<longleftrightarrow> length (contents pb) + unat n > 65535"
proof (cases "n > GetRemainSize pb")
  case True
  obtain pb' where pb': "ReArrange pb = Some pb'" "pb_ok pb'" "contents pb' = contents pb"
    "unat (writePos pb') = length (contents pb)"
    using ReArrange_Some [OF ok] by metis
  have "n > GetRemainSize pb' \<longleftrightarrow> length (contents pb) + unat n > 65535"
    using unat_GetRemainSize [OF pb'(2)] pb'(4) length_contents_le [OF ok]
    by (auto simp: word_less_nat_alt)
  with pb' True that show ?thesis by simp
next
  case False
  then have "length (contents pb) + unat n \<le> 65535"
    using unat_GetRemainSize [OF ok] pb_okD [OF ok] length_contents [OF ok]
    by (simp add: word_less_nat_alt)
  with False ok that show ?thesis by simp
qed

lemma remain_room:
  "pb_ok pb \<Longrightarrow> \<not> n > GetRemainSize pb \<Longrightarrow> unat (writePos pb) + unat n \<le> 65535"
  using unat_GetRemainSize [of pb] pb_okD [of pb] by (simp add: word_less_nat_alt)

section \<open>What each operation does to the queue\<close>

lemma AppendBuffer_null [pb_simps]: "AppendBuffer None n pb = Some (False, pb)"
  by (simp add: AppendBuffer_def)

lemma AppendBuffer_zero [pb_simps]: "AppendBuffer p 0 pb = Some (False, pb)"
  by (simp add: AppendBuffer_def split: option.split)

lemma AppendBuffer_room:
  assumes ok: "pb_ok pb" and n: "n \<noteq> 0" "unat n \<le> length src"
    and room: "length (contents pb) + unat n \<le> 65535"
  obtains pb' where "AppendBuffer (Some src) n pb = Some (True, pb')" and "pb_ok pb'"
    and "contents pb' = contents pb @ take (unat n) src"
proof -
  obtain pb1 where pb1: "(if n > GetRemainSize pb then ReArrange pb else Some pb) = Some pb1"
    "pb_ok pb1" "contents pb1 = contents pb"
    "n > GetRemainSize pb1 \<longleftrightarrow> length (contents pb) + unat n > 65535"
    by (rule make_room [OF ok])
  then have fits: "\<not> n > GetRemainSize pb1" using room by simp
  have "unat (writePos pb1) + length (take (unat n) src) \<le> 65535"
    using remain_room [OF pb1(2) fits] n by simp
  then obtain mem where mem:
    "mem_write (unat (writePos pb1)) (take (unat n) src) (buffer pb1) = Some mem"
    "pb_ok (pb1\<lparr>buffer := mem, writePos := writePos pb1 + of_nat (length (take (unat n) src))\<rparr>)"
    "contents (pb1\<lparr>buffer := mem, writePos := writePos pb1 + of_nat (length (take (unat n) src))\<rparr>)
       = contents pb1 @ take (unat n) src"
    by (rule pb_put [OF pb1(2)])
  have len: "of_nat (length (take (unat n) src)) = n"
    using n(2) by (simp add: min_def)
  have "AppendBuffer (Some src) n pb = Some (True, pb1\<lparr>buffer := mem, writePos := writePos pb1 + n\<rparr>)"
    using n fits mem(1) by (simp add: AppendBuffer_def pb1(1) mem_simps)
  then show ?thesis
    using mem(2,3) that unfolding len pb1(3) by blast
qed

lemma AppendBuffer_full:
  assumes ok: "pb_ok pb" and n: "n \<noteq> 0" and room: "length (contents pb) + unat n > 65535"
  obtains pb' where "AppendBuffer (Some src) n pb = Some (False, pb')" and "pb_ok pb'"
    and "contents pb' = contents pb"
proof -
  obtain pb1 where pb1: "(if n > GetRemainSize pb then ReArrange pb else Some pb) = Some pb1"
    "pb_ok pb1" "contents pb1 = contents pb"
    "n > GetRemainSize pb1 \<longleftrightarrow> length (contents pb) + unat n > 65535"
    by (rule make_room [OF ok])
  have "AppendBuffer (Some src) n pb = Some (False, pb1)"
    using n pb1(4) room by (simp add: AppendBuffer_def pb1(1))
  with pb1(2,3) that show ?thesis by blast
qed

text \<open>Reading the header of the packet at the front.\<close>

lemma GetPacketSize_eq [pb_simps]:
  assumes "pb_ok pb"
  shows "GetPacketSize pb = Some (if length (contents pb) < 2 then 0 else of_le16 (contents pb))"
  using unat_GetBufferSize [OF assms] mem_read_contents [OF assms, of 0 2]
  by (auto simp: GetPacketSize_def word_less_nat_alt)

lemma GetPacketNo_eq:
  assumes "pb_ok pb" and "4 \<le> length (contents pb)"
  shows "GetPacketNo pb = Some (of_le16 (drop 2 (contents pb)))"
proof -
  have "\<not> writePos pb < GetHeaderSize"
    using assms(2) length_contents [OF assms(1)] by (simp add: word_less_nat_alt)
  then show ?thesis
    using mem_read_contents [OF assms(1), of 2 2] assms(2) by (simp add: GetPacketNo_def)
qed

lemma IsAbleToGetPacket_eq [pb_simps]:
  assumes "pb_ok pb"
  shows "IsAbleToGetPacket pb = Some (2 \<le> length (contents pb) \<and> of_le16 (contents pb) \<noteq> 0 \<and>
           unat (of_le16 (contents pb)) \<le> length (contents pb))"
  using unat_GetBufferSize [OF assms] unat_eq_zero [of "GetBufferSize pb"]
  by (auto simp: IsAbleToGetPacket_def GetPacketSize_eq [OF assms] word_le_nat_alt Let_def)

lemma TruncateBuffer_ok:
  assumes ok: "pb_ok pb" and n: "unat n \<le> length (contents pb)"
  shows "pb_ok (TruncateBuffer n pb)" and "contents (TruncateBuffer n pb) = drop (unat n) (contents pb)"
proof -
  note d = pb_okD [OF ok] and l = length_contents [OF ok]
  have "\<not> n > GetBufferSize pb"
    using unat_GetBufferSize [OF ok] n by (simp add: word_less_nat_alt)
  then have t: "TruncateBuffer n pb = pb\<lparr>readPos := readPos pb + n\<rparr>"
    by (simp add: TruncateBuffer_def)
  have r: "unat (readPos pb + n) = unat (readPos pb) + unat n"
    using n l d by (simp add: unat_word_ariths)
  show "pb_ok (TruncateBuffer n pb)"
    using r n l d by (simp add: t pb_ok_def MAX_BUF_SIZE_def word_le_nat_alt)
  show "contents (TruncateBuffer n pb) = drop (unat n) (contents pb)"
    using r by (simp add: t contents_def drop_take add.commute diff_diff_add)
qed

lemma TruncateBuffer_too_much [pb_simps]:
  "pb_ok pb \<Longrightarrow> unat n > length (contents pb) \<Longrightarrow> TruncateBuffer n pb = pb"
  by (simp add: TruncateBuffer_def word_less_nat_alt unat_GetBufferSize)

lemma ConsumePacket_ok:
  assumes ok: "pb_ok pb"
  obtains pb' where "ConsumePacket pb = Some pb'" and "pb_ok pb'"
    and "contents pb' = (if 2 \<le> length (contents pb) \<and> unat (of_le16 (contents pb)) \<le> length (contents pb)
           then drop (unat (of_le16 (contents pb))) (contents pb) else contents pb)"
proof -
  let ?n = "if length (contents pb) < 2 then 0 else of_le16 (contents pb)"
  have c: "ConsumePacket pb = Some (TruncateBuffer ?n pb)"
    by (simp add: ConsumePacket_def GetPacketSize_eq [OF ok])
  show ?thesis
  proof (cases "unat ?n \<le> length (contents pb)")
    case True
    with c TruncateBuffer_ok [OF ok True] show ?thesis
      by (intro that [of "TruncateBuffer ?n pb"]) auto
  next
    case False
    with c TruncateBuffer_too_much [OF ok, of ?n] ok show ?thesis
      by (intro that [of pb]) (auto split: if_splits)
  qed
qed

section \<open>The packet buffer meets the contract of Framing\<close>

interpretation pbq: frame_queue pb_ok contents MAX_BUF_SIZE
  "\<lambda>bs. AppendBuffer (Some bs) (of_nat (length bs))" IsAbleToGetPacket ConsumePacket
proof (unfold_locales, goal_cases)
  case (1 q)
  then show ?case by (simp add: length_contents_le MAX_BUF_SIZE_def)
next
  case (2 q bs)
  then have "unat (of_nat (length bs) :: uint16) = length bs"
    by (intro unat_of_nat16) (simp add: MAX_BUF_SIZE_def)
  moreover from this 2(2) have "(of_nat (length bs) :: uint16) \<noteq> 0"
    by (metis length_0_conv unat_0)
  ultimately show ?case
    using AppendBuffer_room [OF 2(1), of "of_nat (length bs)" bs] 2(3)
    by (auto simp: MAX_BUF_SIZE_def)
next
  case (3 q bs)
  then have l: "unat (of_nat (length bs) :: uint16) = length bs"
    by (intro unat_of_nat16) (simp add: MAX_BUF_SIZE_def)
  have "bs \<noteq> []" using 3 length_contents_le [OF 3(1)] by (auto simp: MAX_BUF_SIZE_def)
  with l have "(of_nat (length bs) :: uint16) \<noteq> 0"
    by (metis length_0_conv unat_0)
  with l show ?case
    using AppendBuffer_full [OF 3(1), of "of_nat (length bs)" bs] 3(2)
    by (auto simp: MAX_BUF_SIZE_def)
next
  case (4 q)
  show ?case by (simp add: AppendBuffer_zero)
next
  case (5 q)
  then show ?case
    by (auto simp: IsAbleToGetPacket_eq frame_ready_def frame_len_def unat_gt_0)
next
  case (6 q)
  then show ?case
    using ConsumePacket_ok [OF 6(1)] by (metis frame_len_def frame_ready_def)
qed

section \<open>Building a packet\<close>

lemma SetPacketSize_put:
  assumes "pb_ok pb" and "unat (writePos pb) + 2 \<le> 65535"
  obtains pb' where "SetPacketSize n pb = Some (True, pb')" and "pb_ok pb'"
    and "contents pb' = contents pb @ le16 n" and "unat (writePos pb') = unat (writePos pb) + 2"
proof -
  obtain mem where mem: "mem_write (unat (writePos pb)) (le16 n) (buffer pb) = Some mem"
    "pb_ok (pb\<lparr>buffer := mem, writePos := writePos pb + 2\<rparr>)"
    "contents (pb\<lparr>buffer := mem, writePos := writePos pb + 2\<rparr>) = contents pb @ le16 n"
    "unat (writePos pb + 2) = unat (writePos pb) + 2"
    using pb_put [OF assms(1), of "le16 n"] assms(2) by (metis length_le16 of_nat_numeral)
  have "SetPacketSize n pb = Some (True, pb\<lparr>buffer := mem, writePos := writePos pb + 2\<rparr>)"
    using mem(1) unat_uint16_le [of n] by (simp add: SetPacketSize_def MAX_BUF_SIZE_def)
  with mem that show ?thesis by simp
qed

lemma SetPacketNo_put:
  assumes "pb_ok pb" and "unat (writePos pb) + 2 \<le> 65535"
  obtains pb' where "SetPacketNo n pb = Some (True, pb')" and "pb_ok pb'"
    and "contents pb' = contents pb @ le16 n" and "unat (writePos pb') = unat (writePos pb) + 2"
proof -
  obtain mem where mem: "mem_write (unat (writePos pb)) (le16 n) (buffer pb) = Some mem"
    "pb_ok (pb\<lparr>buffer := mem, writePos := writePos pb + 2\<rparr>)"
    "contents (pb\<lparr>buffer := mem, writePos := writePos pb + 2\<rparr>) = contents pb @ le16 n"
    "unat (writePos pb + 2) = unat (writePos pb) + 2"
    using pb_put [OF assms(1), of "le16 n"] assms(2) by (metis length_le16 of_nat_numeral)
  then have "SetPacketNo n pb = Some (True, pb\<lparr>buffer := mem, writePos := writePos pb + 2\<rparr>)"
    by (simp add: SetPacketNo_def)
  with mem that show ?thesis by simp
qed

text \<open>
  \<open>SetPacket\<close> up to the call of the serializer, when the header fits: the header is in the buffer
  before anything of the payload is known.
\<close>

lemma SetPacket_header:
  fixes C :: "('m, 'z) packet_class_scheme" and m :: 'm
  assumes n_def: "n = (word_of_int (uint GetHeaderSize + ByteSize C m) :: uint16)"
    and ok: "pb_ok pb" and n4: "4 \<le> unat n" and room: "length (contents pb) + unat n \<le> 65535"
  obtains pb2 where "SetPacket C m pb = do {
      (ok, buf) \<leftarrow> SerializeToArray C m (replicate MAX_BUF_SIZE 0) (int MAX_BUF_SIZE);
      if \<not> ok then Some (False, pb2)
      else AppendBuffer (Some buf) (word_of_int (ByteSize C m)) pb2 }"
    and "pb_ok pb2" and "contents pb2 = contents pb @ le16 n @ le16 (PROTOCOL_NUMBER C)"
proof -
  obtain pb0 where pb0: "(if n > GetRemainSize pb then ReArrange pb else Some pb) = Some pb0"
    "pb_ok pb0" "contents pb0 = contents pb"
    "n > GetRemainSize pb0 \<longleftrightarrow> length (contents pb) + unat n > 65535"
    by (rule make_room [OF ok])
  then have fits: "\<not> n > GetRemainSize pb0" using room by simp
  have w: "unat (writePos pb0) + 4 \<le> 65535"
    using remain_room [OF pb0(2) fits] n4 by simp
  then have w2: "unat (writePos pb0) + 2 \<le> 65535" by simp
  obtain pb1 where pb1: "SetPacketSize n pb0 = Some (True, pb1)" "pb_ok pb1"
    "contents pb1 = contents pb0 @ le16 n" "unat (writePos pb1) = unat (writePos pb0) + 2"
    by (rule SetPacketSize_put [OF pb0(2) w2])
  have "unat (writePos pb1) + 2 \<le> 65535" using pb1(4) w by simp
  then obtain pb2 where pb2: "SetPacketNo (PROTOCOL_NUMBER C) pb1 = Some (True, pb2)" "pb_ok pb2"
    "contents pb2 = contents pb1 @ le16 (PROTOCOL_NUMBER C)"
    by (rule SetPacketNo_put [OF pb1(2)])
  have last: "(do { (ok, pb) \<leftarrow> r; if \<not> ok then Some (False, pb) else Some (True, pb) }) = r"
    for r :: "(bool \<times> packet_buffer) option"
    by (cases r) (auto split: prod.splits)
  have "SetPacket C m pb = do {
      (ok, buf) \<leftarrow> SerializeToArray C m (replicate MAX_BUF_SIZE 0) (int MAX_BUF_SIZE);
      if \<not> ok then Some (False, pb2)
      else AppendBuffer (Some buf) (word_of_int (ByteSize C m)) pb2 }"
    unfolding SetPacket_def Let_def n_def [symmetric] pb0(1) last
    using fits pb1(1) pb2(1) by simp
  with pb2 pb1 pb0 that show ?thesis by simp
qed

lemma packet_size_word:
  assumes "0 \<le> k" and "k \<le> 65531"
  shows "unat (word_of_int (uint GetHeaderSize + k) :: uint16) = 4 + nat k"
    and "(word_of_int (uint GetHeaderSize + k) :: uint16) = of_nat (4 + nat k)"
    and "unat (word_of_int k :: uint16) = nat k"
proof -
  have h: "(word_of_int (uint GetHeaderSize + k) :: uint16) = of_nat (4 + nat k)"
  proof -
    have "uint GetHeaderSize + k = int (4 + nat k)"
      using assms by (simp add: GetHeaderSize_def)
    then show ?thesis by (simp only: of_int_of_nat_eq)
  qed
  then show "(word_of_int (uint GetHeaderSize + k) :: uint16) = of_nat (4 + nat k)" .
  show "unat (word_of_int (uint GetHeaderSize + k) :: uint16) = 4 + nat k"
    unfolding h by (rule unat_of_nat16) (use assms in simp)
  have "k = int (nat k)" using assms by simp
  then have "(word_of_int k :: uint16) = of_nat (nat k)" by (metis of_int_of_nat_eq)
  moreover have "nat k \<le> 65535" using assms by linarith
  ultimately show "unat (word_of_int k :: uint16) = nat k"
    by (simp only: unat_of_nat16)
qed

text \<open>The fields of the packet at the front, once its header is there.\<close>

lemma first_frame_fields:
  assumes ok: "pb_ok pb" and r: "frame_ready (contents pb)" and h: "4 \<le> frame_len (contents pb)"
  shows "GetPacketNo pb = Some (frame_no (take (frame_len (contents pb)) (contents pb)))"
    and "GetPayloadBufferSize pb = Some (of_nat (frame_len (contents pb) - 4))"
    and "mem_read (GetPayloadBuffer pb) (frame_len (contents pb) - 4) (buffer pb) =
      Some (frame_payload (take (frame_len (contents pb)) (contents pb)))"
proof -
  let ?n = "frame_len (contents pb)"
  have l: "?n \<le> length (contents pb)" using r by (simp add: frame_ready_def)
  have "of_le16 (drop 2 (take ?n (contents pb))) = of_le16 (drop 2 (contents pb))"
    using h by (simp add: drop_take)
  then show "GetPacketNo pb = Some (frame_no (take ?n (contents pb)))"
    using GetPacketNo_eq [OF ok] l h by (simp add: frame_no_def)
  have "of_le16 (contents pb) - GetHeaderSize = of_nat (?n - 4)"
    using h by (simp add: frame_len_def GetHeaderSize_def)
  then show "GetPayloadBufferSize pb = Some (of_nat (?n - 4))"
    using l h by (simp add: GetPayloadBufferSize_def GetPacketSize_eq [OF ok])
  show "mem_read (GetPayloadBuffer pb) (?n - 4) (buffer pb) = Some (frame_payload (take ?n (contents pb)))"
    using mem_read_contents [OF ok, of 4 "?n - 4"] l h
    by (simp add: GetPayloadBuffer_def GetBuffer_def frame_payload_def drop_take)
qed

text \<open>The outcomes of \<open>SetPacket\<close>: written, no room, and a size that wraps.\<close>

lemma SetPacket_frame:
  assumes ok: "pb_ok pb" and k: "0 < ByteSize C m"
    and room: "int (length (contents pb)) + 4 + ByteSize C m \<le> 65535"
    and ser: "SerializeToArray C m (replicate MAX_BUF_SIZE 0) (int MAX_BUF_SIZE) = Some (True, payload @ rest)"
    and len: "int (length payload) = ByteSize C m"
  shows "\<exists>pb'. SetPacket C m pb = Some (True, pb') \<and> pb_ok pb' \<and>
    contents pb' = contents pb @ frame (PROTOCOL_NUMBER C) payload"
proof -
  obtain n :: uint16 where n: "n = word_of_int (uint GetHeaderSize + ByteSize C m)" by simp
  obtain l :: uint16 where l: "word_of_int (ByteSize C m) = l" by simp
  have le: "ByteSize C m \<le> 65531" using room by linarith
  have nk: "nat (ByteSize C m) = length payload" using len by linarith
  have w: "unat n = 4 + length payload" "n = of_nat (4 + length payload)" "unat l = length payload"
    using packet_size_word [of "ByteSize C m", OF less_imp_le [OF k] le] unfolding n [symmetric] l nk
    by simp_all
  have fit: "4 \<le> unat n" "length (contents pb) + unat n \<le> 65535"
    using room len w(1) by linarith+
  obtain pb2 where pb2: "SetPacket C m pb = do {
      (ok, buf) \<leftarrow> SerializeToArray C m (replicate MAX_BUF_SIZE 0) (int MAX_BUF_SIZE);
      if \<not> ok then Some (False, pb2) else AppendBuffer (Some buf) (word_of_int (ByteSize C m)) pb2 }"
    "pb_ok pb2" "contents pb2 = contents pb @ le16 n @ le16 (PROTOCOL_NUMBER C)"
    by (rule SetPacket_header [OF n ok fit])
  have "l \<noteq> 0" "unat l \<le> length (payload @ rest)" "length (contents pb2) + unat l \<le> 65535"
    using w k len fit pb2(3) by auto
  then obtain pb' where "AppendBuffer (Some (payload @ rest)) l pb2 = Some (True, pb')" "pb_ok pb'"
    "contents pb' = contents pb2 @ take (unat l) (payload @ rest)"
    by (rule AppendBuffer_room [OF pb2(2)])
  then show ?thesis
    using pb2 ser w by (simp add: frame_def l)
qed

lemma SetPacket_refused:
  assumes ok: "pb_ok pb" and k: "0 \<le> ByteSize C m" "ByteSize C m \<le> 65531"
    and room: "int (length (contents pb)) + 4 + ByteSize C m > 65535"
  shows "\<exists>pb'. SetPacket C m pb = Some (False, pb') \<and> pb_ok pb' \<and> contents pb' = contents pb"
proof -
  obtain n :: uint16 where n: "word_of_int (uint GetHeaderSize + ByteSize C m) = n" by simp
  obtain pb0 where pb0: "(if n > GetRemainSize pb then ReArrange pb else Some pb) = Some pb0"
    "pb_ok pb0" "contents pb0 = contents pb"
    "n > GetRemainSize pb0 \<longleftrightarrow> length (contents pb) + unat n > 65535"
    by (rule make_room [OF ok])
  have "unat n = 4 + nat (ByteSize C m)"
    using packet_size_word(1) [OF k] unfolding n .
  with room k have "length (contents pb) + unat n > 65535" by linarith
  with pb0(4) have "n > GetRemainSize pb0" by simp
  then have "SetPacket C m pb = Some (False, pb0)"
    unfolding SetPacket_def Let_def n pb0(1) by simp
  with pb0(2,3) show ?thesis by simp
qed

lemma SetPacket_wrapped:
  assumes ok: "pb_ok pb" and k: "65532 \<le> ByteSize C m" "ByteSize C m \<le> 65535"
    and room: "unat (writePos pb) + 4 \<le> 65535"
    and ser: "SerializeToArray C m (replicate MAX_BUF_SIZE 0) (int MAX_BUF_SIZE) = Some (True, buf)"
    and len: "length buf = 65535"
  shows "\<exists>pb'. SetPacket C m pb = Some (False, pb') \<and> pb_ok pb' \<and>
    contents pb' = contents pb @ le16 (of_nat (nat (ByteSize C m) - 65532)) @ le16 (PROTOCOL_NUMBER C)"
proof -
  define j where "j = nat (ByteSize C m) - 65532"
  have j: "j \<le> 3" "ByteSize C m = int (j + 65532)" using k unfolding j_def by auto
  have n: "(word_of_int (uint GetHeaderSize + ByteSize C m) :: uint16) = of_nat j"
  proof -
    have "(word_of_int (uint GetHeaderSize + ByteSize C m) :: uint16) = of_int (int (j + 65536))"
      by (simp add: j(2) GetHeaderSize_def)
    also have "\<dots> = of_nat (j + 65536)" by (simp only: of_int_of_nat_eq)
    also have "\<dots> = of_nat j + of_nat 65536" by (simp only: of_nat_add)
    finally show ?thesis by simp
  qed
  have l: "(word_of_int (ByteSize C m) :: uint16) = of_nat (j + 65532)"
    unfolding j(2) by (simp only: of_int_of_nat_eq)
  have uj: "unat (of_nat j :: uint16) = j" and ul: "unat (of_nat (j + 65532) :: uint16) = j + 65532"
    using j(1) by (intro unat_of_nat16; simp)+
  have fits: "\<not> (of_nat j :: uint16) > GetRemainSize pb"
    using room j(1) unat_GetRemainSize [OF ok] by (simp add: word_less_nat_alt uj)
  have w2: "unat (writePos pb) + 2 \<le> 65535" using room by simp
  obtain pb1 where pb1: "SetPacketSize (of_nat j) pb = Some (True, pb1)" "pb_ok pb1"
    "contents pb1 = contents pb @ le16 (of_nat j)" "unat (writePos pb1) = unat (writePos pb) + 2"
    by (rule SetPacketSize_put [OF ok w2])
  have "unat (writePos pb1) + 2 \<le> 65535" using pb1(4) room by simp
  then obtain pb2 where pb2: "SetPacketNo (PROTOCOL_NUMBER C) pb1 = Some (True, pb2)" "pb_ok pb2"
    "contents pb2 = contents pb1 @ le16 (PROTOCOL_NUMBER C)"
    by (rule SetPacketNo_put [OF pb1(2)])
  have full: "length (contents pb2) + unat (of_nat (j + 65532) :: uint16) > 65535"
    unfolding ul using pb2(3) pb1(3) by simp
  have nz: "(of_nat (j + 65532) :: uint16) \<noteq> 0" using ul by (metis unat_0 add_is_0 zero_neq_numeral)
  obtain pb' where "AppendBuffer (Some buf) (of_nat (j + 65532)) pb2 = Some (False, pb')" "pb_ok pb'"
    "contents pb' = contents pb2"
    by (rule AppendBuffer_full [OF pb2(2) nz full])
  then show ?thesis
    unfolding SetPacket_def Let_def n l j_def [symmetric] using fits pb1 pb2 ser by simp
qed

text \<open>
  Every operation keeps the class invariant whenever it returns, also on the paths that the
  lemmas above leave out.
\<close>

named_theorems keeps_ok "operations keep the invariant of the packet buffer"

lemma put_ok:
  assumes ok: "pb_ok pb" and w: "mem_write (unat (writePos pb)) bs (buffer pb) = Some mem"
  shows "pb_ok (pb\<lparr>buffer := mem, writePos := writePos pb + of_nat (length bs)\<rparr>)"
proof -
  have "unat (writePos pb) + length bs \<le> 65535"
    using w pb_okD(1) [OF ok] by (auto simp: mem_write_def split: if_splits)
  from pb_put [OF ok this] w show ?thesis by auto
qed

lemma ReArrange_ok [keeps_ok]: "pb_ok pb \<Longrightarrow> ReArrange pb = Some pb' \<Longrightarrow> pb_ok pb'"
  by (metis ReArrange_Some option.inject)

lemma ConsumePacket_keeps [keeps_ok]: "pb_ok pb \<Longrightarrow> ConsumePacket pb = Some pb' \<Longrightarrow> pb_ok pb'"
  by (metis ConsumePacket_ok option.inject)

lemma AppendBuffer_ok [keeps_ok]:
  assumes ok: "pb_ok pb" and a: "AppendBuffer p n pb = Some (r, pb')"
  shows "pb_ok pb'"
proof (cases "p = None \<or> n = 0")
  case True
  then show ?thesis using ok a by (auto simp: pb_simps)
next
  case False
  then obtain src where p: "p = Some src" "n \<noteq> 0" by auto
  obtain pb1 where pb1: "(if n > GetRemainSize pb then ReArrange pb else Some pb) = Some pb1" "pb_ok pb1"
    by (rule make_room [OF ok])
  show ?thesis
  proof (cases "n > GetRemainSize pb1")
    case True
    then show ?thesis using a p pb1 by (simp add: AppendBuffer_def)
  next
    case False
    then obtain bs mem where "mem_read 0 (unat n) src = Some bs"
      "mem_write (unat (writePos pb1)) bs (buffer pb1) = Some mem"
      "pb' = pb1\<lparr>buffer := mem, writePos := writePos pb1 + n\<rparr>"
      using a p pb1(1) by (auto simp: AppendBuffer_def bind_Some_iff)
    then show ?thesis using put_ok [OF pb1(2), of bs mem] mem_read_length [of 0 "unat n" src bs] by simp
  qed
qed

lemma SetPacketSize_ok [keeps_ok]: "pb_ok pb \<Longrightarrow> SetPacketSize n pb = Some (r, pb') \<Longrightarrow> pb_ok pb'"
  using put_ok [of pb "le16 n"] by (auto simp: SetPacketSize_def bind_Some_iff split: if_splits)

lemma SetPacketNo_ok [keeps_ok]: "pb_ok pb \<Longrightarrow> SetPacketNo n pb = Some (r, pb') \<Longrightarrow> pb_ok pb'"
  using put_ok [of pb "le16 n"] by (auto simp: SetPacketNo_def bind_Some_iff)

lemma SetPacket_ok [keeps_ok]:
  assumes ok: "pb_ok pb" and a: "SetPacket C m pb = Some (r, pb')"
  shows "pb_ok pb'"
proof -
  obtain n :: uint16 where n: "word_of_int (uint GetHeaderSize + ByteSize C m) = n" by simp
  obtain l :: uint16 where l: "word_of_int (ByteSize C m) = l" by simp
  obtain pb1 where pb1: "(if n > GetRemainSize pb then ReArrange pb else Some pb) = Some pb1" "pb_ok pb1"
    by (rule make_room [OF ok])
  show ?thesis
  proof (cases "n > GetRemainSize pb1")
    case True
    then show ?thesis using a pb1 unfolding SetPacket_def Let_def n by simp
  next
    case False
    then obtain ok2 pb2 where 2: "SetPacketSize n pb1 = Some (ok2, pb2)"
      using a pb1(1) unfolding SetPacket_def Let_def n by (cases "SetPacketSize n pb1") auto
    then have ok2: "pb_ok pb2" using pb1(2) keeps_ok by blast
    show ?thesis
    proof (cases ok2)
      case False
      then show ?thesis using a pb1 2 \<open>\<not> n > GetRemainSize pb1\<close> ok2 unfolding SetPacket_def Let_def n by simp
    next
      case True
      then obtain ok3 pb3 where 3: "SetPacketNo (PROTOCOL_NUMBER C) pb2 = Some (ok3, pb3)"
        using a pb1(1) 2 False unfolding SetPacket_def Let_def n
        by (cases "SetPacketNo (PROTOCOL_NUMBER C) pb2") auto
      then have "pb_ok pb3" using ok2 keeps_ok by blast
      then show ?thesis
        using a pb1(1) 2 3 True False AppendBuffer_ok [of pb3] unfolding SetPacket_def Let_def n l
        by (auto simp: bind_Some_iff split: if_splits)
    qed
  qed
qed

section \<open>Concrete buffers and messages\<close>

text \<open>
  A buffer that holds the given bytes from the start of the array, and the packet class of messages
  that are their own serialization: the instances at which the properties are exercised.
\<close>

definition filled_buffer :: "byte list \<Rightarrow> packet_buffer" where
  "filled_buffer bs =
     \<lparr>buffer = bs @ replicate (65535 - length bs) 0, readPos = 0, writePos = of_nat (length bs)\<rparr>"

definition raw_packet :: "byte list packet_class" where
  "raw_packet =
     \<lparr>ByteSize = (\<lambda>m. int (length m)),
      SerializeToArray = (\<lambda>m buf n. map_option (Pair True) (mem_write 0 m buf)),
      PROTOCOL_NUMBER = 1\<rparr>"

lemma filled_buffer_ok [simp]:
  assumes "length bs \<le> 65535"
  shows "pb_ok (filled_buffer bs)" and "contents (filled_buffer bs) = bs"
    and "unat (writePos (filled_buffer bs)) = length bs"
  using assms by (simp_all add: filled_buffer_def pb_ok_def contents_def MAX_BUF_SIZE_def unat_of_nat16)

lemma raw_packet_simps [simp]:
  "ByteSize raw_packet m = int (length m)" "PROTOCOL_NUMBER raw_packet = 1"
  "length m \<le> 65535 \<Longrightarrow> SerializeToArray raw_packet m (replicate MAX_BUF_SIZE 0) n =
     Some (True, m @ replicate (65535 - length m) 0)"
  by (simp_all add: raw_packet_def mem_simps MAX_BUF_SIZE_def)

section \<open>Properties\<close>

text \<open>
  C4. \<open>AppendBuffer\<close> on a valid buffer is memory safe, keeps the class invariant, and is
  all-or-nothing: it stores the whole block at the end when the unconsumed bytes and the block
  together fit into the array (compacting first when the tail is too short), and otherwise
  returns false with the unconsumed bytes unchanged.
\<close>

theorem AppendBuffer_all_or_nothing:
  assumes "pb_ok pb" and "length bs \<le> 65535"
  shows "\<exists>ok pb'. AppendBuffer (Some bs) (of_nat (length bs)) pb = Some (ok, pb') \<and> pb_ok pb' \<and>
    contents pb' = (if ok then contents pb @ bs else contents pb) \<and>
    (ok \<longleftrightarrow> bs \<noteq> [] \<and> length (contents pb) + length bs \<le> 65535)"
  using pbq.append_total [of pb bs] assms by (simp add: MAX_BUF_SIZE_def)

theorem AppendBuffer_all_or_nothing_witness:
  "\<exists>ok pb'. AppendBuffer (Some [1, 2]) (of_nat (length [1, 2 :: byte])) PacketBuffer_init = Some (ok, pb') \<and>
    pb_ok pb' \<and> contents pb' = (if ok then contents PacketBuffer_init @ [1, 2] else contents PacketBuffer_init) \<and>
    (ok \<longleftrightarrow> [1, 2 :: byte] \<noteq> [] \<and> length (contents PacketBuffer_init) + length [1, 2 :: byte] \<le> 65535)"
  by (rule AppendBuffer_all_or_nothing) simp_all

text \<open>
  C5. When \<open>IsAbleToGetPacket\<close> says so, \<open>ConsumePacket\<close> removes exactly the first packet
  of the buffered stream; the remaining packets of the stream, and the incomplete rest, stay.
\<close>

theorem ConsumePacket_first_frame:
  assumes "pb_ok pb" and "IsAbleToGetPacket pb = Some True"
  shows "\<exists>pb'. ConsumePacket pb = Some pb' \<and> pb_ok pb' \<and> length (contents pb') < length (contents pb) \<and>
    frames (contents pb) =
      (take (frame_len (contents pb)) (contents pb) # fst (frames (contents pb')), snd (frames (contents pb')))"
  using pbq.consume_frames [OF assms] pbq.consume_progress [OF assms] by auto

theorem ConsumePacket_first_frame_witness:
  "\<exists>pb'. ConsumePacket (filled_buffer [5, 0, 1, 0, 7, 9]) = Some pb' \<and> pb_ok pb' \<and>
    length (contents pb') < length (contents (filled_buffer [5, 0, 1, 0, 7, 9])) \<and>
    frames (contents (filled_buffer [5, 0, 1, 0, 7, 9])) =
      (take (frame_len (contents (filled_buffer [5, 0, 1, 0, 7, 9]))) (contents (filled_buffer [5, 0, 1, 0, 7, 9]))
        # fst (frames (contents pb')), snd (frames (contents pb')))"
  by (rule ConsumePacket_first_frame)
     (simp_all add: pbq.ready_iff frame_ready_def frame_len_def of_le16_def)

text \<open>
  C6. A message that fits is written as one well-formed packet behind the unconsumed
  bytes: its size field is header plus payload, its number the class's protocol number, its
  payload what the serializer wrote.
\<close>

theorem SetPacket_writes_frame:
  assumes ok: "pb_ok pb" and k: "0 < ByteSize C m"
    and room: "int (length (contents pb)) + 4 + ByteSize C m \<le> 65535"
    and ser: "SerializeToArray C m (replicate MAX_BUF_SIZE 0) (int MAX_BUF_SIZE) = Some (True, payload @ rest)"
    and len: "int (length payload) = ByteSize C m"
  shows "\<exists>pb'. SetPacket C m pb = Some (True, pb') \<and> pb_ok pb' \<and>
    contents pb' = contents pb @ frame (PROTOCOL_NUMBER C) payload"
  by (rule SetPacket_frame) (use assms in simp_all)

theorem SetPacket_writes_frame_witness:
  "\<exists>pb'. SetPacket raw_packet [7, 8] PacketBuffer_init = Some (True, pb') \<and> pb_ok pb' \<and>
    contents pb' = contents PacketBuffer_init @ frame (PROTOCOL_NUMBER raw_packet) [7, 8]"
  by (rule SetPacket_writes_frame [where rest = "replicate 65533 0"]) simp_all

text \<open>
  A message whose packet does not fit behind the unconsumed bytes is refused
  and the unconsumed bytes are unchanged.
\<close>

theorem SetPacket_no_room:
  assumes ok: "pb_ok pb" and k: "0 \<le> ByteSize C m" "ByteSize C m \<le> 65531"
    and room: "int (length (contents pb)) + 4 + ByteSize C m > 65535"
  shows "\<exists>pb'. SetPacket C m pb = Some (False, pb') \<and> pb_ok pb' \<and> contents pb' = contents pb"
  by (rule SetPacket_refused) (use assms in simp_all)

theorem SetPacket_no_room_witness:
  "\<exists>pb'. SetPacket raw_packet [7] (filled_buffer (replicate 65531 0)) = Some (False, pb') \<and> pb_ok pb' \<and>
    contents pb' = contents (filled_buffer (replicate 65531 0))"
  by (rule SetPacket_no_room) simp_all

text \<open>
  A message with no bytes is not sent as a packet with an empty payload:
  \<open>AppendBuffer\<close> refuses the empty block after the header has been written, so \<open>SetPacket\<close> returns
  false and leaves the header in the buffer.
\<close>

theorem SetPacket_empty_leaves_header:
  assumes ok: "pb_ok pb" and k: "ByteSize C m = 0" and room: "length (contents pb) + 4 \<le> 65535"
    and ser: "SerializeToArray C m (replicate MAX_BUF_SIZE 0) (int MAX_BUF_SIZE) = Some (True, buf)"
  shows "\<exists>pb'. SetPacket C m pb = Some (False, pb') \<and> pb_ok pb' \<and>
    contents pb' = contents pb @ frame (PROTOCOL_NUMBER C) []"
proof -
  have n: "(4 :: uint16) = word_of_int (uint GetHeaderSize + ByteSize C m)"
    by (simp add: k GetHeaderSize_def)
  have fit: "4 \<le> unat (4 :: uint16)" "length (contents pb) + unat (4 :: uint16) \<le> 65535"
    using room by simp_all
  obtain pb2 where pb2: "SetPacket C m pb = do {
      (ok, buf) \<leftarrow> SerializeToArray C m (replicate MAX_BUF_SIZE 0) (int MAX_BUF_SIZE);
      if \<not> ok then Some (False, pb2) else AppendBuffer (Some buf) (word_of_int (ByteSize C m)) pb2 }"
    "pb_ok pb2" "contents pb2 = contents pb @ le16 4 @ le16 (PROTOCOL_NUMBER C)"
    by (rule SetPacket_header [OF n ok fit])
  then show ?thesis
    using ser k by (simp add: AppendBuffer_zero frame_def)
qed

theorem SetPacket_empty_leaves_header_witness:
  "\<exists>pb'. SetPacket raw_packet [] PacketBuffer_init = Some (False, pb') \<and> pb_ok pb' \<and>
    contents pb' = contents PacketBuffer_init @ frame (PROTOCOL_NUMBER raw_packet) []"
  by (rule SetPacket_empty_leaves_header [where buf = "replicate 65535 0"]) simp_all



text \<open>
  For a buffered packet with at least a header, the number and the payload that the
  dispatcher reads are those of the packet, and all reads are inside the unconsumed bytes.
\<close>

theorem packet_fields_of_first_frame:
  assumes ok: "pb_ok pb" and r: "frame_ready (contents pb)" and h: "4 \<le> frame_len (contents pb)"
  shows "GetPacketNo pb = Some (frame_no (take (frame_len (contents pb)) (contents pb))) \<and>
    GetPayloadBufferSize pb = Some (of_nat (frame_len (contents pb) - 4)) \<and>
    mem_read (GetPayloadBuffer pb) (frame_len (contents pb) - 4) (buffer pb) =
      Some (frame_payload (take (frame_len (contents pb)) (contents pb)))"
  using first_frame_fields [OF assms] by simp

theorem packet_fields_of_first_frame_witness:
  "GetPacketNo (filled_buffer (frame 1 [7] @ [9])) =
     Some (frame_no (take (frame_len (contents (filled_buffer (frame 1 [7] @ [9]))))
       (contents (filled_buffer (frame 1 [7] @ [9]))))) \<and>
   GetPayloadBufferSize (filled_buffer (frame 1 [7] @ [9])) =
     Some (of_nat (frame_len (contents (filled_buffer (frame 1 [7] @ [9]))) - 4)) \<and>
   mem_read (GetPayloadBuffer (filled_buffer (frame 1 [7] @ [9])))
      (frame_len (contents (filled_buffer (frame 1 [7] @ [9]))) - 4) (buffer (filled_buffer (frame 1 [7] @ [9]))) =
     Some (frame_payload (take (frame_len (contents (filled_buffer (frame 1 [7] @ [9]))))
       (contents (filled_buffer (frame 1 [7] @ [9])))))"
  by (rule packet_fields_of_first_frame) (simp_all add: frame_ready_frame frame_len_frame)



text \<open>
  \<open>GetPacketNo\<close> guards with the write position where it needs the number of
  buffered bytes: with a drained buffer whose positions are near the end of the array, the guard
  passes and the read is outside of it.
\<close>

theorem GetPacketNo_guard_insufficient:
  assumes "pb_ok pb" and "contents pb = []" and "65532 \<le> unat (writePos pb)"
  shows "GetPacketNo pb = None"
proof -
  have "unat (readPos pb) = unat (writePos pb)"
    using assms(2) pb_okD [OF assms(1)] length_contents [OF assms(1)] by simp
  then show ?thesis
    using assms(3) pb_okD [OF assms(1)]
    by (simp add: GetPacketNo_def word_less_nat_alt mem_simps)
qed

theorem GetPacketNo_guard_insufficient_witness:
  "GetPacketNo \<lparr>buffer = replicate 65535 0, readPos = 65533, writePos = 65533\<rparr> = None"
  by (rule GetPacketNo_guard_insufficient) (simp_all add: pb_ok_def contents_def MAX_BUF_SIZE_def)

end
