(* ===== verification/PacketHandlerManager.thy ===== *)
theory PacketHandlerManager
  imports PacketBuffer
begin

text \<open>
  MServer/PacketHandlerManager.h: the table of packet handlers by protocol number, the functor that
  parses the payload of a packet and calls the handler, and the dispatch of the packet at the front of
  a buffer.

  A handler works on its session (type \<open>'s\<close>) and on what it shares with the rest of the process, the
  network and static variables (type \<open>'g\<close>). The session and the packet buffer that a functor gets are
  both passed in and given back; the buffer is a member of the session, which the handlers do not access
  in any other way. \<open>None\<close> is an access outside of an array.
\<close>

section \<open>Functors\<close>

type_synonym ('s, 'g) packet_functor =
  "'s \<Rightarrow> 'g \<Rightarrow> packet_buffer \<Rightarrow> (bool \<times> 's \<times> 'g \<times> packet_buffer) option"

text \<open>
  \<open>PacketFunctor::Handle\<close>. \<open>parse\<close> is \<open>ParseFromArray\<close> on a new message of the packet's class (\<open>None\<close>
  when it returns false), \<open>handler\<close> the call operator of the packet handler. The array that is handed
  to the parser must be inside of the buffer.
\<close>

definition PacketFunctor_Handle ::
  "(byte list \<Rightarrow> 'm option) \<Rightarrow> ('m \<Rightarrow> 's \<Rightarrow> 'g \<Rightarrow> (bool \<times> 's \<times> 'g) option) \<Rightarrow> ('s, 'g) packet_functor"
where
  "PacketFunctor_Handle parse handler session g packetBuffer = do {
     n \<leftarrow> GetPayloadBufferSize packetBuffer;
     payload \<leftarrow> mem_read (GetPayloadBuffer packetBuffer) (unat n) (buffer packetBuffer);
     case parse payload of
       None \<Rightarrow> Some (False, session, g, packetBuffer)
     | Some protobuf \<Rightarrow> do {
         packetBuffer \<leftarrow> ConsumePacket packetBuffer;
         (ok, session, g) \<leftarrow> handler protobuf session g;
         Some (ok, session, g, packetBuffer)
       }
   }"

section \<open>The table\<close>

definition UINT16_MAX :: nat where
  "UINT16_MAX = 65535"

type_synonym ('s, 'g) packet_handler_manager = "('s, 'g) packet_functor option list"

definition ClearPacketFunctors :: "('s, 'g) packet_handler_manager \<Rightarrow> ('s, 'g) packet_handler_manager" where
  "ClearPacketFunctors packetFunctors = map (\<lambda>_. None) packetFunctors"

definition Register ::
  "uint16 \<Rightarrow> ('s, 'g) packet_functor \<Rightarrow> ('s, 'g) packet_handler_manager \<Rightarrow>
   (bool \<times> ('s, 'g) packet_handler_manager) option"
where
  "Register protocolNumber pPacketFunctor packetFunctors =
     (if unat protocolNumber > length packetFunctors then Some (False, packetFunctors)
      else do {
        slot \<leftarrow> mem_get (unat protocolNumber) packetFunctors;
        if slot \<noteq> None then Some (False, packetFunctors)
        else Some (True, packetFunctors[unat protocolNumber := Some pPacketFunctor])
      })"

text \<open>
  The function that \<open>IMPLEMENT_INITIALIZE\<close> defines: one \<open>REGISTER_HANDLER\<close> after the other, whose
  results are not looked at; and the constructor.
\<close>

fun Initialize ::
  "(uint16 \<times> ('s, 'g) packet_functor) list \<Rightarrow> ('s, 'g) packet_handler_manager \<Rightarrow>
   ('s, 'g) packet_handler_manager option"
where
  "Initialize [] mgr = Some mgr"
| "Initialize ((no, functor) # regs) mgr = do {
     (_, mgr) \<leftarrow> Register no functor mgr;
     Initialize regs mgr
   }"

definition PacketHandlerManager_init ::
  "(uint16 \<times> ('s, 'g) packet_functor) list \<Rightarrow> ('s, 'g) packet_handler_manager option" where
  "PacketHandlerManager_init regs = Initialize regs (ClearPacketFunctors (replicate UINT16_MAX None))"

definition Handle :: "('s, 'g) packet_handler_manager \<Rightarrow> ('s, 'g) packet_functor" where
  "Handle packetFunctors session g packetBuffer = do {
     packetNo \<leftarrow> GetPacketNo packetBuffer;
     slot \<leftarrow> mem_get (unat packetNo) packetFunctors;
     case slot of
       None \<Rightarrow> Some (False, session, g, packetBuffer)
     | Some pFnPacketHandler \<Rightarrow> pFnPacketHandler session g packetBuffer
   }"

lemma unat_inject_eq: "unat (a :: uint16) = unat b \<Longrightarrow> a = b"
  by (simp only: word_unat_eq_iff)

section \<open>The contract of the table\<close>

text \<open>
  A table of entries by protocol number with a fixed number of slots, into which an entry is put once.
\<close>

locale handler_table =
  fixes invar :: "'t \<Rightarrow> bool"
    and slots :: nat
    and lookup :: "'t \<Rightarrow> uint16 \<Rightarrow> 'f option"
    and register :: "uint16 \<Rightarrow> 'f \<Rightarrow> 't \<Rightarrow> (bool \<times> 't) option"
  assumes register_free: "invar t \<Longrightarrow> unat no < slots \<Longrightarrow> lookup t no = None \<Longrightarrow>
      \<exists>t'. register no f t = Some (True, t') \<and> invar t' \<and> lookup t' = (lookup t)(no \<mapsto> f)"
    and register_taken: "invar t \<Longrightarrow> unat no < slots \<Longrightarrow> lookup t no \<noteq> None \<Longrightarrow>
      register no f t = Some (False, t)"
begin

text \<open>Registering never removes or replaces an entry.\<close>

lemma register_keeps:
  assumes "invar t" and "unat no < slots"
  shows "\<exists>ok t'. register no f t = Some (ok, t') \<and> invar t' \<and> lookup t \<subseteq>\<^sub>m lookup t' \<and>
    (ok \<longleftrightarrow> lookup t no = None) \<and> lookup t' no \<noteq> None"
proof (cases "lookup t no = None")
  case True
  obtain t' where "register no f t = Some (True, t')" "invar t'" "lookup t' = (lookup t)(no \<mapsto> f)"
    using register_free [OF assms True] by blast
  with True show ?thesis by (auto simp: map_le_def dom_def)
next
  case False
  with register_taken [OF assms False, of f] assms show ?thesis by auto
qed

end

definition table_ok :: "('s, 'g) packet_handler_manager \<Rightarrow> bool" where
  "table_ok mgr \<longleftrightarrow> length mgr = UINT16_MAX"

definition functor_at :: "('s, 'g) packet_handler_manager \<Rightarrow> uint16 \<Rightarrow> ('s, 'g) packet_functor option" where
  "functor_at mgr no = (if unat no < length mgr then mgr ! unat no else None)"

interpretation pht: handler_table table_ok UINT16_MAX functor_at Register
proof unfold_locales
  fix t :: "('a, 'b) packet_handler_manager" and no :: uint16 and f
  assume ok: "table_ok t" and n: "unat no < UINT16_MAX"
  have get: "mem_get (unat no) t = Some (functor_at t no)"
    using ok n by (simp add: table_ok_def mem_get_def functor_at_def)
  show "\<exists>t'. Register no f t = Some (True, t') \<and> table_ok t' \<and> functor_at t' = (functor_at t)(no \<mapsto> f)"
    if "functor_at t no = None"
  proof -
    have "functor_at (t[unat no := Some f]) = (functor_at t)(no \<mapsto> f)"
      using ok n by (auto simp: functor_at_def table_ok_def fun_eq_iff nth_list_update dest: unat_inject_eq)
    then show ?thesis
      using that ok n by (simp add: Register_def get table_ok_def)
  qed
  show "Register no f t = Some (False, t)" if "functor_at t no \<noteq> None"
    using that ok n by (simp add: Register_def get table_ok_def)
qed

lemma table_ok_init [simp]: "table_ok (ClearPacketFunctors (replicate UINT16_MAX None))"
  and functor_at_init [simp]: "functor_at (ClearPacketFunctors (replicate UINT16_MAX None)) = Map.empty"
  by (simp_all add: table_ok_def functor_at_def ClearPacketFunctors_def fun_eq_iff)

text \<open>A sequence of registrations: the first one of a number counts.\<close>

lemma Initialize_eq:
  assumes "table_ok mgr" and "\<forall>(no, f) \<in> set regs. unat no < UINT16_MAX"
  shows "\<exists>mgr'. Initialize regs mgr = Some mgr' \<and> table_ok mgr' \<and>
    functor_at mgr' = map_of regs ++ functor_at mgr"
  using assms
proof (induction regs arbitrary: mgr)
  case (Cons reg regs)
  obtain no f where reg: "reg = (no, f)" by (cases reg)
  then have n: "unat no < UINT16_MAX" using Cons.prems by auto
  show ?case
  proof (cases "functor_at mgr no = None")
    case True
    obtain mgr1 where 1: "Register no f mgr = Some (True, mgr1)" "table_ok mgr1"
      "functor_at mgr1 = (functor_at mgr)(no \<mapsto> f)"
      using pht.register_free [OF Cons.prems(1) n True, of f] by blast
    obtain mgr' where "Initialize regs mgr1 = Some mgr'" "table_ok mgr'"
      "functor_at mgr' = map_of regs ++ functor_at mgr1"
      using Cons.IH [OF 1(2)] Cons.prems by auto
    then show ?thesis using 1 True reg
      by (auto simp: map_add_def fun_eq_iff split: option.split)
  next
    case False
    have 1: "Register no f mgr = Some (False, mgr)"
      by (rule pht.register_taken [OF Cons.prems(1) n False])
    obtain mgr' where "Initialize regs mgr = Some mgr'" "table_ok mgr'"
      "functor_at mgr' = map_of regs ++ functor_at mgr"
      using Cons.IH [OF Cons.prems(1)] Cons.prems by auto
    then show ?thesis using 1 False reg
      by (auto simp: map_add_def fun_eq_iff split: option.split)
  qed
qed simp

lemma init_eq:
  assumes "\<forall>(no, f) \<in> set regs. unat no < UINT16_MAX"
  shows "\<exists>mgr. PacketHandlerManager_init regs = Some mgr \<and> table_ok mgr \<and> functor_at mgr = map_of regs"
  using Initialize_eq [OF table_ok_init assms] by (simp add: PacketHandlerManager_init_def)

section \<open>Dispatch of a packet\<close>

text \<open>The packet at the front of the buffer.\<close>

definition front :: "packet_buffer \<Rightarrow> byte list" where
  "front pb = take (frame_len (contents pb)) (contents pb)"

lemma Handle_unregistered:
  assumes "pb_ok pb" and "frame_ready (contents pb)" and "4 \<le> frame_len (contents pb)"
    and "table_ok mgr" and "unat (frame_no (front pb)) < UINT16_MAX" and "functor_at mgr (frame_no (front pb)) = None"
  shows "Handle mgr s g pb = Some (False, s, g, pb)"
  using assms first_frame_fields(1) [OF assms(1-3)]
  by (simp add: Handle_def front_def mem_get_def table_ok_def functor_at_def)

lemma frame_ready_bounds:
  assumes "pb_ok pb" and "frame_ready (contents pb)"
  shows "frame_len (contents pb) \<le> length (contents pb)" and "frame_len (contents pb) \<le> 65535"
  using assms length_contents_le [OF assms(1)] by (simp_all add: frame_ready_def)

lemma bind_pair:
  "r \<bind> (\<lambda>(ok, s, g). Some (ok, s, g, pb)) = map_option (\<lambda>(ok, s, g). (ok, s, g, pb)) r"
  by (cases r) auto

lemma PacketFunctor_Handle_eq:
  assumes "pb_ok pb" and "frame_ready (contents pb)" and "4 \<le> frame_len (contents pb)"
  obtains pb' where "pb_ok pb'" and "contents pb' = drop (frame_len (contents pb)) (contents pb)"
    and "PacketFunctor_Handle parse handler s g pb =
      (case parse (frame_payload (front pb)) of
         None \<Rightarrow> Some (False, s, g, pb)
       | Some m \<Rightarrow> map_option (\<lambda>(ok, s, g). (ok, s, g, pb')) (handler m s g))"
proof -
  obtain pb' where pb': "ConsumePacket pb = Some pb'" "pb_ok pb'"
    "contents pb' = drop (frame_len (contents pb)) (contents pb)"
    using pbq.consume_ready [OF assms(1,2)] by blast
  have "unat (of_nat (frame_len (contents pb) - 4) :: uint16) = frame_len (contents pb) - 4"
    using frame_ready_bounds(2) [OF assms(1,2)] by (intro unat_of_nat16) simp
  then have "PacketFunctor_Handle parse handler s g pb =
      (case parse (frame_payload (front pb)) of
         None \<Rightarrow> Some (False, s, g, pb)
       | Some m \<Rightarrow> map_option (\<lambda>(ok, s, g). (ok, s, g, pb')) (handler m s g))"
    using first_frame_fields [OF assms] pb'(1)
    by (simp add: PacketFunctor_Handle_def front_def bind_pair split: option.split)
  with pb' that show ?thesis by blast
qed

lemma Handle_registered:
  assumes "pb_ok pb" and "frame_ready (contents pb)" and "4 \<le> frame_len (contents pb)"
    and "functor_at mgr (frame_no (front pb)) = Some f"
  shows "Handle mgr s g pb = f s g pb"
proof -
  have "unat (frame_no (front pb)) < length mgr" "mgr ! unat (frame_no (front pb)) = Some f"
    using assms(4) by (auto simp: functor_at_def split: if_splits)
  then show ?thesis
    using first_frame_fields(1) [OF assms(1-3)] by (simp add: Handle_def front_def mem_get_def)
qed

section \<open>Properties\<close>

text \<open>
  After the constructor has run a list of registrations with distinct protocol numbers below
  65535, dispatch finds under each number the functor registered for it, and nothing elsewhere.
\<close>

theorem registered_handlers_found:
  assumes "distinct (map fst regs)" and "\<forall>(no, f) \<in> set regs. unat no < 65535"
  shows "\<exists>mgr. PacketHandlerManager_init regs = Some mgr \<and>
    (\<forall>no f. functor_at mgr no = Some f \<longleftrightarrow> (no, f) \<in> set regs)"
proof -
  have "\<forall>(no, f) \<in> set regs. unat no < UINT16_MAX" using assms(2) by (simp add: UINT16_MAX_def)
  from init_eq [OF this] show ?thesis using assms(1) by auto
qed

theorem registered_handlers_found_witness:
  "\<exists>mgr. PacketHandlerManager_init [(0, \<lambda>s g pb. Some (True, s, g, pb)), (7, \<lambda>s g pb. Some (False, s :: unit, g :: unit, pb))]
      = Some mgr \<and>
    (\<forall>no f. functor_at mgr no = Some f \<longleftrightarrow>
      (no, f) \<in> set [(0, \<lambda>s g pb. Some (True, s, g, pb)), (7, \<lambda>s g pb. Some (False, s, g, pb))])"
  by (rule registered_handlers_found) simp_all

text \<open>
  C28. Dispatch of a complete packet reads its number and payload inside the buffer. Without a
  handler, or when the payload does not parse, it returns false and the packet stays; otherwise exactly
  this packet is consumed and the handler is called with the parsed message.
\<close>

theorem Handle_dispatches_front_packet:
  assumes "pb_ok pb" and "frame_ready (contents pb)" and "4 \<le> frame_len (contents pb)"
    and "table_ok mgr" and "unat (frame_no (front pb)) < 65535"
    and "functor_at mgr (frame_no (front pb)) = map_option (\<lambda>(parse, handler). PacketFunctor_Handle parse handler) ph"
  shows "\<exists>pb'. pb_ok pb' \<and> contents pb' = drop (frame_len (contents pb)) (contents pb) \<and>
    Handle mgr s g pb =
      (case ph of None \<Rightarrow> Some (False, s, g, pb)
       | Some (parse, handler) \<Rightarrow>
           (case parse (frame_payload (front pb)) of
              None \<Rightarrow> Some (False, s, g, pb)
            | Some m \<Rightarrow> map_option (\<lambda>(ok, s, g). (ok, s, g, pb')) (handler m s g)))"
proof (cases ph)
  case None
  then have "Handle mgr s g pb = Some (False, s, g, pb)"
    using assms Handle_unregistered [OF assms(1-4)] by (simp add: UINT16_MAX_def)
  then show ?thesis using None pbq.consume_ready [OF assms(1,2)] by auto
next
  case (Some p)
  obtain parse handler where p: "p = (parse, handler)" by (cases p)
  obtain pb' where "pb_ok pb'" "contents pb' = drop (frame_len (contents pb)) (contents pb)"
    "PacketFunctor_Handle parse handler s g pb =
      (case parse (frame_payload (front pb)) of
         None \<Rightarrow> Some (False, s, g, pb)
       | Some m \<Rightarrow> map_option (\<lambda>(ok, s, g). (ok, s, g, pb')) (handler m s g))"
    by (rule PacketFunctor_Handle_eq [OF assms(1-3)])
  moreover have "Handle mgr s g pb = PacketFunctor_Handle parse handler s g pb"
    by (rule Handle_registered [OF assms(1-3)]) (simp add: assms(6) Some p)
  ultimately show ?thesis using Some p by auto
qed

text \<open>
  The table has 65535 slots, one less than there are packet numbers. For number 65535 the range
  check of \<open>Register\<close> passes and the table is accessed behind its end, and so it is by \<open>Handle\<close> for a
  packet with this number, which a peer can send.
\<close>

theorem packet_number_65535_out_of_bounds:
  assumes "table_ok mgr" and "pb_ok pb" and "frame_ready (contents pb)" and "4 \<le> frame_len (contents pb)"
    and "frame_no (front pb) = 65535"
  shows "Register 65535 f mgr = None \<and> Handle mgr s g pb = None"
  using assms first_frame_fields(1) [OF assms(2-4)]
  by (simp add: Register_def Handle_def front_def table_ok_def UINT16_MAX_def mem_get_def)

theorem packet_number_65535_out_of_bounds_witness:
  "Register 65535 (\<lambda>s g pb. Some (True, s, g, pb)) (replicate 65535 None :: (unit, unit) packet_handler_manager) = None \<and>
   Handle (replicate 65535 None :: (unit, unit) packet_handler_manager) () () (filled_buffer (frame 65535 [] @ [])) = None"
  by (rule packet_number_65535_out_of_bounds)
     (simp_all add: table_ok_def UINT16_MAX_def front_def frame_ready_frame [where payload = "[]" and bs = "[]", simplified]
       frame_len_frame [where payload = "[]" and bs = "[]", simplified])

theorem Handle_dispatches_front_packet_witness:
  "\<exists>pb'. pb_ok pb' \<and>
    contents pb' = drop (frame_len (contents (filled_buffer (frame 1 [7] @ [9])))) (contents (filled_buffer (frame 1 [7] @ [9]))) \<and>
    Handle ((replicate 65535 None)[1 := Some (PacketFunctor_Handle Some (\<lambda>m s g. Some (True, s @ m, g)))])
        [] () (filled_buffer (frame 1 [7] @ [9])) =
      (case Some (Some, \<lambda>m s g. Some (True, s @ m, g)) of None \<Rightarrow> Some (False, [], (), filled_buffer (frame 1 [7] @ [9]))
       | Some (parse, handler) \<Rightarrow>
           (case parse (frame_payload (front (filled_buffer (frame 1 [7] @ [9])))) of
              None \<Rightarrow> Some (False, [], (), filled_buffer (frame 1 [7] @ [9]))
            | Some m \<Rightarrow> map_option (\<lambda>(ok, s, g). (ok, s, g, pb')) (handler m [] ())))"
  by (rule Handle_dispatches_front_packet)
     (simp_all add: table_ok_def UINT16_MAX_def front_def frame_ready_frame frame_len_frame functor_at_def)

end
