(* ===== verification/Winsock.thy ===== *)
theory Winsock
  imports Prelude
begin

text \<open>
  The socket interface of the operating system, as far as the program calls it. It is not part of the
  repository: a record of functions over an unknown state of the world is an argument of the
  definitions that use it.
\<close>

type_synonym SOCKET = uint32

definition INVALID_SOCKET :: SOCKET where
  "INVALID_SOCKET = - 1"

definition SOCKET_ERROR :: int where
  "SOCKET_ERROR = - 1"

text \<open>
  An address is a port and an IPv4 address in host byte order. \<open>send\<close> gets the bytes at the pointer it is
  called with; \<open>recv\<close> gets the size of the array and returns its result and the bytes it stored.
\<close>

record 'w winsock =
  ws_startup :: "'w \<Rightarrow> int \<times> 'w"
  ws_cleanup :: "'w \<Rightarrow> 'w"
  ws_socket :: "'w \<Rightarrow> SOCKET \<times> 'w"
  ws_bind :: "SOCKET \<Rightarrow> uint16 \<Rightarrow> uint32 \<Rightarrow> 'w \<Rightarrow> int \<times> 'w"
  ws_listen :: "SOCKET \<Rightarrow> 'w \<Rightarrow> int \<times> 'w"
  ws_accept :: "SOCKET \<Rightarrow> 'w \<Rightarrow> SOCKET \<times> (uint16 \<times> uint32) \<times> 'w"
  ws_connect :: "SOCKET \<Rightarrow> uint16 \<Rightarrow> uint32 \<Rightarrow> 'w \<Rightarrow> int \<times> 'w"
  ws_send :: "SOCKET \<Rightarrow> byte list \<Rightarrow> 'w \<Rightarrow> int \<times> 'w"
  ws_recv :: "SOCKET \<Rightarrow> nat \<Rightarrow> 'w \<Rightarrow> int \<times> byte list \<times> 'w"
  ws_closesocket :: "SOCKET \<Rightarrow> 'w \<Rightarrow> 'w"

text \<open>The documented result of \<open>recv\<close>: an error, or the number of bytes stored, at most the array's size.\<close>

definition recv_ok :: "('w, 'z) winsock_scheme \<Rightarrow> bool" where
  "recv_ok ws \<longleftrightarrow> (\<forall>sock n w. case ws_recv ws sock n w of (r, bs, w') \<Rightarrow>
     (r = SOCKET_ERROR \<and> bs = []) \<or> (0 \<le> r \<and> nat r \<le> n \<and> length bs = nat r))"

text \<open>
  A network that records what is sent and hands out given blocks of data, for the examples: its state is
  the blocks still to be received and the blocks sent.
\<close>

definition script_net :: "(byte list list \<times> byte list list) winsock" where
  "script_net =
     \<lparr>ws_startup = (\<lambda>w. (0, w)), ws_cleanup = id, ws_socket = (\<lambda>w. (1, w)),
      ws_bind = (\<lambda>_ _ _ w. (0, w)), ws_listen = (\<lambda>_ w. (0, w)),
      ws_accept = (\<lambda>_ w. (2, (9000, 0), w)), ws_connect = (\<lambda>_ _ _ w. (0, w)),
      ws_send = (\<lambda>_ bs (i, out). (int (length bs), i, out @ [bs])),
      ws_recv = (\<lambda>_ n (i, out). case i of [] \<Rightarrow> (SOCKET_ERROR, [], i, out)
         | bs # i \<Rightarrow> (int (length (take n bs)), take n bs, i, out)),
      ws_closesocket = (\<lambda>_ w. w)\<rparr>"

lemma script_net_recv_ok: "recv_ok script_net"
  by (auto simp: recv_ok_def script_net_def split: list.splits)

end
