(* ===== verification/Decimal.thy ===== *)
theory Decimal
  imports Prelude
begin

text \<open>
  The integer formatting of the bundled C++ Format library (Shared/format.h, Shared/format.cc) that
  every log line and every reply of the server goes through: counting the decimal digits of a number
  (the table-driven versions and the loop of the fallback) and storing them two at a time
  from the end of an array. The specification is the usual decimal notation, \<open>decimal\<close>.

  Characters are HOL characters, which like the code's \<open>char\<close> have 8 bits. An access outside an array
  or a table is the error value \<open>Fault\<close>, a thrown \<open>FormatError\<close> carries its message.
\<close>

section \<open>Results, errors and memory faults\<close>

datatype fmt_error = FormatError string | Fault

type_synonym 'a fmt = "fmt_error + 'a"

definition bindE :: "'a fmt \<Rightarrow> ('a \<Rightarrow> 'b fmt) \<Rightarrow> 'b fmt" where
  "bindE r f = (case r of Inl e \<Rightarrow> Inl e | Inr x \<Rightarrow> f x)"

lemma bindE_simps [simp]: "bindE (Inl e) f = Inl e" "bindE (Inr x) f = f x"
  by (simp_all add: bindE_def)

lemma bindE_cong [fundef_cong]: "r = r' \<Longrightarrow> (\<And>x. r' = Inr x \<Longrightarrow> f x = f' x) \<Longrightarrow> bindE r f = bindE r' f'"
  by (cases r') simp_all

text \<open>The result of a bounds-checked access, and a store of one element.\<close>

definition checked :: "'a option \<Rightarrow> 'a fmt" where
  "checked x = (case x of None \<Rightarrow> Inl Fault | Some y \<Rightarrow> Inr y)"

lemma checked_simps [simp]: "checked None = Inl Fault" "checked (Some x) = Inr x"
  by (simp_all add: checked_def)

definition store :: "nat \<Rightarrow> char \<Rightarrow> string \<Rightarrow> string fmt" where
  "store i c buf = (if i < length buf then Inr (buf[i := c]) else Inl Fault)"

text \<open>The store \<open>*--buffer = c\<close>; the pointer must not be at the start of the array.\<close>

definition store_before :: "nat \<Rightarrow> char \<Rightarrow> string \<Rightarrow> string fmt" where
  "store_before p c buf = (if p = 0 then Inl Fault else store (p - 1) c buf)"

lemma store_before_at:
  "p = Suc (length xs) \<Longrightarrow> store_before p c (xs @ y # zs) = Inr (xs @ c # zs)"
  by (simp add: store_before_def store_def)

section \<open>Decimal notation\<close>

definition digit_char :: "nat \<Rightarrow> char" where
  "digit_char d = char_of (48 + d)"

fun decimal :: "nat \<Rightarrow> string" where
  "decimal n = (if n < 10 then [digit_char n] else decimal (n div 10) @ [digit_char (n mod 10)])"

declare decimal.simps [simp del]

lemma decimal_less_10: "n < 10 \<Longrightarrow> decimal n = [digit_char n]"
  by (simp add: decimal.simps)

lemma decimal_not_Nil [simp]: "decimal n \<noteq> []"
  by (simp add: decimal.simps)

lemma decimal_two: "10 \<le> n \<Longrightarrow> n < 100 \<Longrightarrow> decimal n = [digit_char (n div 10), digit_char (n mod 10)]"
  by (simp add: decimal.simps [of n] decimal_less_10)

lemma decimal_hundreds:
  assumes "100 \<le> n"
  shows "decimal n = decimal (n div 100) @ [digit_char (n div 10 mod 10), digit_char (n mod 10)]"
proof -
  have "n div 10 div 10 = n div 100" using div_mult2_eq [of n 10 10] by simp
  then show ?thesis
    using assms by (simp add: decimal.simps [of n] decimal.simps [of "n div 10"])
qed

lemma length_decimal:
  "n < 10 ^ d \<Longrightarrow> 0 < d \<Longrightarrow> d = 1 \<or> 10 ^ (d - 1) \<le> n \<Longrightarrow> length (decimal n) = d"
proof (induction d arbitrary: n)
  case (Suc d)
  show ?case
  proof (cases "d = 0")
    case True
    then show ?thesis using Suc.prems by (simp add: decimal_less_10)
  next
    case False
    then have ge: "10 ^ d \<le> n" using Suc.prems by simp
    then have "10 \<le> n" using False by (metis order_trans power_increasing [of 1 d 10] One_nat_def
      Suc_leI neq0_conv one_le_numeral power_one_right)
    moreover have "n div 10 < 10 ^ d" using Suc.prems(1) by (simp add: div_less_iff_less_mult mult.commute)
    moreover have "d = 1 \<or> 10 ^ (d - 1) \<le> n div 10"
    proof -
      have "10 ^ (d - 1) * 10 \<le> n" using ge False by (metis power_minus_mult not_gr_zero)
      then show ?thesis by (simp add: less_eq_div_iff_mult_less_eq)
    qed
    ultimately show ?thesis using Suc.IH [of "n div 10"] False
      by (simp add: decimal.simps [of n])
  qed
qed simp

section \<open>Counting digits\<close>

text \<open>
  The fallback that is compiled without a count-leading-zeros intrinsic: a loop over groups of four
  digits.
\<close>

function count_digits_loop :: "nat \<Rightarrow> nat \<Rightarrow> nat" where
  "count_digits_loop count n =
     (if n < 10 then count else if n < 100 then count + 1 else if n < 1000 then count + 2
      else if n < 10000 then count + 3 else count_digits_loop (count + 4) (n div 10000))"
  by pat_completeness auto
termination
  by (relation "measure snd") auto

definition count_digits_fallback :: "uint64 \<Rightarrow> nat" where
  "count_digits_fallback n = count_digits_loop 1 (unat n)"

text \<open>\<open>_BitScanReverse\<close>: the position of the highest bit set; the callers pass a nonzero value.\<close>

fun BitScanReverse :: "nat \<Rightarrow> nat" where
  "BitScanReverse n = (if n < 2 then 0 else BitScanReverse (n div 2) + 1)"

declare BitScanReverse.simps [simp del] count_digits_loop.simps [simp del]

definition clz :: "uint32 \<Rightarrow> nat" where
  "clz x = 31 - BitScanReverse (unat x)"

text \<open>The 32-bit build scans the high half first.\<close>

definition clzll :: "uint64 \<Rightarrow> nat" where
  "clzll x = (let high = ucast (drop_bit 32 x) :: uint32; low = ucast x :: uint32 in
     if high \<noteq> 0 then 63 - (BitScanReverse (unat high) + 32)
     else 63 - BitScanReverse (unat low))"

definition POWERS_OF_10_32 :: "uint32 list" where
  "POWERS_OF_10_32 = 0 # map (\<lambda>k. 10 ^ k) [1..<10]"

definition POWERS_OF_10_64 :: "uint64 list" where
  "POWERS_OF_10_64 = 0 # map (\<lambda>k. 10 ^ k) [1..<20]"

definition count_digits64 :: "uint64 \<Rightarrow> nat fmt" where
  "count_digits64 n = (let t = (64 - clzll (n OR 1)) * 1233 div 4096 in
     bindE (checked (mem_get t POWERS_OF_10_64)) (\<lambda>p. Inr (t - (if n < p then 1 else 0) + 1)))"

definition count_digits32 :: "uint32 \<Rightarrow> nat fmt" where
  "count_digits32 n = (let t = (32 - clz (n OR 1)) * 1233 div 4096 in
     bindE (checked (mem_get t POWERS_OF_10_32)) (\<lambda>p. Inr (t - (if n < p then 1 else 0) + 1)))"

subsection \<open>They count the digits of the decimal notation\<close>

lemma count_digits_loop_eq: "count_digits_loop c n = c + length (decimal n) - 1"
proof (induction c n rule: count_digits_loop.induct)
  case (1 count n)
  show ?case
  proof (cases "n < 10000")
    case True
    consider "n < 10" | "10 \<le> n" "n < 100" | "100 \<le> n" "n < 1000" | "1000 \<le> n" using True by linarith
    then show ?thesis
    proof cases
      case 1 then show ?thesis by (simp add: count_digits_loop.simps length_decimal [of n 1])
    next
      case 2 then show ?thesis by (simp add: count_digits_loop.simps length_decimal [of n 2])
    next
      case 3 then show ?thesis by (simp add: count_digits_loop.simps length_decimal [of n 3])
    next
      case 4 then show ?thesis using True by (simp add: count_digits_loop.simps length_decimal [of n 4])
    qed
  next
    case False
    have "n div 100 div 100 = n div 10000" using div_mult2_eq [of n 100 100] by simp
    moreover have "100 \<le> n div 100" using False by linarith
    ultimately have "length (decimal n) = length (decimal (n div 10000)) + 4"
      using False decimal_hundreds [of n] decimal_hundreds [of "n div 100"] by simp
    moreover have "decimal (n div 10000) \<noteq> []" by simp
    then have "length (decimal (n div 10000)) > 0" by blast
    ultimately show ?thesis using 1 False by (simp add: count_digits_loop.simps [of count n])
  qed
qed

lemma BitScanReverse_bounds: "0 < n \<Longrightarrow> 2 ^ BitScanReverse n \<le> n \<and> n < 2 ^ (BitScanReverse n + 1)"
proof (induction n rule: BitScanReverse.induct)
  case (1 n)
  show ?case
  proof (cases "n < 2")
    case True
    then show ?thesis using 1 by (simp add: BitScanReverse.simps [of n])
  next
    case False
    then show ?thesis using 1 by (simp add: BitScanReverse.simps [of n]) linarith
  qed
qed

lemma BitScanReverse_less: "0 < n \<Longrightarrow> n < 2 ^ k \<Longrightarrow> BitScanReverse n < k"
  using BitScanReverse_bounds [of n] by (meson le_less_trans linorder_not_le power_increasing one_le_numeral
      order_trans not_less)

lemma BitScanReverse_unique: "2 ^ b \<le> n \<Longrightarrow> n < 2 ^ (b + 1) \<Longrightarrow> BitScanReverse n = b"
proof (rule ccontr)
  assume *: "2 ^ b \<le> n" "n < 2 ^ (b + 1)" "BitScanReverse n \<noteq> b"
  have "0 < n" using *(1) by (metis gr0I le_zero_eq zero_neq_numeral power_not_zero)
  note B = BitScanReverse_bounds [OF this]
  from *(3) consider "BitScanReverse n + 1 \<le> b" | "b + 1 \<le> BitScanReverse n" by linarith
  then show False
  proof cases
    case 1
    then have "(2::nat) ^ (BitScanReverse n + 1) \<le> 2 ^ b" by (rule power_increasing) simp
    with B *(1) show False by linarith
  next
    case 2
    then have "(2::nat) ^ (b + 1) \<le> 2 ^ BitScanReverse n" by (rule power_increasing) simp
    with B *(2) show False by linarith
  qed
qed

lemma clzll_eq: "x \<noteq> 0 \<Longrightarrow> clzll x = 63 - BitScanReverse (unat x)"
proof -
  assume x: "x \<noteq> 0"
  have hi: "unat (ucast (drop_bit 32 x) :: uint32) = unat x div 2 ^ 32"
  proof -
    have "unat x div 2 ^ 32 < 2 ^ 32"
      using unsigned_less [of x, where ?'a = nat] by (simp add: div_less_iff_less_mult)
    then have "take_bit 32 (unat x div 2 ^ 32) = unat x div 2 ^ 32"
      by (simp only: take_bit_nat_eq_self_iff)
    moreover have "unat (ucast (drop_bit 32 x) :: uint32) = take_bit 32 (unat x div 2 ^ 32)"
    proof -
      have "unat (ucast y :: uint32) = take_bit 32 (unat y)" for y :: uint64
        by (simp add: unsigned_ucast_eq)
      moreover have "unat (drop_bit 32 x) = unat x div 2 ^ 32"
        by (subst unat_drop_bit_eq) (rule drop_bit_eq_div)
      ultimately show ?thesis by (simp only:)
    qed
    ultimately show ?thesis by simp
  qed
  show ?thesis
  proof (cases "unat x < 2 ^ 32")
    case True
    then have "unat (ucast x :: uint32) = unat x"
      by (simp add: unsigned_ucast_eq take_bit_nat_eq_self_iff)
    moreover have "unat (ucast (drop_bit 32 x) :: uint32) = 0" unfolding hi using True by simp
    then have "(ucast (drop_bit 32 x) :: uint32) = 0" by (simp only: unat_eq_0)
    ultimately show ?thesis by (simp add: clzll_def)
  next
    case False
    let ?h = "unat x div 2 ^ 32"
    have h0: "0 < ?h" using False by (simp add: div_greater_zero_iff)
    note B = BitScanReverse_bounds [OF h0]
    have "2 ^ BitScanReverse ?h * 2 ^ 32 \<le> unat x"
      using B by (simp add: less_eq_div_iff_mult_less_eq)
    moreover have "unat x < 2 ^ (BitScanReverse ?h + 1) * 2 ^ 32"
      using B by (simp add: div_less_iff_less_mult)
    ultimately have "BitScanReverse (unat x) = BitScanReverse ?h + 32"
      by (intro BitScanReverse_unique) (simp_all add: power_add)
    moreover have "(ucast (drop_bit 32 x) :: uint32) \<noteq> 0" using h0 hi by (metis unat_0 less_irrefl)
    ultimately show ?thesis by (simp add: clzll_def hi)
  qed
qed

lemma unat_or_1: "unat (n OR 1) = unat n + of_bool (even (unat (n :: 'a::len word)))"
proof -
  have "unat (n OR 1) = unat n OR unat (1 :: 'a word)" by (rule unsigned_or_eq)
  also have "unat (1 :: 'a word) = 1" by (rule unsigned_1)
  also have "unat n OR 1 = unat n + of_bool (even (unat n))" by (rule or_one_eq)
  finally show ?thesis .
qed

lemma or_1_nonzero: "(n :: 'a::len word) OR 1 \<noteq> 0"
proof -
  have "odd (unat (n OR 1))" unfolding unat_or_1 by simp
  then show ?thesis by (metis unat_0 even_zero)
qed

lemma BitScanReverse_or_1:
  assumes "n \<noteq> 0"
  shows "BitScanReverse (unat (n OR 1)) = BitScanReverse (unat (n :: 'a::len word))"
proof (rule BitScanReverse_unique)
  have "0 < unat n" using assms by (simp add: unat_gt_0)
  note B = BitScanReverse_bounds [OF this]
  show "2 ^ BitScanReverse (unat n) \<le> unat (n OR 1)" using B unfolding unat_or_1 by simp
  have "even (2 ^ (BitScanReverse (unat n) + 1) :: nat)" by simp
  then have "even (unat n) \<Longrightarrow> unat n + 1 < 2 ^ (BitScanReverse (unat n) + 1)"
    using B by (metis Suc_eq_plus1 Suc_lessI even_Suc)
  then show "unat (n OR 1) < 2 ^ (BitScanReverse (unat n) + 1)"
    using B unfolding unat_or_1 by (cases "even (unat n)") simp_all
qed

text \<open>The approximation of the base-10 logarithm is exact or one too large, for every bit width.\<close>

lemma log10_approximation:
  "list_all (\<lambda>b. let t = b * 1233 div 4096 in
     (t = 0 \<or> 10 ^ (t - 1) \<le> (2 :: nat) ^ (b - 1)) \<and> (2 :: nat) ^ b \<le> 10 ^ (t + 1) \<and> t < 20 \<and> (b < 33 \<longrightarrow> t < 10)) [2..<65]"
  by (simp add: Let_def upt_rec_numeral)

lemma digits_from_bits:
  assumes z: "n = 0 \<Longrightarrow> b = 1" and b: "0 < n \<Longrightarrow> 2 ^ (b - 1) \<le> n" "n < 2 ^ b" "1 \<le> b" "b \<le> 64" and t: "t = b * 1233 div 4096"
  shows "length (decimal n) = t - (if 0 < t \<and> n < 10 ^ t then 1 else 0) + 1"
    and "t < 20" and "b \<le> 32 \<Longrightarrow> t < 10"
proof -
  have *: "t = 0 \<or> 10 ^ (t - 1) \<le> (2 :: nat) ^ (b - 1)" "(2 :: nat) ^ b \<le> 10 ^ (t + 1)" "t < 20" "b < 33 \<longrightarrow> t < 10"
    
  proof -
    have "b = 1 \<or> b \<in> set [2..<65]" unfolding set_upt atLeastLessThan_iff using b(3,4) by linarith
    moreover have "(t = 0 \<or> 10 ^ (t - 1) \<le> (2 :: nat) ^ (b - 1)) \<and> (2 :: nat) ^ b \<le> 10 ^ (t + 1) \<and> t < 20 \<and> (b < 33 \<longrightarrow> t < 10)"
      if "b \<in> set [2..<65]"
      using bspec [OF log10_approximation [unfolded list_all_iff] that] unfolding t Let_def .
    moreover have "b = 1 \<Longrightarrow> t = 0" by (simp add: t)
    ultimately show "t = 0 \<or> 10 ^ (t - 1) \<le> (2 :: nat) ^ (b - 1)" "(2 :: nat) ^ b \<le> 10 ^ (t + 1)" "t < 20" "b < 33 \<longrightarrow> t < 10"
      by auto
  qed
  show "t < 20" "b \<le> 32 \<Longrightarrow> t < 10" using * by auto
  have n: "n < 10 ^ (t + 1)" using b(2) *(2) by simp
  consider "t = 0" | "0 < t" "n < 10 ^ t" | "0 < t" "10 ^ t \<le> n" by linarith
  then show "length (decimal n) = t - (if 0 < t \<and> n < 10 ^ t then 1 else 0) + 1"
  proof cases
    case 1
    then show ?thesis using n by (simp add: decimal_less_10)
  next
    case 2
    then have "0 < n" using b(3) t by (cases "n = 0") (simp_all add: z)
    then have "10 ^ (t - 1) \<le> n" using b(1) *(1) 2 by force
    then show ?thesis using length_decimal [of n t] 2 by simp
  next
    case 3
    then show ?thesis using length_decimal [of n "t + 1"] n by simp
  qed
qed

lemma nth_powers:
  assumes "0 < t"
  shows "t < 20 \<Longrightarrow> mem_get t POWERS_OF_10_64 = Some (10 ^ t)"
    and "t < 10 \<Longrightarrow> mem_get t POWERS_OF_10_32 = Some (10 ^ t)"
  using assms by (simp_all add: mem_get_def POWERS_OF_10_64_def POWERS_OF_10_32_def nth_Cons')

lemma power_10_word:
  "t < 20 \<Longrightarrow> unat (10 ^ t :: uint64) = 10 ^ t" "t < 10 \<Longrightarrow> unat (10 ^ t :: uint32) = 10 ^ t"
proof -
  have *: "(10 :: 'a::len word) ^ t = of_nat (10 ^ t)" by simp
  have "t < 20 \<Longrightarrow> (10 :: nat) ^ t < 2 ^ 64"
    by (rule le_less_trans [of _ "10 ^ 19"]) (rule power_increasing, simp_all)
  then show "t < 20 \<Longrightarrow> unat (10 ^ t :: uint64) = 10 ^ t"
    by (subst *) (simp add: unat_of_nat take_bit_nat_eq_self_iff del: of_nat_power)
  have "t < 10 \<Longrightarrow> (10 :: nat) ^ t < 2 ^ 32"
    by (rule le_less_trans [of _ "10 ^ 9"]) (rule power_increasing, simp_all)
  then show "t < 10 \<Longrightarrow> unat (10 ^ t :: uint32) = 10 ^ t"
    by (subst *) (simp add: unat_of_nat take_bit_nat_eq_self_iff del: of_nat_power)
qed

lemma BitScanReverse_0 [simp]: "BitScanReverse 0 = 0" and BitScanReverse_1 [simp]: "BitScanReverse (Suc 0) = 0"
  by (simp_all add: BitScanReverse.simps)

lemma count_digits64_eq: "count_digits64 n = Inr (length (decimal (unat n)))"
proof -
  let ?b = "64 - clzll (n OR 1)"
  let ?t = "?b * 1233 div 4096"
  have pos: "0 < unat (n OR 1)" using or_1_nonzero [of n] by (simp add: unat_gt_0)
  have "BitScanReverse (unat (n OR 1)) < 64"
    using BitScanReverse_less [OF pos] unsigned_less [of "n OR 1", where ?'a = nat] by simp
  then have b: "?b = BitScanReverse (unat (n OR 1)) + 1"
    using clzll_eq [OF or_1_nonzero [of n]] by simp
  note D = digits_from_bits [of "unat n" ?b, OF _ _ _ _ _ refl]
  have 1: "unat n = 0 \<Longrightarrow> ?b = 1" unfolding b by (simp add: unat_eq_0)
  have 2: "0 < unat n \<Longrightarrow> 2 ^ (?b - 1) \<le> unat n"
    using BitScanReverse_bounds [of "unat n"] BitScanReverse_or_1 [of n] unfolding b
    by (simp add: unat_gt_0)
  have 3: "unat n < 2 ^ ?b"
    using BitScanReverse_bounds [OF pos] unat_or_1 [of n] unfolding b by linarith
  have 4: "1 \<le> ?b" "?b \<le> 64" unfolding b using \<open>BitScanReverse (unat (n OR 1)) < 64\<close> by simp_all
  note D = D [OF 1 2 3 4]
  show ?thesis
  proof (cases "?t = 0")
    case True
    then show ?thesis using D by (simp add: count_digits64_def mem_get_def POWERS_OF_10_64_def)
  next
    case False
    then show ?thesis using D
      by (simp add: count_digits64_def nth_powers power_10_word word_less_nat_alt)
  qed
qed

lemma count_digits32_eq: "count_digits32 n = Inr (length (decimal (unat n)))"
proof -
  let ?b = "32 - clz (n OR 1)"
  let ?t = "?b * 1233 div 4096"
  have pos: "0 < unat (n OR 1)" using or_1_nonzero [of n] by (simp add: unat_gt_0)
  have "BitScanReverse (unat (n OR 1)) < 32"
    using BitScanReverse_less [OF pos] unsigned_less [of "n OR 1", where ?'a = nat] by simp
  then have b: "?b = BitScanReverse (unat (n OR 1)) + 1"
    by (simp add: clz_def)
  note D = digits_from_bits [of "unat n" ?b, OF _ _ _ _ _ refl]
  have 1: "unat n = 0 \<Longrightarrow> ?b = 1" unfolding b by (simp add: unat_eq_0)
  have 2: "0 < unat n \<Longrightarrow> 2 ^ (?b - 1) \<le> unat n"
    using BitScanReverse_bounds [of "unat n"] BitScanReverse_or_1 [of n] unfolding b
    by (simp add: unat_gt_0)
  have 3: "unat n < 2 ^ ?b"
    using BitScanReverse_bounds [OF pos] unat_or_1 [of n] unfolding b by linarith
  have 4: "1 \<le> ?b" "?b \<le> 64" "?b \<le> 32" unfolding b using \<open>BitScanReverse (unat (n OR 1)) < 32\<close> by simp_all
  note D = D [OF 1 2 3 4(1,2)]
  show ?thesis
  proof (cases "?t = 0")
    case True
    then show ?thesis using D by (simp add: count_digits32_def mem_get_def POWERS_OF_10_32_def)
  next
    case False
    then show ?thesis using D 4
      by (simp add: count_digits32_def nth_powers power_10_word word_less_nat_alt)
  qed
qed

section \<open>Storing digits\<close>

definition DIGITS :: string where
  "DIGITS = ''0001020304050607080910111213141516171819'' @
     ''2021222324252627282930313233343536373839'' @
     ''4041424344454647484950515253545556575859'' @
     ''6061626364656667686970717273747576777879'' @
     ''8081828384858687888990919293949596979899''"

text \<open>
  The loop that \<open>internal::format_decimal\<close> and \<open>FormatInt::format_decimal\<close> have in common: from the
  pointer \<open>p\<close> backwards, two digits at a time. The result has the pointer to the first digit.
\<close>

function store_decimal :: "string \<Rightarrow> nat \<Rightarrow> nat \<Rightarrow> (string \<times> nat) fmt" where
  "store_decimal buf p value =
     (if value \<ge> 100 then
        let index = (value mod 100) * 2 in
        bindE (checked (mem_get (index + 1) DIGITS)) (\<lambda>c.
        bindE (store_before p c buf) (\<lambda>buf.
        bindE (checked (mem_get index DIGITS)) (\<lambda>c.
        bindE (store_before (p - 1) c buf) (\<lambda>buf.
        store_decimal buf (p - 2) (value div 100)))))
      else if value < 10 then
        bindE (store_before p (digit_char value) buf) (\<lambda>buf. Inr (buf, p - 1))
      else
        let index = value * 2 in
        bindE (checked (mem_get (index + 1) DIGITS)) (\<lambda>c.
        bindE (store_before p c buf) (\<lambda>buf.
        bindE (checked (mem_get index DIGITS)) (\<lambda>c.
        bindE (store_before (p - 1) c buf) (\<lambda>buf.
        Inr (buf, p - 2))))))"
  by pat_completeness auto
termination
  by (relation "measure (\<lambda>(buf, p, value). value)") auto

declare store_decimal.simps [simp del]

text \<open>\<open>internal::format_decimal\<close> into an array at index \<open>p\<close>; the pointer afterwards is not used.\<close>

definition format_decimal :: "string \<Rightarrow> nat \<Rightarrow> nat \<Rightarrow> nat \<Rightarrow> string fmt" where
  "format_decimal buf p value num_digits =
     bindE (store_decimal buf (p + num_digits) value) (\<lambda>(buf, _). Inr buf)"

text \<open>Class \<open>FormatInt\<close>: an array of 22 characters that is filled from its end.\<close>

record format_int =
  fi_buffer :: string
  fi_str :: nat

definition FI_BUFFER_SIZE :: nat where
  "FI_BUFFER_SIZE = 19 + 3"

definition FormatInt_format_decimal :: "uint64 \<Rightarrow> format_int fmt" where
  "FormatInt_format_decimal value =
     bindE (store_decimal (replicate FI_BUFFER_SIZE (CHR 0x00)) (FI_BUFFER_SIZE - 1) (unat value))
       (\<lambda>(buf, p). Inr \<lparr>fi_buffer = buf, fi_str = p\<rparr>)"

definition FormatSigned :: "int \<Rightarrow> format_int fmt" where
  "FormatSigned value = (
     let abs_value = word_of_int value :: uint64; negative = value < 0 in
     let abs_value = (if negative then 0 - abs_value else abs_value) in
     bindE (FormatInt_format_decimal abs_value) (\<lambda>f.
     if negative then
       bindE (store_before (fi_str f) (CHR ''-'') (fi_buffer f))
         (\<lambda>buf. Inr \<lparr>fi_buffer = buf, fi_str = fi_str f - 1\<rparr>)
     else Inr f))"

definition FormatInt_size :: "format_int \<Rightarrow> nat" where
  "FormatInt_size f = FI_BUFFER_SIZE - 1 - fi_str f"

definition FormatInt_str :: "format_int \<Rightarrow> string fmt" where
  "FormatInt_str f = checked (mem_read (fi_str f) (FormatInt_size f) (fi_buffer f))"

subsection \<open>They store the decimal notation\<close>

lemma length_DIGITS [simp]: "length DIGITS = 200"
  by (simp add: DIGITS_def)

lemma DIGITS_table:
  "list_all (\<lambda>i. DIGITS ! (2 * i) = digit_char (i div 10) \<and> DIGITS ! (2 * i + 1) = digit_char (i mod 10)) [0..<100]"
  by code_simp

lemma mem_get_DIGITS:
  assumes "i < 100"
  shows "mem_get (i * 2) DIGITS = Some (digit_char (i div 10))"
    and "mem_get (i * 2 + 1) DIGITS = Some (digit_char (i mod 10))"
  using DIGITS_table assms by (simp_all add: mem_get_def list_all_iff mult.commute)

lemma store_two:
  assumes "i < 100" and "p = length a + 2"
  shows "bindE (checked (mem_get (i * 2 + 1) DIGITS)) (\<lambda>c.
      bindE (store_before p c (a @ y # z # r)) (\<lambda>buf.
      bindE (checked (mem_get (i * 2) DIGITS)) (\<lambda>c.
      bindE (store_before (p - 1) c buf) f))) = f (a @ digit_char (i div 10) # digit_char (i mod 10) # r)"
proof -
  have "store_before p c (a @ y # z # r) = Inr (a @ y # c # r)" for c
    using store_before_at [of p "a @ [y]" c z r] assms by simp
  moreover have "store_before (p - 1) c (a @ y # d # r) = Inr (a @ c # d # r)" for c d
    using store_before_at [of "p - 1" a c y "d # r"] assms by simp
  ultimately show ?thesis using mem_get_DIGITS [OF assms(1)] by simp
qed

lemma length_2D: "length xs = 2 \<Longrightarrow> \<exists>c d. xs = [c, d]"
  by (cases xs; cases "tl xs") auto

lemma store_decimal_eq:
  "length x = length (decimal v) \<Longrightarrow> p = length a + length x \<Longrightarrow>
     store_decimal (a @ x @ r) p v = Inr (a @ decimal v @ r, length a)"
proof (induction v arbitrary: x p r rule: less_induct)
  case (less v)
  consider "v < 10" | "10 \<le> v" "v < 100" | "100 \<le> v" by linarith
  then show ?case
  proof cases
    case 1
    then obtain c where "x = [c]" using less.prems by (auto simp: decimal_less_10 length_Suc_conv)
    then show ?thesis using 1 less.prems
      by (simp add: store_decimal.simps [of _ _ v] store_before_at decimal_less_10)
  next
    case 2
    then obtain c d where "x = [c, d]" using less.prems by (auto simp: decimal_two length_Suc_conv)
    then show ?thesis using 2 less.prems store_two [of v p a c d r]
      by (simp add: store_decimal.simps [of _ _ v] Let_def decimal_two)
  next
    case 3
    note D = decimal_hundreds [OF 3]
    define x' where "x' = take (length (decimal (v div 100))) x"
    from less.prems(1) D have l: "length x = length (decimal (v div 100)) + 2" by simp
    then obtain c d where x: "x = x' @ [c, d]" "length x' = length (decimal (v div 100))"
    proof -
      have "length (drop (length (decimal (v div 100))) x) = 2" using l by simp
      then obtain c d where "drop (length (decimal (v div 100))) x = [c, d]"
        using length_2D by blast
      then have "x = x' @ [c, d]" by (metis x'_def append_take_drop_id)
      then show ?thesis using that l x'_def by simp
    qed
    have m: "v mod 100 div 10 = v div 10 mod 10" "v mod 100 mod 10 = v mod 10"
      using mod_mult2_eq [of v 10 10] by simp_all
    have "store_decimal (a @ x @ r) p v =
        store_decimal (a @ x' @ digit_char (v div 10 mod 10) # digit_char (v mod 10) # r) (p - 2) (v div 100)"
      using store_two [of "v mod 100" p "a @ x'" c d r] x less.prems(2) 3
      by (simp add: store_decimal.simps [of _ _ v] Let_def m)
    also have "\<dots> = Inr (a @ decimal (v div 100) @ digit_char (v div 10 mod 10) # digit_char (v mod 10) # r, length a)"
      using less.IH [of "v div 100" x' "p - 2"] x less.prems(2) 3 by simp
    finally show ?thesis by (simp add: D)
  qed
qed

lemma format_decimal_eq:
  "length x = length (decimal v) \<Longrightarrow>
     format_decimal (a @ x @ r) (length a) v (length (decimal v)) = Inr (a @ decimal v @ r)"
  by (simp add: format_decimal_def store_decimal_eq)

lemma length_decimal_64: "length (decimal (unat (n :: uint64))) \<le> 20"
proof -
  have "length (decimal m) \<le> d" if "m < 10 ^ d" "0 < d" for m d
    using that
  proof (induction d arbitrary: m)
    case (Suc d)
    show ?case
    proof (cases "m < 10")
      case False
      then have "0 < d" using Suc.prems by (cases d) simp_all
      moreover have "m div 10 < 10 ^ d" using Suc.prems by (simp add: div_less_iff_less_mult mult.commute)
      ultimately show ?thesis using Suc.IH [of "m div 10"] False by (simp add: decimal.simps [of m])
    qed (simp add: decimal_less_10)
  qed simp
  moreover have "unat n < 10 ^ 20" using unsigned_less [of n, where ?'a = nat] by simp
  ultimately show ?thesis by simp
qed

text \<open>\<open>FormatInt\<close>: the array is large enough, and the digits end one before its last character.\<close>

lemma FormatInt_format_decimal_eq:
  "\<exists>buf. FormatInt_format_decimal value =
      Inr \<lparr>fi_buffer = replicate (21 - length (decimal (unat value))) (CHR 0x00) @ decimal (unat value) @ [CHR 0x00],
           fi_str = 21 - length (decimal (unat value))\<rparr>"
proof -
  let ?n = "length (decimal (unat value))"
  have n: "?n \<le> 20" by (rule length_decimal_64)
  have "replicate FI_BUFFER_SIZE (CHR 0x00) =
      replicate (21 - ?n) (CHR 0x00) @ replicate ?n (CHR 0x00) @ [CHR 0x00]"
  proof -
    have "22 = (21 - ?n) + (?n + 1)" using n by linarith
    then show ?thesis unfolding FI_BUFFER_SIZE_def
      using replicate_add [of "21 - ?n" "?n + 1" "CHR 0x00"] replicate_add [of ?n 1 "CHR 0x00"] by simp
  qed
  moreover have "FI_BUFFER_SIZE - 1 = length (replicate (21 - ?n) (CHR 0x00)) + length (replicate ?n (CHR 0x00))"
    using n by (simp add: FI_BUFFER_SIZE_def)
  ultimately show ?thesis
    using store_decimal_eq [of "replicate ?n (CHR 0x00)" "unat value" "FI_BUFFER_SIZE - 1"
        "replicate (21 - ?n) (CHR 0x00)" "[CHR 0x00]"]
    by (simp add: FormatInt_format_decimal_def)
qed

definition signed_decimal :: "int \<Rightarrow> string" where
  "signed_decimal i = (if i < 0 then CHR ''-'' # decimal (nat (- i)) else decimal (nat i))"

lemma abs_value64:
  assumes "- (2 ^ 64) < i" and "i < 2 ^ 64"
  shows "unat (if i < 0 then 0 - word_of_int i else word_of_int i :: uint64) = nat \<bar>i\<bar>"
proof -
  obtain n where n: "n = nat \<bar>i\<bar>" by simp
  have "(if i < 0 then 0 - word_of_int i else word_of_int i :: uint64) = of_int (int n)"
    by (simp add: n)
  then have "(if i < 0 then 0 - word_of_int i else word_of_int i :: uint64) = of_nat n" by simp
  moreover have "n < 2 ^ 64" using assms n by auto
  ultimately show ?thesis unfolding n [symmetric] by (simp add: unat_of_nat take_bit_nat_eq_self_iff)
qed

section \<open>Properties\<close>

text \<open>
  All three ways of counting digits, the two table-driven ones with their fixed-point
  approximation of the logarithm and the loop, give the number of characters of the decimal
  notation; the table is never read outside of its bounds.
\<close>

theorem count_digits_agree:
  "count_digits64 n = Inr (length (decimal (unat n))) \<and> count_digits_fallback n = length (decimal (unat n)) \<and>
   count_digits32 k = Inr (length (decimal (unat k)))"
  by (simp add: count_digits64_eq count_digits32_eq count_digits_fallback_def count_digits_loop_eq)

text \<open>
  \<open>FormatInt\<close> formats every 64-bit signed value, the most negative one included,
  as its decimal notation, inside its fixed array.
\<close>

theorem FormatInt_signed_decimal:
  assumes "- (2 ^ 63) \<le> i" and "i < 2 ^ 63"
  shows "bindE (FormatSigned i) FormatInt_str = Inr (signed_decimal i)"
proof -
  define w :: uint64 where "w = (if i < 0 then 0 - word_of_int i else word_of_int i)"
  have w: "unat w = nat \<bar>i\<bar>" unfolding w_def by (rule abs_value64) (use assms in simp_all)
  let ?n = "length (decimal (nat \<bar>i\<bar>))"
  have n: "?n \<le> 20" using length_decimal_64 [of w] w by simp
  have F: "FormatInt_format_decimal w = Inr \<lparr>fi_buffer = replicate (21 - ?n) (CHR 0x00) @ decimal (nat \<bar>i\<bar>) @ [CHR 0x00],
      fi_str = 21 - ?n\<rparr>"
    using FormatInt_format_decimal_eq [of w] w by simp
  show ?thesis
  proof (cases "i < 0")
    case True
    have r: "replicate (21 - ?n) (CHR 0x00) = replicate (20 - ?n) (CHR 0x00) @ [CHR 0x00]"
    proof -
      have "21 - ?n = (20 - ?n) + 1" using n by linarith
      then show ?thesis using replicate_add [of "20 - ?n" 1 "CHR 0x00"] by simp
    qed
    have e: "21 - ?n = Suc (20 - ?n)" using n by linarith
    have "store_before (21 - ?n) (CHR ''-'') (replicate (21 - ?n) (CHR 0x00) @ decimal (nat \<bar>i\<bar>) @ [CHR 0x00]) =
        Inr (replicate (20 - ?n) (CHR 0x00) @ CHR ''-'' # decimal (nat \<bar>i\<bar>) @ [CHR 0x00])"
      using store_before_at [of "21 - ?n" "replicate (20 - ?n) (CHR 0x00)" "CHR ''-''" "CHR 0x00"
          "decimal (nat \<bar>i\<bar>) @ [CHR 0x00]", unfolded length_replicate, OF e]
      unfolding r by simp
    then show ?thesis
      using F True n unfolding FormatSigned_def Let_def w_def [symmetric]
      by (simp add: FormatInt_str_def FormatInt_size_def FI_BUFFER_SIZE_def mem_read_def signed_decimal_def)
  next
    case False
    then show ?thesis
      using F n unfolding FormatSigned_def Let_def w_def [symmetric]
      by (simp add: FormatInt_str_def FormatInt_size_def FI_BUFFER_SIZE_def mem_read_def signed_decimal_def)
  qed
qed

theorem FormatInt_signed_decimal_witness:
  "bindE (FormatSigned (- 9223372036854775808)) FormatInt_str = Inr (signed_decimal (- 9223372036854775808))"
  by (rule FormatInt_signed_decimal) simp_all

end
