(* ===== verification/FormatWriter.thy ===== *)
theory FormatWriter
  imports Decimal
begin

text \<open>
  Class \<open>BasicWriter<char>\<close> of the Format library (Shared/format.h): the output buffer, padding, and the
  formatting of integers, characters and strings under a format specification. The output buffer is
  the string written so far; positions in it are indices, and every store is bounds-checked.
  The specification at the end says what each of these appends: the content, padded.
\<close>

section \<open>Format specifications\<close>

datatype alignment = ALIGN_DEFAULT | ALIGN_LEFT | ALIGN_RIGHT | ALIGN_CENTER | ALIGN_NUMERIC

definition SIGN_FLAG :: uint32 where "SIGN_FLAG = 1"
definition PLUS_FLAG :: uint32 where "PLUS_FLAG = 2"
definition MINUS_FLAG :: uint32 where "MINUS_FLAG = 4"
definition HASH_FLAG :: uint32 where "HASH_FLAG = 8"
definition CHAR_FLAG :: uint32 where "CHAR_FLAG = 0x10"

text \<open>
  \<open>FormatSpec\<close> and its base classes. A width is at most \<open>INT_MAX\<close> wherever the code sets it, so
  the unsigned additions on it do not wrap and a natural number stands for it. The type 0 means
  that none was given.
\<close>

record format_spec =
  spec_width :: nat
  spec_fill :: char
  spec_align :: alignment
  spec_flags :: uint32
  spec_precision :: int
  spec_type :: char

definition FormatSpec :: format_spec where
  "FormatSpec = \<lparr>spec_width = 0, spec_fill = CHR '' '', spec_align = ALIGN_DEFAULT, spec_flags = 0,
     spec_precision = - 1, spec_type = CHR 0x00\<rparr>"

definition flag :: "format_spec \<Rightarrow> uint32 \<Rightarrow> bool" where
  "flag spec f \<longleftrightarrow> spec_flags spec AND f \<noteq> 0"

section \<open>Errors\<close>

text \<open>\<open>std::isprint\<close> in the C locale; the message is the one \<open>report_unknown_type\<close> formats.\<close>

definition isprint :: "char \<Rightarrow> bool" where
  "isprint c \<longleftrightarrow> 0x20 \<le> (of_char c :: nat) \<and> (of_char c :: nat) \<le> 0x7e"

definition hex_digit :: "nat \<Rightarrow> char" where
  "hex_digit d = (if d < 10 then char_of (48 + d) else char_of (87 + d))"

definition HEX_digit :: "nat \<Rightarrow> char" where
  "HEX_digit d = (if d < 10 then char_of (48 + d) else char_of (55 + d))"

definition report_unknown_type :: "char \<Rightarrow> string \<Rightarrow> fmt_error" where
  "report_unknown_type code type_name =
     (if isprint code
      then FormatError (''unknown format code '' @ [CHR 0x27, code, CHR 0x27] @ '' for '' @ type_name)
      else FormatError (''unknown format code '' @ [CHR 0x27, CHR 0x5C] @ ''x'' @
        [hex_digit (of_char code div 16), hex_digit (of_char code mod 16), CHR 0x27] @ '' for '' @ type_name))"

section \<open>The output buffer\<close>

text \<open>The new characters of a grown buffer are not initialized; the model gives them the value 0.\<close>

definition grow_buffer :: "nat \<Rightarrow> string \<Rightarrow> string \<times> nat" where
  "grow_buffer n buf = (buf @ replicate n (CHR 0x00), length buf)"

definition copy :: "string \<Rightarrow> nat \<Rightarrow> string \<Rightarrow> string fmt" where
  "copy s p buf = checked (mem_write p s buf)"

definition fill_n :: "nat \<Rightarrow> nat \<Rightarrow> char \<Rightarrow> string \<Rightarrow> string fmt" where
  "fill_n p n c buf = copy (replicate n c) p buf"

text \<open>\<open>fill_padding\<close> gives the pointer to the content area between the two paddings.\<close>

definition fill_padding :: "nat \<Rightarrow> nat \<Rightarrow> nat \<Rightarrow> char \<Rightarrow> string \<Rightarrow> (string \<times> nat) fmt" where
  "fill_padding buffer total_size content_size fill buf = (
     let padding = total_size - content_size; left_padding = padding div 2 in
     bindE (fill_n buffer left_padding fill buf) (\<lambda>buf.
     let content = buffer + left_padding in
     bindE (fill_n (content + content_size) (padding - left_padding) fill buf) (\<lambda>buf.
     Inr (buf, content))))"

section \<open>Strings and characters\<close>

definition write_str_chars :: "string \<Rightarrow> format_spec \<Rightarrow> string \<Rightarrow> string fmt" where
  "write_str_chars s spec buf = (
     let n = length s; width = spec_width spec; fill = spec_fill spec in
     if width > n then
       (case grow_buffer width buf of (buf, out) \<Rightarrow>
          if spec_align spec = ALIGN_RIGHT then
            bindE (fill_n out (width - n) fill buf) (\<lambda>buf. copy s (out + (width - n)) buf)
          else if spec_align spec = ALIGN_CENTER then
            bindE (fill_padding out width n fill buf) (\<lambda>(buf, out). copy s out buf)
          else
            bindE (fill_n (out + n) (width - n) fill buf) (\<lambda>buf. copy s out buf))
     else (case grow_buffer n buf of (buf, out) \<Rightarrow> copy s out buf))"

text \<open>
  \<open>write_str\<close> of a string value; \<open>None\<close> is a null pointer of size 0. The precision cuts the string.
\<close>

definition write_str :: "string option \<Rightarrow> format_spec \<Rightarrow> string \<Rightarrow> string fmt" where
  "write_str s spec buf =
     (if spec_type spec \<noteq> CHR 0x00 \<and> spec_type spec \<noteq> CHR ''s''
      then Inl (report_unknown_type (spec_type spec) ''string'')
      else case s of
        None \<Rightarrow> Inl (FormatError ''string pointer is null'')
      | Some str_value \<Rightarrow>
          let str_size = (if spec_precision spec \<ge> 0 \<and> nat (spec_precision spec) < length str_value
                          then nat (spec_precision spec) else length str_value) in
          write_str_chars (take str_size str_value) spec buf)"

section \<open>Integers\<close>

text \<open>
  \<open>prepare_int_buffer\<close> makes room for a number of \<open>num_digits\<close> digits, writes padding and prefix,
  and gives the pointer to the last digit. First the instance for \<open>AlignSpec\<close>, which has no
  precision, then the one for \<open>FormatSpec\<close>.
\<close>

definition prepare_int_buffer_AlignSpec ::
  "nat \<Rightarrow> nat \<Rightarrow> char \<Rightarrow> alignment \<Rightarrow> string \<Rightarrow> string \<Rightarrow> (string \<times> nat) fmt" where
  "prepare_int_buffer_AlignSpec num_digits width fill align prefix buf = (
     let prefix_size = length prefix; size = prefix_size + num_digits in
     if width \<le> size then
       (case grow_buffer size buf of (buf, p) \<Rightarrow>
          bindE (copy prefix p buf) (\<lambda>buf. Inr (buf, p + size - 1)))
     else
       (case grow_buffer width buf of (buf, p) \<Rightarrow>
          let end_ptr = p + width in
          if align = ALIGN_LEFT then
            bindE (copy prefix p buf) (\<lambda>buf.
            let p = p + size in
            bindE (fill_n p (end_ptr - p) fill buf) (\<lambda>buf. Inr (buf, p - 1)))
          else if align = ALIGN_CENTER then
            bindE (fill_padding p width size fill buf) (\<lambda>(buf, p).
            bindE (copy prefix p buf) (\<lambda>buf. Inr (buf, p + size - 1)))
          else if align = ALIGN_NUMERIC then
            (if prefix_size \<noteq> 0 then
               bindE (copy prefix p buf) (\<lambda>buf.
               let p = p + prefix_size; size = size - prefix_size in
               bindE (fill_n p (end_ptr - size - p) fill buf) (\<lambda>buf. Inr (buf, end_ptr - 1)))
             else bindE (fill_n p (end_ptr - size - p) fill buf) (\<lambda>buf. Inr (buf, end_ptr - 1)))
          else
            bindE (copy prefix (end_ptr - size) buf) (\<lambda>buf.
            bindE (fill_n p (end_ptr - size - p) fill buf) (\<lambda>buf. Inr (buf, end_ptr - 1)))))"

definition prepare_int_buffer :: "nat \<Rightarrow> format_spec \<Rightarrow> string \<Rightarrow> string \<Rightarrow> (string \<times> nat) fmt" where
  "prepare_int_buffer num_digits spec prefix buf = (
     let width = spec_width spec; align = spec_align spec; fill = spec_fill spec in
     if spec_precision spec > int num_digits then
       let prefix = (if prefix \<noteq> [] \<and> last prefix = CHR ''0'' then butlast prefix else prefix);
           number_size = length prefix + nat (spec_precision spec) in
       if number_size \<ge> width then
         prepare_int_buffer_AlignSpec num_digits number_size (CHR ''0'') ALIGN_NUMERIC prefix buf
       else
         let fill_size = width - number_size in
         bindE (if align \<noteq> ALIGN_LEFT then
                  (case grow_buffer fill_size buf of (buf, p) \<Rightarrow> fill_n p fill_size fill buf)
                else Inr buf) (\<lambda>buf.
         bindE (prepare_int_buffer_AlignSpec num_digits number_size (CHR ''0'') ALIGN_NUMERIC prefix buf)
           (\<lambda>(buf, result).
         bindE (if align = ALIGN_LEFT then
                  (case grow_buffer fill_size buf of (buf, p) \<Rightarrow> fill_n p fill_size fill buf)
                else Inr buf) (\<lambda>buf.
         Inr (buf, result))))
     else prepare_int_buffer_AlignSpec num_digits width fill align prefix buf)"

lemma div_pow_less: "0 < k \<Longrightarrow> 0 < n div 2 ^ k \<Longrightarrow> n div 2 ^ k < (n :: nat)"
proof -
  assume *: "0 < k" "0 < n div 2 ^ k"
  then have "0 < n" by (metis div_0 less_irrefl neq0_conv)
  moreover have "(1 :: nat) < 2 ^ k" using one_less_power [of "2 :: nat" k] *(1) by simp
  ultimately show ?thesis by (simp add: div_less_dividend)
qed

text \<open>The two loops of the power-of-two bases: counting and storing \<open>k\<close>-bit digits.\<close>

function count_bits_digits :: "nat \<Rightarrow> nat \<Rightarrow> nat" where
  "count_bits_digits k n = (if k = 0 \<or> n div 2 ^ k = 0 then 1 else count_bits_digits k (n div 2 ^ k) + 1)"
  by pat_completeness auto
termination
  by (relation "measure snd") (auto simp: div_pow_less)

function store_bits_digits :: "nat \<Rightarrow> (nat \<Rightarrow> char) \<Rightarrow> nat \<Rightarrow> nat \<Rightarrow> string \<Rightarrow> string fmt" where
  "store_bits_digits k digit p n buf =
     bindE (store p (digit (n mod 2 ^ k)) buf) (\<lambda>buf.
     if k = 0 \<or> n div 2 ^ k = 0 then Inr buf
     else store_bits_digits k digit (p - 1) (n div 2 ^ k) buf)"
  by pat_completeness auto
termination
  by (relation "measure (\<lambda>(k, digit, p, n, buf). n)") (auto simp: div_pow_less)

declare count_bits_digits.simps [simp del] store_bits_digits.simps [simp del]

text \<open>
  \<open>write_int\<close> after the absolute value has been computed. \<open>count\<close> is the overload of \<open>count_digits\<close>
  for the unsigned type. The prefix array has room for the sign and the two characters of the base.
\<close>

definition write_int_abs :: "bool \<Rightarrow> nat \<Rightarrow> nat fmt \<Rightarrow> format_spec \<Rightarrow> string \<Rightarrow> string fmt" where
  "write_int_abs negative abs_value count spec buf = (
     let prefix = (if negative then ''-''
                   else if flag spec SIGN_FLAG then (if flag spec PLUS_FLAG then ''+'' else '' '')
                   else []);
         t = spec_type spec in
     if t = CHR 0x00 \<or> t = CHR ''d'' then
       bindE count (\<lambda>num_digits.
       bindE (prepare_int_buffer num_digits spec prefix buf) (\<lambda>(buf, p).
       format_decimal buf (p + 1 - num_digits) abs_value num_digits))
     else if t = CHR ''x'' \<or> t = CHR ''X'' then
       let prefix = (if flag spec HASH_FLAG then prefix @ [CHR ''0'', t] else prefix);
           num_digits = count_bits_digits 4 abs_value in
       bindE (prepare_int_buffer num_digits spec prefix buf) (\<lambda>(buf, p).
       store_bits_digits 4 (if t = CHR ''x'' then hex_digit else HEX_digit) p abs_value buf)
     else if t = CHR ''b'' \<or> t = CHR ''B'' then
       let prefix = (if flag spec HASH_FLAG then prefix @ [CHR ''0'', t] else prefix);
           num_digits = count_bits_digits 1 abs_value in
       bindE (prepare_int_buffer num_digits spec prefix buf) (\<lambda>(buf, p).
       store_bits_digits 1 digit_char p abs_value buf)
     else if t = CHR ''o'' then
       let prefix = (if flag spec HASH_FLAG then prefix @ [CHR ''0''] else prefix);
           num_digits = count_bits_digits 3 abs_value in
       bindE (prepare_int_buffer num_digits spec prefix buf) (\<lambda>(buf, p).
       store_bits_digits 3 digit_char p abs_value buf)
     else Inl (report_unknown_type t (if flag spec CHAR_FLAG then ''char'' else ''integer'')))"

text \<open>The instances for values whose unsigned type has 32 and 64 bits.\<close>

definition write_int32 :: "int \<Rightarrow> format_spec \<Rightarrow> string \<Rightarrow> string fmt" where
  "write_int32 value spec buf = (
     let abs_value = word_of_int value :: uint32;
         abs_value = (if value < 0 then 0 - abs_value else abs_value) in
     write_int_abs (value < 0) (unat abs_value) (count_digits32 abs_value) spec buf)"

definition write_int64 :: "int \<Rightarrow> format_spec \<Rightarrow> string \<Rightarrow> string fmt" where
  "write_int64 value spec buf = (
     let abs_value = word_of_int value :: uint64;
         abs_value = (if value < 0 then 0 - abs_value else abs_value) in
     write_int_abs (value < 0) (unat abs_value) (count_digits64 abs_value) spec buf)"

text \<open>\<open>write_decimal\<close>, behind the stream operators for signed integers.\<close>

definition write_decimal64 :: "int \<Rightarrow> string \<Rightarrow> string fmt" where
  "write_decimal64 value buf = (
     let abs_value = word_of_int value :: uint64;
         abs_value = (if value < 0 then 0 - abs_value else abs_value);
         prefix_size = (if value < 0 then 1 else 0) in
     bindE (count_digits64 abs_value) (\<lambda>num_digits.
     case grow_buffer (prefix_size + num_digits) buf of (buf, p) \<Rightarrow>
     bindE (format_decimal buf (p + prefix_size) (unat abs_value) num_digits) (\<lambda>buf.
     if value < 0 then store p (CHR ''-'') buf else Inr buf)))"

section \<open>Specification: the content, padded\<close>

definition pad_text :: "alignment \<Rightarrow> nat \<Rightarrow> char \<Rightarrow> string \<Rightarrow> string" where
  "pad_text align width fill content = (let padding = width - length content in
     if align = ALIGN_RIGHT then replicate padding fill @ content
     else if align = ALIGN_CENTER
     then replicate (padding div 2) fill @ content @ replicate (padding - padding div 2) fill
     else content @ replicate padding fill)"

text \<open>What stands before and behind the digits of a number.\<close>

definition align_layout :: "nat \<Rightarrow> nat \<Rightarrow> char \<Rightarrow> alignment \<Rightarrow> string \<Rightarrow> string \<times> string" where
  "align_layout num_digits width fill align prefix = (let padding = width - (length prefix + num_digits) in
     if align = ALIGN_LEFT then (prefix, replicate padding fill)
     else if align = ALIGN_CENTER
     then (replicate (padding div 2) fill @ prefix, replicate (padding - padding div 2) fill)
     else if align = ALIGN_NUMERIC then (prefix @ replicate padding fill, [])
     else (replicate padding fill @ prefix, []))"

definition int_layout :: "nat \<Rightarrow> format_spec \<Rightarrow> string \<Rightarrow> string \<times> string" where
  "int_layout num_digits spec prefix =
     (if spec_precision spec > int num_digits then
        let prefix = (if prefix \<noteq> [] \<and> last prefix = CHR ''0'' then butlast prefix else prefix);
            core = prefix @ replicate (nat (spec_precision spec) - num_digits) (CHR ''0'');
            padding = replicate (spec_width spec - (length prefix + nat (spec_precision spec))) (spec_fill spec) in
        if spec_align spec = ALIGN_LEFT then (core, padding) else (padding @ core, [])
      else align_layout num_digits (spec_width spec) (spec_fill spec) (spec_align spec) prefix)"

function bits_notation :: "nat \<Rightarrow> (nat \<Rightarrow> char) \<Rightarrow> nat \<Rightarrow> string" where
  "bits_notation k digit n =
     (if k = 0 \<or> n div 2 ^ k = 0 then [digit (n mod 2 ^ k)]
      else bits_notation k digit (n div 2 ^ k) @ [digit (n mod 2 ^ k)])"
  by pat_completeness auto
termination
  by (relation "measure (\<lambda>(k, digit, n). n)") (auto simp: div_pow_less)

declare bits_notation.simps [simp del]

definition sign_prefix :: "bool \<Rightarrow> format_spec \<Rightarrow> string" where
  "sign_prefix negative spec =
     (if negative then ''-''
      else if flag spec SIGN_FLAG then (if flag spec PLUS_FLAG then ''+'' else '' '') else [])"

text \<open>Prefix and digits of a number under a type letter; \<open>None\<close> is an unknown letter.\<close>

definition int_notation :: "format_spec \<Rightarrow> bool \<Rightarrow> nat \<Rightarrow> (string \<times> string) option" where
  "int_notation spec negative n = (let t = spec_type spec; sign = sign_prefix negative spec in
     if t \<in> {CHR 0x00, CHR ''d''} then Some (sign, decimal n)
     else if t \<in> {CHR ''x'', CHR ''X''} then
       Some (sign @ (if flag spec HASH_FLAG then [CHR ''0'', t] else []),
         bits_notation 4 (if t = CHR ''x'' then hex_digit else HEX_digit) n)
     else if t \<in> {CHR ''b'', CHR ''B''} then
       Some (sign @ (if flag spec HASH_FLAG then [CHR ''0'', t] else []), bits_notation 1 digit_char n)
     else if t = CHR ''o'' then
       Some (sign @ (if flag spec HASH_FLAG then ''0'' else []), bits_notation 3 digit_char n)
     else None)"

definition int_text :: "format_spec \<Rightarrow> bool \<Rightarrow> nat \<Rightarrow> string fmt" where
  "int_text spec negative n = (case int_notation spec negative n of
     None \<Rightarrow> Inl (report_unknown_type (spec_type spec) (if flag spec CHAR_FLAG then ''char'' else ''integer''))
   | Some (prefix, digits) \<Rightarrow>
       (case int_layout (length digits) spec prefix of (l, r) \<Rightarrow> Inr (l @ digits @ r)))"

section \<open>The stores produce the specified text\<close>

named_theorems buffer_simps "definitions of the buffer operations, for evaluation on appended parts"

lemmas [buffer_simps] = copy_def fill_n_def fill_padding_def grow_buffer_def mem_write_def checked_def

lemma half_pad: "k < w \<Longrightarrow> (w - k) div 2 + k \<le> (w :: nat)"
  by linarith

lemma write_str_chars_eq:
  "write_str_chars s spec buf = Inr (buf @ pad_text (spec_align spec) (spec_width spec) (spec_fill spec) s)"
proof (cases "length s < spec_width spec")
  case True
  then have "(spec_width spec - length s) div 2 + length s \<le> spec_width spec" by (rule half_pad)
  then show ?thesis using True
    by (auto simp: write_str_chars_def buffer_simps pad_text_def Let_def)
qed (simp add: write_str_chars_def buffer_simps pad_text_def Let_def)

lemma prepare_AlignSpec_eq:
  assumes "0 < num_digits"
  shows "prepare_int_buffer_AlignSpec num_digits width fill align prefix buf =
    (case align_layout num_digits width fill align prefix of
       (l, r) \<Rightarrow> Inr (buf @ l @ replicate num_digits (CHR 0x00) @ r, length buf + length l + num_digits - 1))"
proof (cases "width \<le> length prefix + num_digits")
  case True
  then show ?thesis using assms
    by (cases align) (simp_all add: prepare_int_buffer_AlignSpec_def align_layout_def buffer_simps Let_def
      replicate_add [symmetric] add.assoc)
next
  case False
  have "(width - (length prefix + num_digits)) div 2 + length prefix + num_digits \<le> width"
    using half_pad [of "length prefix + num_digits" width] False by linarith
  then show ?thesis using assms False
    by (cases align) (auto simp: prepare_int_buffer_AlignSpec_def align_layout_def buffer_simps Let_def
      add.assoc add.commute)
qed

lemma prepare_int_buffer_eq:
  assumes n: "0 < num_digits"
  shows "prepare_int_buffer num_digits spec prefix buf =
    (case int_layout num_digits spec prefix of
       (l, r) \<Rightarrow> Inr (buf @ l @ replicate num_digits (CHR 0x00) @ r, length buf + length l + num_digits - 1))"
proof (cases "spec_precision spec > int num_digits")
  case False
  then show ?thesis by (simp add: prepare_int_buffer_def int_layout_def prepare_AlignSpec_eq [OF n])
next
  case True
  define prefix' where "prefix' = (if prefix \<noteq> [] \<and> last prefix = CHR ''0'' then butlast prefix else prefix)"
  let ?size = "length prefix' + nat (spec_precision spec)"
  have layout: "align_layout num_digits ?size (CHR ''0'') ALIGN_NUMERIC prefix' =
      (prefix' @ replicate (nat (spec_precision spec) - num_digits) (CHR ''0''), [])"
    by (simp add: align_layout_def)
  have fill: "bindE (case grow_buffer m b of (b', p) \<Rightarrow> fill_n p m c b') f = f (b @ replicate m c)" for m b c and f :: "string \<Rightarrow> (string \<times> nat) fmt"
    by (simp add: buffer_simps)
  show ?thesis
  proof (cases "spec_width spec \<le> ?size")
    case w: True
    then show ?thesis using True
      by (simp add: prepare_int_buffer_def int_layout_def prepare_AlignSpec_eq [OF n] prefix'_def [symmetric]
          layout Let_def)
  next
    case w: False
    then show ?thesis using True n
      by (simp add: prepare_int_buffer_def int_layout_def prepare_AlignSpec_eq [OF n] prefix'_def [symmetric]
          layout Let_def fill add.assoc)
  qed
qed

lemma count_bits_digits_eq: "count_bits_digits k n = length (bits_notation k digit n)"
  by (induction k n rule: count_bits_digits.induct)
     (simp add: count_bits_digits.simps bits_notation.simps)

lemma bits_notation_not_Nil [simp]: "bits_notation k digit n \<noteq> []"
  by (simp add: bits_notation.simps)

lemma store_at: "p = length a \<Longrightarrow> store p c (a @ y # r) = Inr (a @ c # r)"
  by (simp add: store_def)

lemma store_bits_digits_eq:
  "length x = length (bits_notation k digit n) \<Longrightarrow> p = length a + length x - 1 \<Longrightarrow>
     store_bits_digits k digit p n (a @ x @ r) = Inr (a @ bits_notation k digit n @ r)"
proof (induction n arbitrary: x p r rule: less_induct)
  case (less n)
  let ?x = "butlast x"
  have x: "x = ?x @ [last x]" using less.prems(1) by (metis append_butlast_last_id length_0_conv bits_notation_not_Nil)
  have p: "p = length (a @ ?x)" using less.prems x by (metis Suc_eq_plus1 add_Suc_right diff_Suc_1 length_append length_append_singleton)
  have st: "store p c (a @ x @ r) = Inr (a @ ?x @ c # r)" for c
    using store_at [OF p, of c "last x" r] x by (metis append_Cons append_Nil append_assoc)
  show ?case
  proof (cases "k = 0 \<or> n div 2 ^ k = 0")
    case True
    then have "length ?x = 0" using less.prems(1) by (simp add: bits_notation.simps [of k digit n])
    then have "?x = []" by blast
    then show ?thesis using True by (simp add: store_bits_digits.simps [of k digit p n] st bits_notation.simps [of k digit n])
  next
    case False
    then have lt: "n div 2 ^ k < n" using div_pow_less [of k n] by simp
    have l: "length ?x = length (bits_notation k digit (n div 2 ^ k))"
      using less.prems(1) False by (simp add: bits_notation.simps [of k digit n])
    have "store_bits_digits k digit (p - 1) (n div 2 ^ k) (a @ ?x @ digit (n mod 2 ^ k) # r) =
        Inr (a @ bits_notation k digit (n div 2 ^ k) @ digit (n mod 2 ^ k) # r)"
      by (rule less.IH [OF lt l]) (simp add: p)
    then show ?thesis using False
      by (simp add: store_bits_digits.simps [of k digit p n] st bits_notation.simps [of k digit n])
  qed
qed

text \<open>Any way of storing the digits \<open>ds\<close> that ends at the last digit completes the layout.\<close>

lemma prepare_and_store:
  assumes "ds \<noteq> []"
    and "\<And>a r. st (a @ replicate (length ds) (CHR 0x00) @ r) (length a + length ds - 1) = Inr (a @ ds @ r)"
  shows "bindE (prepare_int_buffer (length ds) spec prefix buf) (\<lambda>(buf, p). st buf p) =
    (case int_layout (length ds) spec prefix of (l, r) \<Rightarrow> Inr (buf @ l @ ds @ r))"
  using assms(2) [of "buf @ l" r for l r] assms(1) prepare_int_buffer_eq [of "length ds" spec prefix buf]
  by (simp split: prod.splits)

lemma write_int_abs_eq:
  assumes "count = Inr (length (decimal n))"
  shows "write_int_abs negative n count spec buf = map_sum id ((@) buf) (int_text spec negative n)"
proof -
  have dec: "bindE (prepare_int_buffer (length (decimal n)) spec prefix buf)
      (\<lambda>(buf, p). format_decimal buf (p + 1 - length (decimal n)) n (length (decimal n))) =
      (case int_layout (length (decimal n)) spec prefix of (l, r) \<Rightarrow> Inr (buf @ l @ decimal n @ r))" for prefix
    by (rule prepare_and_store) (simp_all add: Suc_diff_le [symmetric] format_decimal_eq)
  have bits: "bindE (prepare_int_buffer (count_bits_digits k n) spec prefix buf)
      (\<lambda>(buf, p). store_bits_digits k digit p n buf) =
      (case int_layout (length (bits_notation k digit n)) spec prefix of
         (l, r) \<Rightarrow> Inr (buf @ l @ bits_notation k digit n @ r))" for k digit prefix
    unfolding count_bits_digits_eq [of k n digit]
    by (rule prepare_and_store) (simp_all add: store_bits_digits_eq)
  show ?thesis
    unfolding write_int_abs_def Let_def assms sign_prefix_def [symmetric] bindE_simps dec bits
    by (auto simp: int_text_def int_notation_def Let_def split: prod.splits)
qed

lemma abs_value32:
  assumes "- (2 ^ 32) < i" and "i < 2 ^ 32"
  shows "unat (if i < 0 then 0 - word_of_int i else word_of_int i :: uint32) = nat \<bar>i\<bar>"
proof -
  obtain n where n: "n = nat \<bar>i\<bar>" by simp
  have "(if i < 0 then 0 - word_of_int i else word_of_int i :: uint32) = of_int (int n)"
    by (simp add: n)
  then have "(if i < 0 then 0 - word_of_int i else word_of_int i :: uint32) = of_nat n" by simp
  moreover have "n < 2 ^ 32" using assms n by auto
  ultimately show ?thesis unfolding n [symmetric] by (simp add: unat_of_nat take_bit_nat_eq_self_iff)
qed

lemma write_int32_eq:
  "- (2 ^ 32) < i \<Longrightarrow> i < 2 ^ 32 \<Longrightarrow>
     write_int32 i spec buf = map_sum id ((@) buf) (int_text spec (i < 0) (nat \<bar>i\<bar>))"
  unfolding write_int32_def Let_def
  by (subst abs_value32, assumption, assumption, rule write_int_abs_eq) (simp only: count_digits32_eq abs_value32)

lemma write_int64_eq:
  "- (2 ^ 64) < i \<Longrightarrow> i < 2 ^ 64 \<Longrightarrow>
     write_int64 i spec buf = map_sum id ((@) buf) (int_text spec (i < 0) (nat \<bar>i\<bar>))"
  unfolding write_int64_def Let_def
  by (subst abs_value64, assumption, assumption, rule write_int_abs_eq) (simp only: count_digits64_eq abs_value64)

lemma write_decimal64_eq:
  assumes "- (2 ^ 64) < i" and "i < 2 ^ 64"
  shows "write_decimal64 i buf = Inr (buf @ signed_decimal i)"
proof -
  define w :: uint64 where "w = (if i < 0 then 0 - word_of_int i else word_of_int i)"
  have w: "unat w = nat \<bar>i\<bar>" unfolding w_def by (rule abs_value64 [OF assms])
  let ?d = "decimal (nat \<bar>i\<bar>)"
  have F: "format_decimal (a @ replicate (length ?d) (CHR 0x00)) (length a) (nat \<bar>i\<bar>) (length ?d) = Inr (a @ ?d)" for a
    using format_decimal_eq [of "replicate (length ?d) (CHR 0x00)" "nat \<bar>i\<bar>" a "[]"] by simp
  show ?thesis
  proof (cases "i < 0")
    case True
    then show ?thesis
      using F [of "buf @ [CHR 0x00]"]
      unfolding write_decimal64_def Let_def w_def [symmetric] count_digits64_eq w
      by (simp add: grow_buffer_def signed_decimal_def store_def)
  next
    case False
    then show ?thesis
      using F [of buf]
      unfolding write_decimal64_def Let_def w_def [symmetric] count_digits64_eq w
      by (simp add: grow_buffer_def signed_decimal_def)
  qed
qed

lemma length_int_layout:
  "int_layout (length ds) spec prefix = (l, r) \<Longrightarrow> spec_width spec \<le> length (l @ ds @ r)"
  by (cases "spec_align spec")
     (auto simp: int_layout_def align_layout_def Let_def split: if_splits)

section \<open>Properties\<close>

text \<open>
  Formatting an integer of the 32-bit types appends exactly the specified text (sign, base
  prefix, precision zeros, digits, padding by the alignment) to the output, for every value, type letter
  and specification, and never stores outside of the buffer; an unknown type letter is the format error.
\<close>

theorem write_int32_appends_text:
  assumes "- (2 ^ 32) < i" and "i < 2 ^ 32"
  shows "write_int32 i spec buf = map_sum id ((@) buf) (int_text spec (i < 0) (nat \<bar>i\<bar>)) \<and>
    write_int32 i spec buf \<noteq> Inl Fault \<and>
    (case int_text spec (i < 0) (nat \<bar>i\<bar>) of Inl _ \<Rightarrow> True | Inr t \<Rightarrow> spec_width spec \<le> length t)"
  using write_int32_eq [OF assms, of spec buf] length_int_layout
  by (auto simp: int_text_def report_unknown_type_def split: option.splits prod.splits sum.splits)

theorem write_int32_appends_text_witness:
  "write_int32 (- 7) (FormatSpec\<lparr>spec_width := 4, spec_fill := CHR ''0'', spec_align := ALIGN_NUMERIC\<rparr>) ''x'' =
     map_sum id ((@) ''x'') (int_text (FormatSpec\<lparr>spec_width := 4, spec_fill := CHR ''0'', spec_align := ALIGN_NUMERIC\<rparr>)
       (- 7 < (0 :: int)) (nat \<bar>- 7 :: int\<bar>)) \<and>
   write_int32 (- 7) (FormatSpec\<lparr>spec_width := 4, spec_fill := CHR ''0'', spec_align := ALIGN_NUMERIC\<rparr>) ''x'' \<noteq> Inl Fault \<and>
   (case int_text (FormatSpec\<lparr>spec_width := 4, spec_fill := CHR ''0'', spec_align := ALIGN_NUMERIC\<rparr>)
       (- 7 < (0 :: int)) (nat \<bar>- 7 :: int\<bar>) of Inl _ \<Rightarrow> True
    | Inr t \<Rightarrow> spec_width (FormatSpec\<lparr>spec_width := 4, spec_fill := CHR ''0'', spec_align := ALIGN_NUMERIC\<rparr>) \<le> length t)"
  by (rule write_int32_appends_text) simp_all

end
