(* ===== verification/FormatArgs.thy ===== *)
theory FormatArgs
  imports FormatWriter
begin

text \<open>
  The argument lists of the Format library (Shared/format.h, Shared/format.cc): typed arguments, the list
  whose first 16 types are packed into one 64-bit word, the map of the named arguments, and the
  choice between automatic and manual indexing.
\<close>

section \<open>Arguments\<close>

text \<open>
  \<open>Arg\<close>, a union with its type tag. A C string has its address (0 is the null pointer) and its
  characters; \<open>CUSTOM\<close> has the text that the value's stream operator writes. Wide strings cannot be
  written to a \<open>char\<close> writer and have no constructor. \<open>INT'\<close> and \<open>CHAR'\<close> are the code's \<open>INT\<close> and \<open>CHAR\<close>.
\<close>

datatype 'd arg =
    NONE | NAMED_ARG string "'d arg"
  | INT' int | UINT uint32 | LONG_LONG int | ULONG_LONG uint64 | BOOL bool | CHAR' int
  | DOUBLE 'd | LONG_DOUBLE 'd
  | CSTRING uint64 string | STRING string | POINTER uint64 | CUSTOM string

fun arg_type :: "'d arg \<Rightarrow> uint64" where
  "arg_type NONE = 0"
| "arg_type (NAMED_ARG _ _) = 1"
| "arg_type (INT' _) = 2"
| "arg_type (UINT _) = 3"
| "arg_type (LONG_LONG _) = 4"
| "arg_type (ULONG_LONG _) = 5"
| "arg_type (BOOL _) = 6"
| "arg_type (CHAR' _) = 7"
| "arg_type (DOUBLE _) = 8"
| "arg_type (LONG_DOUBLE _) = 9"
| "arg_type (CSTRING _ _) = 10"
| "arg_type (STRING _) = 11"
| "arg_type (POINTER _) = 13"
| "arg_type (CUSTOM _) = 14"

definition LAST_INTEGER_TYPE :: uint64 where "LAST_INTEGER_TYPE = 7"
definition LAST_NUMERIC_TYPE :: uint64 where "LAST_NUMERIC_TYPE = 9"
definition POINTER_TYPE :: uint64 where "POINTER_TYPE = 13"

section \<open>Argument lists\<close>

text \<open>
  \<open>ArgList\<close>: the packed types and the array. The elements of the array are unions; which member an
  element holds is its constructor, and reading it under another type is a fault of the model.
\<close>

record 'd arg_list =
  types :: uint64
  args_array :: "'d arg list"

definition MAX_PACKED_ARGS :: nat where
  "MAX_PACKED_ARGS = 16"

fun make_type :: "'d arg list \<Rightarrow> uint64" where
  "make_type [] = 0"
| "make_type (first # tail) = arg_type first OR push_bit 4 (make_type tail)"

text \<open>From 16 arguments on the array has a last element that marks the end.\<close>

definition make_arg_list :: "'d arg list \<Rightarrow> 'd arg_list" where
  "make_arg_list args =
     \<lparr>types = make_type args,
      args_array = (if length args \<ge> MAX_PACKED_ARGS then args @ [NONE] else args)\<rparr>"

definition packed_type :: "'d arg_list \<Rightarrow> nat \<Rightarrow> uint64" where
  "packed_type al index = (let shift = index * 4 in drop_bit shift (types al AND push_bit shift 0xf))"

definition read_union :: "uint64 \<Rightarrow> 'd arg \<Rightarrow> 'd arg fmt" where
  "read_union ty v = (if arg_type v = ty then Inr v else Inl Fault)"

text \<open>The search for the end marker in the part of the array whose types are not packed.\<close>

fun search_end :: "'d arg list \<Rightarrow> nat \<Rightarrow> nat \<Rightarrow> 'd arg fmt" where
  "search_end arr 0 i = checked (mem_get i arr)"
| "search_end arr (Suc n) i =
     bindE (checked (mem_get i arr)) (\<lambda>a.
     if a = NONE then Inr a else if n = 0 then Inr a else search_end arr n (i + 1))"

definition arg_list_get :: "'d arg_list \<Rightarrow> nat \<Rightarrow> 'd arg fmt" where
  "arg_list_get al index = (let use_values = (packed_type al (MAX_PACKED_ARGS - 1) = 0) in
     if index < MAX_PACKED_ARGS then
       (let ty = packed_type al index in
        if ty \<noteq> 0 then bindE (checked (mem_get index (args_array al))) (read_union ty)
        else Inr NONE)
     else if use_values then Inr NONE
     else search_end (args_array al) (index + 1 - MAX_PACKED_ARGS) MAX_PACKED_ARGS)"

section \<open>Named arguments\<close>

text \<open>\<open>std::map::insert\<close> keeps the element that is there.\<close>

definition map_insert :: "string \<Rightarrow> 'd arg \<Rightarrow> (string \<rightharpoonup> 'd arg) \<Rightarrow> (string \<rightharpoonup> 'd arg)" where
  "map_insert k v m = (case m k of None \<Rightarrow> m(k \<mapsto> v) | Some _ \<Rightarrow> m)"

definition insert_named :: "'d arg \<Rightarrow> (string \<rightharpoonup> 'd arg) \<Rightarrow> (string \<rightharpoonup> 'd arg)" where
  "insert_named a m = (case a of NAMED_ARG name inner \<Rightarrow> map_insert name inner m | _ \<Rightarrow> m)"

text \<open>
  \<open>ArgMap::init\<close>: the loop over the packed types (which ends at the latest at the 16th, since that
  one is \<open>NONE\<close> there), and the two loops for longer lists. The loop over the rest of the array ends at
  the end marker; running out of the array is a fault.
\<close>

fun init_values :: "'d arg_list \<Rightarrow> nat list \<Rightarrow> (string \<rightharpoonup> 'd arg) \<Rightarrow> (string \<rightharpoonup> 'd arg) fmt" where
  "init_values al [] m = Inr m"
| "init_values al (i # is) m =
     (if packed_type al i = 0 then Inr m
      else bindE (checked (mem_get i (args_array al))) (\<lambda>a.
        init_values al is (if packed_type al i = 1 then insert_named a m else m)))"

fun init_packed :: "'d arg_list \<Rightarrow> nat list \<Rightarrow> (string \<rightharpoonup> 'd arg) \<Rightarrow> (string \<rightharpoonup> 'd arg) fmt" where
  "init_packed al [] m = Inr m"
| "init_packed al (i # is) m =
     (if packed_type al i = 1
      then bindE (checked (mem_get i (args_array al))) (\<lambda>a. init_packed al is (insert_named a m))
      else init_packed al is m)"

fun init_rest :: "'d arg list \<Rightarrow> (string \<rightharpoonup> 'd arg) \<Rightarrow> (string \<rightharpoonup> 'd arg) fmt" where
  "init_rest [] m = Inl Fault"
| "init_rest (a # as) m = (if a = NONE then Inr m else init_rest as (insert_named a m))"

definition ArgMap_init :: "'d arg_list \<Rightarrow> (string \<rightharpoonup> 'd arg) fmt" where
  "ArgMap_init al =
     (if packed_type al (MAX_PACKED_ARGS - 1) = 0 then init_values al [0..<MAX_PACKED_ARGS] Map.empty
      else bindE (init_packed al [0..<MAX_PACKED_ARGS] Map.empty)
        (init_rest (drop MAX_PACKED_ARGS (args_array al))))"

section \<open>Choosing an argument\<close>

text \<open>
  \<open>FormatterBase\<close>: the list and the index of the next automatic argument, -1 once an index or name has
  been given. The code passes an error message back through a pointer and throws later; the model's
  inner result is \<open>Inl\<close> that message.
\<close>

record 'd formatter =
  fmt_args :: "'d arg_list"
  next_arg_index :: int

definition do_get_arg :: "'d formatter \<Rightarrow> nat \<Rightarrow> (string + 'd arg) fmt" where
  "do_get_arg f arg_index = bindE (arg_list_get (fmt_args f) arg_index) (\<lambda>arg.
     case arg of NONE \<Rightarrow> Inr (Inl ''argument index out of range'')
     | NAMED_ARG name inner \<Rightarrow> Inr (Inr inner)
     | _ \<Rightarrow> Inr (Inr arg))"

definition next_arg :: "'d formatter \<Rightarrow> ((string + 'd arg) \<times> 'd formatter) fmt" where
  "next_arg f =
     (if next_arg_index f \<ge> 0
      then bindE (do_get_arg f (nat (next_arg_index f)))
        (\<lambda>r. Inr (r, f\<lparr>next_arg_index := next_arg_index f + 1\<rparr>))
      else Inr (Inl ''cannot switch from manual to automatic argument indexing'', f))"

definition check_no_auto_index :: "'d formatter \<Rightarrow> string option \<times> 'd formatter" where
  "check_no_auto_index f =
     (if next_arg_index f > 0
      then (Some ''cannot switch from automatic to manual argument indexing'', f)
      else (None, f\<lparr>next_arg_index := - 1\<rparr>))"

definition get_arg_index :: "'d formatter \<Rightarrow> nat \<Rightarrow> ((string + 'd arg) \<times> 'd formatter) fmt" where
  "get_arg_index f arg_index = (case check_no_auto_index f of
     (Some err, f) \<Rightarrow> Inr (Inl err, f)
   | (None, f) \<Rightarrow> bindE (do_get_arg f arg_index) (\<lambda>r. Inr (r, f)))"

definition get_arg_name :: "'d formatter \<Rightarrow> string \<Rightarrow> ((string + 'd arg) \<times> 'd formatter) fmt" where
  "get_arg_name f name = (case check_no_auto_index f of
     (Some err, f) \<Rightarrow> Inr (Inl err, f)
   | (None, f) \<Rightarrow> bindE (ArgMap_init (fmt_args f)) (\<lambda>m.
       case m name of Some a \<Rightarrow> Inr (Inr a, f) | None \<Rightarrow> Inr (Inl ''argument not found'', f)))"

section \<open>The packed list is the list of arguments\<close>

definition arg_at :: "'d arg list \<Rightarrow> nat \<Rightarrow> 'd arg" where
  "arg_at args i = (if i < length args then args ! i else NONE)"

lemma arg_type_less: "arg_type a < 16" and arg_type_0: "arg_type a = 0 \<longleftrightarrow> a = NONE"
  by (cases a; simp)+

lemma bit_arg_type: "bit (arg_type a) m \<Longrightarrow> m < 4"
proof (rule ccontr)
  assume *: "bit (arg_type a) m" "\<not> m < 4"
  have "take_bit 4 (arg_type a) = arg_type a"
    by (cases a) (simp_all add: take_bit_eq_mod)
  then show False using * by (metis bit_take_bit_iff)
qed

lemma arg_at_simps [simp]:
  "arg_at (a # as) 0 = a" "arg_at (a # as) (Suc i) = arg_at as i" "arg_at [] i = NONE"
  by (simp_all add: arg_at_def)

lemma bit_make_type: "bit (make_type args) m \<longleftrightarrow> m < 64 \<and> bit (arg_type (arg_at args (m div 4))) (m mod 4)"
proof (induction args arbitrary: m)
  case (Cons a args)
  show ?case
  proof (cases "m < 4")
    case True
    then show ?thesis by (simp add: bit_simps)
  next
    case False
    then obtain k where k: "m = k + 4" by (metis add.commute le_Suc_ex not_less)
    then have "m div 4 = Suc (k div 4)" "m mod 4 = k mod 4" by simp_all
    then show ?thesis using False bit_arg_type [of a m] Cons.IH [of k] k
      by (auto simp: bit_simps dest: bit_imp_le_length)
  qed
qed simp

lemma mask_4: "(0xf :: uint64) = mask 4"
  by (simp add: mask_eq_exp_minus_1)

lemma packed_type_make_type:
  assumes "index < 16"
  shows "packed_type (make_arg_list args) index = arg_type (arg_at args index)"
proof (rule bit_word_eqI)
  fix n :: nat
  assume n: "n < LENGTH(64)"
  show "bit (packed_type (make_arg_list args) index) n \<longleftrightarrow> bit (arg_type (arg_at args index)) n"
  proof (cases "n < 4")
    case True
    have "bit (0xf :: uint64) n" using True
      by (simp add: mask_4 bit_mask_iff)
    moreover have "(index * 4 + n) div 4 = index" "(index * 4 + n) mod 4 = n" "index * 4 + n < 64"
      using True assms by simp_all
    ultimately show ?thesis
      by (simp add: packed_type_def make_arg_list_def Let_def bit_simps bit_make_type)
  next
    case False
    have "\<not> bit (0xf :: uint64) n"
      using False by (simp add: mask_4 bit_mask_iff)
    then show ?thesis using bit_arg_type [of "arg_at args index" n] False
      by (auto simp: packed_type_def make_arg_list_def Let_def bit_simps)
  qed
qed

text \<open>The lists the code builds contain no \<open>NONE\<close>: every type tag of a value is nonzero.\<close>

lemma arg_list_get_eq:
  assumes "NONE \<notin> set args"
  shows "arg_list_get (make_arg_list args) i = Inr (arg_at args i)"
proof -
  have use: "packed_type (make_arg_list args) 15 = 0 \<longleftrightarrow> length args \<le> 15"
    using assms by (auto simp: packed_type_make_type arg_type_0 arg_at_def dest: nth_mem)
  show ?thesis
  proof (cases "i < 16")
    case True
    have "mem_get i (args_array (make_arg_list args)) = Some (args ! i)" if "i < length args"
      using that by (simp add: make_arg_list_def mem_get_def nth_append)
    then show ?thesis using True
      by (simp add: arg_list_get_def MAX_PACKED_ARGS_def packed_type_make_type arg_type_0 read_union_def Let_def)
         (auto simp: arg_at_def read_union_def)
  next
    case False
    show ?thesis
    proof (cases "length args \<le> 15")
      case True
      then show ?thesis using use False by (simp add: arg_list_get_def MAX_PACKED_ARGS_def arg_at_def Let_def)
    next
      case long: False
      have S: "search_end (args @ [NONE]) n j = Inr (arg_at args (j + n - 1))"
        if "0 < n" "j \<le> length args" for n j
        using that
      proof (induction n arbitrary: j)
        case (Suc n)
        consider "j = length args" | "j < length args" "n = 0" | "j < length args" "0 < n" using Suc.prems by linarith
        then show ?case
        proof cases
          case 1
          then show ?thesis by (simp add: mem_get_def arg_at_def)
        next
          case 2
          then show ?thesis by (simp add: mem_get_def arg_at_def nth_append)
        next
          case 3
          moreover have "args ! j \<noteq> NONE" using assms 3 by (metis nth_mem)
          ultimately show ?thesis using Suc.IH [of "j + 1"] by (simp add: mem_get_def nth_append)
        qed
      qed simp
      have "args_array (make_arg_list args) = args @ [NONE]"
        using long by (simp add: make_arg_list_def MAX_PACKED_ARGS_def)
      then show ?thesis using use long False S [of "i + 1 - 16" 16]
        by (simp add: arg_list_get_def MAX_PACKED_ARGS_def Let_def)
    qed
  qed
qed

text \<open>The named arguments: the first argument of a name wins.\<close>

fun named_args :: "'d arg list \<Rightarrow> (string \<rightharpoonup> 'd arg)" where
  "named_args [] = Map.empty"
| "named_args (a # as) = (case a of NAMED_ARG name inner \<Rightarrow> (named_args as)(name \<mapsto> inner) | _ \<Rightarrow> named_args as)"

lemma fold_insert_named: "fold insert_named as m = named_args as ++ m"
  by (induction as arbitrary: m)
     (auto simp: insert_named_def map_insert_def map_add_def fun_eq_iff split: arg.splits option.splits)

lemma drop_Cons_nth: "i < length xs \<Longrightarrow> drop i xs = xs ! i # drop (Suc i) xs"
  by (simp add: Cons_nth_drop_Suc)

lemma arg_type_1: "arg_type a \<noteq> 1 \<Longrightarrow> insert_named a m = m"
  by (cases a) (simp_all add: insert_named_def)

lemma init_values_eq:
  assumes "NONE \<notin> set args" and "length args \<le> 15" and "i + n = 16"
  shows "init_values (make_arg_list args) [i..<16] m = Inr (fold insert_named (drop i args) m)"
  using assms(3)
proof (induction n arbitrary: i m)
  case (Suc n)
  have i: "[i..<16] = i # [Suc i..<16]" "i < 16" using Suc.prems by (simp_all add: upt_conv_Cons)
  show ?case
  proof (cases "i < length args")
    case True
    have ne: "args ! i \<noteq> NONE" using assms(1) True by (metis nth_mem)
    have g: "mem_get i (args_array (make_arg_list args)) = Some (args ! i)"
      using True by (simp add: make_arg_list_def mem_get_def nth_append)
    have t: "packed_type (make_arg_list args) i = arg_type (args ! i)"
      using True i(2) by (simp add: packed_type_make_type arg_at_def)
    show ?thesis
      using Suc.IH [of "Suc i"] Suc.prems ne by (auto simp: i(1) t g drop_Cons_nth [OF True] arg_type_0 arg_type_1)
  next
    case False
    then show ?thesis using i by (simp add: packed_type_make_type arg_at_def)
  qed
qed (use assms(2) in simp)

lemma init_packed_eq:
  assumes "15 < length args" and "i + n = 16"
  shows "init_packed (make_arg_list args) [i..<16] m = Inr (fold insert_named (drop i (take 16 args)) m)"
  using assms(2)
proof (induction n arbitrary: i m)
  case (Suc n)
  have i: "[i..<16] = i # [Suc i..<16]" "i < 16" using Suc.prems by (simp_all add: upt_conv_Cons)
  have g: "mem_get i (args_array (make_arg_list args)) = Some (args ! i)"
    using i(2) assms(1) by (simp add: make_arg_list_def mem_get_def nth_append)
  have t: "packed_type (make_arg_list args) i = arg_type (args ! i)"
    using i(2) assms(1) by (simp add: packed_type_make_type arg_at_def)
  have d: "drop i (take 16 args) = args ! i # drop (Suc i) (take 16 args)"
    using drop_Cons_nth [of i "take 16 args"] i(2) assms(1) by simp
  show ?case
    using Suc.IH [of "Suc i"] Suc.prems by (simp add: i(1) t g d arg_type_1)
qed simp

lemma init_rest_eq: "NONE \<notin> set as \<Longrightarrow> init_rest (as @ [NONE]) m = Inr (fold insert_named as m)"
  by (induction as arbitrary: m) auto

lemma ArgMap_init_eq:
  assumes "NONE \<notin> set args"
  shows "ArgMap_init (make_arg_list args) = Inr (named_args args)"
proof -
  have use: "packed_type (make_arg_list args) 15 = 0 \<longleftrightarrow> length args \<le> 15"
    using assms by (auto simp: packed_type_make_type arg_type_0 arg_at_def dest: nth_mem)
  show ?thesis
  proof (cases "length args \<le> 15")
    case True
    then show ?thesis using use init_values_eq [OF assms True, of 0 16 Map.empty]
      by (simp add: ArgMap_init_def MAX_PACKED_ARGS_def fold_insert_named)
  next
    case False
    then have "drop 16 (args_array (make_arg_list args)) = drop 16 args @ [NONE]"
      by (simp add: make_arg_list_def MAX_PACKED_ARGS_def)
    moreover have "NONE \<notin> set (drop 16 args)" using assms by (meson in_set_dropD)
    moreover have "fold insert_named (drop 16 args) (fold insert_named (take 16 args) Map.empty) =
        fold insert_named (take 16 args @ drop 16 args) Map.empty"
      by (simp only: fold_append o_apply)
    then have "fold insert_named (drop 16 args) (fold insert_named (take 16 args) Map.empty) = named_args args"
      by (simp add: fold_insert_named)
    ultimately show ?thesis using use False init_packed_eq [of args 0 16 Map.empty]
      by (simp add: ArgMap_init_def MAX_PACKED_ARGS_def init_rest_eq)
  qed
qed

section \<open>Properties\<close>

text \<open>
  Whatever the number of arguments, packed types or not, looking an argument up by index
  gives the argument at that position, or the end marker behind the last one; and the map of named
  arguments has for each name the first argument of that name. No read is outside of the array
  or under a wrong type.
\<close>

theorem arg_list_faithful:
  assumes "NONE \<notin> set args"
  shows "arg_list_get (make_arg_list args) i = Inr (arg_at args i) \<and>
    ArgMap_init (make_arg_list args) = Inr (named_args args)"
  using arg_list_get_eq [OF assms] ArgMap_init_eq [OF assms] by simp

theorem arg_list_faithful_witness:
  "arg_list_get (make_arg_list (replicate 17 (INT' 5) @ [NAMED_ARG ''x'' (STRING ''y'')] :: unit arg list)) 17 =
     Inr (arg_at (replicate 17 (INT' 5) @ [NAMED_ARG ''x'' (STRING ''y'')]) 17) \<and>
   ArgMap_init (make_arg_list (replicate 17 (INT' 5) @ [NAMED_ARG ''x'' (STRING ''y'')] :: unit arg list)) =
     Inr (named_args (replicate 17 (INT' 5) @ [NAMED_ARG ''x'' (STRING ''y'')]))"
  by (rule arg_list_faithful) simp

end
