(* ===== verification/Format.thy ===== *)
theory Format
  imports FormatArgs
begin

text \<open>
  Class \<open>BasicFormatter<char>\<close> of the Format library (Shared/format.cc): parsing of a format string with its
  replacement fields, the formatting of one argument, and \<open>fmt::format\<close>, which the server's replies
  and every log line are made with. A pointer into the null-terminated format string is the
  string that is left there; \<open>peek\<close> reads the character at it, 0 at the end.

  Floating-point arguments are formatted with the C library's printf; that text is the parameter
  \<open>write_double\<close> of the definitions.
\<close>

section \<open>Reading the format string\<close>

definition peek :: "string \<Rightarrow> char" where
  "peek s = (case s of [] \<Rightarrow> CHR 0x00 | c # _ \<Rightarrow> c)"

definition is_digit :: "char \<Rightarrow> bool" where
  "is_digit c \<longleftrightarrow> 48 \<le> (of_char c :: nat) \<and> (of_char c :: nat) \<le> 57"

definition is_name_start :: "char \<Rightarrow> bool" where
  "is_name_start c \<longleftrightarrow> (97 \<le> (of_char c :: nat) \<and> (of_char c :: nat) \<le> 122) \<or>
     (65 \<le> (of_char c :: nat) \<and> (of_char c :: nat) \<le> 90) \<or> c = CHR ''_''"

text \<open>
  \<open>parse_nonnegative_int\<close>: the loop works on \<open>unsigned\<close> and tests whether the new value is smaller than
  the old one, to find out that it wrapped around.
\<close>

fun parse_digits :: "uint32 \<Rightarrow> string \<Rightarrow> uint32 \<times> string" where
  "parse_digits value [] = (value, [])"
| "parse_digits value (c # s) = (
     let new_value = value * 10 + (of_char c - 48) in
     if new_value < value then (- 1, s)
     else if is_digit (peek s) then parse_digits new_value s
     else (new_value, s))"

definition parse_nonnegative_int :: "string \<Rightarrow> (nat \<times> string) fmt" where
  "parse_nonnegative_int s = (case parse_digits 0 s of (value, s) \<Rightarrow>
     if int (unat value) > INT_MAX then Inl (FormatError ''number is too big'')
     else Inr (unat value, s))"

section \<open>Selecting the argument of a field\<close>

definition parse_arg_index :: "string \<Rightarrow> 'd formatter \<Rightarrow> ('d arg \<times> string \<times> 'd formatter) fmt" where
  "parse_arg_index s f =
     bindE (if \<not> is_digit (peek s) then bindE (next_arg f) (\<lambda>(r, f). Inr (r, s, f))
            else bindE (parse_nonnegative_int s) (\<lambda>(i, s). bindE (get_arg_index f i) (\<lambda>(r, f). Inr (r, s, f))))
       (\<lambda>(r, s, f). case r of
          Inl err \<Rightarrow> Inl (FormatError
            (if peek s \<noteq> CHR ''}'' \<and> peek s \<noteq> CHR '':'' then ''invalid format string'' else err))
        | Inr arg \<Rightarrow> Inr (arg, s, f))"

text \<open>The scan of a name starts behind its first character.\<close>

definition is_name_char :: "char \<Rightarrow> bool" where
  "is_name_char c \<longleftrightarrow> is_name_start c \<or> is_digit c"

definition parse_arg_name :: "string \<Rightarrow> 'd formatter \<Rightarrow> ('d arg \<times> string \<times> 'd formatter) fmt" where
  "parse_arg_name s f = (
     let name = hd s # takeWhile is_name_char (tl s); s = dropWhile is_name_char (tl s) in
     bindE (get_arg_name f name) (\<lambda>(r, f). case r of
       Inl err \<Rightarrow> Inl (FormatError err)
     | Inr arg \<Rightarrow> Inr (arg, s, f)))"

definition parse_arg :: "string \<Rightarrow> 'd formatter \<Rightarrow> ('d arg \<times> string \<times> 'd formatter) fmt" where
  "parse_arg s f = (if is_name_start (peek s) then parse_arg_name s f else parse_arg_index s f)"

section \<open>Format specifications\<close>

definition require_numeric_argument :: "'d arg \<Rightarrow> char \<Rightarrow> unit fmt" where
  "require_numeric_argument arg spec =
     (if arg_type arg > LAST_NUMERIC_TYPE
      then Inl (FormatError (''format specifier '' @ [CHR 0x27, spec, CHR 0x27] @ '' requires numeric argument''))
      else Inr ())"

definition check_sign :: "string \<Rightarrow> 'd arg \<Rightarrow> string fmt" where
  "check_sign s arg = (let sign = peek s in
     bindE (require_numeric_argument arg sign) (\<lambda>_.
     case arg of
       UINT _ \<Rightarrow> Inl (FormatError (''format specifier '' @ [CHR 0x27, sign, CHR 0x27] @ '' requires signed argument''))
     | ULONG_LONG _ \<Rightarrow> Inl (FormatError (''format specifier '' @ [CHR 0x27, sign, CHR 0x27] @ '' requires signed argument''))
     | _ \<Rightarrow> Inr (tl s)))"

definition align_of :: "char \<Rightarrow> alignment" where
  "align_of c =
     (if c = CHR ''<'' then ALIGN_LEFT else if c = CHR ''>'' then ALIGN_RIGHT
      else if c = CHR ''='' then ALIGN_NUMERIC else if c = CHR ''^'' then ALIGN_CENTER
      else ALIGN_DEFAULT)"

text \<open>
  Fill and alignment. The code looks at the second character first and then at the first one; with
  a fill character that is a closing brace it keeps the alignment but consumes nothing.
\<close>

definition parse_fill_align :: "'d arg \<Rightarrow> format_spec \<Rightarrow> string \<Rightarrow> (format_spec \<times> string) fmt" where
  "parse_fill_align arg spec s = (let c = peek s in
     if c = CHR 0x00 then Inr (spec, s)
     else
       let second = align_of (peek (tl s)); first = align_of c in
       if second \<noteq> ALIGN_DEFAULT then
         (let spec = spec\<lparr>spec_align := second\<rparr> in
          if c = CHR ''}'' then Inr (spec, s)
          else if c = CHR ''{'' then Inl (FormatError (''invalid fill character '' @ [CHR 0x27, CHR ''{'', CHR 0x27]))
          else bindE (if second = ALIGN_NUMERIC then require_numeric_argument arg (CHR ''='') else Inr ())
            (\<lambda>_. Inr (spec\<lparr>spec_fill := c\<rparr>, tl (tl s))))
       else if first \<noteq> ALIGN_DEFAULT then
         bindE (if first = ALIGN_NUMERIC then require_numeric_argument arg (CHR ''='') else Inr ())
           (\<lambda>_. Inr (spec\<lparr>spec_align := first\<rparr>, tl s))
       else Inr (spec\<lparr>spec_align := ALIGN_DEFAULT\<rparr>, s))"

definition parse_sign :: "'d arg \<Rightarrow> format_spec \<Rightarrow> string \<Rightarrow> (format_spec \<times> string) fmt" where
  "parse_sign arg spec s = (let c = peek s in
     if c = CHR ''+'' then
       bindE (check_sign s arg) (\<lambda>s. Inr (spec\<lparr>spec_flags := spec_flags spec OR SIGN_FLAG OR PLUS_FLAG\<rparr>, s))
     else if c = CHR ''-'' then
       bindE (check_sign s arg) (\<lambda>s. Inr (spec\<lparr>spec_flags := spec_flags spec OR MINUS_FLAG\<rparr>, s))
     else if c = CHR '' '' then
       bindE (check_sign s arg) (\<lambda>s. Inr (spec\<lparr>spec_flags := spec_flags spec OR SIGN_FLAG\<rparr>, s))
     else Inr (spec, s))"

definition parse_hash_zero :: "'d arg \<Rightarrow> format_spec \<Rightarrow> string \<Rightarrow> (format_spec \<times> string) fmt" where
  "parse_hash_zero arg spec s =
     bindE (if peek s = CHR ''#'' then
              bindE (require_numeric_argument arg (CHR ''#''))
                (\<lambda>_. Inr (spec\<lparr>spec_flags := spec_flags spec OR HASH_FLAG\<rparr>, tl s))
            else Inr (spec, s)) (\<lambda>(spec, s).
     if peek s = CHR ''0'' then
       bindE (require_numeric_argument arg (CHR ''0''))
         (\<lambda>_. Inr (spec\<lparr>spec_align := ALIGN_NUMERIC, spec_fill := CHR ''0''\<rparr>, tl s))
     else Inr (spec, s))"

text \<open>An argument as a width or precision; \<open>what\<close> is the word in the messages.\<close>

definition count_of_arg :: "string \<Rightarrow> 'd arg \<Rightarrow> nat fmt" where
  "count_of_arg what arg =
     bindE (case arg of
         INT' v \<Rightarrow> if v < 0 then Inl (FormatError (''negative '' @ what)) else Inr (nat v)
       | UINT v \<Rightarrow> Inr (unat v)
       | LONG_LONG v \<Rightarrow> if v < 0 then Inl (FormatError (''negative '' @ what)) else Inr (nat v)
       | ULONG_LONG v \<Rightarrow> Inr (unat v)
       | _ \<Rightarrow> Inl (FormatError (what @ '' is not integer'')))
       (\<lambda>value. if int value > INT_MAX then Inl (FormatError ''number is too big'') else Inr value)"

text \<open>A count from an argument in braces; \<open>s\<close> is behind the opening one.\<close>

definition parse_count_arg :: "string \<Rightarrow> string \<Rightarrow> 'd formatter \<Rightarrow> (nat \<times> string \<times> 'd formatter) fmt" where
  "parse_count_arg what s f =
     bindE (parse_arg s f) (\<lambda>(arg, s, f).
     if peek s \<noteq> CHR ''}'' then Inl (FormatError ''invalid format string'')
     else bindE (count_of_arg what arg) (\<lambda>value. Inr (value, tl s, f)))"

definition parse_width :: "format_spec \<Rightarrow> string \<Rightarrow> 'd formatter \<Rightarrow> (format_spec \<times> string \<times> 'd formatter) fmt" where
  "parse_width spec s f =
     (if is_digit (peek s) then
        bindE (parse_nonnegative_int s) (\<lambda>(w, s). Inr (spec\<lparr>spec_width := w\<rparr>, s, f))
      else if peek s = CHR ''{'' then
        bindE (parse_count_arg ''width'' (tl s) f) (\<lambda>(w, s, f). Inr (spec\<lparr>spec_width := w\<rparr>, s, f))
      else Inr (spec, s, f))"

definition parse_precision ::
  "'d arg \<Rightarrow> format_spec \<Rightarrow> string \<Rightarrow> 'd formatter \<Rightarrow> (format_spec \<times> string \<times> 'd formatter) fmt" where
  "parse_precision arg spec s f =
     (if peek s = CHR ''.'' then
        let s = tl s in
        bindE (if is_digit (peek s) then
                 bindE (parse_nonnegative_int s) (\<lambda>(p, s). Inr (spec\<lparr>spec_precision := int p\<rparr>, s, f))
               else if peek s = CHR ''{'' then
                 bindE (parse_count_arg ''precision'' (tl s) f) (\<lambda>(p, s, f). Inr (spec\<lparr>spec_precision := int p\<rparr>, s, f))
               else Inl (FormatError ''missing precision specifier'')) (\<lambda>(spec, s, f).
        if arg_type arg \<le> LAST_INTEGER_TYPE \<or> arg_type arg = POINTER_TYPE then
          Inl (FormatError (''precision not allowed in '' @
            (if arg_type arg = POINTER_TYPE then ''pointer'' else ''integer'') @ '' format specifier''))
        else Inr (spec, s, f))
      else Inr (spec, s, f))"

text \<open>Everything behind the colon.\<close>

definition parse_spec :: "'d arg \<Rightarrow> string \<Rightarrow> 'd formatter \<Rightarrow> (format_spec \<times> string \<times> 'd formatter) fmt" where
  "parse_spec arg s f =
     bindE (parse_fill_align arg FormatSpec s) (\<lambda>(spec, s).
     bindE (parse_sign arg spec s) (\<lambda>(spec, s).
     bindE (parse_hash_zero arg spec s) (\<lambda>(spec, s).
     bindE (parse_width spec s f) (\<lambda>(spec, s, f).
     bindE (parse_precision arg spec s f) (\<lambda>(spec, s, f).
     if peek s \<noteq> CHR ''}'' \<and> peek s \<noteq> CHR 0x00
     then Inr (spec\<lparr>spec_type := peek s\<rparr>, tl s, f)
     else Inr (spec, s, f))))))"

section \<open>Formatting one argument\<close>

definition write_pointer :: "uint64 \<Rightarrow> format_spec \<Rightarrow> string \<Rightarrow> string fmt" where
  "write_pointer p spec buf =
     write_int64 (uint p) (spec\<lparr>spec_flags := HASH_FLAG, spec_type := CHR ''x''\<rparr>) buf"

definition visit_bool :: "bool \<Rightarrow> format_spec \<Rightarrow> string \<Rightarrow> string fmt" where
  "visit_bool value spec buf =
     (if spec_type spec \<noteq> CHR 0x00 then write_int32 (of_bool value) spec buf
      else write_str (Some (if value then ''true'' else ''false'')) spec buf)"

definition visit_char :: "int \<Rightarrow> format_spec \<Rightarrow> string \<Rightarrow> string fmt" where
  "visit_char value spec buf =
     (if spec_type spec \<noteq> CHR 0x00 \<and> spec_type spec \<noteq> CHR ''c'' then
        write_int32 value (spec\<lparr>spec_flags := spec_flags spec OR CHAR_FLAG\<rparr>) buf
      else if spec_align spec = ALIGN_NUMERIC \<or> spec_flags spec \<noteq> 0 then
        Inl (FormatError ''invalid format specifier for char'')
      else let fill = spec_fill spec; width = spec_width spec in
        bindE (if width > 1 then
                 (case grow_buffer width buf of (buf, out) \<Rightarrow>
                    if spec_align spec = ALIGN_RIGHT then
                      bindE (fill_n out (width - 1) fill buf) (\<lambda>buf. Inr (buf, out + (width - 1)))
                    else if spec_align spec = ALIGN_CENTER then fill_padding out width 1 fill buf
                    else bindE (fill_n (out + 1) (width - 1) fill buf) (\<lambda>buf. Inr (buf, out)))
               else Inr (grow_buffer 1 buf)) (\<lambda>(buf, out).
        store out (char_of value) buf))"

definition visit_cstring :: "uint64 \<Rightarrow> string \<Rightarrow> format_spec \<Rightarrow> string \<Rightarrow> string fmt" where
  "visit_cstring p value spec buf =
     (if spec_type spec = CHR ''p'' then write_pointer p spec buf
      else write_str (if p = 0 then None else Some value) spec buf)"

definition visit_pointer :: "uint64 \<Rightarrow> format_spec \<Rightarrow> string \<Rightarrow> string fmt" where
  "visit_pointer value spec buf =
     (if spec_type spec \<noteq> CHR 0x00 \<and> spec_type spec \<noteq> CHR ''p''
      then Inl (report_unknown_type (spec_type spec) ''pointer'')
      else write_pointer value spec buf)"

text \<open>
  \<open>ArgVisitor::visit\<close> with the methods of \<open>BasicArgFormatter\<close>; the tags without a method of their own
  (the end marker, a named argument) trip the assertion. A custom value has been replaced by its
  text before.
\<close>

definition visit_arg :: "('d \<Rightarrow> format_spec \<Rightarrow> string fmt) \<Rightarrow> 'd arg \<Rightarrow> format_spec \<Rightarrow> string \<Rightarrow> string fmt" where
  "visit_arg write_double arg spec buf = (case arg of
     INT' v \<Rightarrow> write_int32 v spec buf
   | UINT v \<Rightarrow> write_int32 (uint v) spec buf
   | LONG_LONG v \<Rightarrow> write_int64 v spec buf
   | ULONG_LONG v \<Rightarrow> write_int64 (uint v) spec buf
   | BOOL v \<Rightarrow> visit_bool v spec buf
   | CHAR' v \<Rightarrow> visit_char v spec buf
   | DOUBLE v \<Rightarrow> map_sum id ((@) buf) (write_double v spec)
   | LONG_DOUBLE v \<Rightarrow> map_sum id ((@) buf) (write_double v spec)
   | CSTRING p v \<Rightarrow> visit_cstring p v spec buf
   | STRING v \<Rightarrow> write_str (Some v) spec buf
   | POINTER v \<Rightarrow> visit_pointer v spec buf
   | CUSTOM v \<Rightarrow> write_str (Some v) spec buf
   | NONE \<Rightarrow> Inl Fault
   | NAMED_ARG _ _ \<Rightarrow> Inl Fault)"

text \<open>
  \<open>BasicFormatter::format(format_str, arg)\<close>: the pointer is at the colon or the closing brace. A custom
  value is written to a string with its stream operator, and that string is formatted
  in its place, with the specification when there is one.
\<close>

definition as_text :: "'d arg \<Rightarrow> 'd arg" where
  "as_text arg = (case arg of CUSTOM v \<Rightarrow> STRING v | _ \<Rightarrow> arg)"

definition format_arg ::
  "('d \<Rightarrow> format_spec \<Rightarrow> string fmt) \<Rightarrow> string \<Rightarrow> 'd arg \<Rightarrow> 'd formatter \<Rightarrow> string \<Rightarrow> (string \<times> 'd formatter \<times> string) fmt"
where
  "format_arg write_double s arg f buf =
     bindE (if peek s = CHR '':'' then parse_spec (as_text arg) (tl s) f else Inr (FormatSpec, s, f)) (\<lambda>(spec, s, f).
     if peek s \<noteq> CHR ''}'' then Inl (FormatError (''missing '' @ [CHR 0x27, CHR ''}'', CHR 0x27] @ '' in format string''))
     else bindE (visit_arg write_double (as_text arg) spec buf) (\<lambda>buf. Inr (tl s, f, buf)))"

section \<open>Parsing consumes the format string\<close>

named_theorems fmt_consumes "how far the parsers advance"

lemma length_tl_le [simp]: "length (tl s) \<le> length s"
  by simp

lemma bindE_Inr_iff: "bindE r f = Inr y \<longleftrightarrow> (\<exists>x. r = Inr x \<and> f x = Inr y)"
  by (cases r) simp_all

lemma case_sum_Inr_iff:
  "(case r of Inl e \<Rightarrow> Inl (g e) | Inr a \<Rightarrow> h a) = Inr y \<longleftrightarrow> (\<exists>a. r = Inr a \<and> h a = Inr y)"
  by (cases r) simp_all

lemma parse_digits_length: "parse_digits v s = (v', s') \<Longrightarrow> length s' \<le> length s"
  by (induction v s rule: parse_digits.induct) (auto simp: Let_def split: if_splits)

lemma parse_nonnegative_int_length [fmt_consumes]: "parse_nonnegative_int s = Inr (n, s') \<Longrightarrow> length s' \<le> length s"
  by (auto simp: parse_nonnegative_int_def split: prod.splits if_splits dest: parse_digits_length)

lemma parse_arg_length [fmt_consumes]: "parse_arg s f = Inr (a, s', f') \<Longrightarrow> length s' \<le> length s"
  by (auto simp: parse_arg_def parse_arg_name_def parse_arg_index_def bindE_Inr_iff Let_def case_sum_Inr_iff
      split: if_splits dest!: parse_nonnegative_int_length
      intro: order_trans [OF length_dropWhile_le])

lemma parse_fill_align_length [fmt_consumes]: "parse_fill_align a spec s = Inr (spec', s') \<Longrightarrow> length s' \<le> length s"
  by (auto simp: parse_fill_align_def bindE_Inr_iff Let_def split: if_splits)

lemma parse_sign_length [fmt_consumes]: "parse_sign a spec s = Inr (spec', s') \<Longrightarrow> length s' \<le> length s"
  by (auto simp: parse_sign_def check_sign_def bindE_Inr_iff Let_def split: if_splits arg.splits)

lemma parse_hash_zero_length [fmt_consumes]: "parse_hash_zero a spec s = Inr (spec', s') \<Longrightarrow> length s' \<le> length s"
  by (auto simp: parse_hash_zero_def bindE_Inr_iff Let_def split: if_splits)

lemma parse_count_arg_length [fmt_consumes]: "parse_count_arg w s f = Inr (n, s', f') \<Longrightarrow> length s' \<le> length s"
  by (auto simp: parse_count_arg_def bindE_Inr_iff split: if_splits dest!: parse_arg_length)

lemma parse_width_length [fmt_consumes]: "parse_width spec s f = Inr (spec', s', f') \<Longrightarrow> length s' \<le> length s"
  by (fastforce simp: parse_width_def bindE_Inr_iff split: if_splits dest!: fmt_consumes)

lemma parse_precision_length [fmt_consumes]: "parse_precision a spec s f = Inr (spec', s', f') \<Longrightarrow> length s' \<le> length s"
  by (fastforce simp: parse_precision_def bindE_Inr_iff Let_def split: if_splits dest!: fmt_consumes)

lemma parse_spec_length [fmt_consumes]: "parse_spec a s f = Inr (spec', s', f') \<Longrightarrow> length s' \<le> length s"
  by (fastforce simp: parse_spec_def bindE_Inr_iff split: if_splits dest!: fmt_consumes)

lemma format_arg_length: "format_arg wd s a f buf = Inr (s', f', buf') \<Longrightarrow> length s' < length s"
proof -
  assume "format_arg wd s a f buf = Inr (s', f', buf')"
  then obtain spec s1 f1 where 1: "(if peek s = CHR '':'' then parse_spec (as_text a) (tl s) f else Inr (FormatSpec, s, f)) = Inr (spec, s1, f1)"
    and 2: "peek s1 = CHR ''}''" "s' = tl s1"
    by (auto simp: format_arg_def bindE_Inr_iff split: if_splits)
  have "length s1 \<le> length s"
    using 1 by (auto split: if_splits dest!: parse_spec_length)
  moreover have "s1 \<noteq> []" using 2(1) by (auto simp: peek_def)
  ultimately show ?thesis using 2(2) by (cases s1) auto
qed

section \<open>Formatting a string\<close>

text \<open>
  The loop of \<open>BasicFormatter::format(format_str)\<close>. \<open>pend\<close> are the characters from \<open>start\<close> to \<open>s\<close> that
  are still to be copied.
\<close>

function format_loop ::
  "('d \<Rightarrow> format_spec \<Rightarrow> string fmt) \<Rightarrow> string \<Rightarrow> string \<Rightarrow> 'd formatter \<Rightarrow> string \<Rightarrow> string fmt" where
  "format_loop wd s pend f buf =
     (if peek s = CHR 0x00 then Inr (buf @ pend)
      else let c = peek s; s = tl s in
        if c \<noteq> CHR ''{'' \<and> c \<noteq> CHR ''}'' then format_loop wd s (pend @ [c]) f buf
        else if peek s = c then format_loop wd (tl s) [] f (buf @ pend @ [c])
        else if c = CHR ''}'' then
          Inl (FormatError (''unmatched '' @ [CHR 0x27, CHR ''}'', CHR 0x27] @ '' in format string''))
        else
          bindE (parse_arg s f) (\<lambda>(arg, s, f).
          bindE (format_arg wd s arg f (buf @ pend)) (\<lambda>(s, f, buf).
          format_loop wd s [] f buf)))"
  by pat_completeness auto
termination
proof (relation "measure (\<lambda>(wd, s, pend, f, buf). length s)", goal_cases)
  case (2 wd s pend f buf c s')
  then show ?case by (cases s) (auto simp: peek_def)
next
  case (3 wd s pend f buf c s')
  then show ?case by (cases s) (auto simp: peek_def)
next
  case (4 wd s pend f buf c s' x arg y s1 f1 z s2 y2 f2 buf2)
  then have "length s1 \<le> length s'" "length s2 < length s1"
    by (auto dest: parse_arg_length format_arg_length)
  with 4 show ?case by (cases s) (auto simp: peek_def)
qed simp

declare format_loop.simps [simp del]

definition fmt_format :: "('d \<Rightarrow> format_spec \<Rightarrow> string fmt) \<Rightarrow> string \<Rightarrow> 'd arg list \<Rightarrow> string fmt" where
  "fmt_format wd format_str args =
     format_loop wd format_str [] \<lparr>fmt_args = make_arg_list args, next_arg_index = 0\<rparr> []"

text \<open>
  \<open>LOG\<close> (Shared/log.h): the line that is written to standard output, without its end. The local time is an
  argument; the source and the message are the template arguments.
\<close>

record tm =
  tm_year :: int
  tm_mon :: int
  tm_mday :: int
  tm_hour :: int
  tm_min :: int
  tm_sec :: int

definition LOG ::
  "('d \<Rightarrow> format_spec \<Rightarrow> string fmt) \<Rightarrow> tm \<Rightarrow> string \<Rightarrow> string \<Rightarrow> string \<Rightarrow> 'd arg list \<Rightarrow> string fmt" where
  "LOG wd local_tm logHeader funcName format_str args =
     bindE (fmt_format wd ''{:04d}-{:02d}-{:02d} {:02d}:{:02d}:{:02d} ''
       [INT' (tm_year local_tm + 1900), INT' (tm_mon local_tm + 1), INT' (tm_mday local_tm),
        INT' (tm_hour local_tm), INT' (tm_min local_tm), INT' (tm_sec local_tm)]) (\<lambda>time.
     bindE (fmt_format wd format_str args) (\<lambda>text.
     Inr (time @ logHeader @ ''['' @ funcName @ ''] '' @ text)))"

section \<open>Literal text and plain fields\<close>

text \<open>What is still to be copied could as well have been copied already.\<close>

lemma format_loop_pend: "format_loop wd s pend f buf = format_loop wd s [] f (buf @ pend)"
proof (induction "length s" arbitrary: s pend buf rule: less_induct)
  case less
  show ?case
  proof (cases "peek s = CHR 0x00")
    case True
    then show ?thesis by (simp add: format_loop.simps [of wd s])
  next
    case False
    then obtain c s' where "s = c # s'" by (cases s) (auto simp: peek_def)
    then show ?thesis
      using less [of s' "pend @ [c]" buf] less [of s' "[c]" "buf @ pend"]
      by (simp add: format_loop.simps [of wd "c # s'"] peek_def Let_def)
  qed
qed

definition escape_char :: "char \<Rightarrow> string" where
  "escape_char c = (if c = CHR ''{'' \<or> c = CHR ''}'' then [c, c] else [c])"

definition escape :: "string \<Rightarrow> string" where
  "escape s = concat (map escape_char s)"

lemma format_loop_literal:
  "CHR 0x00 \<notin> set t \<Longrightarrow> format_loop wd (escape t @ s) [] f buf = format_loop wd s [] f (buf @ t)"
proof (induction t arbitrary: buf)
  case (Cons c t)
  have "format_loop wd (escape_char c @ r) [] f buf = format_loop wd r [] f (buf @ [c])" for r
    using Cons.prems format_loop_pend [of wd r "[c]" f buf]
    by (auto simp: escape_char_def format_loop.simps [of wd "_ # _"] peek_def Let_def)
  then show ?case using Cons by (simp add: escape_def)
qed (simp add: escape_def)

text \<open>The arguments whose text under an empty field is fixed: integers, truth values and strings.\<close>

fun default_text :: "'d arg \<Rightarrow> string option" where
  "default_text (INT' i) = (if - (2 ^ 31) \<le> i \<and> i < 2 ^ 31 then Some (signed_decimal i) else None)"
| "default_text (UINT w) = Some (decimal (unat w))"
| "default_text (LONG_LONG i) = (if - (2 ^ 63) \<le> i \<and> i < 2 ^ 63 then Some (signed_decimal i) else None)"
| "default_text (ULONG_LONG w) = Some (decimal (unat w))"
| "default_text (BOOL b) = Some (if b then ''true'' else ''false'')"
| "default_text (STRING s) = Some s"
| "default_text (CUSTOM s) = Some s"
| "default_text _ = None"

lemma write_str_default [simp]: "write_str (Some v) FormatSpec buf = Inr (buf @ v)"
  by (simp add: write_str_def FormatSpec_def write_str_chars_eq pad_text_def)

lemma int_text_default: "int_text FormatSpec neg n = Inr ((if neg then ''-'' else []) @ decimal n)"
  by (simp add: int_text_def int_notation_def sign_prefix_def FormatSpec_def flag_def SIGN_FLAG_def
      int_layout_def align_layout_def)

lemma visit_default:
  assumes "default_text a = Some t"
  shows "visit_arg wd (as_text a) FormatSpec buf = Inr (buf @ t)"
proof -
  have [simp]: "signed_decimal i = (if i < 0 then ''-'' else []) @ decimal (nat \<bar>i\<bar>)" for i
    by (simp add: signed_decimal_def)
  have u32: "- (2 ^ 32) < uint (w :: uint32)" "uint w < 2 ^ 32" for w
    using uint_lt2p [of w] by (auto intro: less_le_trans [OF _ uint_ge_0])
  have u64: "- (2 ^ 64) < uint (w :: uint64)" "uint w < 2 ^ 64" for w
    using uint_lt2p [of w] by (auto intro: less_le_trans [OF _ uint_ge_0])
  show ?thesis
  proof (cases a)
    case (INT' i)
    then show ?thesis using assms write_int32_eq [of i FormatSpec buf]
      by (simp add: visit_arg_def as_text_def int_text_default split: if_splits)
  next
    case (UINT w)
    then show ?thesis using assms write_int32_eq [OF u32, of w FormatSpec buf]
      by (simp add: visit_arg_def as_text_def int_text_default)
  next
    case (LONG_LONG i)
    then show ?thesis using assms write_int64_eq [of i FormatSpec buf]
      by (simp add: visit_arg_def as_text_def int_text_default split: if_splits)
  next
    case (ULONG_LONG w)
    then show ?thesis using assms write_int64_eq [OF u64, of w FormatSpec buf]
      by (simp add: visit_arg_def as_text_def int_text_default)
  next
    case (BOOL b)
    then show ?thesis using assms
      by (simp add: visit_arg_def as_text_def visit_bool_def) (simp add: FormatSpec_def)
  qed (use assms in \<open>simp_all add: visit_arg_def as_text_def\<close>)
qed

definition auto_formatter :: "'d arg list \<Rightarrow> nat \<Rightarrow> 'd formatter" where
  "auto_formatter args i = \<lparr>fmt_args = make_arg_list args, next_arg_index = int i\<rparr>"

lemma next_arg_auto:
  assumes "NONE \<notin> set args" and "i < length args" and "\<And>n a. args ! i \<noteq> NAMED_ARG n a"
  shows "next_arg (auto_formatter args i) = Inr (Inr (args ! i), auto_formatter args (i + 1))"
proof -
  have "args ! i \<noteq> NONE" using assms by (metis nth_mem)
  then show ?thesis using assms(2,3)
    by (simp add: next_arg_def do_get_arg_def auto_formatter_def arg_list_get_eq [OF assms(1)] arg_at_def
        split: arg.split)
qed

lemma format_loop_field:
  assumes "NONE \<notin> set args" and "i < length args" and "default_text (args ! i) = Some t"
  shows "format_loop wd (''{}'' @ s) [] (auto_formatter args i) buf =
    format_loop wd s [] (auto_formatter args (i + 1)) (buf @ t)"
proof -
  have "args ! i \<noteq> NAMED_ARG n a" for n a using assms(3) by auto
  note N = next_arg_auto [OF assms(1,2) this]
  have "parse_arg (CHR ''}'' # s) (auto_formatter args i) = Inr (args ! i, CHR ''}'' # s, auto_formatter args (i + 1))"
    by (simp add: parse_arg_def is_name_start_def peek_def parse_arg_index_def is_digit_def N)
  moreover have "format_arg wd (CHR ''}'' # s) (args ! i) f buf = Inr (s, f, buf @ t)" for f
    by (simp add: format_arg_def peek_def visit_default [OF assms(3)])
  ultimately show ?thesis
    by (simp add: format_loop.simps [of wd "CHR ''{'' # _"] peek_def Let_def)
qed

subsection \<open>Templates\<close>

text \<open>A format string made of literal text and plain automatic fields, and what it stands for.\<close>

datatype seg = Lit string | Field

fun template :: "seg list \<Rightarrow> string" where
  "template [] = []"
| "template (Lit t # segs) = escape t @ template segs"
| "template (Field # segs) = ''{}'' @ template segs"

fun expand :: "seg list \<Rightarrow> string list \<Rightarrow> string option" where
  "expand [] ts = Some []"
| "expand (Lit t # segs) ts = map_option ((@) t) (expand segs ts)"
| "expand (Field # segs) [] = None"
| "expand (Field # segs) (t # ts) = map_option ((@) t) (expand segs ts)"

lemma format_loop_template:
  assumes "NONE \<notin> set args" and "map default_text args = map Some ts" and "\<forall>t. Lit t \<in> set segs \<longrightarrow> CHR 0x00 \<notin> set t"
    and "expand segs (drop i ts) = Some r"
  shows "format_loop wd (template segs) [] (auto_formatter args i) buf = Inr (buf @ r)"
  using assms(3,4)
proof (induction segs arbitrary: i r buf)
  case Nil
  then show ?case by (simp add: format_loop.simps peek_def)
next
  case (Cons seg segs)
  show ?case
  proof (cases seg)
    case (Lit t)
    then show ?thesis using Cons.prems Cons.IH [of i] by (auto simp: format_loop_literal)
  next
    case Field
    have len: "length args = length ts" using assms(2) by (metis length_map)
    have i: "i < length ts" using Cons.prems(2) Field by (metis drop_all expand.simps(3) not_le option.distinct(1))
    then have d: "drop i ts = ts ! i # drop (i + 1) ts" by (simp add: Cons_nth_drop_Suc)
    have "default_text (args ! i) = Some (ts ! i)" using assms(2) i len by (metis nth_map)
    note F = format_loop_field [OF assms(1) i [folded len] this]
    show ?thesis using Cons.prems Cons.IH [of "i + 1"] Field d by (auto simp: F [simplified])
  qed
qed

subsection \<open>Zero-padded fields\<close>

definition zero_padded :: "nat \<Rightarrow> nat \<Rightarrow> string" where
  "zero_padded w n = replicate (w - length (decimal n)) (CHR ''0'') @ decimal n"

lemma int_text_zero_padded:
  "int_text (FormatSpec\<lparr>spec_align := ALIGN_NUMERIC, spec_fill := CHR ''0'', spec_width := w, spec_type := CHR ''d''\<rparr>) False n =
     Inr (zero_padded w n)"
  by (simp add: int_text_def int_notation_def sign_prefix_def FormatSpec_def flag_def SIGN_FLAG_def
      int_layout_def align_layout_def zero_padded_def)

lemma format_loop_zero_padded:
  fixes args :: "'d arg list"
  assumes "NONE \<notin> set args" and "i < length args" and "args ! i = INT' v" and "0 \<le> v" "v < 2 ^ 31"
    and "(c, w) \<in> {(CHR ''2'', 2), (CHR ''4'', 4)}" and "j = i + 1"
  shows "format_loop wd (''{:0'' @ c # ''d}'' @ s) [] (auto_formatter args i) buf =
    format_loop wd s [] (auto_formatter args j) (buf @ zero_padded w (nat v))"
proof -
  have "args ! i \<noteq> NAMED_ARG n a" for n a using assms(3) by auto
  note N = next_arg_auto [OF assms(1,2) this]
  have A: "parse_arg (CHR '':'' # r) (auto_formatter args i) = Inr (INT' v, CHR '':'' # r, auto_formatter args (i + 1))" for r
    by (simp add: parse_arg_def is_name_start_def peek_def parse_arg_index_def is_digit_def N assms(3))
  let ?spec = "FormatSpec\<lparr>spec_align := ALIGN_NUMERIC, spec_fill := CHR ''0''\<rparr>"
  have c: "align_of c = ALIGN_DEFAULT" "is_digit c" "parse_digits 0 (c # ''d}'' @ s) = (of_nat w, ''d}'' @ s)"
    "unat (of_nat w :: uint32) = w" "w < 5"
    using assms(6) by (auto simp: align_of_def is_digit_def peek_def Let_def)
  have 1: "parse_fill_align (INT' v :: 'd arg) FormatSpec (CHR ''0'' # c # ''d}'' @ s) = Inr (FormatSpec, CHR ''0'' # c # ''d}'' @ s)"
    using c(1) by (simp add: parse_fill_align_def peek_def align_of_def FormatSpec_def)
  have 2: "parse_sign (INT' v :: 'd arg) FormatSpec (CHR ''0'' # c # ''d}'' @ s) = Inr (FormatSpec, CHR ''0'' # c # ''d}'' @ s)"
    by (simp add: parse_sign_def peek_def)
  have 3: "parse_hash_zero (INT' v :: 'd arg) FormatSpec (CHR ''0'' # c # ''d}'' @ s) = Inr (?spec, c # ''d}'' @ s)"
    by (simp add: parse_hash_zero_def peek_def require_numeric_argument_def LAST_NUMERIC_TYPE_def)
  have 4: "parse_width ?spec (c # ''d}'' @ s) f = Inr (?spec\<lparr>spec_width := w\<rparr>, ''d}'' @ s, f)" for f :: "'d formatter"
  proof -
    have "parse_nonnegative_int (c # ''d}'' @ s) = Inr (w, ''d}'' @ s)"
      unfolding parse_nonnegative_int_def c(3) prod.case c(4) using c(5) by (simp add: INT_MAX_def)
    then show ?thesis using c(2) by (simp add: parse_width_def peek_def)
  qed
  have 5: "parse_precision (INT' v) spec (''d}'' @ s) f = Inr (spec, ''d}'' @ s, f)" for spec and f :: "'d formatter"
    by (simp add: parse_precision_def peek_def)
  have S: "parse_spec (INT' v) (CHR ''0'' # c # ''d}'' @ s) f =
      Inr (FormatSpec\<lparr>spec_align := ALIGN_NUMERIC, spec_fill := CHR ''0'', spec_width := w, spec_type := CHR ''d''\<rparr>,
        CHR ''}'' # s, f)" for f :: "'d formatter"
    unfolding parse_spec_def 1 2 3 4 5 bindE_simps prod.case by (simp add: peek_def)
  have W: "visit_arg wd (INT' v) spec buf = map_sum id ((@) buf) (int_text spec False (nat v))" for spec
    using write_int32_eq [of v spec buf] assms(4,5) by (simp add: visit_arg_def)
  have "format_arg wd (CHR '':'' # CHR ''0'' # c # ''d}'' @ s) (INT' v) f buf =
      Inr (s, f, buf @ zero_padded w (nat v))" for f
    using S by (simp add: format_arg_def peek_def as_text_def W int_text_zero_padded)
  then show ?thesis
    using A assms(7) by (simp add: format_loop.simps [of wd "CHR ''{'' # _"] peek_def Let_def)
qed

section \<open>No fault on any format string\<close>

text \<open>
  The arguments the code can build: values in the range of their types, and named arguments that hold
  a value.
\<close>

fun value_ok :: "'d arg \<Rightarrow> bool" where
  "value_ok NONE = False"
| "value_ok (NAMED_ARG _ _) = False"
| "value_ok (INT' i) = (- (2 ^ 31) \<le> i \<and> i < 2 ^ 31)"
| "value_ok (LONG_LONG i) = (- (2 ^ 63) \<le> i \<and> i < 2 ^ 63)"
| "value_ok (CHAR' i) = (- 128 \<le> i \<and> i < 256)"
| "value_ok _ = True"

fun arg_ok :: "'d arg \<Rightarrow> bool" where
  "arg_ok (NAMED_ARG _ a) = value_ok a"
| "arg_ok a = value_ok a"

definition formatter_ok :: "'d arg list \<Rightarrow> 'd formatter \<Rightarrow> bool" where
  "formatter_ok args f \<longleftrightarrow> fmt_args f = make_arg_list args"

named_theorems no_fault "results that are not a memory fault"

lemma bindE_Fault_iff [no_fault]:
  "bindE r f = Inl Fault \<longleftrightarrow> r = Inl Fault \<or> (\<exists>x. r = Inr x \<and> f x = Inl Fault)"
  by (cases r) auto

lemma parse_nonnegative_int_no_fault [no_fault]: "parse_nonnegative_int s \<noteq> Inl Fault"
  by (simp add: parse_nonnegative_int_def split: prod.split)

lemma NONE_not_in: "\<forall>a \<in> set args. arg_ok a \<Longrightarrow> NONE \<notin> set args"
  by fastforce

lemma do_get_arg_ok:
  assumes "\<forall>a \<in> set args. arg_ok a" and "formatter_ok args f"
  shows "\<exists>r. do_get_arg f i = Inr r \<and> (\<forall>a. r = Inr a \<longrightarrow> value_ok a)"
proof -
  have G: "arg_list_get (fmt_args f) i = Inr (arg_at args i)"
    using assms(2) arg_list_get_eq [OF NONE_not_in [OF assms(1)]] by (simp add: formatter_ok_def)
  have "arg_at args i = NONE \<or> arg_ok (arg_at args i)"
    using assms(1) by (auto simp: arg_at_def)
  then show ?thesis
    by (cases "arg_at args i") (simp_all add: do_get_arg_def G)
qed

lemma named_args_ok: "\<forall>a \<in> set args. arg_ok a \<Longrightarrow> named_args args name = Some a \<Longrightarrow> value_ok a"
  by (induction args) (auto split: arg.splits if_splits)

lemma parse_arg_ok:
  assumes "\<forall>a \<in> set args. arg_ok a" and "formatter_ok args f"
  shows "parse_arg s f \<noteq> Inl Fault \<and>
    (\<forall>a s' f'. parse_arg s f = Inr (a, s', f') \<longrightarrow> value_ok a \<and> formatter_ok args f')"
proof -
  have n: "\<exists>r f'. next_arg f = Inr (r, f') \<and> formatter_ok args f' \<and> (\<forall>a. r = Inr a \<longrightarrow> value_ok a)"
    using do_get_arg_ok [OF assms, of "nat (next_arg_index f)"] assms(2)
    by (auto simp: next_arg_def formatter_ok_def)
  have c: "formatter_ok args (snd (check_no_auto_index f))"
    using assms(2) by (simp add: check_no_auto_index_def formatter_ok_def)
  have i: "\<exists>r f'. get_arg_index f k = Inr (r, f') \<and> formatter_ok args f' \<and> (\<forall>a. r = Inr a \<longrightarrow> value_ok a)" for k
  proof (cases "check_no_auto_index f")
    case (Pair e f')
    then have ok: "formatter_ok args f'" using c by simp
    then show ?thesis using do_get_arg_ok [OF assms(1) ok, of k] Pair
      by (cases e) (auto simp: get_arg_index_def)
  qed
  have m: "\<exists>r f'. get_arg_name f name = Inr (r, f') \<and> formatter_ok args f' \<and> (\<forall>a. r = Inr a \<longrightarrow> value_ok a)" for name
  proof (cases "check_no_auto_index f")
    case (Pair e f')
    then have ok: "formatter_ok args f'" using c by simp
    then have "ArgMap_init (fmt_args f') = Inr (named_args args)"
      using ArgMap_init_eq [OF NONE_not_in [OF assms(1)]] by (simp add: formatter_ok_def)
    then show ?thesis using named_args_ok [OF assms(1), of name] Pair ok
      by (cases e; cases "named_args args name") (auto simp: get_arg_name_def)
  qed
  show ?thesis
  proof (cases "is_name_start (peek s)")
    case True
    obtain r f' where "get_arg_name f (hd s # takeWhile is_name_char (tl s)) = Inr (r, f')"
      "formatter_ok args f'" "\<forall>a. r = Inr a \<longrightarrow> value_ok a" using m by blast
    then show ?thesis using True by (cases r) (auto simp: parse_arg_def parse_arg_name_def Let_def)
  next
    case name: False
    show ?thesis
    proof (cases "is_digit (peek s)")
      case False
      obtain r f' where "next_arg f = Inr (r, f')" "formatter_ok args f'" "\<forall>a. r = Inr a \<longrightarrow> value_ok a" using n by blast
      then show ?thesis using name False by (cases r) (auto simp: parse_arg_def parse_arg_index_def)
    next
      case True
      show ?thesis
      proof (cases "parse_nonnegative_int s")
        case (Inl e)
        then show ?thesis using name True parse_nonnegative_int_no_fault [of s]
          by (auto simp: parse_arg_def parse_arg_index_def)
      next
        case (Inr p)
        obtain k s' where p: "p = (k, s')" by (cases p)
        obtain r f' where "get_arg_index f k = Inr (r, f')" "formatter_ok args f'" "\<forall>a. r = Inr a \<longrightarrow> value_ok a" using i by blast
        then show ?thesis using name True Inr p by (cases r) (auto simp: parse_arg_def parse_arg_index_def)
      qed
    qed
  qed
qed

text \<open>Facts of the same shape for the parsers of a specification.\<close>

lemma require_numeric_no_fault [no_fault]: "require_numeric_argument a c \<noteq> Inl Fault"
  by (simp add: require_numeric_argument_def)

lemma count_of_arg_no_fault [no_fault]: "count_of_arg what a \<noteq> Inl Fault"
  by (cases a) (simp_all add: count_of_arg_def)

lemma parse_fill_align_no_fault [no_fault]: "parse_fill_align a spec s \<noteq> Inl Fault"
  by (auto simp: parse_fill_align_def Let_def no_fault split: if_splits)

lemma check_sign_no_fault [no_fault]: "check_sign s a \<noteq> Inl Fault"
  by (cases a) (simp_all add: check_sign_def Let_def no_fault)

lemma parse_sign_no_fault [no_fault]: "parse_sign a spec s \<noteq> Inl Fault"
  by (simp add: parse_sign_def Let_def no_fault)

lemma parse_hash_zero_no_fault [no_fault]: "parse_hash_zero a spec s \<noteq> Inl Fault"
  by (auto simp: parse_hash_zero_def no_fault split: if_splits)

text \<open>
  The parsers that may select arguments: with valid arguments they do not fault, and the formatter
  stays one of these arguments.
\<close>

definition ok_result :: "'d arg list \<Rightarrow> ('a \<times> string \<times> 'd formatter) fmt \<Rightarrow> bool" where
  "ok_result args r \<longleftrightarrow> (case r of Inl e \<Rightarrow> e \<noteq> Fault | Inr (x, s, f) \<Rightarrow> formatter_ok args f)"

lemma ok_resultI:
  "r \<noteq> Inl Fault \<Longrightarrow> (\<And>x s f. r = Inr (x, s, f) \<Longrightarrow> formatter_ok args f) \<Longrightarrow> ok_result args r"
  by (auto simp: ok_result_def split: sum.split)

lemma ok_result_bind:
  assumes "ok_result args r" and "\<And>x s f. r = Inr (x, s, f) \<Longrightarrow> formatter_ok args f \<Longrightarrow> ok_result args (g (x, s, f))"
  shows "ok_result args (bindE r g)"
  using assms by (cases r) (auto simp: ok_result_def split: sum.splits)

lemma ok_result_simps [simp]:
  "ok_result args (Inr (x, s, f)) = formatter_ok args f" "ok_result args (Inl (FormatError e))"
  by (simp_all add: ok_result_def)

lemma ok_result_bind2:
  assumes "r \<noteq> Inl Fault" and "\<And>x. r = Inr x \<Longrightarrow> ok_result args (g x)"
  shows "ok_result args (bindE r g)"
  using assms by (cases r) (auto simp: ok_result_def)

lemma parse_count_arg_ok:
  assumes "\<forall>a \<in> set args. arg_ok a" and "formatter_ok args f"
  shows "ok_result args (parse_count_arg what s f)"
  unfolding parse_count_arg_def
proof (rule ok_result_bind, goal_cases)
  case 1
  show ?case using parse_arg_ok [OF assms, of s] by (auto intro: ok_resultI)
next
  case (2 a s f)
  then show ?case by (auto intro!: ok_result_bind2 simp: no_fault)
qed

lemma parse_width_ok:
  assumes "\<forall>a \<in> set args. arg_ok a" and "formatter_ok args f"
  shows "ok_result args (parse_width spec s f)"
  using assms parse_count_arg_ok [OF assms]
  by (auto simp: parse_width_def no_fault intro!: ok_result_bind2 ok_result_bind split: if_splits)

lemma parse_precision_ok:
  assumes "\<forall>a \<in> set args. arg_ok a" and "formatter_ok args f"
  shows "ok_result args (parse_precision a spec s f)"
proof -
  have "ok_result args (if is_digit (peek s) then
                 bindE (parse_nonnegative_int s) (\<lambda>(p, s). Inr (spec\<lparr>spec_precision := int p\<rparr>, s, f))
               else if peek s = CHR ''{'' then
                 bindE (parse_count_arg ''precision'' (tl s) f) (\<lambda>(p, s, f). Inr (spec\<lparr>spec_precision := int p\<rparr>, s, f))
               else Inl (FormatError ''missing precision specifier''))" for s
    using assms parse_count_arg_ok [OF assms]
    by (auto simp: no_fault intro!: ok_result_bind2 ok_result_bind)
  note B = ok_result_bind [OF this]
  show ?thesis
  proof (cases "peek s = CHR ''.''")
    case True
    show ?thesis unfolding parse_precision_def Let_def if_P [OF True] by (rule B) auto
  qed (simp add: parse_precision_def assms(2))
qed

lemma parse_spec_ok:
  assumes "\<forall>a \<in> set args. arg_ok a" and "formatter_ok args f"
  shows "ok_result args (parse_spec a s f)"
  unfolding parse_spec_def
  by (rule ok_result_bind2, rule no_fault, clarify, rule ok_result_bind2, rule no_fault, clarify,
      rule ok_result_bind2, rule no_fault, clarify, rule ok_result_bind, rule parse_width_ok [OF assms],
      clarify, rule ok_result_bind, rule parse_precision_ok [OF assms(1)], assumption) auto

subsection \<open>Writing a valid value\<close>

lemma copy_error: "copy s p buf = Inl e \<Longrightarrow> e = Fault"
  by (auto simp: copy_def checked_def split: option.splits)

lemma write_int32_no_fault: "- (2 ^ 32) < i \<Longrightarrow> i < 2 ^ 32 \<Longrightarrow> write_int32 i spec buf \<noteq> Inl Fault"
  and write_int64_no_fault: "- (2 ^ 64) < i \<Longrightarrow> i < 2 ^ 64 \<Longrightarrow> write_int64 i spec buf \<noteq> Inl Fault"
  by (auto simp: write_int32_eq write_int64_eq int_text_def report_unknown_type_def split: option.splits prod.splits)

lemma write_str_no_fault: "write_str s spec buf \<noteq> Inl Fault"
  by (auto simp: write_str_def write_str_chars_eq report_unknown_type_def split: option.split)

lemma visit_char_eq:
  "visit_char v spec buf =
     (if spec_type spec \<noteq> CHR 0x00 \<and> spec_type spec \<noteq> CHR ''c'' then
        write_int32 v (spec\<lparr>spec_flags := spec_flags spec OR CHAR_FLAG\<rparr>) buf
      else if spec_align spec = ALIGN_NUMERIC \<or> spec_flags spec \<noteq> 0 then
        Inl (FormatError ''invalid format specifier for char'')
      else Inr (buf @ pad_text (spec_align spec) (spec_width spec) (spec_fill spec) [char_of v]))"
proof -
  have h: "(w - Suc 0) div 2 + 1 \<le> w" "(w - Suc 0) div 2 < w" if "1 < w" for w :: nat using that by linarith+
  have u: "(xs @ y # zs)[length xs := z] = xs @ z # zs" for xs y zs and z :: char by simp
  show ?thesis
    using h [of "spec_width spec"]
    by (cases "spec_align spec"; cases "spec_width spec")
       (auto simp: visit_char_def buffer_simps pad_text_def Let_def store_def list_update_append replicate_append_same [symmetric])
qed

lemma visit_arg_no_fault:
  assumes "value_ok a" and "\<forall>v spec. wd v spec \<noteq> Inl Fault"
  shows "visit_arg wd (as_text a) spec buf \<noteq> Inl Fault"
proof -
  have w: "map_sum id ((@) buf) (wd v spec) \<noteq> Inl Fault" for v
    using assms(2) by (cases "wd v spec") auto
  have u32: "- (2 ^ 32) < uint (w :: uint32)" "uint w < 2 ^ 32" for w
    using uint_lt2p [of w] by (auto intro: less_le_trans [OF _ uint_ge_0])
  have u64: "- (2 ^ 64) < uint (w :: uint64)" "uint w < 2 ^ 64" for w
    using uint_lt2p [of w] by (auto intro: less_le_trans [OF _ uint_ge_0])
  note [simp] = write_str_no_fault write_int32_no_fault write_int64_no_fault w
    write_int32_no_fault [OF u32] write_int64_no_fault [OF u64]
  show ?thesis
    using assms(1)
    by (cases a) (simp_all add: visit_arg_def as_text_def visit_bool_def visit_char_eq visit_cstring_def
      visit_pointer_def write_pointer_def report_unknown_type_def)
qed

lemma value_ok_as_text: "value_ok a \<Longrightarrow> value_ok (as_text a)"
  by (cases a) (simp_all add: as_text_def)

lemma format_arg_no_fault:
  assumes "\<forall>a \<in> set args. arg_ok a" and "formatter_ok args f" and "value_ok a"
    and wd: "\<forall>v spec. wd v spec \<noteq> Inl Fault"
  shows "format_arg wd s a f buf \<noteq> Inl Fault \<and>
    (\<forall>s' f' buf'. format_arg wd s a f buf = Inr (s', f', buf') \<longrightarrow> formatter_ok args f')"
proof -
  let ?r = "if peek s = CHR '':'' then parse_spec (as_text a) (tl s) f else Inr (FormatSpec, s, f)"
  have "ok_result args ?r" using parse_spec_ok [OF assms(1,2)] assms(2) by simp
  then show ?thesis
    using visit_arg_no_fault [OF assms(3) wd]
    unfolding format_arg_def
    by (cases ?r) (auto simp: ok_result_def bindE_Inr_iff no_fault split: if_splits)
qed

lemma format_loop_no_fault:
  assumes "\<forall>a \<in> set args. arg_ok a" and wd: "\<forall>v spec. wd v spec \<noteq> Inl Fault"
  shows "formatter_ok args f \<Longrightarrow> format_loop wd s pend f buf \<noteq> Inl Fault"
proof (induction "length s" arbitrary: s pend f buf rule: less_induct)
  case less
  show ?case
  proof (cases "peek s = CHR 0x00")
    case True
    then show ?thesis by (simp add: format_loop.simps [of wd s])
  next
    case False
    then obtain c s' where s: "s = c # s'" by (cases s) (auto simp: peek_def)
    have IH: "\<And>r pend f buf. length r < length s \<Longrightarrow> formatter_ok args f \<Longrightarrow> format_loop wd r pend f buf \<noteq> Inl Fault"
      using less.hyps by blast
    note P = parse_arg_ok [OF assms(1) less.prems, of s']
    have "bindE (parse_arg s' f) (\<lambda>(arg, s, f). bindE (format_arg wd s arg f (buf @ pend)) (\<lambda>(s, f, buf).
        format_loop wd s [] f buf)) \<noteq> Inl Fault"
    proof -
      have "bindE (format_arg wd s1 a f1 (buf @ pend)) (\<lambda>(s, f, buf). format_loop wd s [] f buf) \<noteq> Inl Fault"
        if "parse_arg s' f = Inr (a, s1, f1)" for a s1 f1
      proof -
        have ok: "formatter_ok args f1" "value_ok a" using P that by auto
        have l: "length s1 < length s" using parse_arg_length [OF that] s by simp
        show ?thesis
        proof (cases "format_arg wd s1 a f1 (buf @ pend)")
          case (Inl e)
          then show ?thesis
            using format_arg_no_fault [OF assms(1) ok wd, where s = s1 and buf = "buf @ pend"] by auto
        next
          case (Inr r)
          obtain s2 f2 buf2 where r: "r = (s2, f2, buf2)" by (cases r)
          have "formatter_ok args f2"
            using format_arg_no_fault [OF assms(1) ok wd, where s = s1 and buf = "buf @ pend"] Inr r by auto
          moreover have "length s2 < length s" using format_arg_length [OF Inr [unfolded r]] l by simp
          ultimately show ?thesis using IH by (simp add: Inr r)
        qed
      qed
      then show ?thesis using P by (auto simp: no_fault)
    qed
    moreover have "format_loop wd s' (pend @ [c]) f buf \<noteq> Inl Fault"
      "format_loop wd (tl s') [] f (buf @ pend @ [c]) \<noteq> Inl Fault"
      using less.prems by (intro IH; simp add: s)+
    ultimately show ?thesis
      by (auto simp add: s format_loop.simps [of wd "c # s'"] peek_def [of "c # s'"] Let_def)
  qed
qed

section \<open>Properties\<close>

text \<open>
  C7. Formatting a template of literal text (its braces doubled) and plain fields copies the text
  literally and puts the arguments' texts in the fields, in order.
\<close>

theorem format_template:
  assumes "map default_text args = map Some ts" and "\<forall>t. Lit t \<in> set segs \<longrightarrow> CHR 0x00 \<notin> set t"
    and "expand segs ts = Some r"
  shows "fmt_format wd (template segs) args = Inr r"
proof -
  have "NONE \<notin> set args"
  proof
    assume "NONE \<in> set args"
    then have "None \<in> set (map default_text args)" by force
    then show False unfolding assms(1) by auto
  qed
  from format_loop_template [OF this assms(1,2), of 0 r] show ?thesis
    using assms(3) by (simp add: fmt_format_def auto_formatter_def)
qed

theorem format_template_witness:
  "fmt_format (\<lambda>_ _. Inr []) (template [Lit ''{x} '', Field, Lit '','', Field]) [STRING ''hi'', ULONG_LONG 42 :: unit arg] =
     Inr ''{x} hi,42''"
proof (rule format_template [where ts = "[''hi'', ''42'']"])
  show "map default_text [STRING ''hi'', ULONG_LONG 42 :: unit arg] = map Some [''hi'', ''42'']"
  proof -
    have "decimal 42 = ''42''" by code_simp
    then show ?thesis by simp
  qed
qed auto



text \<open>
  A log line starts with the local time as zero-padded digits, then level and function,
  then the formatted message.
\<close>

theorem LOG_line:
  assumes "0 \<le> tm_year t" "tm_year t < 2 ^ 30" "0 \<le> tm_mon t" "tm_mon t < 12" "0 \<le> tm_mday t" "tm_mday t < 32"
    and "0 \<le> tm_hour t" "tm_hour t < 24" "0 \<le> tm_min t" "tm_min t < 60" "0 \<le> tm_sec t" "tm_sec t < 61"
    and "fmt_format wd format_str args = Inr text"
  shows "LOG wd t header func format_str args = Inr (
     zero_padded 4 (nat (tm_year t + 1900)) @ ''-'' @ zero_padded 2 (nat (tm_mon t + 1)) @ ''-'' @
     zero_padded 2 (nat (tm_mday t)) @ '' '' @ zero_padded 2 (nat (tm_hour t)) @ '':'' @
     zero_padded 2 (nat (tm_min t)) @ '':'' @ zero_padded 2 (nat (tm_sec t)) @ '' '' @
     header @ ''['' @ func @ ''] '' @ text)"
proof -
  let ?args = "[INT' (tm_year t + 1900), INT' (tm_mon t + 1), INT' (tm_mday t), INT' (tm_hour t), INT' (tm_min t), INT' (tm_sec t)]"
  let ?f = "auto_formatter ?args"
  note Z = format_loop_zero_padded [where args = ?args and wd = wd]
  have L: "format_loop wd (c # s) [] f buf = format_loop wd s [] f (buf @ [c])"
    if "c \<in> {CHR ''-'', CHR '' '', CHR '':''}" for c s f buf
    using that format_loop_literal [of "[c]" wd s f buf] by (auto simp: escape_def escape_char_def)
  have z: "format_loop wd (CHR ''{'' # CHR '':'' # CHR ''0'' # CHR ''4'' # CHR ''d'' # CHR ''}'' # s) [] (?f 0) buf =
      format_loop wd s [] (?f 1) (buf @ zero_padded 4 (nat (tm_year t + 1900)))"
    "format_loop wd (CHR ''{'' # CHR '':'' # CHR ''0'' # CHR ''2'' # CHR ''d'' # CHR ''}'' # s) [] (?f 1) buf =
      format_loop wd s [] (?f 2) (buf @ zero_padded 2 (nat (tm_mon t + 1)))"
    "format_loop wd (CHR ''{'' # CHR '':'' # CHR ''0'' # CHR ''2'' # CHR ''d'' # CHR ''}'' # s) [] (?f 2) buf =
      format_loop wd s [] (?f 3) (buf @ zero_padded 2 (nat (tm_mday t)))"
    "format_loop wd (CHR ''{'' # CHR '':'' # CHR ''0'' # CHR ''2'' # CHR ''d'' # CHR ''}'' # s) [] (?f 3) buf =
      format_loop wd s [] (?f 4) (buf @ zero_padded 2 (nat (tm_hour t)))"
    "format_loop wd (CHR ''{'' # CHR '':'' # CHR ''0'' # CHR ''2'' # CHR ''d'' # CHR ''}'' # s) [] (?f 4) buf =
      format_loop wd s [] (?f 5) (buf @ zero_padded 2 (nat (tm_min t)))"
    "format_loop wd (CHR ''{'' # CHR '':'' # CHR ''0'' # CHR ''2'' # CHR ''d'' # CHR ''}'' # s) [] (?f 5) buf =
      format_loop wd s [] (?f 6) (buf @ zero_padded 2 (nat (tm_sec t)))" for s buf
    using assms(1-12)
    by (intro Z [where c = "CHR ''4''", simplified append.simps] Z [where c = "CHR ''2''", simplified append.simps]; simp)+
  have e: "format_loop wd [] [] f buf = Inr buf" for f buf by (simp add: format_loop.simps [of wd "[]"] peek_def)
  note l = L [of "CHR ''-''", simplified] L [of "CHR '' ''", simplified] L [of "CHR '':''", simplified]
  have "format_loop wd ''{:04d}-{:02d}-{:02d} {:02d}:{:02d}:{:02d} '' [] (?f 0) [] = Inr (
     zero_padded 4 (nat (tm_year t + 1900)) @ ''-'' @ zero_padded 2 (nat (tm_mon t + 1)) @ ''-'' @
     zero_padded 2 (nat (tm_mday t)) @ '' '' @ zero_padded 2 (nat (tm_hour t)) @ '':'' @
     zero_padded 2 (nat (tm_min t)) @ '':'' @ zero_padded 2 (nat (tm_sec t)) @ '' '')"
    by (simp only: z l e append_assoc append_Nil)
  then have "fmt_format wd ''{:04d}-{:02d}-{:02d} {:02d}:{:02d}:{:02d} '' ?args = Inr (
     zero_padded 4 (nat (tm_year t + 1900)) @ ''-'' @ zero_padded 2 (nat (tm_mon t + 1)) @ ''-'' @
     zero_padded 2 (nat (tm_mday t)) @ '' '' @ zero_padded 2 (nat (tm_hour t)) @ '':'' @
     zero_padded 2 (nat (tm_min t)) @ '':'' @ zero_padded 2 (nat (tm_sec t)) @ '' '')"
    by (simp only: fmt_format_def auto_formatter_def int_ops(1))
  then show ?thesis using assms(13) by (simp only: LOG_def bindE_simps append_assoc)
qed

theorem LOG_line_witness:
  "LOG (\<lambda>_ _. Inr []) \<lparr>tm_year = 115, tm_mon = 3, tm_mday = 9, tm_hour = 7, tm_min = 5, tm_sec = 0\<rparr>
     ''[INFO ]'' ''main'' (template [Lit ''n='', Field]) [INT' 5 :: unit arg] = Inr (
     zero_padded 4 (nat (115 + 1900)) @ ''-'' @ zero_padded 2 (nat (3 + 1)) @ ''-'' @
     zero_padded 2 (nat 9) @ '' '' @ zero_padded 2 (nat 7) @ '':'' @
     zero_padded 2 (nat 5) @ '':'' @ zero_padded 2 (nat 0) @ '' '' @
     ''[INFO ]'' @ ''['' @ ''main'' @ ''] '' @ ''n=5'')"
proof -
  have d: "decimal 5 = ''5''" by code_simp
  have "fmt_format (\<lambda>_ _. Inr []) (template [Lit ''n='', Field]) [INT' 5 :: unit arg] = Inr ''n=5''"
    using format_loop_template [of "[INT' 5 :: unit arg]" "[''5'']" "[Lit ''n='', Field]" 0 "''n=5''" "\<lambda>_ _. Inr []" "[]"] d
    by (simp add: fmt_format_def auto_formatter_def signed_decimal_def)
  from LOG_line [OF _ _ _ _ _ _ _ _ _ _ _ _ this,
      of "\<lparr>tm_year = 115, tm_mon = 3, tm_mday = 9, tm_hour = 7, tm_min = 5, tm_sec = 0\<rparr>"]
  show ?thesis by simp
qed

text \<open>
  The test for wrap-around in \<open>parse_nonnegative_int\<close> compares the new value with the
  old one, which does not detect every overflow of 32 bits: a width of 10000000000 is accepted as
  1410065408 where the message "number is too big" is meant.
\<close>

theorem parse_nonnegative_int_misses_overflow:
  "parse_nonnegative_int ''10000000000}'' = Inr (1410065408, ''}'')"
  by (simp add: parse_nonnegative_int_def peek_def is_digit_def INT_MAX_def Let_def)

end
