(* ===== verification/ClientSession.thy ===== *)
theory ClientSession
  imports PacketHandlerManager Winsock Format
begin

text \<open>
  MServer/ClientSession.h and MServer/ClientSessionHandler.cpp: a session with a connected client, which
  collects what is received, dispatches every complete packet, and sends packets; and the handler of
  the chat packet, which answers with the message and a running number.

  The message classes are generated by protoc and not part of the repository: the class of the reply is an
  argument (\<open>ps2c\<close>), and so is the parser of the request (\<open>parse\<close>). \<open>None\<close> is a fault or an abort.
\<close>

section \<open>State\<close>

record client_session =
  client_sock :: SOCKET
  clientAddr :: "uint16 \<times> uint32"
  recvBuffer :: packet_buffer
  sendBuffer :: packet_buffer

text \<open>The state of the process outside of the session: the static counter of the handler and the world.\<close>

record 'w process =
  count :: uint64
  net :: 'w

section \<open>Operations\<close>

definition InitSession ::
  "('w, 'z) winsock_scheme \<Rightarrow> SOCKET \<Rightarrow> client_session \<Rightarrow> 'w \<Rightarrow> bool \<times> client_session \<times> 'w"
where
  "InitSession ws listen_sock s w = (case ws_accept ws listen_sock w of (sock, addr, w) \<Rightarrow>
     let s = s\<lparr>client_sock := sock, clientAddr := addr\<rparr> in
     if client_sock s = INVALID_SOCKET then (False, s, w) else (True, s, w))"

definition CloseSession :: "('w, 'z) winsock_scheme \<Rightarrow> client_session \<Rightarrow> 'w \<Rightarrow> 'w" where
  "CloseSession ws s w = ws_closesocket ws (client_sock s) w"

definition GetClientSocket :: "client_session \<Rightarrow> SOCKET" where
  "GetClientSocket s = client_sock s"

definition SendPacket ::
  "('w, 'z) winsock_scheme \<Rightarrow> ('m, 'y) packet_class_scheme \<Rightarrow> 'm \<Rightarrow> client_session \<Rightarrow> 'w \<Rightarrow>
   (bool \<times> client_session \<times> 'w) option"
where
  "SendPacket ws C packet s w = do {
     (ok, sb) \<leftarrow> SetPacket C packet (sendBuffer s);
     let s = s\<lparr>sendBuffer := sb\<rparr>;
     if \<not> ok then Some (False, s, w)
     else do {
       n \<leftarrow> GetPacketSize sb;
       bs \<leftarrow> mem_read (GetPacketBuffer sb) (unat n) (buffer sb);
       (case ws_send ws (client_sock s) bs w of (retval, w) \<Rightarrow>
          if retval = SOCKET_ERROR then Some (False, s, w)
          else do {
            sb \<leftarrow> ConsumePacket sb;
            Some (True, s\<lparr>sendBuffer := sb\<rparr>, w)
          })
     }
   }"

text \<open>
  The loop of \<open>OnRecv\<close>. When a packet was not handled, the error message reads the packet number again.
\<close>

partial_function (option) recv_loop ::
  "(client_session, 'g) packet_handler_manager \<Rightarrow> client_session \<Rightarrow> 'g \<Rightarrow> (client_session \<times> 'g) option"
where
  "recv_loop mgr s g = do {
     able \<leftarrow> IsAbleToGetPacket (recvBuffer s);
     if \<not> able then Some (s, g)
     else do {
       (handled, s, g, rb) \<leftarrow> Handle mgr s g (recvBuffer s);
       if \<not> handled then do {
         _ \<leftarrow> GetPacketNo rb;
         Some (s\<lparr>recvBuffer := rb\<rparr>, g)
       }
       else recv_loop mgr (s\<lparr>recvBuffer := rb\<rparr>) g
     }
   }"

definition OnRecv ::
  "(client_session, 'g) packet_handler_manager \<Rightarrow> byte list option \<Rightarrow> uint32 \<Rightarrow> client_session \<Rightarrow> 'g \<Rightarrow>
   (client_session \<times> 'g) option"
where
  "OnRecv mgr pBuffer recvSize s g =
     (if pBuffer = None then Some (s, g)
      else if unat recvSize > MAX_BUF_SIZE then Some (s, g)
      else do {
        (ok, rb) \<leftarrow> AppendBuffer pBuffer (ucast recvSize) (recvBuffer s);
        let s = s\<lparr>recvBuffer := rb\<rparr>;
        if \<not> ok then Some (s, g) else recv_loop mgr s g
      })"

section \<open>The chat handler\<close>

text \<open>\<open>PROTOCOL_NUMBER\<close> of the two packet classes (Shared/p_client_server.h, Shared/p_server_client.h).\<close>

definition PC2S_Chat_NUMBER :: uint16 where
  "PC2S_Chat_NUMBER = 0"

definition PS2C_Chat_NUMBER :: uint16 where
  "PS2C_Chat_NUMBER = 0"

text \<open>An exception of the formatter would not be caught and end the process.\<close>

definition PC2S_Chat_handler ::
  "('w, 'z) winsock_scheme \<Rightarrow> (string, 'y) packet_class_scheme \<Rightarrow> string \<Rightarrow> client_session \<Rightarrow> 'w process \<Rightarrow>
   (bool \<times> client_session \<times> 'w process) option"
where
  "PC2S_Chat_handler ws ps2c message session g = (
     let g = g\<lparr>count := count g + 1\<rparr> in
     case fmt_format (\<lambda>_ _. Inl Fault) ''{},{}'' [STRING message, ULONG_LONG (count g) :: unit arg] of
       Inl _ \<Rightarrow> None
     | Inr out \<Rightarrow> do {
         (_, session, w) \<leftarrow> SendPacket ws ps2c out session (net g);
         Some (True, session, g\<lparr>net := w\<rparr>)
       })"

definition ClientSession_manager ::
  "('w, 'z) winsock_scheme \<Rightarrow> (byte list \<Rightarrow> string option) \<Rightarrow> (string, 'y) packet_class_scheme \<Rightarrow>
   (client_session, 'w process) packet_handler_manager option"
where
  "ClientSession_manager ws parse ps2c =
     PacketHandlerManager_init [(PC2S_Chat_NUMBER, PacketFunctor_Handle parse (PC2S_Chat_handler ws ps2c))]"

section \<open>Sending\<close>

text \<open>
  What the sender relies on in a generated message class: \<open>payload\<close> is the serialization of \<open>m\<close>, of the
  size \<open>ByteSize\<close> says, stored at the start of the array.
\<close>

definition serializes :: "('m, 'z) packet_class_scheme \<Rightarrow> 'm \<Rightarrow> byte list \<Rightarrow> bool" where
  "serializes C m payload \<longleftrightarrow> ByteSize C m = int (length payload) \<and>
     SerializeToArray C m (replicate MAX_BUF_SIZE 0) (int MAX_BUF_SIZE) =
       (if length payload \<le> 65535 then Some (True, payload @ replicate (65535 - length payload) 0)
        else Some (False, replicate MAX_BUF_SIZE 0))"

lemma SetPacket_serialized:
  assumes ok: "pb_ok pb" and m: "serializes C m payload" "payload \<noteq> []"
    and room: "length (contents pb) + 4 + length payload \<le> 65535"
  obtains pb' where "SetPacket C m pb = Some (True, pb')" and "pb_ok pb'"
    and "contents pb' = contents pb @ frame (PROTOCOL_NUMBER C) payload"
proof -
  have k: "ByteSize C m = int (length payload)" using m(1) by (simp add: serializes_def)
  have le: "length payload \<le> 65535" using room by simp
  have "\<exists>pb'. SetPacket C m pb = Some (True, pb') \<and> pb_ok pb' \<and>
      contents pb' = contents pb @ frame (PROTOCOL_NUMBER C) payload"
  proof (rule SetPacket_frame [OF ok])
    show "0 < ByteSize C m" using m(2) k by simp
    show "int (length (contents pb)) + 4 + ByteSize C m \<le> 65535" using room k by linarith
    show "SerializeToArray C m (replicate MAX_BUF_SIZE 0) (int MAX_BUF_SIZE) =
        Some (True, payload @ replicate (65535 - length payload) 0)"
      using m(1) le unfolding serializes_def by presburger
    show "int (length payload) = ByteSize C m" using k by simp
  qed
  with that show ?thesis by blast
qed

lemma serializes_raw_packet [simp]: "length m \<le> 65535 \<Longrightarrow> serializes raw_packet m m"
  by (simp add: serializes_def)

text \<open>A sequence of packets, each with its number and payload, as it stands in a buffer.\<close>

definition frames_of :: "(uint16 \<times> byte list) list \<Rightarrow> byte list" where
  "frames_of q = concat (map (\<lambda>(no, payload). frame no payload) q)"

lemma frames_of_simps [simp]:
  "frames_of [] = []" "frames_of ((no, payload) # q) = frame no payload @ frames_of q"
  "frames_of (q @ r) = frames_of q @ frames_of r"
  by (simp_all add: frames_of_def)

lemma consume_front:
  assumes "pb_ok pb" and "contents pb = frame no payload @ r" and "length payload \<le> 65531"
  obtains pb' where "ConsumePacket pb = Some pb'" and "pb_ok pb'" and "contents pb' = r"
proof -
  have "frame_ready (contents pb)" using assms by (simp add: frame_ready_frame)
  from pbq.consume_ready [OF assms(1) this] obtain pb' where
    "ConsumePacket pb = Some pb'" "pb_ok pb'" "contents pb' = drop (frame_len (contents pb)) (contents pb)"
    by blast
  with that show ?thesis using assms(2,3) by (simp add: frame_len_frame)
qed

lemma read_front:
  assumes "pb_ok pb" and "contents pb = frame no payload @ r" and "length payload \<le> 65531"
  shows "GetPacketSize pb \<bind> (\<lambda>n. mem_read (GetPacketBuffer pb) (unat n) (buffer pb)) = Some (frame no payload)"
proof -
  have l: "2 \<le> length (contents pb)" using assms(2) by simp
  have "unat (of_le16 (contents pb)) = 4 + length payload"
    using frame_len_frame [OF assms(3), of no r] assms(2) by (simp add: frame_len_def)
  then show ?thesis
    using mem_read_contents [OF assms(1), of 0 "4 + length payload"] assms(2) l
    by (simp add: GetPacketSize_eq [OF assms(1)] GetPacketBuffer_def GetBuffer_def)
qed

text \<open>
  The send buffer is a queue of packets: a call appends its packet and sends the one at the front,
  which is removed unless the send fails.
\<close>

lemma SendPacket_queue:
  assumes ok: "pb_ok (sendBuffer s)" and c: "contents (sendBuffer s) = frames_of ps"
    and ps: "\<forall>(no, p) \<in> set ps. length p \<le> 65531"
    and m: "serializes C m payload" "payload \<noteq> []" and room: "length (frames_of ps) + 4 + length payload \<le> 65535"
  shows "\<exists>sb r w'. pb_ok sb \<and>
    ws_send ws (client_sock s) (case hd (ps @ [(PROTOCOL_NUMBER C, payload)]) of (no, p) \<Rightarrow> frame no p) w = (r, w') \<and>
    SendPacket ws C m s w = Some (r \<noteq> SOCKET_ERROR, s\<lparr>sendBuffer := sb\<rparr>, w') \<and>
    contents sb = frames_of (if r = SOCKET_ERROR then ps @ [(PROTOCOL_NUMBER C, payload)]
      else tl (ps @ [(PROTOCOL_NUMBER C, payload)]))"
proof -
  let ?q = "ps @ [(PROTOCOL_NUMBER C, payload)]"
  obtain no p q where q: "?q = (no, p) # q" by (cases ?q) auto
  have p: "length p \<le> 65531"
    using ps room q by (cases ps) auto
  obtain sb1 where sb1: "SetPacket C m (sendBuffer s) = Some (True, sb1)" "pb_ok sb1"
    "contents sb1 = contents (sendBuffer s) @ frame (PROTOCOL_NUMBER C) payload"
    by (rule SetPacket_serialized [OF ok m]) (use room c in simp)
  have c1: "contents sb1 = frame no p @ frames_of q"
    using sb1(3) c arg_cong [OF q, of frames_of] by simp
  obtain sb2 where sb2: "ConsumePacket sb1 = Some sb2" "pb_ok sb2" "contents sb2 = frames_of q"
    by (rule consume_front [OF sb1(2) c1 p])
  obtain r w' where r: "ws_send ws (client_sock s) (frame no p) w = (r, w')" by (cases "ws_send ws (client_sock s) (frame no p) w")
  have "GetPacketSize sb1 \<bind> (\<lambda>n. mem_read (GetPacketBuffer sb1) (unat n) (buffer sb1)) = Some (frame no p)"
    by (rule read_front [OF sb1(2) c1 p])
  then obtain n where "GetPacketSize sb1 = Some n" "mem_read (GetPacketBuffer sb1) (unat n) (buffer sb1) = Some (frame no p)"
    by (auto simp: bind_Some_iff)
  then have "SendPacket ws C m s w = Some (r \<noteq> SOCKET_ERROR, s\<lparr>sendBuffer := if r = SOCKET_ERROR then sb1 else sb2\<rparr>, w')"
    using sb1(1) sb2(1) r by (simp add: SendPacket_def)
  then show ?thesis
    using r q sb1(2) sb2(2,3) c1 by (intro exI [of _ "if r = SOCKET_ERROR then sb1 else sb2"]) auto
qed

text \<open>
  An empty packet at the front (a size field of 0) is sent as no bytes at all and is never removed.
\<close>

lemma SendPacket_stuck:
  assumes ok: "pb_ok (sendBuffer s)" and c: "2 \<le> length (contents (sendBuffer s))" "frame_len (contents (sendBuffer s)) = 0"
    and m: "serializes C m payload" "payload \<noteq> []"
    and room: "length (contents (sendBuffer s)) + 4 + length payload \<le> 65535"
  shows "\<exists>sb r w'. pb_ok sb \<and> ws_send ws (client_sock s) [] w = (r, w') \<and>
    SendPacket ws C m s w = Some (r \<noteq> SOCKET_ERROR, s\<lparr>sendBuffer := sb\<rparr>, w') \<and>
    contents sb = contents (sendBuffer s) @ frame (PROTOCOL_NUMBER C) payload"
proof -
  obtain sb1 where sb1: "SetPacket C m (sendBuffer s) = Some (True, sb1)" "pb_ok sb1"
    "contents sb1 = contents (sendBuffer s) @ frame (PROTOCOL_NUMBER C) payload"
    by (rule SetPacket_serialized [OF ok m room])
  have "of_le16 (contents sb1) = of_le16 (contents (sendBuffer s))"
    using sb1(3) c(1) by (simp add: of_le16_append)
  then have "of_le16 (contents sb1) = 0"
    using c(2) by (simp add: frame_len_def unat_eq_0)
  then have n: "GetPacketSize sb1 = Some 0"
    using c(1) sb1(3) by (simp add: GetPacketSize_eq [OF sb1(2)])
  have "mem_read (GetPacketBuffer sb1) 0 (buffer sb1) = Some []"
    using mem_read_contents [OF sb1(2), of 0 0] by (simp add: GetPacketBuffer_def GetBuffer_def)
  moreover have "ConsumePacket sb1 = Some sb1"
    by (simp add: ConsumePacket_def n TruncateBuffer_def)
  moreover obtain r w' where "ws_send ws (client_sock s) [] w = (r, w')" by (cases "ws_send ws (client_sock s) [] w")
  ultimately show ?thesis
    using sb1 n by (intro exI [of _ sb1]) (simp add: SendPacket_def Let_def)
qed

section \<open>The chat reply\<close>

definition reply_text :: "string \<Rightarrow> uint64 \<Rightarrow> string" where
  "reply_text message n = message @ '','' @ decimal (unat n)"

lemma format_reply:
  "fmt_format wd ''{},{}'' [STRING message, ULONG_LONG n :: unit arg] = Inr (reply_text message n)"
  using format_loop_template [of "[STRING message, ULONG_LONG n :: unit arg]" "[message, decimal (unat n)]"
      "[Field, Lit '','', Field]" 0 "reply_text message n" wd "[]"]
  by (simp add: fmt_format_def auto_formatter_def escape_def escape_char_def reply_text_def)

lemma PC2S_Chat_handler_eq:
  "PC2S_Chat_handler ws ps2c message s g =
     map_option (\<lambda>(_, s, w). (True, s, g\<lparr>count := count g + 1, net := w\<rparr>))
       (SendPacket ws ps2c (reply_text message (count g + 1)) s (net g))"
  by (cases "SendPacket ws ps2c (reply_text message (count g + 1)) s (net g)")
     (auto simp: PC2S_Chat_handler_def format_reply)

text \<open>Sending does not touch the receive buffer.\<close>

lemma SendPacket_recvBuffer:
  "SendPacket ws C m (s\<lparr>recvBuffer := rb\<rparr>) w =
     map_option (\<lambda>(ok, s, w). (ok, s\<lparr>recvBuffer := rb\<rparr>, w)) (SendPacket ws C m s w)"
  by (auto simp: SendPacket_def Let_def map_bind split_beta intro!: bind_eqI)

lemma SendPacket_keeps_recvBuffer: "SendPacket ws C m s w = Some (ok, s', w') \<Longrightarrow> recvBuffer s' = recvBuffer s"
proof -
  assume *: "SendPacket ws C m s w = Some (ok, s', w')"
  have "s\<lparr>recvBuffer := recvBuffer s\<rparr> = s" by simp
  then have "SendPacket ws C m s w = Some (ok, s'\<lparr>recvBuffer := recvBuffer s\<rparr>, w')"
    using SendPacket_recvBuffer [where s = s and rb = "recvBuffer s" and ws = ws and C = C and m = m and w = w] * by simp
  then have "s' = s'\<lparr>recvBuffer := recvBuffer s\<rparr>" using * by simp
  then show ?thesis by (metis client_session.select_convs(3) client_session.surjective client_session.update_convs(3))
qed

lemma handler_recvBuffer:
  "PC2S_Chat_handler ws ps2c m (s\<lparr>recvBuffer := rb\<rparr>) g =
     map_option (\<lambda>(ok, s, g). (ok, s\<lparr>recvBuffer := rb\<rparr>, g)) (PC2S_Chat_handler ws ps2c m s g)"
  by (simp add: PC2S_Chat_handler_eq SendPacket_recvBuffer option.map_comp o_def split_beta)

section \<open>Receiving\<close>

text \<open>What the received packets mean: their messages are answered one after the other.\<close>

fun serve ::
  "('w, 'z) winsock_scheme \<Rightarrow> (string, 'y) packet_class_scheme \<Rightarrow> string list \<Rightarrow> client_session \<Rightarrow> 'w process \<Rightarrow>
   (client_session \<times> 'w process) option"
where
  "serve ws ps2c [] s g = Some (s, g)"
| "serve ws ps2c (m # ms) s g = do {
     (_, s, g) \<leftarrow> PC2S_Chat_handler ws ps2c m s g;
     serve ws ps2c ms s g
   }"

definition chat_packet :: "(byte list \<Rightarrow> string option) \<Rightarrow> byte list \<Rightarrow> string \<Rightarrow> bool" where
  "chat_packet parse p m \<longleftrightarrow> 4 \<le> length p \<and> frame_no p = PC2S_Chat_NUMBER \<and> parse (frame_payload p) = Some m"

lemma serve_append:
  "serve ws ps2c (ms @ ns) s g = serve ws ps2c ms s g \<bind> (\<lambda>(s, g). serve ws ps2c ns s g)"
  by (induction ms arbitrary: s g) (auto simp: split_beta intro!: bind_eqI)

lemma serve_recvBuffer:
  "serve ws ps2c ms (s\<lparr>recvBuffer := rb\<rparr>) g =
     map_option (\<lambda>(s, g). (s\<lparr>recvBuffer := rb\<rparr>, g)) (serve ws ps2c ms s g)"
proof (induction ms arbitrary: s g)
  case (Cons m ms)
  then show ?case
    by (cases "PC2S_Chat_handler ws ps2c m s g") (auto simp: handler_recvBuffer)
qed simp

lemma manager_ok:
  assumes "ClientSession_manager ws parse ps2c = Some mgr"
  shows "table_ok mgr"
    and "functor_at mgr = [PC2S_Chat_NUMBER \<mapsto> PacketFunctor_Handle parse (PC2S_Chat_handler ws ps2c)]"
  using init_eq [of "[(PC2S_Chat_NUMBER, PacketFunctor_Handle parse (PC2S_Chat_handler ws ps2c))]"] assms
  by (simp_all add: ClientSession_manager_def PC2S_Chat_NUMBER_def UINT16_MAX_def)

lemma manager_total: "\<exists>mgr. ClientSession_manager ws parse ps2c = Some mgr"
  using init_eq [of "[(PC2S_Chat_NUMBER, PacketFunctor_Handle parse (PC2S_Chat_handler ws ps2c))]"]
  by (auto simp: ClientSession_manager_def PC2S_Chat_NUMBER_def UINT16_MAX_def)

lemma recv_loop_idle:
  assumes "pb_ok (recvBuffer s)" and "\<not> frame_ready (contents (recvBuffer s))"
  shows "recv_loop mgr s g = Some (s, g)"
  using assms by (simp add: recv_loop.simps [of mgr s] pbq.ready_iff)

lemma length_front: "pb_ok pb \<Longrightarrow> frame_ready (contents pb) \<Longrightarrow> length (front pb) = frame_len (contents pb)"
  by (simp add: front_def frame_ready_def)

lemma recv_loop_chat_packet:
  assumes mgr: "ClientSession_manager ws parse ps2c = Some mgr"
    and ok: "pb_ok rb" and ready: "frame_ready (contents rb)" and p: "chat_packet parse (front rb) m"
  obtains rb' where "pb_ok rb'" and "contents rb' = drop (frame_len (contents rb)) (contents rb)"
    and "recv_loop mgr (s\<lparr>recvBuffer := rb\<rparr>) g =
      PC2S_Chat_handler ws ps2c m s g \<bind> (\<lambda>(_, s, g). recv_loop mgr (s\<lparr>recvBuffer := rb'\<rparr>) g)"
proof -
  have l: "4 \<le> frame_len (contents rb)"
    using p length_front [OF ok ready] by (simp add: chat_packet_def)
  have f: "functor_at mgr (frame_no (front rb)) = Some (PacketFunctor_Handle parse (PC2S_Chat_handler ws ps2c))"
    using manager_ok(2) [OF mgr] p by (simp add: chat_packet_def)
  obtain rb' where rb': "pb_ok rb'" "contents rb' = drop (frame_len (contents rb)) (contents rb)"
    "PacketFunctor_Handle parse (PC2S_Chat_handler ws ps2c) (s\<lparr>recvBuffer := rb\<rparr>) g rb =
      (case parse (frame_payload (front rb)) of
         None \<Rightarrow> Some (False, s\<lparr>recvBuffer := rb\<rparr>, g, rb)
       | Some m \<Rightarrow> map_option (\<lambda>(ok, s, g). (ok, s, g, rb')) (PC2S_Chat_handler ws ps2c m (s\<lparr>recvBuffer := rb\<rparr>) g))"
    by (rule PacketFunctor_Handle_eq [OF ok ready l])
  have H: "Handle mgr (s\<lparr>recvBuffer := rb\<rparr>) g rb =
      map_option (\<lambda>(_, s, g). (True, s\<lparr>recvBuffer := rb\<rparr>, g, rb')) (PC2S_Chat_handler ws ps2c m s g)"
    unfolding Handle_registered [OF ok ready l f] using rb'(3) p
    by (simp add: chat_packet_def handler_recvBuffer option.map_comp o_def split_beta)
       (simp add: PC2S_Chat_handler_eq option.map_comp o_def split_beta)
  have "recv_loop mgr (s\<lparr>recvBuffer := rb\<rparr>) g =
      PC2S_Chat_handler ws ps2c m s g \<bind> (\<lambda>(_, s, g). recv_loop mgr (s\<lparr>recvBuffer := rb'\<rparr>) g)"
    using ready by (subst recv_loop.simps)
      (cases "PC2S_Chat_handler ws ps2c m s g"; simp add: pbq.ready_iff [OF ok] H split_beta)
  with rb' that show ?thesis by blast
qed

lemma recv_loop_serves:
  assumes mgr: "ClientSession_manager ws parse ps2c = Some mgr"
  shows "pb_ok rb \<Longrightarrow> list_all2 (chat_packet parse) (fst (frames (contents rb))) ms \<Longrightarrow>
    \<exists>rb'. pb_ok rb' \<and> contents rb' = snd (frames (contents rb)) \<and>
      recv_loop mgr (s\<lparr>recvBuffer := rb\<rparr>) g =
        map_option (\<lambda>(s, g). (s\<lparr>recvBuffer := rb'\<rparr>, g)) (serve ws ps2c ms s g)"
proof (induction ms arbitrary: rb s g)
  case Nil
  then have "\<not> frame_ready (contents rb)"
    by (auto simp: frames_ready)
  then show ?case
    using Nil by (intro exI [of _ rb]) (simp add: recv_loop_idle frames_not_ready)
next
  case (Cons m ms)
  then have ready: "frame_ready (contents rb)"
    using frames_not_ready by force
  then have F: "fst (frames (contents rb)) = front rb # fst (frames (drop (frame_len (contents rb)) (contents rb)))"
    "snd (frames (contents rb)) = snd (frames (drop (frame_len (contents rb)) (contents rb)))"
    by (simp_all add: frames_ready front_def)
  then have p: "chat_packet parse (front rb) m" using Cons.prems(2) by simp
  obtain rb1 where rb1: "pb_ok rb1" "contents rb1 = drop (frame_len (contents rb)) (contents rb)"
    "recv_loop mgr (s\<lparr>recvBuffer := rb\<rparr>) g =
      PC2S_Chat_handler ws ps2c m s g \<bind> (\<lambda>(_, s, g). recv_loop mgr (s\<lparr>recvBuffer := rb1\<rparr>) g)"
    by (rule recv_loop_chat_packet [OF mgr Cons.prems(1) ready p])
  have ms: "list_all2 (chat_packet parse) (fst (frames (contents rb1))) ms"
    using Cons.prems(2) F rb1(2) by simp
  show ?case
  proof (cases "PC2S_Chat_handler ws ps2c m s g")
    case None
    obtain rb' where "pb_ok rb'" "contents rb' = snd (frames (contents rb1))"
      using Cons.IH [OF rb1(1) ms] by blast
    then show ?thesis using rb1 F None by auto
  next
    case (Some r)
    obtain ok s1 g1 where r: "r = (ok, s1, g1)" by (cases r)
    obtain rb' where "pb_ok rb'" "contents rb' = snd (frames (contents rb1))"
      "recv_loop mgr (s1\<lparr>recvBuffer := rb1\<rparr>) g1 =
        map_option (\<lambda>(s, g). (s\<lparr>recvBuffer := rb'\<rparr>, g)) (serve ws ps2c ms s1 g1)"
      using Cons.IH [OF rb1(1) ms] by blast
    then show ?thesis using rb1 F Some r by auto
  qed
qed

lemma ucast_of_nat16: "n \<le> 65535 \<Longrightarrow> (ucast (of_nat n :: uint32) :: uint16) = of_nat n"
proof -
  assume "n \<le> 65535"
  then have "unat (of_nat n :: uint32) = n" "unat (of_nat n :: uint16) = n"
    by (simp_all add: unat_of_nat take_bit_nat_eq_self_iff)
  moreover from \<open>n \<le> 65535\<close> have "take_bit 16 n = n" by (simp add: take_bit_nat_eq_self_iff)
  ultimately show ?thesis
    by (simp only: word_unat_eq_iff unsigned_ucast_eq len_num1 len_bit0) simp
qed

text \<open>\<open>OnRecv\<close> with the \<open>n\<close> bytes at the start of an array, when they fit.\<close>

lemma OnRecv_data:
  assumes ok: "pb_ok rb" and bs: "bs \<noteq> []" "length (contents rb) + length bs \<le> 65535"
  obtains rb' where "pb_ok rb'" and "contents rb' = contents rb @ bs"
    and "\<And>s g. OnRecv mgr (Some (bs @ junk)) (of_nat (length bs)) (s\<lparr>recvBuffer := rb\<rparr>) g =
      recv_loop mgr (s\<lparr>recvBuffer := rb'\<rparr>) g"
proof -
  let ?n = "of_nat (length bs) :: uint16"
  have le: "length bs \<le> 65535" using bs(2) by simp
  then have n: "unat ?n = length bs" "unat (of_nat (length bs) :: uint32) = length bs"
    by (simp_all add: unat_of_nat take_bit_nat_eq_self_iff)
  have "?n \<noteq> 0" "unat ?n \<le> length (bs @ junk)" "length (contents rb) + unat ?n \<le> 65535"
    using n(1) bs by (auto simp flip: unat_eq_0)
  then obtain rb' where "AppendBuffer (Some (bs @ junk)) ?n rb = Some (True, rb')" "pb_ok rb'"
    "contents rb' = contents rb @ take (unat ?n) (bs @ junk)"
    by (rule AppendBuffer_room [OF ok])
  then show ?thesis using that n le
    by (simp add: OnRecv_def MAX_BUF_SIZE_def ucast_of_nat16)
qed

text \<open>Data that does not fit is dropped, whether \<open>OnRecv\<close> or the buffer refuses it.\<close>

lemma OnRecv_no_room:
  assumes ok: "pb_ok rb" and bs: "bs = [] \<or> length (contents rb) + length bs > 65535" "length bs \<le> 65536"
  obtains rb' where "pb_ok rb'" and "contents rb' = contents rb"
    and "\<And>s g. OnRecv mgr (Some (bs @ junk)) (of_nat (length bs)) (s\<lparr>recvBuffer := rb\<rparr>) g =
      Some (s\<lparr>recvBuffer := rb'\<rparr>, g)"
proof -
  have n2: "unat (of_nat (length bs) :: uint32) = length bs"
    using bs(2) by (simp add: unat_of_nat take_bit_nat_eq_self_iff)
  consider "bs = []" | "length bs = 65536" | "bs \<noteq> []" "length bs \<le> 65535" using bs(2) by fastforce
  then show ?thesis
  proof cases
    case 1
    show ?thesis
      by (rule that [OF ok refl]) (simp add: 1 OnRecv_def AppendBuffer_def)
  next
    case 2
    show ?thesis
      by (rule that [OF ok refl]) (simp add: OnRecv_def MAX_BUF_SIZE_def n2 2)
  next
    case 3
    let ?n = "of_nat (length bs) :: uint16"
    have n: "unat ?n = length bs" using 3 by (simp add: unat_of_nat take_bit_nat_eq_self_iff)
    then have "?n \<noteq> 0" "length (contents rb) + unat ?n > 65535"
      using 3 bs by (auto simp flip: unat_eq_0)
    then obtain rb' where "AppendBuffer (Some (bs @ junk)) ?n rb = Some (False, rb')" "pb_ok rb'"
      "contents rb' = contents rb"
      by (rule AppendBuffer_full [OF ok])
    then show ?thesis using that 3 n2
      by (simp add: OnRecv_def MAX_BUF_SIZE_def ucast_of_nat16)
  qed
qed

section \<open>A stream of data in blocks\<close>

fun recv_all ::
  "(client_session, 'g) packet_handler_manager \<Rightarrow> byte list list \<Rightarrow> client_session \<Rightarrow> 'g \<Rightarrow>
   (client_session \<times> 'g) option"
where
  "recv_all mgr [] s g = Some (s, g)"
| "recv_all mgr (bs # blocks) s g = do {
     (s, g) \<leftarrow> OnRecv mgr (Some bs) (of_nat (length bs)) s g;
     recv_all mgr blocks s g
   }"

text \<open>Every block fits behind the incomplete packet that is left when it arrives.\<close>

fun blocks_fit :: "byte list \<Rightarrow> byte list list \<Rightarrow> bool" where
  "blocks_fit r [] = True"
| "blocks_fit r (bs # blocks) \<longleftrightarrow>
     bs \<noteq> [] \<and> length r + length bs \<le> 65535 \<and> blocks_fit (snd (frames (r @ bs))) blocks"

lemma recv_all_serves:
  assumes mgr: "ClientSession_manager ws parse ps2c = Some mgr"
  shows "pb_ok rb \<Longrightarrow> \<not> frame_ready (contents rb) \<Longrightarrow> blocks_fit (contents rb) blocks \<Longrightarrow>
    list_all2 (chat_packet parse) (fst (frames (contents rb @ concat blocks))) ms \<Longrightarrow>
    \<exists>rb'. pb_ok rb' \<and> contents rb' = snd (frames (contents rb @ concat blocks)) \<and>
      recv_all mgr blocks (s\<lparr>recvBuffer := rb\<rparr>) g =
        map_option (\<lambda>(s, g). (s\<lparr>recvBuffer := rb'\<rparr>, g)) (serve ws ps2c ms s g)"
proof (induction blocks arbitrary: rb ms s g)
  case Nil
  then show ?case by (intro exI [of _ rb]) (simp add: frames_not_ready)
next
  case (Cons bs blocks)
  obtain rb1 where rb1: "pb_ok rb1" "contents rb1 = contents rb @ bs"
    "\<And>s g. OnRecv mgr (Some (bs @ [])) (of_nat (length bs)) (s\<lparr>recvBuffer := rb\<rparr>) g = recv_loop mgr (s\<lparr>recvBuffer := rb1\<rparr>) g"
    by (rule OnRecv_data [OF Cons.prems(1), where junk = "[]"]) (use Cons.prems(3) in auto)
  let ?r = "snd (frames (contents rb1))"
  have split: "frames (contents rb @ concat (bs # blocks)) =
      (fst (frames (contents rb1)) @ fst (frames (?r @ concat blocks)), snd (frames (?r @ concat blocks)))"
    using frames_append [of "contents rb1" "concat blocks"] rb1(2) by simp
  then obtain ms1 ms2 where ms: "ms = ms1 @ ms2"
    "list_all2 (chat_packet parse) (fst (frames (contents rb1))) ms1"
    "list_all2 (chat_packet parse) (fst (frames (?r @ concat blocks))) ms2"
    using Cons.prems(4) by (auto simp: list_all2_append1)
  obtain rb2 where rb2: "pb_ok rb2" "contents rb2 = ?r"
    "recv_loop mgr (s\<lparr>recvBuffer := rb1\<rparr>) g =
       map_option (\<lambda>(s, g). (s\<lparr>recvBuffer := rb2\<rparr>, g)) (serve ws ps2c ms1 s g)"
    using recv_loop_serves [OF mgr rb1(1) ms(2)] by blast
  have rest: "\<not> frame_ready (contents rb2)" "blocks_fit (contents rb2) blocks"
    "list_all2 (chat_packet parse) (fst (frames (contents rb2 @ concat blocks))) ms2"
    using Cons.prems(3) rb1(2) rb2(2) ms(3) by (simp_all add: frames_rest_not_ready)
  show ?case
  proof (cases "serve ws ps2c ms1 s g")
    case None
    obtain rb' where "pb_ok rb'" "contents rb' = snd (frames (contents rb2 @ concat blocks))"
      using Cons.IH [OF rb2(1) rest] by blast
    then show ?thesis using rb1 rb2 None split ms(1) by (auto simp: serve_append)
  next
    case (Some r)
    obtain s1 g1 where r: "r = (s1, g1)" by (cases r)
    obtain rb' where "pb_ok rb'" "contents rb' = snd (frames (contents rb2 @ concat blocks))"
      "recv_all mgr blocks (s1\<lparr>recvBuffer := rb2\<rparr>) g1 =
        map_option (\<lambda>(s, g). (s\<lparr>recvBuffer := rb'\<rparr>, g)) (serve ws ps2c ms2 s1 g1)"
      using Cons.IH [OF rb2(1) rest] by blast
    then show ?thesis using rb1 rb2 Some r split ms(1) by (auto simp: serve_append)
  qed
qed

section \<open>A packet that cannot be handled\<close>

definition unhandled :: "(byte list \<Rightarrow> string option) \<Rightarrow> byte list \<Rightarrow> bool" where
  "unhandled parse p \<longleftrightarrow> 4 \<le> length p \<and> unat (frame_no p) < 65535 \<and>
     (frame_no p \<noteq> PC2S_Chat_NUMBER \<or> parse (frame_payload p) = None)"

lemma recv_loop_unhandled:
  assumes mgr: "ClientSession_manager ws parse ps2c = Some mgr"
    and ok: "pb_ok (recvBuffer s)" and ready: "frame_ready (contents (recvBuffer s))"
    and p: "unhandled parse (front (recvBuffer s))"
  shows "recv_loop mgr s g = Some (s, g)"
proof -
  let ?rb = "recvBuffer s"
  have l: "4 \<le> frame_len (contents ?rb)"
    using p length_front [OF ok ready] by (simp add: unhandled_def)
  have "Handle mgr s g ?rb = Some (False, s, g, ?rb)"
  proof (cases "frame_no (front ?rb) = PC2S_Chat_NUMBER")
    case True
    then have f: "functor_at mgr (frame_no (front ?rb)) = Some (PacketFunctor_Handle parse (PC2S_Chat_handler ws ps2c))"
      using manager_ok(2) [OF mgr] by simp
    have "PacketFunctor_Handle parse (PC2S_Chat_handler ws ps2c) s g ?rb = Some (False, s, g, ?rb)"
    proof (rule PacketFunctor_Handle_eq [OF ok ready l, where parse = parse and s = s and g = g
          and handler = "PC2S_Chat_handler ws ps2c"], goal_cases)
      case (1 rb')
      then show ?case using True p by (simp add: unhandled_def)
    qed
    then show ?thesis by (simp add: Handle_registered [OF ok ready l f])
  next
    case False
    then show ?thesis using p manager_ok [OF mgr]
      by (intro Handle_unregistered [OF ok ready l]) (auto simp: unhandled_def UINT16_MAX_def)
  qed
  then show ?thesis
    using first_frame_fields(1) [OF ok ready l] ready
    by (simp add: recv_loop.simps [of mgr s] pbq.ready_iff [OF ok])
qed

lemma front_append: "pb_ok pb \<Longrightarrow> frame_ready (contents pb) \<Longrightarrow> contents pb' = contents pb @ bs \<Longrightarrow>
    frame_ready (contents pb') \<and> front pb' = front pb"
  by (auto simp: front_def frame_ready_append frame_ready_def frame_len_append)

lemma OnRecv_unhandled:
  assumes mgr: "ClientSession_manager ws parse ps2c = Some mgr"
    and ok: "pb_ok rb" and ready: "frame_ready (contents rb)" and p: "unhandled parse (front rb)"
    and bs: "length bs \<le> 65536"
  obtains rb' where "pb_ok rb'" and "frame_ready (contents rb')" and "front rb' = front rb"
    and "\<And>s g. OnRecv mgr (Some bs) (of_nat (length bs)) (s\<lparr>recvBuffer := rb\<rparr>) g = Some (s\<lparr>recvBuffer := rb'\<rparr>, g)"
proof (cases "bs \<noteq> [] \<and> length (contents rb) + length bs \<le> 65535")
  case True
  then obtain rb' where rb': "pb_ok rb'" "contents rb' = contents rb @ bs"
    "\<And>s g. OnRecv mgr (Some (bs @ [])) (of_nat (length bs)) (s\<lparr>recvBuffer := rb\<rparr>) g = recv_loop mgr (s\<lparr>recvBuffer := rb'\<rparr>) g"
    by (metis OnRecv_data [OF ok])
  note F = front_append [OF ok ready rb'(2)]
  have "recv_loop mgr (s\<lparr>recvBuffer := rb'\<rparr>) g = Some (s\<lparr>recvBuffer := rb'\<rparr>, g)" for s g
    using recv_loop_unhandled [OF mgr, of "s\<lparr>recvBuffer := rb'\<rparr>" g] rb'(1) F p by simp
  then show ?thesis using that [OF rb'(1)] F rb'(3) by simp
next
  case False
  then have no: "bs = [] \<or> length (contents rb) + length bs > 65535" by auto
  obtain rb' where rb': "pb_ok rb'" "contents rb' = contents rb"
    "\<And>s g. OnRecv mgr (Some (bs @ [])) (of_nat (length bs)) (s\<lparr>recvBuffer := rb\<rparr>) g = Some (s\<lparr>recvBuffer := rb'\<rparr>, g)"
    by (rule OnRecv_no_room [OF ok no bs, where junk = "[]" and mgr = mgr]) blast
  then show ?thesis using that [OF rb'(1)] ready by (simp add: front_def)
qed

lemma recv_all_unhandled:
  assumes mgr: "ClientSession_manager ws parse ps2c = Some mgr"
  shows "pb_ok rb \<Longrightarrow> frame_ready (contents rb) \<Longrightarrow> unhandled parse (front rb) \<Longrightarrow>
    \<forall>bs \<in> set blocks. length bs \<le> 65536 \<Longrightarrow>
    \<exists>rb'. recv_all mgr blocks (s\<lparr>recvBuffer := rb\<rparr>) g = Some (s\<lparr>recvBuffer := rb'\<rparr>, g)"
proof (induction blocks arbitrary: rb s)
  case (Cons bs blocks)
  obtain rb1 where "pb_ok rb1" "frame_ready (contents rb1)" "front rb1 = front rb"
    "\<And>s g. OnRecv mgr (Some bs) (of_nat (length bs)) (s\<lparr>recvBuffer := rb\<rparr>) g = Some (s\<lparr>recvBuffer := rb1\<rparr>, g)"
    by (rule OnRecv_unhandled [OF mgr Cons.prems(1-3), of bs]) (use Cons.prems(4) in auto)
  then show ?case using Cons.IH [of rb1 s] Cons.prems by auto
qed auto

section \<open>The replies\<close>

text \<open>The replies to a list of messages, when the counter is at \<open>n\<close>.\<close>

fun reply_frames :: "(string \<Rightarrow> byte list) \<Rightarrow> uint16 \<Rightarrow> uint64 \<Rightarrow> string list \<Rightarrow> byte list list" where
  "reply_frames ser no n [] = []"
| "reply_frames ser no n (m # ms) = frame no (ser (reply_text m (n + 1))) # reply_frames ser no (n + 1) ms"

definition send_all :: "('w, 'z) winsock_scheme \<Rightarrow> SOCKET \<Rightarrow> byte list list \<Rightarrow> 'w \<Rightarrow> 'w" where
  "send_all ws sock = fold (\<lambda>bs w. snd (ws_send ws sock bs w))"

definition sends_ok :: "('w, 'z) winsock_scheme \<Rightarrow> SOCKET \<Rightarrow> bool" where
  "sends_ok ws sock \<longleftrightarrow> (\<forall>bs w. fst (ws_send ws sock bs w) \<noteq> SOCKET_ERROR)"

definition replies_fit :: "(string, 'z) packet_class_scheme \<Rightarrow> (string \<Rightarrow> byte list) \<Rightarrow> string list \<Rightarrow> bool" where
  "replies_fit C ser ms \<longleftrightarrow> (\<forall>m \<in> set ms. \<forall>n. serializes C (reply_text m n) (ser (reply_text m n)) \<and>
     ser (reply_text m n) \<noteq> [] \<and> length (ser (reply_text m n)) \<le> 65531)"

lemma serve_replies:
  assumes "sends_ok ws (client_sock s)"
  shows "pb_ok (sendBuffer s) \<Longrightarrow> contents (sendBuffer s) = [] \<Longrightarrow> replies_fit ps2c ser ms \<Longrightarrow>
    \<exists>sb. pb_ok sb \<and> contents sb = [] \<and> serve ws ps2c ms s g =
      Some (s\<lparr>sendBuffer := sb\<rparr>,
        g\<lparr>count := count g + of_nat (length ms),
          net := send_all ws (client_sock s) (reply_frames ser (PROTOCOL_NUMBER ps2c) (count g) ms) (net g)\<rparr>)"
  using assms
proof (induction ms arbitrary: s g)
  case Nil
  then show ?case by (intro exI [of _ "sendBuffer s"]) (simp add: send_all_def)
next
  case (Cons m ms)
  let ?t = "reply_text m (count g + 1)"
  have t: "serializes ps2c ?t (ser ?t)" "ser ?t \<noteq> []" "length (ser ?t) \<le> 65531"
    using Cons.prems(3) by (simp_all add: replies_fit_def)
  have room: "length (frames_of []) + 4 + length (ser ?t) \<le> 65535" using t(3) by simp
  obtain sb r w' where sb: "pb_ok sb"
    "ws_send ws (client_sock s) (frame (PROTOCOL_NUMBER ps2c) (ser ?t)) (net g) = (r, w')"
    "SendPacket ws ps2c ?t s (net g) = Some (r \<noteq> SOCKET_ERROR, s\<lparr>sendBuffer := sb\<rparr>, w')"
    "contents sb = frames_of (if r = SOCKET_ERROR then [(PROTOCOL_NUMBER ps2c, ser ?t)] else [])"
    using SendPacket_queue [OF Cons.prems(1), of "[]", OF _ _ t(1,2) room, of ws "net g"] Cons.prems(2) by auto
  have r: "r \<noteq> SOCKET_ERROR"
    using Cons.prems(4) sb(2) unfolding sends_ok_def by (metis fst_conv)
  let ?s = "s\<lparr>sendBuffer := sb\<rparr>" and ?g = "g\<lparr>count := count g + 1, net := w'\<rparr>"
  have "contents (sendBuffer ?s) = []" using sb(4) r by simp
  moreover have "replies_fit ps2c ser ms" using Cons.prems(3) by (simp add: replies_fit_def)
  ultimately obtain sb' where "pb_ok sb'" "contents sb' = []"
    "serve ws ps2c ms ?s ?g = Some (?s\<lparr>sendBuffer := sb'\<rparr>,
        ?g\<lparr>count := count ?g + of_nat (length ms),
          net := send_all ws (client_sock ?s) (reply_frames ser (PROTOCOL_NUMBER ps2c) (count ?g) ms) (net ?g)\<rparr>)"
    using Cons.IH [of ?s ?g] sb(1) Cons.prems(4) by auto
  then show ?case using sb(2,3)
    by (intro exI [of _ sb']) (simp add: PC2S_Chat_handler_eq send_all_def algebra_simps)
qed

section \<open>Concrete instances\<close>

text \<open>A message class whose serialization is the message, and its parser, for the examples.\<close>

definition text_bytes :: "string \<Rightarrow> byte list" where
  "text_bytes m = map of_char m"

definition text_packet :: "string packet_class" where
  "text_packet =
     \<lparr>ByteSize = (\<lambda>m. int (length m)),
      SerializeToArray = (\<lambda>m buf n. if length m \<le> length buf
        then Some (True, text_bytes m @ drop (length m) buf) else Some (False, buf)),
      PROTOCOL_NUMBER = PS2C_Chat_NUMBER\<rparr>"

definition text_parse :: "byte list \<Rightarrow> string option" where
  "text_parse bs = Some (map (\<lambda>b. char_of (unat b)) bs)"

lemma serializes_text_packet [simp]: "serializes text_packet m (text_bytes m)"
  by (simp add: serializes_def text_packet_def text_bytes_def MAX_BUF_SIZE_def)

definition new_session :: "SOCKET \<Rightarrow> client_session" where
  "new_session sock = \<lparr>client_sock = sock, clientAddr = (0, 0),
     recvBuffer = PacketBuffer_init, sendBuffer = PacketBuffer_init\<rparr>"

lemma new_session_recvBuffer: "new_session sock = (new_session sock)\<lparr>recvBuffer := PacketBuffer_init\<rparr>"
  by (simp add: new_session_def)

text \<open>A packet with the message "hi", received in two blocks.\<close>

definition hi_blocks :: "byte list list" where
  "hi_blocks = [[6, 0, 0], [0, 104, 105]]"

definition idle_process :: "(byte list list \<times> byte list list) process" where
  "idle_process = \<lparr>count = 0, net = ([], [])\<rparr>"

lemma hi_frames: "frames [6, 0, 0, 0, 104, 105] = ([[6, 0, 0, 0, 104, 105]], [])" "frames [6, 0, 0] = ([], [6, 0, 0])"
  by (simp_all add: frames_ready frames_not_ready frame_ready_def frame_len_def of_le16_def)

lemma hi_blocks_ok:
  "blocks_fit [] hi_blocks" "list_all2 (chat_packet text_parse) (fst (frames (concat hi_blocks))) [''hi'']"
proof -
  show "blocks_fit [] hi_blocks" by (simp add: hi_blocks_def hi_frames)
  have "chat_packet text_parse [6, 0, 0, 0, 104, 105] ''hi''"
    by (simp add: chat_packet_def frame_no_def of_le16_def PC2S_Chat_NUMBER_def text_parse_def frame_payload_def)
       (code_simp)
  then show "list_all2 (chat_packet text_parse) (fst (frames (concat hi_blocks))) [''hi'']"
    by (simp add: hi_blocks_def hi_frames)
qed

lemma hi_replies_fit: "replies_fit text_packet text_bytes [''hi'']"
proof -
  have "length (reply_text ''hi'' n) \<le> 23" for n
    using length_decimal_64 [of n] by (simp add: reply_text_def)
  then have "length (reply_text ''hi'' n) \<le> 65531" for n by (meson le_trans numeral_le_iff semiring_norm)
  then show ?thesis
    by (simp add: replies_fit_def) (simp add: text_bytes_def reply_text_def)
qed

section \<open>Properties\<close>



text \<open>
  C1. On a network that does not fail to send, and with replies that fit into a packet, a new session answers each
  received message with one reply packet, in order: the message, a comma and the running number.
  Its send buffer is empty afterwards and the counter has advanced by the number of messages.
\<close>

theorem session_echoes_numbered_messages:
  assumes "ClientSession_manager ws parse ps2c = Some mgr"
    and "recvBuffer s = PacketBuffer_init" and "sendBuffer s = PacketBuffer_init"
    and "blocks_fit [] blocks" and "list_all2 (chat_packet parse) (fst (frames (concat blocks))) ms"
    and "sends_ok ws (client_sock s)" and "replies_fit ps2c ser ms"
  shows "\<exists>s' g'. recv_all mgr blocks s g = Some (s', g') \<and>
    contents (recvBuffer s') = snd (frames (concat blocks)) \<and> contents (sendBuffer s') = [] \<and>
    count g' = count g + of_nat (length ms) \<and>
    net g' = send_all ws (client_sock s) (reply_frames ser (PROTOCOL_NUMBER ps2c) (count g) ms) (net g)"
proof -
  have s: "s = s\<lparr>recvBuffer := PacketBuffer_init\<rparr>" using assms(2) by simp
  have nr: "\<not> frame_ready []" by (simp add: frame_ready_def)
  obtain rb where rb: "contents rb = snd (frames (concat blocks))"
    "recv_all mgr blocks s g = map_option (\<lambda>(s, g). (s\<lparr>recvBuffer := rb\<rparr>, g)) (serve ws ps2c ms s g)"
    using recv_all_serves [OF assms(1) pb_ok_init, of blocks ms s g] assms(4,5) nr s by auto
  obtain sb where "contents sb = []" "serve ws ps2c ms s g =
      Some (s\<lparr>sendBuffer := sb\<rparr>, g\<lparr>count := count g + of_nat (length ms),
        net := send_all ws (client_sock s) (reply_frames ser (PROTOCOL_NUMBER ps2c) (count g) ms) (net g)\<rparr>)"
    using serve_replies [OF assms(6) _ _ assms(7)] assms(3) by auto
  with rb show ?thesis by simp
qed

theorem session_echoes_numbered_messages_witness:
  "\<exists>mgr s' g'. ClientSession_manager script_net text_parse text_packet = Some mgr \<and>
    recv_all mgr hi_blocks (new_session 2) idle_process = Some (s', g') \<and>
    contents (recvBuffer s') = snd (frames (concat hi_blocks)) \<and> contents (sendBuffer s') = [] \<and>
    count g' = count idle_process + of_nat (length [''hi'']) \<and>
    net g' = send_all script_net (client_sock (new_session 2))
      (reply_frames text_bytes (PROTOCOL_NUMBER text_packet) (count idle_process) [''hi'']) (net idle_process)"
proof -
  obtain mgr where mgr: "ClientSession_manager script_net text_parse text_packet = Some mgr"
    using manager_total by blast
  have sends: "sends_ok script_net (client_sock (new_session 2))"
    by (auto simp: sends_ok_def script_net_def SOCKET_ERROR_def)
  note fit = hi_replies_fit
  have new: "recvBuffer (new_session 2) = PacketBuffer_init" "sendBuffer (new_session 2) = PacketBuffer_init"
    by (simp_all add: new_session_def)
  from session_echoes_numbered_messages [OF mgr new hi_blocks_ok sends fit, of idle_process] mgr
  show ?thesis by blast
qed

text \<open>
  The send buffer is a first-in first-out queue. A call of \<open>SendPacket\<close> queues its packet and sends the
  one at the front, so after a send has failed once, every later call sends the packet of an
  earlier call instead of its own.
\<close>

theorem SendPacket_sends_oldest:
  assumes "pb_ok (sendBuffer s)" and "contents (sendBuffer s) = frames_of ps"
    and "\<forall>(no, p) \<in> set ps. length p \<le> 65531" and "serializes C m payload" and "payload \<noteq> []"
    and "length (frames_of ps) + 4 + length payload \<le> 65535"
  shows "\<exists>sb r w'. pb_ok sb \<and>
    ws_send ws (client_sock s) (case hd (ps @ [(PROTOCOL_NUMBER C, payload)]) of (no, p) \<Rightarrow> frame no p) w = (r, w') \<and>
    SendPacket ws C m s w = Some (r \<noteq> SOCKET_ERROR, s\<lparr>sendBuffer := sb\<rparr>, w') \<and>
    contents sb = frames_of (if r = SOCKET_ERROR then ps @ [(PROTOCOL_NUMBER C, payload)]
      else tl (ps @ [(PROTOCOL_NUMBER C, payload)]))"
  by (rule SendPacket_queue [OF assms])

theorem SendPacket_sends_oldest_witness:
  "\<exists>sb r w'. pb_ok sb \<and>
    ws_send script_net (client_sock (new_session 2\<lparr>sendBuffer := filled_buffer (frames_of [(0, [1])])\<rparr>))
      (case hd ([(0, [1])] @ [(PROTOCOL_NUMBER raw_packet, [2])]) of (no, p) \<Rightarrow> frame no p) ([], []) = (r, w') \<and>
    SendPacket script_net raw_packet [2] (new_session 2\<lparr>sendBuffer := filled_buffer (frames_of [(0, [1])])\<rparr>) ([], []) =
      Some (r \<noteq> SOCKET_ERROR, new_session 2\<lparr>sendBuffer := filled_buffer (frames_of [(0, [1])])\<rparr>\<lparr>sendBuffer := sb\<rparr>, w') \<and>
    contents sb = frames_of (if r = SOCKET_ERROR then [(0, [1])] @ [(PROTOCOL_NUMBER raw_packet, [2])]
      else tl ([(0, [1])] @ [(PROTOCOL_NUMBER raw_packet, [2])]))"
  by (rule SendPacket_sends_oldest) simp_all

text \<open>
  C35. A packet without a handler, or whose payload does not parse, is never taken off the receive
  buffer: nothing that is received after it is ever handled.
\<close>

theorem unhandled_packet_blocks_session:
  assumes "ClientSession_manager ws parse ps2c = Some mgr"
    and "pb_ok (recvBuffer s)" and "frame_ready (contents (recvBuffer s))" and "unhandled parse (front (recvBuffer s))"
    and "\<forall>bs \<in> set blocks. length bs \<le> 65536"
  shows "\<exists>rb. recv_all mgr blocks s g = Some (s\<lparr>recvBuffer := rb\<rparr>, g)"
  using recv_all_unhandled [OF assms, of s g] by simp

theorem unhandled_packet_blocks_session_witness:
  "\<exists>mgr rb. ClientSession_manager script_net text_parse text_packet = Some mgr \<and>
    recv_all mgr hi_blocks (new_session 2\<lparr>recvBuffer := filled_buffer (frame 3 [] @ [])\<rparr>) idle_process =
      Some (new_session 2\<lparr>recvBuffer := filled_buffer (frame 3 [] @ [])\<rparr>\<lparr>recvBuffer := rb\<rparr>, idle_process)"
proof -
  obtain mgr where mgr: "ClientSession_manager script_net text_parse text_packet = Some mgr"
    using manager_total by blast
  let ?s = "new_session 2\<lparr>recvBuffer := filled_buffer (frame 3 [] @ [])\<rparr>"
  have ok: "pb_ok (recvBuffer ?s)" "frame_ready (contents (recvBuffer ?s))" "unhandled text_parse (front (recvBuffer ?s))"
    using frame_ready_frame [of "[]" 3 "[]"] frame_len_frame [of "[]" 3 "[]"]
    by (simp_all add: front_def unhandled_def PC2S_Chat_NUMBER_def)
  have bs: "\<forall>bs \<in> set hi_blocks. length bs \<le> 65536" by (simp add: hi_blocks_def)
  from unhandled_packet_blocks_session [OF mgr ok bs, of idle_process] mgr show ?thesis by blast
qed

text \<open>
  A reply of 65532 bytes is refused, but leaves a header with packet size 0 in the send buffer;
  from then on a call of \<open>SendPacket\<close> sends no bytes at all and still returns true.
\<close>

theorem oversized_reply_blocks_sending:
  assumes "pb_ok (sendBuffer s)" and "contents (sendBuffer s) = []" and "unat (writePos (sendBuffer s)) + 4 \<le> 65535"
    and "serializes C m payload" and "length payload = 65532"
    and "serializes C m' payload'" and "payload' \<noteq> []" and "length payload' \<le> 65527"
  shows "\<exists>s1 s2 r w'. SendPacket ws C m s w = Some (False, s1, w) \<and> ws_send ws (client_sock s) [] w = (r, w') \<and>
    SendPacket ws C m' s1 w = Some (r \<noteq> SOCKET_ERROR, s2, w')"
proof -
  have ser: "SerializeToArray C m (replicate MAX_BUF_SIZE 0) (int MAX_BUF_SIZE) =
      Some (True, payload @ replicate (65535 - length payload) 0)" and k: "ByteSize C m = 65532"
    using assms(4,5) by (simp_all add: serializes_def)
  have "\<exists>pb'. SetPacket C m (sendBuffer s) = Some (False, pb') \<and> pb_ok pb' \<and>
      contents pb' = contents (sendBuffer s) @ le16 (of_nat (nat (ByteSize C m) - 65532)) @ le16 (PROTOCOL_NUMBER C)"
    by (rule SetPacket_wrapped [OF assms(1) _ _ assms(3) ser]) (use k assms(5) in simp_all)
  then obtain sb where sb: "SetPacket C m (sendBuffer s) = Some (False, sb)" "pb_ok sb"
    "contents sb = le16 0 @ le16 (PROTOCOL_NUMBER C)"
    using k assms(2) by auto
  let ?s1 = "s\<lparr>sendBuffer := sb\<rparr>"
  have 1: "SendPacket ws C m s w = Some (False, ?s1, w)" using sb(1) by (simp add: SendPacket_def)
  have "frame_len (contents (sendBuffer ?s1)) = 0" using sb(3) by (simp add: frame_len_def)
  moreover have "length (contents (sendBuffer ?s1)) + 4 + length payload' \<le> 65535" using sb(3) assms(8) by simp
  ultimately obtain sb2 r w' where "ws_send ws (client_sock ?s1) [] w = (r, w')"
    "SendPacket ws C m' ?s1 w = Some (r \<noteq> SOCKET_ERROR, ?s1\<lparr>sendBuffer := sb2\<rparr>, w')"
    using SendPacket_stuck [of ?s1 C m' payload' ws w] sb assms(6,7) by auto
  with 1 show ?thesis by auto
qed

theorem oversized_reply_blocks_sending_witness:
  "\<exists>s1 s2 r w'. SendPacket script_net raw_packet (replicate 65532 0) (new_session 2) ([], []) = Some (False, s1, ([], [])) \<and>
    ws_send script_net (client_sock (new_session 2)) [] ([], []) = (r, w') \<and>
    SendPacket script_net raw_packet [1] s1 ([], []) = Some (r \<noteq> SOCKET_ERROR, s2, w')"
  by (rule oversized_reply_blocks_sending [where payload = "replicate 65532 0" and payload' = "[1]"])
     (simp_all add: new_session_def, simp add: PacketBuffer_init_def)

end
