(* ===== verification/Server.thy ===== *)
theory Server
  imports ClientSession
begin

text \<open>
  MServer/Singleton.h, NetworkEngine.cpp, ServerSession.cpp and main.cpp: setting up the listening socket, and the
  main loop that serves one client after the other. The loop has no end, so it is a step relation: a
  step is one pass of the outer loop up to the inner one, or one pass of the inner loop. The log lines are
  output only and left out.
\<close>

section \<open>Singleton and NetworkEngine\<close>

text \<open>\<open>Singleton::Inst\<close>: the static pointer (\<open>None\<close> is null) and a new object for the first call.\<close>

definition Singleton_Inst :: "'a \<Rightarrow> 'a option \<Rightarrow> 'a \<times> 'a option" where
  "Singleton_Inst fresh instance_ptr =
     (let instance_ptr = (if instance_ptr = None then Some fresh else instance_ptr) in (the instance_ptr, instance_ptr))"

definition InitWSA :: "('w, 'z) winsock_scheme \<Rightarrow> 'w \<Rightarrow> bool \<times> 'w" where
  "InitWSA ws w = (case ws_startup ws w of (r, w) \<Rightarrow> if r \<noteq> 0 then (False, w) else (True, w))"

definition ReleaseWSA :: "('w, 'z) winsock_scheme \<Rightarrow> 'w \<Rightarrow> 'w" where
  "ReleaseWSA ws w = ws_cleanup ws w"

section \<open>ServerSession\<close>

record server_session =
  listen_sock :: SOCKET

definition SERVER_PORT :: uint16 where
  "SERVER_PORT = 9000"

definition INADDR_ANY :: uint32 where
  "INADDR_ANY = 0"

definition InitSocket :: "('w, 'z) winsock_scheme \<Rightarrow> server_session \<Rightarrow> 'w \<Rightarrow> bool \<times> server_session \<times> 'w" where
  "InitSocket ws s w = (case ws_socket ws w of (sock, w) \<Rightarrow>
     let s = s\<lparr>listen_sock := sock\<rparr> in
     if listen_sock s = INVALID_SOCKET then (False, s, w) else (True, s, w))"

definition Bind :: "('w, 'z) winsock_scheme \<Rightarrow> server_session \<Rightarrow> 'w \<Rightarrow> bool \<times> server_session \<times> 'w" where
  "Bind ws s w = (case ws_bind ws (listen_sock s) SERVER_PORT INADDR_ANY w of (retval, w) \<Rightarrow>
     if retval = SOCKET_ERROR then (False, s, w) else (True, s, w))"

definition Listen :: "('w, 'z) winsock_scheme \<Rightarrow> server_session \<Rightarrow> 'w \<Rightarrow> bool \<times> server_session \<times> 'w" where
  "Listen ws s w = (case ws_listen ws (listen_sock s) w of (retval, w) \<Rightarrow>
     if retval = SOCKET_ERROR then (False, s, w) else (True, s, w))"

definition ServerSession_InitSession ::
  "('w, 'z) winsock_scheme \<Rightarrow> server_session \<Rightarrow> 'w \<Rightarrow> bool \<times> server_session \<times> 'w" where
  "ServerSession_InitSession ws s w =
     (case InitSocket ws s w of (ok, s, w) \<Rightarrow>
        if \<not> ok then (False, s, w)
        else case Bind ws s w of (ok, s, w) \<Rightarrow>
          if \<not> ok then (False, s, w)
          else case Listen ws s w of (ok, s, w) \<Rightarrow>
            if \<not> ok then (False, s, w) else (True, s, w))"

definition ServerSession_CloseSession :: "('w, 'z) winsock_scheme \<Rightarrow> server_session \<Rightarrow> 'w \<Rightarrow> 'w" where
  "ServerSession_CloseSession ws s w = ws_closesocket ws (listen_sock s) w"

definition GetSocket :: "server_session \<Rightarrow> SOCKET" where
  "GetSocket s = listen_sock s"

section \<open>The main function\<close>

text \<open>
  Where the program is: at the call of \<open>accept\<close> or of \<open>recv\<close>, returned, or ended by a memory fault.
\<close>

datatype main_pc = At_accept | At_recv | Returned int | Faulted

record 'w server =
  pc :: main_pc
  server_sess :: server_session
  client_sess :: client_session
  proc :: "'w process"

text \<open>The code before the loop; \<open>sock0\<close> and \<open>c0\<close> are the values of members that are not initialized.\<close>

definition main_init ::
  "('w, 'z) winsock_scheme \<Rightarrow> SOCKET \<Rightarrow> client_session \<Rightarrow> 'w \<Rightarrow> 'w server"
where
  "main_init ws sock0 c0 w = (
     let c = c0\<lparr>recvBuffer := PacketBuffer_init, sendBuffer := PacketBuffer_init\<rparr>;
         ss = \<lparr>listen_sock = sock0\<rparr> in
     case InitWSA ws w of (ok, w) \<Rightarrow>
       if \<not> ok then \<lparr>pc = Returned (- 1), server_sess = ss, client_sess = c, proc = \<lparr>count = 0, net = w\<rparr>\<rparr>
       else case ServerSession_InitSession ws ss w of (ok, ss, w) \<Rightarrow>
         if \<not> ok then \<lparr>pc = Returned (- 1), server_sess = ss, client_sess = c, proc = \<lparr>count = 0, net = w\<rparr>\<rparr>
         else \<lparr>pc = At_accept, server_sess = ss, client_sess = c, proc = \<lparr>count = 0, net = w\<rparr>\<rparr>)"

text \<open>One pass of the inner loop: the array is cleared, filled by \<open>recv\<close> and handed to the session.\<close>

definition RECV_SIZE :: nat where
  "RECV_SIZE = MAX_BUF_SIZE + 1"

definition recv_step ::
  "('w, 'z) winsock_scheme \<Rightarrow> (client_session, 'w process) packet_handler_manager \<Rightarrow> 'w server \<Rightarrow> 'w server"
where
  "recv_step ws mgr st = (let s = client_sess st; g = proc st in
     case ws_recv ws (GetClientSocket s) RECV_SIZE (net g) of (retval, bs, w) \<Rightarrow>
       case mem_write 0 bs (replicate RECV_SIZE 0) of
         None \<Rightarrow> st\<lparr>pc := Faulted\<rparr>
       | Some buf \<Rightarrow>
           if retval = SOCKET_ERROR then
             st\<lparr>pc := At_accept, proc := g\<lparr>net := CloseSession ws s w\<rparr>\<rparr>
           else case OnRecv mgr (Some buf) (word_of_int retval) s (g\<lparr>net := w\<rparr>) of
             None \<Rightarrow> st\<lparr>pc := Faulted\<rparr>
           | Some (s, g) \<Rightarrow> st\<lparr>client_sess := s, proc := g\<rparr>)"

text \<open>The pass of the outer loop up to the inner loop.\<close>

definition accept_step :: "('w, 'z) winsock_scheme \<Rightarrow> 'w server \<Rightarrow> 'w server" where
  "accept_step ws st =
     (case InitSession ws (GetSocket (server_sess st)) (client_sess st) (net (proc st)) of (ok, s, w) \<Rightarrow>
        st\<lparr>pc := if ok then At_recv else At_accept, client_sess := s, proc := (proc st)\<lparr>net := w\<rparr>\<rparr>)"

inductive main_step ::
  "('w, 'z) winsock_scheme \<Rightarrow> (client_session, 'w process) packet_handler_manager \<Rightarrow> 'w server \<Rightarrow> 'w server \<Rightarrow> bool"
  for ws mgr
where
  accept: "pc st = At_accept \<Longrightarrow> main_step ws mgr st (accept_step ws st)"
| recv: "pc st = At_recv \<Longrightarrow> main_step ws mgr st (recv_step ws mgr st)"

inductive_cases main_stepE: "main_step ws mgr st st'"
inductive_simps main_step_simps: "main_step ws mgr st st'"

inductive main_reaches ::
  "('w, 'z) winsock_scheme \<Rightarrow> (client_session, 'w process) packet_handler_manager \<Rightarrow> 'w server \<Rightarrow> 'w server \<Rightarrow> bool"
  for ws mgr st
where
  start: "main_reaches ws mgr st st"
| step: "main_reaches ws mgr st st1 \<Longrightarrow> main_step ws mgr st1 st2 \<Longrightarrow> main_reaches ws mgr st st2"

section \<open>What every operation keeps\<close>

text \<open>The session invariant: both buffers satisfy theirs. The socket only changes in \<open>InitSession\<close>.\<close>

definition session_ok :: "SOCKET \<Rightarrow> client_session \<Rightarrow> bool" where
  "session_ok k s \<longleftrightarrow> pb_ok (recvBuffer s) \<and> pb_ok (sendBuffer s) \<and> client_sock s = k"

lemma SendPacket_ok:
  assumes ok: "session_ok k s" and a: "SendPacket ws C m s w = Some (r, s', w')"
  shows "session_ok k s'"
proof -
  obtain ok1 sb where set: "SetPacket C m (sendBuffer s) = Some (ok1, sb)"
    using a unfolding SendPacket_def by (cases "SetPacket C m (sendBuffer s)") auto
  then have 1: "SetPacket C m (sendBuffer s) = Some (ok1, sb)" "pb_ok sb"
    using ok SetPacket_ok [OF _ set] by (simp_all add: session_ok_def)
  show ?thesis
  proof (cases ok1)
    case False
    then show ?thesis using a 1 ok by (auto simp: SendPacket_def session_ok_def)
  next
    case True
    then obtain n bs where "GetPacketSize sb = Some n" "mem_read (GetPacketBuffer sb) (unat n) (buffer sb) = Some bs"
      using a 1 by (auto simp: SendPacket_def bind_Some_iff Let_def)
    moreover obtain r1 w1 where "ws_send ws (client_sock s) bs w = (r1, w1)" by (cases "ws_send ws (client_sock s) bs w")
    ultimately show ?thesis
      using a 1 True ok ConsumePacket_keeps [OF 1(2)]
      by (auto simp: SendPacket_def session_ok_def bind_Some_iff Let_def split: if_splits)
  qed
qed

lemma handler_ok:
  "session_ok k s \<Longrightarrow> PC2S_Chat_handler ws ps2c m s g = Some (r, s', g') \<Longrightarrow> session_ok k s'"
  by (auto simp: PC2S_Chat_handler_eq dest: SendPacket_ok)

lemma chat_functor_ok:
  assumes ok: "session_ok k s" "pb_ok rb"
    and a: "PacketFunctor_Handle parse (PC2S_Chat_handler ws ps2c) s g rb = Some (r, s', g', rb')"
  shows "session_ok k s' \<and> pb_ok rb'"
  using a ok ConsumePacket_keeps [OF ok(2)] handler_ok
  by (fastforce simp: PacketFunctor_Handle_def bind_Some_iff split: option.splits)

lemma Handle_ok:
  assumes mgr: "ClientSession_manager ws parse ps2c = Some mgr"
    and ok: "session_ok k s" "pb_ok rb" and a: "Handle mgr s g rb = Some (r, s', g', rb')"
  shows "session_ok k s' \<and> pb_ok rb'"
proof -
  obtain no where no: "GetPacketNo rb = Some no" using a by (auto simp: Handle_def bind_Some_iff)
  have f: "mem_get (unat no) mgr = Some slot \<Longrightarrow> slot = functor_at mgr no" for slot
    by (auto simp: mem_get_def functor_at_def split: if_splits)
  show ?thesis
  proof (cases "no = PC2S_Chat_NUMBER")
    case True
    then have "PacketFunctor_Handle parse (PC2S_Chat_handler ws ps2c) s g rb = Some (r, s', g', rb')"
      using a no f manager_ok(2) [OF mgr] by (auto simp: Handle_def bind_Some_iff)
    then show ?thesis by (rule chat_functor_ok [OF ok])
  next
    case False
    then show ?thesis
      using a no f manager_ok(2) [OF mgr] ok by (auto simp: Handle_def bind_Some_iff)
  qed
qed

lemma recv_loop_ok:
  assumes "ClientSession_manager ws parse ps2c = Some mgr"
    and "recv_loop mgr s g = Some y" and "session_ok k s"
  shows "session_ok k (fst y)"
proof -
  have "ClientSession_manager ws parse ps2c = Some mgr \<longrightarrow> session_ok k s \<longrightarrow> session_ok k (fst y)"
    using assms(2)
  proof (rule recv_loop.raw_induct [rotated], goal_cases)
    case step: (1 rec mgr s g y)
    show ?case
    proof (intro impI)
      assume mgr: "ClientSession_manager ws parse ps2c = Some mgr" and ok: "session_ok k s"
      then have rb: "pb_ok (recvBuffer s)" by (simp add: session_ok_def)
      show "session_ok k (fst y)"
      proof (cases "IsAbleToGetPacket (recvBuffer s) = Some True")
        case False
        then show ?thesis using step(2) ok by (auto simp: bind_Some_iff)
      next
        case True
        then obtain r s1 g1 rb1 where H: "Handle mgr s g (recvBuffer s) = Some (r, s1, g1, rb1)"
          using step(2) by (auto simp: bind_Some_iff)
        have "session_ok k s1 \<and> pb_ok rb1" by (rule Handle_ok [OF mgr ok rb H])
        then have s1: "session_ok k (s1\<lparr>recvBuffer := rb1\<rparr>)" by (simp add: session_ok_def)
        show ?thesis
        proof (cases r)
          case False
          then show ?thesis using step(2) True H s1 by (auto simp: bind_Some_iff)
        next
          case r: True
          then have "rec mgr (s1\<lparr>recvBuffer := rb1\<rparr>) g1 = Some y" using step(2) True H by simp
          from step(1) [OF this] mgr s1 show ?thesis by simp
        qed
      qed
    qed
  qed
  with assms show ?thesis by simp
qed

lemma OnRecv_ok:
  assumes mgr: "ClientSession_manager ws parse ps2c = Some mgr"
    and a: "OnRecv mgr p n s g = Some (s', g')" and ok: "session_ok k s"
  shows "session_ok k s'"
proof (cases "p = None \<or> unat n > MAX_BUF_SIZE")
  case True
  then show ?thesis using a ok by (auto simp: OnRecv_def split: if_splits)
next
  case False
  then obtain r rb where ap: "AppendBuffer p (ucast n) (recvBuffer s) = Some (r, rb)"
    using a unfolding OnRecv_def by (cases "AppendBuffer p (ucast n) (recvBuffer s)") auto
  then have "session_ok k (s\<lparr>recvBuffer := rb\<rparr>)"
    using ok AppendBuffer_ok [OF _ ap] by (simp add: session_ok_def)
  then show ?thesis
    using a ap False recv_loop_ok [OF mgr, of "s\<lparr>recvBuffer := rb\<rparr>" g]
    by (cases r) (auto simp: OnRecv_def Let_def)
qed

section \<open>The server invariant\<close>

text \<open>
  The buffers are valid, a client is connected where data is received, and the loop has not been left.
\<close>

definition server_ok :: "'w server \<Rightarrow> bool" where
  "server_ok st \<longleftrightarrow> session_ok (client_sock (client_sess st)) (client_sess st) \<and>
     (pc st = At_recv \<longrightarrow> client_sock (client_sess st) \<noteq> INVALID_SOCKET) \<and>
     (\<forall>n. pc st \<noteq> Returned n)"

lemma accept_step_ok:
  "server_ok st \<Longrightarrow> server_ok (accept_step ws st)"
  by (auto simp: accept_step_def server_ok_def session_ok_def InitSession_def Let_def split: prod.splits if_splits)

lemma recv_step_ok:
  assumes "ClientSession_manager ws parse ps2c = Some mgr" and "server_ok st" and "pc st = At_recv"
  shows "server_ok (recv_step ws mgr st)"
  using assms(2,3) OnRecv_ok [OF assms(1)]
  by (fastforce simp: recv_step_def server_ok_def session_ok_def Let_def split: prod.splits option.splits)

lemma main_step_ok:
  assumes "ClientSession_manager ws parse ps2c = Some mgr"
  shows "main_step ws mgr st st' \<Longrightarrow> server_ok st \<Longrightarrow> server_ok st'"
  using accept_step_ok recv_step_ok [OF assms] by (auto elim!: main_stepE)

lemma main_init_ok:
  "pc (main_init ws sock0 c0 w) = At_accept \<Longrightarrow> server_ok (main_init ws sock0 c0 w)"
  by (auto simp: main_init_def server_ok_def session_ok_def Let_def split: prod.splits if_splits)

lemma main_step_listen:
  "main_step ws mgr st st' \<Longrightarrow> server_sess st' = server_sess st"
  by (auto simp: main_step_simps accept_step_def recv_step_def Let_def split: prod.splits option.splits if_splits)

lemma main_reaches_one: "main_step ws mgr st st' \<Longrightarrow> main_reaches ws mgr st st'"
  by (rule main_reaches.step [OF main_reaches.start])

lemma main_reaches_trans:
  "main_reaches ws mgr st1 st2 \<Longrightarrow> main_reaches ws mgr st st1 \<Longrightarrow> main_reaches ws mgr st st2"
  by (induction rule: main_reaches.induct) (auto intro: main_reaches.step)

lemma main_reaches_first:
  "main_step ws mgr st st1 \<Longrightarrow> main_reaches ws mgr st1 st2 \<Longrightarrow> main_reaches ws mgr st st2"
  by (rule main_reaches_trans [OF _ main_reaches_one])

section \<open>Serving a connection\<close>

text \<open>
  A connection as the server sees it: \<open>inp\<close> are the blocks \<open>recv\<close> will return, one after the other, before it
  fails, and \<open>sent\<close> is what has been sent. Sending succeeds and does not touch what is still to be received.
\<close>

definition connection ::
  "('w, 'z) winsock_scheme \<Rightarrow> SOCKET \<Rightarrow> ('w \<Rightarrow> byte list list) \<Rightarrow> ('w \<Rightarrow> byte list list) \<Rightarrow> bool"
where
  "connection ws k inp sent \<longleftrightarrow>
     (\<forall>w. case ws_recv ws k RECV_SIZE w of (r, bs, w') \<Rightarrow> sent w' = sent w \<and>
        (case inp w of [] \<Rightarrow> r = SOCKET_ERROR \<and> bs = [] | b # i \<Rightarrow> r = int (length b) \<and> bs = b \<and> inp w' = i)) \<and>
     (\<forall>bs w. case ws_send ws k bs w of (r, w') \<Rightarrow>
        r \<noteq> SOCKET_ERROR \<and> inp w' = inp w \<and> sent w' = sent w @ [bs]) \<and>
     (\<forall>w. sent (ws_closesocket ws k w) = sent w)"

lemma connection_recv:
  assumes "connection ws k inp sent"
  obtains w' where "sent w' = sent w"
    and "ws_recv ws k RECV_SIZE w = (case inp w of [] \<Rightarrow> (SOCKET_ERROR, [], w') | b # _ \<Rightarrow> (int (length b), b, w'))"
    and "inp w \<noteq> [] \<Longrightarrow> inp w' = tl (inp w)"
proof -
  obtain r bs w' where r: "ws_recv ws k RECV_SIZE w = (r, bs, w')" by (cases "ws_recv ws k RECV_SIZE w")
  have "case ws_recv ws k RECV_SIZE w of (r, bs, w') \<Rightarrow> sent w' = sent w \<and>
      (case inp w of [] \<Rightarrow> r = SOCKET_ERROR \<and> bs = [] | b # i \<Rightarrow> r = int (length b) \<and> bs = b \<and> inp w' = i)"
    using assms by (simp add: connection_def)
  then show ?thesis using r that [of w'] by (cases "inp w") simp_all
qed

lemma connection_sends_ok: "connection ws k inp sent \<Longrightarrow> sends_ok ws k"
  by (fastforce simp: connection_def sends_ok_def split_beta)

lemma connection_send_all:
  assumes "connection ws k inp sent"
  shows "inp (send_all ws k fs w) = inp w \<and> sent (send_all ws k fs w) = sent w @ fs"
proof (induction fs arbitrary: w)
  case (Cons f fs)
  have "inp (snd (ws_send ws k f w)) = inp w" "sent (snd (ws_send ws k f w)) = sent w @ [f]"
    using assms by (auto simp: connection_def split_beta)
  then show ?case using Cons [of "snd (ws_send ws k f w)"] by (simp add: send_all_def)
qed (simp add: send_all_def)

lemma recv_buffer:
  "length bs \<le> RECV_SIZE \<Longrightarrow> mem_write 0 bs (replicate RECV_SIZE 0) = Some (bs @ replicate (RECV_SIZE - length bs) 0)"
  by (simp add: mem_write_def)

text \<open>One received block, when it fits and its packets are chat packets.\<close>

lemma recv_step_serves:
  assumes mgr: "ClientSession_manager ws parse ps2c = Some mgr"
    and ok: "pb_ok (recvBuffer (client_sess st))"
    and bs: "bs \<noteq> []" "length (contents (recvBuffer (client_sess st))) + length bs \<le> 65535"
    and ms: "list_all2 (chat_packet parse) (fst (frames (contents (recvBuffer (client_sess st)) @ bs))) ms"
    and recv: "ws_recv ws (client_sock (client_sess st)) RECV_SIZE (net (proc st)) = (int (length bs), bs, w)"
    and serve: "serve ws ps2c ms (client_sess st) (proc st\<lparr>net := w\<rparr>) = Some (s', g')"
  obtains rb where "pb_ok rb" and "contents rb = snd (frames (contents (recvBuffer (client_sess st)) @ bs))"
    and "recv_step ws mgr st = st\<lparr>client_sess := s'\<lparr>recvBuffer := rb\<rparr>, proc := g'\<rparr>"
proof -
  let ?s = "client_sess st" and ?g = "proc st\<lparr>net := w\<rparr>" and ?junk = "replicate (RECV_SIZE - length bs) 0 :: byte list"
  have s: "?s\<lparr>recvBuffer := recvBuffer ?s\<rparr> = ?s" by simp
  obtain rb1 where rb1: "pb_ok rb1" "contents rb1 = contents (recvBuffer ?s) @ bs"
    "\<And>s g. OnRecv mgr (Some (bs @ ?junk)) (of_nat (length bs)) (s\<lparr>recvBuffer := recvBuffer ?s\<rparr>) g =
      recv_loop mgr (s\<lparr>recvBuffer := rb1\<rparr>) g"
    by (rule OnRecv_data [OF ok bs, where junk = ?junk]) blast
  obtain rb where rb: "pb_ok rb" "contents rb = snd (frames (contents rb1))"
    "recv_loop mgr (?s\<lparr>recvBuffer := rb1\<rparr>) ?g =
       map_option (\<lambda>(s, g). (s\<lparr>recvBuffer := rb\<rparr>, g)) (serve ws ps2c ms ?s ?g)"
    using recv_loop_serves [OF mgr rb1(1), where ms = ms and s = ?s and g = ?g] ms rb1(2) by auto
  have "OnRecv mgr (Some (bs @ ?junk)) (of_nat (length bs)) ?s ?g = Some (s'\<lparr>recvBuffer := rb\<rparr>, g')"
    using rb1(3) [of ?s ?g] rb(3) serve s by simp
  moreover have "length bs \<le> RECV_SIZE" using bs(2) by (simp add: RECV_SIZE_def MAX_BUF_SIZE_def)
  ultimately have "recv_step ws mgr st = st\<lparr>client_sess := s'\<lparr>recvBuffer := rb\<rparr>, proc := g'\<rparr>"
    using recv by (simp add: recv_step_def GetClientSocket_def recv_buffer SOCKET_ERROR_def)
  then show ?thesis using that rb rb1(2) by simp
qed

lemma blocks_served:
  assumes mgr: "ClientSession_manager ws parse ps2c = Some mgr" and conn: "connection ws k inp sent"
  shows "pc st = At_recv \<Longrightarrow> session_ok k (client_sess st) \<Longrightarrow> client_sock (client_sess st) = k \<Longrightarrow>
    contents (sendBuffer (client_sess st)) = [] \<Longrightarrow> \<not> frame_ready (contents (recvBuffer (client_sess st))) \<Longrightarrow>
    inp (net (proc st)) = blocks \<Longrightarrow> blocks_fit (contents (recvBuffer (client_sess st))) blocks \<Longrightarrow>
    list_all2 (chat_packet parse) (fst (frames (contents (recvBuffer (client_sess st)) @ concat blocks))) ms \<Longrightarrow>
    replies_fit ps2c ser ms \<Longrightarrow>
    \<exists>st'. main_reaches ws mgr st st' \<and> pc st' = At_accept \<and> contents (sendBuffer (client_sess st')) = [] \<and>
      contents (recvBuffer (client_sess st')) = snd (frames (contents (recvBuffer (client_sess st)) @ concat blocks)) \<and>
      count (proc st') = count (proc st) + of_nat (length ms) \<and>
      sent (net (proc st')) = sent (net (proc st)) @ reply_frames ser (PROTOCOL_NUMBER ps2c) (count (proc st)) ms"
proof (induction blocks arbitrary: st ms)
  case Nil
  obtain w where w: "sent w = sent (net (proc st))"
    "ws_recv ws k RECV_SIZE (net (proc st)) = (SOCKET_ERROR, [], w)"
    by (rule connection_recv [OF conn, where w = "net (proc st)"]) (use Nil.prems(6) in simp)
  have ms: "ms = []" using Nil.prems(5,8) by (simp add: frames_not_ready)
  let ?st = "st\<lparr>pc := At_accept, proc := proc st\<lparr>net := CloseSession ws (client_sess st) w\<rparr>\<rparr>"
  have "recv_step ws mgr st = ?st"
    using w(2) Nil.prems(3) by (simp add: recv_step_def GetClientSocket_def mem_write_def)
  then have "main_reaches ws mgr st ?st"
    using main_step.recv [OF Nil.prems(1), of ws mgr] by (simp add: main_reaches_one)
  moreover have "sent (CloseSession ws (client_sess st) w) = sent w"
    using conn Nil.prems(3) by (simp add: CloseSession_def connection_def)
  ultimately show ?case
    using Nil.prems w(1) ms by (intro exI [of _ ?st]) (simp add: frames_not_ready)
next
  case (Cons bs blocks)
  let ?s = "client_sess st" and ?g = "proc st"
  let ?r = "contents (recvBuffer ?s)"
  obtain w where w: "sent w = sent (net ?g)" "inp w = blocks"
    "ws_recv ws k RECV_SIZE (net ?g) = (int (length bs), bs, w)"
    by (rule connection_recv [OF conn, where w = "net ?g"]) (use Cons.prems(6) in simp)
  have bs: "bs \<noteq> []" "length ?r + length bs \<le> 65535" "blocks_fit (snd (frames (?r @ bs))) blocks"
    using Cons.prems(7) by simp_all
  have split: "frames (?r @ concat (bs # blocks)) = (fst (frames (?r @ bs)) @
      fst (frames (snd (frames (?r @ bs)) @ concat blocks)), snd (frames (snd (frames (?r @ bs)) @ concat blocks)))"
    using frames_append [of "?r @ bs" "concat blocks"] by simp
  then obtain ms1 ms2 where ms: "ms = ms1 @ ms2" "list_all2 (chat_packet parse) (fst (frames (?r @ bs))) ms1"
    "list_all2 (chat_packet parse) (fst (frames (snd (frames (?r @ bs)) @ concat blocks))) ms2"
    using Cons.prems(8) by (auto simp: list_all2_append1)
  have fit: "replies_fit ps2c ser ms1" "replies_fit ps2c ser ms2"
    using Cons.prems(9) ms(1) by (simp_all add: replies_fit_def)
  have ok: "pb_ok (recvBuffer ?s)" "pb_ok (sendBuffer ?s)" using Cons.prems(2) by (simp_all add: session_ok_def)
  let ?fs = "reply_frames ser (PROTOCOL_NUMBER ps2c) (count ?g) ms1"
  let ?g1 = "?g\<lparr>count := count ?g + of_nat (length ms1), net := send_all ws k ?fs w\<rparr>"
  obtain sb where sb: "pb_ok sb" "contents sb = []"
    "serve ws ps2c ms1 ?s (?g\<lparr>net := w\<rparr>) = Some (?s\<lparr>sendBuffer := sb\<rparr>, ?g1)"
    using serve_replies [OF _ ok(2) Cons.prems(4) fit(1), of ws "?g\<lparr>net := w\<rparr>"] connection_sends_ok [OF conn] Cons.prems(3)
    by auto
  have recv: "ws_recv ws (client_sock ?s) RECV_SIZE (net ?g) = (int (length bs), bs, w)"
    using w(3) Cons.prems(3) by simp
  obtain rb where rb: "pb_ok rb" "contents rb = snd (frames (?r @ bs))"
    "recv_step ws mgr st = st\<lparr>client_sess := ?s\<lparr>sendBuffer := sb, recvBuffer := rb\<rparr>, proc := ?g1\<rparr>"
    using recv_step_serves [OF mgr ok(1) bs(1,2) ms(2) recv sb(3)] by auto
  let ?st = "recv_step ws mgr st"
  have first: "main_step ws mgr st ?st" by (rule main_step.recv [OF Cons.prems(1)])
  have st: "client_sess ?st = ?s\<lparr>sendBuffer := sb, recvBuffer := rb\<rparr>" "proc ?st = ?g1" "pc ?st = At_recv"
    using rb(3) Cons.prems(1) by simp_all
  have net: "inp (net (proc ?st)) = blocks" "sent (net (proc ?st)) = sent (net ?g) @ ?fs"
    using st(2) connection_send_all [OF conn, of ?fs w] w by simp_all
  have sk: "session_ok k (client_sess ?st)" "client_sock (client_sess ?st) = k" "contents (sendBuffer (client_sess ?st)) = []"
    "\<not> frame_ready (contents (recvBuffer (client_sess ?st)))" "blocks_fit (contents (recvBuffer (client_sess ?st))) blocks"
    "list_all2 (chat_packet parse) (fst (frames (contents (recvBuffer (client_sess ?st)) @ concat blocks))) ms2"
    using st Cons.prems(2,3) sb rb bs(3) ms(3) by (simp_all add: session_ok_def frames_rest_not_ready)
  obtain st' where st': "main_reaches ws mgr ?st st'" "pc st' = At_accept" "contents (sendBuffer (client_sess st')) = []"
    "contents (recvBuffer (client_sess st')) = snd (frames (contents (recvBuffer (client_sess ?st)) @ concat blocks))"
    "count (proc st') = count (proc ?st) + of_nat (length ms2)"
    "sent (net (proc st')) = sent (net (proc ?st)) @ reply_frames ser (PROTOCOL_NUMBER ps2c) (count (proc ?st)) ms2"
    using Cons.IH [OF st(3) sk(1-4) net(1) sk(5,6) fit(2)] by auto
  have "reply_frames ser no n (ms1 @ ms2) = reply_frames ser no n ms1 @ reply_frames ser no (n + of_nat (length ms1)) ms2" for no n
    by (induction ms1 arbitrary: n) (simp_all add: algebra_simps)
  then show ?case
    using main_reaches_first [OF first st'(1)] st' st rb(2) net split ms(1)
    by (intro exI [of _ st']) (simp add: algebra_simps)
qed

lemma recv_step_closed:
  assumes "ws_recv ws (client_sock (client_sess st)) RECV_SIZE (net (proc st)) = (0, [], w)"
  shows "recv_step ws mgr st = st\<lparr>proc := proc st\<lparr>net := w\<rparr>\<rparr>"
  using assms by (simp add: recv_step_def GetClientSocket_def mem_write_def SOCKET_ERROR_def OnRecv_def AppendBuffer_def)

section \<open>Concrete instances\<close>

definition example_server :: "main_pc \<Rightarrow> 'w \<Rightarrow> 'w server" where
  "example_server p w = \<lparr>pc = p, server_sess = \<lparr>listen_sock = 1\<rparr>, client_sess = new_session 2, proc = \<lparr>count = 0, net = w\<rparr>\<rparr>"

lemma example_server_sels [simp]:
  "pc (example_server p w) = p" "client_sess (example_server p w) = new_session 2"
  "proc (example_server p w) = \<lparr>count = 0, net = w\<rparr>" "server_sess (example_server p w) = \<lparr>listen_sock = 1\<rparr>"
  by (simp_all add: example_server_def)

lemma new_session_sels [simp]:
  "recvBuffer (new_session k) = PacketBuffer_init" "sendBuffer (new_session k) = PacketBuffer_init" "client_sock (new_session k) = k"
  by (simp_all add: new_session_def)

lemma script_net_connection: "connection script_net k (\<lambda>w. map (take RECV_SIZE) (fst w)) snd"
  by (auto simp: connection_def script_net_def SOCKET_ERROR_def split: list.splits)

text \<open>A server whose client has sent half of a header and then lost its connection.\<close>

definition interrupted_server :: "(byte list list \<times> byte list list) server" where
  "interrupted_server = (example_server At_recv ([], []))\<lparr>client_sess := (new_session 2)\<lparr>recvBuffer := filled_buffer [6, 0]\<rparr>\<rparr>"

text \<open>A network on which the client has closed its connection.\<close>

definition closed_net :: "nat winsock" where
  "closed_net = \<lparr>ws_startup = (\<lambda>w. (0, w)), ws_cleanup = id, ws_socket = (\<lambda>w. (1, w)),
      ws_bind = (\<lambda>_ _ _ w. (0, w)), ws_listen = (\<lambda>_ w. (0, w)),
      ws_accept = (\<lambda>_ w. (2, (9000, 0), w)), ws_connect = (\<lambda>_ _ _ w. (0, w)),
      ws_send = (\<lambda>_ bs w. (int (length bs), w)), ws_recv = (\<lambda>_ _ w. (0, [], w + 1)), ws_closesocket = (\<lambda>_ w. w)\<rparr>"

section \<open>Properties\<close>





text \<open>
  C36. The session's buffers outlive the connection. When \<open>recv\<close> fails and the next client connects,
  the new client's session starts with the bytes the old client left in both buffers: an incomplete
  packet of the one is completed with data of the other, and an unsent reply is sent to the wrong client.
\<close>

theorem next_client_inherits_buffers:
  assumes "pc st = At_recv" and "ws_recv ws (client_sock (client_sess st)) RECV_SIZE (net (proc st)) = (SOCKET_ERROR, [], w1)"
    and "ws_accept ws (listen_sock (server_sess st)) (ws_closesocket ws (client_sock (client_sess st)) w1) = (k, addr, w2)"
    and "k \<noteq> INVALID_SOCKET"
  shows "main_reaches ws mgr st
    (st\<lparr>client_sess := client_sess st\<lparr>client_sock := k, clientAddr := addr\<rparr>, proc := proc st\<lparr>net := w2\<rparr>\<rparr>)"
proof -
  let ?st = "st\<lparr>pc := At_accept, proc := proc st\<lparr>net := ws_closesocket ws (client_sock (client_sess st)) w1\<rparr>\<rparr>"
  have "main_step ws mgr st ?st"
    using main_step.recv [OF assms(1), of ws mgr] assms(2)
    by (simp add: recv_step_def GetClientSocket_def mem_write_def CloseSession_def)
  moreover have "main_step ws mgr ?st (accept_step ws ?st)"
    by (rule main_step.accept) simp
  moreover have "accept_step ws ?st =
      st\<lparr>client_sess := client_sess st\<lparr>client_sock := k, clientAddr := addr\<rparr>, proc := proc st\<lparr>net := w2\<rparr>\<rparr>"
    using assms by (simp add: accept_step_def InitSession_def GetSocket_def)
  ultimately show ?thesis by (metis main_reaches.simps)
qed

theorem next_client_inherits_buffers_witness:
  "main_reaches script_net [] interrupted_server
    (interrupted_server\<lparr>client_sess := client_sess interrupted_server\<lparr>client_sock := 2, clientAddr := (9000, 0)\<rparr>,
       proc := proc interrupted_server\<lparr>net := ([], [])\<rparr>\<rparr>)"
proof (rule next_client_inherits_buffers)
  show "ws_recv script_net (client_sock (client_sess interrupted_server)) RECV_SIZE (net (proc interrupted_server)) =
      (SOCKET_ERROR, [], ([], []))"
    by (simp add: script_net_def interrupted_server_def)
qed (simp_all add: script_net_def INVALID_SOCKET_def interrupted_server_def)

text \<open>
  C37. A client that closes its connection hangs the server: \<open>recv\<close> then returns 0, which is not an
  error, so the inner loop is never left, and no other client is ever accepted.
\<close>

theorem closed_connection_is_never_left:
  assumes "pc st = At_recv" and "\<forall>w. \<exists>w'. ws_recv ws (client_sock (client_sess st)) RECV_SIZE w = (0, [], w')"
    and "main_reaches ws mgr st st'"
  shows "pc st' = At_recv \<and> client_sess st' = client_sess st \<and> server_sess st' = server_sess st"
  using assms(3)
proof (induction rule: main_reaches.induct)
  case (step st1 st2)
  obtain w where "ws_recv ws (client_sock (client_sess st1)) RECV_SIZE (net (proc st1)) = (0, [], w)"
    using assms(2) step.IH by metis
  from recv_step_closed [OF this] step show ?case by (auto simp: main_step_simps)
qed (simp add: assms(1))

theorem closed_connection_is_never_left_witness:
  "\<exists>st'. main_step closed_net [] (example_server At_recv 0) st' \<and> net (proc st') = 1 \<and>
    pc st' = At_recv \<and> client_sess st' = client_sess (example_server At_recv (0 :: nat)) \<and>
    server_sess st' = server_sess (example_server At_recv (0 :: nat))"
proof -
  let ?st = "example_server At_recv (0 :: nat)"
  have closed: "\<forall>w. \<exists>w'. ws_recv closed_net (client_sock (client_sess ?st)) RECV_SIZE w = (0, [], w')"
    by (simp add: closed_net_def)
  have step: "main_step closed_net [] ?st (recv_step closed_net [] ?st)" by (rule main_step.recv) simp
  have "net (proc (recv_step closed_net [] ?st)) = 1"
    by (subst recv_step_closed [of closed_net ?st 1]) (simp_all add: closed_net_def)
  with closed_connection_is_never_left [OF _ closed main_reaches_one [OF step]] step show ?thesis by auto
qed

end
