(* ===== verification/EcoClient.thy ===== *)
theory EcoClient
  imports ClientSession
begin

text \<open>
  EcoClient/ecoClient/ecoClient.cpp: the client, which sends a line of its input to the server and then answers
  every packet it gets with the message it contains. Like the server it never ends; a step is
  one pass of the outer loop up to the inner one, or one pass of the inner loop. The log lines are output only.

  The calls of \<open>fgets\<close>, of the sockets and of the generated classes are arguments. Unlike in the server, an
  exception can leave \<open>main\<close>: the program is then terminated.
\<close>

section \<open>State\<close>

datatype eco_pc = At_input | At_receive | Exit int | Terminated | Out_of_bounds

record 'w eco_client =
  eco_pc :: eco_pc
  eco_sock :: SOCKET
  eco_send :: packet_buffer
  eco_recv :: packet_buffer
  eco_world :: 'w

section \<open>Operations\<close>

definition LOOPBACK :: uint32 where
  "LOOPBACK = 0x7F000001"

text \<open>The code before the loop. Errors of \<open>socket\<close> and \<open>connect\<close> are only logged.\<close>

definition eco_init :: "('w, 'z) winsock_scheme \<Rightarrow> SOCKET \<Rightarrow> 'w \<Rightarrow> 'w eco_client" where
  "eco_init ws sock0 w =
     (case ws_startup ws w of (r, w) \<Rightarrow>
        if r \<noteq> 0 then \<lparr>eco_pc = Exit (- 1), eco_sock = sock0, eco_send = PacketBuffer_init, eco_recv = PacketBuffer_init, eco_world = w\<rparr>
        else case ws_socket ws w of (sock, w) \<Rightarrow>
          case ws_connect ws sock 9000 LOOPBACK w of (retval, w) \<Rightarrow>
            \<lparr>eco_pc = At_input, eco_sock = sock, eco_send = PacketBuffer_init, eco_recv = PacketBuffer_init, eco_world = w\<rparr>)"

text \<open>Queueing a message and sending the front of the queue, as both loops do it.\<close>

definition eco_send_message ::
  "('w, 'z) winsock_scheme \<Rightarrow> (string, 'y) packet_class_scheme \<Rightarrow> string \<Rightarrow> SOCKET \<Rightarrow> packet_buffer \<Rightarrow> 'w \<Rightarrow>
   (bool \<times> packet_buffer \<times> 'w) option"
where
  "eco_send_message ws pc2s message sock sb w = do {
     (ok, sb) \<leftarrow> SetPacket pc2s message sb;
     if \<not> ok then Some (False, sb, w)
     else do {
       n \<leftarrow> GetPacketSize sb;
       bs \<leftarrow> mem_read (GetPacketBuffer sb) (unat n) (buffer sb);
       (case ws_send ws sock bs w of (retval, w) \<Rightarrow>
          if retval = SOCKET_ERROR then Some (False, sb, w)
          else do {
            sb \<leftarrow> ConsumePacket sb;
            Some (True, sb, w)
          })
     }
   }"

text \<open>
  The outer loop. \<open>fgets\<close> gets the size of the array and gives the characters it stored before the
  terminator, or \<open>None\<close> for a null result. \<open>at\<close> throws when the index is not below the size.
\<close>

definition input_step ::
  "('w, 'z) winsock_scheme \<Rightarrow> (nat \<Rightarrow> 'w \<Rightarrow> string option \<times> 'w) \<Rightarrow> (string, 'y) packet_class_scheme \<Rightarrow>
   'w eco_client \<Rightarrow> 'w eco_client"
where
  "input_step ws fgets pc2s st =
     (case fgets MAX_BUF_SIZE (eco_world st) of
        (None, w) \<Rightarrow> st\<lparr>eco_world := w\<rparr>
      | (Some line, w) \<Rightarrow>
          (case mem_write 0 (line @ [NUL]) (replicate MAX_BUF_SIZE NUL) of
             None \<Rightarrow> st\<lparr>eco_pc := Out_of_bounds\<rparr>
           | Some inputData \<Rightarrow>
               (case c_str inputData of
                  None \<Rightarrow> st\<lparr>eco_pc := Out_of_bounds\<rparr>
                | Some s \<Rightarrow>
                    let len = word_of_int (int (length s) - 1) :: uint32 in
                    if unat len \<ge> length inputData then st\<lparr>eco_pc := Terminated\<rparr>
                    else case c_str (inputData[unat len := NUL]) of
                      None \<Rightarrow> st\<lparr>eco_pc := Out_of_bounds\<rparr>
                    | Some message \<Rightarrow>
                        (case eco_send_message ws pc2s message (eco_sock st) (eco_send st) w of
                           None \<Rightarrow> st\<lparr>eco_pc := Out_of_bounds\<rparr>
                         | Some (ok, sb, w) \<Rightarrow>
                             st\<lparr>eco_pc := if ok then At_receive else At_input, eco_send := sb, eco_world := w\<rparr>))))"

text \<open>The rest of a pass of the inner loop, once a packet is complete.\<close>

definition answer_packet ::
  "('w, 'z) winsock_scheme \<Rightarrow> (byte list \<Rightarrow> string option) \<Rightarrow> (string, 'y) packet_class_scheme \<Rightarrow> packet_buffer \<Rightarrow>
   'w eco_client \<Rightarrow> 'w eco_client option"
where
  "answer_packet ws parse pc2s rb st = do {
     packetNo \<leftarrow> GetPacketNo rb;
     n \<leftarrow> GetPayloadBufferSize rb;
     payload \<leftarrow> mem_read (GetPayloadBuffer rb) (unat n) (buffer rb);
     case parse payload of
       None \<Rightarrow> Some (st\<lparr>eco_pc := At_input, eco_recv := rb\<rparr>)
     | Some message \<Rightarrow> do {
         rb \<leftarrow> ConsumePacket rb;
         (ok, sb, w) \<leftarrow> eco_send_message ws pc2s message (eco_sock st) (eco_send st) (eco_world st);
         Some (st\<lparr>eco_pc := if ok then At_receive else At_input, eco_send := sb, eco_recv := rb, eco_world := w\<rparr>)
       }
   }"

definition receive_step ::
  "('w, 'z) winsock_scheme \<Rightarrow> (byte list \<Rightarrow> string option) \<Rightarrow> (string, 'y) packet_class_scheme \<Rightarrow>
   'w eco_client \<Rightarrow> 'w eco_client"
where
  "receive_step ws parse pc2s st =
     (case ws_recv ws (eco_sock st) MAX_BUF_SIZE (eco_world st) of (retval, bs, w) \<Rightarrow>
        let st = st\<lparr>eco_world := w\<rparr> in
        case (do {
          recvData \<leftarrow> mem_write 0 bs (replicate MAX_BUF_SIZE 0);
          if retval = SOCKET_ERROR \<or> retval = 0 then Some (st\<lparr>eco_pc := At_input\<rparr>)
          else do {
            (ok, rb) \<leftarrow> AppendBuffer (Some recvData) (word_of_int retval) (eco_recv st);
            if \<not> ok then Some (st\<lparr>eco_pc := At_input, eco_recv := rb\<rparr>)
            else do {
              able \<leftarrow> IsAbleToGetPacket rb;
              if \<not> able then Some (st\<lparr>eco_recv := rb\<rparr>)
              else answer_packet ws parse pc2s rb st
            }
          }
        }) of
          None \<Rightarrow> st\<lparr>eco_pc := Out_of_bounds\<rparr>
        | Some st \<Rightarrow> st)"

inductive eco_step ::
  "('w, 'z) winsock_scheme \<Rightarrow> (nat \<Rightarrow> 'w \<Rightarrow> string option \<times> 'w) \<Rightarrow> (byte list \<Rightarrow> string option) \<Rightarrow>
   (string, 'y) packet_class_scheme \<Rightarrow> 'w eco_client \<Rightarrow> 'w eco_client \<Rightarrow> bool"
  for ws fgets parse pc2s
where
  input: "eco_pc st = At_input \<Longrightarrow> eco_step ws fgets parse pc2s st (input_step ws fgets pc2s st)"
| receive: "eco_pc st = At_receive \<Longrightarrow> eco_step ws fgets parse pc2s st (receive_step ws parse pc2s st)"

inductive_cases eco_stepE: "eco_step ws fgets parse pc2s st st'"

inductive eco_reaches ::
  "('w, 'z) winsock_scheme \<Rightarrow> (nat \<Rightarrow> 'w \<Rightarrow> string option \<times> 'w) \<Rightarrow> (byte list \<Rightarrow> string option) \<Rightarrow>
   (string, 'y) packet_class_scheme \<Rightarrow> 'w eco_client \<Rightarrow> 'w eco_client \<Rightarrow> bool"
  for ws fgets parse pc2s st
where
  eco_start: "eco_reaches ws fgets parse pc2s st st"
| eco_next: "eco_reaches ws fgets parse pc2s st st1 \<Longrightarrow> eco_step ws fgets parse pc2s st1 st2 \<Longrightarrow>
    eco_reaches ws fgets parse pc2s st st2"

section \<open>Sending\<close>

text \<open>The client sends as a session of the server does.\<close>

lemma eco_send_message_eq:
  "eco_send_message ws pc2s m (client_sock s) (sendBuffer s) w =
     map_option (\<lambda>(ok, s, w). (ok, sendBuffer s, w)) (SendPacket ws pc2s m s w)"
  by (auto simp: eco_send_message_def SendPacket_def Let_def map_bind split_beta intro!: bind_eqI)

lemma eco_send_message_frame:
  assumes "pb_ok sb" and "contents sb = []" and "serializes C m payload" and "payload \<noteq> []" and "length payload \<le> 65531"
  obtains sb' r w' where "pb_ok sb'" and "ws_send ws sock (frame (PROTOCOL_NUMBER C) payload) w = (r, w')"
    and "eco_send_message ws C m sock sb w = Some (r \<noteq> SOCKET_ERROR, sb', w')"
    and "contents sb' = (if r = SOCKET_ERROR then frame (PROTOCOL_NUMBER C) payload else [])"
proof -
  let ?s = "(new_session sock)\<lparr>sendBuffer := sb\<rparr>"
  have s: "pb_ok (sendBuffer ?s)" "contents (sendBuffer ?s) = frames_of []" using assms by simp_all
  have room: "length (frames_of []) + 4 + length payload \<le> 65535" using assms(5) by simp
  obtain sb' r w' where "pb_ok sb'" "ws_send ws sock (frame (PROTOCOL_NUMBER C) payload) w = (r, w')"
    "SendPacket ws C m ?s w = Some (r \<noteq> SOCKET_ERROR, ?s\<lparr>sendBuffer := sb'\<rparr>, w')"
    "contents sb' = frames_of (if r = SOCKET_ERROR then [(PROTOCOL_NUMBER C, payload)] else [])"
    using SendPacket_queue [OF s _ assms(3,4) room, of ws w] by (auto simp: new_session_def)
  with that show ?thesis
    using eco_send_message_eq [of ws C m ?s w] by (auto simp: new_session_def split: if_splits)
qed

lemma eco_send_message_ok:
  assumes ok: "pb_ok sb" and a: "eco_send_message ws C m sock sb w = Some (r, sb', w')"
  shows "pb_ok sb'"
proof -
  obtain ok1 sb1 where set: "SetPacket C m sb = Some (ok1, sb1)"
    using a unfolding eco_send_message_def by (cases "SetPacket C m sb") auto
  have 1: "pb_ok sb1" using SetPacket_ok [OF ok set] .
  show ?thesis
  proof (cases ok1)
    case False
    then show ?thesis using a 1 by (simp add: eco_send_message_def set)
  next
    case True
    then obtain n bs where "GetPacketSize sb1 = Some n" "mem_read (GetPacketBuffer sb1) (unat n) (buffer sb1) = Some bs"
      using a by (auto simp: eco_send_message_def set bind_Some_iff)
    moreover obtain r1 w1 where "ws_send ws sock bs w = (r1, w1)" by (cases "ws_send ws sock bs w")
    ultimately show ?thesis using a True 1 ConsumePacket_keeps [OF 1]
      by (auto simp: eco_send_message_def set bind_Some_iff split: if_splits)
  qed
qed

section \<open>The input line\<close>

text \<open>The array after a line was read into it, and after its last character was cut off.\<close>

lemma input_array:
  "length line \<le> 65534 \<Longrightarrow> mem_write 0 (line @ [NUL]) (replicate MAX_BUF_SIZE NUL) =
     Some (line @ NUL # replicate (65534 - length line) NUL)"
  by (simp add: mem_write_def MAX_BUF_SIZE_def)

lemma input_step_line:
  assumes "fgets MAX_BUF_SIZE (eco_world st) = (Some (s @ [c]), w)" and "NUL \<notin> set s" and "c \<noteq> NUL" and "length s < 65534"
  shows "input_step ws fgets pc2s st =
    (case eco_send_message ws pc2s s (eco_sock st) (eco_send st) w of
       None \<Rightarrow> st\<lparr>eco_pc := Out_of_bounds\<rparr>
     | Some (ok, sb, w) \<Rightarrow> st\<lparr>eco_pc := if ok then At_receive else At_input, eco_send := sb, eco_world := w\<rparr>)"
proof -
  let ?z = "replicate (65534 - length (s @ [c])) NUL"
  have arr: "mem_write 0 ((s @ [c]) @ [NUL]) (replicate MAX_BUF_SIZE NUL) = Some ((s @ [c]) @ NUL # ?z)"
    by (rule input_array) (use assms(4) in simp)
  have str: "c_str ((s @ [c]) @ NUL # ?z) = Some (s @ [c])" by (rule c_str_terminated) (use assms(2,3) in auto)
  have len: "unat (word_of_int (int (length (s @ [c])) - 1) :: uint32) = length s"
    using assms(4) by (simp add: unat_of_nat take_bit_nat_eq_self_iff)
  have "((s @ [c]) @ NUL # ?z)[length s := NUL] = s @ NUL # NUL # ?z" by (simp add: list_update_append)
  then have cut: "c_str (((s @ [c]) @ NUL # ?z)[length s := NUL]) = Some s" by (simp add: c_str_terminated [OF assms(2)])
  show ?thesis
    using assms(1) arr str len cut by (simp add: input_step_def Let_def)
qed

text \<open>A line that starts with a NUL character has the length 0, and the index wraps around.\<close>

lemma input_step_nul:
  assumes "fgets MAX_BUF_SIZE (eco_world st) = (Some (NUL # rest), w)" and "length rest < 65534"
  shows "input_step ws fgets pc2s st = st\<lparr>eco_pc := Terminated\<rparr>"
proof -
  let ?z = "replicate (65534 - length (NUL # rest)) NUL"
  have arr: "mem_write 0 ((NUL # rest) @ [NUL]) (replicate MAX_BUF_SIZE NUL) = Some ((NUL # rest) @ NUL # ?z)"
    by (rule input_array) (use assms(2) in simp)
  have str: "c_str ((NUL # rest) @ NUL # ?z) = Some []" using c_str_terminated [of "[]"] by simp
  have "length ((NUL # rest) @ NUL # ?z) \<le> unat (word_of_int (int (length ([] :: string)) - 1) :: uint32)"
    using assms(2) by (simp add: unsigned_minus_1_eq_mask mask_eq_exp_minus_1)
  then show ?thesis using assms(1) arr str by (simp only: input_step_def Let_def prod.case option.case if_True)
qed

section \<open>A received packet\<close>

lemma AppendBuffer_received:
  assumes ok: "pb_ok rb" and bs: "bs \<noteq> []" "length (contents rb) + length bs \<le> 65535"
  obtains rb' where "AppendBuffer (Some (bs @ junk)) (word_of_int (int (length bs))) rb = Some (True, rb')" and "pb_ok rb'"
    and "contents rb' = contents rb @ bs"
proof -
  let ?n = "of_nat (length bs) :: uint16"
  have n: "unat ?n = length bs" using bs(2) by (simp add: unat_of_nat take_bit_nat_eq_self_iff)
  have "?n \<noteq> 0" "unat ?n \<le> length (bs @ junk)" "length (contents rb) + unat ?n \<le> 65535"
    using n bs by (auto simp flip: unat_eq_0)
  then obtain rb' where "AppendBuffer (Some (bs @ junk)) ?n rb = Some (True, rb')" "pb_ok rb'"
    "contents rb' = contents rb @ take (unat ?n) (bs @ junk)"
    by (rule AppendBuffer_room [OF ok])
  with that n show ?thesis by simp
qed

lemma answer_packet_eq:
  assumes ok: "pb_ok rb" and ready: "frame_ready (contents rb)" and l: "4 \<le> frame_len (contents rb)"
    and p: "parse (frame_payload (front rb)) = Some m"
  obtains rb' where "pb_ok rb'" and "contents rb' = drop (frame_len (contents rb)) (contents rb)"
    and "answer_packet ws parse pc2s rb st =
      map_option (\<lambda>(ok, sb, w). st\<lparr>eco_pc := if ok then At_receive else At_input, eco_send := sb, eco_recv := rb', eco_world := w\<rparr>)
        (eco_send_message ws pc2s m (eco_sock st) (eco_send st) (eco_world st))"
proof -
  obtain rb' where rb': "ConsumePacket rb = Some rb'" "pb_ok rb'" "contents rb' = drop (frame_len (contents rb)) (contents rb)"
    using pbq.consume_ready [OF ok ready] by blast
  have n: "unat (of_nat (frame_len (contents rb) - 4) :: uint16) = frame_len (contents rb) - 4"
    using frame_ready_bounds(2) [OF ok ready] by (intro unat_of_nat16) simp
  have "answer_packet ws parse pc2s rb st =
      map_option (\<lambda>(ok, sb, w). st\<lparr>eco_pc := if ok then At_receive else At_input, eco_send := sb, eco_recv := rb', eco_world := w\<rparr>)
        (eco_send_message ws pc2s m (eco_sock st) (eco_send st) (eco_world st))"
    using first_frame_fields [OF ok ready l] n rb'(1) p
    by (cases "eco_send_message ws pc2s m (eco_sock st) (eco_send st) (eco_world st)")
       (auto simp: answer_packet_def front_def)
  with rb' that show ?thesis by blast
qed

lemma recv_array:
  "length bs \<le> 65535 \<Longrightarrow> mem_write 0 bs (replicate MAX_BUF_SIZE 0) = Some (bs @ replicate (65535 - length bs) (0 :: byte))"
  by (simp add: mem_write_def MAX_BUF_SIZE_def)

section \<open>The invariant\<close>

definition eco_ok :: "'w eco_client \<Rightarrow> bool" where
  "eco_ok st \<longleftrightarrow> pb_ok (eco_send st) \<and> pb_ok (eco_recv st) \<and> (\<forall>n. eco_pc st \<noteq> Exit n)"

lemma input_step_ok: "eco_ok st \<Longrightarrow> eco_ok (input_step ws fgets pc2s st)"
  using eco_send_message_ok [of "eco_send st"]
  by (auto simp: input_step_def eco_ok_def Let_def split: prod.splits option.splits if_splits)

lemma answer_packet_ok:
  assumes "pb_ok rb" and "eco_ok st" and "answer_packet ws parse pc2s rb st = Some st'"
  shows "eco_ok st'"
  using assms eco_send_message_ok [of "eco_send st"] ConsumePacket_keeps [OF assms(1)]
  by (auto simp: answer_packet_def eco_ok_def bind_Some_iff split: option.splits if_splits)

lemma receive_step_ok:
  assumes ok: "eco_ok st"
  shows "eco_ok (receive_step ws parse pc2s st)"
proof -
  have ap: "AppendBuffer p n (eco_recv st) = Some (r, rb) \<Longrightarrow> pb_ok rb" for p n r rb
    using ok AppendBuffer_ok [of "eco_recv st"] by (auto simp: eco_ok_def)
  have an: "pb_ok rb \<Longrightarrow> answer_packet ws parse pc2s rb (st\<lparr>eco_world := w\<rparr>) = Some st' \<Longrightarrow> eco_ok st'" for rb w st'
    using ok by (elim answer_packet_ok [rotated 2]) (simp_all add: eco_ok_def)
  have ex: "pb_ok rb \<Longrightarrow> answer_packet ws parse pc2s rb (st\<lparr>eco_world := w\<rparr>) = Some st' \<Longrightarrow> eco_pc st' = Exit n \<Longrightarrow> False" for rb w st' n
    using an [of rb w st'] by (simp add: eco_ok_def)
  show ?thesis using ok
    unfolding receive_step_def Let_def
    by (auto simp: eco_ok_def bind_Some_iff dest: ap an [unfolded eco_ok_def] ex split: prod.splits option.splits if_splits)
qed

lemma eco_step_ok: "eco_step ws fgets parse pc2s st st' \<Longrightarrow> eco_ok st \<Longrightarrow> eco_ok st'"
  by (auto elim!: eco_stepE intro: input_step_ok receive_step_ok)

section \<open>Concrete instances\<close>

text \<open>A network without traffic, input of the same line over and over, and the client connected on socket 1.\<close>

definition quiet :: "byte list list \<times> byte list list" where
  "quiet = ([], [])"

definition lines_fgets :: "string option \<Rightarrow> nat \<Rightarrow> 'w \<Rightarrow> string option \<times> 'w" where
  "lines_fgets line n w = (line, w)"

definition example_client :: "eco_pc \<Rightarrow> 'w \<Rightarrow> 'w eco_client" where
  "example_client p w = \<lparr>eco_pc = p, eco_sock = 1, eco_send = PacketBuffer_init, eco_recv = PacketBuffer_init, eco_world = w\<rparr>"

section \<open>Properties\<close>

text \<open>
  A line is sent without its last character, the line break, as one chat packet, and the client then waits
  for an answer; if the send fails it asks for the next line, with the packet still queued.
\<close>

theorem client_sends_line:
  assumes "eco_pc st = At_input" and "fgets MAX_BUF_SIZE (eco_world st) = (Some (s @ [c]), w)"
    and "NUL \<notin> set s" and "c \<noteq> NUL" and "length s < 65534"
    and "pb_ok (eco_send st)" and "contents (eco_send st) = []"
    and "serializes pc2s s payload" and "payload \<noteq> []" and "length payload \<le> 65531"
  shows "\<exists>sb r w'. ws_send ws (eco_sock st) (frame (PROTOCOL_NUMBER pc2s) payload) w = (r, w') \<and> pb_ok sb \<and>
    contents sb = (if r = SOCKET_ERROR then frame (PROTOCOL_NUMBER pc2s) payload else []) \<and>
    eco_step ws fgets parse pc2s st
      (st\<lparr>eco_pc := if r = SOCKET_ERROR then At_input else At_receive, eco_send := sb, eco_world := w'\<rparr>)"
proof -
  obtain sb r w' where sb: "pb_ok sb" "ws_send ws (eco_sock st) (frame (PROTOCOL_NUMBER pc2s) payload) w = (r, w')"
    "eco_send_message ws pc2s s (eco_sock st) (eco_send st) w = Some (r \<noteq> SOCKET_ERROR, sb, w')"
    "contents sb = (if r = SOCKET_ERROR then frame (PROTOCOL_NUMBER pc2s) payload else [])"
    by (rule eco_send_message_frame [OF assms(6-10)])
  have "input_step ws fgets pc2s st =
      st\<lparr>eco_pc := if r = SOCKET_ERROR then At_input else At_receive, eco_send := sb, eco_world := w'\<rparr>"
    unfolding input_step_line [where fgets = fgets and st = st and s = s and c = c and w = w, OF assms(2-5)] using sb(3) by simp
  then show ?thesis using eco_step.input [OF assms(1), of ws fgets parse pc2s] sb by metis
qed

theorem client_sends_line_witness:
  "\<exists>sb r w'. ws_send script_net (eco_sock (example_client At_input quiet)) (frame (PROTOCOL_NUMBER text_packet) (text_bytes ''hi'')) quiet = (r, w') \<and>
    pb_ok sb \<and> contents sb = (if r = SOCKET_ERROR then frame (PROTOCOL_NUMBER text_packet) (text_bytes ''hi'') else []) \<and>
    eco_step script_net (lines_fgets (Some (''hi'' @ [CHR 0x0A]))) text_parse text_packet (example_client At_input quiet)
      ((example_client At_input quiet)\<lparr>eco_pc := if r = SOCKET_ERROR then At_input else At_receive, eco_send := sb, eco_world := w'\<rparr>)"
  by (rule client_sends_line [where fgets = "lines_fgets (Some (''hi'' @ [CHR 0x0A]))" and c = "CHR 0x0A" and s = "''hi''" and
        w = quiet])
     (simp_all add: example_client_def lines_fgets_def NUL_def, simp_all add: text_bytes_def)

text \<open>
  C26. When received bytes complete a packet, the client takes that one packet off its buffer and sends the
  packet's message back, unchanged; further complete packets wait until more data arrives.
\<close>

theorem client_answers_one_packet:
  assumes "eco_pc st = At_receive" and "ws_recv ws (eco_sock st) MAX_BUF_SIZE (eco_world st) = (int (length bs), bs, w)"
    and "pb_ok (eco_recv st)" and "bs \<noteq> []" and "length (contents (eco_recv st)) + length bs \<le> 65535"
    and "contents (eco_recv st) @ bs = frame no payload @ rest" and "length payload \<le> 65531" and "parse payload = Some m"
    and "pb_ok (eco_send st)" and "contents (eco_send st) = []"
    and "serializes pc2s m out" and "out \<noteq> []" and "length out \<le> 65531"
  shows "\<exists>rb sb r w'. ws_send ws (eco_sock st) (frame (PROTOCOL_NUMBER pc2s) out) w = (r, w') \<and>
    pb_ok rb \<and> contents rb = rest \<and>
    pb_ok sb \<and> contents sb = (if r = SOCKET_ERROR then frame (PROTOCOL_NUMBER pc2s) out else []) \<and>
    eco_step ws fgets parse pc2s st
      (st\<lparr>eco_pc := if r = SOCKET_ERROR then At_input else At_receive, eco_send := sb, eco_recv := rb, eco_world := w'\<rparr>)"
proof -
  let ?junk = "replicate (65535 - length bs) 0 :: byte list"
  obtain rb1 where rb1: "AppendBuffer (Some (bs @ ?junk)) (word_of_int (int (length bs))) (eco_recv st) = Some (True, rb1)"
    "pb_ok rb1" "contents rb1 = frame no payload @ rest"
    using AppendBuffer_received [OF assms(3-5), of ?junk] assms(6) by metis
  have F: "frame_ready (contents rb1)" "frame_len (contents rb1) = 4 + length payload"
    using assms(7) rb1(3) by (simp_all add: frame_ready_frame frame_len_frame)
  then have p: "parse (frame_payload (front rb1)) = Some m" using assms(8) rb1(3) by (simp add: front_def)
  obtain rb where rb: "pb_ok rb" "contents rb = drop (frame_len (contents rb1)) (contents rb1)"
    "answer_packet ws parse pc2s rb1 (st\<lparr>eco_world := w\<rparr>) =
      map_option (\<lambda>(ok, sb, w). st\<lparr>eco_pc := if ok then At_receive else At_input, eco_send := sb, eco_recv := rb, eco_world := w\<rparr>)
        (eco_send_message ws pc2s m (eco_sock st) (eco_send st) w)"
    using answer_packet_eq [where parse = parse, OF rb1(2) F(1) _ p, of ws pc2s "st\<lparr>eco_world := w\<rparr>"] F(2)
    by (auto simp: fun_eq_iff split_beta)
  obtain sb r w' where sb: "pb_ok sb" "ws_send ws (eco_sock st) (frame (PROTOCOL_NUMBER pc2s) out) w = (r, w')"
    "eco_send_message ws pc2s m (eco_sock st) (eco_send st) w = Some (r \<noteq> SOCKET_ERROR, sb, w')"
    "contents sb = (if r = SOCKET_ERROR then frame (PROTOCOL_NUMBER pc2s) out else [])"
    by (rule eco_send_message_frame [OF assms(9-13)])
  have able: "IsAbleToGetPacket rb1 = Some True" using pbq.ready_iff [OF rb1(2)] F(1) by simp
  have "length bs \<le> 65535" using assms(5) by simp
  then have "receive_step ws parse pc2s st =
      st\<lparr>eco_pc := if r = SOCKET_ERROR then At_input else At_receive, eco_send := sb, eco_recv := rb, eco_world := w'\<rparr>"
    using assms(2,4) rb1(1) able rb(3) sb(3) by (simp add: receive_step_def recv_array SOCKET_ERROR_def)
  moreover have "contents rb = rest" using rb(2) rb1(3) F(2) by simp
  ultimately show ?thesis using eco_step.receive [OF assms(1), of ws fgets parse pc2s] sb rb(1) by metis
qed

theorem client_answers_one_packet_witness:
  "\<exists>rb sb r w'. ws_send script_net 1 (frame (PROTOCOL_NUMBER text_packet) (text_bytes ''hi'')) quiet = (r, w') \<and>
    pb_ok rb \<and> contents rb = [7] \<and>
    pb_ok sb \<and> contents sb = (if r = SOCKET_ERROR then frame (PROTOCOL_NUMBER text_packet) (text_bytes ''hi'') else []) \<and>
    eco_step script_net (lines_fgets None) text_parse text_packet (example_client At_receive ([frame 0 [104, 105] @ [7]], []))
      ((example_client At_receive ([frame 0 [104, 105] @ [7]], []))
        \<lparr>eco_pc := if r = SOCKET_ERROR then At_input else At_receive, eco_send := sb, eco_recv := rb, eco_world := w'\<rparr>)"
proof -
  let ?st = "example_client At_receive ([frame 0 [104, 105] @ [7]], [] :: byte list list)"
  have recv: "ws_recv script_net (eco_sock ?st) MAX_BUF_SIZE (eco_world ?st) =
      (int (length (frame 0 [104, 105] @ [7])), frame 0 [104, 105] @ [7], quiet)"
    by (simp add: script_net_def example_client_def quiet_def MAX_BUF_SIZE_def)
  have parse: "text_parse [104, 105] = Some ''hi''" by (simp add: text_parse_def) code_simp
  have 1: "eco_pc ?st = At_receive" "pb_ok (eco_recv ?st)" "frame 0 [104, 105] @ [7] \<noteq> []"
    "length (contents (eco_recv ?st)) + length (frame 0 [104, 105] @ [7]) \<le> 65535"
    "contents (eco_recv ?st) @ frame 0 [104, 105] @ [7] = frame 0 [104, 105] @ [7]" "length [104 :: byte, 105] \<le> 65531"
    "pb_ok (eco_send ?st)" "contents (eco_send ?st) = []"
    "text_bytes ''hi'' \<noteq> []" "length (text_bytes ''hi'') \<le> 65531" "eco_sock ?st = 1"
    by (simp_all add: example_client_def text_bytes_def)
  from client_answers_one_packet [where fgets = "lines_fgets None" and parse = text_parse and no = 0 and payload = "[104, 105]" and
      bs = "frame 0 [104, 105] @ [7]" and rest = "[7]", OF 1(1) recv 1(2-6) parse 1(7,8) serializes_text_packet 1(9,10)] 1(11)
  show ?thesis by simp
qed

text \<open>
  A line that starts with a NUL character ends the client: the index of its last character wraps around to
  4294967295, and the exception of \<open>at\<close> is not caught.
\<close>

theorem nul_line_terminates_client:
  assumes "eco_pc st = At_input" and "fgets MAX_BUF_SIZE (eco_world st) = (Some (NUL # rest), w)" and "length rest < 65534"
  shows "eco_step ws fgets parse pc2s st (st\<lparr>eco_pc := Terminated\<rparr>)"
  using eco_step.input [OF assms(1), of ws fgets parse pc2s] unfolding input_step_nul [where fgets = fgets and st = st, OF assms(2,3)] .

theorem nul_line_terminates_client_witness:
  "eco_step script_net (lines_fgets (Some (NUL # ''hi''))) text_parse text_packet
    (example_client At_input quiet) ((example_client At_input quiet)\<lparr>eco_pc := Terminated\<rparr>)"
  by (rule nul_line_terminates_client [where rest = "''hi''"]) (simp_all add: example_client_def lines_fgets_def)

text \<open>
  C27. In every state the client can reach from its start, whatever it receives or reads, both packet buffers are well
  formed, and the loop is never left with a result.
\<close>

theorem client_loop_invariant:
  assumes "eco_pc (eco_init ws sock0 w) = At_input" and "eco_reaches ws fgets parse pc2s (eco_init ws sock0 w) st"
  shows "pb_ok (eco_send st) \<and> pb_ok (eco_recv st) \<and> eco_pc st \<in> {At_input, At_receive, Terminated, Out_of_bounds}"
proof -
  have "eco_ok (eco_init ws sock0 w)"
    using assms(1) by (auto simp: eco_init_def eco_ok_def split: prod.splits if_splits)
  with assms(2) have "eco_ok st" by (induction rule: eco_reaches.induct) (auto intro: eco_step_ok)
  then show ?thesis by (cases "eco_pc st") (auto simp: eco_ok_def)
qed

theorem client_loop_invariant_witness:
  "let st = input_step script_net (lines_fgets None) text_packet (eco_init script_net 0 quiet) in
   pb_ok (eco_send st) \<and> pb_ok (eco_recv st) \<and> eco_pc st \<in> {At_input, At_receive, Terminated, Out_of_bounds}"
proof -
  let ?init = "eco_init script_net 0 quiet"
  have pc: "eco_pc ?init = At_input" by (simp add: eco_init_def script_net_def)
  have "eco_reaches script_net (lines_fgets None) text_parse text_packet ?init
      (input_step script_net (lines_fgets None) text_packet ?init)"
    by (rule eco_next [OF eco_start eco_step.input [OF pc]])
  from client_loop_invariant [OF pc this] show ?thesis unfolding Let_def .
qed

end
