(* ===== verification/NumberText.thy ===== *)
theory NumberText
  imports FormatWriter
begin

text \<open>
  Integers as text in protobuf's stubs/strutil.cc: the routines that write a number backwards from a fixed
  position of a buffer, those that write two digits at a time from its start with jumps into a
  chain of divisions, hexadecimal text, \<open>SimpleItoa\<close> on top of them, and \<open>safe_int\<close>, which reads a number.

  Values of the signed types are integers; every sum, product and negation of them goes through
  \<open>signed\<close>, which is \<open>Fault\<close> when the result is not in the range of the type (undefined in C++), as is
  a store outside of the buffer and a failed \<open>GOOGLE_CHECK\<close>.
\<close>

section \<open>Signed arithmetic and stores\<close>

definition signed_range :: "nat \<Rightarrow> int \<Rightarrow> bool" where
  "signed_range w i \<longleftrightarrow> - (2 ^ (w - 1)) \<le> i \<and> i < 2 ^ (w - 1)"

definition signed :: "nat \<Rightarrow> int \<Rightarrow> int fmt" where
  "signed w i = (if signed_range w i then Inr i else Inl Fault)"

text \<open>\<open>*p = c\<close> for a pointer that may have moved in front of the buffer.\<close>

definition put :: "int \<Rightarrow> char \<Rightarrow> string \<Rightarrow> string fmt" where
  "put p c buf = (if p < 0 then Inl Fault else store (nat p) c buf)"

text \<open>The loop \<open>do { *p-- = digit[i % base]; i /= base; } while (i > 0)\<close>.\<close>

function put_digits :: "nat \<Rightarrow> (nat \<Rightarrow> char) \<Rightarrow> int \<Rightarrow> nat \<Rightarrow> string \<Rightarrow> (string \<times> int) fmt" where
  "put_digits base digit p i buf =
     bindE (put p (digit (i mod base)) buf) (\<lambda>buf.
     if base \<le> 1 \<or> i div base = 0 then Inr (buf, p - 1) else put_digits base digit (p - 1) (i div base) buf)"
  by pat_completeness auto
termination
proof (relation "measure (\<lambda>(base, digit, p, i, buf). i)", goal_cases)
  case (2 base digit p i buf buf')
  then have "1 < base" "i div base \<noteq> 0" by auto
  moreover from this have "0 < i" by (cases i) auto
  ultimately show ?case by simp
qed simp

declare put_digits.simps [simp del]

section \<open>Numbers written backwards\<close>

text \<open>
  \<open>FastInt64ToBuffer\<close> and its duplicate for 32 bits differ in the type and the offset of the end of the string.
\<close>

definition fast_int_to_buffer :: "nat \<Rightarrow> int \<Rightarrow> int \<Rightarrow> string \<Rightarrow> (string \<times> int) fmt" where
  "fast_int_to_buffer w offset i buffer = (let p = offset in
     bindE (put p NUL buffer) (\<lambda>buffer. let p = p - 1 in
     if i \<ge> 0 then
       bindE (put_digits 10 digit_char p (nat i) buffer) (\<lambda>(buffer, p). Inr (buffer, p + 1))
     else if i > - 10 then
       bindE (signed w (- i)) (\<lambda>i.
       bindE (put p (digit_char (nat i)) buffer) (\<lambda>buffer. let p = p - 1 in
       bindE (put p (CHR ''-'') buffer) (\<lambda>buffer. Inr (buffer, p))))
     else
       bindE (signed w (i + 10)) (\<lambda>i.
       bindE (signed w (- i)) (\<lambda>i.
       bindE (put p (digit_char (nat (i mod 10))) buffer) (\<lambda>buffer. let p = p - 1 in
       bindE (signed w (i div 10 + 1)) (\<lambda>i.
       bindE (put_digits 10 digit_char p (nat i) buffer) (\<lambda>(buffer, p).
       bindE (put p (CHR ''-'') buffer) (\<lambda>buffer. Inr (buffer, p)))))))))"

definition kFastInt64ToBufferOffset :: int where
  "kFastInt64ToBufferOffset = 21"

definition kFastInt32ToBufferOffset :: int where
  "kFastInt32ToBufferOffset = 11"

definition FastInt64ToBuffer :: "int \<Rightarrow> string \<Rightarrow> (string \<times> int) fmt" where
  "FastInt64ToBuffer = fast_int_to_buffer 64 kFastInt64ToBufferOffset"

definition FastInt32ToBuffer :: "int \<Rightarrow> string \<Rightarrow> (string \<times> int) fmt" where
  "FastInt32ToBuffer = fast_int_to_buffer 32 kFastInt32ToBufferOffset"

definition FastHexToBuffer :: "int \<Rightarrow> string \<Rightarrow> (string \<times> int) fmt" where
  "FastHexToBuffer i buffer =
     (if \<not> i \<ge> 0 then Inl Fault
      else bindE (put 21 NUL buffer) (\<lambda>buffer.
        bindE (put_digits 16 hex_digit 20 (nat i) buffer) (\<lambda>(buffer, p). Inr (buffer, p + 1))))"

text \<open>The loop of \<open>InternalFastHexToBuffer\<close> counts its index down to 0.\<close>

fun put_hex_digits :: "nat \<Rightarrow> uint64 \<Rightarrow> string \<Rightarrow> string fmt" where
  "put_hex_digits 0 value buffer = Inr buffer"
| "put_hex_digits (Suc i) value buffer =
     bindE (store i (hex_digit (unat ((ucast value :: uint32) AND 0xf))) buffer) (\<lambda>buffer.
     put_hex_digits i (drop_bit 4 value) buffer)"

definition InternalFastHexToBuffer :: "uint64 \<Rightarrow> nat \<Rightarrow> string \<Rightarrow> string fmt" where
  "InternalFastHexToBuffer value num_byte buffer =
     bindE (store num_byte NUL buffer) (put_hex_digits num_byte value)"

definition FastHex64ToBuffer :: "uint64 \<Rightarrow> string \<Rightarrow> string fmt" where
  "FastHex64ToBuffer value buffer = InternalFastHexToBuffer value 16 buffer"

definition FastHex32ToBuffer :: "uint32 \<Rightarrow> string \<Rightarrow> string fmt" where
  "FastHex32ToBuffer value buffer = InternalFastHexToBuffer (ucast value) 8 buffer"

text \<open>\<open>ToHex\<close> writes to the end of an array of 16 characters; the pointer starts behind it.\<close>

definition ToHex :: "uint64 \<Rightarrow> string fmt" where
  "ToHex num =
     (if num = 0 then Inr ''0''
      else bindE (put_digits 16 hex_digit 15 (unat num) (replicate 16 NUL)) (\<lambda>(buf, p). Inr (drop (nat (p + 1)) buf)))"

section \<open>Numbers written two digits at a time\<close>

definition two_ASCII_digits :: "string list" where
  "two_ASCII_digits = [
     ''00'', ''01'', ''02'', ''03'', ''04'', ''05'', ''06'', ''07'', ''08'', ''09'',
     ''10'', ''11'', ''12'', ''13'', ''14'', ''15'', ''16'', ''17'', ''18'', ''19'',
     ''20'', ''21'', ''22'', ''23'', ''24'', ''25'', ''26'', ''27'', ''28'', ''29'',
     ''30'', ''31'', ''32'', ''33'', ''34'', ''35'', ''36'', ''37'', ''38'', ''39'',
     ''40'', ''41'', ''42'', ''43'', ''44'', ''45'', ''46'', ''47'', ''48'', ''49'',
     ''50'', ''51'', ''52'', ''53'', ''54'', ''55'', ''56'', ''57'', ''58'', ''59'',
     ''60'', ''61'', ''62'', ''63'', ''64'', ''65'', ''66'', ''67'', ''68'', ''69'',
     ''70'', ''71'', ''72'', ''73'', ''74'', ''75'', ''76'', ''77'', ''78'', ''79'',
     ''80'', ''81'', ''82'', ''83'', ''84'', ''85'', ''86'', ''87'', ''88'', ''89'',
     ''90'', ''91'', ''92'', ''93'', ''94'', ''95'', ''96'', ''97'', ''98'', ''99'']"

text \<open>
  The characters that are stored from the start of the buffer; a 0 follows them. Each label of the
  original is a definition; \<open>sub\<close> labels are entered with the digits still to be subtracted. The
  table lookup is checked. The variable \<open>digits\<close> is an \<open>int\<close>; the one product that can leave that type,
  \<open>digits * 100000000\<close> for a number from 2200000000 on, and the negation of the smallest value wrap around
  here, as they do on the platform; in C++ they are undefined.
\<close>

definition ascii_digits :: "uint32 \<Rightarrow> string fmt" where
  "ascii_digits digits = checked (mem_get (unat digits) two_ASCII_digits)"

definition lt100 :: "uint32 \<Rightarrow> string fmt" where
  "lt100 u = ascii_digits u"

definition sublt100 :: "uint32 \<Rightarrow> uint32 \<Rightarrow> string fmt" where
  "sublt100 u digits = lt100 (u - digits * 100)"

definition lt10_000 :: "uint32 \<Rightarrow> string fmt" where
  "lt10_000 u = (let digits = u div 100 in
     bindE (ascii_digits digits) (\<lambda>a. bindE (sublt100 u digits) (\<lambda>b. Inr (a @ b))))"

definition sublt10_000 :: "uint32 \<Rightarrow> uint32 \<Rightarrow> string fmt" where
  "sublt10_000 u digits = lt10_000 (u - digits * 10000)"

definition lt1_000_000 :: "uint32 \<Rightarrow> string fmt" where
  "lt1_000_000 u = (let digits = u div 10000 in
     bindE (ascii_digits digits) (\<lambda>a. bindE (sublt10_000 u digits) (\<lambda>b. Inr (a @ b))))"

definition sublt1_000_000 :: "uint32 \<Rightarrow> uint32 \<Rightarrow> string fmt" where
  "sublt1_000_000 u digits = lt1_000_000 (u - digits * 1000000)"

definition lt100_000_000 :: "uint32 \<Rightarrow> string fmt" where
  "lt100_000_000 u = (let digits = u div 1000000 in
     bindE (ascii_digits digits) (\<lambda>a. bindE (sublt1_000_000 u digits) (\<lambda>b. Inr (a @ b))))"

definition sublt100_000_000 :: "uint32 \<Rightarrow> uint32 \<Rightarrow> string fmt" where
  "sublt100_000_000 u digits = lt100_000_000 (u - digits * 100000000)"

text \<open>A single leading digit, \<open>'0' + digits\<close>.\<close>

definition one_digit :: "uint32 \<Rightarrow> string fmt \<Rightarrow> string fmt" where
  "one_digit digits rest = bindE rest (\<lambda>b. Inr (digit_char (unat digits) # b))"

definition FastUInt32ToBufferLeft :: "uint32 \<Rightarrow> string fmt" where
  "FastUInt32ToBufferLeft u =
     (if u \<ge> 1000000000 then
        let digits = u div 100000000 in
        bindE (ascii_digits digits) (\<lambda>a. bindE (sublt100_000_000 u digits) (\<lambda>b. Inr (a @ b)))
      else if u < 100 then
        (if u \<ge> 10 then lt100 u else one_digit u (Inr []))
      else if u < 10000 then
        (if u \<ge> 1000 then lt10_000 u
         else let digits = u div 100 in one_digit digits (sublt100 u digits))
      else if u < 1000000 then
        (if u \<ge> 100000 then lt1_000_000 u
         else let digits = u div 10000 in one_digit digits (sublt10_000 u digits))
      else if u < 100000000 then
        (if u \<ge> 10000000 then lt100_000_000 u
         else let digits = u div 1000000 in one_digit digits (sublt1_000_000 u digits))
      else let digits = u div 100000000 in one_digit digits (sublt100_000_000 u digits))"

text \<open>\<open>u = -i\<close> for a negative \<open>i\<close>: the smallest value wraps around to itself.\<close>

definition FastInt32ToBufferLeft :: "int \<Rightarrow> string fmt" where
  "FastInt32ToBufferLeft i = (let u = word_of_int i :: uint32 in
     if i < 0 then bindE (FastUInt32ToBufferLeft (word_of_int (- i))) (\<lambda>b. Inr (CHR ''-'' # b))
     else FastUInt32ToBufferLeft u)"

function FastUInt64ToBufferLeft :: "uint64 \<Rightarrow> string fmt" where
  "FastUInt64ToBufferLeft u64 = (let u = ucast u64 :: uint32 in
     if ucast u = u64 then FastUInt32ToBufferLeft u
     else
       let top_11_digits = u64 div 1000000000 in
       bindE (FastUInt64ToBufferLeft top_11_digits) (\<lambda>top.
       let u = ucast (u64 - top_11_digits * 1000000000) :: uint32; digits = u div 10000000 in
       bindE (ascii_digits digits) (\<lambda>a.
       let u = u - digits * 10000000; digits = u div 100000 in
       bindE (ascii_digits digits) (\<lambda>b.
       let u = u - digits * 100000; digits = u div 1000 in
       bindE (ascii_digits digits) (\<lambda>c.
       let u = u - digits * 1000; digits = u div 10 in
       bindE (ascii_digits digits) (\<lambda>d.
       let u = u - digits * 10 in
       Inr (top @ a @ b @ c @ d @ [digit_char (unat u)])))))))"
  by pat_completeness auto
termination
proof (relation "measure unat", goal_cases)
  case (2 u64 u top)
  then have "u64 \<noteq> 0" by auto
  then have "0 < unat u64" by (simp add: unat_gt_0)
  then show ?case using 2 by (simp add: unat_div_distrib)
qed simp

declare FastUInt64ToBufferLeft.simps [simp del]

definition FastInt64ToBufferLeft :: "int \<Rightarrow> string fmt" where
  "FastInt64ToBufferLeft i = (let u = word_of_int i :: uint64 in
     if i < 0 then bindE (FastUInt64ToBufferLeft (word_of_int (- i))) (\<lambda>b. Inr (CHR ''-'' # b))
     else FastUInt64ToBufferLeft u)"

section \<open>\<open>SimpleItoa\<close>\<close>

text \<open>The overloads; the local buffer is not initialized. A \<open>char*\<close> result becomes a string up to its 0.\<close>

definition kFastToBufferSize :: nat where
  "kFastToBufferSize = 32"

definition SimpleItoa_int :: "string \<Rightarrow> int \<Rightarrow> string fmt" where
  "SimpleItoa_int buffer i =
     bindE (FastInt32ToBuffer i buffer) (\<lambda>(buffer, p). checked (c_str (drop (nat p) buffer)))"

definition SimpleItoa_int64 :: "string \<Rightarrow> int \<Rightarrow> string fmt" where
  "SimpleItoa_int64 buffer i =
     bindE (FastInt64ToBuffer i buffer) (\<lambda>(buffer, p). checked (c_str (drop (nat p) buffer)))"

definition SimpleItoa_uint32 :: "uint32 \<Rightarrow> string fmt" where
  "SimpleItoa_uint32 i = FastUInt32ToBufferLeft i"

definition SimpleItoa_uint64 :: "uint64 \<Rightarrow> string fmt" where
  "SimpleItoa_uint64 i = FastUInt64ToBufferLeft i"

section \<open>Reading a number\<close>

text \<open>\<open>safe_parse_sign\<close>: spaces are cut off at both ends. \<open>None\<close> is a false result.\<close>

definition safe_parse_sign :: "string \<Rightarrow> (string \<times> bool) option" where
  "safe_parse_sign text = (
     let t = dropWhile (\<lambda>c. c = CHR '' '') text;
         t = rev (dropWhile (\<lambda>c. c = CHR '' '') (rev t)) in
     case t of
       [] \<Rightarrow> None
     | c # r \<Rightarrow>
         (if c = CHR ''-'' \<or> c = CHR ''+'' then
            (if r = [] then None else Some (r, c = CHR ''-''))
          else Some (t, False)))"

definition int32_max :: int where "int32_max = 2147483647"
definition int32_min :: int where "int32_min = - 2147483648"

fun parse_positive_loop :: "int \<Rightarrow> string \<Rightarrow> (bool \<times> int) fmt" where
  "parse_positive_loop value [] = Inr (True, value)"
| "parse_positive_loop value (c # r) = (let digit = int (of_char c) - 48 in
     if digit \<ge> 10 \<or> digit < 0 then Inr (False, value)
     else if value > int32_max div 10 then Inr (False, int32_max)
     else bindE (signed 32 (value * 10)) (\<lambda>value.
       if value > int32_max - digit then Inr (False, int32_max)
       else bindE (signed 32 (value + digit)) (\<lambda>value. parse_positive_loop value r)))"

definition safe_parse_positive_int :: "string \<Rightarrow> (bool \<times> int) fmt" where
  "safe_parse_positive_int text = parse_positive_loop 0 text"

text \<open>The quotient of the negative bound rounds towards 0; the code also allows for rounding down.\<close>

definition vmin_over_base :: int where
  "vmin_over_base = - 214748364"

fun parse_negative_loop :: "int \<Rightarrow> string \<Rightarrow> (bool \<times> int) fmt" where
  "parse_negative_loop value [] = Inr (True, value)"
| "parse_negative_loop value (c # r) = (let digit = int (of_char c) - 48 in
     if digit \<ge> 10 \<or> digit < 0 then Inr (False, value)
     else if value < vmin_over_base then Inr (False, int32_min)
     else bindE (signed 32 (value * 10)) (\<lambda>value.
       if value < int32_min + digit then Inr (False, int32_min)
       else bindE (signed 32 (value - digit)) (\<lambda>value. parse_negative_loop value r)))"

definition safe_parse_negative_int :: "string \<Rightarrow> (bool \<times> int) fmt" where
  "safe_parse_negative_int text = parse_negative_loop 0 text"

text \<open>The result of \<open>safe_int\<close> and the value it stores through its pointer.\<close>

definition safe_int :: "string \<Rightarrow> (bool \<times> int) fmt" where
  "safe_int text = (case safe_parse_sign text of
     None \<Rightarrow> Inr (False, 0)
   | Some (text, negative) \<Rightarrow>
       if \<not> negative then safe_parse_positive_int text else safe_parse_negative_int text)"

section \<open>Specification: positional notation\<close>

function base_notation :: "nat \<Rightarrow> (nat \<Rightarrow> char) \<Rightarrow> nat \<Rightarrow> string" where
  "base_notation base digit n =
     (if base \<le> 1 \<or> n div base = 0 then [digit (n mod base)]
      else base_notation base digit (n div base) @ [digit (n mod base)])"
  by pat_completeness auto
termination
proof (relation "measure (\<lambda>(base, digit, n). n)", goal_cases)
  case (2 base digit n)
  then have "1 < base" "n div base \<noteq> 0" by auto
  moreover from this have "0 < n" by (cases n) auto
  ultimately show ?case by simp
qed simp

declare base_notation.simps [simp del]

text \<open>The last \<open>k\<close> decimal digits, leading zeros included.\<close>

fun last_digits :: "nat \<Rightarrow> nat \<Rightarrow> string" where
  "last_digits 0 n = []"
| "last_digits (Suc k) n = last_digits k (n div 10) @ [digit_char (n mod 10)]"

lemma decimal_base_notation: "decimal n = base_notation 10 digit_char n"
proof (induction n rule: less_induct)
  case (less n)
  show ?case
  proof (cases "n < 10")
    case True
    then show ?thesis by (simp add: base_notation.simps [of 10 digit_char n] decimal.simps [of n])
  next
    case False
    then have "n div 10 \<noteq> 0" by (simp add: div_eq_0_iff)
    then show ?thesis using False less [of "n div 10"]
      by (simp add: base_notation.simps [of 10 digit_char n] decimal.simps [of n])
  qed
qed

lemma base_notation_not_Nil [simp]: "base_notation base digit n \<noteq> []"
  by (simp add: base_notation.simps)

lemma length_last_digits [simp]: "length (last_digits k n) = k"
  by (induction k n rule: last_digits.induct) simp_all

lemma last_digits_add: "last_digits (j + k) n = last_digits j (n div 10 ^ k) @ last_digits k n"
proof (induction k arbitrary: n)
  case (Suc k)
  show ?case using Suc [of "n div 10"] by (simp add: div_mult2_eq)
qed simp

lemma last_digits_mod: "last_digits k (n mod 10 ^ k) = last_digits k n"
proof (induction k arbitrary: n)
  case (Suc k)
  have "n mod 10 ^ Suc k div 10 = n div 10 mod 10 ^ k" by (simp add: mod_mult2_eq)
  moreover have "n mod 10 ^ Suc k mod 10 = n mod 10" by (simp add: mod_mult2_eq)
  ultimately show ?case using Suc [of "n div 10"] by simp
qed simp

lemma decimal_split: "n div 10 ^ k \<noteq> 0 \<Longrightarrow> decimal n = decimal (n div 10 ^ k) @ last_digits k n"
proof (induction k arbitrary: n)
  case (Suc k)
  have d: "n div 10 div 10 ^ k = n div 10 ^ Suc k" by (simp add: div_mult2_eq)
  then have "n div 10 div 10 ^ k \<noteq> 0" using Suc.prems by simp
  moreover from this have "\<not> n < 10" by (intro notI) simp
  ultimately show ?case using Suc.IH [of "n div 10"] d by (simp add: decimal.simps [of n])
qed simp

lemma decimal_last_digits: "10 ^ k \<le> n \<Longrightarrow> n < 10 ^ Suc k \<Longrightarrow> decimal n = last_digits (Suc k) n"
proof (induction k arbitrary: n)
  case 0
  then show ?case by (simp add: decimal_less_10)
next
  case (Suc k)
  have "10 ^ k \<le> n div 10" "n div 10 < 10 ^ Suc k" using Suc.prems
    by (simp_all add: less_eq_div_iff_mult_less_eq div_less_iff_less_mult mult.commute)
  moreover have "\<not> n < 10"
  proof -
    have "1 \<le> (10 :: nat) ^ k" by simp
    then show ?thesis using Suc.prems(1) unfolding power_Suc by linarith
  qed
  ultimately show ?case using Suc.IH [of "n div 10"] by (simp add: decimal.simps [of n])
qed

lemma decimal_width: "k = Suc j \<Longrightarrow> 10 ^ j \<le> n \<Longrightarrow> n < 10 ^ k \<Longrightarrow> decimal n = last_digits k n"
  using decimal_last_digits [of j n] by simp

lemma decimal_lead:
  "0 < k \<Longrightarrow> n div 10 ^ k \<noteq> 0 \<Longrightarrow> n div 10 ^ k < 10 \<Longrightarrow> decimal n = digit_char (n div 10 ^ k) # last_digits k n"
  using decimal_split [of n k] by (simp add: decimal_less_10)

lemma length_decimal_le: "m < 10 ^ d \<Longrightarrow> 0 < d \<Longrightarrow> length (decimal m) \<le> d"
proof (induction d arbitrary: m)
  case (Suc d)
  show ?case
  proof (cases "m < 10")
    case False
    then have "0 < d" using Suc.prems by (cases d) simp_all
    moreover have "m div 10 < 10 ^ d" using Suc.prems by (simp add: div_less_iff_less_mult mult.commute)
    ultimately show ?thesis using Suc.IH [of "m div 10"] False by (simp add: decimal.simps [of m])
  qed (simp add: decimal_less_10)
qed simp

section \<open>Writing backwards\<close>

lemma put_at: "p = int (length a) \<Longrightarrow> put p c (a @ y # r) = Inr (a @ c # r)"
  by (simp add: put_def store_def)

lemma put_digits_eq:
  "1 < base \<Longrightarrow> length x = length (base_notation base digit n) \<Longrightarrow> p = int (length a + length x) - 1 \<Longrightarrow>
     put_digits base digit p n (a @ x @ r) = Inr (a @ base_notation base digit n @ r, int (length a) - 1)"
proof (induction n arbitrary: x p r rule: less_induct)
  case (less n)
  obtain x' y where x: "x = x' @ [y]"
    using less.prems(2) by (cases x rule: rev_cases) auto
  have p: "p = int (length (a @ x'))" using less.prems(3) x by simp
  have st: "put p c (a @ x @ r) = Inr ((a @ x') @ c # r)" for c
    using put_at [OF p, of c y r] x by simp
  show ?case
  proof (cases "n div base = 0")
    case True
    then have "x' = []" using less.prems(2) x by (simp add: base_notation.simps [of base digit n])
    then show ?thesis using True p unfolding put_digits.simps [of base digit p n "a @ x @ r"] st
      by (simp add: base_notation.simps [of base digit n])
  next
    case False
    then have "n div base < n" using less.prems(1) by (cases n) auto
    moreover have "length x' = length (base_notation base digit (n div base))"
      using False less.prems(1,2) x by (simp add: base_notation.simps [of base digit n])
    ultimately have "put_digits base digit (p - 1) (n div base) (a @ x' @ digit (n mod base) # r) =
        Inr (a @ base_notation base digit (n div base) @ digit (n mod base) # r, int (length a) - 1)"
      by (rule less.IH [OF _ less.prems(1)]) (use p in simp)
    then show ?thesis using False less.prems(1) st
      by (simp add: put_digits.simps [of base digit p n] base_notation.simps [of base digit n])
  qed
qed

lemma buffer_parts:
  assumes "n \<le> off" and "off < length buffer"
  obtains y where "buffer = take (off - n) buffer @ take n (drop (off - n) buffer) @ y # drop (off + 1) buffer"
    and "length (take (off - n) buffer) = off - n" and "length (take n (drop (off - n) buffer)) = n"
proof -
  have "buffer = take off buffer @ buffer ! off # drop (off + 1) buffer"
    using assms(2) id_take_nth_drop [of off buffer] by simp
  moreover have "take off buffer = take (off - n) buffer @ take n (drop (off - n) buffer)"
    using take_add [of "off - n" n buffer] assms(1) by simp
  ultimately show ?thesis using that [of "buffer ! off"] assms by simp
qed

lemma fast_int_to_buffer_eq:
  assumes "signed_range w i" and "5 < w" and "length (signed_decimal i) \<le> off" and "off < length buffer"
  shows "fast_int_to_buffer w (int off) i buffer =
    Inr (take (off - length (signed_decimal i)) buffer @ signed_decimal i @ NUL # drop (off + 1) buffer,
      int (off - length (signed_decimal i)))"
proof -
  let ?n = "length (signed_decimal i)"
  obtain y where y: "buffer = take (off - ?n) buffer @ take ?n (drop (off - ?n) buffer) @ y # drop (off + 1) buffer"
    "length (take (off - ?n) buffer) = off - ?n" "length (take ?n (drop (off - ?n) buffer)) = ?n"
    by (rule buffer_parts [OF assms(3,4)])
  define a x r where "a = take (off - ?n) buffer" and "x = take ?n (drop (off - ?n) buffer)" and "r = drop (off + 1) buffer"
  have b: "buffer = a @ x @ y # r" and la: "length a = off - ?n" and lx: "length x = ?n" and lo: "off = length a + length x"
    using y assms(3) by (simp_all add: a_def x_def r_def)
  have nul: "put (int off) NUL buffer = Inr (a @ x @ NUL # r)"
    using put_at [of "int off" "a @ x" NUL y r] b lo by simp
  have goal: "fast_int_to_buffer w (int off) i buffer = Inr (a @ signed_decimal i @ NUL # r, int (length a))"
  proof (cases "i \<ge> 0")
    case True
    have "put_digits 10 digit_char (int off - 1) (nat i) (a @ x @ NUL # r) =
        Inr (a @ base_notation 10 digit_char (nat i) @ NUL # r, int (length a) - 1)"
      by (rule put_digits_eq) (use True lo lx in \<open>simp_all add: signed_decimal_def decimal_base_notation\<close>)
    then show ?thesis using True nul
      by (simp add: fast_int_to_buffer_def signed_decimal_def decimal_base_notation)
  next
    case neg: False
    then obtain n where n: "i = - int n" "0 < n" by (metis not_le neg_0_less_iff_less pos_int_cases add.inverse_inverse)
    have sd: "signed_decimal i = CHR ''-'' # decimal n" using n by (simp add: signed_decimal_def)
    then obtain m x' where x: "x = m # x'" "length x' = length (decimal n)" using lx by (cases x) auto
    have minus: "put (int (length a)) (CHR ''-'') (a @ m # z) = Inr (a @ CHR ''-'' # z)" for z
      by (rule put_at) simp
    have p32: "(32 :: int) \<le> 2 ^ (w - 1)" using power_increasing [of 5 "w - 1" "2 :: int"] assms(2) by simp
    show ?thesis
    proof (cases "n < 10")
      case True
      then have d: "decimal n = [digit_char n]" by (simp add: decimal_less_10)
      then obtain m' where x': "x' = [m']" using x(2) by (cases x') auto
      have "put (int off - 1) c (a @ x @ NUL # r) = Inr (a @ m # c # NUL # r)" for c
        using put_at [of "int off - 1" "a @ [m]" c m' "NUL # r"] x(1) x' lo by simp
      moreover have "signed_range w (int n)" using True p32 unfolding signed_range_def by linarith
      then have "signed w (int n) = Inr (int n)" by (simp add: signed_def)
      moreover have "int off - 1 - 1 = int (length a)" using lo x(1) x' by simp
      ultimately show ?thesis using neg nul True n minus [of "digit_char n # NUL # r"] sd d
        by (simp add: fast_int_to_buffer_def Let_def)
    next
      case False
      then have ge: "10 \<le> n" by simp
      have s: "signed w (10 - int n) = Inr (10 - int n)" "signed w (int n - 10) = Inr (int n - 10)"
        "signed w ((int n - 10) div 10 + 1) = Inr ((int n - 10) div 10 + 1)"
      proof -
        have lo': "- (2 ^ (w - 1)) \<le> - int n" using assms(1) n(1) by (simp add: signed_range_def)
        have q: "(int n - 10) div 10 \<le> int n - 10" using ge by linarith
        have "0 \<le> (int n - 10) div 10" using ge by (simp add: pos_imp_zdiv_nonneg_iff)
        then have s: "signed_range w (10 - int n)" "signed_range w (int n - 10)" "signed_range w ((int n - 10) div 10 + 1)"
          using lo' ge q p32 unfolding signed_range_def by linarith+
        show "signed w (10 - int n) = Inr (10 - int n)" "signed w (int n - 10) = Inr (int n - 10)"
          "signed w ((int n - 10) div 10 + 1) = Inr ((int n - 10) div 10 + 1)"
          using s by (simp_all add: signed_def)
      qed
      have "(int n - 10) mod 10 = int (n mod 10)" by (simp add: minus_mod_self2 zmod_int)
      then have q: "nat ((int n - 10) div 10 + 1) = n div 10" "nat ((int n - 10) mod 10) = n mod 10"
        using ge by (linarith, simp)
      have d: "decimal n = base_notation 10 digit_char (n div 10) @ [digit_char (n mod 10)]"
        using ge decimal.simps [of n] by (simp add: decimal_base_notation)
      obtain x1 m' where x': "x' = x1 @ [m']" "length x1 = length (base_notation 10 digit_char (n div 10))"
        using x(2) d by (cases x' rule: rev_cases) auto
      have st: "put (int off - 1) c (a @ x @ NUL # r) = Inr ((a @ [m]) @ x1 @ c # NUL # r)" for c
        using put_at [of "int off - 1" "a @ m # x1" c m' "NUL # r"] x(1) x' lo by simp
      have pd: "put_digits 10 digit_char (int off - 1 - 1) (n div 10) ((a @ [m]) @ x1 @ c # NUL # r) =
          Inr ((a @ [m]) @ base_notation 10 digit_char (n div 10) @ c # NUL # r, int (length (a @ [m])) - 1)" for c
        by (rule put_digits_eq) (use x(1) x' lo in simp_all)
      have "i + 10 = 10 - int n" "- (10 - int n) = int n - 10" "\<not> i > - 10" using n(1) ge by simp_all
      then show ?thesis using neg nul s q st pd minus sd d
        by (simp add: fast_int_to_buffer_def Let_def)
    qed
  qed
  then show ?thesis using la by (simp add: a_def r_def)
qed


section \<open>Writing two digits at a time\<close>

lemma two_ASCII_digits_table: "two_ASCII_digits = map (\<lambda>d. [digit_char (d div 10), digit_char (d mod 10)]) [0..<100]"
  by code_simp

lemma ascii_digits_eq: "unat d < 100 \<Longrightarrow> ascii_digits d = Inr (last_digits 2 (unat d))"
  by (simp add: ascii_digits_def two_ASCII_digits_table mem_get_def numeral_2_eq_2)

text \<open>Subtracting the digits already written leaves the remainder.\<close>

lemma sub_digits:
  assumes "unat d = unat u div k" and "0 < k"
  shows "unat (u - d * of_nat k :: 'a::len word) = unat u mod k"
proof -
  have "u - d * of_nat k = of_nat (unat u) - of_nat (unat d) * of_nat k" by simp
  also have "\<dots> = of_nat (unat u) - of_nat (unat u div k * k)" using assms by simp
  also have "\<dots> = of_nat (unat u - unat u div k * k)" by (simp add: of_nat_diff)
  also have "unat u - unat u div k * k = unat u mod k" by (simp add: minus_div_mult_eq_mod)
  finally have "u - d * of_nat k = of_nat (unat u mod k)" .
  moreover have "unat u mod k \<le> unat u" by simp
  then have "unat u mod k < 2 ^ LENGTH('a)" using unsigned_less [of u, where ?'a = nat] by (rule le_less_trans)
  ultimately show ?thesis by (simp add: unat_of_nat take_bit_nat_eq_self_iff)
qed

lemma lt100_eq: "unat u < 100 \<Longrightarrow> lt100 u = Inr (last_digits 2 (unat u))"
  by (simp add: lt100_def ascii_digits_eq)

lemma sublt100_eq: "unat d = unat u div 100 \<Longrightarrow> sublt100 u d = Inr (last_digits 2 (unat u))"
  using sub_digits [of d u 100] last_digits_mod [of 2 "unat u"] by (simp add: sublt100_def lt100_eq)

lemma lt10_000_eq: "unat u < 10000 \<Longrightarrow> lt10_000 u = Inr (last_digits 4 (unat u))"
  using last_digits_add [of 2 2 "unat u"]
  by (simp add: lt10_000_def ascii_digits_eq sublt100_eq unat_div_distrib div_less_iff_less_mult)

lemma sublt10_000_eq: "unat d = unat u div 10000 \<Longrightarrow> sublt10_000 u d = Inr (last_digits 4 (unat u))"
  using sub_digits [of d u 10000] last_digits_mod [of 4 "unat u"] by (simp add: sublt10_000_def lt10_000_eq)

lemma lt1_000_000_eq: "unat u < 1000000 \<Longrightarrow> lt1_000_000 u = Inr (last_digits 6 (unat u))"
  using last_digits_add [of 2 4 "unat u"]
  by (simp add: lt1_000_000_def ascii_digits_eq sublt10_000_eq unat_div_distrib div_less_iff_less_mult)

lemma sublt1_000_000_eq: "unat d = unat u div 1000000 \<Longrightarrow> sublt1_000_000 u d = Inr (last_digits 6 (unat u))"
  using sub_digits [of d u 1000000] last_digits_mod [of 6 "unat u"] by (simp add: sublt1_000_000_def lt1_000_000_eq)

lemma lt100_000_000_eq: "unat u < 100000000 \<Longrightarrow> lt100_000_000 u = Inr (last_digits 8 (unat u))"
  using last_digits_add [of 2 6 "unat u"]
  by (simp add: lt100_000_000_def ascii_digits_eq sublt1_000_000_eq unat_div_distrib div_less_iff_less_mult)

lemma sublt100_000_000_eq: "unat d = unat u div 100000000 \<Longrightarrow> sublt100_000_000 u d = Inr (last_digits 8 (unat u))"
  using sub_digits [of d u 100000000] last_digits_mod [of 8 "unat u"] by (simp add: sublt100_000_000_def lt100_000_000_eq)

lemma one_digit_eq: "one_digit d (Inr s) = Inr (digit_char (unat d) # s)"
  by (simp add: one_digit_def)

lemmas label_eqs = lt100_eq sublt100_eq lt10_000_eq sublt10_000_eq lt1_000_000_eq sublt1_000_000_eq
  lt100_000_000_eq sublt100_000_000_eq one_digit_eq

lemma FastUInt32ToBufferLeft_eq: "FastUInt32ToBufferLeft u = Inr (decimal (unat u))"
proof -
  note N = decimal_width [of _ _ "unat u"] and L = decimal_lead [of _ "unat u"]
  have C: "1000000000 \<le> u \<longleftrightarrow> 1000000000 \<le> unat u" "u < 100 \<longleftrightarrow> unat u < 100" "10 \<le> u \<longleftrightarrow> 10 \<le> unat u"
    "u < 10000 \<longleftrightarrow> unat u < 10000" "1000 \<le> u \<longleftrightarrow> 1000 \<le> unat u" "u < 1000000 \<longleftrightarrow> unat u < 1000000"
    "100000 \<le> u \<longleftrightarrow> 100000 \<le> unat u" "u < 100000000 \<longleftrightarrow> unat u < 100000000" "10000000 \<le> u \<longleftrightarrow> 10000000 \<le> unat u"
    by (simp_all add: word_le_nat_alt word_less_nat_alt)
  have max: "unat u < 4294967296" using unsigned_less [of u, where ?'a = nat] by simp
  consider "unat u < 10" | "10 \<le> unat u" "unat u < 100" | "100 \<le> unat u" "unat u < 1000"
    | "1000 \<le> unat u" "unat u < 10000" | "10000 \<le> unat u" "unat u < 100000"
    | "100000 \<le> unat u" "unat u < 1000000" | "1000000 \<le> unat u" "unat u < 10000000"
    | "10000000 \<le> unat u" "unat u < 100000000" | "100000000 \<le> unat u" "unat u < 1000000000"
    | "1000000000 \<le> unat u" by linarith
  then show ?thesis
  proof cases
    case 1
    then show ?thesis by (simp add: FastUInt32ToBufferLeft_def C label_eqs decimal_less_10)
  next
    case 2
    then show ?thesis using N [of 2 1]
      by (simp add: FastUInt32ToBufferLeft_def C label_eqs)
  next
    case 3
    then show ?thesis using L [of 2]
      by (simp add: FastUInt32ToBufferLeft_def C label_eqs unat_div_distrib div_less_iff_less_mult div_eq_0_iff)
  next
    case 4
    then show ?thesis using N [of 4 3]
      by (simp add: FastUInt32ToBufferLeft_def C label_eqs)
  next
    case 5
    then show ?thesis using L [of 4]
      by (simp add: FastUInt32ToBufferLeft_def C label_eqs unat_div_distrib div_less_iff_less_mult div_eq_0_iff)
  next
    case 6
    then show ?thesis using N [of 6 5]
      by (simp add: FastUInt32ToBufferLeft_def C label_eqs)
  next
    case 7
    then show ?thesis using L [of 6]
      by (simp add: FastUInt32ToBufferLeft_def C label_eqs unat_div_distrib div_less_iff_less_mult div_eq_0_iff)
  next
    case 8
    then show ?thesis using N [of 8 7]
      by (simp add: FastUInt32ToBufferLeft_def C label_eqs)
  next
    case 9
    then show ?thesis using L [of 8]
      by (simp add: FastUInt32ToBufferLeft_def C label_eqs unat_div_distrib div_less_iff_less_mult div_eq_0_iff)
  next
    case 10
    then have "unat u div 100000000 < 100" "10 \<le> unat u div 100000000"
      using max by (simp_all add: div_less_iff_less_mult less_eq_div_iff_mult_less_eq)
    then show ?thesis using 10 decimal_split [of "unat u" 8] decimal_width [of 2 1 "unat u div 100000000"]
      by (simp add: FastUInt32ToBufferLeft_def C label_eqs unat_div_distrib ascii_digits_eq)
  qed
qed


lemma unat_ucast_less: "unat (w :: 'a::len word) < 2 ^ LENGTH('b) \<Longrightarrow> unat (ucast w :: 'b::len word) = unat w"
  by (simp add: unsigned_ucast_eq take_bit_nat_eq_self_iff flip: take_bit_nat_eq_self_iff)

lemma ucast32_eq_iff: "ucast (ucast (u :: uint64) :: uint32) = u \<longleftrightarrow> unat u < 2 ^ 32"
proof
  assume "ucast (ucast u :: uint32) = u"
  then have "unat u = unat (ucast (ucast u :: uint32) :: uint64)" by simp
  also have "\<dots> = unat (ucast u :: uint32)"
    using unsigned_less [of "ucast u :: uint32", where ?'a = nat] by (intro unat_ucast_less) simp
  also have "\<dots> < 2 ^ 32" using unsigned_less [of "ucast u :: uint32", where ?'a = nat] by simp
  finally show "unat u < 2 ^ 32" .
next
  assume "unat u < 2 ^ 32"
  then have "unat (ucast (ucast u :: uint32) :: uint64) = unat u"
    using unat_ucast_less [of u, where ?'b = 32] unat_ucast_less [of "ucast u :: uint32", where ?'b = 64] by simp
  then show "ucast (ucast u :: uint32) = u" by (simp only: word_unat_eq_iff)
qed

lemma FastUInt64ToBufferLeft_eq: "FastUInt64ToBufferLeft u64 = Inr (decimal (unat u64))"
proof (induction u64 rule: FastUInt64ToBufferLeft.induct)
  case (1 u64)
  show ?case
  proof (cases "unat u64 < 2 ^ 32")
    case True
    then show ?thesis using unat_ucast_less [of u64, where ?'b = 32]
      by (simp add: FastUInt64ToBufferLeft.simps [of u64] ucast32_eq_iff FastUInt32ToBufferLeft_eq)
  next
    case False
    let ?top = "u64 div 1000000000" and ?n = "unat u64"
    have top: "unat ?top = ?n div 1000000000" by (simp add: unat_div_distrib)
    have IH: "FastUInt64ToBufferLeft ?top = Inr (decimal (?n div 1000000000))"
      using 1 [OF refl _ refl] False top by (simp add: ucast32_eq_iff)
    define u where "u = (ucast (u64 - ?top * 1000000000) :: uint32)"
    have u: "unat u = ?n mod 1000000000"
    proof -
      have "unat (u64 - ?top * 1000000000) = ?n mod 1000000000"
        using sub_digits [of ?top u64 1000000000] top by simp
      moreover have "?n mod 1000000000 < 2 ^ 32" by (rule less_trans [of _ 1000000000]) simp_all
      ultimately show ?thesis unfolding u_def
        using unat_ucast_less [of "u64 - ?top * 1000000000", where ?'b = 32] by simp
    qed
    have m: "unat u < 1000000000" using u by simp
    define u2 where "u2 = u - u div 10000000 * 10000000"
    define u3 where "u3 = u2 - u2 div 100000 * 100000"
    define u4 where "u4 = u3 - u3 div 1000 * 1000"
    define u5 where "u5 = u4 - u4 div 10 * 10"
    have v: "unat u2 = unat u mod 10000000" "unat u3 = unat u2 mod 100000" "unat u4 = unat u3 mod 1000" "unat u5 = unat u4 mod 10"
      using sub_digits [of "u div 10000000" u 10000000] sub_digits [of "u2 div 100000" u2 100000]
        sub_digits [of "u3 div 1000" u3 1000] sub_digits [of "u4 div 10" u4 10]
      by (simp_all add: u2_def u3_def u4_def u5_def unat_div_distrib)
    have A: "ascii_digits (u div 10000000) = Inr (last_digits 2 (unat u div 10000000))"
      "ascii_digits (u2 div 100000) = Inr (last_digits 2 (unat u2 div 100000))"
      "ascii_digits (u3 div 1000) = Inr (last_digits 2 (unat u3 div 1000))"
      "ascii_digits (u4 div 10) = Inr (last_digits 2 (unat u4 div 10))"
      using m v by (subst ascii_digits_eq; simp add: unat_div_distrib div_less_iff_less_mult)+
    have D: "last_digits 9 (unat u) = last_digits 2 (unat u div 10000000) @ last_digits 2 (unat u2 div 100000) @
        last_digits 2 (unat u3 div 1000) @ last_digits 2 (unat u4 div 10) @ [digit_char (unat u5)]"
    proof -
      have 1: "last_digits 9 n = last_digits 2 (n div 10000000) @ last_digits 7 (n mod 10000000)" for n
        using last_digits_add [of 2 7 n] last_digits_mod [of 7 n] by simp
      have 2: "last_digits 7 n = last_digits 2 (n div 100000) @ last_digits 5 (n mod 100000)" for n
        using last_digits_add [of 2 5 n] last_digits_mod [of 5 n] by simp
      have 3: "last_digits 5 n = last_digits 2 (n div 1000) @ last_digits 3 (n mod 1000)" for n
        using last_digits_add [of 2 3 n] last_digits_mod [of 3 n] by simp
      have 4: "last_digits 3 n = last_digits 2 (n div 10) @ [digit_char (n mod 10)]" for n
        using last_digits_add [of 2 1 n] by simp
      show ?thesis unfolding v 1 2 3 4 ..
    qed
    have "decimal ?n = decimal (?n div 1000000000) @ last_digits 9 (unat u)"
      using decimal_split [of ?n 9] last_digits_mod [of 9 ?n] u False by (simp add: div_eq_0_iff)
    then show ?thesis using A D IH False
      by (simp add: FastUInt64ToBufferLeft.simps [of u64] Let_def ucast32_eq_iff flip: u_def u2_def u3_def u4_def u5_def)
  qed
qed

lemma unat_minus_int:
  assumes "i < 0" and "- (2 ^ (LENGTH('a) - 1)) \<le> i"
  shows "unat (word_of_int (- i) :: 'a::len word) = nat (- i)"
proof -
  have "LENGTH('a) = Suc (LENGTH('a) - 1)" by simp
  then have "(2 :: int) ^ LENGTH('a) = 2 * 2 ^ (LENGTH('a) - 1)" by (metis power_Suc)
  then have i: "- i < 2 ^ LENGTH('a)" using assms by linarith
  obtain n where n: "- i = int n" using assms(1) by (metis less_imp_le neg_0_le_iff_le nonneg_int_cases)
  then have "n < 2 ^ LENGTH('a)" using i by simp
  then show ?thesis unfolding n by (simp add: unat_of_nat take_bit_nat_eq_self_iff)
qed

lemma FastInt32ToBufferLeft_eq: "signed_range 32 i \<Longrightarrow> FastInt32ToBufferLeft i = Inr (signed_decimal i)"
  using unat_minus_int [of i, where ?'a = 32]
  by (cases "i < 0")
     (simp_all add: FastInt32ToBufferLeft_def FastUInt32ToBufferLeft_eq signed_decimal_def signed_range_def unsigned_of_int take_bit_int_eq_self)

lemma FastInt64ToBufferLeft_eq: "signed_range 64 i \<Longrightarrow> FastInt64ToBufferLeft i = Inr (signed_decimal i)"
  using unat_minus_int [of i, where ?'a = 64]
  by (cases "i < 0")
     (simp_all add: FastInt64ToBufferLeft_def FastUInt64ToBufferLeft_eq signed_decimal_def signed_range_def unsigned_of_int take_bit_int_eq_self)

section \<open>Hexadecimal text\<close>

lemma length_base_notation_le: "1 < base \<Longrightarrow> m < base ^ d \<Longrightarrow> 0 < d \<Longrightarrow> length (base_notation base digit m) \<le> d"
proof (induction d arbitrary: m)
  case (Suc d)
  show ?case
  proof (cases "m div base = 0")
    case False
    then have "0 < d" using Suc.prems by (cases d) simp_all
    moreover have "m div base < base ^ d" using Suc.prems by (simp add: div_less_iff_less_mult mult.commute)
    ultimately show ?thesis using Suc.IH [of "m div base"] False Suc.prems(1) by (simp add: base_notation.simps [of base digit m])
  qed (simp add: base_notation.simps)
qed simp

lemma FastHexToBuffer_eq:
  assumes "0 \<le> i" and "i < 2 ^ 31" and "22 \<le> length buffer"
  shows "FastHexToBuffer i buffer =
    (let s = base_notation 16 hex_digit (nat i) in
     Inr (take (21 - length s) buffer @ s @ NUL # drop 22 buffer, int (21 - length s)))"
proof -
  let ?s = "base_notation 16 hex_digit (nat i)"
  have n: "length ?s \<le> 8" by (rule length_base_notation_le) (use assms in auto)
  then have le: "length ?s \<le> 21" and lt: "21 < length buffer" using assms(3) by simp_all
  obtain y where y: "buffer = take (21 - length ?s) buffer @ take (length ?s) (drop (21 - length ?s) buffer) @ y # drop (21 + 1) buffer"
    "length (take (21 - length ?s) buffer) = 21 - length ?s" "length (take (length ?s) (drop (21 - length ?s) buffer)) = length ?s"
    by (rule buffer_parts [OF le lt])
  define a x r where "a = take (21 - length ?s) buffer" and "x = take (length ?s) (drop (21 - length ?s) buffer)" and "r = drop 22 buffer"
  have b: "buffer = a @ x @ y # r" and la: "length a = 21 - length ?s" and lx: "length x = length ?s"
    using y by (simp_all add: a_def x_def r_def)
  have "put 21 NUL buffer = Inr (a @ x @ NUL # r)"
    using put_at [of 21 "a @ x" NUL y r] b la lx le by simp
  moreover have "put_digits 16 hex_digit 20 (nat i) (a @ x @ NUL # r) = Inr (a @ ?s @ NUL # r, int (length a) - 1)"
    by (rule put_digits_eq) (use la lx le in simp_all)
  ultimately show ?thesis using assms(1) la by (simp add: FastHexToBuffer_def Let_def a_def r_def)
qed

lemma ToHex_eq: "ToHex num = Inr (base_notation 16 hex_digit (unat num))"
proof (cases "num = 0")
  case True
  then show ?thesis by (simp add: ToHex_def base_notation.simps hex_digit_def) code_simp
next
  case False
  let ?s = "base_notation 16 hex_digit (unat num)"
  have n: "length ?s \<le> 16" by (rule length_base_notation_le) (use unsigned_less [of num, where ?'a = nat] in simp_all)
  have "replicate 16 NUL = replicate (16 - length ?s) NUL @ replicate (length ?s) NUL @ []"
    using n by (simp flip: replicate_add)
  moreover have "put_digits 16 hex_digit 15 (unat num) (replicate (16 - length ?s) NUL @ replicate (length ?s) NUL @ []) =
      Inr (replicate (16 - length ?s) NUL @ ?s @ [], int (length (replicate (16 - length ?s) NUL)) - 1)"
    by (rule put_digits_eq) (use n in simp_all)
  ultimately show ?thesis using False by (simp add: ToHex_def)
qed

fun last_hex_digits :: "nat \<Rightarrow> nat \<Rightarrow> string" where
  "last_hex_digits 0 n = []"
| "last_hex_digits (Suc k) n = last_hex_digits k (n div 16) @ [hex_digit (n mod 16)]"

lemma low_nibble: "unat ((ucast (v :: uint64) :: uint32) AND 0xf) = unat v mod 16"
proof -
  have "(ucast v :: uint32) AND 0xf = take_bit 4 (ucast v)" by (simp add: take_bit_eq_mask mask_eq_exp_minus_1)
  then have "unat ((ucast v :: uint32) AND 0xf) = take_bit 4 (take_bit 32 (unat v))"
    by (simp add: unsigned_take_bit_eq unsigned_ucast_eq)
  then show ?thesis by (simp add: take_bit_take_bit) (simp add: take_bit_eq_mod)
qed

lemma put_hex_digits_eq:
  "k \<le> length buffer \<Longrightarrow> put_hex_digits k v buffer = Inr (last_hex_digits k (unat v) @ drop k buffer)"
proof (induction k arbitrary: v buffer)
  case (Suc k)
  have "unat (drop_bit 4 v) = unat v div 16" by (subst unat_drop_bit_eq) (simp add: drop_bit_eq_div)
  then have "put_hex_digits k (drop_bit 4 v) (buffer[k := hex_digit (unat v mod 16)]) =
      Inr (last_hex_digits k (unat v div 16) @ drop k (buffer[k := hex_digit (unat v mod 16)]))"
    using Suc.IH [of "buffer[k := hex_digit (unat v mod 16)]" "drop_bit 4 v"] Suc.prems by simp
  moreover have "drop k (buffer[k := c]) = c # drop (Suc k) buffer" for c
    using Suc.prems Cons_nth_drop_Suc [of k "buffer[k := c]"] by simp
  ultimately show ?case using Suc.prems by (simp add: store_def low_nibble)
qed simp

lemma FastHex64ToBuffer_eq:
  "17 \<le> length buffer \<Longrightarrow> FastHex64ToBuffer v buffer = Inr (last_hex_digits 16 (unat v) @ NUL # drop 17 buffer)"
  using Cons_nth_drop_Suc [of 16 "buffer[16 := NUL]"]
  by (simp add: FastHex64ToBuffer_def InternalFastHexToBuffer_def store_def put_hex_digits_eq)

lemma FastHex32ToBuffer_eq:
  "9 \<le> length buffer \<Longrightarrow> FastHex32ToBuffer v buffer = Inr (last_hex_digits 8 (unat v) @ NUL # drop 9 buffer)"
  using Cons_nth_drop_Suc [of 8 "buffer[8 := NUL]"] unat_ucast_less [of v, where ?'b = 64] unsigned_less [of v, where ?'a = nat]
  by (simp add: FastHex32ToBuffer_def InternalFastHexToBuffer_def store_def put_hex_digits_eq)

section \<open>Reading a number\<close>

definition digit_value :: "nat \<Rightarrow> string \<Rightarrow> nat" where
  "digit_value = foldl (\<lambda>v c. v * 10 + (of_char c - 48))"

definition digits_only :: "string \<Rightarrow> bool" where
  "digits_only s \<longleftrightarrow> list_all (\<lambda>c. 48 \<le> (of_char c :: nat) \<and> (of_char c :: nat) \<le> 57) s"

lemma of_char_digit_char [simp]: "d < 10 \<Longrightarrow> of_char (digit_char d) = (48 + d :: nat)"
  by (simp add: digit_char_def)

lemma digit_value_ge: "v \<le> digit_value v s"
proof (induction s arbitrary: v)
  case (Cons c s)
  have "v \<le> v * 10 + (of_char c - 48)" by simp
  also have "\<dots> \<le> digit_value (v * 10 + (of_char c - 48)) s" by (rule Cons)
  finally show ?case by (simp add: digit_value_def)
qed (simp add: digit_value_def)

lemma digit_value_decimal: "digit_value 0 (decimal n) = n"
proof (induction n rule: decimal.induct)
  case (1 n)
  then show ?case by (cases "n < 10") (simp_all add: decimal.simps [of n] digit_value_def)
qed

lemma digits_only_decimal: "digits_only (decimal n)"
proof (induction n rule: decimal.induct)
  case (1 n)
  then show ?case by (cases "n < 10") (simp_all add: decimal.simps [of n] digits_only_def)
qed

lemma parse_positive_loop_eq:
  "digits_only s \<Longrightarrow> int v \<le> int32_max \<Longrightarrow> parse_positive_loop (int v) s =
     Inr (if int (digit_value v s) \<le> int32_max then (True, int (digit_value v s)) else (False, int32_max))"
proof (induction s arbitrary: v)
  case (Cons c s)
  obtain d where d: "of_char c = 48 + d" "d \<le> (9 :: nat)"
    using Cons.prems(1) by (auto simp: digits_only_def intro: that [of "(of_char c :: nat) - 48"])
  have dv: "digit_value v (c # s) = digit_value (v * 10 + d) s" by (simp add: digit_value_def d)
  have ge: "v * 10 + d \<le> digit_value v (c # s)" unfolding dv by (rule digit_value_ge)
  have s: "digits_only s" using Cons.prems(1) by (simp add: digits_only_def)
  consider "int v > int32_max div 10" | "int v \<le> int32_max div 10" "int v * 10 > int32_max - int d"
    | "int v \<le> int32_max div 10" "int v * 10 + int d \<le> int32_max" by linarith
  then show ?case
  proof cases
    case 1
    then have "int (digit_value v (c # s)) > int32_max" using ge by (simp add: int32_max_def)
    then show ?thesis using 1 d by simp
  next
    case 2
    then have "int (digit_value v (c # s)) > int32_max" using ge by simp
    moreover have "signed 32 (int v * 10) = Inr (int v * 10)"
      using 2 by (simp add: signed_def signed_range_def int32_max_def)
    ultimately show ?thesis using 2 d by (simp add: Let_def)
  next
    case 3
    have "signed 32 (int v * 10) = Inr (int v * 10)" "signed 32 (int v * 10 + int d) = Inr (int (v * 10 + d))"
      using 3 by (simp_all add: signed_def signed_range_def int32_max_def)
    moreover have "int (v * 10 + d) \<le> int32_max" using 3 by simp
    ultimately show ?thesis using 3 d Cons.IH [OF s, of "v * 10 + d"] dv by (simp add: Let_def)
  qed
qed (simp add: digit_value_def)

lemma parse_negative_loop_eq:
  "digits_only s \<Longrightarrow> int32_min \<le> - int v \<Longrightarrow> parse_negative_loop (- int v) s =
     Inr (if int32_min \<le> - int (digit_value v s) then (True, - int (digit_value v s)) else (False, int32_min))"
proof (induction s arbitrary: v)
  case (Cons c s)
  obtain d where d: "of_char c = 48 + d" "d \<le> (9 :: nat)"
    using Cons.prems(1) by (auto simp: digits_only_def intro: that [of "(of_char c :: nat) - 48"])
  have dv: "digit_value v (c # s) = digit_value (v * 10 + d) s" by (simp add: digit_value_def d)
  have ge: "v * 10 + d \<le> digit_value v (c # s)" unfolding dv by (rule digit_value_ge)
  have s: "digits_only s" using Cons.prems(1) by (simp add: digits_only_def)
  consider "- int v < vmin_over_base" | "vmin_over_base \<le> - int v" "- int v * 10 < int32_min + int d"
    | "vmin_over_base \<le> - int v" "int32_min \<le> - int v * 10 - int d" by linarith
  then show ?case
  proof cases
    case 1
    then have "- int (digit_value v (c # s)) < int32_min" using ge by (simp add: int32_min_def vmin_over_base_def)
    then show ?thesis using 1 d by simp
  next
    case 2
    then have "- int (digit_value v (c # s)) < int32_min" using ge by simp
    moreover have "signed 32 (- int v * 10) = Inr (- int v * 10)"
      using 2 by (simp add: signed_def signed_range_def vmin_over_base_def)
    ultimately show ?thesis using 2 d by (simp add: Let_def)
  next
    case 3
    have "signed 32 (- int v * 10) = Inr (- int v * 10)" "signed 32 (- int v * 10 - int d) = Inr (- int (v * 10 + d))"
      using 3 by (simp_all add: signed_def signed_range_def int32_min_def vmin_over_base_def)
    moreover have "int32_min \<le> - int (v * 10 + d)" using 3 by simp
    ultimately show ?thesis using 3 d Cons.IH [OF s, of "v * 10 + d"] dv by (simp add: Let_def)
  qed
qed (simp add: digit_value_def)

lemma strip_spaces:
  assumes "t \<noteq> []" and "hd t \<noteq> CHR '' ''" and "last t \<noteq> CHR '' ''"
  shows "rev (dropWhile (\<lambda>c. c = CHR '' '') (rev (dropWhile (\<lambda>c. c = CHR '' '')
    (replicate a (CHR '' '') @ t @ replicate b (CHR '' ''))))) = t"
proof -
  obtain c s where c: "t = c # s" "c \<noteq> CHR '' ''" using assms by (cases t) auto
  obtain u e where e: "t = u @ [e]" "e \<noteq> CHR '' ''" using assms by (cases t rule: rev_cases) auto
  have "dropWhile (\<lambda>c. c = CHR '' '') (replicate a (CHR '' '') @ t @ replicate b (CHR '' '')) = t @ replicate b (CHR '' '')"
    using c by (simp add: dropWhile_append)
  moreover have "dropWhile (\<lambda>c. c = CHR '' '') (rev (t @ replicate b (CHR '' ''))) = rev t"
    using e by (simp add: dropWhile_append)
  ultimately show ?thesis by simp
qed

lemma decimal_hd_last: "digits_only t \<Longrightarrow> t \<noteq> [] \<Longrightarrow> 48 \<le> (of_char (hd t) :: nat) \<and> 48 \<le> (of_char (last t) :: nat)"
  by (auto simp: digits_only_def list_all_iff)

lemma safe_parse_sign_eq:
  "safe_parse_sign (replicate a (CHR '' '') @ signed_decimal i @ replicate b (CHR '' '')) = Some (decimal (nat \<bar>i\<bar>), i < 0)"
proof -
  note H = decimal_hd_last [OF digits_only_decimal decimal_not_Nil]
  have h: "hd (decimal n) \<noteq> CHR '' ''" "last (decimal n) \<noteq> CHR '' ''" "hd (decimal n) \<noteq> CHR ''-''" "hd (decimal n) \<noteq> CHR ''+''" for n
    using H [of n] by (intro notI, simp)+
  show ?thesis
  proof (cases "i < 0")
    case True
    then show ?thesis using h strip_spaces [of "signed_decimal i" a b]
      by (simp add: safe_parse_sign_def signed_decimal_def)
  next
    case False
    obtain c r where "decimal (nat i) = c # r" by (cases "decimal (nat i)") auto
    then show ?thesis using False h [of "nat i"] strip_spaces [of "signed_decimal i" a b]
      by (simp add: safe_parse_sign_def signed_decimal_def)
  qed
qed

lemma safe_int_eq:
  "safe_int (replicate a (CHR '' '') @ signed_decimal i @ replicate b (CHR '' '')) =
    Inr (if i < int32_min then (False, int32_min) else if i > int32_max then (False, int32_max) else (True, i))"
  using parse_positive_loop_eq [OF digits_only_decimal, of 0 "nat i"]
    parse_negative_loop_eq [OF digits_only_decimal, of 0 "nat (- i)"]
  by (auto simp: safe_int_def safe_parse_sign_eq safe_parse_positive_int_def safe_parse_negative_int_def
      digit_value_decimal int32_max_def int32_min_def)


section \<open>The overloads of \<open>SimpleItoa\<close>\<close>

lemma NUL_not_in_signed_decimal: "NUL \<notin> set (signed_decimal i)"
proof -
  have "NUL \<notin> set (decimal n)" for n
    using digits_only_decimal [of n] by (auto simp: digits_only_def list_all_iff NUL_def)
  then show ?thesis by (simp add: signed_decimal_def NUL_def)
qed

lemma length_signed_decimal_le:
  assumes "nat \<bar>i\<bar> < 10 ^ d" and "0 < d"
  shows "length (signed_decimal i) \<le> Suc d"
  using length_decimal_le [OF assms] by (auto simp: signed_decimal_def)

lemma itoa_eq:
  assumes "signed_range w i" and "5 < w" and "length (signed_decimal i) \<le> off" and "off < length buffer"
  shows "bindE (fast_int_to_buffer w (int off) i buffer) (\<lambda>(buffer, p). checked (c_str (drop (nat p) buffer))) =
    Inr (signed_decimal i)"
  using assms NUL_not_in_signed_decimal [of i] by (simp add: fast_int_to_buffer_eq c_str_terminated)

lemma SimpleItoa_int_eq:
  assumes "signed_range 32 i" and "length buffer = kFastToBufferSize"
  shows "SimpleItoa_int buffer i = Inr (signed_decimal i)"
proof -
  have "length (signed_decimal i) \<le> 11"
    using length_signed_decimal_le [of i 10] assms(1) by (auto simp: signed_range_def nat_less_iff abs_if split: if_splits)
  then show ?thesis using itoa_eq [of 32 i 11 buffer] assms
    by (simp add: SimpleItoa_int_def FastInt32ToBuffer_def kFastInt32ToBufferOffset_def kFastToBufferSize_def)
qed

lemma SimpleItoa_int64_eq:
  assumes "signed_range 64 i" and "length buffer = kFastToBufferSize"
  shows "SimpleItoa_int64 buffer i = Inr (signed_decimal i)"
proof -
  have "length (signed_decimal i) \<le> 20"
    using length_signed_decimal_le [of i 19] assms(1) by (auto simp: signed_range_def nat_less_iff abs_if split: if_splits)
  then show ?thesis using itoa_eq [of 64 i 21 buffer] assms
    by (simp add: SimpleItoa_int64_def FastInt64ToBuffer_def kFastInt64ToBufferOffset_def kFastToBufferSize_def)
qed

section \<open>Properties\<close>

text \<open>
  All ways of writing an integer, backwards or two digits at a time, 32 or 64 bits, signed or not, give
  the decimal notation of every value of their type, and \<open>ToHex\<close> the hexadecimal one. The backward ones stay
  inside their buffer and none of their signed operations overflows, for the smallest values too; the others
  stay inside the table of digits.
\<close>

theorem integer_writers_agree:
  assumes "signed_range 32 i" and "signed_range 64 k" and "length buffer = kFastToBufferSize"
  shows "SimpleItoa_int buffer i = Inr (signed_decimal i) \<and> FastInt32ToBufferLeft i = Inr (signed_decimal i) \<and>
    SimpleItoa_int64 buffer k = Inr (signed_decimal k) \<and> FastInt64ToBufferLeft k = Inr (signed_decimal k) \<and>
    SimpleItoa_uint32 u = Inr (decimal (unat u)) \<and> SimpleItoa_uint64 v = Inr (decimal (unat v)) \<and>
    ToHex v = Inr (base_notation 16 hex_digit (unat v))"
  using SimpleItoa_int_eq [OF assms(1,3)] SimpleItoa_int64_eq [OF assms(2,3)]
  by (simp add: FastInt32ToBufferLeft_eq FastInt64ToBufferLeft_eq assms SimpleItoa_uint32_def SimpleItoa_uint64_def
      FastUInt32ToBufferLeft_eq FastUInt64ToBufferLeft_eq ToHex_eq)

theorem integer_writers_agree_witness:
  "SimpleItoa_int (replicate 32 NUL) (- 2147483648) = Inr (signed_decimal (- 2147483648)) \<and>
    FastInt32ToBufferLeft (- 2147483648) = Inr (signed_decimal (- 2147483648)) \<and>
    SimpleItoa_int64 (replicate 32 NUL) (- 9223372036854775808) = Inr (signed_decimal (- 9223372036854775808)) \<and>
    FastInt64ToBufferLeft (- 9223372036854775808) = Inr (signed_decimal (- 9223372036854775808)) \<and>
    SimpleItoa_uint32 7 = Inr (decimal (unat (7 :: uint32))) \<and> SimpleItoa_uint64 7 = Inr (decimal (unat (7 :: uint64))) \<and>
    ToHex 7 = Inr (base_notation 16 hex_digit (unat (7 :: uint64)))"
  by (rule integer_writers_agree) (simp_all add: signed_range_def kFastToBufferSize_def)

text \<open>
  \<open>safe_int\<close> reads the decimal notation of any integer, with spaces around it: it gives the number when it
  fits into 32 bits, and otherwise fails and stores the bound that was exceeded. No operation overflows.
\<close>

theorem safe_int_reads_decimal:
  "safe_int (replicate a (CHR '' '') @ signed_decimal i @ replicate b (CHR '' '')) =
    Inr (if i < int32_min then (False, int32_min) else if i > int32_max then (False, int32_max) else (True, i))"
  by (rule safe_int_eq)

end
