(* ===== verification/StringUtil.thy ===== *)
theory StringUtil
  imports NumberText
begin

text \<open>
  Strings in protobuf's stubs/strutil.cc: replacing, splitting, joining, and the escape sequences of C in both
  directions. A \<open>std::string\<close> is a list of characters; a C string argument is the list of the characters
  before its terminator, which contains no NUL.
\<close>

definition BACKSLASH :: char where
  "BACKSLASH = CHR 0x5C"

definition char_in :: "nat \<Rightarrow> nat \<Rightarrow> char \<Rightarrow> bool" where
  "char_in a b c \<longleftrightarrow> a \<le> of_char c \<and> of_char c \<le> b"

definition isxdigit :: "char \<Rightarrow> bool" where
  "isxdigit c \<longleftrightarrow> char_in 48 57 c \<or> char_in 97 102 c \<or> char_in 65 70 c"

section \<open>Replacing\<close>

text \<open>\<open>StripString\<close>: \<open>strpbrk\<close> works on the C string, so it stops at the first NUL in the string.\<close>

fun StripString :: "string \<Rightarrow> string \<Rightarrow> char \<Rightarrow> string" where
  "StripString [] remove replacewith = []"
| "StripString (c # s) remove replacewith =
     (if c = NUL then c # s
      else (if c \<in> set remove then replacewith else c) # StripString s remove replacewith)"

text \<open>\<open>std::string::find\<close>: the offset of the first occurrence.\<close>

fun find_sub :: "string \<Rightarrow> string \<Rightarrow> nat option" where
  "find_sub sub [] = (if sub = [] then Some 0 else None)"
| "find_sub sub (c # s) =
     (if take (length sub) (c # s) = sub then Some 0 else map_option Suc (find_sub sub s))"

text \<open>The loop of \<open>StringReplace\<close>; \<open>s\<close> is the rest from \<open>start_pos\<close> on, the result what is appended.\<close>

function replace_loop :: "string \<Rightarrow> string \<Rightarrow> bool \<Rightarrow> string \<Rightarrow> string" where
  "replace_loop oldsub newsub replace_all s =
     (case find_sub oldsub s of
        None \<Rightarrow> s
      | Some pos \<Rightarrow>
          let rest = drop (pos + length oldsub) s in
          take pos s @ newsub @
            (if replace_all \<and> oldsub \<noteq> [] \<and> s \<noteq> [] then replace_loop oldsub newsub replace_all rest else rest))"
  by pat_completeness auto
termination
proof (relation "measure (\<lambda>(oldsub, newsub, replace_all, s). length s)", goal_cases)
  case (2 oldsub newsub replace_all s pos rest)
  then have "0 < length oldsub" "0 < length s" by auto
  then show ?case using 2 by simp
qed simp

declare replace_loop.simps [simp del]

definition StringReplace :: "string \<Rightarrow> string \<Rightarrow> string \<Rightarrow> bool \<Rightarrow> string \<Rightarrow> string" where
  "StringReplace s oldsub newsub replace_all res =
     (if oldsub = [] then res @ s else res @ replace_loop oldsub newsub replace_all s)"

section \<open>Splitting and joining\<close>

text \<open>\<open>SplitStringToIteratorUsing\<close>: the path for a single delimiter, and the one for several.\<close>

function split_char :: "char \<Rightarrow> string \<Rightarrow> string list" where
  "split_char c p =
     (case p of
        [] \<Rightarrow> []
      | x # r \<Rightarrow>
          if x = c then split_char c r
          else (x # takeWhile (\<lambda>y. y \<noteq> c) r) # split_char c (dropWhile (\<lambda>y. y \<noteq> c) r))"
  by pat_completeness auto
termination
  by (relation "measure (\<lambda>(c, p). length p)") (auto simp: le_imp_less_Suc length_dropWhile_le)

function split_any :: "string \<Rightarrow> string \<Rightarrow> string list" where
  "split_any delim s =
     (case dropWhile (\<lambda>x. x \<in> set delim) s of
        [] \<Rightarrow> []
      | x # r \<Rightarrow>
          (case dropWhile (\<lambda>y. y \<notin> set delim) r of
             [] \<Rightarrow> [x # r]
           | rest \<Rightarrow> (x # takeWhile (\<lambda>y. y \<notin> set delim) r) # split_any delim rest))"
  by pat_completeness auto
termination
proof (relation "measure (\<lambda>(delim, s). length s)", goal_cases)
  case (2 delim s x r y z)
  have "length (dropWhile (\<lambda>y. y \<notin> set delim) r) \<le> length r" by (rule length_dropWhile_le)
  moreover have "Suc (length r) \<le> length s"
    using length_dropWhile_le [of "\<lambda>x. x \<in> set delim" s] 2 by simp
  ultimately show ?case using 2 by simp
qed simp

declare split_char.simps [simp del] split_any.simps [simp del]

definition SplitStringUsing :: "string \<Rightarrow> string \<Rightarrow> string list" where
  "SplitStringUsing full delim =
     (case delim of [c] \<Rightarrow> split_char c full | _ \<Rightarrow> split_any delim full)"

text \<open>
  \<open>SplitStringToIteratorAllowEmpty\<close>; \<open>pieces\<close> is 0 for no limit, and \<open>i\<close> counts the pieces.
\<close>

function split_allow_empty :: "string \<Rightarrow> int \<Rightarrow> int \<Rightarrow> string \<Rightarrow> string list" where
  "split_allow_empty delim pieces i s =
     (if i < pieces - 1 \<or> pieces = 0 then
        (case dropWhile (\<lambda>y. y \<notin> set delim) s of
           [] \<Rightarrow> [s]
         | _ # rest \<Rightarrow> takeWhile (\<lambda>y. y \<notin> set delim) s # split_allow_empty delim pieces (i + 1) rest)
      else [s])"
  by pat_completeness auto
termination
proof (relation "measure (\<lambda>(delim, pieces, i, s). length s)", goal_cases)
  case (2 delim pieces i s x rest)
  then show ?case using length_dropWhile_le [of "\<lambda>y. y \<notin> set delim" s] by simp
qed simp

declare split_allow_empty.simps [simp del]

definition SplitStringAllowEmpty :: "string \<Rightarrow> string \<Rightarrow> string list" where
  "SplitStringAllowEmpty full delim = split_allow_empty delim 0 0 full"

text \<open>\<open>JoinStringsIterator\<close>: the second loop; the first one computes the length to reserve.\<close>

fun join_loop :: "bool \<Rightarrow> string list \<Rightarrow> string \<Rightarrow> string \<Rightarrow> string" where
  "join_loop at_start [] delim result = result"
| "join_loop at_start (s # ss) delim result =
     join_loop False ss delim ((if \<not> at_start then result @ delim else result) @ s)"

definition JoinStrings :: "string list \<Rightarrow> string \<Rightarrow> string" where
  "JoinStrings components delim = join_loop True components delim []"

subsection \<open>Splitting undoes joining\<close>

text \<open>The reference: the components between single delimiters, empty ones included.\<close>

fun pieces_of :: "char \<Rightarrow> string \<Rightarrow> string list" where
  "pieces_of c [] = [[]]"
| "pieces_of c (x # s) =
     (if x = c then [] # pieces_of c s
      else (x # hd (pieces_of c s)) # tl (pieces_of c s))"

lemma pieces_of_not_Nil [simp]: "pieces_of c s \<noteq> []"
  by (cases s) simp_all

lemma pieces_of_free: "c \<notin> set s \<Longrightarrow> pieces_of c s = [s]"
  by (induction s) auto

lemma pieces_of_append: "c \<notin> set a \<Longrightarrow> pieces_of c (a @ c # s) = a # pieces_of c s"
  by (induction a) auto

lemma takeWhile_append_stop: "c \<notin> set a \<Longrightarrow> takeWhile (\<lambda>y. y \<noteq> c) (a @ c # s) = a"
  by (induction a) auto

lemma dropWhile_append_stop: "c \<notin> set a \<Longrightarrow> dropWhile (\<lambda>y. y \<noteq> c) (a @ c # s) = c # s"
  by (induction a) auto

lemma while_free:
  assumes "c \<notin> set s"
  shows "takeWhile (\<lambda>y. y \<noteq> c) s = s" and "dropWhile (\<lambda>y. y \<noteq> c) s = []"
  using assms by (induction s) auto

lemma split_at_char:
  obtains "c \<notin> set s" | a r where "s = a @ c # r" "c \<notin> set a"
  using split_list_first [of c s] by blast

lemma split_allow_empty_eq: "split_allow_empty [c] 0 i s = pieces_of c s"
proof (induction "length s" arbitrary: s i rule: less_induct)
  case less
  show ?case
  proof (cases rule: split_at_char [of c s])
    case 1
    then show ?thesis by (simp add: split_allow_empty.simps [of _ _ _ s] pieces_of_free while_free)
  next
    case (2 a r)
    then show ?thesis
      using less.hyps [of r]
      by (simp add: split_allow_empty.simps [of _ _ _ "a @ c # r"] takeWhile_append_stop dropWhile_append_stop pieces_of_append)
  qed
qed

lemma split_char_Nil [simp]: "split_char c [] = []"
  by (simp add: split_char.simps)

lemma split_char_at [simp]: "split_char c (c # r) = split_char c r"
  by (simp add: split_char.simps [of c "c # r"])

lemma split_char_free:
  assumes "c \<notin> set a"
  shows "split_char c (a @ c # r) = (if a = [] then [] else [a]) @ split_char c r"
    and "split_char c a = (if a = [] then [] else [a])"
proof -
  show "split_char c (a @ c # r) = (if a = [] then [] else [a]) @ split_char c r"
    using assms
    by (cases a) (auto simp: split_char.simps [of c "_ # _ @ _"] takeWhile_append_stop dropWhile_append_stop)
  show "split_char c a = (if a = [] then [] else [a])"
    using assms by (cases a) (auto simp: split_char.simps [of c "_ # _"] while_free)
qed

lemma split_char_eq: "split_char c s = filter (\<lambda>x. x \<noteq> []) (pieces_of c s)"
proof (induction "length s" arbitrary: s rule: less_induct)
  case less
  show ?case
  proof (cases rule: split_at_char [of c s])
    case 1
    then show ?thesis by (simp add: split_char_free pieces_of_free)
  next
    case (2 a r)
    then show ?thesis using less.hyps [of r] by (simp add: split_char_free pieces_of_append)
  qed
qed

lemma split_any_char: "split_any [c] s = split_char c s"
proof (induction "length s" arbitrary: s rule: less_induct)
  case less
  show ?case
  proof (cases s)
    case (Cons x r)
    have l: "length (dropWhile (\<lambda>y. y \<noteq> c) r) < length s"
      using Cons length_dropWhile_le [of _ r] by (simp add: le_imp_less_Suc)
    show ?thesis
    proof (cases "x = c")
      case True
      have "split_any [c] s = split_any [c] r"
        unfolding Cons True by (simp add: split_any.simps [of "[c]" "c # r"] split_any.simps [of "[c]" r])
      then show ?thesis using less.hyps [of r] Cons True by (simp add: split_char.simps [of c s])
    next
      case False
      show ?thesis
      proof (cases rule: split_at_char [of c r])
        case 1
        then show ?thesis
          using Cons False by (simp add: split_any.simps [of "[c]" "x # r"] split_char.simps [of c "x # r"] while_free)
      next
        case (2 a r')
        then show ?thesis
          using Cons False less.hyps [OF l]
          by (simp add: split_any.simps [of "[c]" "x # a @ c # r'"] split_char.simps [of c "x # a @ c # r'"]
              takeWhile_append_stop dropWhile_append_stop)
      qed
    qed
  qed (simp add: split_any.simps split_char.simps)
qed

lemma join_loop_False: "join_loop False ss d result = result @ concat (map (\<lambda>s. d @ s) ss)"
  by (induction ss arbitrary: result) auto

lemma JoinStrings_simps [simp]:
  "JoinStrings [] d = []"
  "JoinStrings [s] d = s"
  "JoinStrings (s # t # ss) d = s @ d @ JoinStrings (t # ss) d"
  by (simp_all add: JoinStrings_def join_loop_False)

lemma join_pieces_of: "JoinStrings (pieces_of c s) [c] = s"
proof (induction s)
  case (Cons x s)
  obtain t ts where "pieces_of c s = t # ts" by (cases "pieces_of c s") simp_all
  then show ?case using Cons by (cases ts) auto
qed simp

lemma pieces_of_join:
  assumes "ss \<noteq> []" and "\<forall>s \<in> set ss. c \<notin> set s"
  shows "pieces_of c (JoinStrings ss [c]) = ss"
  using assms
proof (induction ss)
  case (Cons s ss)
  then show ?case by (cases ss) (simp_all add: pieces_of_free pieces_of_append)
qed simp

text \<open>
  Splitting at one delimiter is the inverse of joining with it: joining the pieces of
  \<open>SplitStringAllowEmpty\<close> gives the string back, splitting a joined list of delimiter-free components gives the
  components back; \<open>SplitStringUsing\<close>, whose fast path for one delimiter agrees with the general one, yields the
  same pieces without the empty ones.
\<close>

theorem split_and_join:
  assumes "ss \<noteq> []" and "\<forall>s \<in> set ss. c \<notin> set s"
  shows "SplitStringAllowEmpty (JoinStrings ss [c]) [c] = ss \<and>
    JoinStrings (SplitStringAllowEmpty s [c]) [c] = s \<and>
    SplitStringUsing s [c] = filter (\<lambda>x. x \<noteq> []) (SplitStringAllowEmpty s [c]) \<and>
    split_any [c] s = SplitStringUsing s [c]"
  using assms
  by (simp add: SplitStringAllowEmpty_def SplitStringUsing_def split_allow_empty_eq join_pieces_of pieces_of_join
      split_char_eq split_any_char)

theorem split_and_join_witness:
  "SplitStringAllowEmpty (JoinStrings [''ab'', [], ''c''] '','') '','' = [''ab'', [], ''c''] \<and>
   JoinStrings [''ab'', [], ''c''] '','' = ''ab,,c'' \<and> SplitStringUsing '',ab,,c'' '','' = [''ab'', ''c'']"
  using split_and_join [of "[''ab'', [], ''c'']" "CHR '',''" "'',ab,,c''"]
  by (simp add: SplitStringAllowEmpty_def split_allow_empty_eq)

section \<open>Reading escape sequences\<close>

definition is_octal_digit :: "char \<Rightarrow> bool" where
  "is_octal_digit c \<longleftrightarrow> char_in 48 55 c"

definition hex_digit_to_int :: "char \<Rightarrow> nat" where
  "hex_digit_to_int c = (let x = of_char c :: nat in (if x > 57 then x + 9 else x) mod 16)"

text \<open>Up to \<open>n\<close> further octal digits behind the first; the value has the type \<open>char\<close>.\<close>

fun octal_digits :: "nat \<Rightarrow> nat \<Rightarrow> string \<Rightarrow> nat \<times> string" where
  "octal_digits 0 ch p = (ch, p)"
| "octal_digits (Suc n) ch p =
     (case p of
        c # r \<Rightarrow> if is_octal_digit c then octal_digits n ((ch * 8 + of_char c - 48) mod 256) r else octal_digits n ch p
      | [] \<Rightarrow> octal_digits n ch p)"

fun hex_digits :: "uint32 \<Rightarrow> string \<Rightarrow> uint32 \<times> string" where
  "hex_digits ch [] = (ch, [])"
| "hex_digits ch (c # p) =
     (if isxdigit c then hex_digits (push_bit 4 ch + of_nat (hex_digit_to_int c)) p else (ch, c # p))"

text \<open>The letters that stand for one character.\<close>

definition simple_escape :: "char \<Rightarrow> char option" where
  "simple_escape c =
     (if c = CHR ''a'' then Some (CHR 0x07) else if c = CHR ''b'' then Some (CHR 0x08)
      else if c = CHR ''f'' then Some (CHR 0x0C) else if c = CHR ''n'' then Some (CHR 0x0A)
      else if c = CHR ''r'' then Some (CHR 0x0D) else if c = CHR ''t'' then Some (CHR 0x09)
      else if c = CHR ''v'' then Some (CHR 0x0B) else if c = BACKSLASH then Some BACKSLASH
      else if c = CHR ''?'' then Some (CHR ''?'') else if c = CHR 0x27 then Some (CHR 0x27)
      else if c = CHR 0x22 then Some (CHR 0x22) else None)"

text \<open>
  \<open>UnescapeCEscapeSequences\<close>: the characters written to \<open>dest\<close>. Errors are only logged, at a level that is
  switched off; an unknown sequence is skipped.
\<close>

lemma octal_digits_length: "octal_digits n ch p = (ch', p') \<Longrightarrow> length p' \<le> length p"
proof (induction n ch p rule: octal_digits.induct)
  case (2 n ch p)
  then show ?case by (cases p) (auto split: if_splits)
qed simp

lemma hex_digits_length: "hex_digits ch p = (ch', p') \<Longrightarrow> length p' \<le> length p"
  by (induction ch p rule: hex_digits.induct) (auto split: if_splits)

function unescape :: "string \<Rightarrow> string" where
  "unescape p =
     (case p of
        [] \<Rightarrow> []
      | c # p \<Rightarrow>
          if c \<noteq> BACKSLASH then c # unescape p
          else (case p of
            [] \<Rightarrow> []
          | e # p \<Rightarrow>
              (case simple_escape e of
                 Some ch \<Rightarrow> ch # unescape p
               | None \<Rightarrow>
                   if is_octal_digit e then
                     (case octal_digits 2 (of_char e - 48) p of (ch, p) \<Rightarrow> char_of ch # unescape p)
                   else if e = CHR ''x'' \<or> e = CHR ''X'' then
                     (if p = [] \<or> \<not> isxdigit (hd p) then unescape p
                      else case hex_digits 0 p of (ch, p) \<Rightarrow> char_of (unat ch) # unescape p)
                   else unescape p)))"
  by pat_completeness auto
termination
  by (relation "measure length") (auto dest!: octal_digits_length hex_digits_length [OF sym] octal_digits_length [OF sym])

declare unescape.simps [simp del]

definition UnescapeCEscapeSequences :: "string \<Rightarrow> string \<times> int" where
  "UnescapeCEscapeSequences source = (let dest = unescape source in (dest, int (length dest)))"

text \<open>The C string of a \<open>std::string\<close> ends at the first NUL in it.\<close>

definition UnescapeCEscapeString :: "string \<Rightarrow> string" where
  "UnescapeCEscapeString src = fst (UnescapeCEscapeSequences (takeWhile (\<lambda>c. c \<noteq> NUL) src))"

section \<open>Writing escape sequences\<close>

definition octal_escape :: "char \<Rightarrow> string" where
  "octal_escape c = (let n = of_char c :: nat in
     [BACKSLASH, digit_char (n div 64), digit_char (n div 8 mod 8), digit_char (n mod 8)])"

definition hex_escape :: "char \<Rightarrow> string" where
  "hex_escape c = (let n = of_char c :: nat in [BACKSLASH, CHR ''x'', hex_digit (n div 16), hex_digit (n mod 16)])"

definition letter_escape :: "char \<Rightarrow> string option" where
  "letter_escape c =
     (if c = CHR 0x0A then Some [BACKSLASH, CHR ''n''] else if c = CHR 0x0D then Some [BACKSLASH, CHR ''r'']
      else if c = CHR 0x09 then Some [BACKSLASH, CHR ''t''] else if c = CHR 0x22 then Some [BACKSLASH, CHR 0x22]
      else if c = CHR 0x27 then Some [BACKSLASH, CHR 0x27] else if c = BACKSLASH then Some [BACKSLASH, BACKSLASH]
      else None)"

text \<open>
  \<open>CEscapeInternal\<close>: what is written to \<open>dest\<close> before the terminator, \<open>None\<close> for the result -1. \<open>out\<close> is
  what has been written, so its length is \<open>used\<close>.
\<close>

fun escape_loop :: "int \<Rightarrow> bool \<Rightarrow> bool \<Rightarrow> string \<Rightarrow> bool \<Rightarrow> string \<Rightarrow> string option" where
  "escape_loop dest_len use_hex utf8_safe out last_hex_escape [] =
     (if dest_len - int (length out) < 1 then None else Some out)"
| "escape_loop dest_len use_hex utf8_safe out last_hex_escape (c # src) =
     (if dest_len - int (length out) < 2 then None
      else (case letter_escape c of
        Some e \<Rightarrow> escape_loop dest_len use_hex utf8_safe (out @ e) False src
      | None \<Rightarrow>
          if (\<not> utf8_safe \<or> of_char c < (0x80 :: nat)) \<and> (\<not> isprint c \<or> (last_hex_escape \<and> isxdigit c)) then
            (if dest_len - int (length out) < 4 then None
             else escape_loop dest_len use_hex utf8_safe (out @ (if use_hex then hex_escape c else octal_escape c)) use_hex src)
          else escape_loop dest_len use_hex utf8_safe (out @ [c]) False src))"

definition CEscapeInternal :: "string \<Rightarrow> int \<Rightarrow> bool \<Rightarrow> bool \<Rightarrow> string option" where
  "CEscapeInternal src dest_len use_hex utf8_safe = escape_loop dest_len use_hex utf8_safe [] False src"

definition CEscapeString :: "string \<Rightarrow> int \<Rightarrow> string option" where
  "CEscapeString src dest_len = CEscapeInternal src dest_len False False"

definition CEscape :: "string \<Rightarrow> string option" where
  "CEscape src = CEscapeInternal src (int (length src) * 4 + 1) False False"

definition Utf8SafeCEscape :: "string \<Rightarrow> string option" where
  "Utf8SafeCEscape src = CEscapeInternal src (int (length src) * 4 + 1) False True"

definition CHexEscape :: "string \<Rightarrow> string option" where
  "CHexEscape src = CEscapeInternal src (int (length src) * 4 + 1) True False"

section \<open>The radix character of a printed number\<close>

definition IsValidFloatChar :: "char \<Rightarrow> bool" where
  "IsValidFloatChar c \<longleftrightarrow> char_in 48 57 c \<or> c \<in> set ''eE+-''"

definition DelocalizeRadix :: "string \<Rightarrow> string" where
  "DelocalizeRadix buffer =
     (if CHR ''.'' \<in> set buffer then buffer
      else (case dropWhile IsValidFloatChar buffer of
        [] \<Rightarrow> buffer
      | _ # r \<Rightarrow>
          takeWhile IsValidFloatChar buffer @ CHR ''.'' #
            (case r of
               [] \<Rightarrow> []
             | c # r' \<Rightarrow> if IsValidFloatChar c then r else dropWhile (\<lambda>c. \<not> IsValidFloatChar c) r')))"

section \<open>Escaping and unescaping are inverse\<close>

text \<open>The text that \<open>CEscapeInternal\<close> writes when it has the room; \<open>l\<close> is \<open>last_hex_escape\<close>.\<close>

fun escape_text :: "bool \<Rightarrow> bool \<Rightarrow> bool \<Rightarrow> string \<Rightarrow> string" where
  "escape_text use_hex utf8_safe l [] = []"
| "escape_text use_hex utf8_safe l (c # src) =
     (case letter_escape c of
        Some e \<Rightarrow> e @ escape_text use_hex utf8_safe False src
      | None \<Rightarrow>
          if (\<not> utf8_safe \<or> of_char c < (0x80 :: nat)) \<and> (\<not> isprint c \<or> (l \<and> isxdigit c)) then
            (if use_hex then hex_escape c else octal_escape c) @ escape_text use_hex utf8_safe use_hex src
          else c # escape_text use_hex utf8_safe False src)"

lemma length_letter_escape: "letter_escape c = Some e \<Longrightarrow> length e = 2"
  by (auto simp: letter_escape_def split: if_splits)

lemma length_escapes [simp]: "length (hex_escape c) = 4" "length (octal_escape c) = 4"
  by (simp_all add: hex_escape_def octal_escape_def Let_def)

lemma escape_loop_Some:
  assumes "escape_loop n h u out l src = Some r"
  shows "r = out @ escape_text h u l src" and "int (length r) < n"
  using assms
  by (induction n h u out l src arbitrary: r rule: escape_loop.induct) (auto split: if_splits option.splits)

lemma escape_loop_room:
  assumes "int (length out) + 4 * int (length src) < n"
  shows "escape_loop n h u out l src \<noteq> None"
  using assms
proof (induction src arbitrary: out l)
  case (Cons c src)
  then show ?case
    using length_letter_escape [of c] Cons.IH by (auto split: option.split)
qed simp

lemma of_char_less_256: "of_char c < (256 :: nat)"
  using of_char_mod_256 [of c, where ?'a = nat] by (metis mod_less_divisor zero_less_numeral)

lemma octal_digit_facts:
  assumes "d < 8"
  shows "simple_escape (digit_char d) = None" "is_octal_digit (digit_char d)" "of_char (digit_char d) = 48 + d"
proof -
  have "list_all (\<lambda>d. simple_escape (digit_char d) = None \<and> is_octal_digit (digit_char d) \<and> of_char (digit_char d) = 48 + d) [0..<8]"
    by code_simp
  then show "simple_escape (digit_char d) = None" "is_octal_digit (digit_char d)" "of_char (digit_char d) = 48 + d"
    using assms by (simp_all add: list_all_iff)
qed

lemma hex_digit_facts:
  assumes "d < 16"
  shows "isxdigit (hex_digit d)" "hex_digit_to_int (hex_digit d) = d"
proof -
  have "of_char (hex_digit d) = (if d < 10 then 48 + d else 87 + d)"
    using assms by (simp add: hex_digit_def)
  then show "isxdigit (hex_digit d)" "hex_digit_to_int (hex_digit d) = d"
    using assms mod_mult_self1 [of d 3 16] mod_mult_self1 [of d 6 16]
    by (simp_all add: isxdigit_def char_in_def hex_digit_to_int_def add.commute)
qed

lemma unescape_Nil [simp]: "unescape [] = []"
  by (simp add: unescape.simps)

lemma unescape_plain: "c \<noteq> BACKSLASH \<Longrightarrow> unescape (c # r) = c # unescape r"
  by (simp add: unescape.simps [of "c # r"])

lemma unescape_letter: "letter_escape c = Some e \<Longrightarrow> unescape (e @ r) = c # unescape r"
  by (auto simp: letter_escape_def unescape.simps [of "CHR 0x5C # _"] simple_escape_def BACKSLASH_def split: if_splits)

lemma unescape_octal: "unescape (octal_escape c @ r) = c # unescape r"
proof -
  define n where "n = (of_char c :: nat)"
  have n: "n < 256" "char_of n = c" by (simp_all add: n_def of_char_less_256)
  then have d: "n div 64 < 8" "n div 8 mod 8 < 8" "n mod 8 < 8" by auto
  have v: "n div 64 * 8 + n div 8 mod 8 = n div 8" "n div 8 * 8 + n mod 8 = n"
    using div_mult_mod_eq [of "n div 8" 8] div_mult2_eq [of n 8 8] by simp_all
  have "octal_digits 2 (n div 64) (digit_char (n div 8 mod 8) # digit_char (n mod 8) # r) = (n, r)"
    using octal_digit_facts [OF d(2)] octal_digit_facts [OF d(3)] v n(1) by (simp add: numeral_2_eq_2 less_imp_diff_less)
  then show ?thesis
    using octal_digit_facts [OF d(1)] n(2)
    by (simp add: octal_escape_def unescape.simps [of "BACKSLASH # _"] flip: n_def)
qed

lemma unescape_hex:
  assumes "r = [] \<or> \<not> isxdigit (hd r)"
  shows "unescape (hex_escape c @ r) = c # unescape r"
proof -
  define n where "n = (of_char c :: nat)"
  have n: "n < 256" "char_of n = c" by (simp_all add: n_def of_char_less_256)
  then have d: "n div 16 < 16" "n mod 16 < 16" by auto
  have w: "push_bit 4 (of_nat (n div 16)) + of_nat (n mod 16) = (of_nat n :: uint32)"
  proof -
    have "(of_nat n :: uint32) = of_nat (n div 16 * 16 + n mod 16)" by (simp only: div_mult_mod_eq)
    also have "\<dots> = of_nat (n div 16) * 16 + of_nat (n mod 16)" by (simp only: of_nat_add of_nat_mult of_nat_numeral)
    finally show ?thesis by (simp only: push_bit_eq_mult) simp
  qed
  have "hex_digits (of_nat n) r = (of_nat n, r)" using assms by (cases r) simp_all
  then have "hex_digits 0 (hex_digit (n div 16) # hex_digit (n mod 16) # r) = (of_nat n, r)"
    using hex_digit_facts [OF d(1)] hex_digit_facts [OF d(2)] w by simp
  moreover have "unat (of_nat n :: uint32) = n" using n(1) by (simp add: unat_of_nat)
  moreover have "simple_escape (CHR ''x'') = None" "\<not> is_octal_digit (CHR ''x'')" by code_simp+
  ultimately show ?thesis
    using hex_digit_facts(1) [OF d(1)] n(2)
    by (simp add: hex_escape_def unescape.simps [of "BACKSLASH # _"] flip: n_def)
qed

lemma escape_text_hd:
  "escape_text h u True src = [] \<or> \<not> isxdigit (hd (escape_text h u True src))"
proof (cases src)
  case (Cons c s)
  have b: "\<not> isxdigit BACKSLASH" by code_simp
  have "isxdigit c \<Longrightarrow> of_char c < (128 :: nat)" by (auto simp: isxdigit_def char_in_def)
  then show ?thesis
    unfolding Cons
    using b by (auto simp: letter_escape_def hex_escape_def octal_escape_def Let_def)
qed simp

lemma unescape_escape_text: "unescape (escape_text h u l src) = src"
proof (induction h u l src rule: escape_text.induct)
  case (2 h u l c src)
  have b: "letter_escape c = None \<Longrightarrow> c \<noteq> BACKSLASH"
    by (auto simp: letter_escape_def split: if_splits)
  show ?case
  proof (cases "letter_escape c")
    case None
    then show ?thesis
      using 2 b unescape_octal unescape_plain unescape_hex [OF escape_text_hd]
      by (cases h) (simp_all add: unescape_plain unescape_octal unescape_hex escape_text_hd)
  next
    case (Some e)
    then show ?thesis using 2 unescape_letter by simp
  qed
qed simp

lemma NUL_not_escaped: "NUL \<notin> set (escape_text h u l src)"
proof (induction h u l src rule: escape_text.induct)
  case (2 h u l c src)
  have z: "of_char NUL = (0 :: nat)" by (simp add: NUL_def)
  have o8: "digit_char d \<noteq> NUL" if "d < 8" for d
    using octal_digit_facts(3) [OF that] z by auto
  have x16: "d < 16 \<Longrightarrow> hex_digit d \<noteq> NUL" for d
    using hex_digit_facts [of d] by (auto simp: isxdigit_def char_in_def NUL_def)
  define n where "n = (of_char c :: nat)"
  have "n < 256" by (simp add: n_def of_char_less_256)
  then have "n div 64 < 8" "n div 16 < 16" by auto
  then have "of_char c div 64 < (8 :: nat)" "of_char c div 16 < (16 :: nat)" by (simp_all add: n_def)
  then have e: "NUL \<notin> set (octal_escape c)" "NUL \<notin> set (hex_escape c)"
    using o8 [THEN not_sym] x16 [THEN not_sym] by (auto simp: octal_escape_def hex_escape_def Let_def BACKSLASH_def NUL_def)
  have l: "letter_escape c = Some s \<Longrightarrow> NUL \<notin> set s" for s
    by (auto simp: letter_escape_def BACKSLASH_def NUL_def split: if_splits)
  have "\<not> isprint NUL" by (simp add: isprint_def NUL_def)
  moreover have "of_char NUL < (128 :: nat)" by (simp add: NUL_def)
  ultimately show ?case using 2 e l by (cases "letter_escape c") auto
qed simp


lemma DelocalizeRadix_eq:
  assumes "\<forall>x \<in> set a. IsValidFloatChar x" and "\<forall>x \<in> set b. IsValidFloatChar x"
    and "\<forall>x \<in> set radix. \<not> IsValidFloatChar x \<and> x \<noteq> CHR ''.''" and "radix \<noteq> []"
  shows "DelocalizeRadix (a @ radix @ b) = a @ CHR ''.'' # b"
proof -
  obtain x r where r: "radix = x # r" using assms(4) by (cases radix) auto
  have "\<not> IsValidFloatChar (CHR ''.'')" by code_simp
  then have "CHR ''.'' \<notin> set (a @ radix @ b)" using assms by auto
  moreover have "dropWhile (\<lambda>c. \<not> IsValidFloatChar c) (r @ b) = b" "dropWhile IsValidFloatChar b = []"
    "dropWhile (\<lambda>c. \<not> IsValidFloatChar c) b = b"
    using assms(2,3) r by (cases b; simp add: dropWhile_append)+
  moreover have "dropWhile IsValidFloatChar (a @ radix @ b) = radix @ b" "takeWhile IsValidFloatChar (a @ radix @ b) = a"
    using assms(1,3) r by (simp_all add: dropWhile_append takeWhile_append)
  ultimately show ?thesis
    using assms(2,3) r by (cases r; cases b) (auto simp: DelocalizeRadix_def)
qed

end
