(* ===== verification/ZeroCopyInput.thy ===== *)
theory ZeroCopyInput
  imports Prelude "HOL-Library.Sublist"
begin

text \<open>
  The input streams of protobuf that hand out blocks of memory instead of copying
  (io/zero_copy_stream.h, io/zero_copy_stream_impl_lite.cc, io/zero_copy_stream_impl.cc): the interface
  \<open>ZeroCopyInputStream\<close> as a table of its virtual methods, the contract its comments state as a locale, and
  the implementations \<open>ArrayInputStream\<close>, \<open>LimitingInputStream\<close> and \<open>ConcatenatingInputStream\<close>; the latter two
  wrap other streams, so they are proved correct inside the contract, for any stream that keeps it.

  A block is the list of its bytes. \<open>None\<close> is a failed \<open>GOOGLE_CHECK\<close> or an access outside of the array;
  \<open>GOOGLE_DCHECK\<close> and \<open>LOG(DFATAL)\<close> do nothing, as in a release build. Sizes and positions of type \<open>int\<close> and
  \<open>int64\<close> are integers: they are bounded by the amount of data.
\<close>

section \<open>The interface\<close>

record 's zero_copy_input =
  zi_Next :: "'s \<Rightarrow> (byte list option \<times> 's) option"
  zi_BackUp :: "int \<Rightarrow> 's \<Rightarrow> 's option"
  zi_Skip :: "int \<Rightarrow> 's \<Rightarrow> (bool \<times> 's) option"
  zi_ByteCount :: "'s \<Rightarrow> int"

text \<open>
  The contract. \<open>pending\<close> is what the stream has still to deliver, \<open>last_block\<close> what may be backed up over.
  After a failed \<open>Next\<close> nothing is pending; a \<open>Skip\<close> that fails has got to the end.
\<close>

locale input_contract =
  fixes zs :: "'s zero_copy_input"
    and good :: "'s \<Rightarrow> bool"
    and pending :: "'s \<Rightarrow> byte list"
    and last_block :: "'s \<Rightarrow> byte list"
  assumes next_law: "good s \<Longrightarrow> \<exists>r s'. zi_Next zs s = Some (r, s') \<and> good s' \<and>
      (case r of
         None \<Rightarrow> pending s = [] \<and> pending s' = [] \<and> zi_ByteCount zs s' = zi_ByteCount zs s
       | Some b \<Rightarrow> b \<noteq> [] \<and> pending s = b @ pending s' \<and> suffix b (last_block s') \<and>
           zi_ByteCount zs s' = zi_ByteCount zs s + int (length b))"
    and backup_law: "good s \<Longrightarrow> last_block s \<noteq> [] \<Longrightarrow> 0 \<le> n \<Longrightarrow> n \<le> int (length (last_block s)) \<Longrightarrow>
      \<exists>s'. zi_BackUp zs n s = Some s' \<and> good s' \<and>
        pending s' = drop (length (last_block s) - nat n) (last_block s) @ pending s \<and>
        zi_ByteCount zs s' = zi_ByteCount zs s - n"
    and skip_law: "good s \<Longrightarrow> 0 \<le> n \<Longrightarrow>
      \<exists>ok s'. zi_Skip zs n s = Some (ok, s') \<and> good s' \<and> pending s' = drop (nat n) (pending s) \<and>
        (ok \<longrightarrow> nat n \<le> length (pending s)) \<and> (\<not> ok \<longrightarrow> length (pending s) < nat n \<or> n = 0 \<and> pending s = []) \<and>
        zi_ByteCount zs s' = zi_ByteCount zs s + int (length (pending s)) - int (length (pending s'))"

section \<open>Arrays\<close>

record array_input =
  ai_data :: "byte list"
  ai_size :: int
  ai_block_size :: int
  ai_position :: int
  ai_last_returned_size :: int

definition ArrayInputStream :: "byte list \<Rightarrow> int \<Rightarrow> int \<Rightarrow> array_input" where
  "ArrayInputStream data n block_size =
     \<lparr>ai_data = data, ai_size = n, ai_block_size = (if block_size > 0 then block_size else n),
      ai_position = 0, ai_last_returned_size = 0\<rparr>"

definition ArrayInputStream_Next :: "array_input \<Rightarrow> (byte list option \<times> array_input) option" where
  "ArrayInputStream_Next s =
     (if ai_position s < ai_size s then
        let n = min (ai_block_size s) (ai_size s - ai_position s) in do {
        b \<leftarrow> mem_read (nat (ai_position s)) (nat n) (ai_data s);
        Some (Some b, s\<lparr>ai_last_returned_size := n, ai_position := ai_position s + n\<rparr>) }
      else Some (None, s\<lparr>ai_last_returned_size := 0\<rparr>))"

definition ArrayInputStream_BackUp :: "int \<Rightarrow> array_input \<Rightarrow> array_input option" where
  "ArrayInputStream_BackUp count s =
     (if \<not> ai_last_returned_size s > 0 then None
      else if \<not> count \<le> ai_last_returned_size s then None
      else if \<not> count \<ge> 0 then None
      else Some (s\<lparr>ai_position := ai_position s - count, ai_last_returned_size := 0\<rparr>))"

definition ArrayInputStream_Skip :: "int \<Rightarrow> array_input \<Rightarrow> (bool \<times> array_input) option" where
  "ArrayInputStream_Skip count s =
     (if \<not> count \<ge> 0 then None
      else let s = s\<lparr>ai_last_returned_size := 0\<rparr> in
        if count > ai_size s - ai_position s then Some (False, s\<lparr>ai_position := ai_size s\<rparr>)
        else Some (True, s\<lparr>ai_position := ai_position s + count\<rparr>))"

definition array_input_stream :: "array_input zero_copy_input" where
  "array_input_stream = \<lparr>zi_Next = ArrayInputStream_Next, zi_BackUp = ArrayInputStream_BackUp,
     zi_Skip = ArrayInputStream_Skip, zi_ByteCount = ai_position\<rparr>"

definition array_inv :: "array_input \<Rightarrow> bool" where
  "array_inv s \<longleftrightarrow> ai_size s = int (length (ai_data s)) \<and> (ai_size s > 0 \<longrightarrow> ai_block_size s > 0) \<and>
     0 \<le> ai_last_returned_size s \<and> ai_last_returned_size s \<le> ai_position s \<and> ai_position s \<le> ai_size s"

definition array_pending :: "array_input \<Rightarrow> byte list" where
  "array_pending s = drop (nat (ai_position s)) (ai_data s)"

definition array_last :: "array_input \<Rightarrow> byte list" where
  "array_last s = take (nat (ai_last_returned_size s))
     (drop (nat (ai_position s - ai_last_returned_size s)) (ai_data s))"

lemma take_drop_pending:
  assumes "0 \<le> p" and "0 \<le> n" and "p + n \<le> int (length d)"
  shows "drop (nat p) d = take (nat n) (drop (nat p) d) @ drop (nat (p + n)) d"
  using assms by (simp add: nat_add_distrib add.commute flip: drop_drop)

lemma array_next_law:
  assumes "array_inv s"
  shows "\<exists>r s'. ArrayInputStream_Next s = Some (r, s') \<and> array_inv s' \<and>
      (case r of
         None \<Rightarrow> array_pending s = [] \<and> array_pending s' = [] \<and> ai_position s' = ai_position s
       | Some b \<Rightarrow> b \<noteq> [] \<and> array_pending s = b @ array_pending s' \<and> suffix b (array_last s') \<and>
           ai_position s' = ai_position s + int (length b))"
proof (cases "ai_position s < ai_size s")
  case True
  define n where "n = min (ai_block_size s) (ai_size s - ai_position s)"
  have n: "0 < n" "ai_position s + n \<le> int (length (ai_data s))" "0 \<le> ai_position s"
    using assms True by (auto simp: array_inv_def n_def)
  define b where "b = take (nat n) (drop (nat (ai_position s)) (ai_data s))"
  define s' where "s' = s\<lparr>ai_last_returned_size := n, ai_position := ai_position s + n\<rparr>"
  have "nat (ai_position s) + nat n \<le> length (ai_data s)" using n by linarith
  then have "mem_read (nat (ai_position s)) (nat n) (ai_data s) = Some b" and b: "int (length b) = n"
    using n by (simp_all add: b_def mem_read_def)
  then have "ArrayInputStream_Next s = Some (Some b, s')"
    using True by (simp add: ArrayInputStream_Next_def Let_def s'_def flip: n_def)
  moreover have "array_inv s'" using assms n by (simp add: s'_def array_inv_def)
  moreover have "array_pending s = b @ array_pending s'"
    using n take_drop_pending [of "ai_position s" n "ai_data s"] by (simp add: array_pending_def b_def s'_def)
  moreover have "array_last s' = b" by (simp add: array_last_def b_def s'_def)
  moreover have "ai_position s' = ai_position s + int (length b)" "b \<noteq> []" using b n by (auto simp: s'_def)
  ultimately show ?thesis by auto
qed (use assms in \<open>simp add: ArrayInputStream_Next_def array_inv_def array_pending_def\<close>)

lemma array_backup_law:
  assumes "array_inv s" and "array_last s \<noteq> []" and "0 \<le> n" and "n \<le> int (length (array_last s))"
  shows "\<exists>s'. ArrayInputStream_BackUp n s = Some s' \<and> array_inv s' \<and>
        array_pending s' = drop (length (array_last s) - nat n) (array_last s) @ array_pending s \<and>
        ai_position s' = ai_position s - n"
proof -
  let ?p = "ai_position s" and ?l = "ai_last_returned_size s"
  have l: "int (length (array_last s)) = ?l" "0 < ?l" "?l \<le> ?p" "?p \<le> int (length (ai_data s))"
    using assms(1,2) by (auto simp: array_inv_def array_last_def min_def)
  have d: "drop (length (array_last s) - nat n) (array_last s) = take (nat n) (drop (nat (?p - n)) (ai_data s))"
    using l assms(3,4) by (simp add: array_last_def drop_take nat_diff_distrib flip: nat_minus_as_int)
  show ?thesis
    using assms l d take_drop_pending [of "?p - n" n "ai_data s"]
    by (simp add: ArrayInputStream_BackUp_def array_inv_def array_pending_def)
qed

lemma array_skip_law:
  assumes "array_inv s" and "0 \<le> n"
  shows "\<exists>ok s'. ArrayInputStream_Skip n s = Some (ok, s') \<and> array_inv s' \<and>
        array_pending s' = drop (nat n) (array_pending s) \<and>
        (ok \<longrightarrow> nat n \<le> length (array_pending s)) \<and>
        (\<not> ok \<longrightarrow> length (array_pending s) < nat n \<or> n = 0 \<and> array_pending s = []) \<and>
        ai_position s' = ai_position s + int (length (array_pending s)) - int (length (array_pending s'))"
proof -
  have l: "int (length (array_pending s)) = ai_size s - ai_position s" and z: "0 \<le> ai_position s"
    using assms(1) by (auto simp: array_inv_def array_pending_def)
  show ?thesis
  proof (cases "n > ai_size s - ai_position s")
    case True
    then have "ArrayInputStream_Skip n s = Some (False, s\<lparr>ai_last_returned_size := 0, ai_position := ai_size s\<rparr>)"
      using assms(2) by (simp add: ArrayInputStream_Skip_def Let_def)
    moreover have "length (array_pending s) < nat n" using True l by linarith
    ultimately show ?thesis
      using assms(1) l by (auto simp: array_inv_def array_pending_def)
  next
    case False
    then have "ArrayInputStream_Skip n s = Some (True, s\<lparr>ai_last_returned_size := 0, ai_position := ai_position s + n\<rparr>)"
      using assms(2) by (simp add: ArrayInputStream_Skip_def Let_def)
    moreover have "nat n \<le> length (array_pending s)" using False l by linarith
    ultimately show ?thesis
      using assms l z False by (auto simp: array_inv_def array_pending_def nat_add_distrib add.commute)
  qed
qed

lemma array_input_stream_sels [simp]:
  "zi_Next array_input_stream = ArrayInputStream_Next" "zi_BackUp array_input_stream = ArrayInputStream_BackUp"
  "zi_Skip array_input_stream = ArrayInputStream_Skip" "zi_ByteCount array_input_stream = ai_position"
  by (simp_all add: array_input_stream_def)

interpretation array_in: input_contract array_input_stream array_inv array_pending array_last
  by (rule input_contract.intro; unfold array_input_stream_sels)
    (rule array_next_law array_backup_law array_skip_law; assumption)+

section \<open>Limited streams\<close>

record 's limiting_input =
  li_input :: 's
  li_limit :: int
  li_prior_bytes_read :: int

definition LimitingInputStream :: "'s zero_copy_input \<Rightarrow> 's \<Rightarrow> int \<Rightarrow> 's limiting_input" where
  "LimitingInputStream zs input limit =
     \<lparr>li_input = input, li_limit = limit, li_prior_bytes_read = zi_ByteCount zs input\<rparr>"

text \<open>The destructor backs up over what the last block held beyond the limit; the wrapped stream lives on.\<close>

definition LimitingInputStream_delete :: "'s zero_copy_input \<Rightarrow> 's limiting_input \<Rightarrow> 's option" where
  "LimitingInputStream_delete zs s =
     (if li_limit s < 0 then zi_BackUp zs (- li_limit s) (li_input s) else Some (li_input s))"

definition LimitingInputStream_Next ::
  "'s zero_copy_input \<Rightarrow> 's limiting_input \<Rightarrow> (byte list option \<times> 's limiting_input) option" where
  "LimitingInputStream_Next zs s =
     (if li_limit s \<le> 0 then Some (None, s)
      else do {
        (r, input) \<leftarrow> zi_Next zs (li_input s);
        let s = s\<lparr>li_input := input\<rparr> in
        (case r of
           None \<Rightarrow> Some (None, s)
         | Some b \<Rightarrow>
             let limit = li_limit s - int (length b); n = int (length b);
                 n = (if limit < 0 then n + limit else n) in
             Some (Some (take (nat n) b), s\<lparr>li_limit := limit\<rparr>)) })"

definition LimitingInputStream_BackUp :: "'s zero_copy_input \<Rightarrow> int \<Rightarrow> 's limiting_input \<Rightarrow> 's limiting_input option" where
  "LimitingInputStream_BackUp zs count s =
     (if li_limit s < 0 then do {
        input \<leftarrow> zi_BackUp zs (count - li_limit s) (li_input s);
        Some (s\<lparr>li_input := input, li_limit := count\<rparr>) }
      else do {
        input \<leftarrow> zi_BackUp zs count (li_input s);
        Some (s\<lparr>li_input := input, li_limit := li_limit s + count\<rparr>) })"

definition LimitingInputStream_Skip ::
  "'s zero_copy_input \<Rightarrow> int \<Rightarrow> 's limiting_input \<Rightarrow> (bool \<times> 's limiting_input) option" where
  "LimitingInputStream_Skip zs count s =
     (if count > li_limit s then
        (if li_limit s < 0 then Some (False, s)
         else do {
           (ok, input) \<leftarrow> zi_Skip zs (li_limit s) (li_input s);
           Some (False, s\<lparr>li_input := input, li_limit := 0\<rparr>) })
      else do {
        (ok, input) \<leftarrow> zi_Skip zs count (li_input s);
        let s = s\<lparr>li_input := input\<rparr> in
        (if \<not> ok then Some (False, s) else Some (True, s\<lparr>li_limit := li_limit s - count\<rparr>)) })"

definition LimitingInputStream_ByteCount :: "'s zero_copy_input \<Rightarrow> 's limiting_input \<Rightarrow> int" where
  "LimitingInputStream_ByteCount zs s =
     (if li_limit s < 0 then zi_ByteCount zs (li_input s) + li_limit s - li_prior_bytes_read s
      else zi_ByteCount zs (li_input s) - li_prior_bytes_read s)"

definition limiting_input_stream :: "'s zero_copy_input \<Rightarrow> 's limiting_input zero_copy_input" where
  "limiting_input_stream zs = \<lparr>zi_Next = LimitingInputStream_Next zs, zi_BackUp = LimitingInputStream_BackUp zs,
     zi_Skip = LimitingInputStream_Skip zs, zi_ByteCount = LimitingInputStream_ByteCount zs\<rparr>"

lemma limiting_input_stream_sels [simp]:
  "zi_Next (limiting_input_stream zs) = LimitingInputStream_Next zs"
  "zi_BackUp (limiting_input_stream zs) = LimitingInputStream_BackUp zs"
  "zi_Skip (limiting_input_stream zs) = LimitingInputStream_Skip zs"
  "zi_ByteCount (limiting_input_stream zs) = LimitingInputStream_ByteCount zs"
  by (simp_all add: limiting_input_stream_def)

text \<open>
  The abstraction. A negative limit says how many bytes of the last block lie beyond it: they have been
  taken from the wrapped stream but are not part of this one.
\<close>

definition limiting_inv :: "('s \<Rightarrow> bool) \<Rightarrow> ('s \<Rightarrow> byte list) \<Rightarrow> 's limiting_input \<Rightarrow> bool" where
  "limiting_inv good last_block s \<longleftrightarrow> good (li_input s) \<and>
     (li_limit s < 0 \<longrightarrow> - li_limit s \<le> int (length (last_block (li_input s))))"

definition limiting_pending :: "('s \<Rightarrow> byte list) \<Rightarrow> 's limiting_input \<Rightarrow> byte list" where
  "limiting_pending pending s = take (nat (li_limit s)) (pending (li_input s))"

definition limiting_last :: "('s \<Rightarrow> byte list) \<Rightarrow> 's limiting_input \<Rightarrow> byte list" where
  "limiting_last last_block s =
     (let b = last_block (li_input s) in
      if li_limit s < 0 then take (nat (int (length b) + li_limit s)) b else b)"

context input_contract
begin

lemma limiting_next_law:
  assumes "limiting_inv good last_block s"
  shows "\<exists>r s'. LimitingInputStream_Next zs s = Some (r, s') \<and> limiting_inv good last_block s' \<and>
      (case r of
         None \<Rightarrow> limiting_pending pending s = [] \<and> limiting_pending pending s' = [] \<and>
           LimitingInputStream_ByteCount zs s' = LimitingInputStream_ByteCount zs s
       | Some b \<Rightarrow> b \<noteq> [] \<and> limiting_pending pending s = b @ limiting_pending pending s' \<and>
           suffix b (limiting_last last_block s') \<and>
           LimitingInputStream_ByteCount zs s' = LimitingInputStream_ByteCount zs s + int (length b))"
proof (cases "li_limit s \<le> 0")
  case True
  then show ?thesis using assms by (simp add: LimitingInputStream_Next_def limiting_pending_def)
next
  case False
  have g: "good (li_input s)" using assms by (simp add: limiting_inv_def)
  obtain r input where n: "zi_Next zs (li_input s) = Some (r, input)" "good input"
    "case r of
         None \<Rightarrow> pending (li_input s) = [] \<and> pending input = [] \<and> zi_ByteCount zs input = zi_ByteCount zs (li_input s)
       | Some b \<Rightarrow> b \<noteq> [] \<and> pending (li_input s) = b @ pending input \<and> suffix b (last_block input) \<and>
           zi_ByteCount zs input = zi_ByteCount zs (li_input s) + int (length b)"
    using next_law [OF g] by blast
  show ?thesis
  proof (cases r)
    case None
    then show ?thesis
      using n False assms
      by (simp add: LimitingInputStream_Next_def Let_def limiting_inv_def limiting_pending_def LimitingInputStream_ByteCount_def)
  next
    case (Some b)
    define limit where "limit = li_limit s - int (length b)"
    define s' where "s' = s\<lparr>li_input := input, li_limit := limit\<rparr>"
    define c where "c = take (nat (if limit < 0 then int (length b) + limit else int (length b))) b"
    have c: "c = take (nat (li_limit s)) b"
      using False by (simp add: c_def limit_def nat_int_add) 
    obtain a where b: "b \<noteq> []" "last_block input = a @ b" "pending (li_input s) = b @ pending input"
      using n(3) Some by (auto simp: suffix_def)
    have "LimitingInputStream_Next zs s = Some (Some c, s')"
      using n Some False by (simp add: LimitingInputStream_Next_def Let_def s'_def c_def limit_def)
    moreover have "limiting_inv good last_block s'"
      using n(2) b False by (simp add: limiting_inv_def s'_def limit_def)
    moreover have "c \<noteq> []" using b False c by (cases b) auto
    moreover have "limiting_pending pending s = c @ limiting_pending pending s'"
    proof -
      have "nat (li_limit s - int (length b)) = nat (li_limit s) - length b" by linarith
      then show ?thesis using b(3) by (simp add: limiting_pending_def s'_def c limit_def)
    qed
    moreover have "suffix c (limiting_last last_block s')"
    proof (cases "limit < 0")
      case True
      then have "nat (int (length a) + int (length b) + limit) = length a + nat (li_limit s)"
        using False by (simp add: limit_def)
      then have "limiting_last last_block s' = a @ c"
        using b(2) True False by (simp add: limiting_last_def s'_def c Let_def)
      then show ?thesis by (simp add: suffix_def)
    next
      case ge: False
      then have "c = b" by (simp add: c_def)
      then show ?thesis using b(2) ge by (simp add: limiting_last_def s'_def Let_def suffix_def)
    qed
    moreover have "LimitingInputStream_ByteCount zs s' = LimitingInputStream_ByteCount zs s + int (length c)"
      using n(3) Some False by (simp add: LimitingInputStream_ByteCount_def s'_def c limit_def)
    ultimately show ?thesis by auto
  qed
qed

lemma limiting_backup_law:
  assumes "limiting_inv good last_block s" and "limiting_last last_block s \<noteq> []"
    and "0 \<le> n" and "n \<le> int (length (limiting_last last_block s))"
  shows "\<exists>s'. LimitingInputStream_BackUp zs n s = Some s' \<and> limiting_inv good last_block s' \<and>
        limiting_pending pending s' =
          drop (length (limiting_last last_block s) - nat n) (limiting_last last_block s) @ limiting_pending pending s \<and>
        LimitingInputStream_ByteCount zs s' = LimitingInputStream_ByteCount zs s - n"
proof -
  define b where "b = last_block (li_input s)"
  define m where "m = (if li_limit s < 0 then n - li_limit s else n)"
  have g: "good (li_input s)" using assms by (simp add: limiting_inv_def)
  have b: "b \<noteq> []" "0 \<le> m" "m \<le> int (length b)"
    using assms by (auto simp: limiting_last_def b_def Let_def m_def min_def split: if_splits)
  obtain input where i: "zi_BackUp zs m (li_input s) = Some input" "good input"
    "pending input = drop (length b - nat m) b @ pending (li_input s)"
    "zi_ByteCount zs input = zi_ByteCount zs (li_input s) - m"
    using backup_law [OF g, of m] b unfolding b_def by blast
  show ?thesis
  proof (cases "li_limit s < 0")
    case True
    then have "m = n - li_limit s" "li_limit s + int (length b) - n \<ge> 0" using b(3) by (simp_all add: m_def)
    then have "length b - nat m = nat (int (length b) + li_limit s) - nat n"
      "nat (int (length b) + li_limit s) - nat n + nat n = nat (int (length b) + li_limit s)"
      using True assms(3) by linarith+
    then show ?thesis
      using True i assms(1,3) b(2,3)
      by (simp add: LimitingInputStream_BackUp_def m_def limiting_inv_def limiting_pending_def limiting_last_def
          LimitingInputStream_ByteCount_def Let_def drop_take flip: b_def)
  next
    case False
    then show ?thesis
      using i assms(1,3) b
      by (simp add: LimitingInputStream_BackUp_def m_def limiting_inv_def limiting_pending_def limiting_last_def
          LimitingInputStream_ByteCount_def Let_def nat_add_distrib flip: b_def)
  qed
qed

lemma limiting_skip_law:
  assumes "limiting_inv good last_block s" and "0 \<le> n"
  shows "\<exists>ok s'. LimitingInputStream_Skip zs n s = Some (ok, s') \<and> limiting_inv good last_block s' \<and>
        limiting_pending pending s' = drop (nat n) (limiting_pending pending s) \<and>
        (ok \<longrightarrow> nat n \<le> length (limiting_pending pending s)) \<and>
        (\<not> ok \<longrightarrow> length (limiting_pending pending s) < nat n \<or> n = 0 \<and> limiting_pending pending s = []) \<and>
        LimitingInputStream_ByteCount zs s' = LimitingInputStream_ByteCount zs s +
          int (length (limiting_pending pending s)) - int (length (limiting_pending pending s'))"
proof -
  have g: "good (li_input s)" using assms by (simp add: limiting_inv_def)
  consider (over) "n > li_limit s" "li_limit s < 0" | (all) "n > li_limit s" "\<not> li_limit s < 0" | (some) "\<not> n > li_limit s"
    by blast
  then show ?thesis
  proof cases
    case over
    then have "LimitingInputStream_Skip zs n s = Some (False, s)" "limiting_pending pending s = []"
      by (simp_all add: LimitingInputStream_Skip_def limiting_pending_def)
    moreover have "0 < nat n \<or> n = 0" using assms(2) by linarith
    ultimately show ?thesis using assms(1) by auto
  next
    case all
    then obtain ok input where i: "zi_Skip zs (li_limit s) (li_input s) = Some (ok, input)" "good input"
      "pending input = drop (nat (li_limit s)) (pending (li_input s))"
      "zi_ByteCount zs input = zi_ByteCount zs (li_input s) + int (length (pending (li_input s))) - int (length (pending input))"
      using skip_law [OF g, of "li_limit s"] by auto
    define s' where "s' = s\<lparr>li_input := input, li_limit := 0\<rparr>"
    let ?P = "pending (li_input s)"
    have "LimitingInputStream_Skip zs n s = Some (False, s')"
      using all i(1) by (simp add: LimitingInputStream_Skip_def s'_def)
    moreover have "limiting_inv good last_block s'" "limiting_pending pending s' = []"
      using i(2) by (simp_all add: limiting_inv_def s'_def limiting_pending_def)
    moreover have "length (limiting_pending pending s) < nat n" "length (limiting_pending pending s) \<le> nat n"
    proof -
      have "nat (li_limit s) < nat n" "nat (li_limit s) \<le> nat n" using all by linarith+
      then show "length (limiting_pending pending s) < nat n" "length (limiting_pending pending s) \<le> nat n"
        by (simp_all add: limiting_pending_def min_less_iff_disj min_le_iff_disj)
    qed
    moreover have "int (length (limiting_pending pending s)) = int (length ?P) - int (length (pending input))"
      using all unfolding i(3) by (simp add: limiting_pending_def min_def)
    then have "LimitingInputStream_ByteCount zs s' = LimitingInputStream_ByteCount zs s + int (length (limiting_pending pending s))"
      using all i(4) by (simp add: LimitingInputStream_ByteCount_def s'_def)
    ultimately show ?thesis by auto
  next
    case some
    obtain ok input where i: "zi_Skip zs n (li_input s) = Some (ok, input)" "good input"
      "pending input = drop (nat n) (pending (li_input s))"
      "ok \<longrightarrow> nat n \<le> length (pending (li_input s))"
      "\<not> ok \<longrightarrow> length (pending (li_input s)) < nat n \<or> n = 0 \<and> pending (li_input s) = []"
      "zi_ByteCount zs input = zi_ByteCount zs (li_input s) + int (length (pending (li_input s))) - int (length (pending input))"
      using skip_law [OF g assms(2)] by blast
    show ?thesis
    proof (cases ok)
      case True
      define s' where "s' = s\<lparr>li_input := input, li_limit := li_limit s - n\<rparr>"
      let ?P = "pending (li_input s)"
      have d: "nat (li_limit s - n) = nat (li_limit s) - nat n" using assms(2) by (simp add: nat_diff_distrib)
      have l: "nat n \<le> length ?P" "nat n \<le> nat (li_limit s)" using i(4) True some by auto
      have "LimitingInputStream_Skip zs n s = Some (True, s')"
        using some i(1) True by (simp add: LimitingInputStream_Skip_def s'_def)
      moreover have p: "limiting_pending pending s' = drop (nat n) (limiting_pending pending s)"
        by (simp add: limiting_pending_def s'_def i(3) d drop_take)
      moreover have k: "nat n \<le> length (limiting_pending pending s)"
        using l by (simp add: limiting_pending_def)
      moreover have "limiting_inv good last_block s'"
        using some i(2) assms(2) by (simp add: limiting_inv_def s'_def)
      moreover have "zi_ByteCount zs input = zi_ByteCount zs (li_input s) + n"
        using i(6) l(1) assms(2) unfolding i(3) by simp
      then have "LimitingInputStream_ByteCount zs s' = LimitingInputStream_ByteCount zs s + n"
        using some assms(2) by (simp add: LimitingInputStream_ByteCount_def s'_def)
      moreover have "int (length (limiting_pending pending s')) = int (length (limiting_pending pending s)) - n"
        using k assms(2) unfolding p by simp
      ultimately show ?thesis by auto
    next
      case False
      define s' where "s' = s\<lparr>li_input := input\<rparr>"
      have P: "pending input = []" "length (pending (li_input s)) \<le> nat (li_limit s)"
        using i(3,5) False some by auto
      have "LimitingInputStream_Skip zs n s = Some (False, s')"
        using some i(1) False by (simp add: LimitingInputStream_Skip_def s'_def)
      moreover have "limiting_inv good last_block s'" "limiting_pending pending s' = []"
        using some i(2) assms(2) P(1) by (simp_all add: limiting_inv_def s'_def limiting_pending_def)
      moreover have p: "limiting_pending pending s = pending (li_input s)"
        using P(2) by (simp add: limiting_pending_def)
      moreover have "LimitingInputStream_ByteCount zs s' = LimitingInputStream_ByteCount zs s + int (length (pending (li_input s)))"
        using some i(6) assms(2) P(1) by (simp add: LimitingInputStream_ByteCount_def s'_def)
      moreover have "length (limiting_pending pending s) < nat n \<or> n = 0 \<and> limiting_pending pending s = []"
        using i(5) False unfolding p by blast
      moreover have "[] = drop (nat n) (pending (li_input s))" using i(3) P(1) by simp
      ultimately show ?thesis by (intro exI [of _ False] exI [of _ s']) simp
    qed
  qed
qed

lemma limiting_contract:
  "input_contract (limiting_input_stream zs) (limiting_inv good last_block) (limiting_pending pending) (limiting_last last_block)"
  by (rule input_contract.intro; unfold limiting_input_stream_sels)
    (rule limiting_next_law limiting_backup_law limiting_skip_law; assumption)+

end

section \<open>Concatenated streams\<close>

text \<open>The streams that are left; \<open>stream_count_\<close> is their number.\<close>

record 's concatenating_input =
  ci_streams :: "'s list"
  ci_bytes_retired :: int

definition ConcatenatingInputStream :: "'s list \<Rightarrow> 's concatenating_input" where
  "ConcatenatingInputStream streams = \<lparr>ci_streams = streams, ci_bytes_retired = 0\<rparr>"

fun concatenating_next ::
  "'s zero_copy_input \<Rightarrow> 's list \<Rightarrow> int \<Rightarrow> (byte list option \<times> 's concatenating_input) option" where
  "concatenating_next zs [] retired = Some (None, \<lparr>ci_streams = [], ci_bytes_retired = retired\<rparr>)"
| "concatenating_next zs (x # xs) retired = do {
     (r, x) \<leftarrow> zi_Next zs x;
     (case r of
        Some b \<Rightarrow> Some (Some b, \<lparr>ci_streams = x # xs, ci_bytes_retired = retired\<rparr>)
      | None \<Rightarrow> concatenating_next zs xs (retired + zi_ByteCount zs x)) }"

definition ConcatenatingInputStream_Next ::
  "'s zero_copy_input \<Rightarrow> 's concatenating_input \<Rightarrow> (byte list option \<times> 's concatenating_input) option" where
  "ConcatenatingInputStream_Next zs s = concatenating_next zs (ci_streams s) (ci_bytes_retired s)"

definition ConcatenatingInputStream_BackUp ::
  "'s zero_copy_input \<Rightarrow> int \<Rightarrow> 's concatenating_input \<Rightarrow> 's concatenating_input option" where
  "ConcatenatingInputStream_BackUp zs count s =
     (case ci_streams s of
        x # xs \<Rightarrow> do { x \<leftarrow> zi_BackUp zs count x; Some (s\<lparr>ci_streams := x # xs\<rparr>) }
      | [] \<Rightarrow> Some s)"

fun concatenating_skip ::
  "'s zero_copy_input \<Rightarrow> int \<Rightarrow> 's list \<Rightarrow> int \<Rightarrow> (bool \<times> 's concatenating_input) option" where
  "concatenating_skip zs count [] retired = Some (False, \<lparr>ci_streams = [], ci_bytes_retired = retired\<rparr>)"
| "concatenating_skip zs count (x # xs) retired = (let target_byte_count = zi_ByteCount zs x + count in do {
     (ok, x) \<leftarrow> zi_Skip zs count x;
     (if ok then Some (True, \<lparr>ci_streams = x # xs, ci_bytes_retired = retired\<rparr>)
      else let final_byte_count = zi_ByteCount zs x; count = target_byte_count - final_byte_count in
        concatenating_skip zs count xs (retired + final_byte_count)) })"

definition ConcatenatingInputStream_Skip ::
  "'s zero_copy_input \<Rightarrow> int \<Rightarrow> 's concatenating_input \<Rightarrow> (bool \<times> 's concatenating_input) option" where
  "ConcatenatingInputStream_Skip zs count s = concatenating_skip zs count (ci_streams s) (ci_bytes_retired s)"

definition ConcatenatingInputStream_ByteCount :: "'s zero_copy_input \<Rightarrow> 's concatenating_input \<Rightarrow> int" where
  "ConcatenatingInputStream_ByteCount zs s =
     (case ci_streams s of [] \<Rightarrow> ci_bytes_retired s | x # _ \<Rightarrow> ci_bytes_retired s + zi_ByteCount zs x)"

definition concatenating_input_stream :: "'s zero_copy_input \<Rightarrow> 's concatenating_input zero_copy_input" where
  "concatenating_input_stream zs =
     \<lparr>zi_Next = ConcatenatingInputStream_Next zs, zi_BackUp = ConcatenatingInputStream_BackUp zs,
      zi_Skip = ConcatenatingInputStream_Skip zs, zi_ByteCount = ConcatenatingInputStream_ByteCount zs\<rparr>"

lemma concatenating_input_stream_sels [simp]:
  "zi_Next (concatenating_input_stream zs) = ConcatenatingInputStream_Next zs"
  "zi_BackUp (concatenating_input_stream zs) = ConcatenatingInputStream_BackUp zs"
  "zi_Skip (concatenating_input_stream zs) = ConcatenatingInputStream_Skip zs"
  "zi_ByteCount (concatenating_input_stream zs) = ConcatenatingInputStream_ByteCount zs"
  by (simp_all add: concatenating_input_stream_def)

text \<open>
  The streams behind the first have not been read from: they count no bytes, and their counts are
  added when they are reached.
\<close>

definition concatenating_inv :: "'s zero_copy_input \<Rightarrow> ('s \<Rightarrow> bool) \<Rightarrow> 's concatenating_input \<Rightarrow> bool" where
  "concatenating_inv zs good s \<longleftrightarrow>
     list_all good (ci_streams s) \<and> list_all (\<lambda>x. zi_ByteCount zs x = 0) (tl (ci_streams s))"

definition concatenating_pending :: "('s \<Rightarrow> byte list) \<Rightarrow> 's concatenating_input \<Rightarrow> byte list" where
  "concatenating_pending pending s = concat (map pending (ci_streams s))"

definition concatenating_last :: "('s \<Rightarrow> byte list) \<Rightarrow> 's concatenating_input \<Rightarrow> byte list" where
  "concatenating_last last_block s = (case ci_streams s of [] \<Rightarrow> [] | x # _ \<Rightarrow> last_block x)"

context input_contract
begin

lemma concatenating_next_law:
  assumes "list_all good xs" and "list_all (\<lambda>x. zi_ByteCount zs x = 0) (tl xs)"
  shows "\<exists>r s'. concatenating_next zs xs m = Some (r, s') \<and> concatenating_inv zs good s' \<and>
      (case r of
         None \<Rightarrow> concat (map pending xs) = [] \<and> concatenating_pending pending s' = [] \<and>
           ConcatenatingInputStream_ByteCount zs s' =
             ConcatenatingInputStream_ByteCount zs \<lparr>ci_streams = xs, ci_bytes_retired = m\<rparr>
       | Some b \<Rightarrow> b \<noteq> [] \<and> concat (map pending xs) = b @ concatenating_pending pending s' \<and>
           suffix b (concatenating_last last_block s') \<and>
           ConcatenatingInputStream_ByteCount zs s' =
             ConcatenatingInputStream_ByteCount zs \<lparr>ci_streams = xs, ci_bytes_retired = m\<rparr> + int (length b))"
  using assms
proof (induction xs arbitrary: m)
  case Nil
  then show ?case by (simp add: concatenating_inv_def concatenating_pending_def)
next
  case (Cons x xs)
  obtain r y where n: "zi_Next zs x = Some (r, y)" "good y"
    "case r of
         None \<Rightarrow> pending x = [] \<and> pending y = [] \<and> zi_ByteCount zs y = zi_ByteCount zs x
       | Some b \<Rightarrow> b \<noteq> [] \<and> pending x = b @ pending y \<and> suffix b (last_block y) \<and>
           zi_ByteCount zs y = zi_ByteCount zs x + int (length b)"
    using next_law [of x] Cons.prems(1) by auto
  show ?case
  proof (cases r)
    case None
    have z: "list_all (\<lambda>x. zi_ByteCount zs x = 0) (tl xs)" using Cons.prems(2) by (cases xs) auto
    have "ConcatenatingInputStream_ByteCount zs \<lparr>ci_streams = xs, ci_bytes_retired = m + zi_ByteCount zs y\<rparr> =
        ConcatenatingInputStream_ByteCount zs \<lparr>ci_streams = x # xs, ci_bytes_retired = m\<rparr>"
      using n(3) None Cons.prems(2) by (cases xs) (simp_all add: ConcatenatingInputStream_ByteCount_def)
    moreover have "concatenating_next zs (x # xs) m = concatenating_next zs xs (m + zi_ByteCount zs y)"
      "concat (map pending (x # xs)) = concat (map pending xs)"
      using n None by simp_all
    moreover have "list_all good xs" using Cons.prems(1) by simp
    ultimately show ?thesis
      using Cons.IH [OF _ z, of "m + zi_ByteCount zs y"] by (simp only: simp_thms)
  next
    case (Some b)
    then show ?thesis
      using n Cons.prems
      by (simp add: concatenating_inv_def concatenating_pending_def concatenating_last_def
          ConcatenatingInputStream_ByteCount_def)
  qed
qed

lemma concatenating_backup_law:
  assumes "concatenating_inv zs good s" and "concatenating_last last_block s \<noteq> []"
    and "0 \<le> n" and "n \<le> int (length (concatenating_last last_block s))"
  shows "\<exists>s'. ConcatenatingInputStream_BackUp zs n s = Some s' \<and> concatenating_inv zs good s' \<and>
        concatenating_pending pending s' =
          drop (length (concatenating_last last_block s) - nat n) (concatenating_last last_block s) @
            concatenating_pending pending s \<and>
        ConcatenatingInputStream_ByteCount zs s' = ConcatenatingInputStream_ByteCount zs s - n"
proof -
  obtain x xs where s: "ci_streams s = x # xs"
    using assms(2) by (cases "ci_streams s") (auto simp: concatenating_last_def)
  then obtain y where "zi_BackUp zs n x = Some y" "good y"
    "pending y = drop (length (last_block x) - nat n) (last_block x) @ pending x"
    "zi_ByteCount zs y = zi_ByteCount zs x - n"
    using backup_law [of x n] assms by (auto simp: concatenating_inv_def concatenating_last_def)
  then show ?thesis
    using assms(1) s
    by (simp add: ConcatenatingInputStream_BackUp_def concatenating_inv_def concatenating_pending_def
        concatenating_last_def ConcatenatingInputStream_ByteCount_def)
qed

lemma concatenating_skip_law:
  assumes "list_all good xs" and "list_all (\<lambda>x. zi_ByteCount zs x = 0) (tl xs)" and "0 \<le> n"
  shows "\<exists>ok s'. concatenating_skip zs n xs m = Some (ok, s') \<and> concatenating_inv zs good s' \<and>
        concatenating_pending pending s' = drop (nat n) (concat (map pending xs)) \<and>
        (ok \<longrightarrow> nat n \<le> length (concat (map pending xs))) \<and>
        (\<not> ok \<longrightarrow> length (concat (map pending xs)) < nat n \<or> n = 0 \<and> concat (map pending xs) = []) \<and>
        ConcatenatingInputStream_ByteCount zs s' =
          ConcatenatingInputStream_ByteCount zs \<lparr>ci_streams = xs, ci_bytes_retired = m\<rparr> +
          int (length (concat (map pending xs))) - int (length (concatenating_pending pending s'))"
  using assms
proof (induction xs arbitrary: m n)
  case Nil
  then have "0 < nat n \<or> n = 0" by linarith
  then show ?case by (auto simp: concatenating_inv_def concatenating_pending_def)
next
  case (Cons x xs)
  obtain ok y where i: "zi_Skip zs n x = Some (ok, y)" "good y" "pending y = drop (nat n) (pending x)"
      "ok \<longrightarrow> nat n \<le> length (pending x)" "\<not> ok \<longrightarrow> length (pending x) < nat n \<or> n = 0 \<and> pending x = []"
      "zi_ByteCount zs y = zi_ByteCount zs x + int (length (pending x)) - int (length (pending y))"
    using skip_law [of x n] Cons.prems(1,3) by auto
  show ?case
  proof (cases ok)
    case True
    then show ?thesis
      using i Cons.prems
      by (auto simp: Let_def concatenating_inv_def concatenating_pending_def ConcatenatingInputStream_ByteCount_def)
  next
    case False
    let ?C = "\<lambda>xs m. ConcatenatingInputStream_ByteCount zs \<lparr>ci_streams = xs, ci_bytes_retired = m\<rparr>"
    have z: "list_all good xs" "list_all (\<lambda>x. zi_ByteCount zs x = 0) (tl xs)"
      using Cons.prems(1,2) by (cases xs; simp)+
    have l: "length (pending x) \<le> nat n" "pending y = []" using i(3,5) False Cons.prems(3) by auto
    then have y: "zi_ByteCount zs y = zi_ByteCount zs x + int (length (pending x))" using i(6) by simp
    define k where "k = zi_ByteCount zs x + n - zi_ByteCount zs y"
    have k: "0 \<le> k" "nat k = nat n - length (pending x)" using l y Cons.prems(3) by (simp_all add: k_def)
    have C: "?C xs (m + zi_ByteCount zs y) = ?C (x # xs) m + int (length (pending x))"
      using y Cons.prems(2) by (cases xs) (simp_all add: ConcatenatingInputStream_ByteCount_def)
    have step: "concatenating_skip zs n (x # xs) m = concatenating_skip zs k xs (m + zi_ByteCount zs y)"
      using i(1) False by (simp add: Let_def k_def)
    obtain ok' s' where r: "concatenating_skip zs k xs (m + zi_ByteCount zs y) = Some (ok', s')"
      "concatenating_inv zs good s'" "concatenating_pending pending s' = drop (nat k) (concat (map pending xs))"
      "ok' \<longrightarrow> nat k \<le> length (concat (map pending xs))"
      "\<not> ok' \<longrightarrow> length (concat (map pending xs)) < nat k \<or> k = 0 \<and> concat (map pending xs) = []"
      "ConcatenatingInputStream_ByteCount zs s' = ?C xs (m + zi_ByteCount zs y) +
          int (length (concat (map pending xs))) - int (length (concatenating_pending pending s'))"
      using Cons.IH [OF z k(1), of "m + zi_ByteCount zs y"] by blast
    have "\<not> ok' \<longrightarrow> length (concat (map pending (x # xs))) < nat n \<or> n = 0 \<and> concat (map pending (x # xs)) = []"
      using r(5) k l i(5) False by auto
    moreover have "ok' \<longrightarrow> nat n \<le> length (concat (map pending (x # xs)))"
      using r(4) k(2) by auto
    moreover have "concatenating_pending pending s' = drop (nat n) (concat (map pending (x # xs)))"
      using r(3) k(2) l(1) by simp
    moreover have "ConcatenatingInputStream_ByteCount zs s' = ?C (x # xs) m +
          int (length (concat (map pending (x # xs)))) - int (length (concatenating_pending pending s'))"
      using r(6) C by simp
    ultimately show ?thesis
      using r(1,2) unfolding step by blast
  qed
qed

lemma concatenating_contract:
  "input_contract (concatenating_input_stream zs) (concatenating_inv zs good) (concatenating_pending pending)
     (concatenating_last last_block)"
  unfolding input_contract_def concatenating_input_stream_sels
proof (intro conjI allI impI)
  fix s assume s: "concatenating_inv zs good s"
  have e: "\<lparr>ci_streams = ci_streams s, ci_bytes_retired = ci_bytes_retired s\<rparr> = s" by simp
  show "\<exists>r s'. ConcatenatingInputStream_Next zs s = Some (r, s') \<and> concatenating_inv zs good s' \<and>
      (case r of
         None \<Rightarrow> concatenating_pending pending s = [] \<and> concatenating_pending pending s' = [] \<and>
           ConcatenatingInputStream_ByteCount zs s' = ConcatenatingInputStream_ByteCount zs s
       | Some b \<Rightarrow> b \<noteq> [] \<and> concatenating_pending pending s = b @ concatenating_pending pending s' \<and>
           suffix b (concatenating_last last_block s') \<and>
           ConcatenatingInputStream_ByteCount zs s' = ConcatenatingInputStream_ByteCount zs s + int (length b))"
    using s concatenating_next_law [of "ci_streams s" "ci_bytes_retired s"]
    unfolding concatenating_inv_def ConcatenatingInputStream_Next_def e
      concatenating_pending_def [of pending s] by blast
next
  fix s and n :: int assume s: "concatenating_inv zs good s" "0 \<le> n"
  have e: "\<lparr>ci_streams = ci_streams s, ci_bytes_retired = ci_bytes_retired s\<rparr> = s" by simp
  show "\<exists>ok s'. ConcatenatingInputStream_Skip zs n s = Some (ok, s') \<and> concatenating_inv zs good s' \<and>
        concatenating_pending pending s' = drop (nat n) (concatenating_pending pending s) \<and>
        (ok \<longrightarrow> nat n \<le> length (concatenating_pending pending s)) \<and>
        (\<not> ok \<longrightarrow> length (concatenating_pending pending s) < nat n \<or> n = 0 \<and> concatenating_pending pending s = []) \<and>
        ConcatenatingInputStream_ByteCount zs s' = ConcatenatingInputStream_ByteCount zs s +
          int (length (concatenating_pending pending s)) - int (length (concatenating_pending pending s'))"
    using s concatenating_skip_law [of "ci_streams s" n "ci_bytes_retired s"]
    unfolding concatenating_inv_def ConcatenatingInputStream_Skip_def e
      concatenating_pending_def [of pending s] by blast
qed (use concatenating_backup_law in blast)

end

section \<open>Reading to the end\<close>

text \<open>A client that calls \<open>Next\<close> until it fails; \<open>None\<close> also stands for a client that never gets there.\<close>

partial_function (option) read_all :: "'s zero_copy_input \<Rightarrow> 's \<Rightarrow> (byte list \<times> 's) option" where
  "read_all zs s = do {
     (r, s) \<leftarrow> zi_Next zs s;
     (case r of
        None \<Rightarrow> Some ([], s)
      | Some b \<Rightarrow> do { (bs, s) \<leftarrow> read_all zs s; Some (b @ bs, s) }) }"

text \<open>What lies behind the limit in the wrapped stream.\<close>

definition limiting_beyond :: "('s \<Rightarrow> byte list) \<Rightarrow> ('s \<Rightarrow> byte list) \<Rightarrow> 's limiting_input \<Rightarrow> byte list" where
  "limiting_beyond pending last_block s =
     (let b = last_block (li_input s) in
      if li_limit s < 0 then drop (nat (int (length b) + li_limit s)) b @ pending (li_input s)
      else drop (nat (li_limit s)) (pending (li_input s)))"

context input_contract
begin

lemma read_all_delivers:
  assumes "good s" and "P s"
    and "\<And>s r s'. good s \<Longrightarrow> P s \<Longrightarrow> zi_Next zs s = Some (r, s') \<Longrightarrow> P s'"
  shows "\<exists>s'. read_all zs s = Some (pending s, s') \<and> good s' \<and> P s' \<and> pending s' = [] \<and>
    zi_ByteCount zs s' = zi_ByteCount zs s + int (length (pending s))"
  using assms(1,2)
proof (induction "length (pending s)" arbitrary: s rule: less_induct)
  case less
  obtain r s1 where n: "zi_Next zs s = Some (r, s1)" "good s1"
      "case r of
         None \<Rightarrow> pending s = [] \<and> pending s1 = [] \<and> zi_ByteCount zs s1 = zi_ByteCount zs s
       | Some b \<Rightarrow> b \<noteq> [] \<and> pending s = b @ pending s1 \<and> suffix b (last_block s1) \<and>
           zi_ByteCount zs s1 = zi_ByteCount zs s + int (length b)"
    using next_law [OF less.prems(1)] by blast
  have P: "P s1" using assms(3) less.prems n(1) by blast
  show ?case
  proof (cases r)
    case None
    then show ?thesis using n P by (subst read_all.simps) simp
  next
    case (Some b)
    then have "length (pending s1) < length (pending s)" using n(3) by simp
    then obtain s' where "read_all zs s1 = Some (pending s1, s')" "good s'" "P s'" "pending s' = []"
      "zi_ByteCount zs s' = zi_ByteCount zs s1 + int (length (pending s1))"
      using less.hyps n(2) P by blast
    then show ?thesis using n(1,3) Some by (subst read_all.simps) simp
  qed
qed

lemma limiting_next_beyond:
  assumes "limiting_inv good last_block s" and "LimitingInputStream_Next zs s = Some (r, s')"
  shows "limiting_beyond pending last_block s' = limiting_beyond pending last_block s"
proof (cases "li_limit s \<le> 0")
  case True
  then show ?thesis using assms(2) by (simp add: LimitingInputStream_Next_def)
next
  case False
  have g: "good (li_input s)" using assms(1) by (simp add: limiting_inv_def)
  obtain r1 input where n: "zi_Next zs (li_input s) = Some (r1, input)"
    "case r1 of
         None \<Rightarrow> pending (li_input s) = [] \<and> pending input = [] \<and> zi_ByteCount zs input = zi_ByteCount zs (li_input s)
       | Some b \<Rightarrow> b \<noteq> [] \<and> pending (li_input s) = b @ pending input \<and> suffix b (last_block input) \<and>
           zi_ByteCount zs input = zi_ByteCount zs (li_input s) + int (length b)"
    using next_law [OF g] by blast
  show ?thesis
  proof (cases r1)
    case None
    then show ?thesis
      using assms(2) n False by (auto simp: LimitingInputStream_Next_def limiting_beyond_def Let_def)
  next
    case (Some b)
    have d: "nat (li_limit s - int (length b)) = nat (li_limit s) - length b" by linarith
    obtain a where a: "last_block input = a @ b" using n(2) Some by (auto simp: suffix_def)
    then have e: "nat (int (length (last_block input)) + (li_limit s - int (length b))) = length a + nat (li_limit s)"
      using False by simp
    have z: "li_limit s < int (length b) \<Longrightarrow> nat (li_limit s) - length b = 0" by simp
    have s': "li_input s' = input" "li_limit s' = li_limit s - int (length b)"
      using assms(2) n(1) Some False by (auto simp: LimitingInputStream_Next_def Let_def)
    show ?thesis
      using n(2) Some False unfolding limiting_beyond_def Let_def s' e by (auto simp: a d z)
  qed
qed

lemma limiting_delete:
  assumes "limiting_inv good last_block s"
  shows "\<exists>x. LimitingInputStream_delete zs s = Some x \<and> good x \<and>
    pending x = limiting_pending pending s @ limiting_beyond pending last_block s"
proof (cases "li_limit s < 0")
  case True
  let ?b = "last_block (li_input s)"
  have l: "good (li_input s)" "0 \<le> - li_limit s" "- li_limit s \<le> int (length ?b)" "?b \<noteq> []"
    using assms True by (auto simp: limiting_inv_def)
  obtain x where x: "zi_BackUp zs (- li_limit s) (li_input s) = Some x" "good x"
    "pending x = drop (length ?b - nat (- li_limit s)) ?b @ pending (li_input s)"
    using backup_law [OF l(1,4,2,3)] by blast
  have "length ?b - nat (- li_limit s) = nat (int (length ?b) + li_limit s)" using True by linarith
  then show ?thesis
    using x True by (simp add: LimitingInputStream_delete_def limiting_pending_def limiting_beyond_def Let_def)
next
  case False
  then show ?thesis
    using assms by (simp add: LimitingInputStream_delete_def limiting_pending_def limiting_beyond_def limiting_inv_def Let_def)
qed

lemma limited_read_all:
  assumes "good x" and "0 \<le> limit"
  shows "\<exists>s y. read_all (limiting_input_stream zs) (LimitingInputStream zs x limit) = Some (take (nat limit) (pending x), s) \<and>
    LimitingInputStream_ByteCount zs s = int (length (take (nat limit) (pending x))) \<and>
    LimitingInputStream_delete zs s = Some y \<and> good y \<and> pending y = drop (nat limit) (pending x)"
proof -
  let ?s = "LimitingInputStream zs x limit" and ?B = "limiting_beyond pending last_block"
  have i: "limiting_inv good last_block ?s" "limiting_pending pending ?s = take (nat limit) (pending x)"
    "?B ?s = drop (nat limit) (pending x)" "LimitingInputStream_ByteCount zs ?s = 0"
    using assms by (simp_all add: LimitingInputStream_def limiting_inv_def limiting_pending_def limiting_beyond_def
        LimitingInputStream_ByteCount_def Let_def)
  have k: "limiting_inv good last_block s \<Longrightarrow> ?B s = ?B ?s \<Longrightarrow>
      zi_Next (limiting_input_stream zs) s = Some (r, s') \<Longrightarrow> ?B s' = ?B ?s" for s r s'
    using limiting_next_beyond [of s r s'] by simp
  obtain s where s: "read_all (limiting_input_stream zs) ?s = Some (limiting_pending pending ?s, s)"
    "limiting_inv good last_block s" "?B s = ?B ?s" "limiting_pending pending s = []"
    "zi_ByteCount (limiting_input_stream zs) s = zi_ByteCount (limiting_input_stream zs) ?s + int (length (limiting_pending pending ?s))"
    using input_contract.read_all_delivers [OF limiting_contract i(1), where P = "\<lambda>s. ?B s = ?B ?s"] k by blast
  then show ?thesis using limiting_delete [OF s(2)] i(2,3,4) by auto
qed

end

interpretation array_parts: input_contract "concatenating_input_stream array_input_stream"
    "concatenating_inv array_input_stream array_inv" "concatenating_pending array_pending" "concatenating_last array_last"
  by (rule array_in.concatenating_contract)

interpretation limited_array: input_contract "limiting_input_stream array_input_stream"
    "limiting_inv array_inv array_last" "limiting_pending array_pending" "limiting_last array_last"
  by (rule array_in.limiting_contract)

definition array_stream_of :: "byte list \<times> int \<Rightarrow> array_input" where
  "array_stream_of d = ArrayInputStream (fst d) (int (length (fst d))) (snd d)"

lemma array_stream_of_facts:
  "array_inv (array_stream_of d)" "array_pending (array_stream_of d) = fst d" "ai_position (array_stream_of d) = 0"
  by (auto simp: array_stream_of_def ArrayInputStream_def array_inv_def array_pending_def)

text \<open>
  A \<open>LimitingInputStream\<close> over a \<open>ConcatenatingInputStream\<close> over arrays, read to its end, delivers exactly the
  first \<open>limit\<close> bytes of the concatenated arrays, whatever the block sizes are, and counts them; when it is
  deleted, the wrapped stream is left exactly behind them, although its last block reached further: what is
  read from it then is the rest of the data.
\<close>

theorem limited_concatenation_delivers:
  assumes "0 \<le> limit"
  shows "\<exists>s c e.
    read_all (limiting_input_stream (concatenating_input_stream array_input_stream))
      (LimitingInputStream (concatenating_input_stream array_input_stream)
        (ConcatenatingInputStream (map array_stream_of arrays)) limit) = Some (take (nat limit) (concat (map fst arrays)), s) \<and>
    LimitingInputStream_ByteCount (concatenating_input_stream array_input_stream) s =
      int (min (nat limit) (length (concat (map fst arrays)))) \<and>
    LimitingInputStream_delete (concatenating_input_stream array_input_stream) s = Some c \<and>
    read_all (concatenating_input_stream array_input_stream) c = Some (drop (nat limit) (concat (map fst arrays)), e)"
proof -
  let ?x = "ConcatenatingInputStream (map array_stream_of arrays)"
  have g: "concatenating_inv array_input_stream array_inv ?x"
    by (cases arrays) (auto simp: ConcatenatingInputStream_def concatenating_inv_def array_stream_of_facts list_all_iff)
  have p: "concatenating_pending array_pending ?x = concat (map fst arrays)"
    by (simp add: ConcatenatingInputStream_def concatenating_pending_def comp_def array_stream_of_facts)
  show ?thesis
    using array_parts.limited_read_all [OF g assms]
      array_parts.read_all_delivers [where P = "\<lambda>_. True"] unfolding p length_take min.commute [of "nat limit"] by metis
qed

theorem limited_concatenation_delivers_witness:
  "\<exists>s c e.
    read_all (limiting_input_stream (concatenating_input_stream array_input_stream))
      (LimitingInputStream (concatenating_input_stream array_input_stream)
        (ConcatenatingInputStream (map array_stream_of [([1, 2, 3], 2), ([], 0), ([4, 5, 6], -1)])) 4) = Some ([1, 2, 3, 4], s) \<and>
    LimitingInputStream_ByteCount (concatenating_input_stream array_input_stream) s = 4 \<and>
    LimitingInputStream_delete (concatenating_input_stream array_input_stream) s = Some c \<and>
    read_all (concatenating_input_stream array_input_stream) c = Some ([5, 6], e)"
  using limited_concatenation_delivers [of 4 "[([1, 2, 3], 2), ([], 0), ([4, 5, 6], -1)]"] by simp

end
