(* ===== verification/Varint.thy ===== *)
theory Varint
  imports Prelude
begin

text \<open>
  The base-128 integers of the protocol buffer wire format, as
  Lib/protobuf/include/google/protobuf/io/coded_stream.cc (and .h) reads and writes them: the
  unrolled decoders \<open>ReadVarint32FromArray\<close> and the fast path of \<open>ReadVarint64Fallback\<close>, the unrolled
  encoders of the ToArray methods, the loop encoders of the slow paths, and the size functions.
  Decoders read from a block of memory at an index; the outer option is the bounds check of the
  model (\<open>None\<close>: a read outside the block), the inner one the code's own failure value.
  Encoders return the bytes they store at \<open>target\<close>, in order; the pointer they return is past the
  last of them.
\<close>

unbundle bit_operations_syntax

section \<open>Decoders\<close>

definition kMaxVarintBytes :: nat where
  "kMaxVarintBytes = 10"

definition kMaxVarint32Bytes :: nat where
  "kMaxVarint32Bytes = 5"

text \<open>The tail of \<open>ReadVarint32FromArray\<close>: read and discard the bytes beyond 32 bits.\<close>

fun discard_high_bytes :: "nat \<Rightarrow> byte list \<Rightarrow> nat \<Rightarrow> nat option option" where
  "discard_high_bytes 0 m p = Some None"
| "discard_high_bytes (Suc i) m p = do {
     b \<leftarrow> mem_get p m;
     if b AND 0x80 = 0 then Some (Some (p + 1)) else discard_high_bytes i m (p + 1)
   }"

definition ReadVarint32FromArray :: "byte list \<Rightarrow> nat \<Rightarrow> (uint32 \<times> nat) option option" where
  "ReadVarint32FromArray m p = do {
     b \<leftarrow> mem_get p m; let result = (ucast b :: uint32);
     if b AND 0x80 = 0 then Some (Some (result, p + 1)) else do {
     let result = result - 0x80;
     b \<leftarrow> mem_get (p + 1) m; let result = result + push_bit 7 (ucast b);
     if b AND 0x80 = 0 then Some (Some (result, p + 2)) else do {
     let result = result - push_bit 7 0x80;
     b \<leftarrow> mem_get (p + 2) m; let result = result + push_bit 14 (ucast b);
     if b AND 0x80 = 0 then Some (Some (result, p + 3)) else do {
     let result = result - push_bit 14 0x80;
     b \<leftarrow> mem_get (p + 3) m; let result = result + push_bit 21 (ucast b);
     if b AND 0x80 = 0 then Some (Some (result, p + 4)) else do {
     let result = result - push_bit 21 0x80;
     b \<leftarrow> mem_get (p + 4) m; let result = result + push_bit 28 (ucast b);
     if b AND 0x80 = 0 then Some (Some (result, p + 5)) else do {
     ptr \<leftarrow> discard_high_bytes (kMaxVarintBytes - kMaxVarint32Bytes) m (p + 5);
     Some (map_option (Pair result) ptr) }}}}}}"

definition varint64_parts :: "uint32 \<Rightarrow> uint32 \<Rightarrow> uint32 \<Rightarrow> uint64" where
  "varint64_parts part0 part1 part2 =
     ucast part0 OR push_bit 28 (ucast part1) OR push_bit 56 (ucast part2)"

text \<open>The fast path of \<open>ReadVarint64Fallback\<close>, from the first dereference to the label done.\<close>

definition ReadVarint64FromArray :: "byte list \<Rightarrow> nat \<Rightarrow> (uint64 \<times> nat) option option" where
  "ReadVarint64FromArray m p = do {
     b \<leftarrow> mem_get p m; let part0 = ucast b;
     if b AND 0x80 = 0 then Some (Some (varint64_parts part0 0 0, p + 1)) else do {
     let part0 = part0 - 0x80;
     b \<leftarrow> mem_get (p + 1) m; let part0 = part0 + push_bit 7 (ucast b);
     if b AND 0x80 = 0 then Some (Some (varint64_parts part0 0 0, p + 2)) else do {
     let part0 = part0 - push_bit 7 0x80;
     b \<leftarrow> mem_get (p + 2) m; let part0 = part0 + push_bit 14 (ucast b);
     if b AND 0x80 = 0 then Some (Some (varint64_parts part0 0 0, p + 3)) else do {
     let part0 = part0 - push_bit 14 0x80;
     b \<leftarrow> mem_get (p + 3) m; let part0 = part0 + push_bit 21 (ucast b);
     if b AND 0x80 = 0 then Some (Some (varint64_parts part0 0 0, p + 4)) else do {
     let part0 = part0 - push_bit 21 0x80;
     b \<leftarrow> mem_get (p + 4) m; let part1 = ucast b;
     if b AND 0x80 = 0 then Some (Some (varint64_parts part0 part1 0, p + 5)) else do {
     let part1 = part1 - 0x80;
     b \<leftarrow> mem_get (p + 5) m; let part1 = part1 + push_bit 7 (ucast b);
     if b AND 0x80 = 0 then Some (Some (varint64_parts part0 part1 0, p + 6)) else do {
     let part1 = part1 - push_bit 7 0x80;
     b \<leftarrow> mem_get (p + 6) m; let part1 = part1 + push_bit 14 (ucast b);
     if b AND 0x80 = 0 then Some (Some (varint64_parts part0 part1 0, p + 7)) else do {
     let part1 = part1 - push_bit 14 0x80;
     b \<leftarrow> mem_get (p + 7) m; let part1 = part1 + push_bit 21 (ucast b);
     if b AND 0x80 = 0 then Some (Some (varint64_parts part0 part1 0, p + 8)) else do {
     let part1 = part1 - push_bit 21 0x80;
     b \<leftarrow> mem_get (p + 8) m; let part2 = ucast b;
     if b AND 0x80 = 0 then Some (Some (varint64_parts part0 part1 part2, p + 9)) else do {
     let part2 = part2 - 0x80;
     b \<leftarrow> mem_get (p + 9) m; let part2 = part2 + push_bit 7 (ucast b);
     if b AND 0x80 = 0 then Some (Some (varint64_parts part0 part1 part2, p + 10))
     else Some None }}}}}}}}}}"

section \<open>Encoders\<close>

definition WriteVarint32FallbackToArrayInline :: "uint32 \<Rightarrow> byte list" where
  "WriteVarint32FallbackToArrayInline v = (
     let t0 = ucast (v OR 0x80) :: byte in
     if v \<ge> 0x80 then
       let t1 = ucast (drop_bit 7 v OR 0x80) :: byte in
       if v \<ge> 0x4000 then
         let t2 = ucast (drop_bit 14 v OR 0x80) :: byte in
         if v \<ge> 0x200000 then
           let t3 = ucast (drop_bit 21 v OR 0x80) :: byte in
           if v \<ge> 0x10000000 then
             let t4 = ucast (drop_bit 28 v) :: byte in [t0, t1, t2, t3, t4]
           else [t0, t1, t2, t3 AND 0x7F]
         else [t0, t1, t2 AND 0x7F]
       else [t0, t1 AND 0x7F]
     else [t0 AND 0x7F])"

definition WriteVarint32ToArray :: "uint32 \<Rightarrow> byte list" where
  "WriteVarint32ToArray v = (if v < 0x80 then [ucast v] else WriteVarint32FallbackToArrayInline v)"

definition WriteTagToArray :: "uint32 \<Rightarrow> byte list" where
  "WriteTagToArray v =
     (if v < 0x80 then [ucast v]
      else if v < 0x4000 then [ucast (v OR 0x80), ucast (drop_bit 7 v)]
      else WriteVarint32FallbackToArrayInline v)"

text \<open>The size that \<open>WriteVarint64ToArrayInline\<close> finds with its binary search.\<close>

definition varint64_size_search :: "uint32 \<Rightarrow> uint32 \<Rightarrow> uint32 \<Rightarrow> nat" where
  "varint64_size_search part0 part1 part2 =
     (if part2 = 0 then
        if part1 = 0 then
          if part0 < 0x4000 then if part0 < 0x80 then 1 else 2
          else if part0 < 0x200000 then 3 else 4
        else
          if part1 < 0x4000 then if part1 < 0x80 then 5 else 6
          else if part1 < 0x200000 then 7 else 8
      else if part2 < 0x80 then 9 else 10)"

definition WriteVarint64ToArrayInline :: "uint64 \<Rightarrow> byte list" where
  "WriteVarint64ToArrayInline v = (
     let part0 = ucast v :: uint32;
         part1 = ucast (drop_bit 28 v) :: uint32;
         part2 = ucast (drop_bit 56 v) :: uint32;
         n = varint64_size_search part0 part1 part2;
         target = take n
           [ucast (part0 OR 0x80), ucast (drop_bit 7 part0 OR 0x80),
            ucast (drop_bit 14 part0 OR 0x80), ucast (drop_bit 21 part0 OR 0x80),
            ucast (part1 OR 0x80), ucast (drop_bit 7 part1 OR 0x80),
            ucast (drop_bit 14 part1 OR 0x80), ucast (drop_bit 21 part1 OR 0x80),
            ucast (part2 OR 0x80), ucast (drop_bit 7 part2 OR 0x80)]
     in target[n - 1 := target ! (n - 1) AND 0x7F])"

text \<open>The loop of the slow paths of \<open>WriteVarint32\<close> and \<open>WriteVarint64\<close>.\<close>

lemma drop_bit_7_less:
  fixes v :: "'a::len word"
  assumes "v > 0x7F"
  shows "unat (drop_bit 7 v) < unat v"
proof -
  have "v \<noteq> 0" using assms by auto
  then have "0 < unat v" by (simp add: unat_gt_0)
  moreover have "unat (drop_bit 7 v) = unat v div 128"
    by (subst unat_drop_bit_eq) (simp add: drop_bit_eq_div)
  ultimately show ?thesis by simp
qed

function write_varint_loop :: "'a::len word \<Rightarrow> byte list" where
  "write_varint_loop v =
     (if v > 0x7F then ((ucast v AND 0x7F) OR 0x80) # write_varint_loop (drop_bit 7 v)
      else [ucast v AND 0x7F])"
  by pat_completeness auto
termination
  by (relation "measure unat") (simp_all add: drop_bit_7_less)

declare write_varint_loop.simps [simp del]

definition VarintSize32Fallback :: "uint32 \<Rightarrow> int" where
  "VarintSize32Fallback v =
     (if v < 0x80 then 1 else if v < 0x4000 then 2 else if v < 0x200000 then 3
      else if v < 0x10000000 then 4 else 5)"

definition VarintSize32 :: "uint32 \<Rightarrow> int" where
  "VarintSize32 v = (if v < 0x80 then 1 else VarintSize32Fallback v)"

definition VarintSize64 :: "uint64 \<Rightarrow> int" where
  "VarintSize64 v =
     (if v < 0x800000000 then
        if v < 0x80 then 1 else if v < 0x4000 then 2 else if v < 0x200000 then 3
        else if v < 0x10000000 then 4 else 5
      else
        if v < 0x40000000000 then 6 else if v < 0x2000000000000 then 7
        else if v < 0x100000000000000 then 8 else if v < 0x8000000000000000 then 9 else 10)"

text \<open>Signed values: \<open>int32\<close> and \<open>int64\<close> are kept as integers, a negative one takes ten bytes.\<close>

definition VarintSize32SignExtended :: "int \<Rightarrow> int" where
  "VarintSize32SignExtended i = (if i < 0 then 10 else VarintSize32 (word_of_int i))"

definition WriteVarint32SignExtendedToArray :: "int \<Rightarrow> byte list" where
  "WriteVarint32SignExtendedToArray i =
     (if i < 0 then WriteVarint64ToArrayInline (word_of_int i)
      else WriteVarint32ToArray (word_of_int i))"

section \<open>The specification: base-128 digits, least significant first\<close>

definition lo7 :: "byte \<Rightarrow> nat" where
  "lo7 b = unat b mod 128"

definition last7 :: "byte \<Rightarrow> bool" where
  "last7 b \<longleftrightarrow> unat b < 128"

fun read_varint :: "nat \<Rightarrow> byte list \<Rightarrow> (nat \<times> nat) option option" where
  "read_varint 0 bs = Some None"
| "read_varint (Suc n) [] = None"
| "read_varint (Suc n) (b # bs) =
     (if last7 b then Some (Some (lo7 b, 1))
      else map_option (map_option (\<lambda>(v, k). (lo7 b + 128 * v, k + 1))) (read_varint n bs))"

lemma cont_bit: "b AND 0x80 = 0 \<longleftrightarrow> last7 b"
proof -
  have "b AND 0x80 = 0 \<longleftrightarrow> \<not> bit b 7"
    using and_exp_eq_0_iff_not_bit [of b 7] by simp
  also have "bit b 7 \<longleftrightarrow> bit (unat b) 7" by (simp add: bit_unsigned_iff)
  also have "\<dots> \<longleftrightarrow> odd (unat b div 128)" by (simp add: bit_iff_odd)
  also have "(\<not> odd (unat b div 128)) \<longleftrightarrow> unat b < 128"
  proof -
    have "unat b < 256" using unsigned_less [of b, where ?'a = nat] by simp
    then have "unat b div 128 < 2" by linarith
    then show ?thesis by (cases "unat b div 128 = 0") (auto simp: div_eq_0_iff)
  qed
  finally show ?thesis by (simp add: last7_def)
qed

lemma ucast_byte_last: "last7 b \<Longrightarrow> (ucast b :: 'a::len word) = of_nat (lo7 b)"
  by (simp add: lo7_def last7_def)

lemma mod_128: "\<not> x < 128 \<Longrightarrow> x < 256 \<Longrightarrow> x = x mod 128 + 128" for x :: nat
  using le_mod_geq [of 128 x] by simp

lemma unat_byte_cont: "\<not> last7 b \<Longrightarrow> unat b = lo7 b + 128"
  using unsigned_less [of b, where ?'a = nat] unfolding lo7_def last7_def
  by (intro mod_128) simp_all

lemma ucast_byte_cont: "\<not> last7 b \<Longrightarrow> (ucast b :: 'a::len word) = of_nat (lo7 b) + 128"
  by (metis unat_byte_cont of_nat_add of_nat_numeral of_nat_unat)

lemma read_varint_drop:
  "read_varint (Suc n) (drop q m) = mem_get q m \<bind> (\<lambda>b.
     if last7 b then Some (Some (lo7 b, 1))
      else map_option (map_option (\<lambda>(v, k). (lo7 b + 128 * v, k + 1))) (read_varint n (drop (q + 1) m)))"
proof (cases "q < length m")
  case True
  then have "drop q m = m ! q # drop (q + 1) m" by (simp add: Cons_nth_drop_Suc)
  with True show ?thesis by (simp add: mem_simps)
qed (simp add: mem_simps)

lemma read_varint_numeral:
  "read_varint (numeral n) (drop q m) = mem_get q m \<bind> (\<lambda>b.
     if last7 b then Some (Some (lo7 b, 1))
      else map_option (map_option (\<lambda>(v, k). (lo7 b + 128 * v, k + 1))) (read_varint (pred_numeral n) (drop (q + 1) m)))"
  by (simp only: numeral_eq_Suc read_varint_drop)

lemma discard_read: "discard_high_bytes n m p = map_option (map_option (\<lambda>(v, k). p + k)) (read_varint n (drop p m))"
proof (induction n arbitrary: p)
  case (Suc n)
  then show ?case
    by (cases "mem_get p m") (simp_all add: read_varint_drop cont_bit option.map_comp o_def split_beta)
qed simp


text \<open>Ten steps of the specification, one equation per byte.\<close>

definition varint_step :: "byte \<Rightarrow> (nat \<times> nat) option option \<Rightarrow> (nat \<times> nat) option option" where
  "varint_step b r = (if last7 b then Some (Some (lo7 b, 1))
     else map_option (map_option (\<lambda>(v, k). (lo7 b + 128 * v, k + 1))) r)"

lemma read_varint_at:
  "n = Suc n' \<Longrightarrow> q' = Suc q \<Longrightarrow>
     read_varint n (drop q bs) = mem_get q bs \<bind> (\<lambda>b. varint_step b (read_varint n' (drop q' bs)))"
  unfolding varint_step_def Suc_eq_plus1 [of q] by (simp only: read_varint_drop)

lemma read_varint_steps:
  "read_varint 10 bs = mem_get 0 bs \<bind> (\<lambda>b. varint_step b (read_varint 9 (drop 1 bs)))"
  "read_varint 9 (drop 1 bs) = mem_get 1 bs \<bind> (\<lambda>b. varint_step b (read_varint 8 (drop 2 bs)))"
  "read_varint 8 (drop 2 bs) = mem_get 2 bs \<bind> (\<lambda>b. varint_step b (read_varint 7 (drop 3 bs)))"
  "read_varint 7 (drop 3 bs) = mem_get 3 bs \<bind> (\<lambda>b. varint_step b (read_varint 6 (drop 4 bs)))"
  "read_varint 6 (drop 4 bs) = mem_get 4 bs \<bind> (\<lambda>b. varint_step b (read_varint 5 (drop 5 bs)))"
  "read_varint 5 (drop 5 bs) = mem_get 5 bs \<bind> (\<lambda>b. varint_step b (read_varint 4 (drop 6 bs)))"
  "read_varint 4 (drop 6 bs) = mem_get 6 bs \<bind> (\<lambda>b. varint_step b (read_varint 3 (drop 7 bs)))"
  "read_varint 3 (drop 7 bs) = mem_get 7 bs \<bind> (\<lambda>b. varint_step b (read_varint 2 (drop 8 bs)))"
  "read_varint 2 (drop 8 bs) = mem_get 8 bs \<bind> (\<lambda>b. varint_step b (read_varint 1 (drop 9 bs)))"
  "read_varint 1 (drop 9 bs) = mem_get 9 bs \<bind> (\<lambda>b. varint_step b (Some None))"
  subgoal using read_varint_at [of 10 9 1 0 bs] by simp
  by (rule read_varint_at; simp)+ (use read_varint_at [of 1 0 10 9 bs] in simp)

lemma high_zero: "(34359738368 :: uint32) = 0" by simp

lemma ReadVarint32FromArray_spec:
  "ReadVarint32FromArray m p = map_option (map_option (\<lambda>(v, k). (of_nat v, p + k))) (read_varint 10 (drop p m))"
proof -
  obtain bs where bs: "drop p m = bs" by simp
  have tail: "discard_high_bytes 5 m (p + 5) = map_option (map_option (\<lambda>(v, k). p + 5 + k)) (read_varint 5 (drop 5 bs))"
    by (simp add: discard_read bs [symmetric] add.commute)
  show ?thesis
  unfolding ReadVarint32FromArray_def cont_bit Let_def mem_get_drop mem_get_drop_0 [of p] bs kMaxVarintBytes_def kMaxVarint32Bytes_def
    apply (simp add: read_varint_steps(1-5) [unfolded One_nat_def] varint_step_def
        if_distrib [of "map_option _"] map_bind tail option.map_comp o_def split_beta cong: if_cong)
    apply (intro bind_eqI if_cong refl)
         apply (simp_all add: ucast_byte_last ucast_byte_cont push_bit_eq_mult algebra_simps)
    apply (case_tac "read_varint 5 (drop 5 bs)"; simp)
    apply (case_tac a; simp add: split_beta)
    apply (simp add: mult.assoc [symmetric] distrib_left [symmetric] high_zero)
    done
qed

lemma lo7_less: "lo7 b < 128" by (simp add: lo7_def)

lemma digits_word:
  "\<not> last7 b \<Longrightarrow> ucast b - 0x80 = (of_nat (lo7 b) :: 'a::len word)"
  "last7 b \<Longrightarrow> ucast b = (of_nat (lo7 b) :: 'a::len word)"
  "\<not> last7 b \<Longrightarrow> (of_nat x :: 'a::len word) + push_bit n (ucast b) - push_bit n 0x80 = of_nat (x + 2 ^ n * lo7 b)"
  "(of_nat x :: 'a::len word) + push_bit n (of_nat y) = of_nat (x + 2 ^ n * y)"
  by (simp_all add: ucast_byte_last ucast_byte_cont push_bit_eq_mult algebra_simps)

lemma varint64_parts_of_nat:
  assumes "a < 2 ^ 28" and "b < 2 ^ 28" and "c < 2 ^ 32"
  shows "varint64_parts (of_nat a) (of_nat b) (of_nat c) = of_nat (a + 2 ^ 28 * b + 2 ^ 56 * c)"
proof -
  have u: "(ucast (of_nat x :: uint32) :: uint64) = of_nat x" if "x < 2 ^ 32" for x
    using that by (simp add: unsigned_of_nat take_bit_nat_eq_self)
  have "varint64_parts (of_nat a) (of_nat b) (of_nat c) =
      of_nat (a OR push_bit 28 b OR push_bit 56 c)"
    using assms by (simp add: varint64_parts_def u of_nat_or_eq of_nat_push_bit)
  also have "push_bit 28 b OR push_bit 56 c = push_bit 28 (b OR push_bit 28 c)"
    by (simp add: push_bit_or)
  also have "a OR \<dots> = a + 2 ^ 28 * b + 2 ^ 56 * c"
    using assms by (simp only: or_push_bit_nat) (simp add: algebra_simps)
  finally show ?thesis .
qed

lemma varint64_parts_of_nat_0:
  "a < 2 ^ 28 \<Longrightarrow> varint64_parts (of_nat a) 0 0 = of_nat a"
  "a < 2 ^ 28 \<Longrightarrow> b < 2 ^ 28 \<Longrightarrow> varint64_parts (of_nat a) (of_nat b) 0 = of_nat (a + 2 ^ 28 * b)"
  using varint64_parts_of_nat [of a 0 0] varint64_parts_of_nat [of a b 0] by simp_all

lemma digits_bound:
  "lo7 a < 2 ^ 28" "lo7 a + 2 ^ 7 * lo7 b < 2 ^ 28"
  "lo7 a + 2 ^ 7 * lo7 b + 2 ^ 14 * lo7 c < 2 ^ 28"
  "lo7 a + 2 ^ 7 * lo7 b + 2 ^ 14 * lo7 c + 2 ^ 21 * lo7 d < 2 ^ 28"
  "lo7 a < 2 ^ 32" "lo7 a + 2 ^ 7 * lo7 b < 2 ^ 32"
  using lo7_less [of a] lo7_less [of b] lo7_less [of c] lo7_less [of d] by simp_all

lemma ReadVarint64FromArray_spec:
  "ReadVarint64FromArray m p = map_option (map_option (\<lambda>(v, k). (of_nat v, p + k))) (read_varint 10 (drop p m))"
proof -
  obtain bs where bs: "drop p m = bs" by simp
  show ?thesis
  unfolding ReadVarint64FromArray_def cont_bit Let_def mem_get_drop mem_get_drop_0 [of p] bs
     read_varint_steps varint_step_def if_distrib [of "map_option _"] map_bind
     option.map_comp option.map o_def split_beta fst_conv snd_conv
    by (intro bind_eqI if_cong refl)
      (simp_all only: digits_word not_False_eq_True varint64_parts_of_nat varint64_parts_of_nat_0
         digits_bound, simp_all add: algebra_simps)
qed

section \<open>Encoders against the specification\<close>

fun varint_bytes :: "nat \<Rightarrow> byte list" where
  "varint_bytes n =
     (if n < 128 then [of_nat n] else of_nat (n mod 128 + 128) # varint_bytes (n div 128))"

declare varint_bytes.simps [simp del]

lemma varint_bytes_nonempty [simp]: "varint_bytes n \<noteq> []"
  by (subst varint_bytes.simps) simp

lemma varint_bytes_less: "n < 128 \<Longrightarrow> varint_bytes n = [of_nat n]"
  by (simp add: varint_bytes.simps)

lemma varint_bytes_ge:
  "128 \<le> n \<Longrightarrow> varint_bytes n = of_nat (n mod 128 + 128) # varint_bytes (n div 128)"
  by (simp add: varint_bytes.simps [of n])

lemma lo7_digit: "n < 128 \<Longrightarrow> lo7 (of_nat n) = n" "n < 128 \<Longrightarrow> lo7 (of_nat (n + 128)) = n"
  unfolding lo7_def by (simp_all only: unat_of_nat8) simp_all

lemma last7_digit: "n < 128 \<Longrightarrow> last7 (of_nat n)" "n < 128 \<Longrightarrow> \<not> last7 (of_nat (n + 128))"
  unfolding last7_def by (simp_all only: unat_of_nat8)

lemma read_varint_bytes:
  "n < 2 ^ (7 * k) \<Longrightarrow> 0 < k \<Longrightarrow>
     read_varint k (varint_bytes n @ bs) = Some (Some (n, length (varint_bytes n)))"
proof (induction k arbitrary: n)
  case (Suc k)
  show ?case
  proof (cases "n < 128")
    case True
    then show ?thesis by (simp add: varint_bytes_less last7_digit lo7_digit)
  next
    case False
    with Suc.prems have k: "0 < k" by (cases k) auto
    have "n div 128 < 2 ^ (7 * k)"
      using Suc.prems(1) by (simp add: power_add less_mult_imp_div_less mult.commute)
    from Suc.IH [OF this k] False show ?thesis
      using last7_digit(2) [of "n mod 128"] lo7_digit(2) [of "n mod 128"]
      by (simp add: varint_bytes_ge)
  qed
qed simp

lemma length_varint_bytes_le: "n < 2 ^ (7 * k) \<Longrightarrow> 0 < k \<Longrightarrow> length (varint_bytes n) \<le> k"
proof (induction k arbitrary: n)
  case (Suc k)
  show ?case
  proof (cases "n < 128")
    case False
    with Suc.prems have k: "0 < k" by (cases k) auto
    have "n div 128 < 2 ^ (7 * k)"
      using Suc.prems(1) by (simp add: power_add less_mult_imp_div_less mult.commute)
    from Suc.IH [OF this k] False show ?thesis by (simp add: varint_bytes_ge)
  qed (simp add: varint_bytes_less)
qed simp

lemma ucast_byte_eq: "(ucast (v :: 'a::len word) :: byte) = of_nat (unat v)"
  by simp

lemma unat_drop: "unat (drop_bit k (v :: 'a::len word)) = unat v div 2 ^ k"
  by (subst unat_drop_bit_eq) (simp add: drop_bit_eq_div)

lemma ucast_drop: "(ucast (drop_bit k (v :: 'a::len word)) :: byte) = of_nat (unat v div 2 ^ k)"
  by (metis of_nat_unat unat_drop)

lemma numeral_in_word:
  assumes "8 \<le> LENGTH('a::len)" and "n \<le> 255"
  shows "unat (of_nat n :: 'a word) = n"
proof -
  have "n < 2 ^ 8" using assms(2) by simp
  also have "(2 :: nat) ^ 8 \<le> 2 ^ LENGTH('a)" using assms(1) by (rule power_increasing) simp
  finally show ?thesis by (simp add: unat_of_nat)
qed

lemma byte_digits:
  fixes v :: "'a::len word"
  assumes a: "8 \<le> LENGTH('a)"
  shows "(ucast (v OR 0x80) :: byte) = of_nat (unat v mod 128 + 128)"
    and "(ucast v :: byte) AND 0x7F = of_nat (unat v mod 128)"
    and "(ucast v AND 0x7F) OR 0x80 = (of_nat (unat v mod 128 + 128) :: byte)"
    and "(ucast (v OR 0x80) :: byte) AND 0x7F = of_nat (unat v mod 128)"
proof -
  have o: "(ucast (v OR 0x80) :: byte) = ucast v OR 0x80"
    using a by (simp add: unsigned_or_eq take_bit_word_eq_self)
  have u: "(ucast v :: byte) = of_nat (unat v)" by simp
  show "(ucast (v OR 0x80) :: byte) = of_nat (unat v mod 128 + 128)"
    unfolding o u byte_or_80 ..
  show e: "(ucast v :: byte) AND 0x7F = of_nat (unat v mod 128)"
    unfolding u byte_and_7F ..
  show "(ucast v AND 0x7F) OR 0x80 = (of_nat (unat v mod 128 + 128) :: byte)"
    unfolding u byte_and_7F byte_or_80 by simp
  show "(ucast (v OR 0x80) :: byte) AND 0x7F = of_nat (unat v mod 128)"
    unfolding o u byte_or_80 byte_and_7F by simp
qed

lemma write_varint_loop_eq:
  fixes v :: "'a::len word"
  assumes a: "8 \<le> LENGTH('a)"
  shows "write_varint_loop v = varint_bytes (unat v)"
proof (induction v rule: write_varint_loop.induct)
  case (1 v)
  have "unat (0x7F :: 'a word) = 127"
    using numeral_in_word [OF a, of 127] by simp
  then have c: "v > 0x7F \<longleftrightarrow> 128 \<le> unat v"
    by (simp only: word_less_nat_alt) linarith
  show ?case
  proof (cases "128 \<le> unat v")
    case True
    with 1 c show ?thesis
      by (simp add: write_varint_loop.simps [of v] varint_bytes_ge byte_digits(3) [OF a] unat_drop)
  next
    case False
    with c show ?thesis
      by (simp add: write_varint_loop.simps [of v] varint_bytes_less byte_digits(2) [OF a])
  qed
qed

lemma drop_bit_word_compare:
  "(0x80 \<le> v) = (128 \<le> unat v)" "(0x4000 \<le> v) = (16384 \<le> unat v)"
  "(0x200000 \<le> v) = (2097152 \<le> unat v)" "(0x10000000 \<le> v) = (268435456 \<le> unat v)"
  "(v < 0x80) = (unat v < 128)" "(v < 0x4000) = (unat v < 16384)"
  "(v < 0x200000) = (unat v < 2097152)" "(v < 0x10000000) = (unat v < 268435456)"
  for v :: uint32
  by (simp_all add: word_le_nat_alt word_less_nat_alt)

text \<open>The digits of a value, one level of the specification at a time.\<close>

lemma varint_bytes_unfold5:
  "varint_bytes n =
    (if n < 128 then [of_nat n]
     else of_nat (n mod 128 + 128) #
      (if n < 16384 then [of_nat (n div 128)]
       else of_nat (n div 128 mod 128 + 128) #
        (if n < 2097152 then [of_nat (n div 16384)]
         else of_nat (n div 16384 mod 128 + 128) #
          (if n < 268435456 then [of_nat (n div 2097152)]
           else of_nat (n div 2097152 mod 128 + 128) # varint_bytes (n div 268435456)))))"
  by (simp add: varint_bytes.simps [of n] varint_bytes.simps [of "n div 128"]
      varint_bytes.simps [of "n div 16384"] varint_bytes.simps [of "n div 2097152"]
      div_mult2_eq [symmetric] div_less_iff_less_mult)

lemma WriteVarint32FallbackToArrayInline_eq:
  "WriteVarint32FallbackToArrayInline v = varint_bytes (unat v)"
proof -
  have l: "unat v < 4294967296" using unsigned_less [of v, where ?'a = nat] by simp
  have d: "unat v div 268435456 < 128" using l by (simp add: div_less_iff_less_mult)
  show ?thesis
    unfolding WriteVarint32FallbackToArrayInline_def Let_def drop_bit_word_compare not_le [symmetric]
    by (subst varint_bytes_unfold5)
       (auto simp: byte_digits unat_drop ucast_drop varint_bytes_less d div_less_iff_less_mult byte_and_7F
         simp del: of_nat_add)
qed

lemma WriteVarint32ToArray_eq: "WriteVarint32ToArray v = varint_bytes (unat v)"
  by (simp add: WriteVarint32ToArray_def WriteVarint32FallbackToArrayInline_eq drop_bit_word_compare
      varint_bytes_less)

lemma WriteTagToArray_eq: "WriteTagToArray v = varint_bytes (unat v)"
  by (auto simp: WriteTagToArray_def WriteVarint32FallbackToArrayInline_eq drop_bit_word_compare
      varint_bytes_unfold5 [of "unat v"] byte_digits ucast_drop simp del: of_nat_add)

lemma VarintSize32_eq: "VarintSize32 v = int (length (varint_bytes (unat v)))"
proof -
  have "unat v div 268435456 < 128"
    using unsigned_less [of v, where ?'a = nat] by (simp add: div_less_iff_less_mult)
  then show ?thesis
    by (simp add: VarintSize32_def VarintSize32Fallback_def drop_bit_word_compare
        varint_bytes_unfold5 [of "unat v"] varint_bytes_less)
qed

lemma length_varint_bytes:
  "n < 128 \<Longrightarrow> length (varint_bytes n) = 1"
  "128 \<le> n \<Longrightarrow> length (varint_bytes n) = Suc (length (varint_bytes (n div 128)))"
  by (simp_all add: varint_bytes_less varint_bytes_ge)

lemma length_varint_bytes_unfold5:
  "length (varint_bytes n) =
    (if n < 128 then 1 else if n < 16384 then 2 else if n < 2097152 then 3 else if n < 268435456 then 4
     else 4 + length (varint_bytes (n div 268435456)))"
  by (subst varint_bytes_unfold5) simp

lemma VarintSize64_eq: "VarintSize64 v = int (length (varint_bytes (unat v)))"
proof -
  have l: "unat v < 18446744073709551616" using unsigned_less [of v, where ?'a = nat] by simp
  show ?thesis
    using l
    by (simp add: VarintSize64_def word_less_nat_alt length_varint_bytes_unfold5 [of "unat v"]
      length_varint_bytes_unfold5 [of "unat v div 268435456"] length_varint_bytes_unfold5 [of "unat v div 72057594037927936"]
      div_mult2_eq [symmetric] div_less_iff_less_mult)
qed

lemma varint64_parts_unat:
  fixes v :: uint64
  shows "unat (ucast v :: uint32) = unat v mod 4294967296"
    and "unat (ucast (drop_bit 28 v) :: uint32) = unat v div 268435456 mod 4294967296"
    and "unat (ucast (drop_bit 56 v) :: uint32) = unat v div 72057594037927936"
proof -
  have u: "unat (ucast w :: uint32) = unat w mod 4294967296" for w :: uint64
    by (simp add: unsigned_ucast_eq take_bit_eq_mod)
  have l: "unat v < 18446744073709551616" using unsigned_less [of v, where ?'a = nat] by simp
  show "unat (ucast v :: uint32) = unat v mod 4294967296" by (rule u)
  show "unat (ucast (drop_bit 28 v) :: uint32) = unat v div 268435456 mod 4294967296"
    by (simp add: u unat_drop)
  have "unat v div 72057594037927936 < 256" using l by (simp add: div_less_iff_less_mult)
  then show "unat (ucast (drop_bit 56 v) :: uint32) = unat v div 72057594037927936"
    by (simp add: u unat_drop)
qed

lemma mod_div_mod: "0 < a \<Longrightarrow> n mod (a * (b * c)) div a mod b = n div a mod b" for n a b c :: nat
  by (simp add: mod_mult2_eq [of n a] mod_mod_cancel)

lemma mod32_digits:
  "n mod 4294967296 mod 128 = n mod 128" "n mod 4294967296 div 128 mod 128 = n div 128 mod 128"
  "n mod 4294967296 div 16384 mod 128 = n div 16384 mod 128"
  "n mod 4294967296 div 2097152 mod 128 = n div 2097152 mod 128" for n :: nat
  using mod_div_mod [of 1 n 128 33554432] mod_div_mod [of 128 n 128 262144]
    mod_div_mod [of 16384 n 128 2048] mod_div_mod [of 2097152 n 128 16] by simp_all

lemma upt_0_Suc: "[0..<Suc k] = 0 # map Suc [0..<k]"
  by (simp add: map_Suc_upt upt_conv_Cons)

lemma varint_bytes_digits:
  "varint_bytes n =
     map (\<lambda>i. of_nat (n div 128 ^ i mod 128 + 128)) [0..<length (varint_bytes n) - 1] @
     [of_nat (n div 128 ^ (length (varint_bytes n) - 1) mod 128)]"
proof (induction n rule: varint_bytes.induct)
  case (1 n)
  show ?case
  proof (cases "n < 128")
    case True
    then show ?thesis by (simp add: varint_bytes_less)
  next
    case False
    let ?k = "length (varint_bytes (n div 128)) - 1"
    have k: "length (varint_bytes n) - 1 = Suc ?k"
      using False length_varint_bytes(2) [of n] length_greater_0_conv [of "varint_bytes (n div 128)"]
      by (simp del: length_greater_0_conv)
    have "map (\<lambda>i. of_nat (n div 128 ^ i mod 128 + 128) :: byte) [0..<Suc ?k] =
        of_nat (n mod 128 + 128) # map (\<lambda>i. of_nat (n div 128 div 128 ^ i mod 128 + 128)) [0..<?k]"
      by (simp only: upt_0_Suc list.map map_map o_def power_Suc div_mult2_eq power_0 div_by_1)
    moreover have "varint_bytes n = of_nat (n mod 128 + 128) # varint_bytes (n div 128)"
      using False by (simp add: varint_bytes_ge)
    ultimately show ?thesis
      unfolding k power_Suc div_mult2_eq using 1 [OF False] by (metis append_Cons)
  qed
qed

lemma varint64_size_search_cases:
  assumes n: "n < 18446744073709551616" and p0: "unat p0 = n mod 4294967296"
    and p1: "unat p1 = n div 268435456 mod 4294967296" and p2: "unat p2 = n div 72057594037927936"
  shows "varint64_size_search p0 p1 p2 = length (varint_bytes n)"
proof -
  have z: "w = 0 \<longleftrightarrow> unat w = 0" for w :: uint32 by (simp add: unat_eq_zero)
  consider "n < 268435456" | "268435456 \<le> n" "n < 72057594037927936" | "72057594037927936 \<le> n"
    by linarith
  then show ?thesis
  proof cases
    case 1
    then show ?thesis
      using assms by (simp add: varint64_size_search_def z drop_bit_word_compare length_varint_bytes_unfold5)
  next
    case 2
    then have b: "n div 268435456 < 268435456" "0 < n div 268435456"
      by (simp_all add: div_less_iff_less_mult div_greater_zero_iff)
    with 2 have "unat p1 = n div 268435456" "unat p2 = 0"
      using p1 p2 by simp_all
    with 2 b show ?thesis
      by (simp add: varint64_size_search_def z drop_bit_word_compare length_varint_bytes_unfold5 [of n]
          length_varint_bytes_unfold5 [of "n div 268435456"])
  next
    case 3
    then have "0 < n div 72057594037927936" "n div 72057594037927936 < 256"
      using n by (simp_all add: div_less_iff_less_mult div_greater_zero_iff)
    moreover have "268435456 \<le> n div 268435456" using 3 by (simp add: less_eq_div_iff_mult_less_eq)
    ultimately show ?thesis
      using 3 p2
      by (simp add: varint64_size_search_def z drop_bit_word_compare length_varint_bytes_unfold5 [of n]
          length_varint_bytes_unfold5 [of "n div 268435456"]
          length_varint_bytes_unfold5 [of "n div 72057594037927936"] div_mult2_eq [symmetric])
  qed
qed

lemma varint64_size_search_eq:
  "varint64_size_search (ucast v) (ucast (drop_bit 28 v)) (ucast (drop_bit 56 (v :: uint64)))
     = length (varint_bytes (unat v))"
  using unsigned_less [of v, where ?'a = nat]
  by (intro varint64_size_search_cases [OF _ varint64_parts_unat]) simp

lemma take_update_last:
  "0 < k \<Longrightarrow> k \<le> length xs \<Longrightarrow> (take k xs)[k - 1 := x] = take (k - 1) xs @ [x]"
  by (cases k) (simp_all add: take_Suc_conv_app_nth list_update_append)

lemma WriteVarint64ToArrayInline_eq: "WriteVarint64ToArrayInline v = varint_bytes (unat v)"
proof -
  let ?n = "unat v" and ?k = "length (varint_bytes (unat v))"
  let ?f = "\<lambda>i. of_nat (unat v div 128 ^ i mod 128 + 128) :: byte"
  have l: "?n < 2 ^ (7 * 10)" using unsigned_less [of v, where ?'a = nat] by simp
  have k: "0 < ?k" "?k \<le> 10" using length_varint_bytes_le [OF l] by simp_all
  have upt10: "[0..<10] = [0, 1, 2, 3, 4, 5, 6, 7, 8, 9 :: nat]" by (simp add: upt_rec)
  have target: "[ucast (ucast v OR 0x80 :: uint32), ucast (drop_bit 7 (ucast v) OR 0x80 :: uint32),
      ucast (drop_bit 14 (ucast v) OR 0x80 :: uint32), ucast (drop_bit 21 (ucast v) OR 0x80 :: uint32),
      ucast (ucast (drop_bit 28 v) OR 0x80 :: uint32), ucast (drop_bit 7 (ucast (drop_bit 28 v)) OR 0x80 :: uint32),
      ucast (drop_bit 14 (ucast (drop_bit 28 v)) OR 0x80 :: uint32), ucast (drop_bit 21 (ucast (drop_bit 28 v)) OR 0x80 :: uint32),
      ucast (ucast (drop_bit 56 v) OR 0x80 :: uint32), ucast (drop_bit 7 (ucast (drop_bit 56 v)) OR 0x80 :: uint32)]
    = map ?f [0..<10]"
    unfolding upt10 list.map by (simp add: byte_digits unat_drop varint64_parts_unat mod32_digits div_mult2_eq [symmetric] del: of_nat_add)
  have "WriteVarint64ToArrayInline v = (take ?k (map ?f [0..<10]))[?k - 1 := map ?f [0..<10] ! (?k - 1) AND 0x7F]"
    unfolding WriteVarint64ToArrayInline_def Let_def varint64_size_search_eq target
    using k by simp
  also have "\<dots> = take (?k - 1) (map ?f [0..<10]) @ [map ?f [0..<10] ! (?k - 1) AND 0x7F]"
    using k by (intro take_update_last) simp_all
  also have "\<dots> = map ?f [0..<?k - 1] @ [of_nat (?n div 128 ^ (?k - 1) mod 128)]"
    using k by (simp add: take_map byte_and_7F del: of_nat_add)
  finally show ?thesis using varint_bytes_digits [of ?n] by simp
qed
section \<open>Memory safety of the unchecked fast path\<close>

lemma read_varint_within:
  assumes "k \<le> length bs" and "n \<le> k \<or> 0 < k \<and> last7 (bs ! (k - 1))"
  shows "\<exists>r. read_varint n bs = Some r \<and> (\<forall>v j. r = Some (v, j) \<longrightarrow> j \<le> k)"
  using assms
proof (induction n arbitrary: bs k)
  case (Suc n)
  then obtain b cs where bs: "bs = b # cs" by (cases bs) auto
  show ?case
  proof (cases "last7 b")
    case True
    with Suc.prems show ?thesis by (auto simp: bs)
  next
    case False
    obtain k' where k: "k = Suc k'" using Suc.prems by (cases k) auto
    have "n \<le> k' \<or> 0 < k' \<and> last7 (cs ! (k' - 1))"
      using Suc.prems False by (cases k') (auto simp: k bs)
    with Suc.IH [of k' cs] Suc.prems(1) show ?thesis
      using False by (fastforce simp: bs k)
  qed
qed simp

section \<open>Properties\<close>

text \<open>
  \<open>ReadVarint32FromArray\<close> reads back what \<open>WriteVarint32ToArray\<close> stored,
  wherever it stands in the block and whatever surrounds it, and ends right behind it.
\<close>

theorem varint32_roundtrip:
  "ReadVarint32FromArray (pre @ WriteVarint32ToArray v @ post) (length pre) =
     Some (Some (v, length pre + length (WriteVarint32ToArray v)))"
proof -
  have "unat v < 2 ^ (7 * 10)" using unsigned_less [of v, where ?'a = nat] by simp
  then show ?thesis
    by (simp add: ReadVarint32FromArray_spec WriteVarint32ToArray_eq read_varint_bytes)
qed

text \<open>C8. The same for the 64-bit routines.\<close>

theorem varint64_roundtrip:
  "ReadVarint64FromArray (pre @ WriteVarint64ToArrayInline v @ post) (length pre) =
     Some (Some (v, length pre + length (WriteVarint64ToArrayInline v)))"
proof -
  have "unat v < 2 ^ (7 * 10)" using unsigned_less [of v, where ?'a = nat] by simp
  then show ?thesis
    by (simp add: ReadVarint64FromArray_spec WriteVarint64ToArrayInline_eq read_varint_bytes)
qed

text \<open>
  The unrolled encoders of the fast paths store the same bytes as the
  loops of the slow paths, and exactly as many as the size functions say.
\<close>

theorem varint_encoders_agree:
  "WriteVarint32ToArray v = write_varint_loop v \<and> WriteVarint64ToArrayInline w = write_varint_loop w \<and>
   int (length (WriteVarint32ToArray v)) = VarintSize32 v \<and>
   int (length (WriteVarint64ToArrayInline w)) = VarintSize64 w"
  by (simp add: WriteVarint32ToArray_eq WriteVarint64ToArrayInline_eq write_varint_loop_eq
      VarintSize32_eq VarintSize64_eq)

text \<open>
  The fast paths read without checking for the end of the buffer. Under the
  condition the callers test (ten bytes are left, or the last byte of the buffer would end a varint)
  they never read past the end \<open>e\<close> of the buffer, and a value they return ends inside it.
\<close>

theorem varint_fast_path_stays_in_buffer:
  assumes "p \<le> e" and "e \<le> length m" and "10 \<le> e - p \<or> p < e \<and> (m ! (e - 1)) AND 0x80 = 0"
  shows "\<exists>r s. ReadVarint32FromArray m p = Some r \<and> (\<forall>v q. r = Some (v, q) \<longrightarrow> q \<le> e) \<and>
    ReadVarint64FromArray m p = Some s \<and> (\<forall>v q. s = Some (v, q) \<longrightarrow> q \<le> e)"
proof -
  have "10 \<le> e - p \<or> 0 < e - p \<and> last7 (drop p m ! (e - p - 1))"
    using assms by (auto simp: cont_bit)
  moreover have "e - p \<le> length (drop p m)" using assms by simp
  ultimately obtain r where
    "read_varint 10 (drop p m) = Some r" "\<forall>v j. r = Some (v, j) \<longrightarrow> j \<le> e - p"
    using read_varint_within [of "e - p" "drop p m" 10] by blast
  then show ?thesis
    using assms by (fastforce simp: ReadVarint32FromArray_spec ReadVarint64FromArray_spec)
qed

theorem varint_fast_path_stays_in_buffer_witness:
  "\<exists>r s. ReadVarint32FromArray [0xAC, 2, 0xFF] 0 = Some r \<and> (\<forall>v q. r = Some (v, q) \<longrightarrow> q \<le> 2) \<and>
    ReadVarint64FromArray [0xAC, 2, 0xFF] 0 = Some s \<and> (\<forall>v q. s = Some (v, q) \<longrightarrow> q \<le> 2)"
  by (rule varint_fast_path_stays_in_buffer) simp_all

end
