(* ===== verification/CodedInput.thy ===== *)
theory CodedInput
  imports ZeroCopyInput Varint
begin

text \<open>
  \<open>CodedInputStream\<close> of protobuf (io/coded_stream.cc and .h): typed reads over any zero-copy input stream, with
  nested limits. The stream below is used through its table of methods only, and everything about it that
  the proofs need is the contract \<open>input_contract\<close>.

  \<open>buffer_\<close> is the list of the bytes from there to the end of the block it points into; \<open>buffer_end_\<close> is kept
  as \<open>cd_size\<close>, the \<open>BufferSize()\<close>. So reads behind \<open>buffer_end_\<close> but inside of the block are possible, as they
  are in memory, and reads behind the block are \<open>None\<close>, as are a call through a null \<open>input_\<close> and a failed check.
  Log messages and the descriptor pool for extensions are left out.
\<close>

section \<open>The state\<close>

record 's coded_input =
  cd_input :: "'s option"
  cd_bytes :: "byte list"
  cd_size :: int
  cd_total_bytes_read :: int
  cd_overflow_bytes :: int
  cd_last_tag :: uint32
  cd_legitimate_message_end :: bool
  cd_current_limit :: int
  cd_buffer_size_after_limit :: int
  cd_total_bytes_limit :: int
  cd_total_bytes_warning_threshold :: int
  cd_recursion_depth :: int
  cd_recursion_limit :: int

definition kDefaultTotalBytesLimit :: int where
  "kDefaultTotalBytesLimit = 67108864"

definition kDefaultTotalBytesWarningThreshold :: int where
  "kDefaultTotalBytesWarningThreshold = 33554432"

definition default_recursion_limit :: int where
  "default_recursion_limit = 100"

definition cd_Advance :: "int \<Rightarrow> 's coded_input \<Rightarrow> 's coded_input" where
  "cd_Advance amount s = s\<lparr>cd_bytes := drop (nat amount) (cd_bytes s), cd_size := cd_size s - amount\<rparr>"

definition CurrentPosition :: "'s coded_input \<Rightarrow> int" where
  "CurrentPosition s = cd_total_bytes_read s - (cd_size s + cd_buffer_size_after_limit s)"

definition closest_limit :: "'s coded_input \<Rightarrow> int" where
  "closest_limit s = min (cd_current_limit s) (cd_total_bytes_limit s)"

definition RecomputeBufferLimits :: "'s coded_input \<Rightarrow> 's coded_input" where
  "RecomputeBufferLimits s =
     (let s = s\<lparr>cd_size := cd_size s + cd_buffer_size_after_limit s\<rparr> in
      if closest_limit s < cd_total_bytes_read s then
        let after = cd_total_bytes_read s - closest_limit s in
        s\<lparr>cd_buffer_size_after_limit := after, cd_size := cd_size s - after\<rparr>
      else s\<lparr>cd_buffer_size_after_limit := 0\<rparr>)"

section \<open>Blocks\<close>

partial_function (option) NextNonEmpty :: "'s zero_copy_input \<Rightarrow> 's \<Rightarrow> (byte list option \<times> 's) option" where
  "NextNonEmpty zs s = do {
     (r, s) \<leftarrow> zi_Next zs s;
     (if r = Some [] then NextNonEmpty zs s else Some (r, s)) }"

definition Refresh :: "'s zero_copy_input \<Rightarrow> 's coded_input \<Rightarrow> (bool \<times> 's coded_input) option" where
  "Refresh zs s =
     (if cd_buffer_size_after_limit s > 0 \<or> cd_overflow_bytes s > 0 \<or> cd_total_bytes_read s = cd_current_limit s
      then Some (False, s)
      else
        let s = (if cd_total_bytes_warning_threshold s \<ge> 0 \<and> cd_total_bytes_read s \<ge> cd_total_bytes_warning_threshold s
          then s\<lparr>cd_total_bytes_warning_threshold := - 2\<rparr> else s) in do {
        input \<leftarrow> cd_input s;
        (r, input) \<leftarrow> NextNonEmpty zs input;
        let s = s\<lparr>cd_input := Some input\<rparr> in
        (case r of
           Some b \<Rightarrow>
             let n = int (length b); s = s\<lparr>cd_bytes := b, cd_size := n\<rparr>;
               s = (if cd_total_bytes_read s \<le> INT_MAX - n then s\<lparr>cd_total_bytes_read := cd_total_bytes_read s + n\<rparr>
                    else let overflow = cd_total_bytes_read s - (INT_MAX - n) in
                      s\<lparr>cd_overflow_bytes := overflow, cd_size := cd_size s - overflow, cd_total_bytes_read := INT_MAX\<rparr>) in
             Some (True, RecomputeBufferLimits s)
         | None \<Rightarrow> Some (False, s\<lparr>cd_bytes := [], cd_size := 0\<rparr>)) })"

text \<open>The two constructors, for a stream (with an eager \<open>Refresh\<close>) and for an array.\<close>

definition CodedInputStream :: "'s zero_copy_input \<Rightarrow> 's \<Rightarrow> 's coded_input option" where
  "CodedInputStream zs input = do {
     (ok, s) \<leftarrow> Refresh zs
       \<lparr>cd_input = Some input, cd_bytes = [], cd_size = 0, cd_total_bytes_read = 0, cd_overflow_bytes = 0, cd_last_tag = 0,
        cd_legitimate_message_end = False, cd_current_limit = INT_MAX, cd_buffer_size_after_limit = 0,
        cd_total_bytes_limit = kDefaultTotalBytesLimit,
        cd_total_bytes_warning_threshold = kDefaultTotalBytesWarningThreshold,
        cd_recursion_depth = 0, cd_recursion_limit = default_recursion_limit\<rparr>;
     Some s }"

definition CodedInputStream_flat :: "byte list \<Rightarrow> int \<Rightarrow> 's coded_input" where
  "CodedInputStream_flat buffer n =
     \<lparr>cd_input = None, cd_bytes = buffer, cd_size = n, cd_total_bytes_read = n, cd_overflow_bytes = 0, cd_last_tag = 0,
      cd_legitimate_message_end = False, cd_current_limit = n, cd_buffer_size_after_limit = 0,
      cd_total_bytes_limit = kDefaultTotalBytesLimit,
      cd_total_bytes_warning_threshold = kDefaultTotalBytesWarningThreshold,
      cd_recursion_depth = 0, cd_recursion_limit = default_recursion_limit\<rparr>"

definition IsFlat :: "'s coded_input \<Rightarrow> bool" where
  "IsFlat s \<longleftrightarrow> cd_input s = None"

definition BackUpInputToCurrentPosition :: "'s zero_copy_input \<Rightarrow> 's coded_input \<Rightarrow> 's coded_input option" where
  "BackUpInputToCurrentPosition zs s =
     (let backup_bytes = cd_size s + cd_buffer_size_after_limit s + cd_overflow_bytes s in
      if backup_bytes > 0 then do {
        input \<leftarrow> cd_input s;
        input \<leftarrow> zi_BackUp zs backup_bytes input;
        Some (s\<lparr>cd_input := Some input,
          cd_total_bytes_read := cd_total_bytes_read s - (cd_size s + cd_buffer_size_after_limit s),
          cd_size := 0, cd_buffer_size_after_limit := 0, cd_overflow_bytes := 0\<rparr>) }
      else Some s)"

text \<open>The destructor leaves the stream below.\<close>

definition CodedInputStream_delete :: "'s zero_copy_input \<Rightarrow> 's coded_input \<Rightarrow> 's option option" where
  "CodedInputStream_delete zs s =
     (if cd_input s \<noteq> None then map_option cd_input (BackUpInputToCurrentPosition zs s) else Some None)"

section \<open>Limits\<close>

definition PushLimit :: "int \<Rightarrow> 's coded_input \<Rightarrow> int \<times> 's coded_input" where
  "PushLimit byte_limit s =
     (let current_position = CurrentPosition s; old_limit = cd_current_limit s;
        limit = (if byte_limit \<ge> 0 \<and> byte_limit \<le> INT_MAX - current_position then current_position + byte_limit else INT_MAX) in
      (old_limit, RecomputeBufferLimits (s\<lparr>cd_current_limit := min limit old_limit\<rparr>)))"

definition PopLimit :: "int \<Rightarrow> 's coded_input \<Rightarrow> 's coded_input" where
  "PopLimit limit s = (RecomputeBufferLimits (s\<lparr>cd_current_limit := limit\<rparr>))\<lparr>cd_legitimate_message_end := False\<rparr>"

definition BytesUntilLimit :: "'s coded_input \<Rightarrow> int" where
  "BytesUntilLimit s = (if cd_current_limit s = INT_MAX then - 1 else cd_current_limit s - CurrentPosition s)"

definition SetTotalBytesLimit :: "int \<Rightarrow> int \<Rightarrow> 's coded_input \<Rightarrow> 's coded_input" where
  "SetTotalBytesLimit total_bytes_limit warning_threshold s =
     (let s = s\<lparr>cd_total_bytes_limit := max (CurrentPosition s) total_bytes_limit\<rparr> in
      RecomputeBufferLimits
        (if warning_threshold \<ge> 0 then s\<lparr>cd_total_bytes_warning_threshold := warning_threshold\<rparr>
         else s\<lparr>cd_total_bytes_warning_threshold := - 1\<rparr>))"

definition BytesUntilTotalBytesLimit :: "'s coded_input \<Rightarrow> int" where
  "BytesUntilTotalBytesLimit s =
     (if cd_total_bytes_limit s = INT_MAX then - 1 else cd_total_bytes_limit s - CurrentPosition s)"

definition SetRecursionLimit :: "int \<Rightarrow> 's coded_input \<Rightarrow> 's coded_input" where
  "SetRecursionLimit limit s = s\<lparr>cd_recursion_limit := limit\<rparr>"

definition IncrementRecursionDepth :: "'s coded_input \<Rightarrow> bool \<times> 's coded_input" where
  "IncrementRecursionDepth s =
     (let s = s\<lparr>cd_recursion_depth := cd_recursion_depth s + 1\<rparr> in (cd_recursion_depth s \<le> cd_recursion_limit s, s))"

definition DecrementRecursionDepth :: "'s coded_input \<Rightarrow> 's coded_input" where
  "DecrementRecursionDepth s =
     (if cd_recursion_depth s > 0 then s\<lparr>cd_recursion_depth := cd_recursion_depth s - 1\<rparr> else s)"

section \<open>Reads\<close>

text \<open>The bytes copied to the caller's buffer come with the result.\<close>

partial_function (option) ReadRaw ::
  "'s zero_copy_input \<Rightarrow> int \<Rightarrow> 's coded_input \<Rightarrow> (bool \<times> byte list \<times> 's coded_input) option" where
  "ReadRaw zs n s =
     (if cd_size s < n then do {
        a \<leftarrow> mem_read 0 (nat (cd_size s)) (cd_bytes s);
        (ok, s') \<leftarrow> Refresh zs (cd_Advance (cd_size s) s);
        (if \<not> ok then Some (False, a, s')
         else do {
           (ok, b, s') \<leftarrow> ReadRaw zs (n - cd_size s) s';
           Some (ok, a @ b, s') }) }
      else if n < 0 then None
      else do {
        a \<leftarrow> mem_read 0 (nat n) (cd_bytes s);
        Some (True, a, cd_Advance n s) })"

text \<open>\<open>reserve\<close> does not change the string, so \<open>ReadStringFallback\<close> is the loop of \<open>ReadRaw\<close> on an emptied string.\<close>

definition ReadStringFallback ::
  "'s zero_copy_input \<Rightarrow> int \<Rightarrow> 's coded_input \<Rightarrow> (bool \<times> byte list \<times> 's coded_input) option" where
  "ReadStringFallback zs n s = ReadRaw zs n s"

definition ReadString ::
  "'s zero_copy_input \<Rightarrow> byte list \<Rightarrow> int \<Rightarrow> 's coded_input \<Rightarrow> (bool \<times> byte list \<times> 's coded_input) option" where
  "ReadString zs buffer n s =
     (if n < 0 then Some (False, buffer, s)
      else if cd_size s \<ge> n then
        (if n > 0 then do {
           a \<leftarrow> mem_read 0 (nat n) (cd_bytes s);
           Some (True, a, cd_Advance n s) }
         else Some (True, [], s))
      else ReadStringFallback zs n s)"

definition CodedInputStream_Skip :: "'s zero_copy_input \<Rightarrow> int \<Rightarrow> 's coded_input \<Rightarrow> (bool \<times> 's coded_input) option" where
  "CodedInputStream_Skip zs count s =
     (if count < 0 then Some (False, s)
      else if count \<le> cd_size s then Some (True, cd_Advance count s)
      else if cd_buffer_size_after_limit s > 0 then Some (False, cd_Advance (cd_size s) s)
      else
        let count = count - cd_size s; s = s\<lparr>cd_bytes := [], cd_size := 0\<rparr>;
          bytes_until_limit = closest_limit s - cd_total_bytes_read s in
        if bytes_until_limit < count then
          (if bytes_until_limit > 0 then
             let s = s\<lparr>cd_total_bytes_read := closest_limit s\<rparr> in do {
             input \<leftarrow> cd_input s;
             (_, input) \<leftarrow> zi_Skip zs bytes_until_limit input;
             Some (False, s\<lparr>cd_input := Some input\<rparr>) }
           else Some (False, s))
        else
          let s = s\<lparr>cd_total_bytes_read := cd_total_bytes_read s + count\<rparr> in do {
          input \<leftarrow> cd_input s;
          (ok, input) \<leftarrow> zi_Skip zs count input;
          Some (ok, s\<lparr>cd_input := Some input\<rparr>) })"

text \<open>The pointer and the size it gives are the bytes up to \<open>buffer_end_\<close>.\<close>

definition GetDirectBufferPointer ::
  "'s zero_copy_input \<Rightarrow> 's coded_input \<Rightarrow> (byte list option \<times> 's coded_input) option" where
  "GetDirectBufferPointer zs s = do {
     (ok, s) \<leftarrow> (if cd_size s = 0 then Refresh zs s else Some (True, s));
     (if \<not> ok then Some (None, s)
      else do { b \<leftarrow> mem_read 0 (nat (cd_size s)) (cd_bytes s); Some (Some b, s) }) }"

subsection \<open>Integers of fixed width\<close>

text \<open>The version for any byte order; on a little-endian machine the code copies the four or eight bytes.\<close>

definition ReadLittleEndian32FromArray :: "byte list \<Rightarrow> nat \<Rightarrow> (uint32 \<times> nat) option" where
  "ReadLittleEndian32FromArray m p = do {
     b0 \<leftarrow> mem_get p m; b1 \<leftarrow> mem_get (p + 1) m; b2 \<leftarrow> mem_get (p + 2) m; b3 \<leftarrow> mem_get (p + 3) m;
     Some (ucast b0 OR push_bit 8 (ucast b1) OR push_bit 16 (ucast b2) OR push_bit 24 (ucast b3), p + 4) }"

definition ReadLittleEndian64FromArray :: "byte list \<Rightarrow> nat \<Rightarrow> (uint64 \<times> nat) option" where
  "ReadLittleEndian64FromArray m p = do {
     (part0, q) \<leftarrow> ReadLittleEndian32FromArray m p;
     (part1, q) \<leftarrow> ReadLittleEndian32FromArray m q;
     Some (ucast part0 OR push_bit 32 (ucast part1), q) }"

text \<open>The result is \<open>None\<close> for the return value false.\<close>

definition ReadLittleEndian32Fallback ::
  "'s zero_copy_input \<Rightarrow> 's coded_input \<Rightarrow> (uint32 option \<times> 's coded_input) option" where
  "ReadLittleEndian32Fallback zs s =
     (if cd_size s \<ge> 4 then do {
        (v, _) \<leftarrow> ReadLittleEndian32FromArray (cd_bytes s) 0;
        Some (Some v, cd_Advance 4 s) }
      else do {
        (ok, bytes, s) \<leftarrow> ReadRaw zs 4 s;
        (if \<not> ok then Some (None, s)
         else do { (v, _) \<leftarrow> ReadLittleEndian32FromArray bytes 0; Some (Some v, s) }) })"

definition ReadLittleEndian64Fallback ::
  "'s zero_copy_input \<Rightarrow> 's coded_input \<Rightarrow> (uint64 option \<times> 's coded_input) option" where
  "ReadLittleEndian64Fallback zs s =
     (if cd_size s \<ge> 8 then do {
        (v, _) \<leftarrow> ReadLittleEndian64FromArray (cd_bytes s) 0;
        Some (Some v, cd_Advance 8 s) }
      else do {
        (ok, bytes, s) \<leftarrow> ReadRaw zs 8 s;
        (if \<not> ok then Some (None, s)
         else do { (v, _) \<leftarrow> ReadLittleEndian64FromArray bytes 0; Some (Some v, s) }) })"

definition ReadLittleEndian32 ::
  "'s zero_copy_input \<Rightarrow> 's coded_input \<Rightarrow> (uint32 option \<times> 's coded_input) option" where
  "ReadLittleEndian32 zs s =
     (if cd_size s \<ge> 4 then do {
        (v, _) \<leftarrow> ReadLittleEndian32FromArray (cd_bytes s) 0;
        Some (Some v, cd_Advance 4 s) }
      else ReadLittleEndian32Fallback zs s)"

definition ReadLittleEndian64 ::
  "'s zero_copy_input \<Rightarrow> 's coded_input \<Rightarrow> (uint64 option \<times> 's coded_input) option" where
  "ReadLittleEndian64 zs s =
     (if cd_size s \<ge> 8 then do {
        (v, _) \<leftarrow> ReadLittleEndian64FromArray (cd_bytes s) 0;
        Some (Some v, cd_Advance 8 s) }
      else ReadLittleEndian64Fallback zs s)"

subsection \<open>Varints\<close>

text \<open>The inner loop of the slow path: refresh until there is a byte.\<close>

partial_function (option) refill :: "'s zero_copy_input \<Rightarrow> 's coded_input \<Rightarrow> (bool \<times> 's coded_input) option" where
  "refill zs s =
     (if cd_size s = 0 then do {
        (ok, s) \<leftarrow> Refresh zs s;
        (if \<not> ok then Some (False, s) else refill zs s) }
      else Some (True, s))"

text \<open>\<open>n\<close> is the number of bytes the loop may still read, \<open>kMaxVarintBytes - count\<close>.\<close>

fun varint64_slow ::
  "'s zero_copy_input \<Rightarrow> nat \<Rightarrow> uint64 \<Rightarrow> 's coded_input \<Rightarrow> (uint64 option \<times> 's coded_input) option" where
  "varint64_slow zs 0 result s = Some (None, s)"
| "varint64_slow zs (Suc n) result s = do {
     (ok, s) \<leftarrow> refill zs s;
     (if \<not> ok then Some (None, s)
      else do {
        b \<leftarrow> mem_get 0 (cd_bytes s);
        let result = result OR push_bit (7 * (kMaxVarintBytes - Suc n)) (ucast (b AND 0x7F)); s = cd_Advance 1 s in
        (if b AND 0x80 = 0 then Some (Some result, s) else varint64_slow zs n result s) }) }"

definition ReadVarint64Slow :: "'s zero_copy_input \<Rightarrow> 's coded_input \<Rightarrow> (uint64 option \<times> 's coded_input) option" where
  "ReadVarint64Slow zs s = varint64_slow zs kMaxVarintBytes 0 s"

text \<open>The test before the fast paths: ten bytes, or a last byte that ends a varint.\<close>

definition varint_fits :: "'s coded_input \<Rightarrow> bool option" where
  "varint_fits s =
     (if cd_size s \<ge> int kMaxVarintBytes then Some True
      else if cd_size s > 0 then do {
        b \<leftarrow> mem_get (nat (cd_size s - 1)) (cd_bytes s);
        Some (b AND 0x80 = 0) }
      else Some False)"

definition ReadVarint64Fallback :: "'s zero_copy_input \<Rightarrow> 's coded_input \<Rightarrow> (uint64 option \<times> 's coded_input) option" where
  "ReadVarint64Fallback zs s = do {
     fits \<leftarrow> varint_fits s;
     (if fits then do {
        r \<leftarrow> ReadVarint64FromArray (cd_bytes s) 0;
        (case r of
           None \<Rightarrow> Some (None, s)
         | Some (v, p) \<Rightarrow> Some (Some v, cd_Advance (int p) s)) }
      else ReadVarint64Slow zs s) }"

definition ReadVarint64 :: "'s zero_copy_input \<Rightarrow> 's coded_input \<Rightarrow> (uint64 option \<times> 's coded_input) option" where
  "ReadVarint64 zs s =
     (if cd_size s > 0 then do {
        b \<leftarrow> mem_get 0 (cd_bytes s);
        (if b < 0x80 then Some (Some (ucast b), cd_Advance 1 s) else ReadVarint64Fallback zs s) }
      else ReadVarint64Fallback zs s)"

definition ReadVarint32Slow :: "'s zero_copy_input \<Rightarrow> 's coded_input \<Rightarrow> (uint32 option \<times> 's coded_input) option" where
  "ReadVarint32Slow zs s = do {
     (r, s) \<leftarrow> ReadVarint64Fallback zs s;
     Some (map_option ucast r, s) }"

definition ReadVarint32Fallback :: "'s zero_copy_input \<Rightarrow> 's coded_input \<Rightarrow> (uint32 option \<times> 's coded_input) option" where
  "ReadVarint32Fallback zs s = do {
     fits \<leftarrow> varint_fits s;
     (if fits then do {
        r \<leftarrow> ReadVarint32FromArray (cd_bytes s) 0;
        (case r of
           None \<Rightarrow> Some (None, s)
         | Some (v, p) \<Rightarrow> Some (Some v, cd_Advance (int p) s)) }
      else ReadVarint32Slow zs s) }"

definition ReadVarint32 :: "'s zero_copy_input \<Rightarrow> 's coded_input \<Rightarrow> (uint32 option \<times> 's coded_input) option" where
  "ReadVarint32 zs s =
     (if cd_size s > 0 then do {
        b \<leftarrow> mem_get 0 (cd_bytes s);
        (if b < 0x80 then Some (Some (ucast b), cd_Advance 1 s) else ReadVarint32Fallback zs s) }
      else ReadVarint32Fallback zs s)"

subsection \<open>Tags\<close>

definition ReadTagSlow :: "'s zero_copy_input \<Rightarrow> 's coded_input \<Rightarrow> (uint32 \<times> 's coded_input) option" where
  "ReadTagSlow zs s = do {
     (ok, s) \<leftarrow> (if cd_size s = 0 then Refresh zs s else Some (True, s));
     (if \<not> ok then
        let current_position = cd_total_bytes_read s - cd_buffer_size_after_limit s in
        Some (0, s\<lparr>cd_legitimate_message_end :=
          (if current_position \<ge> cd_total_bytes_limit s then cd_current_limit s = cd_total_bytes_limit s else True)\<rparr>)
      else do {
        (r, s) \<leftarrow> ReadVarint64 zs s;
        Some (case r of None \<Rightarrow> 0 | Some v \<Rightarrow> ucast v, s) }) }"

definition ReadTagFallback :: "'s zero_copy_input \<Rightarrow> 's coded_input \<Rightarrow> (uint32 \<times> 's coded_input) option" where
  "ReadTagFallback zs s = do {
     fits \<leftarrow> varint_fits s;
     (if fits then do {
        r \<leftarrow> ReadVarint32FromArray (cd_bytes s) 0;
        (case r of
           None \<Rightarrow> Some (0, s)
         | Some (tag, p) \<Rightarrow> Some (tag, cd_Advance (int p) s)) }
      else if cd_size s = 0 \<and> (cd_buffer_size_after_limit s > 0 \<or> cd_total_bytes_read s = cd_current_limit s) \<and>
          cd_total_bytes_read s - cd_buffer_size_after_limit s < cd_total_bytes_limit s then
        Some (0, s\<lparr>cd_legitimate_message_end := True\<rparr>)
      else ReadTagSlow zs s) }"

definition ReadTag :: "'s zero_copy_input \<Rightarrow> 's coded_input \<Rightarrow> (uint32 \<times> 's coded_input) option" where
  "ReadTag zs s = do {
     first \<leftarrow> (if cd_size s > 0 then map_option Some (mem_get 0 (cd_bytes s)) else Some None);
     (case first of
        Some b \<Rightarrow>
          if b < 0x80 then Some (ucast b, cd_Advance 1 (s\<lparr>cd_last_tag := ucast b\<rparr>))
          else do { (tag, s) \<leftarrow> ReadTagFallback zs s; Some (tag, s\<lparr>cd_last_tag := tag\<rparr>) }
      | None \<Rightarrow> do { (tag, s) \<leftarrow> ReadTagFallback zs s; Some (tag, s\<lparr>cd_last_tag := tag\<rparr>) }) }"

definition LastTagWas :: "uint32 \<Rightarrow> 's coded_input \<Rightarrow> bool" where
  "LastTagWas expected s \<longleftrightarrow> cd_last_tag s = expected"

definition ConsumedEntireMessage :: "'s coded_input \<Rightarrow> bool" where
  "ConsumedEntireMessage s = cd_legitimate_message_end s"

definition ExpectTag :: "uint32 \<Rightarrow> 's coded_input \<Rightarrow> (bool \<times> 's coded_input) option" where
  "ExpectTag expected s =
     (if expected < 2 ^ 7 then
        (if cd_size s > 0 then do {
           b \<leftarrow> mem_get 0 (cd_bytes s);
           Some (if ucast b = expected then (True, cd_Advance 1 s) else (False, s)) }
         else Some (False, s))
      else if expected < 2 ^ 14 then
        (if cd_size s \<ge> 2 then do {
           b0 \<leftarrow> mem_get 0 (cd_bytes s);
           b1 \<leftarrow> mem_get 1 (cd_bytes s);
           Some (if b0 = ucast (expected OR 0x80) \<and> b1 = ucast (drop_bit 7 expected) then (True, cd_Advance 2 s) else (False, s)) }
         else Some (False, s))
      else Some (False, s))"

definition ExpectAtEnd :: "'s coded_input \<Rightarrow> bool \<times> 's coded_input" where
  "ExpectAtEnd s =
     (if cd_size s = 0 \<and> (cd_buffer_size_after_limit s \<noteq> 0 \<or> cd_total_bytes_read s = cd_current_limit s)
      then (True, s\<lparr>cd_last_tag := 0, cd_legitimate_message_end := True\<rparr>) else (False, s))"

section \<open>The abstract reader\<close>

text \<open>
  What is left to read, from the current position on: the rest of the block and what the stream below has still
  to deliver. Of this the nearest limit leaves the visible part.
\<close>

definition cd_pending :: "('s \<Rightarrow> byte list) \<Rightarrow> 's coded_input \<Rightarrow> byte list" where
  "cd_pending pending s = (case cd_input s of None \<Rightarrow> [] | Some i \<Rightarrow> pending i)"

definition cd_rest :: "('s \<Rightarrow> byte list) \<Rightarrow> 's coded_input \<Rightarrow> byte list" where
  "cd_rest pending s = cd_bytes s @ cd_pending pending s"

definition cd_visible :: "('s \<Rightarrow> byte list) \<Rightarrow> 's coded_input \<Rightarrow> byte list" where
  "cd_visible pending s = take (nat (closest_limit s - CurrentPosition s)) (cd_rest pending s)"

text \<open>
  The class invariant. The bytes of the block behind the nearest limit are exactly those counted by
  \<open>buffer_size_after_limit_\<close>, and all bytes together are at most \<open>INT_MAX\<close>, so none overflow.
\<close>

definition cd_inv :: "('s \<Rightarrow> bool) \<Rightarrow> ('s \<Rightarrow> byte list) \<Rightarrow> ('s \<Rightarrow> byte list) \<Rightarrow> 's coded_input \<Rightarrow> bool" where
  "cd_inv good pending last_block s \<longleftrightarrow>
     0 \<le> cd_size s \<and> int (length (cd_bytes s)) = cd_size s + cd_buffer_size_after_limit s \<and> cd_overflow_bytes s = 0 \<and>
     cd_buffer_size_after_limit s = max 0 (cd_total_bytes_read s - closest_limit s) \<and>
     0 \<le> CurrentPosition s \<and> CurrentPosition s \<le> closest_limit s \<and>
     cd_current_limit s \<le> INT_MAX \<and> cd_total_bytes_limit s \<le> INT_MAX \<and>
     (case cd_input s of
        None \<Rightarrow> cd_current_limit s \<le> cd_total_bytes_read s
      | Some i \<Rightarrow> good i \<and> cd_total_bytes_read s + int (length (pending i)) \<le> INT_MAX \<and>
          (cd_bytes s \<noteq> [] \<longrightarrow> suffix (cd_bytes s) (last_block i)))"

text \<open>What no read changes, and what reading \<open>k\<close> bytes does.\<close>

definition cd_frame :: "'s coded_input \<Rightarrow> int \<times> int \<times> int \<times> int \<times> bool" where
  "cd_frame s = (cd_current_limit s, cd_total_bytes_limit s, cd_recursion_depth s, cd_recursion_limit s, cd_input s = None)"

definition cd_moved ::
  "('s \<Rightarrow> bool) \<Rightarrow> ('s \<Rightarrow> byte list) \<Rightarrow> ('s \<Rightarrow> byte list) \<Rightarrow> nat \<Rightarrow> 's coded_input \<Rightarrow> 's coded_input \<Rightarrow> bool" where
  "cd_moved good pending last_block k s s' \<longleftrightarrow> cd_inv good pending last_block s' \<and>
     cd_rest pending s' = drop k (cd_rest pending s) \<and> cd_visible pending s' = drop k (cd_visible pending s) \<and>
     CurrentPosition s' = CurrentPosition s + int k \<and> cd_frame s' = cd_frame s"

lemma cd_moved_trans:
  "cd_moved good pending last_block j s s' \<Longrightarrow> cd_moved good pending last_block k s' s'' \<Longrightarrow>
     cd_moved good pending last_block (j + k) s s''"
  by (simp add: cd_moved_def add.commute)

lemma cd_moved_0: "cd_inv good pending last_block s \<Longrightarrow> cd_moved good pending last_block 0 s s"
  by (simp add: cd_moved_def)

lemma visible_eq:
  assumes "cd_inv good pending last_block s"
  shows "cd_visible pending s = take (nat (cd_size s)) (cd_bytes s) @
    (if 0 < cd_buffer_size_after_limit s then []
     else take (nat (closest_limit s - cd_total_bytes_read s)) (cd_pending pending s))"
proof (cases "0 < cd_buffer_size_after_limit s")
  case True
  then have "closest_limit s - CurrentPosition s = cd_size s" "nat (cd_size s) \<le> length (cd_bytes s)"
    using assms by (auto simp: cd_inv_def CurrentPosition_def)
  then show ?thesis using True by (simp add: cd_visible_def cd_rest_def)
next
  case False
  then have a: "cd_buffer_size_after_limit s = 0" "closest_limit s \<ge> cd_total_bytes_read s" "int (length (cd_bytes s)) = cd_size s"
    using assms by (auto simp: cd_inv_def)
  then have "nat (closest_limit s - CurrentPosition s) = length (cd_bytes s) + nat (closest_limit s - cd_total_bytes_read s)"
    by (simp add: CurrentPosition_def)
  then show ?thesis using False a(3) by (simp add: cd_visible_def cd_rest_def)
qed

lemma size_le_visible:
  assumes "cd_inv good pending last_block s"
  shows "nat (cd_size s) \<le> length (cd_visible pending s)" and "nat (cd_size s) \<le> length (cd_bytes s)"
    and "k \<le> nat (cd_size s) \<Longrightarrow> take k (cd_bytes s) = take k (cd_visible pending s)"
proof -
  show l: "nat (cd_size s) \<le> length (cd_bytes s)" using assms by (auto simp: cd_inv_def)
  then show "nat (cd_size s) \<le> length (cd_visible pending s)" by (simp add: visible_eq [OF assms])
  show "k \<le> nat (cd_size s) \<Longrightarrow> take k (cd_bytes s) = take k (cd_visible pending s)"
    using l by (simp add: visible_eq [OF assms] min_def)
qed

lemma advance_moved:
  assumes "cd_inv good pending last_block s" and "int k \<le> cd_size s"
  shows "cd_moved good pending last_block k s (cd_Advance (int k) s)"
proof -
  let ?s = "cd_Advance (int k) s"
  have f: "cd_input ?s = cd_input s" "cd_total_bytes_read ?s = cd_total_bytes_read s" "closest_limit ?s = closest_limit s"
    "cd_buffer_size_after_limit ?s = cd_buffer_size_after_limit s" "cd_size ?s = cd_size s - int k"
    "cd_bytes ?s = drop k (cd_bytes s)" "cd_overflow_bytes ?s = cd_overflow_bytes s" "cd_frame ?s = cd_frame s"
    "cd_current_limit ?s = cd_current_limit s" "cd_total_bytes_limit ?s = cd_total_bytes_limit s"
    "cd_pending pending ?s = cd_pending pending s"
    by (simp_all add: cd_Advance_def closest_limit_def cd_frame_def cd_pending_def)
  have pos: "CurrentPosition ?s = CurrentPosition s + int k" by (simp add: CurrentPosition_def f)
  have le: "k \<le> length (cd_bytes s)" using assms size_le_visible(2) [OF assms(1)] by linarith
  have rest: "cd_rest pending ?s = drop k (cd_rest pending s)" using le by (simp add: cd_rest_def f)
  have "closest_limit s - CurrentPosition ?s \<ge> 0"
    using assms unfolding pos by (auto simp: cd_inv_def CurrentPosition_def)
  then have "nat (closest_limit s - CurrentPosition s) - k = nat (closest_limit s - CurrentPosition ?s)"
    unfolding pos by linarith
  then have vis: "cd_visible pending ?s = drop k (cd_visible pending s)"
    by (simp add: cd_visible_def rest f(3) drop_take)
  have "suffix (drop k (cd_bytes s)) xs" if "suffix (cd_bytes s) xs" for xs
    using that suffix_drop suffix_order.trans by blast
  then have "cd_inv good pending last_block ?s"
    using assms le \<open>closest_limit s - CurrentPosition ?s \<ge> 0\<close> unfolding cd_inv_def f pos
    by (auto split: option.splits)
  then show ?thesis using rest vis pos f(8) by (simp add: cd_moved_def)
qed

lemma recompute_sels [simp]:
  "cd_input (RecomputeBufferLimits s) = cd_input s" "cd_bytes (RecomputeBufferLimits s) = cd_bytes s"
  "cd_total_bytes_read (RecomputeBufferLimits s) = cd_total_bytes_read s"
  "cd_overflow_bytes (RecomputeBufferLimits s) = cd_overflow_bytes s"
  "cd_current_limit (RecomputeBufferLimits s) = cd_current_limit s"
  "cd_total_bytes_limit (RecomputeBufferLimits s) = cd_total_bytes_limit s"
  "closest_limit (RecomputeBufferLimits s) = closest_limit s"
  "cd_frame (RecomputeBufferLimits s) = cd_frame s" "cd_rest pending (RecomputeBufferLimits s) = cd_rest pending s"
  "cd_last_tag (RecomputeBufferLimits s) = cd_last_tag s"
  "cd_legitimate_message_end (RecomputeBufferLimits s) = cd_legitimate_message_end s"
  "CurrentPosition (RecomputeBufferLimits s) = CurrentPosition s"
  by (simp_all add: RecomputeBufferLimits_def Let_def closest_limit_def cd_frame_def cd_rest_def cd_pending_def CurrentPosition_def)

lemma recompute_after:
  "cd_buffer_size_after_limit (RecomputeBufferLimits s) = max 0 (cd_total_bytes_read s - closest_limit s)"
  "cd_size (RecomputeBufferLimits s) + cd_buffer_size_after_limit (RecomputeBufferLimits s) =
     cd_size s + cd_buffer_size_after_limit s"
  by (auto simp: RecomputeBufferLimits_def Let_def closest_limit_def)

lemma recompute_inv:
  assumes "int (length (cd_bytes s)) = cd_size s + cd_buffer_size_after_limit s" and "cd_overflow_bytes s = 0"
    and "0 \<le> CurrentPosition s" and "CurrentPosition s \<le> closest_limit s"
    and "cd_current_limit s \<le> INT_MAX" and "cd_total_bytes_limit s \<le> INT_MAX"
    and "case cd_input s of None \<Rightarrow> cd_current_limit s \<le> cd_total_bytes_read s
      | Some i \<Rightarrow> good i \<and> cd_total_bytes_read s + int (length (pending i)) \<le> INT_MAX \<and>
          (cd_bytes s \<noteq> [] \<longrightarrow> suffix (cd_bytes s) (last_block i))"
  shows "cd_inv good pending last_block (RecomputeBufferLimits s)"
proof -
  have "cd_size (RecomputeBufferLimits s) = cd_size s + cd_buffer_size_after_limit s - max 0 (cd_total_bytes_read s - closest_limit s)"
    using recompute_after [of s] by linarith
  then have "0 \<le> cd_size (RecomputeBufferLimits s)"
    using assms(1,4) by (simp add: CurrentPosition_def)
  then show ?thesis
    using assms recompute_after [of s] by (simp add: cd_inv_def cong: option.case_cong)
qed

text \<open>Pushing a limit cuts the visible bytes, popping it shows them again.\<close>

lemma PushLimit_law:
  assumes "cd_inv good pending last_block s" and "0 \<le> n"
  obtains s' where "PushLimit n s = (cd_current_limit s, s')" "cd_inv good pending last_block s'"
    "cd_rest pending s' = cd_rest pending s" "CurrentPosition s' = CurrentPosition s"
    "cd_visible pending s' = take (nat n) (cd_visible pending s)"
    "cd_current_limit s' = min (CurrentPosition s + n) (cd_current_limit s)"
    "cd_total_bytes_limit s' = cd_total_bytes_limit s"
    "snd (snd (cd_frame s')) = snd (snd (cd_frame s))"
proof -
  define s1 where "s1 = s\<lparr>cd_current_limit := min (CurrentPosition s + n) (cd_current_limit s)\<rparr>"
  have pos: "CurrentPosition s1 = CurrentPosition s" "cd_rest pending s1 = cd_rest pending s"
    by (simp_all add: s1_def CurrentPosition_def cd_rest_def cd_pending_def)
  have cl: "closest_limit s1 = min (CurrentPosition s + n) (closest_limit s)"
    by (auto simp: s1_def closest_limit_def)
  have le: "cd_current_limit s \<le> INT_MAX" using assms(1) by (simp add: cd_inv_def)
  have "min (if n \<ge> 0 \<and> n \<le> INT_MAX - CurrentPosition s then CurrentPosition s + n else INT_MAX) (cd_current_limit s) =
      min (CurrentPosition s + n) (cd_current_limit s)"
    using assms(2) le by auto
  then have p: "PushLimit n s = (cd_current_limit s, RecomputeBufferLimits s1)"
    by (simp only: PushLimit_def Let_def s1_def)
  have i: "cd_inv good pending last_block (RecomputeBufferLimits s1)"
    by (rule recompute_inv)
      (use assms in \<open>auto simp: cd_inv_def s1_def CurrentPosition_def closest_limit_def min_le_iff_disj split: option.splits\<close>)
  have "nat (closest_limit s1 - CurrentPosition s) = min (nat n) (nat (closest_limit s - CurrentPosition s))"
    unfolding cl using assms(2) by linarith
  then have v: "cd_visible pending (RecomputeBufferLimits s1) = take (nat n) (cd_visible pending s)"
    using pos by (simp add: cd_visible_def)
  show ?thesis
    by (rule that [OF p i]) (simp_all add: pos v, simp_all add: s1_def cd_frame_def)
qed

lemma PopLimit_law:
  assumes "cd_inv good pending last_block s" and "CurrentPosition s \<le> limit" and "limit \<le> INT_MAX"
    and "cd_input s = None \<longrightarrow> limit \<le> cd_total_bytes_read s"
  shows "cd_inv good pending last_block (PopLimit limit s)" and "cd_rest pending (PopLimit limit s) = cd_rest pending s"
    and "CurrentPosition (PopLimit limit s) = CurrentPosition s"
    and "cd_visible pending (PopLimit limit s) =
      take (nat (min limit (cd_total_bytes_limit s) - CurrentPosition s)) (cd_rest pending s)"
    and "cd_frame (PopLimit limit s) = (limit, snd (cd_frame s))"
proof -
  define s1 where "s1 = s\<lparr>cd_current_limit := limit\<rparr>"
  define s2 where "s2 = RecomputeBufferLimits s1"
  have i: "cd_inv good pending last_block s2"
    unfolding s2_def
    by (rule recompute_inv)
      (use assms in \<open>auto simp: cd_inv_def s1_def CurrentPosition_def closest_limit_def split: option.splits\<close>)
  have e: "PopLimit limit s = s2\<lparr>cd_legitimate_message_end := False\<rparr>" by (simp add: PopLimit_def s1_def s2_def)
  show "cd_inv good pending last_block (PopLimit limit s)"
    using i by (simp add: e cd_inv_def CurrentPosition_def closest_limit_def cong: option.case_cong)
  have r: "cd_rest pending s2 = cd_rest pending s" "CurrentPosition s2 = CurrentPosition s"
    "closest_limit s2 = min limit (cd_total_bytes_limit s)"
    by (simp_all add: s2_def s1_def) (simp_all add: cd_rest_def cd_pending_def CurrentPosition_def closest_limit_def)
  show "cd_rest pending (PopLimit limit s) = cd_rest pending s" "CurrentPosition (PopLimit limit s) = CurrentPosition s"
    using r(1,2) by (simp_all add: e cd_rest_def cd_pending_def CurrentPosition_def)
  then show "cd_visible pending (PopLimit limit s) =
      take (nat (min limit (cd_total_bytes_limit s) - CurrentPosition s)) (cd_rest pending s)"
    using r(3) by (simp add: cd_visible_def) (simp add: e closest_limit_def)
  have "cd_frame s2 = (limit, snd (cd_frame s))" by (simp add: s2_def) (simp add: s1_def cd_frame_def)
  then show "cd_frame (PopLimit limit s) = (limit, snd (cd_frame s))" by (simp add: e cd_frame_def)
qed

lemma PushLimit_any:
  assumes "cd_inv good pending last_block s"
  shows "cd_inv good pending last_block (snd (PushLimit n s)) \<and> cd_rest pending (snd (PushLimit n s)) = cd_rest pending s \<and>
    CurrentPosition (snd (PushLimit n s)) = CurrentPosition s"
proof (cases "0 \<le> n")
  case True
  then show ?thesis by (rule PushLimit_law [OF assms]) simp
next
  case False
  have "cd_current_limit s \<le> INT_MAX" using assms by (simp add: cd_inv_def)
  then have "snd (PushLimit n s) = RecomputeBufferLimits s" using False by (cases s) (auto simp: PushLimit_def Let_def min_def)
  moreover have "cd_inv good pending last_block (RecomputeBufferLimits s)"
    by (rule recompute_inv) (use assms in \<open>auto simp: cd_inv_def split: option.splits\<close>)
  ultimately show ?thesis by simp
qed

lemma SetTotalBytesLimit_law:
  assumes "cd_inv good pending last_block s" and "t \<le> INT_MAX"
  shows "cd_inv good pending last_block (SetTotalBytesLimit t w s) \<and> cd_rest pending (SetTotalBytesLimit t w s) = cd_rest pending s \<and>
    CurrentPosition (SetTotalBytesLimit t w s) = CurrentPosition s"
proof -
  define s1 where "s1 = s\<lparr>cd_total_bytes_limit := max (CurrentPosition s) t,
    cd_total_bytes_warning_threshold := (if w \<ge> 0 then w else - 1)\<rparr>"
  have e: "SetTotalBytesLimit t w s = RecomputeBufferLimits s1"
    by (simp add: SetTotalBytesLimit_def Let_def s1_def)
  have f: "CurrentPosition s1 = CurrentPosition s" "cd_rest pending s1 = cd_rest pending s"
    by (simp_all add: s1_def CurrentPosition_def cd_rest_def cd_pending_def)
  have c: "CurrentPosition s \<le> cd_current_limit s" "cd_current_limit s \<le> INT_MAX"
    using assms(1) by (auto simp: cd_inv_def closest_limit_def)
  have "cd_inv good pending last_block (RecomputeBufferLimits s1)"
  proof (rule recompute_inv)
    show "CurrentPosition s1 \<le> closest_limit s1" using c f by (simp add: closest_limit_def) (simp add: s1_def)
    show "0 \<le> CurrentPosition s1" using assms(1) f by (simp add: cd_inv_def)
    show "cd_total_bytes_limit s1 \<le> INT_MAX" using assms(2) c by (simp add: s1_def)
  qed (use assms(1) in \<open>auto simp: cd_inv_def s1_def split: option.splits\<close>)
  then show ?thesis unfolding e by (simp add: f)
qed

text \<open>Popping at once brings everything back.\<close>

lemma PushLimit_PopLimit:
  assumes "cd_inv good pending last_block s"
  shows "cd_inv good pending last_block (PopLimit (fst (PushLimit n s)) (snd (PushLimit n s))) \<and>
    cd_visible pending (PopLimit (fst (PushLimit n s)) (snd (PushLimit n s))) = cd_visible pending s"
proof -
  let ?s1 = "snd (PushLimit n s)"
  have o: "fst (PushLimit n s) = cd_current_limit s" by (simp add: PushLimit_def Let_def)
  have f: "cd_input ?s1 = cd_input s" "cd_total_bytes_read ?s1 = cd_total_bytes_read s" "cd_total_bytes_limit ?s1 = cd_total_bytes_limit s"
    by (simp_all add: PushLimit_def Let_def)
  have a: "cd_inv good pending last_block ?s1" "cd_rest pending ?s1 = cd_rest pending s" "CurrentPosition ?s1 = CurrentPosition s"
    using PushLimit_any [OF assms, of n] by simp_all
  have b: "CurrentPosition ?s1 \<le> cd_current_limit s" "cd_current_limit s \<le> INT_MAX"
    "cd_input ?s1 = None \<longrightarrow> cd_current_limit s \<le> cd_total_bytes_read ?s1"
    using assms a(3) f by (auto simp: cd_inv_def closest_limit_def)
  note pop = PopLimit_law [OF a(1) b]
  show ?thesis
    unfolding o using pop(1,4) a(2,3) f(3) by (simp add: cd_visible_def closest_limit_def)
qed

section \<open>Reads refine the abstract reader\<close>

context input_contract
begin

lemma NextNonEmpty_eq:
  assumes "good i"
  shows "NextNonEmpty zs i = zi_Next zs i"
proof -
  have "zi_Next zs i \<bind> (\<lambda>(r, s). if r = Some [] then NextNonEmpty zs s else Some (r, s)) = zi_Next zs i"
    using next_law [OF assms] by auto
  then show ?thesis by (subst NextNonEmpty.simps)
qed

lemma Refresh_law:
  assumes "cd_inv good pending last_block s" and "cd_size s = 0"
  shows "\<exists>ok s'. Refresh zs s = Some (ok, s') \<and> cd_moved good pending last_block 0 s s' \<and>
    cd_last_tag s' = cd_last_tag s \<and> cd_legitimate_message_end s' = cd_legitimate_message_end s \<and>
    (if ok then length (cd_pending pending s') < length (cd_pending pending s) else cd_visible pending s = [])"
proof (cases "cd_buffer_size_after_limit s > 0 \<or> cd_overflow_bytes s > 0 \<or> cd_total_bytes_read s = cd_current_limit s")
  case True
  have "cd_visible pending s = []"
  proof (cases "0 < cd_buffer_size_after_limit s")
    case False
    then have "cd_total_bytes_read s = cd_current_limit s" using True assms(1) by (auto simp: cd_inv_def)
    then have "closest_limit s \<le> cd_total_bytes_read s" by (simp add: closest_limit_def)
    then show ?thesis using False by (simp add: visible_eq [OF assms(1)] assms(2))
  qed (simp add: visible_eq [OF assms(1)] assms(2))
  then show ?thesis
    using True cd_moved_0 [OF assms(1)] by (intro exI [of _ False] exI [of _ s]) (simp add: Refresh_def)
next
  case False
  have a: "cd_buffer_size_after_limit s = 0" "cd_bytes s = []" "cd_total_bytes_read s \<le> closest_limit s" "cd_overflow_bytes s = 0"
    "CurrentPosition s = cd_total_bytes_read s" "0 \<le> cd_total_bytes_read s"
    "cd_current_limit s \<le> INT_MAX" "cd_total_bytes_limit s \<le> INT_MAX"
    using assms False by (auto simp: cd_inv_def CurrentPosition_def)
  obtain i where i: "cd_input s = Some i" "good i" "cd_total_bytes_read s + int (length (pending i)) \<le> INT_MAX"
  proof (cases "cd_input s")
    case None
    then have "cd_current_limit s \<le> cd_total_bytes_read s" using assms(1) by (simp add: cd_inv_def)
    then show ?thesis using False a(3) by (simp add: closest_limit_def)
  qed (use assms(1) that in \<open>auto simp: cd_inv_def\<close>)
  obtain r i' where n: "zi_Next zs i = Some (r, i')" "good i'"
      "case r of
         None \<Rightarrow> pending i = [] \<and> pending i' = [] \<and> zi_ByteCount zs i' = zi_ByteCount zs i
       | Some b \<Rightarrow> b \<noteq> [] \<and> pending i = b @ pending i' \<and> suffix b (last_block i') \<and>
           zi_ByteCount zs i' = zi_ByteCount zs i + int (length b)"
    using next_law [OF i(2)] by blast
  define s1 where "s1 = (if cd_total_bytes_warning_threshold s \<ge> 0 \<and> cd_total_bytes_read s \<ge> cd_total_bytes_warning_threshold s
          then s\<lparr>cd_total_bytes_warning_threshold := - 2\<rparr> else s)\<lparr>cd_input := Some i'\<rparr>"
  have s1: "cd_input s1 = Some i'" "cd_total_bytes_read s1 = cd_total_bytes_read s" "cd_current_limit s1 = cd_current_limit s"
    "cd_total_bytes_limit s1 = cd_total_bytes_limit s" "cd_buffer_size_after_limit s1 = 0" "cd_overflow_bytes s1 = 0"
    "cd_last_tag s1 = cd_last_tag s" "cd_legitimate_message_end s1 = cd_legitimate_message_end s"
    "cd_bytes s1 = []" "cd_size s1 = 0" "cd_frame s1 = cd_frame s" "closest_limit s1 = closest_limit s"
    using a(1,2,4) assms(2) i(1) by (simp_all add: s1_def cd_frame_def closest_limit_def)
  show ?thesis
  proof (cases r)
    case None
    define s' where "s' = s1\<lparr>cd_bytes := [], cd_size := 0\<rparr>"
    have R: "Refresh zs s = Some (False, s')"
      using False i n None by (simp add: Refresh_def Let_def NextNonEmpty_eq s1_def s'_def)
    have p: "pending i = []" "pending i' = []" using n(3) None by simp_all
    have rest: "cd_rest pending s' = []" "cd_rest pending s = []" using p i(1) s1(1) a(2) by (simp_all add: cd_rest_def cd_pending_def s'_def)
    have f: "cd_frame s' = cd_frame s" "closest_limit s' = closest_limit s" using s1 by (simp_all add: s'_def cd_frame_def closest_limit_def)
    have pos: "CurrentPosition s' = CurrentPosition s" using s1 a by (simp add: CurrentPosition_def s'_def)
    have inv: "cd_inv good pending last_block s'"
      using s1 a n(2) p(2) i(3) f(2) pos by (simp add: cd_inv_def s'_def)
    have "cd_moved good pending last_block 0 s s'"
      using rest f pos inv by (simp add: cd_moved_def cd_visible_def)
    moreover have "cd_visible pending s = []" using rest by (simp add: cd_visible_def)
    ultimately show ?thesis
      using R s1(7,8) by (intro exI [of _ False] exI [of _ s']) (simp add: s'_def)
  next
    case (Some b)
    have b: "b \<noteq> []" "pending i = b @ pending i'" "suffix b (last_block i')" using n(3) Some by simp_all
    define s2 where "s2 = s1\<lparr>cd_bytes := b, cd_size := int (length b), cd_total_bytes_read := cd_total_bytes_read s + int (length b)\<rparr>"
    have le: "cd_total_bytes_read s \<le> INT_MAX - int (length b)" using i(3) b(2) by simp
    have R: "Refresh zs s = Some (True, RecomputeBufferLimits s2)"
      using False i n Some le by (simp add: Refresh_def Let_def NextNonEmpty_eq s1_def s2_def)
    have pos: "CurrentPosition s2 = CurrentPosition s" using s1 a by (simp add: CurrentPosition_def s2_def)
    have f: "cd_frame s2 = cd_frame s" "closest_limit s2 = closest_limit s" using s1 by (simp_all add: s2_def cd_frame_def closest_limit_def)
    have rest: "cd_rest pending s2 = cd_rest pending s"
      using b(2) i(1) s1(1) a(2) by (simp add: cd_rest_def cd_pending_def s2_def)
    have inv: "cd_inv good pending last_block (RecomputeBufferLimits s2)"
    proof (rule recompute_inv)
      show "0 \<le> CurrentPosition s2" "CurrentPosition s2 \<le> closest_limit s2" using a pos f by simp_all
    qed (use s1 a n(2) b i(3) in \<open>simp_all add: s2_def\<close>)
    have "cd_moved good pending last_block 0 s (RecomputeBufferLimits s2)"
      using rest f pos inv by (simp add: cd_moved_def cd_visible_def)
    moreover have "length (cd_pending pending (RecomputeBufferLimits s2)) < length (cd_pending pending s)"
      using b(1,2) i(1) s1(1) by (simp add: cd_pending_def s2_def)
    ultimately show ?thesis
      using R s1(7,8) by (intro exI [of _ True] exI [of _ "RecomputeBufferLimits s2"]) (simp add: s2_def)
  qed
qed

text \<open>Raw reads: the visible bytes in order, as many as there are.\<close>

lemma advance_size_moved:
  assumes "cd_inv good pending last_block s"
  shows "cd_moved good pending last_block (nat (cd_size s)) s (cd_Advance (cd_size s) s)"
    and "cd_size (cd_Advance (cd_size s) s) = 0"
  using advance_moved [OF assms, of "nat (cd_size s)"] assms by (simp_all add: cd_inv_def cd_Advance_def)

lemma ReadRaw_law:
  assumes "cd_inv good pending last_block s" and "0 \<le> n"
  shows "\<exists>s'. ReadRaw zs n s =
      Some (nat n \<le> length (cd_visible pending s), take (nat n) (cd_visible pending s), s') \<and>
    cd_moved good pending last_block (min (nat n) (length (cd_visible pending s))) s s'"
  using assms
proof (induction "length (cd_pending pending s)" arbitrary: s n rule: less_induct)
  case less
  note l = size_le_visible [OF less.prems(1)]
  show ?case
  proof (cases "cd_size s < n")
    case False
    then have le: "nat n \<le> nat (cd_size s)" by simp
    have "ReadRaw zs n s = Some (True, take (nat n) (cd_bytes s), cd_Advance n s)"
      using False less.prems(2) le l(2) by (subst ReadRaw.simps) (simp add: mem_simps)
    then show ?thesis
      using advance_moved [OF less.prems(1), of "nat n"] le l less.prems(2) False by (simp add: min_def)
  next
    case True
    let ?k = "nat (cd_size s)" and ?v = "cd_visible pending s"
    let ?s1 = "cd_Advance (cd_size s) s"
    note m1 = advance_size_moved [OF less.prems(1)]
    have z: "0 \<le> cd_size s" using less.prems(1) by (simp add: cd_inv_def)
    have inv1: "cd_inv good pending last_block ?s1" and vis1: "cd_visible pending ?s1 = drop ?k ?v"
      using m1(1) by (simp_all add: cd_moved_def)
    obtain ok s2 where R: "Refresh zs ?s1 = Some (ok, s2)" and m2: "cd_moved good pending last_block 0 ?s1 s2"
      and ok: "if ok then length (cd_pending pending s2) < length (cd_pending pending ?s1) else cd_visible pending ?s1 = []"
      using Refresh_law [OF inv1 m1(2)] by blast
    have m: "cd_moved good pending last_block ?k s s2" using cd_moved_trans [OF m1(1) m2] by simp
    have step: "ReadRaw zs n s =
        (if \<not> ok then Some (False, take ?k ?v, s2)
         else do { (ok, b, s') \<leftarrow> ReadRaw zs (n - cd_size s) s2; Some (ok, take ?k ?v @ b, s') })"
      using True R l(2) by (subst ReadRaw.simps) (simp add: mem_simps l(3))
    show ?thesis
    proof (cases ok)
      case False
      then have "length ?v = ?k" using ok vis1 l(1) by simp
      then show ?thesis using step False m True z by (simp add: min_def)
    next
      case ok1: True
      have inv2: "cd_inv good pending last_block s2" and vis2: "cd_visible pending s2 = drop ?k ?v"
        using m by (simp_all add: cd_moved_def)
      have "cd_pending pending ?s1 = cd_pending pending s" by (simp add: cd_pending_def cd_Advance_def)
      with ok ok1 have "length (cd_pending pending s2) < length (cd_pending pending s)" by simp
      from less.hyps [OF this inv2, of "n - cd_size s"] obtain s' where
        s': "ReadRaw zs (n - cd_size s) s2 = Some (nat (n - cd_size s) \<le> length (drop ?k ?v), take (nat (n - cd_size s)) (drop ?k ?v), s')"
          "cd_moved good pending last_block (min (nat (n - cd_size s)) (length (drop ?k ?v))) s2 s'"
        using True unfolding vis2 by auto
      have d: "nat n = ?k + nat (n - cd_size s)" using True z by linarith
      have "?k + min (nat (n - cd_size s)) (length (drop ?k ?v)) = min (nat n) (length ?v)"
        using l(1) d by (simp add: min_def)
      with cd_moved_trans [OF m s'(2)] have "cd_moved good pending last_block (min (nat n) (length ?v)) s s'" by simp
      moreover have "take ?k ?v @ take (nat (n - cd_size s)) (drop ?k ?v) = take (nat n) ?v"
        by (simp add: d take_add)
      moreover have "nat (n - cd_size s) \<le> length (drop ?k ?v) \<longleftrightarrow> nat n \<le> length ?v"
        using d l(1) by simp linarith
      ultimately show ?thesis using step ok1 s'(1) by simp
    qed
  qed
qed

lemma ReadString_law:
  assumes "cd_inv good pending last_block s" and "0 \<le> n"
  shows "\<exists>s'. ReadString zs buffer n s =
      Some (nat n \<le> length (cd_visible pending s), take (nat n) (cd_visible pending s), s') \<and>
    cd_moved good pending last_block (min (nat n) (length (cd_visible pending s))) s s'"
proof (cases "cd_size s \<ge> n")
  case True
  note l = size_le_visible [OF assms(1)]
  have le: "nat n \<le> nat (cd_size s)" using True by simp
  show ?thesis
  proof (cases "n = 0")
    case n0: True
    then show ?thesis using True cd_moved_0 [OF assms(1)] by (simp add: ReadString_def)
  next
    case False
    then have "ReadString zs buffer n s = Some (True, take (nat n) (cd_bytes s), cd_Advance n s)"
      using True assms(2) le l(2) by (simp add: ReadString_def mem_simps)
    then show ?thesis
      using advance_moved [OF assms(1), of "nat n"] le l True assms(2) by (simp add: min_def)
  qed
next
  case False
  then show ?thesis using ReadRaw_law [OF assms] assms(2) by (simp add: ReadString_def ReadStringFallback_def)
qed

end

section \<open>Varints across blocks\<close>

text \<open>What a varint read should give: the value of the first varint of the visible bytes and its length.\<close>

definition first_varint :: "byte list \<Rightarrow> (nat \<times> nat) option" where
  "first_varint bs = (case read_varint kMaxVarintBytes bs of Some r \<Rightarrow> r | None \<Rightarrow> None)"

lemma read_varint_append: "read_varint n bs = Some r \<Longrightarrow> read_varint n (bs @ cs) = Some r"
proof (induction n bs arbitrary: r rule: read_varint.induct)
  case (3 n b bs)
  then show ?case by (cases "last7 b") auto
qed simp_all

lemma read_varint_take: "read_varint n (take k bs) = Some r \<Longrightarrow> read_varint n bs = Some r"
  using read_varint_append [of n "take k bs" r "drop k bs"] by simp

lemma read_varint_slow_step:
  assumes "acc < 2 ^ k"
  shows "(of_nat acc :: 'a::len word) OR push_bit k (ucast (b AND 0x7F :: byte)) = of_nat (acc + 2 ^ k * lo7 b)"
proof -
  have "b AND 0x7F = of_nat (unat b mod 128)" using byte_and_7F [of "unat b"] by simp
  then have "(ucast (b AND 0x7F) :: 'a word) = of_nat (lo7 b)"
    using lo7_less [of b] by (simp only: lo7_def) (simp add: unsigned_of_nat take_bit_nat_eq_self)
  then show ?thesis by (simp add: or_push_bit_nat [OF assms] flip: of_nat_or_eq of_nat_push_bit)
qed

context input_contract
begin

lemma refill_law:
  assumes "cd_inv good pending last_block s"
  shows "\<exists>ok s'. refill zs s = Some (ok, s') \<and> cd_moved good pending last_block 0 s s' \<and>
    (if ok then 0 < cd_size s' else cd_visible pending s = [])"
  using assms
proof (induction "length (cd_pending pending s)" arbitrary: s rule: less_induct)
  case less
  show ?case
  proof (cases "cd_size s = 0")
    case False
    then have "refill zs s = Some (True, s)" by (subst refill.simps) simp
    moreover have "0 < cd_size s" using False less.prems by (simp add: cd_inv_def)
    ultimately show ?thesis using cd_moved_0 [OF less.prems] by auto
  next
    case True
    obtain ok s1 where R: "Refresh zs s = Some (ok, s1)" and m: "cd_moved good pending last_block 0 s s1"
      and ok: "if ok then length (cd_pending pending s1) < length (cd_pending pending s) else cd_visible pending s = []"
      using Refresh_law [OF less.prems True] by blast
    show ?thesis
    proof (cases ok)
      case False
      then have "refill zs s = Some (False, s1)" using R True by (subst refill.simps) simp
      then show ?thesis using m ok False by auto
    next
      case ok1: True
      have inv1: "cd_inv good pending last_block s1" and v1: "cd_visible pending s1 = cd_visible pending s"
        using m by (simp_all add: cd_moved_def)
      obtain ok' s' where s': "refill zs s1 = Some (ok', s')" "cd_moved good pending last_block 0 s1 s'"
        "if ok' then 0 < cd_size s' else cd_visible pending s1 = []"
        using less.hyps [OF _ inv1] ok ok1 by auto
      have "refill zs s = Some (ok', s')" using R True ok1 s'(1) by (subst refill.simps) simp
      then show ?thesis using cd_moved_trans [OF m s'(2)] s'(3) v1 by auto
    qed
  qed
qed

lemma visible_head:
  assumes "cd_inv good pending last_block s" and "0 < cd_size s"
  obtains b bs where "mem_get 0 (cd_bytes s) = Some b" "cd_visible pending s = b # bs"
proof -
  have "take 1 (cd_bytes s) = take 1 (cd_visible pending s)" "0 < length (cd_bytes s)" "0 < length (cd_visible pending s)"
    using size_le_visible(1,2) [OF assms(1)] size_le_visible(3) [OF assms(1), of 1] assms(2) by linarith+
  then show ?thesis
    by (cases "cd_bytes s"; cases "cd_visible pending s") (auto simp: mem_simps intro: that)
qed

lemma varint64_slow_law:
  assumes "cd_inv good pending last_block s" and "n \<le> kMaxVarintBytes" and "acc < 2 ^ (7 * (kMaxVarintBytes - n))"
  shows "\<exists>r s' k. varint64_slow zs n (of_nat acc) s = Some (r, s') \<and> cd_moved good pending last_block k s s' \<and>
    (case read_varint n (cd_visible pending s) of
       Some (Some (v, j)) \<Rightarrow> r = Some (of_nat (acc + 2 ^ (7 * (kMaxVarintBytes - n)) * v)) \<and> k = j
     | _ \<Rightarrow> r = None)"
  using assms
proof (induction n arbitrary: acc s)
  case 0
  then show ?case using cd_moved_0 [OF 0(1)] by auto
next
  case (Suc n)
  let ?e = "7 * (kMaxVarintBytes - Suc n)"
  obtain ok s1 where R: "refill zs s = Some (ok, s1)" and m: "cd_moved good pending last_block 0 s s1"
    and ok: "if ok then 0 < cd_size s1 else cd_visible pending s = []"
    using refill_law [OF Suc.prems(1)] by blast
  show ?case
  proof (cases ok)
    case False
    then show ?thesis
      using R m ok by (intro exI [of _ None] exI [of _ s1] exI [of _ 0]) simp
  next
    case True
    have inv1: "cd_inv good pending last_block s1" and v1: "cd_visible pending s1 = cd_visible pending s"
      using m by (simp_all add: cd_moved_def)
    obtain b bs where b: "mem_get 0 (cd_bytes s1) = Some b" "cd_visible pending s = b # bs"
      using visible_head [OF inv1] True ok v1 by auto
    define s2 where "s2 = cd_Advance 1 s1"
    have m1: "cd_moved good pending last_block 1 s1 s2"
      using advance_moved [OF inv1, of 1] True ok by (simp add: s2_def)
    have m2: "cd_moved good pending last_block 1 s s2" using cd_moved_trans [OF m m1] by simp
    have inv2: "cd_inv good pending last_block s2" and v2: "cd_visible pending s2 = bs"
      using m2 b(2) by (simp_all add: cd_moved_def)
    define acc' where "acc' = acc + 2 ^ ?e * lo7 b"
    have step: "varint64_slow zs (Suc n) (of_nat acc) s =
        (if last7 b then Some (Some (of_nat acc'), s2) else varint64_slow zs n (of_nat acc') s2)"
      using R True b(1) read_varint_slow_step [where b = b and 'a = 64, OF Suc.prems(3)]
      by (simp add: Let_def cont_bit acc'_def s2_def)
    show ?thesis
    proof (cases "last7 b")
      case True
      then show ?thesis
        using step m2 b(2) by (intro exI [of _ "Some (of_nat acc')"] exI [of _ s2] exI [of _ 1]) (simp add: acc'_def)
    next
      case False
      have e: "7 * (kMaxVarintBytes - n) = ?e + 7" using Suc.prems(2) by simp
      have "acc' < 2 ^ ?e + 2 ^ ?e * lo7 b" using Suc.prems(3) by (simp add: acc'_def)
      also have "\<dots> = 2 ^ ?e * (lo7 b + 1)" by simp
      also have "\<dots> \<le> 2 ^ ?e * 2 ^ 7" using lo7_less [of b] by (intro mult_le_mono) simp_all
      finally have "acc' < 2 ^ (7 * (kMaxVarintBytes - n))" by (simp add: e power_add)
      from Suc.IH [OF inv2 _ this] Suc.prems(2) obtain r s' k where
        s': "varint64_slow zs n (of_nat acc') s2 = Some (r, s')" "cd_moved good pending last_block k s2 s'"
        "case read_varint n bs of
           Some (Some (v, j)) \<Rightarrow> r = Some (of_nat (acc' + 2 ^ (?e + 7) * v)) \<and> k = j
         | _ \<Rightarrow> r = None"
        unfolding v2 e by auto
      have arith: "acc' + 2 ^ (?e + 7) * v = acc + 2 ^ ?e * (lo7 b + 128 * v)" for v
        by (simp add: acc'_def power_add algebra_simps)
      have res: "case read_varint (Suc n) (cd_visible pending s) of
           Some (Some (v, j)) \<Rightarrow> r = Some (of_nat (acc + 2 ^ ?e * v)) \<and> Suc k = j
         | _ \<Rightarrow> r = None"
        using s'(3) False by (simp only: b(2) arith) (auto split: option.splits)
      have "cd_moved good pending last_block (Suc k) s s'" using cd_moved_trans [OF m2 s'(2)] by simp
      then show ?thesis
        using step False s'(1) res by (intro exI [of _ r] exI [of _ s'] exI [of _ "Suc k"]) simp
    qed
  qed
qed

lemma ReadVarint64Slow_law:
  assumes "cd_inv good pending last_block s"
  shows "\<exists>s' k. ReadVarint64Slow zs s = Some (map_option (\<lambda>(v, j). of_nat v) (first_varint (cd_visible pending s)), s') \<and>
    cd_moved good pending last_block k s s' \<and>
    (case first_varint (cd_visible pending s) of Some (v, j) \<Rightarrow> k = j | None \<Rightarrow> True)"
proof -
  obtain r s' k where "varint64_slow zs kMaxVarintBytes 0 s = Some (r, s')" "cd_moved good pending last_block k s s'"
    "case read_varint kMaxVarintBytes (cd_visible pending s) of
       Some (Some (v, j)) \<Rightarrow> r = Some (of_nat v) \<and> k = j | _ \<Rightarrow> r = None"
    using varint64_slow_law [OF assms, of kMaxVarintBytes 0, unfolded diff_self_eq_0 mult_0_right power_0 mult_1 add_0 of_nat_0] by auto
  then show ?thesis
    by (intro exI [of _ s'] exI [of _ k]) (auto simp: ReadVarint64Slow_def first_varint_def split: option.splits)
qed

text \<open>When the test passes, the first varint lies before \<open>buffer_end_\<close>, so the unchecked read is right.\<close>

lemma varint_fits_law:
  assumes "cd_inv good pending last_block s"
  obtains fits where "varint_fits s = Some fits"
    "fits \<Longrightarrow> read_varint kMaxVarintBytes (cd_bytes s) = Some (first_varint (cd_visible pending s))"
    "\<And>v j. fits \<Longrightarrow> first_varint (cd_visible pending s) = Some (v, j) \<Longrightarrow> int j \<le> cd_size s"
proof -
  note l = size_le_visible [OF assms]
  let ?k = "nat (cd_size s)"
  have eq: "take ?k (cd_bytes s) = take ?k (cd_visible pending s)" by (rule l(3)) simp
  have l2: "0 \<le> cd_size s" "?k - 1 < length (cd_bytes s)" if "cd_size s > 0"
    using that l(2) by linarith+
  obtain fits where f: "varint_fits s = Some fits"
    "fits \<Longrightarrow> int kMaxVarintBytes \<le> cd_size s \<or> 0 < cd_size s \<and> last7 (cd_bytes s ! (?k - 1))"
  proof (cases "0 < cd_size s")
    case True
    then have "nat (cd_size s - 1) = ?k - 1" by simp
    then show ?thesis
      using that l2 [OF True] True by (cases "int kMaxVarintBytes \<le> cd_size s") (auto simp: varint_fits_def mem_simps cont_bit)
  qed (use that in \<open>simp add: varint_fits_def kMaxVarintBytes_def\<close>)
  have r: "\<exists>r. read_varint kMaxVarintBytes (take ?k (cd_bytes s)) = Some r \<and> (\<forall>v j. r = Some (v, j) \<longrightarrow> j \<le> ?k)" if fits
    using f(2) [OF that] l(2)
    by (intro read_varint_within) (auto simp: min_def)
  show ?thesis
  proof (rule that [OF f(1)])
    assume fits
    with r obtain r where r: "read_varint kMaxVarintBytes (take ?k (cd_bytes s)) = Some r" by blast
    then show "read_varint kMaxVarintBytes (cd_bytes s) = Some (first_varint (cd_visible pending s))"
      using read_varint_take [OF r] read_varint_take [OF r [unfolded eq]] by (simp add: first_varint_def)
  next
    fix v j
    assume fits and v: "first_varint (cd_visible pending s) = Some (v, j)"
    with r obtain r where r: "read_varint kMaxVarintBytes (take ?k (cd_visible pending s)) = Some r"
      "\<forall>v j. r = Some (v, j) \<longrightarrow> j \<le> ?k" unfolding eq by blast
    have "first_varint (cd_visible pending s) = r" using read_varint_take [OF r(1)] by (simp only: first_varint_def option.case)
    with r(2) v have "j \<le> ?k" by simp
    moreover have "0 \<le> cd_size s" using assms by (simp add: cd_inv_def)
    ultimately show "int j \<le> cd_size s" by linarith
  qed
qed

lemma ReadVarint64Fallback_law:
  assumes "cd_inv good pending last_block s"
  shows "\<exists>s' k. ReadVarint64Fallback zs s = Some (map_option (\<lambda>(v, j). of_nat v) (first_varint (cd_visible pending s)), s') \<and>
    cd_moved good pending last_block k s s' \<and>
    (case first_varint (cd_visible pending s) of Some (v, j) \<Rightarrow> k = j | None \<Rightarrow> True)"
proof -
  obtain fits where f: "varint_fits s = Some fits"
    "fits \<Longrightarrow> read_varint kMaxVarintBytes (cd_bytes s) = Some (first_varint (cd_visible pending s))"
    "\<And>v j. fits \<Longrightarrow> first_varint (cd_visible pending s) = Some (v, j) \<Longrightarrow> int j \<le> cd_size s"
    using varint_fits_law [OF assms] by blast
  show ?thesis
  proof (cases fits)
    case False
    then show ?thesis using f(1) ReadVarint64Slow_law [OF assms] by (simp add: ReadVarint64Fallback_def)
  next
    case True
    have r: "ReadVarint64FromArray (cd_bytes s) 0 = Some (map_option (\<lambda>(v, k). (of_nat v, k)) (first_varint (cd_visible pending s)))"
      using f(2) [OF True] by (simp add: ReadVarint64FromArray_spec kMaxVarintBytes_def)
    show ?thesis
    proof (cases "first_varint (cd_visible pending s)")
      case None
      then show ?thesis using f(1) r True cd_moved_0 [OF assms] by (auto simp: ReadVarint64Fallback_def)
    next
      case (Some p)
      obtain v j where p: "p = (v, j)" by (cases p)
      have m: "cd_moved good pending last_block j s (cd_Advance (int j) s)"
        using f(3) [OF True] Some p by (intro advance_moved [OF assms]) simp
      have "ReadVarint64Fallback zs s = Some (Some (of_nat v), cd_Advance (int j) s)"
        using f(1) r True Some p by (simp add: ReadVarint64Fallback_def)
      then show ?thesis using m Some p by auto
    qed
  qed
qed

lemma first_varint_Cons: "unat b < 128 \<Longrightarrow> first_varint (b # bs) = Some (unat b, 1)"
  using read_varint_drop [of 9 0 "b # bs"] by (simp add: first_varint_def kMaxVarintBytes_def last7_def lo7_def mem_get_def)

lemma byte_less_80: "b < 0x80 \<longleftrightarrow> unat b < 128" for b :: byte
  by (simp add: word_less_nat_alt)

lemma ReadVarint64_law:
  assumes "cd_inv good pending last_block s"
  shows "\<exists>s' k. ReadVarint64 zs s = Some (map_option (\<lambda>(v, j). of_nat v) (first_varint (cd_visible pending s)), s') \<and>
    cd_moved good pending last_block k s s' \<and>
    (case first_varint (cd_visible pending s) of Some (v, j) \<Rightarrow> k = j | None \<Rightarrow> True)"
proof (cases "0 < cd_size s")
  case True
  obtain b bs where b: "mem_get 0 (cd_bytes s) = Some b" "cd_visible pending s = b # bs"
    using visible_head [OF assms True] .
  show ?thesis
  proof (cases "b < 0x80")
    case lt: True
    then show ?thesis
      using True b advance_moved [OF assms, of 1] by (simp add: ReadVarint64_def byte_less_80 first_varint_Cons)
  qed (use True b ReadVarint64Fallback_law [OF assms] in \<open>simp add: ReadVarint64_def\<close>)
qed (use ReadVarint64Fallback_law [OF assms] in \<open>simp add: ReadVarint64_def\<close>)

lemma ucast_of_nat_32: "(ucast (of_nat v :: uint64) :: uint32) = of_nat v"
  by (rule bit_word_eqI) (auto simp: bit_simps)

lemma ReadVarint32Fallback_law:
  assumes "cd_inv good pending last_block s"
  shows "\<exists>s' k. ReadVarint32Fallback zs s = Some (map_option (\<lambda>(v, j). of_nat v) (first_varint (cd_visible pending s)), s') \<and>
    cd_moved good pending last_block k s s' \<and>
    (case first_varint (cd_visible pending s) of Some (v, j) \<Rightarrow> k = j | None \<Rightarrow> True)"
proof -
  obtain fits where f: "varint_fits s = Some fits"
    "fits \<Longrightarrow> read_varint kMaxVarintBytes (cd_bytes s) = Some (first_varint (cd_visible pending s))"
    "\<And>v j. fits \<Longrightarrow> first_varint (cd_visible pending s) = Some (v, j) \<Longrightarrow> int j \<le> cd_size s"
    using varint_fits_law [OF assms] by blast
  show ?thesis
  proof (cases fits)
    case False
    obtain s' k where "ReadVarint64Fallback zs s = Some (map_option (\<lambda>(v, j). of_nat v) (first_varint (cd_visible pending s)), s')"
      "cd_moved good pending last_block k s s'" "case first_varint (cd_visible pending s) of Some (v, j) \<Rightarrow> k = j | None \<Rightarrow> True"
      using ReadVarint64Fallback_law [OF assms] by blast
    then show ?thesis
      using f(1) False
      by (intro exI [of _ s'] exI [of _ k])
        (simp add: ReadVarint32Fallback_def ReadVarint32Slow_def option.map_comp o_def case_prod_beta' ucast_of_nat_32)
  next
    case True
    have r: "ReadVarint32FromArray (cd_bytes s) 0 = Some (map_option (\<lambda>(v, k). (of_nat v, k)) (first_varint (cd_visible pending s)))"
      using f(2) [OF True] by (simp add: ReadVarint32FromArray_spec kMaxVarintBytes_def)
    show ?thesis
    proof (cases "first_varint (cd_visible pending s)")
      case None
      then show ?thesis using f(1) r True cd_moved_0 [OF assms] by (auto simp: ReadVarint32Fallback_def)
    next
      case (Some p)
      obtain v j where p: "p = (v, j)" by (cases p)
      have m: "cd_moved good pending last_block j s (cd_Advance (int j) s)"
        using f(3) [OF True] Some p by (intro advance_moved [OF assms]) simp
      have "ReadVarint32Fallback zs s = Some (Some (of_nat v), cd_Advance (int j) s)"
        using f(1) r True Some p by (simp add: ReadVarint32Fallback_def)
      then show ?thesis using m Some p by auto
    qed
  qed
qed

lemma ReadVarint32_law:
  assumes "cd_inv good pending last_block s"
  shows "\<exists>s' k. ReadVarint32 zs s = Some (map_option (\<lambda>(v, j). of_nat v) (first_varint (cd_visible pending s)), s') \<and>
    cd_moved good pending last_block k s s' \<and>
    (case first_varint (cd_visible pending s) of Some (v, j) \<Rightarrow> k = j | None \<Rightarrow> True)"
proof (cases "0 < cd_size s")
  case True
  obtain b bs where b: "mem_get 0 (cd_bytes s) = Some b" "cd_visible pending s = b # bs"
    using visible_head [OF assms True] .
  show ?thesis
  proof (cases "b < 0x80")
    case lt: True
    then show ?thesis
      using True b advance_moved [OF assms, of 1] by (simp add: ReadVarint32_def byte_less_80 first_varint_Cons)
  qed (use True b ReadVarint32Fallback_law [OF assms] in \<open>simp add: ReadVarint32_def\<close>)
qed (use ReadVarint32Fallback_law [OF assms] in \<open>simp add: ReadVarint32_def\<close>)

end

section \<open>Integers of fixed width, tags, skips and the destructor\<close>

lemma mem_get_take: "i < k \<Longrightarrow> mem_get i (take k m) = mem_get i m"
  by (simp add: mem_get_def)

lemma ReadLittleEndian32FromArray_take:
  "p + 4 \<le> k \<Longrightarrow> ReadLittleEndian32FromArray (take k m) p = ReadLittleEndian32FromArray m p"
  by (simp add: ReadLittleEndian32FromArray_def mem_get_take)

lemma ReadLittleEndian32FromArray_next: "ReadLittleEndian32FromArray m p = Some (v, q) \<Longrightarrow> q = p + 4"
  by (auto simp: ReadLittleEndian32FromArray_def Let_def bind_Some_iff)

lemma ReadLittleEndian64FromArray_take:
  "p + 8 \<le> k \<Longrightarrow> ReadLittleEndian64FromArray (take k m) p = ReadLittleEndian64FromArray m p"
  using ReadLittleEndian32FromArray_next [of m p]
  by (cases "ReadLittleEndian32FromArray m p") (auto simp: ReadLittleEndian64FromArray_def ReadLittleEndian32FromArray_take)

lemma ReadLittleEndianFromArray_defined:
  "p + 4 \<le> length m \<Longrightarrow> ReadLittleEndian32FromArray m p \<noteq> None"
  "p + 8 \<le> length m \<Longrightarrow> ReadLittleEndian64FromArray m p \<noteq> None"
  "length m < p + 4 \<Longrightarrow> ReadLittleEndian32FromArray m p = None"
  "length m < p + 8 \<Longrightarrow> ReadLittleEndian64FromArray m p = None"
  by (simp_all add: ReadLittleEndian32FromArray_def ReadLittleEndian64FromArray_def mem_get_def)

context input_contract
begin

lemma ReadLittleEndian32_law:
  assumes "cd_inv good pending last_block s"
  shows "\<exists>s'. ReadLittleEndian32 zs s = Some (map_option fst (ReadLittleEndian32FromArray (cd_visible pending s) 0), s') \<and>
    cd_moved good pending last_block (min 4 (length (cd_visible pending s))) s s'"
proof (cases "4 \<le> cd_size s")
  case True
  note l = size_le_visible [OF assms]
  have le: "4 \<le> nat (cd_size s)" using True by simp
  have e: "ReadLittleEndian32FromArray (cd_bytes s) 0 = ReadLittleEndian32FromArray (cd_visible pending s) 0"
    using l(3) [OF le] ReadLittleEndian32FromArray_take [of 0 4 "cd_bytes s"] ReadLittleEndian32FromArray_take [of 0 4 "cd_visible pending s"]
    by simp
  obtain v q where v: "ReadLittleEndian32FromArray (cd_visible pending s) 0 = Some (v, q)"
    using ReadLittleEndianFromArray_defined(1) [of 0 "cd_visible pending s"] l(1) le by fastforce
  have "min 4 (length (cd_visible pending s)) = 4" using l(1) le by simp
  then show ?thesis
    using True e v advance_moved [OF assms, of 4] by (simp add: ReadLittleEndian32_def)
next
  case False
  obtain s' where s': "ReadRaw zs 4 s = Some (4 \<le> length (cd_visible pending s), take 4 (cd_visible pending s), s')"
    "cd_moved good pending last_block (min 4 (length (cd_visible pending s))) s s'"
    using ReadRaw_law [OF assms, of 4] by auto
  show ?thesis
  proof (cases "4 \<le> length (cd_visible pending s)")
    case True
    then obtain v q where "ReadLittleEndian32FromArray (cd_visible pending s) 0 = Some (v, q)"
      using ReadLittleEndianFromArray_defined(1) [of 0 "cd_visible pending s"] by fastforce
    then show ?thesis
      using s' False True by (simp add: ReadLittleEndian32_def ReadLittleEndian32Fallback_def ReadLittleEndian32FromArray_take)
  next
    case short: False
    then show ?thesis
      using s' False ReadLittleEndianFromArray_defined(3) [of "cd_visible pending s" 0]
      by (simp add: ReadLittleEndian32_def ReadLittleEndian32Fallback_def)
  qed
qed

lemma ReadLittleEndian64_law:
  assumes "cd_inv good pending last_block s"
  shows "\<exists>s'. ReadLittleEndian64 zs s = Some (map_option fst (ReadLittleEndian64FromArray (cd_visible pending s) 0), s') \<and>
    cd_moved good pending last_block (min 8 (length (cd_visible pending s))) s s'"
proof (cases "8 \<le> cd_size s")
  case True
  note l = size_le_visible [OF assms]
  have le: "8 \<le> nat (cd_size s)" using True by simp
  have e: "ReadLittleEndian64FromArray (cd_bytes s) 0 = ReadLittleEndian64FromArray (cd_visible pending s) 0"
    using l(3) [OF le] ReadLittleEndian64FromArray_take [of 0 8 "cd_bytes s"] ReadLittleEndian64FromArray_take [of 0 8 "cd_visible pending s"]
    by simp
  obtain v q where v: "ReadLittleEndian64FromArray (cd_visible pending s) 0 = Some (v, q)"
    using ReadLittleEndianFromArray_defined(2) [of 0 "cd_visible pending s"] l(1) le by fastforce
  have "min 8 (length (cd_visible pending s)) = 8" using l(1) le by simp
  then show ?thesis
    using True e v advance_moved [OF assms, of 8] by (simp add: ReadLittleEndian64_def)
next
  case False
  obtain s' where s': "ReadRaw zs 8 s = Some (8 \<le> length (cd_visible pending s), take 8 (cd_visible pending s), s')"
    "cd_moved good pending last_block (min 8 (length (cd_visible pending s))) s s'"
    using ReadRaw_law [OF assms, of 8] by auto
  show ?thesis
  proof (cases "8 \<le> length (cd_visible pending s)")
    case True
    then obtain v q where "ReadLittleEndian64FromArray (cd_visible pending s) 0 = Some (v, q)"
      using ReadLittleEndianFromArray_defined(2) [of 0 "cd_visible pending s"] by fastforce
    then show ?thesis
      using s' False True by (simp add: ReadLittleEndian64_def ReadLittleEndian64Fallback_def ReadLittleEndian64FromArray_take)
  next
    case short: False
    then show ?thesis
      using s' False ReadLittleEndianFromArray_defined(4) [of "cd_visible pending s" 0]
      by (simp add: ReadLittleEndian64_def ReadLittleEndian64Fallback_def)
  qed
qed

text \<open>The destructor gives every byte behind the current position back to the stream below.\<close>

lemma delete_law:
  assumes "cd_inv good pending last_block s" and "cd_input s = Some i"
  shows "\<exists>i'. CodedInputStream_delete zs s = Some (Some i') \<and> good i' \<and> pending i' = cd_rest pending s"
proof -
  define n where "n = cd_size s + cd_buffer_size_after_limit s + cd_overflow_bytes s"
  have n: "n = int (length (cd_bytes s))" and g: "good i" using assms by (auto simp: cd_inv_def n_def)
  show ?thesis
  proof (cases "n > 0")
    case False
    then have "cd_bytes s = []" using n by simp
    moreover have "BackUpInputToCurrentPosition zs s = Some s"
      using False by (simp add: BackUpInputToCurrentPosition_def Let_def flip: n_def)
    ultimately show ?thesis
      using assms(2) g by (simp add: CodedInputStream_delete_def cd_rest_def cd_pending_def)
  next
    case True
    then have b: "cd_bytes s \<noteq> []" using n by auto
    then obtain a where a: "last_block i = a @ cd_bytes s"
      using assms by (auto simp: cd_inv_def suffix_def)
    obtain i' where i': "zi_BackUp zs n i = Some i'" "good i'" "pending i' = cd_bytes s @ pending i"
      using backup_law [OF g, of n] a b n by auto
    then show ?thesis
      using True assms(2)
      by (simp add: CodedInputStream_delete_def BackUpInputToCurrentPosition_def Let_def cd_rest_def cd_pending_def flip: n_def)
  qed
qed

text \<open>A new coded stream sees everything, up to the default limit.\<close>

lemma CodedInputStream_law:
  assumes "good i" and "int (length (pending i)) \<le> INT_MAX"
  shows "\<exists>s. CodedInputStream zs i = Some s \<and> cd_inv good pending last_block s \<and> CurrentPosition s = 0 \<and>
    cd_rest pending s = pending i \<and> cd_visible pending s = take (nat kDefaultTotalBytesLimit) (pending i) \<and>
    cd_frame s = (INT_MAX, kDefaultTotalBytesLimit, 0, default_recursion_limit, False) \<and> \<not> cd_legitimate_message_end s"
proof -
  define s0 where "s0 =
       \<lparr>cd_input = Some i, cd_bytes = [], cd_size = 0, cd_total_bytes_read = 0, cd_overflow_bytes = 0, cd_last_tag = 0,
        cd_legitimate_message_end = False, cd_current_limit = INT_MAX, cd_buffer_size_after_limit = 0,
        cd_total_bytes_limit = kDefaultTotalBytesLimit,
        cd_total_bytes_warning_threshold = kDefaultTotalBytesWarningThreshold,
        cd_recursion_depth = 0, cd_recursion_limit = default_recursion_limit\<rparr>"
  have i: "cd_inv good pending last_block s0" and z: "cd_size s0 = 0"
    using assms by (simp_all add: s0_def cd_inv_def CurrentPosition_def closest_limit_def kDefaultTotalBytesLimit_def INT_MAX_def)
  obtain ok s where s: "Refresh zs s0 = Some (ok, s)" "cd_moved good pending last_block 0 s0 s"
    "cd_legitimate_message_end s = cd_legitimate_message_end s0"
    using Refresh_law [OF i z] by blast
  have "cd_rest pending s0 = pending i" "CurrentPosition s0 = 0"
    "cd_visible pending s0 = take (nat kDefaultTotalBytesLimit) (pending i)"
    "cd_frame s0 = (INT_MAX, kDefaultTotalBytesLimit, 0, default_recursion_limit, False)"
    by (simp_all add: s0_def cd_rest_def cd_pending_def cd_visible_def CurrentPosition_def closest_limit_def cd_frame_def
        kDefaultTotalBytesLimit_def INT_MAX_def)
  then show ?thesis
    using s unfolding CodedInputStream_def s0_def [symmetric] by (auto simp: cd_moved_def) (simp add: s0_def)
qed

text \<open>
  \<open>Skip\<close> succeeds when that many bytes are visible. When the data ends before, the position still counts up to where
  the skip should have ended, so only the visible bytes are stated then.
\<close>

lemma Skip_law:
  assumes "cd_inv good pending last_block s" and "0 \<le> n"
  shows "\<exists>s'. CodedInputStream_Skip zs n s = Some (nat n \<le> length (cd_visible pending s), s') \<and>
    cd_inv good pending last_block s' \<and> cd_frame s' = cd_frame s \<and>
    cd_visible pending s' = drop (nat n) (cd_visible pending s) \<and>
    (nat n \<le> length (cd_visible pending s) \<longrightarrow> cd_moved good pending last_block (nat n) s s')"
proof -
  note l = size_le_visible [OF assms(1)]
  let ?v = "cd_visible pending s"
  consider (here) "n \<le> cd_size s" | (limit) "cd_size s < n" "0 < cd_buffer_size_after_limit s"
    | (below) "cd_size s < n" "cd_buffer_size_after_limit s = 0"
    using assms(1) by (fastforce simp: cd_inv_def)
  then show ?thesis
  proof cases
    case here
    then have "nat n \<le> length ?v" using l(1) by linarith
    then show ?thesis
      using here assms advance_moved [OF assms(1), of "nat n"] by (auto simp: CodedInputStream_Skip_def cd_moved_def)
  next
    case limit
    have "length ?v = nat (cd_size s)" using limit l(2) by (simp add: visible_eq [OF assms(1)] min_def)
    moreover have "nat (cd_size s) < nat n" using limit assms(1) by (simp add: cd_inv_def)
    ultimately show ?thesis
      using limit assms advance_size_moved(1) [OF assms(1)] by (auto simp: CodedInputStream_Skip_def cd_moved_def)
  next
    case below
    define c where "c = n - cd_size s"
    define u where "u = closest_limit s - cd_total_bytes_read s"
    have z: "0 \<le> cd_size s" "0 < c" "0 \<le> u" "cd_overflow_bytes s = 0" "length (cd_bytes s) = nat (cd_size s)"
      "cd_total_bytes_read s \<le> closest_limit s" "closest_limit s \<le> INT_MAX"
      "CurrentPosition s = cd_total_bytes_read s - cd_size s" "0 \<le> cd_total_bytes_read s" "0 \<le> CurrentPosition s"
      "cd_current_limit s \<le> INT_MAX" "cd_total_bytes_limit s \<le> INT_MAX"
      using assms(1) below by (auto simp: cd_inv_def c_def u_def CurrentPosition_def closest_limit_def)
    have v: "?v = cd_bytes s @ take (nat u) (cd_pending pending s)"
      using below z by (simp add: visible_eq [OF assms(1)] u_def)
    have n: "nat n = length (cd_bytes s) + nat c" using below z by (simp add: c_def)
    define at where "at p i = s\<lparr>cd_bytes := [], cd_size := 0, cd_total_bytes_read := p, cd_input := i\<rparr>" for p i
    have f: "cd_frame (at p (Some i)) = cd_frame s" if "cd_input s \<noteq> None" for p i
      using that by (simp add: at_def cd_frame_def)
    have vis: "cd_visible pending (at p (Some i)) = take (nat (closest_limit s - p)) (pending i)" for p i
      using below by (simp add: at_def cd_visible_def cd_rest_def cd_pending_def closest_limit_def CurrentPosition_def)
    have inv: "cd_inv good pending last_block (at p (Some i))"
      if "good i" "cd_total_bytes_read s \<le> p" "p \<le> closest_limit s" "p + int (length (pending i)) \<le> INT_MAX" for p i
      using that z below by (simp add: cd_inv_def at_def closest_limit_def CurrentPosition_def)
    have S: "CodedInputStream_Skip zs n s =
       (if u < c then
         if u > 0 then do {
           i \<leftarrow> cd_input s; (_, i) \<leftarrow> zi_Skip zs u i; Some (False, at (closest_limit s) (Some i)) }
         else Some (False, s\<lparr>cd_bytes := [], cd_size := 0\<rparr>)
       else do {
         i \<leftarrow> cd_input s; (ok, i) \<leftarrow> zi_Skip zs c i; Some (ok, at (cd_total_bytes_read s + c) (Some i)) })"
      using below z by (simp add: CodedInputStream_Skip_def Let_def c_def u_def at_def closest_limit_def)
    show ?thesis
    proof (cases "u = 0")
      case True
      have len: "length ?v < nat n" using v n z True by simp
      then have e: "(nat n \<le> length ?v) = False" "drop (nat n) ?v = []" by simp_all
      have m: "cd_moved good pending last_block (nat (cd_size s)) s (s\<lparr>cd_bytes := [], cd_size := 0\<rparr>)"
        using advance_size_moved(1) [OF assms(1)] z by (simp add: cd_Advance_def)
      show ?thesis
        unfolding e using S True z(2) m v z(5)
        by (intro exI [of _ "s\<lparr>cd_bytes := [], cd_size := 0\<rparr>"]) (simp add: cd_moved_def)
    next
      case False
      obtain i where i: "cd_input s = Some i" "good i" "cd_total_bytes_read s + int (length (pending i)) \<le> INT_MAX"
      proof (cases "cd_input s")
        case None
        then have "cd_current_limit s \<le> cd_total_bytes_read s" using assms(1) by (simp add: cd_inv_def)
        then show ?thesis using False z by (simp add: u_def closest_limit_def)
      qed (use assms(1) that in \<open>auto simp: cd_inv_def\<close>)
      have p: "cd_pending pending s = pending i" using i by (simp add: cd_pending_def)
      define w where "w = min u c"
      have w: "0 < w" "w \<le> u" using z False by (simp_all add: w_def)
      obtain ok i' where k: "zi_Skip zs w i = Some (ok, i')" "good i'" "pending i' = drop (nat w) (pending i)"
        "ok \<longrightarrow> nat w \<le> length (pending i)" "\<not> ok \<longrightarrow> length (pending i) < nat w \<or> w = 0 \<and> pending i = []"
        using skip_law [OF i(2), of w] w(1) by auto
      have ok: "ok \<longleftrightarrow> nat w \<le> length (pending i)" using k(4,5) w(1) by auto
      define s' where "s' = at (cd_total_bytes_read s + w) (Some i')"
      have S': "CodedInputStream_Skip zs n s = Some (ok \<and> c \<le> u, s')"
      proof (cases "u < c")
        case True
        then have "w = u" "closest_limit s = cd_total_bytes_read s + w" by (simp_all add: w_def u_def)
        then show ?thesis using S True i(1) k(1) w(1) by (simp add: s'_def)
      next
        case ge: False
        then have "w = c" by (simp add: w_def)
        then show ?thesis using S ge i(1) k(1) by (simp add: s'_def)
      qed
      have res: "(ok \<and> c \<le> u) = (nat n \<le> length ?v)"
        unfolding v n ok p using w by (auto simp: w_def min_def)
      have "cd_total_bytes_read s + w + int (length (pending i')) \<le> INT_MAX"
        using i(3) k(3) z w(2) by (auto simp: u_def)
      then have I: "cd_inv good pending last_block s'"
        unfolding s'_def using k(2) w by (intro inv) (simp_all add: u_def)
      have drop: "cd_visible pending s' = drop (nat n) ?v"
      proof -
        have "nat (closest_limit s - (cd_total_bytes_read s + w)) = nat u - nat w" using w by (simp add: u_def)
        then have "cd_visible pending s' = drop (nat w) (take (nat u) (pending i))"
          by (simp add: s'_def vis k(3) drop_take)
        also have "\<dots> = drop (nat c) (take (nat u) (pending i))" by (auto simp: w_def min_def)
        finally show ?thesis by (simp add: v n p)
      qed
      have "cd_moved good pending last_block (nat n) s s'" if "nat n \<le> length ?v"
      proof -
        have c: "w = c" using res that by (simp add: w_def)
        have "cd_rest pending s' = drop (nat n) (cd_rest pending s)"
          using below k(3) by (simp add: s'_def at_def cd_rest_def p n c) (simp add: cd_pending_def)
        moreover have "CurrentPosition s' = CurrentPosition s + int (nat n)"
          using below z assms(2) by (simp add: s'_def at_def CurrentPosition_def c c_def)
        ultimately show ?thesis using I drop f i(1) by (simp add: cd_moved_def s'_def)
      qed
      then show ?thesis using S' res I drop f i(1) by (simp add: s'_def)
    qed
  qed
qed

end

lemma tag_updates:
  "CurrentPosition (s\<lparr>cd_last_tag := t\<rparr>) = CurrentPosition s" "CurrentPosition (s\<lparr>cd_legitimate_message_end := e\<rparr>) = CurrentPosition s"
  "closest_limit (s\<lparr>cd_last_tag := t\<rparr>) = closest_limit s" "closest_limit (s\<lparr>cd_legitimate_message_end := e\<rparr>) = closest_limit s"
  "cd_rest pending (s\<lparr>cd_last_tag := t\<rparr>) = cd_rest pending s"
  "cd_rest pending (s\<lparr>cd_legitimate_message_end := e\<rparr>) = cd_rest pending s"
  "cd_visible pending (s\<lparr>cd_last_tag := t\<rparr>) = cd_visible pending s"
  "cd_visible pending (s\<lparr>cd_legitimate_message_end := e\<rparr>) = cd_visible pending s"
  "cd_frame (s\<lparr>cd_last_tag := t\<rparr>) = cd_frame s" "cd_frame (s\<lparr>cd_legitimate_message_end := e\<rparr>) = cd_frame s"
  "cd_inv good pending last_block (s\<lparr>cd_last_tag := t\<rparr>) = cd_inv good pending last_block s"
  "cd_inv good pending last_block (s\<lparr>cd_legitimate_message_end := e\<rparr>) = cd_inv good pending last_block s"
  by (simp_all add: cd_inv_def cd_rest_def cd_pending_def cd_visible_def CurrentPosition_def closest_limit_def
      cd_frame_def cong: option.case_cong)

lemma moved_update:
  "cd_moved good pending last_block k s s' \<Longrightarrow> cd_moved good pending last_block k s (s'\<lparr>cd_last_tag := t\<rparr>)"
  "cd_moved good pending last_block k s s' \<Longrightarrow> cd_moved good pending last_block k s (s'\<lparr>cd_legitimate_message_end := e\<rparr>)"
  by (simp_all add: cd_moved_def tag_updates)

lemma first_varint_Nil [simp]: "first_varint [] = None"
  by (simp add: first_varint_def kMaxVarintBytes_def eval_nat_numeral)

definition tag_of :: "(nat \<times> nat) option \<Rightarrow> uint32" where
  "tag_of r = (case r of None \<Rightarrow> 0 | Some (v, j) \<Rightarrow> of_nat v)"

context input_contract
begin

text \<open>
  At the end of the visible bytes the tag is 0; whether the end is a legitimate one depends on what ended them: the
  limit of the message (or the data), or the limit on the total number of bytes.
\<close>

lemma ReadTagSlow_law:
  assumes "cd_inv good pending last_block s"
  shows "\<exists>s' k. ReadTagSlow zs s = Some (tag_of (first_varint (cd_visible pending s)), s') \<and>
    cd_moved good pending last_block k s s' \<and>
    (case first_varint (cd_visible pending s) of Some (v, j) \<Rightarrow> k = j | None \<Rightarrow> True) \<and>
    (if cd_visible pending s = []
     then k = 0 \<and> (cd_legitimate_message_end s \<or>
       cd_legitimate_message_end s' = (CurrentPosition s < cd_total_bytes_limit s \<or> cd_current_limit s = cd_total_bytes_limit s))
     else True)"
proof -
  have ReadVarint64_part: ?thesis
    if R: "(if cd_size s = 0 then Refresh zs s else Some (True, s)) = Some (True, s1)" and
      m: "cd_moved good pending last_block 0 s s1" and
      e: "cd_visible pending s = [] \<Longrightarrow> ReadVarint64 zs s1 = Some (None, s1) \<and>
        cd_legitimate_message_end s1 = cd_legitimate_message_end s \<and>
        \<not> (CurrentPosition s < cd_total_bytes_limit s \<or> cd_current_limit s = cd_total_bytes_limit s)"
    for s1
  proof -
    have inv1: "cd_inv good pending last_block s1" and v1: "cd_visible pending s1 = cd_visible pending s"
      using m by (simp_all add: cd_moved_def)
    obtain s' k where s': "ReadVarint64 zs s1 = Some (map_option (\<lambda>(v, j). of_nat v) (first_varint (cd_visible pending s)), s')"
      "cd_moved good pending last_block k s1 s'" "case first_varint (cd_visible pending s) of Some (v, j) \<Rightarrow> k = j | None \<Rightarrow> True"
      using ReadVarint64_law [OF inv1] unfolding v1 by blast
    have "ReadTagSlow zs s = Some (tag_of (first_varint (cd_visible pending s)), s')"
      using R s'(1) by (auto simp: ReadTagSlow_def tag_of_def ucast_of_nat_32 split: option.splits)
    then show ?thesis
    proof (cases "cd_visible pending s = []")
      case True
      then have "s' = s1" using s'(1) e by simp
      then show ?thesis
        using \<open>ReadTagSlow zs s = _\<close> that(3) m True by (intro exI [of _ s1] exI [of _ 0]) simp
    next
      case False
      then show ?thesis
        using \<open>ReadTagSlow zs s = _\<close> cd_moved_trans [OF m s'(2)] s'(3) by (intro exI [of _ s'] exI [of _ k]) simp
    qed
  qed
  show ?thesis
  proof (cases "cd_size s = 0")
    case False
    then have "cd_visible pending s \<noteq> []" using size_le_visible(1) [OF assms] assms by (auto simp: cd_inv_def)
    then show ?thesis using False by (intro ReadVarint64_part [of s]) (simp_all add: cd_moved_0 [OF assms])
  next
    case True
    obtain ok s1 where R: "Refresh zs s = Some (ok, s1)" and m: "cd_moved good pending last_block 0 s s1"
      and l1: "cd_legitimate_message_end s1 = cd_legitimate_message_end s"
      and ok: "if ok then length (cd_pending pending s1) < length (cd_pending pending s) else cd_visible pending s = []"
      using Refresh_law [OF assms True] by blast
    have inv1: "cd_inv good pending last_block s1" and v1: "cd_visible pending s1 = cd_visible pending s"
      and p1: "CurrentPosition s1 = CurrentPosition s"
      and f1: "cd_total_bytes_limit s1 = cd_total_bytes_limit s" "cd_current_limit s1 = cd_current_limit s"
      using m by (simp_all add: cd_moved_def cd_frame_def)
    show ?thesis
    proof (cases ok)
      case False
      have sz: "cd_size s1 = 0"
        using size_le_visible(1) [OF inv1] inv1 v1 ok False by (auto simp: cd_inv_def)
      define e where "e = (if CurrentPosition s \<ge> cd_total_bytes_limit s then cd_current_limit s = cd_total_bytes_limit s else True)"
      have "cd_total_bytes_read s1 - cd_buffer_size_after_limit s1 = CurrentPosition s" using sz p1 by (simp add: CurrentPosition_def)
      then have "ReadTagSlow zs s = Some (0, s1\<lparr>cd_legitimate_message_end := e\<rparr>)"
        using True R False by (simp add: ReadTagSlow_def Let_def f1 e_def)
      then show ?thesis
        using moved_update(2) [OF m, of e] ok False by (auto simp: tag_of_def e_def)
    next
      case ok1: True
      show ?thesis
      proof (rule ReadVarint64_part [of s1])
        assume em: "cd_visible pending s = []"
        have sz: "cd_size s1 = 0"
          using size_le_visible(1) [OF inv1] inv1 v1 em by (auto simp: cd_inv_def)
        have *: "cd_buffer_size_after_limit s = 0" "cd_total_bytes_read s \<noteq> cd_current_limit s" "cd_total_bytes_read s \<le> closest_limit s"
          using R ok1 True assms by (auto simp: Refresh_def cd_inv_def split: if_splits)
        moreover have "cd_pending pending s \<noteq> []" using ok ok1 by auto
        ultimately have c: "closest_limit s = cd_total_bytes_read s"
          using em True by (simp add: visible_eq [OF assms])
        have pos: "CurrentPosition s = cd_total_bytes_read s" using * True by (simp add: CurrentPosition_def)
        have a: "0 < cd_buffer_size_after_limit s1"
        proof (rule ccontr)
          assume "\<not> 0 < cd_buffer_size_after_limit s1"
          then have "cd_bytes s1 = []" using inv1 sz by (auto simp: cd_inv_def)
          moreover have "cd_rest pending s1 = cd_rest pending s" using m by (simp add: cd_moved_def)
          moreover have "cd_bytes s = []" using True * assms by (simp add: cd_inv_def)
          ultimately show False using ok ok1 by (simp add: cd_rest_def)
        qed
        then have "Refresh zs s1 = Some (False, s1)" by (simp add: Refresh_def)
        then have "refill zs s1 = Some (False, s1)" using sz by (subst refill.simps) simp
        then have "ReadVarint64 zs s1 = Some (None, s1)"
          using sz by (simp add: ReadVarint64_def ReadVarint64Fallback_def varint_fits_def ReadVarint64Slow_def kMaxVarintBytes_def
              numeral_eq_Suc)
        moreover have "cd_total_bytes_limit s = cd_total_bytes_read s" using c *(2) by (auto simp: closest_limit_def min_def split: if_splits)
        ultimately show "ReadVarint64 zs s1 = Some (None, s1) \<and>
            cd_legitimate_message_end s1 = cd_legitimate_message_end s \<and>
            \<not> (CurrentPosition s < cd_total_bytes_limit s \<or> cd_current_limit s = cd_total_bytes_limit s)"
          using l1 pos *(2) by simp
      qed (use True R ok1 m in simp_all)
    qed
  qed
qed

lemma ReadTagFallback_law:
  assumes "cd_inv good pending last_block s"
  shows "\<exists>s' k. ReadTagFallback zs s = Some (tag_of (first_varint (cd_visible pending s)), s') \<and>
    cd_moved good pending last_block k s s' \<and>
    (case first_varint (cd_visible pending s) of Some (v, j) \<Rightarrow> k = j | None \<Rightarrow> True) \<and>
    (if cd_visible pending s = []
     then k = 0 \<and> (cd_legitimate_message_end s \<or>
       cd_legitimate_message_end s' = (CurrentPosition s < cd_total_bytes_limit s \<or> cd_current_limit s = cd_total_bytes_limit s))
     else True)"
proof -
  obtain fits where f: "varint_fits s = Some fits"
    "fits \<Longrightarrow> read_varint kMaxVarintBytes (cd_bytes s) = Some (first_varint (cd_visible pending s))"
    "\<And>v j. fits \<Longrightarrow> first_varint (cd_visible pending s) = Some (v, j) \<Longrightarrow> int j \<le> cd_size s"
    using varint_fits_law [OF assms] by blast
  let ?at_end = "cd_size s = 0 \<and> (cd_buffer_size_after_limit s > 0 \<or> cd_total_bytes_read s = cd_current_limit s) \<and>
          cd_total_bytes_read s - cd_buffer_size_after_limit s < cd_total_bytes_limit s"
  show ?thesis
  proof (cases fits)
    case True
    have sz: "0 < cd_size s" using f(1) True by (auto simp: varint_fits_def kMaxVarintBytes_def split: if_splits)
    have v: "cd_visible pending s \<noteq> []" using size_le_visible(1) [OF assms] sz by auto
    have r: "ReadVarint32FromArray (cd_bytes s) 0 = Some (map_option (\<lambda>(v, k). (of_nat v, k)) (first_varint (cd_visible pending s)))"
      using f(2) [OF True] by (simp add: ReadVarint32FromArray_spec kMaxVarintBytes_def)
    show ?thesis
    proof (cases "first_varint (cd_visible pending s)")
      case None
      then show ?thesis using f(1) r True v cd_moved_0 [OF assms] by (auto simp: ReadTagFallback_def tag_of_def)
    next
      case (Some p)
      obtain v j where p: "p = (v, j)" by (cases p)
      have m: "cd_moved good pending last_block j s (cd_Advance (int j) s)"
        using f(3) [OF True] Some p by (intro advance_moved [OF assms]) simp
      have "ReadTagFallback zs s = Some (of_nat v, cd_Advance (int j) s)"
        using f(1) r True Some p by (simp add: ReadTagFallback_def)
      then show ?thesis using m Some p v by (auto simp: tag_of_def)
    qed
  next
    case False
    show ?thesis
    proof (cases ?at_end)
      case True
      have em: "cd_visible pending s = []"
        using True assms by (auto simp: visible_eq [OF assms] cd_inv_def closest_limit_def)
      have "ReadTagFallback zs s = Some (0, s\<lparr>cd_legitimate_message_end := True\<rparr>)"
        using f(1) False True by (simp add: ReadTagFallback_def)
      then show ?thesis
        using em True moved_update(2) [OF cd_moved_0 [OF assms], of True]
        by (intro exI [of _ "s\<lparr>cd_legitimate_message_end := True\<rparr>"] exI [of _ 0]) (simp add: tag_of_def CurrentPosition_def)
    next
      case no_end: False
      then have "ReadTagFallback zs s = ReadTagSlow zs s"
        using f(1) False unfolding ReadTagFallback_def if_not_P [OF no_end] by simp
      then show ?thesis using ReadTagSlow_law [OF assms] by simp
    qed
  qed
qed

lemma ReadTag_law:
  assumes "cd_inv good pending last_block s"
  shows "\<exists>s' k. ReadTag zs s = Some (tag_of (first_varint (cd_visible pending s)), s') \<and>
    LastTagWas (tag_of (first_varint (cd_visible pending s))) s' \<and>
    cd_moved good pending last_block k s s' \<and>
    (case first_varint (cd_visible pending s) of Some (v, j) \<Rightarrow> k = j | None \<Rightarrow> True) \<and>
    (if cd_visible pending s = []
     then k = 0 \<and> (ConsumedEntireMessage s \<or>
       ConsumedEntireMessage s' = (CurrentPosition s < cd_total_bytes_limit s \<or> cd_current_limit s = cd_total_bytes_limit s))
     else True)"
proof -
  obtain s1 k where s1: "ReadTagFallback zs s = Some (tag_of (first_varint (cd_visible pending s)), s1)"
    "cd_moved good pending last_block k s s1"
    "case first_varint (cd_visible pending s) of Some (v, j) \<Rightarrow> k = j | None \<Rightarrow> True"
    "if cd_visible pending s = []
     then k = 0 \<and> (cd_legitimate_message_end s \<or>
       cd_legitimate_message_end s1 = (CurrentPosition s < cd_total_bytes_limit s \<or> cd_current_limit s = cd_total_bytes_limit s))
     else True"
    using ReadTagFallback_law [OF assms] by blast
  define t where "t = tag_of (first_varint (cd_visible pending s))"
  have fallback: ?thesis if "ReadTag zs s = do { (tag, s) \<leftarrow> ReadTagFallback zs s; Some (tag, s\<lparr>cd_last_tag := tag\<rparr>) }"
    using that s1 moved_update(1) [OF s1(2), of t] unfolding t_def [symmetric]
    by (intro exI [of _ "s1\<lparr>cd_last_tag := t\<rparr>"] exI [of _ k]) (simp add: LastTagWas_def ConsumedEntireMessage_def)
  show ?thesis
  proof (cases "0 < cd_size s")
    case False
    then show ?thesis by (intro fallback) (simp add: ReadTag_def)
  next
    case True
    obtain b bs where b: "mem_get 0 (cd_bytes s) = Some b" "cd_visible pending s = b # bs"
      using visible_head [OF assms True] .
    show ?thesis
    proof (cases "b < 0x80")
      case ge: False
      then show ?thesis using True b by (intro fallback) (simp add: ReadTag_def)
    next
      case lt: True
      have "cd_Advance 1 (s\<lparr>cd_last_tag := ucast b\<rparr>) = (cd_Advance 1 s)\<lparr>cd_last_tag := ucast b\<rparr>" by (simp add: cd_Advance_def)
      then show ?thesis
        using True b lt moved_update(1) [OF advance_moved [OF assms, of 1]]
        by (simp add: ReadTag_def byte_less_80 first_varint_Cons tag_of_def LastTagWas_def)
    qed
  qed
qed

text \<open>\<open>ExpectTag\<close> and \<open>ExpectAtEnd\<close> say yes only when \<open>ReadTag\<close> would find that tag, or the end, and then do as it does.\<close>

lemma ExpectTag_law:
  assumes "cd_inv good pending last_block s"
  shows "\<exists>ok s' k. ExpectTag expected s = Some (ok, s') \<and> cd_moved good pending last_block k s s' \<and>
    (if ok then first_varint (cd_visible pending s) = Some (unat expected, k) else k = 0)"
proof -
  note l = size_le_visible [OF assms]
  have no: ?thesis if "ExpectTag expected s = Some (False, s)" using that cd_moved_0 [OF assms] by auto
  consider (one) "expected < 2 ^ 7" "0 < cd_size s" | (two) "\<not> expected < 2 ^ 7" "expected < 2 ^ 14" "2 \<le> cd_size s"
    | (never) "ExpectTag expected s = Some (False, s)"
    by (cases "expected < 2 ^ 7"; cases "expected < 2 ^ 14"; cases "0 < cd_size s"; cases "2 \<le> cd_size s") (simp_all add: ExpectTag_def)
  then show ?thesis
  proof cases
    case one
    obtain b bs where b: "mem_get 0 (cd_bytes s) = Some b" "cd_visible pending s = b # bs"
      using visible_head [OF assms one(2)] .
    show ?thesis
    proof (cases "ucast b = expected")
      case True
      then have u: "unat b = unat expected"
        using unsigned_less [of b, where ?'a = nat] by (auto simp: unsigned_ucast_eq take_bit_nat_eq_self)
      moreover have "unat expected < 128" using one(1) by (simp add: word_less_nat_alt)
      ultimately show ?thesis
        using one b True advance_moved [OF assms, of 1] by (auto simp: ExpectTag_def first_varint_Cons)
    next
      case False
      then show ?thesis using one b(1) by (intro no) (simp add: ExpectTag_def)
    qed
  next
    case two
    obtain b bs where b: "mem_get 0 (cd_bytes s) = Some b" "cd_visible pending s = b # bs"
      using visible_head [OF assms] two(3) by auto
    have "2 \<le> length (cd_bytes s)" "2 \<le> length (cd_visible pending s)" "take 2 (cd_bytes s) = take 2 (cd_visible pending s)"
      using l(1,2) l(3) [of 2] two(3) by linarith+
    then obtain b1 cs where b1: "mem_get 1 (cd_bytes s) = Some b1" "cd_visible pending s = b # b1 # cs"
      using b by (cases "cd_bytes s"; cases "tl (cd_bytes s)"; cases bs) (auto simp: mem_get_def)
    show ?thesis
    proof (cases "b = ucast (expected OR 0x80) \<and> b1 = ucast (drop_bit 7 expected)")
      case False
      then show ?thesis using two b(1) b1(1) by (intro no) (simp add: ExpectTag_def)
    next
      case True
      have e: "unat expected < 2 ^ (7 * 2)" "\<not> unat expected < 128" using two by (simp_all add: word_less_nat_alt)
      have "varint_bytes (unat expected) = [b, b1]"
      proof -
        have "(ucast (expected OR 0x80) :: byte) = of_nat (unat expected mod 128 + 128)"
          using byte_or_80 [of "unat expected"] by (simp only: unsigned_or_eq) simp
        moreover have "(ucast (drop_bit 7 expected) :: byte) = of_nat (unat expected div 128)"
          by (simp add: ucast_drop)
        moreover have "unat expected div 128 < 128" using e by simp
        ultimately show ?thesis using True e by (simp add: varint_bytes_ge varint_bytes_less)
      qed
      then have "read_varint kMaxVarintBytes ([b, b1] @ cs) = Some (Some (unat expected, 2))"
        using read_varint_bytes [of "unat expected" kMaxVarintBytes cs] e by (simp add: kMaxVarintBytes_def)
      then have "first_varint (cd_visible pending s) = Some (unat expected, 2)" by (simp add: first_varint_def b1(2))
      moreover have "ExpectTag expected s = Some (True, cd_Advance 2 s)"
        using two b(1) b1(1) True by (simp add: ExpectTag_def)
      ultimately show ?thesis using advance_moved [OF assms, of 2] two(3) by auto
    qed
  qed (rule no)
qed

lemma ExpectAtEnd_law:
  assumes "cd_inv good pending last_block s" and "ExpectAtEnd s = (True, s')"
  shows "cd_visible pending s = []" and "cd_moved good pending last_block 0 s s'" and "ConsumedEntireMessage s'" and "LastTagWas 0 s'"
proof -
  have e: "cd_size s = 0" "cd_buffer_size_after_limit s \<noteq> 0 \<or> cd_total_bytes_read s = cd_current_limit s"
    "s' = s\<lparr>cd_last_tag := 0, cd_legitimate_message_end := True\<rparr>"
    using assms(2) by (auto simp: ExpectAtEnd_def split: if_splits)
  show "cd_visible pending s = []"
    using e(1,2) assms(1) by (auto simp: visible_eq [OF assms(1)] cd_inv_def closest_limit_def)
  show "cd_moved good pending last_block 0 s s'" "ConsumedEntireMessage s'" "LastTagWas 0 s'"
    unfolding e(3) using moved_update [OF moved_update(1) [OF cd_moved_0 [OF assms(1)]]]
    by (simp_all add: ConsumedEntireMessage_def LastTagWas_def)
qed

end

end
