(* ===== verification/CodedReads.thy ===== *)
theory CodedReads
  imports CodedInput
begin

text \<open>
  Whole sessions of reads through a \<open>CodedInputStream\<close>: a list of read calls, nested limits included, gives what the
  same list gives on the plain bytes, whatever stream the bytes come from and however it cuts them into blocks.
\<close>

section \<open>Clients\<close>

text \<open>
  The calls a parser makes. A client stops at the first read that fails, and at a tag 0, as the generated parsers do.
  \<open>Op_Limited\<close> pushes a limit, makes its calls and pops the limit, as for an embedded message.
\<close>

datatype read_op =
    Op_Varint32
  | Op_Varint64
  | Op_Fixed32
  | Op_Fixed64
  | Op_Bytes nat
  | Op_String nat
  | Op_Skip nat
  | Op_Tag
  | Op_Limited nat "read_op list"

datatype read_val = Val32 uint32 | Val64 uint64 | Val_bytes "byte list"

definition got ::
  "('v \<Rightarrow> read_val) \<Rightarrow> ('v option \<times> 's coded_input) option \<Rightarrow> (read_val list \<times> 's coded_input) option option" where
  "got val r = map_option (\<lambda>(v, s). map_option (\<lambda>v. ([val v], s)) v) r"

definition got_bytes ::
  "(bool \<times> byte list \<times> 's coded_input) option \<Rightarrow> (read_val list \<times> 's coded_input) option option" where
  "got_bytes r = map_option (\<lambda>(ok, bs, s). if ok then Some ([Val_bytes bs], s) else None) r"

text \<open>The outer option is that of the model, \<open>None\<close> inside is a read that failed.\<close>

fun coded_op :: "'s zero_copy_input \<Rightarrow> read_op \<Rightarrow> 's coded_input \<Rightarrow> (read_val list \<times> 's coded_input) option option"
  and coded_ops :: "'s zero_copy_input \<Rightarrow> read_op list \<Rightarrow> 's coded_input \<Rightarrow> (read_val list \<times> 's coded_input) option option" where
  "coded_op zs Op_Varint32 s = got Val32 (ReadVarint32 zs s)"
| "coded_op zs Op_Varint64 s = got Val64 (ReadVarint64 zs s)"
| "coded_op zs Op_Fixed32 s = got Val32 (ReadLittleEndian32 zs s)"
| "coded_op zs Op_Fixed64 s = got Val64 (ReadLittleEndian64 zs s)"
| "coded_op zs (Op_Bytes n) s = got_bytes (ReadRaw zs (int n) s)"
| "coded_op zs (Op_String n) s = got_bytes (ReadString zs [] (int n) s)"
| "coded_op zs (Op_Skip n) s = map_option (\<lambda>(ok, s). if ok then Some ([], s) else None) (CodedInputStream_Skip zs (int n) s)"
| "coded_op zs Op_Tag s = map_option (\<lambda>(tag, s). if tag = 0 then None else Some ([Val32 tag], s)) (ReadTag zs s)"
| "coded_op zs (Op_Limited n ops) s =
     (case PushLimit (int n) s of (old, s) \<Rightarrow>
        map_option (map_option (\<lambda>(vs, s). (vs, PopLimit old s))) (coded_ops zs ops s))"
| "coded_ops zs [] s = Some (Some ([], s))"
| "coded_ops zs (p # ps) s = do {
     r \<leftarrow> coded_op zs p s;
     (case r of
        None \<Rightarrow> Some None
      | Some (vs, s) \<Rightarrow> map_option (map_option (\<lambda>(ws, s). (vs @ ws, s))) (coded_ops zs ps s)) }"

text \<open>The constructor, the reads and, if they all succeed, the destructor, which leaves the stream below.\<close>

definition coded_session :: "'s zero_copy_input \<Rightarrow> read_op list \<Rightarrow> 's \<Rightarrow> (read_val list \<times> 's) option option" where
  "coded_session zs ops i = do {
     s \<leftarrow> CodedInputStream zs i;
     r \<leftarrow> coded_ops zs ops s;
     (case r of
        None \<Rightarrow> Some None
      | Some (vs, s) \<Rightarrow> do { i \<leftarrow> CodedInputStream_delete zs s; Some (map_option (Pair vs) i) }) }"

section \<open>The specification\<close>

text \<open>The values, and the number of bytes they take.\<close>

fun bytes_op :: "read_op \<Rightarrow> byte list \<Rightarrow> (read_val list \<times> nat) option"
  and bytes_ops :: "read_op list \<Rightarrow> byte list \<Rightarrow> (read_val list \<times> nat) option" where
  "bytes_op Op_Varint32 bs = map_option (\<lambda>(v, k). ([Val32 (of_nat v)], k)) (first_varint bs)"
| "bytes_op Op_Varint64 bs = map_option (\<lambda>(v, k). ([Val64 (of_nat v)], k)) (first_varint bs)"
| "bytes_op Op_Fixed32 bs = map_option (\<lambda>(v, k). ([Val32 v], k)) (ReadLittleEndian32FromArray bs 0)"
| "bytes_op Op_Fixed64 bs = map_option (\<lambda>(v, k). ([Val64 v], k)) (ReadLittleEndian64FromArray bs 0)"
| "bytes_op (Op_Bytes n) bs = (if n \<le> length bs then Some ([Val_bytes (take n bs)], n) else None)"
| "bytes_op (Op_String n) bs = (if n \<le> length bs then Some ([Val_bytes (take n bs)], n) else None)"
| "bytes_op (Op_Skip n) bs = (if n \<le> length bs then Some ([], n) else None)"
| "bytes_op Op_Tag bs = (case first_varint bs of
     None \<Rightarrow> None
   | Some (v, k) \<Rightarrow> if (of_nat v :: uint32) = 0 then None else Some ([Val32 (of_nat v)], k))"
| "bytes_op (Op_Limited n ops) bs = bytes_ops ops (take n bs)"
| "bytes_ops [] bs = Some ([], 0)"
| "bytes_ops (p # ps) bs = (case bytes_op p bs of
     None \<Rightarrow> None
   | Some (vs, k) \<Rightarrow> map_option (\<lambda>(ws, j). (vs @ ws, k + j)) (bytes_ops ps (drop k bs)))"

section \<open>Refinement\<close>

text \<open>One result against its specification.\<close>

definition agrees ::
  "('s \<Rightarrow> bool) \<Rightarrow> ('s \<Rightarrow> byte list) \<Rightarrow> ('s \<Rightarrow> byte list) \<Rightarrow> 's coded_input \<Rightarrow>
     (read_val list \<times> nat) option \<Rightarrow> (read_val list \<times> 's coded_input) option option \<Rightarrow> bool" where
  "agrees good pending last_block s spec r \<longleftrightarrow> (case spec of
     None \<Rightarrow> r = Some None
   | Some (vs, k) \<Rightarrow> \<exists>s'. r = Some (Some (vs, s')) \<and> cd_moved good pending last_block k s s')"

lemma agrees_None [simp]: "agrees good pending last_block s None r \<longleftrightarrow> r = Some None"
  by (simp add: agrees_def)

lemma agrees_Some [simp]: "agrees good pending last_block s (Some (vs, k)) r \<longleftrightarrow>
    (\<exists>s'. r = Some (Some (vs, s')) \<and> cd_moved good pending last_block k s s')"
  by (simp add: agrees_def)

lemma ReadLittleEndianFromArray_length:
  "ReadLittleEndian32FromArray bs 0 = Some (v, k) \<Longrightarrow> k = 4 \<and> 4 \<le> length bs"
  "ReadLittleEndian64FromArray bs 0 = Some (w, k) \<Longrightarrow> k = 8 \<and> 8 \<le> length bs"
proof -
  assume a: "ReadLittleEndian32FromArray bs 0 = Some (v, k)"
  then show "k = 4 \<and> 4 \<le> length bs"
    using ReadLittleEndian32FromArray_next [OF a] ReadLittleEndianFromArray_defined(3) [of bs 0] by fastforce
next
  assume a: "ReadLittleEndian64FromArray bs 0 = Some (w, k)"
  then obtain v1 q1 v2 where r: "ReadLittleEndian32FromArray bs 0 = Some (v1, q1)" "ReadLittleEndian32FromArray bs q1 = Some (v2, k)"
    by (auto simp: ReadLittleEndian64FromArray_def bind_eq_Some_conv)
  have "k = 8" using ReadLittleEndian32FromArray_next [OF r(1)] ReadLittleEndian32FromArray_next [OF r(2)] by simp
  moreover have "8 \<le> length bs"
    using a ReadLittleEndianFromArray_defined(4) [of bs 0] by fastforce
  ultimately show "k = 8 \<and> 8 \<le> length bs" by simp
qed

context input_contract
begin

lemma got_agrees:
  assumes "\<exists>s' k. f = Some (map_option (\<lambda>(v, j). of_nat v) r, s') \<and> cd_moved good pending last_block k s s' \<and>
    (case r of Some (v, j) \<Rightarrow> k = j | None \<Rightarrow> True)"
  shows "agrees good pending last_block s (map_option (\<lambda>(v, k). ([val (of_nat v)], k)) r) (got val f)"
  using assms by (cases r) (auto simp: got_def)

lemma got_bytes_agrees:
  assumes "\<exists>s'. f = Some (nat (int n) \<le> length bs, take (nat (int n)) bs, s') \<and>
    cd_moved good pending last_block (min (nat (int n)) (length bs)) s s'"
  shows "agrees good pending last_block s (if n \<le> length bs then Some ([Val_bytes (take n bs)], n) else None) (got_bytes f)"
  using assms by (auto simp: got_bytes_def min_def)

lemma coded_ops_agree:
  "cd_inv good pending last_block s \<Longrightarrow> cd_input s \<noteq> None \<Longrightarrow> bs = cd_visible pending s \<Longrightarrow>
     agrees good pending last_block s (bytes_op p bs) (coded_op zs p s)"
  "cd_inv good pending last_block s \<Longrightarrow> cd_input s \<noteq> None \<Longrightarrow> bs = cd_visible pending s \<Longrightarrow>
     agrees good pending last_block s (bytes_ops ps bs) (coded_ops zs ps s)"
proof (induction p bs and ps bs arbitrary: s and s rule: bytes_op_bytes_ops.induct)
  case (1 bs)
  then show ?case using got_agrees [OF ReadVarint32_law [OF 1(1)]] by simp
next
  case (2 bs)
  then show ?case using got_agrees [OF ReadVarint64_law [OF 2(1)]] by simp
next
  case (3 bs)
  obtain s' where s': "ReadLittleEndian32 zs s = Some (map_option fst (ReadLittleEndian32FromArray (cd_visible pending s) 0), s')"
    "cd_moved good pending last_block (min 4 (length (cd_visible pending s))) s s'"
    using ReadLittleEndian32_law [OF 3(1)] by blast
  show ?case
  proof (cases "ReadLittleEndian32FromArray bs 0")
    case (Some r)
    obtain v k where r: "r = (v, k)" by (cases r)
    then have k: "k = 4" "min 4 (length bs) = 4" using ReadLittleEndianFromArray_length(1) [of bs v k] Some by simp_all
    have "coded_op zs Op_Fixed32 s = Some (Some ([Val32 v], s'))"
      using s'(1) Some r by (simp add: got_def 3(3) [symmetric])
    moreover have "bytes_op Op_Fixed32 bs = Some ([Val32 v], k)" using Some r by simp
    ultimately show ?thesis using s'(2) k by (simp add: 3(3) [symmetric])
  qed (use s' 3(3) in \<open>simp add: got_def\<close>)
next
  case (4 bs)
  obtain s' where s': "ReadLittleEndian64 zs s = Some (map_option fst (ReadLittleEndian64FromArray (cd_visible pending s) 0), s')"
    "cd_moved good pending last_block (min 8 (length (cd_visible pending s))) s s'"
    using ReadLittleEndian64_law [OF 4(1)] by blast
  show ?case
  proof (cases "ReadLittleEndian64FromArray bs 0")
    case (Some r)
    obtain v k where r: "r = (v, k)" by (cases r)
    then have k: "k = 8" "min 8 (length bs) = 8" using ReadLittleEndianFromArray_length(2) [of bs v k] Some by simp_all
    have "coded_op zs Op_Fixed64 s = Some (Some ([Val64 v], s'))"
      using s'(1) Some r by (simp add: got_def 4(3) [symmetric])
    moreover have "bytes_op Op_Fixed64 bs = Some ([Val64 v], k)" using Some r by simp
    ultimately show ?thesis using s'(2) k by (simp add: 4(3) [symmetric])
  qed (use s' 4(3) in \<open>simp add: got_def\<close>)
next
  case (5 n bs)
  show ?case
    using got_bytes_agrees [OF ReadRaw_law [OF 5(1)], of n] 5(3) by simp
next
  case (6 n bs)
  show ?case
    using got_bytes_agrees [OF ReadString_law [OF 6(1)], of n "[]"] 6(3) by simp
next
  case (7 n bs)
  obtain s' where "CodedInputStream_Skip zs (int n) s = Some (n \<le> length bs, s')"
    "n \<le> length bs \<longrightarrow> cd_moved good pending last_block n s s'"
    using Skip_law [OF 7(1) of_nat_0_le_iff, of n] unfolding 7(3) [symmetric] nat_int by blast
  then show ?case by simp
next
  case (8 bs)
  obtain s' k where "ReadTag zs s = Some (tag_of (first_varint bs), s')" "cd_moved good pending last_block k s s'"
    "case first_varint bs of Some (v, j) \<Rightarrow> k = j | None \<Rightarrow> True"
    using ReadTag_law [OF 8(1)] 8(3) by blast
  then show ?case by (auto simp: tag_of_def split: option.splits)
next
  case (9 n ops bs)
  obtain s1 where s1: "PushLimit (int n) s = (cd_current_limit s, s1)" "cd_inv good pending last_block s1"
    "cd_rest pending s1 = cd_rest pending s" "CurrentPosition s1 = CurrentPosition s"
    "cd_visible pending s1 = take n (cd_visible pending s)" "cd_total_bytes_limit s1 = cd_total_bytes_limit s"
    "cd_current_limit s1 = min (CurrentPosition s + int n) (cd_current_limit s)"
    "snd (snd (cd_frame s1)) = snd (snd (cd_frame s))"
    using PushLimit_law [OF 9(2), of "int n"] by auto
  have "cd_input s1 \<noteq> None" using s1(8) 9(3) by (simp add: cd_frame_def)
  then have IH: "agrees good pending last_block s1 (bytes_ops ops (take n bs)) (coded_ops zs ops s1)"
    using s1(2,5) 9(4) by (intro "9.IH") simp_all
  show ?case
  proof (cases "bytes_ops ops (take n bs)")
    case None
    then show ?thesis using IH s1(1) by simp
  next
    case (Some r)
    obtain vs k where r: "r = (vs, k)" by (cases r)
    obtain s2 where s2: "coded_ops zs ops s1 = Some (Some (vs, s2))" "cd_moved good pending last_block k s1 s2"
      using IH Some r by auto
    have inv2: "cd_inv good pending last_block s2" and f2: "cd_frame s2 = cd_frame s1"
      and p2: "CurrentPosition s2 = CurrentPosition s + int k" and r2: "cd_rest pending s2 = drop k (cd_rest pending s)"
      using s2(2) s1(3,4) by (simp_all add: cd_moved_def)
    have c2: "cd_current_limit s2 = cd_current_limit s1" "cd_total_bytes_limit s2 = cd_total_bytes_limit s"
      "cd_input s2 \<noteq> None"
      using f2 s1(6) \<open>cd_input s1 \<noteq> None\<close> by (simp_all add: cd_frame_def)
    have le: "CurrentPosition s2 \<le> cd_current_limit s" "cd_current_limit s \<le> INT_MAX"
      using inv2 c2(1) s1(7) 9(2) by (auto simp: cd_inv_def closest_limit_def)
    have n: "cd_input s2 = None \<longrightarrow> cd_current_limit s \<le> cd_total_bytes_read s2" using c2(3) by blast
    note pop = PopLimit_law [OF inv2 le n]
    have "nat (closest_limit s - CurrentPosition s) - k = nat (min (cd_current_limit s) (cd_total_bytes_limit s2) - CurrentPosition s2)"
      using p2 c2(2) by (simp add: closest_limit_def)
    then have v: "cd_visible pending (PopLimit (cd_current_limit s) s2) = drop k (cd_visible pending s)"
      unfolding pop(4) r2 by (simp add: cd_visible_def drop_take)
    have "cd_frame (PopLimit (cd_current_limit s) s2) = cd_frame s"
      unfolding pop(5) f2 using s1(6,8) by (simp add: cd_frame_def)
    then have "cd_moved good pending last_block k s (PopLimit (cd_current_limit s) s2)"
      using pop(1-3) p2 r2 v by (simp add: cd_moved_def)
    then show ?thesis using s1(1) s2(1) Some r by simp
  qed
next
  case (10 bs)
  then show ?case using cd_moved_0 [OF 10(1)] by simp
next
  case (11 p ps bs)
  have IH1: "agrees good pending last_block s (bytes_op p bs) (coded_op zs p s)"
    using "11.IH"(1) "11.prems" by blast
  show ?case
  proof (cases "bytes_op p bs")
    case None
    then show ?thesis using IH1 by simp
  next
    case (Some r)
    obtain vs k where r: "r = (vs, k)" by (cases r)
    obtain s1 where s1: "coded_op zs p s = Some (Some (vs, s1))" "cd_moved good pending last_block k s s1"
      using IH1 Some r by auto
    have "cd_input s1 \<noteq> None" using s1(2) "11.prems"(2) by (simp add: cd_moved_def cd_frame_def)
    then have IH2: "agrees good pending last_block s1 (bytes_ops ps (drop k bs)) (coded_ops zs ps s1)"
      using s1(2) Some r "11.prems"(3) by (intro "11.IH"(2) [OF _ r [symmetric]]) (simp_all add: cd_moved_def)
    show ?thesis
    proof (cases "bytes_ops ps (drop k bs)")
      case None
      then show ?thesis using IH2 s1(1) Some r by simp
    next
      case more: (Some r')
      obtain ws j where r': "r' = (ws, j)" by (cases r')
      obtain s2 where "coded_ops zs ps s1 = Some (Some (ws, s2))" "cd_moved good pending last_block j s1 s2"
        using IH2 more r' by auto
      then show ?thesis using s1 Some r more r' cd_moved_trans [OF s1(2)] by auto
    qed
  qed
qed

lemma coded_session_law:
  assumes "good i" and "int (length (pending i)) \<le> INT_MAX"
  shows "case bytes_ops ops (take (nat kDefaultTotalBytesLimit) (pending i)) of
     None \<Rightarrow> coded_session zs ops i = Some None
   | Some (vs, k) \<Rightarrow> \<exists>i'. coded_session zs ops i = Some (Some (vs, i')) \<and> good i' \<and> pending i' = drop k (pending i)"
proof -
  obtain s where s: "CodedInputStream zs i = Some s" "cd_inv good pending last_block s" "cd_rest pending s = pending i"
    "cd_visible pending s = take (nat kDefaultTotalBytesLimit) (pending i)" "cd_input s \<noteq> None"
    using CodedInputStream_law [OF assms] by (auto simp: cd_frame_def)
  have a: "agrees good pending last_block s (bytes_ops ops (take (nat kDefaultTotalBytesLimit) (pending i))) (coded_ops zs ops s)"
    by (rule coded_ops_agree(2) [OF s(2,5) s(4) [symmetric]])
  show ?thesis
  proof (cases "bytes_ops ops (take (nat kDefaultTotalBytesLimit) (pending i))")
    case None
    then show ?thesis using a s(1) by (simp add: coded_session_def)
  next
    case (Some r)
    obtain vs k where r: "r = (vs, k)" by (cases r)
    obtain s' where s': "coded_ops zs ops s = Some (Some (vs, s'))" "cd_moved good pending last_block k s s'"
      using a Some r by auto
    obtain j where "cd_input s' = Some j" using s'(2) s(5) by (auto simp: cd_moved_def cd_frame_def)
    then obtain i' where "CodedInputStream_delete zs s' = Some (Some i')" "good i'" "pending i' = cd_rest pending s'"
      using delete_law s'(2) unfolding cd_moved_def by blast
    then show ?thesis using s(1,3) s' Some r by (simp add: coded_session_def cd_moved_def)
  qed
qed

end

section \<open>What reads do not touch\<close>

text \<open>
  Only \<open>ReadTag\<close> and \<open>ExpectAtEnd\<close> set \<open>legitimate_message_end_\<close>: the other reads keep it, whatever they return.
\<close>

definition keeps_end :: "('r \<times> 's coded_input) option \<Rightarrow> 's coded_input \<Rightarrow> bool" where
  "keeps_end f s \<longleftrightarrow> (\<forall>r s'. f = Some (r, s') \<longrightarrow> cd_legitimate_message_end s' = cd_legitimate_message_end s)"

lemma keeps_end_Some [simp]: "keeps_end (Some (r, s')) s \<longleftrightarrow> cd_legitimate_message_end s' = cd_legitimate_message_end s"
  and keeps_end_None [simp]: "keeps_end None s"
  by (simp_all add: keeps_end_def)

lemma keeps_end_bind:
  assumes "keeps_end f s"
    and "\<And>r s'. f = Some (r, s') \<Longrightarrow> cd_legitimate_message_end s' = cd_legitimate_message_end s \<Longrightarrow> keeps_end (g (r, s')) s'"
  shows "keeps_end (f \<bind> g) s"
proof (cases f)
  case (Some p)
  obtain r s' where p: "p = (r, s')" by (cases p)
  have "cd_legitimate_message_end s' = cd_legitimate_message_end s" using assms(1) Some p by simp
  then show ?thesis using assms(2) [OF Some [unfolded p]] Some p by (simp add: keeps_end_def)
qed simp

lemma keeps_end_trans: "keeps_end f s' \<Longrightarrow> cd_legitimate_message_end s' = cd_legitimate_message_end s \<Longrightarrow> keeps_end f s"
  by (simp add: keeps_end_def)

lemma advance_end [simp]: "cd_legitimate_message_end (cd_Advance n s) = cd_legitimate_message_end s"
  by (simp add: cd_Advance_def)

lemma Refresh_end: "keeps_end (Refresh zs s) s"
proof (cases "cd_buffer_size_after_limit s > 0 \<or> cd_overflow_bytes s > 0 \<or> cd_total_bytes_read s = cd_current_limit s")
  case True
  then show ?thesis unfolding Refresh_def if_P [OF True] by simp
next
  case False
  define t where "t = (if cd_total_bytes_warning_threshold s \<ge> 0 \<and> cd_total_bytes_read s \<ge> cd_total_bytes_warning_threshold s
        then s\<lparr>cd_total_bytes_warning_threshold := - 2\<rparr> else s)"
  have t: "cd_legitimate_message_end t = cd_legitimate_message_end s" by (simp add: t_def)
  show ?thesis
  proof (cases "cd_input t")
    case (Some i)
    show ?thesis
    proof (cases "NextNonEmpty zs i")
      case (Some p)
      obtain b j where "p = (b, j)" by (cases p)
      then show ?thesis
        using t \<open>cd_input t = Some i\<close> Some unfolding Refresh_def if_not_P [OF False] Let_def t_def [symmetric]
        by (cases b) simp_all
    qed (use \<open>cd_input t = Some i\<close> in \<open>simp add: Refresh_def if_not_P [OF False] Let_def flip: t_def\<close>)
  qed (simp add: Refresh_def if_not_P [OF False] Let_def flip: t_def)
qed

lemma ReadRaw_end: "ReadRaw zs n s = Some r \<Longrightarrow> cd_legitimate_message_end (snd (snd r)) = cd_legitimate_message_end s"
proof (induction rule: ReadRaw.raw_induct [rotated, consumes 1, case_names step])
  case (step read zs n s r)
  show ?case
  proof (cases "cd_size s < n")
    case True
    then obtain a ok s' where a: "mem_read 0 (nat (cd_size s)) (cd_bytes s) = Some a"
      "Refresh zs (cd_Advance (cd_size s) s) = Some (ok, s')"
      "(if \<not> ok then Some (False, a, s') else do { (ok, b, s') \<leftarrow> read zs (n - cd_size s) s'; Some (ok, a @ b, s') }) = Some r"
      using step(2) by (auto simp: bind_eq_Some_conv)
    have s': "cd_legitimate_message_end s' = cd_legitimate_message_end s"
      using Refresh_end [of zs "cd_Advance (cd_size s) s"] a(2) by (simp add: keeps_end_def)
    show ?thesis
    proof (cases ok)
      case True
      then obtain q where "read zs (n - cd_size s) s' = Some q" "snd (snd r) = snd (snd q)"
        using a(3) by (auto simp: bind_eq_Some_conv)
      then show ?thesis using step(1) s' by fastforce
    qed (use a(3) s' in auto)
  next
    case False
    then show ?thesis using step(2) by (auto simp: bind_eq_Some_conv split: if_splits)
  qed
qed

lemma refill_end: "keeps_end (refill zs s) s"
proof -
  have "refill zs s = Some r \<Longrightarrow> cd_legitimate_message_end (snd r) = cd_legitimate_message_end s" for r
  proof (induction rule: refill.raw_induct [rotated, consumes 1, case_names step])
    case (step fill zs s r)
    show ?case
    proof (cases "cd_size s = 0")
      case True
      then obtain ok s' where a: "Refresh zs s = Some (ok, s')" "(if \<not> ok then Some (False, s') else fill zs s') = Some r"
        using step(2) by (auto simp: bind_eq_Some_conv)
      have "cd_legitimate_message_end s' = cd_legitimate_message_end s"
        using Refresh_end [of zs s] a(1) by (simp add: keeps_end_def)
      then show ?thesis using step(1) [of zs s' r] a(2) by (cases ok) auto
    qed (use step(2) in auto)
  qed
  from this show ?thesis by (fastforce simp: keeps_end_def)
qed

lemma varint64_slow_end: "keeps_end (varint64_slow zs n result s) s" for s :: "'a coded_input"
proof (induction n arbitrary: result s)
  case (Suc n)
  show ?case unfolding varint64_slow.simps
  proof (rule keeps_end_bind [OF refill_end])
    fix ok
    show "keeps_end (case (ok, s') of (ok, s) \<Rightarrow> if \<not> ok then Some (None, s) else do {
        b \<leftarrow> mem_get 0 (cd_bytes s);
        let result = result OR push_bit (7 * (kMaxVarintBytes - Suc n)) (ucast (b AND 0x7F)); s = cd_Advance 1 s in
        (if b AND 0x80 = 0 then Some (Some result, s) else varint64_slow zs n result s) }) s'" for s' :: "'a coded_input"
      by (cases "mem_get 0 (cd_bytes s')") (simp_all add: Let_def keeps_end_trans [OF Suc.IH])
  qed
qed simp

lemma varint_end:
  "keeps_end (ReadVarint64Fallback zs s) s" "keeps_end (ReadVarint32Fallback zs s) s"
  "keeps_end (ReadVarint64 zs s) s" "keeps_end (ReadVarint32 zs s) s"
proof -
  show a: "keeps_end (ReadVarint64Fallback zs s) s" for s
    by (cases "varint_fits s"; cases "ReadVarint64FromArray (cd_bytes s) 0")
      (simp_all add: ReadVarint64Fallback_def ReadVarint64Slow_def varint64_slow_end split: option.splits)
  show b: "keeps_end (ReadVarint32Fallback zs s) s" for s
  proof (cases "varint_fits s = Some False")
    case True
    then show ?thesis
      by (auto simp: ReadVarint32Fallback_def ReadVarint32Slow_def intro: keeps_end_bind [OF a])
  next
    case False
    then show ?thesis
      by (cases "varint_fits s"; cases "ReadVarint32FromArray (cd_bytes s) 0") (simp_all add: ReadVarint32Fallback_def split: option.splits)
  qed
  show "keeps_end (ReadVarint64 zs s) s" "keeps_end (ReadVarint32 zs s) s"
    by (cases "mem_get 0 (cd_bytes s)"; simp add: ReadVarint64_def ReadVarint32_def a b)+
qed

lemma ReadRaw_read_end: "ReadRaw zs n s = Some (ok, bs, s') \<Longrightarrow> cd_legitimate_message_end s' = cd_legitimate_message_end s"
  using ReadRaw_end [of zs n s "(ok, bs, s')"] by simp

lemma ReadLittleEndian_end: "keeps_end (ReadLittleEndian32 zs s) s" "keeps_end (ReadLittleEndian64 zs s) s"
  by (auto simp: keeps_end_def ReadLittleEndian32_def ReadLittleEndian32Fallback_def ReadLittleEndian64_def
      ReadLittleEndian64Fallback_def bind_eq_Some_conv dest: ReadRaw_read_end split: if_splits)

lemma ReadString_end: "ReadString zs buffer n s = Some (ok, bs, s') \<Longrightarrow> cd_legitimate_message_end s' = cd_legitimate_message_end s"
  by (auto simp: ReadString_def ReadStringFallback_def bind_eq_Some_conv dest: ReadRaw_read_end split: if_splits)

lemma Skip_end: "keeps_end (CodedInputStream_Skip zs n s) s"
  unfolding keeps_end_def CodedInputStream_Skip_def Let_def
  by (auto simp: bind_eq_Some_conv split: if_splits)

lemma ReadTag_end:
  assumes "ReadTag zs s = Some (tag, s')" and "tag \<noteq> 0"
  shows "cd_legitimate_message_end s' = cd_legitimate_message_end s"
proof -
  have slow: "cd_legitimate_message_end s' = cd_legitimate_message_end s" if r: "ReadTagSlow zs s = Some (tag, s')" for s'
  proof -
    obtain ok s1 where a: "(if cd_size s = 0 then Refresh zs s else Some (True, s)) = Some (ok, s1)"
      using r by (auto simp: ReadTagSlow_def bind_eq_Some_conv)
    have s1: "cd_legitimate_message_end s1 = cd_legitimate_message_end s"
      using a Refresh_end [of zs s] by (auto simp: keeps_end_def split: if_splits)
    have ok using r a assms(2) by (cases ok) (simp_all add: ReadTagSlow_def Let_def)
    then show ?thesis
      using r a s1 varint_end(3) [of zs s1] by (auto simp: ReadTagSlow_def keeps_end_def bind_eq_Some_conv)
  qed
  have fallback: "cd_legitimate_message_end s' = cd_legitimate_message_end s" if r: "ReadTagFallback zs s = Some (tag, s')" for s'
  proof -
    obtain fits where f: "varint_fits s = Some fits" using r by (auto simp: ReadTagFallback_def bind_eq_Some_conv)
    show ?thesis
    proof (cases fits)
      case True
      then show ?thesis
        using r f by (auto simp: ReadTagFallback_def bind_eq_Some_conv split: option.splits)
    next
      case False
      then show ?thesis using r f slow assms(2) by (auto simp: ReadTagFallback_def Let_def split: if_splits)
    qed
  qed
  obtain first where f: "(if cd_size s > 0 then map_option Some (mem_get 0 (cd_bytes s)) else Some None) = Some first"
    using assms(1) by (auto simp: ReadTag_def bind_eq_Some_conv)
  show ?thesis
    using assms(1) f fallback by (cases first) (auto simp: ReadTag_def bind_eq_Some_conv split: if_splits)
qed

text \<open>In front of the end no tag sets it, not even a zero tag or a malformed one.\<close>

context input_contract
begin

lemma ReadTagFallback_before_end:
  assumes "cd_inv good pending last_block s" and "cd_visible pending s \<noteq> []" and r: "ReadTagFallback zs s = Some (tag, s')"
  shows "cd_legitimate_message_end s' = cd_legitimate_message_end s"
proof -
  have slow: "cd_legitimate_message_end s' = cd_legitimate_message_end s" if r: "ReadTagSlow zs s = Some (tag, s')" for s'
  proof -
    obtain s1 where a: "(if cd_size s = 0 then Refresh zs s else Some (True, s)) = Some (True, s1)"
      "cd_legitimate_message_end s1 = cd_legitimate_message_end s"
    proof (cases "cd_size s = 0")
      case True
      then show ?thesis using that Refresh_law [OF assms(1) True] assms(2) by (auto split: if_splits)
    qed simp
    then show ?thesis
      using r varint_end(3) [of zs s1] by (auto simp: ReadTagSlow_def keeps_end_def bind_eq_Some_conv)
  qed
  have c: "\<not> (cd_size s = 0 \<and> (cd_buffer_size_after_limit s > 0 \<or> cd_total_bytes_read s = cd_current_limit s))"
    using assms(1,2) by (auto simp: visible_eq [OF assms(1)] cd_inv_def closest_limit_def)
  obtain fits where f: "varint_fits s = Some fits" using r by (auto simp: ReadTagFallback_def bind_eq_Some_conv)
  show ?thesis
  proof (cases fits)
    case True
    then show ?thesis using r f by (auto simp: ReadTagFallback_def bind_eq_Some_conv split: option.splits)
  next
    case False
    then have "ReadTagFallback zs s = ReadTagSlow zs s" using f c by (auto simp: ReadTagFallback_def)
    then show ?thesis using r slow by simp
  qed
qed

lemma ReadTag_before_end:
  assumes "cd_inv good pending last_block s" and "cd_visible pending s \<noteq> []" and "ReadTag zs s = Some (tag, s')"
  shows "cd_legitimate_message_end s' = cd_legitimate_message_end s"
proof -
  note fallback = ReadTagFallback_before_end [OF assms(1,2)]
  obtain first where f: "(if cd_size s > 0 then map_option Some (mem_get 0 (cd_bytes s)) else Some None) = Some first"
    using assms(3) by (auto simp: ReadTag_def bind_eq_Some_conv)
  show ?thesis
    using assms(3) f by (cases first) (auto simp: ReadTag_def bind_eq_Some_conv dest: fallback split: if_splits)
qed

end

section \<open>Tags with a cutoff\<close>

text \<open>
  Generated parsers read a tag and whether it is at most the largest of their tags. The second part says nothing when the
  tag is 0.
\<close>

definition ReadTagWithCutoff :: "'s zero_copy_input \<Rightarrow> uint32 \<Rightarrow> 's coded_input \<Rightarrow> (uint32 \<times> bool \<times> 's coded_input) option" where
  "ReadTagWithCutoff zs cutoff s =
     (let slow = do {
        (tag, s) \<leftarrow> ReadTagFallback zs s;
        Some (tag, tag - 1 < cutoff, s\<lparr>cd_last_tag := tag\<rparr>) } in
      if cd_size s > 0 then do {
        b0 \<leftarrow> mem_get 0 (cd_bytes s);
        (if sint b0 > 0 then
           let tag = ucast b0 in
           Some (tag, cutoff \<ge> 0x7F \<or> tag \<le> cutoff, cd_Advance 1 (s\<lparr>cd_last_tag := tag\<rparr>))
         else if cutoff \<ge> 0x80 \<and> cd_size s > 1 then do {
           b1 \<leftarrow> mem_get 1 (cd_bytes s);
           (if b0 AND NOT b1 \<ge> 0x80 then
              let tag = 128 * ucast b1 + (ucast b0 - 0x80) in
              Some (tag, cutoff \<ge> 0x3FFF \<or> tag \<le> cutoff, cd_Advance 2 (s\<lparr>cd_last_tag := tag\<rparr>))
            else slow) }
         else slow) }
      else slow)"

lemma first_varint_two:
  "\<not> last7 a \<Longrightarrow> last7 b \<Longrightarrow> first_varint (a # b # bs) = Some (lo7 a + 128 * lo7 b, 2)"
proof -
  assume a: "\<not> last7 a" and b: "last7 b"
  have "read_varint 10 (a # b # bs) = varint_step a (varint_step b (read_varint 8 bs))"
    using read_varint_steps(1,2) [of "a # b # bs"] by (simp add: mem_get_def)
  then show ?thesis using a b by (simp add: first_varint_def kMaxVarintBytes_def varint_step_def)
qed

lemma last7_bit: "last7 b \<longleftrightarrow> \<not> bit b 7"
  using cont_bit [of b] and_exp_eq_0_iff_not_bit [of b 7] by simp

lemma sint_pos_byte: "0 < sint b \<longleftrightarrow> b \<noteq> 0 \<and> last7 b" for b :: byte
proof -
  have "sint b < 0 \<longleftrightarrow> bit b 7" using bit_last_iff [of b] by simp
  moreover have "sint b = 0 \<longleftrightarrow> b = 0" by (simp add: signed_eq_0_iff)
  ultimately show ?thesis unfolding last7_bit by linarith
qed

lemma two_byte_test: "0x80 \<le> b0 AND NOT b1 \<longleftrightarrow> \<not> last7 b0 \<and> last7 b1" for b0 b1 :: byte
proof -
  have "0x80 \<le> x \<longleftrightarrow> bit x 7" for x :: byte
    using last7_bit [of x] by (auto simp: last7_def word_le_nat_alt)
  then show ?thesis by (simp add: last7_bit bit_simps)
qed

context input_contract
begin

lemma ReadTagWithCutoff_law:
  assumes "cd_inv good pending last_block s"
  shows "\<exists>below s' k. ReadTagWithCutoff zs cutoff s = Some (tag_of (first_varint (cd_visible pending s)), below, s') \<and>
    LastTagWas (tag_of (first_varint (cd_visible pending s))) s' \<and> cd_moved good pending last_block k s s' \<and>
    (case first_varint (cd_visible pending s) of Some (v, j) \<Rightarrow> k = j | None \<Rightarrow> True) \<and>
    (if cd_visible pending s = []
     then k = 0 \<and> (ConsumedEntireMessage s \<or>
       ConsumedEntireMessage s' = (CurrentPosition s < cd_total_bytes_limit s \<or> cd_current_limit s = cd_total_bytes_limit s))
     else ConsumedEntireMessage s' = ConsumedEntireMessage s) \<and>
    (tag_of (first_varint (cd_visible pending s)) \<noteq> 0 \<longrightarrow> below = (tag_of (first_varint (cd_visible pending s)) \<le> cutoff))"
proof -
  define t where "t = tag_of (first_varint (cd_visible pending s))"
  have less: "t - 1 < cutoff \<longleftrightarrow> t \<le> cutoff" if "t \<noteq> 0" for t :: uint32
  proof -
    have "0 < unat t" using that by (simp add: unat_gt_0)
    then show ?thesis using unat_minus_one [OF that] by (simp add: word_less_nat_alt word_le_nat_alt) linarith
  qed
  have slow: ?thesis
    if "ReadTagWithCutoff zs cutoff s = do { (tag, s) \<leftarrow> ReadTagFallback zs s; Some (tag, tag - 1 < cutoff, s\<lparr>cd_last_tag := tag\<rparr>) }"
  proof -
    obtain s1 k where s1: "ReadTagFallback zs s = Some (t, s1)" "cd_moved good pending last_block k s s1"
      "case first_varint (cd_visible pending s) of Some (v, j) \<Rightarrow> k = j | None \<Rightarrow> True"
      "if cd_visible pending s = []
       then k = 0 \<and> (cd_legitimate_message_end s \<or>
         cd_legitimate_message_end s1 = (CurrentPosition s < cd_total_bytes_limit s \<or> cd_current_limit s = cd_total_bytes_limit s))
       else True"
      using ReadTagFallback_law [OF assms] unfolding t_def by blast
    have f: "cd_visible pending s \<noteq> [] \<Longrightarrow> cd_legitimate_message_end s1 = cd_legitimate_message_end s"
      using ReadTagFallback_before_end [OF assms _ s1(1)] .
    show ?thesis
      using that s1 f moved_update(1) [OF s1(2), of t] less [of t] unfolding t_def [symmetric]
      by (intro exI [of _ "t - 1 < cutoff"] exI [of _ "s1\<lparr>cd_last_tag := t\<rparr>"] exI [of _ k])
        (simp add: LastTagWas_def ConsumedEntireMessage_def)
  qed
  have fast: ?thesis
    if r: "ReadTagWithCutoff zs cutoff s = Some (t, below, cd_Advance (int k) (s\<lparr>cd_last_tag := t\<rparr>))" and "int k \<le> cd_size s"
      and v: "first_varint (cd_visible pending s) = Some (v, k)" and b: "below = (t \<le> cutoff)" for below k v
  proof -
    let ?s = "cd_Advance (int k) (s\<lparr>cd_last_tag := t\<rparr>)"
    have e: "?s = (cd_Advance (int k) s)\<lparr>cd_last_tag := t\<rparr>" by (simp add: cd_Advance_def)
    have "cd_moved good pending last_block k s ?s"
      unfolding e by (rule moved_update(1)) (use advance_moved [OF assms, of k] that(2) in simp)
    moreover have "cd_visible pending s \<noteq> []" using v by auto
    ultimately show ?thesis
      using r v b unfolding t_def [symmetric]
      by (intro exI [of _ below] exI [of _ ?s] exI [of _ k]) (simp add: LastTagWas_def ConsumedEntireMessage_def cd_Advance_def)
  qed
  show ?thesis
  proof (cases "0 < cd_size s")
    case False
    then show ?thesis by (intro slow) (simp add: ReadTagWithCutoff_def)
  next
    case True
    obtain b0 bs where b0: "mem_get 0 (cd_bytes s) = Some b0" "cd_visible pending s = b0 # bs"
      using visible_head [OF assms True] .
    show ?thesis
    proof (cases "b0 \<noteq> 0 \<and> last7 b0")
      case one: True
      then have v: "first_varint (cd_visible pending s) = Some (unat b0, 1)"
        using b0(2) by (simp add: first_varint_Cons last7_def)
      then have t: "t = ucast b0" by (simp add: t_def tag_of_def)
      have "unat b0 < 128" using one by (simp add: last7_def)
      then have le: "cutoff \<ge> 0x7F \<or> t \<le> cutoff \<longleftrightarrow> t \<le> cutoff"
        by (auto simp: t word_le_nat_alt unsigned_ucast_eq take_bit_nat_eq_self)
      show ?thesis
        using True b0(1) one by (intro fast [OF _ _ v, of "t \<le> cutoff"]) (simp_all add: ReadTagWithCutoff_def sint_pos_byte Let_def le flip: t)
    next
      case not_one: False
      show ?thesis
      proof (cases "cutoff \<ge> 0x80 \<and> 1 < cd_size s \<and> (\<exists>b1 cs. mem_get 1 (cd_bytes s) = Some b1 \<and> bs = b1 # cs \<and> \<not> last7 b0 \<and> last7 b1)")
        case False
        show ?thesis
        proof (rule slow, cases "cutoff \<ge> 0x80 \<and> 1 < cd_size s")
          case c: True
          have "2 \<le> length (cd_bytes s)" "2 \<le> length (cd_visible pending s)" "take 2 (cd_bytes s) = take 2 (cd_visible pending s)"
            using size_le_visible(1,2) [OF assms] size_le_visible(3) [OF assms, of 2] c by linarith+
          then obtain b1 cs where b1: "mem_get 1 (cd_bytes s) = Some b1" "bs = b1 # cs"
            using b0 by (cases "cd_bytes s"; cases "tl (cd_bytes s)"; cases bs) (auto simp: mem_get_def)
          then have "\<not> (\<not> last7 b0 \<and> last7 b1)" using False c by auto
          then show "ReadTagWithCutoff zs cutoff s = do { (tag, s) \<leftarrow> ReadTagFallback zs s; Some (tag, tag - 1 < cutoff, s\<lparr>cd_last_tag := tag\<rparr>) }"
            using True b0(1) b1(1) not_one c by (auto simp: ReadTagWithCutoff_def sint_pos_byte two_byte_test Let_def)
        next
          case c: False
          then show "ReadTagWithCutoff zs cutoff s = do { (tag, s) \<leftarrow> ReadTagFallback zs s; Some (tag, tag - 1 < cutoff, s\<lparr>cd_last_tag := tag\<rparr>) }"
            using True b0(1) not_one by (auto simp: ReadTagWithCutoff_def sint_pos_byte Let_def)
        qed
      next
        case two: True
        then obtain b1 cs where b1: "mem_get 1 (cd_bytes s) = Some b1" "bs = b1 # cs" "\<not> last7 b0" "last7 b1" by auto
        have v: "first_varint (cd_visible pending s) = Some (lo7 b0 + 128 * lo7 b1, 2)"
          using b0(2) b1 by (simp add: first_varint_two)
        have "(ucast b1 :: uint32) = of_nat (lo7 b1)" using b1(4) by (simp add: lo7_def last7_def)
        then have t: "t = 128 * ucast b1 + (ucast b0 - 0x80)"
          using v digits_word(1) [OF b1(3), where ?'a = 32] by (simp add: t_def tag_of_def add.commute)
        have "unat t = lo7 b0 + 128 * lo7 b1"
          unfolding t_def v tag_of_def option.case prod.case unat_of_nat
          using lo7_less [of b0] lo7_less [of b1] by simp
        then have le: "cutoff \<ge> 0x3FFF \<or> t \<le> cutoff \<longleftrightarrow> t \<le> cutoff"
          using lo7_less [of b0] lo7_less [of b1] by (auto simp: word_le_nat_alt)
        show ?thesis
          using True b0(1) b1 not_one two
          by (intro fast [OF _ _ v, of "t \<le> cutoff"]) (simp_all add: ReadTagWithCutoff_def sint_pos_byte two_byte_test Let_def le flip: t)
      qed
    qed
  qed
qed

end

section \<open>Properties\<close>

lemma array_inv_new: "array_inv (ArrayInputStream bs (int (length bs)) n)"
  by (simp add: ArrayInputStream_def array_inv_def)

lemma array_pending_new: "array_pending (ArrayInputStream bs (int (length bs)) n) = bs"
  by (simp add: ArrayInputStream_def array_pending_def)



text \<open>
  At the end of the visible bytes \<open>ReadTag\<close> returns 0, and \<open>ConsumedEntireMessage\<close> tells apart the ends: it is
  true at the limit of the message and at the end of the data, and false where the limit on the total number of bytes cut
  the message short.
\<close>

theorem ReadTag_tells_the_end:
  assumes "input_contract zs good pending last_block" and "cd_inv good pending last_block s"
    and "cd_visible pending s = []" and "\<not> ConsumedEntireMessage s"
  shows "\<exists>s'. ReadTag zs s = Some (0, s') \<and> LastTagWas 0 s' \<and> cd_inv good pending last_block s' \<and>
    ConsumedEntireMessage s' = (CurrentPosition s < cd_total_bytes_limit s \<or> cd_current_limit s = cd_total_bytes_limit s)"
  using input_contract.ReadTag_law [OF assms(1,2)] assms(3,4) by (auto simp: tag_of_def cd_moved_def)

theorem ReadTag_tells_the_end_witness:
  "\<exists>s'. ReadTag array_input_stream (CodedInputStream_flat [] 0) = Some (0, s') \<and> LastTagWas 0 s' \<and>
     cd_inv array_inv array_pending array_last s' \<and> ConsumedEntireMessage s'"
proof -
  let ?s = "CodedInputStream_flat [] 0 :: array_input coded_input"
  have i: "cd_inv array_inv array_pending array_last ?s"
    by (simp add: cd_inv_def CodedInputStream_flat_def CurrentPosition_def closest_limit_def kDefaultTotalBytesLimit_def INT_MAX_def)
  have "cd_visible array_pending ?s = []" "\<not> ConsumedEntireMessage ?s" "CurrentPosition ?s < cd_total_bytes_limit ?s"
    by (simp_all add: cd_visible_def cd_rest_def cd_pending_def CodedInputStream_flat_def ConsumedEntireMessage_def
        CurrentPosition_def kDefaultTotalBytesLimit_def)
  then show ?thesis
    using ReadTag_tells_the_end [OF array_in.input_contract_axioms i] by auto
qed



text \<open>
  C34. The limits may be set to anything: \<open>PushLimit\<close> with any size, \<open>PopLimit\<close> back to what it was, and
  \<open>SetTotalBytesLimit\<close> keep the class invariant and the position, and none of them loses a byte.
\<close>

theorem limits_keep_invariant:
  assumes "cd_inv good pending last_block s" and "t \<le> INT_MAX"
  shows "cd_inv good pending last_block (snd (PushLimit n s)) \<and>
    cd_inv good pending last_block (PopLimit (fst (PushLimit n s)) (snd (PushLimit n s))) \<and>
    cd_inv good pending last_block (SetTotalBytesLimit t w s) \<and>
    cd_visible pending (PopLimit (fst (PushLimit n s)) (snd (PushLimit n s))) = cd_visible pending s \<and>
    cd_rest pending (snd (PushLimit n s)) = cd_rest pending s \<and>
    cd_rest pending (SetTotalBytesLimit t w s) = cd_rest pending s \<and>
    CurrentPosition (snd (PushLimit n s)) = CurrentPosition s \<and>
    CurrentPosition (SetTotalBytesLimit t w s) = CurrentPosition s"
  using PushLimit_any [OF assms(1), of n] SetTotalBytesLimit_law [OF assms, of w] PushLimit_PopLimit [OF assms(1), of n]
  by simp

theorem limits_keep_invariant_witness:
  "cd_inv array_inv array_pending array_last (snd (PushLimit 1 (CodedInputStream_flat [1, 2] 2))) \<and>
   cd_inv array_inv array_pending array_last (SetTotalBytesLimit 0 (- 1) (CodedInputStream_flat [1, 2] 2))"
proof -
  have i: "cd_inv array_inv array_pending array_last (CodedInputStream_flat [1, 2] 2)"
    by (simp add: cd_inv_def CodedInputStream_flat_def CurrentPosition_def closest_limit_def kDefaultTotalBytesLimit_def INT_MAX_def)
  show ?thesis using limits_keep_invariant [OF i, of 0 1 "- 1"] by (simp add: INT_MAX_def)
qed

end
