(* ===== verification/CopyingInput.thy ===== *)
theory CopyingInput
  imports ZeroCopyInput
begin

text \<open>
  Streams that copy into a buffer of the caller, and the adaptor that makes a \<open>ZeroCopyInputStream\<close> of them
  (\<open>CopyingInputStream\<close>, \<open>CopyingInputStreamAdaptor\<close> in io/zero_copy_stream_impl_lite.cc; \<open>FileInputStream\<close> and
  \<open>IstreamInputStream\<close> in io/zero_copy_stream_impl.cc). The contract of a copying stream is a locale; the
  adaptor is proved to keep the contract of zero-copy streams for any copying stream in it, and the two
  sources of the library, file descriptors and C++ input streams, are shown to be such copying streams.
\<close>

section \<open>The interface\<close>

text \<open>\<open>Read\<close> gives its result and the bytes it has stored at the start of the caller's buffer.\<close>

record 'c copying_input =
  cp_Read :: "int \<Rightarrow> 'c \<Rightarrow> (int \<times> byte list \<times> 'c) option"
  cp_Skip :: "int \<Rightarrow> 'c \<Rightarrow> (int \<times> 'c) option"

text \<open>\<open>CopyingInputStream::Skip\<close>, the default implementation, reads into an array of 4096 bytes.\<close>

function copying_skip ::
  "(int \<Rightarrow> 'c \<Rightarrow> (int \<times> byte list \<times> 'c) option) \<Rightarrow> int \<Rightarrow> int \<Rightarrow> 'c \<Rightarrow> (int \<times> 'c) option" where
  "copying_skip read count skipped c =
     (if skipped < count then do {
        (bytes, junk, c) \<leftarrow> read (min (count - skipped) 4096) c;
        (if bytes \<le> 0 then Some (skipped, c) else copying_skip read count (skipped + bytes) c) }
      else Some (skipped, c))"
  by pat_completeness auto
termination
  by (relation "measure (\<lambda>(read, count, skipped, c). nat (count - skipped))") auto

declare copying_skip.simps [simp del]

definition CopyingInputStream_Skip ::
  "(int \<Rightarrow> 'c \<Rightarrow> (int \<times> byte list \<times> 'c) option) \<Rightarrow> int \<Rightarrow> 'c \<Rightarrow> (int \<times> 'c) option" where
  "CopyingInputStream_Skip read count c = copying_skip read count 0 c"

text \<open>
  The contract: \<open>remaining\<close> is what the source will still deliver before its end or its first error. All errors
  are permanent.
\<close>

locale copying_reader =
  fixes cread :: "int \<Rightarrow> 'c \<Rightarrow> (int \<times> byte list \<times> 'c) option"
    and cgood :: "'c \<Rightarrow> bool"
    and remaining :: "'c \<Rightarrow> byte list"
  assumes read_law: "cgood c \<Longrightarrow> 0 < n \<Longrightarrow> \<exists>r bs c'. cread n c = Some (r, bs, c') \<and> cgood c' \<and> r \<le> n \<and>
      (if 0 < r then r = int (length bs) \<and> remaining c = bs @ remaining c'
       else bs = [] \<and> remaining c = [] \<and> remaining c' = [])"
begin

lemma default_skip:
  assumes "cgood c" and "0 \<le> s" and "s \<le> n"
  shows "\<exists>c'. copying_skip cread n s c = Some (s + int (min (nat (n - s)) (length (remaining c))), c') \<and>
    cgood c' \<and> remaining c' = drop (nat (n - s)) (remaining c)"
  using assms
proof (induction "nat (n - s)" arbitrary: s c rule: less_induct)
  case less
  show ?case
  proof (cases "s < n")
    case False
    then show ?thesis using less.prems by (simp add: copying_skip.simps)
  next
    case True
    then have "0 < min (n - s) 4096" by simp
    from read_law [OF less.prems(1) this] obtain r bs c1 where r: "cread (min (n - s) 4096) c = Some (r, bs, c1)" "cgood c1"
      "r \<le> min (n - s) 4096"
      "if 0 < r then r = int (length bs) \<and> remaining c = bs @ remaining c1 else bs = [] \<and> remaining c = [] \<and> remaining c1 = []"
      by blast
    show ?thesis
    proof (cases "0 < r")
      case False
      then show ?thesis using r True by (simp add: copying_skip.simps [of _ _ s])
    next
      case pos: True
      then have l: "r = int (length bs)" "remaining c = bs @ remaining c1" "nat (n - s) = length bs + nat (n - (s + r))"
        using r(3,4) by auto
      obtain c' where "copying_skip cread n (s + r) c1 = Some (s + r + int (min (nat (n - (s + r))) (length (remaining c1))), c')"
        "cgood c'" "remaining c' = drop (nat (n - (s + r))) (remaining c1)"
        using less.hyps [of "s + r" c1] pos r(2,3) True less.prems(2) by auto
      then show ?thesis
        using r(1) pos True l by (simp add: copying_skip.simps [of _ _ s])
    qed
  qed
qed

end

locale copying_contract = copying_reader "cp_Read cs" cgood remaining
  for cs :: "'c copying_input" and cgood :: "'c \<Rightarrow> bool" and remaining :: "'c \<Rightarrow> byte list" +
  assumes skip_law: "cgood c \<Longrightarrow> 0 \<le> n \<Longrightarrow>
    \<exists>c'. cp_Skip cs n c = Some (int (min (nat n) (length (remaining c))), c') \<and> cgood c' \<and>
      remaining c' = drop (nat n) (remaining c)"

section \<open>The adaptor\<close>

record 'c copying_adaptor =
  ca_copying_stream :: 'c
  ca_failed :: bool
  ca_position :: int
  ca_buffer :: "byte list option"
  ca_buffer_size :: int
  ca_buffer_used :: int
  ca_backup_bytes :: int

definition kDefaultBlockSize :: int where
  "kDefaultBlockSize = 8192"

definition CopyingInputStreamAdaptor :: "'c \<Rightarrow> int \<Rightarrow> 'c copying_adaptor" where
  "CopyingInputStreamAdaptor copying_stream block_size =
     \<lparr>ca_copying_stream = copying_stream, ca_failed = False, ca_position = 0, ca_buffer = None,
      ca_buffer_size = (if block_size > 0 then block_size else kDefaultBlockSize), ca_buffer_used = 0, ca_backup_bytes = 0\<rparr>"

text \<open>The bytes of a new array are not set; no byte of it is handed out before it has been.\<close>

definition ca_AllocateBufferIfNeeded :: "'c copying_adaptor \<Rightarrow> 'c copying_adaptor" where
  "ca_AllocateBufferIfNeeded s =
     (case ca_buffer s of None \<Rightarrow> s\<lparr>ca_buffer := Some (replicate (nat (ca_buffer_size s)) 0)\<rparr> | Some _ \<Rightarrow> s)"

definition ca_FreeBuffer :: "'c copying_adaptor \<Rightarrow> 'c copying_adaptor option" where
  "ca_FreeBuffer s =
     (if \<not> ca_backup_bytes s = 0 then None else Some (s\<lparr>ca_buffer_used := 0, ca_buffer := None\<rparr>))"

definition CopyingInputStreamAdaptor_Next ::
  "'c copying_input \<Rightarrow> 'c copying_adaptor \<Rightarrow> (byte list option \<times> 'c copying_adaptor) option" where
  "CopyingInputStreamAdaptor_Next cs s =
     (if ca_failed s then Some (None, s)
      else let s = ca_AllocateBufferIfNeeded s in do {
        buffer \<leftarrow> ca_buffer s;
        (if ca_backup_bytes s > 0 then do {
           b \<leftarrow> mem_read (nat (ca_buffer_used s - ca_backup_bytes s)) (nat (ca_backup_bytes s)) buffer;
           Some (Some b, s\<lparr>ca_backup_bytes := 0\<rparr>) }
         else do {
           (r, bs, c) \<leftarrow> cp_Read cs (ca_buffer_size s) (ca_copying_stream s);
           buffer \<leftarrow> mem_write 0 bs buffer;
           let s = s\<lparr>ca_copying_stream := c, ca_buffer := Some buffer, ca_buffer_used := r\<rparr> in
           (if ca_buffer_used s \<le> 0 then
              let s = (if ca_buffer_used s < 0 then s\<lparr>ca_failed := True\<rparr> else s) in do {
              s \<leftarrow> ca_FreeBuffer s;
              Some (None, s) }
            else
              let s = s\<lparr>ca_position := ca_position s + ca_buffer_used s\<rparr> in do {
              b \<leftarrow> mem_read 0 (nat (ca_buffer_used s)) buffer;
              Some (Some b, s) }) }) })"

definition CopyingInputStreamAdaptor_BackUp :: "int \<Rightarrow> 'c copying_adaptor \<Rightarrow> 'c copying_adaptor option" where
  "CopyingInputStreamAdaptor_BackUp count s =
     (if \<not> (ca_backup_bytes s = 0 \<and> ca_buffer s \<noteq> None) then None
      else if \<not> count \<le> ca_buffer_used s then None
      else if \<not> count \<ge> 0 then None
      else Some (s\<lparr>ca_backup_bytes := count\<rparr>))"

definition CopyingInputStreamAdaptor_Skip ::
  "'c copying_input \<Rightarrow> int \<Rightarrow> 'c copying_adaptor \<Rightarrow> (bool \<times> 'c copying_adaptor) option" where
  "CopyingInputStreamAdaptor_Skip cs count s =
     (if \<not> count \<ge> 0 then None
      else if ca_failed s then Some (False, s)
      else if ca_backup_bytes s \<ge> count then Some (True, s\<lparr>ca_backup_bytes := ca_backup_bytes s - count\<rparr>)
      else let count = count - ca_backup_bytes s; s = s\<lparr>ca_backup_bytes := 0\<rparr> in do {
        (skipped, c) \<leftarrow> cp_Skip cs count (ca_copying_stream s);
        Some (skipped = count, s\<lparr>ca_copying_stream := c, ca_position := ca_position s + skipped\<rparr>) })"

definition CopyingInputStreamAdaptor_ByteCount :: "'c copying_adaptor \<Rightarrow> int" where
  "CopyingInputStreamAdaptor_ByteCount s = ca_position s - ca_backup_bytes s"

definition copying_input_stream :: "'c copying_input \<Rightarrow> 'c copying_adaptor zero_copy_input" where
  "copying_input_stream cs = \<lparr>zi_Next = CopyingInputStreamAdaptor_Next cs, zi_BackUp = CopyingInputStreamAdaptor_BackUp,
     zi_Skip = CopyingInputStreamAdaptor_Skip cs, zi_ByteCount = CopyingInputStreamAdaptor_ByteCount\<rparr>"

lemma copying_input_stream_sels [simp]:
  "zi_Next (copying_input_stream cs) = CopyingInputStreamAdaptor_Next cs"
  "zi_BackUp (copying_input_stream cs) = CopyingInputStreamAdaptor_BackUp"
  "zi_Skip (copying_input_stream cs) = CopyingInputStreamAdaptor_Skip cs"
  "zi_ByteCount (copying_input_stream cs) = CopyingInputStreamAdaptor_ByteCount"
  by (simp_all add: copying_input_stream_def)

subsection \<open>The adaptor keeps the contract\<close>

definition adaptor_inv :: "('c \<Rightarrow> bool) \<Rightarrow> ('c \<Rightarrow> byte list) \<Rightarrow> 'c copying_adaptor \<Rightarrow> bool" where
  "adaptor_inv cgood remaining s \<longleftrightarrow> cgood (ca_copying_stream s) \<and> 0 < ca_buffer_size s \<and>
     0 \<le> ca_backup_bytes s \<and> ca_backup_bytes s \<le> ca_buffer_used s \<and> ca_buffer_used s \<le> ca_buffer_size s \<and>
     (case ca_buffer s of None \<Rightarrow> ca_buffer_used s = 0 | Some b \<Rightarrow> length b = nat (ca_buffer_size s)) \<and>
     (ca_failed s \<longrightarrow> remaining (ca_copying_stream s) = [] \<and> ca_buffer s = None)"

definition ca_used :: "'c copying_adaptor \<Rightarrow> byte list" where
  "ca_used s = (case ca_buffer s of None \<Rightarrow> [] | Some b \<Rightarrow> take (nat (ca_buffer_used s)) b)"

text \<open>The last \<open>backup_bytes_\<close> bytes of the used part of the buffer, then the source.\<close>

definition adaptor_pending :: "('c \<Rightarrow> byte list) \<Rightarrow> 'c copying_adaptor \<Rightarrow> byte list" where
  "adaptor_pending remaining s =
     drop (nat (ca_buffer_used s - ca_backup_bytes s)) (ca_used s) @ remaining (ca_copying_stream s)"

definition adaptor_last :: "'c copying_adaptor \<Rightarrow> byte list" where
  "adaptor_last s = (if ca_backup_bytes s = 0 then ca_used s else [])"

lemma adaptor_alloc:
  assumes "adaptor_inv cgood remaining s"
  shows "\<exists>buf. ca_AllocateBufferIfNeeded s = s\<lparr>ca_buffer := Some buf\<rparr> \<and> length buf = nat (ca_buffer_size s) \<and>
    ca_used s = take (nat (ca_buffer_used s)) buf"
proof (cases "ca_buffer s")
  case None
  then show ?thesis
    using assms by (auto simp: ca_AllocateBufferIfNeeded_def adaptor_inv_def ca_used_def)
next
  case (Some buf)
  then have "ca_AllocateBufferIfNeeded s = s\<lparr>ca_buffer := Some buf\<rparr>" by (simp add: ca_AllocateBufferIfNeeded_def)
  then show ?thesis using Some assms by (auto simp: adaptor_inv_def ca_used_def)
qed

lemma length_ca_used: "adaptor_inv cgood remaining s \<Longrightarrow> int (length (ca_used s)) = ca_buffer_used s"
  by (auto simp: adaptor_inv_def ca_used_def min_def nat_le_iff split: option.splits)

lemma ca_used_backup [simp]: "ca_used (s\<lparr>ca_backup_bytes := n\<rparr>) = ca_used s"
  by (simp add: ca_used_def cong: option.case_cong)

context copying_contract
begin

lemma adaptor_next_law:
  assumes "adaptor_inv cgood remaining s"
  shows "\<exists>r s'. CopyingInputStreamAdaptor_Next cs s = Some (r, s') \<and> adaptor_inv cgood remaining s' \<and>
      (case r of
         None \<Rightarrow> adaptor_pending remaining s = [] \<and> adaptor_pending remaining s' = [] \<and>
           CopyingInputStreamAdaptor_ByteCount s' = CopyingInputStreamAdaptor_ByteCount s
       | Some b \<Rightarrow> b \<noteq> [] \<and> adaptor_pending remaining s = b @ adaptor_pending remaining s' \<and>
           suffix b (adaptor_last s') \<and>
           CopyingInputStreamAdaptor_ByteCount s' = CopyingInputStreamAdaptor_ByteCount s + int (length b))"
proof (cases "ca_failed s")
  case True
  moreover from this have "ca_used s = []" "remaining (ca_copying_stream s) = []"
    using assms by (auto simp: adaptor_inv_def ca_used_def)
  ultimately show ?thesis
    using assms by (simp add: CopyingInputStreamAdaptor_Next_def adaptor_pending_def)
next
  case False
  obtain buf where buf: "ca_AllocateBufferIfNeeded s = s\<lparr>ca_buffer := Some buf\<rparr>" "length buf = nat (ca_buffer_size s)"
    "ca_used s = take (nat (ca_buffer_used s)) buf"
    using adaptor_alloc [OF assms] by blast
  let ?u = "ca_buffer_used s" and ?k = "ca_backup_bytes s"
  have inv: "cgood (ca_copying_stream s)" "0 < ca_buffer_size s" "0 \<le> ?k" "?k \<le> ?u" "?u \<le> ca_buffer_size s"
    using assms by (auto simp: adaptor_inv_def)
  show ?thesis
  proof (cases "0 < ?k")
    case True
    define b where "b = take (nat ?k) (drop (nat (?u - ?k)) buf)"
    define s' where "s' = s\<lparr>ca_buffer := Some buf, ca_backup_bytes := 0\<rparr>"
    have "nat (?u - ?k) + nat ?k \<le> length buf" using inv buf(2) by linarith
    then have "CopyingInputStreamAdaptor_Next cs s = Some (Some b, s')"
      using False True by (simp add: CopyingInputStreamAdaptor_Next_def Let_def buf(1) mem_simps b_def s'_def)
    moreover have "adaptor_inv cgood remaining s'"
      using assms inv buf(2) False by (simp add: adaptor_inv_def s'_def)
    moreover have b: "b = drop (nat (?u - ?k)) (ca_used s)"
      using inv unfolding b_def buf(3) by (simp add: drop_take nat_diff_distrib)
    then have "adaptor_pending remaining s = b @ adaptor_pending remaining s'"
      using buf(3) by (simp add: adaptor_pending_def s'_def ca_used_def)
    moreover have "suffix b (adaptor_last s')"
      unfolding b buf(3) by (simp add: adaptor_last_def s'_def ca_used_def suffix_drop)
    moreover have "int (length b) = ?k"
      using inv buf(2) by (simp add: b_def min_def nat_le_iff le_nat_iff)
    ultimately show ?thesis
      using True by (auto simp: CopyingInputStreamAdaptor_ByteCount_def s'_def)
  next
    case no_backup: False
    then have k: "?k = 0" using inv by simp
    obtain r bs c where r: "cp_Read cs (ca_buffer_size s) (ca_copying_stream s) = Some (r, bs, c)" "cgood c"
      "r \<le> ca_buffer_size s"
      "if 0 < r then r = int (length bs) \<and> remaining (ca_copying_stream s) = bs @ remaining c
       else bs = [] \<and> remaining (ca_copying_stream s) = [] \<and> remaining c = []"
      using read_law [OF inv(1,2)] by blast
    have p: "adaptor_pending remaining s = remaining (ca_copying_stream s)"
      using length_ca_used [OF assms] k by (simp add: adaptor_pending_def)
    show ?thesis
    proof (cases "0 < r")
      case True
      define s' where "s' = s\<lparr>ca_copying_stream := c, ca_buffer := Some (bs @ drop (length bs) buf), ca_buffer_used := r,
        ca_position := ca_position s + r\<rparr>"
      have l: "length bs \<le> length buf" "r = int (length bs)" using r(3,4) True buf(2) by auto
      then have "CopyingInputStreamAdaptor_Next cs s = Some (Some bs, s')"
        using False no_backup r(1) True
        by (simp add: CopyingInputStreamAdaptor_Next_def Let_def buf(1) mem_write_def mem_read_def s'_def)
      moreover have "adaptor_inv cgood remaining s'"
      proof -
        have "length (bs @ drop (length bs) buf) = nat (ca_buffer_size s)" using l(1) buf(2) by simp
        then show ?thesis unfolding adaptor_inv_def using r(2,3) inv(2) False True by (simp add: s'_def k)
      qed
      moreover have "ca_used s' = bs" using l by (simp add: ca_used_def s'_def)
      then have "adaptor_pending remaining s' = remaining c" "suffix bs (adaptor_last s')"
        using l by (simp_all add: adaptor_pending_def s'_def k adaptor_last_def)
      moreover have "bs \<noteq> []" using True l(2) by auto
      moreover have "adaptor_pending remaining s = bs @ remaining c" using True r(4) p by simp
      moreover have "CopyingInputStreamAdaptor_ByteCount s' = CopyingInputStreamAdaptor_ByteCount s + int (length bs)"
        using l(2) by (simp add: CopyingInputStreamAdaptor_ByteCount_def s'_def k)
      ultimately show ?thesis by (intro exI [of _ "Some bs"] exI [of _ s']) simp
    next
      case end_of_input: False
      define s' where "s' = (let s = s\<lparr>ca_copying_stream := c, ca_buffer := None, ca_buffer_used := 0\<rparr> in
        if r < 0 then s\<lparr>ca_failed := True\<rparr> else s)"
      have R: "bs = []" "remaining (ca_copying_stream s) = []" "remaining c = []" using r(4) end_of_input by auto
      have "CopyingInputStreamAdaptor_Next cs s = Some (None, s')"
        using False no_backup r(1) end_of_input k
        by (simp add: CopyingInputStreamAdaptor_Next_def Let_def buf(1) mem_write_def R(1) ca_FreeBuffer_def s'_def)
      moreover have "adaptor_inv cgood remaining s'" using r(2) inv R(3) False by (simp add: adaptor_inv_def s'_def Let_def k)
      moreover have "adaptor_pending remaining s' = []" using R(3) by (simp add: adaptor_pending_def s'_def ca_used_def Let_def k)
      moreover have "CopyingInputStreamAdaptor_ByteCount s' = CopyingInputStreamAdaptor_ByteCount s"
        by (simp add: CopyingInputStreamAdaptor_ByteCount_def s'_def Let_def)
      ultimately show ?thesis using p R(2) by auto
    qed
  qed
qed

lemma adaptor_backup_law:
  assumes "adaptor_inv cgood remaining s" and "adaptor_last s \<noteq> []" and "0 \<le> n" and "n \<le> int (length (adaptor_last s))"
  shows "\<exists>s'. CopyingInputStreamAdaptor_BackUp n s = Some s' \<and> adaptor_inv cgood remaining s' \<and>
        adaptor_pending remaining s' =
          drop (length (adaptor_last s) - nat n) (adaptor_last s) @ adaptor_pending remaining s \<and>
        CopyingInputStreamAdaptor_ByteCount s' = CopyingInputStreamAdaptor_ByteCount s - n"
proof -
  define s' where "s' = s\<lparr>ca_backup_bytes := n\<rparr>"
  have k: "ca_backup_bytes s = 0" "adaptor_last s = ca_used s" "ca_used s \<noteq> []"
    using assms(2) by (auto simp: adaptor_last_def split: if_splits)
  have u: "int (length (ca_used s)) = ca_buffer_used s" by (rule length_ca_used [OF assms(1)])
  have b: "ca_buffer s \<noteq> None" using k(3) by (auto simp: ca_used_def split: option.splits)
  have "CopyingInputStreamAdaptor_BackUp n s = Some s'"
    using assms(3,4) k b u by (simp add: CopyingInputStreamAdaptor_BackUp_def s'_def)
  moreover have "adaptor_inv cgood remaining s'"
    using assms(1,3,4) b k(2) u by (auto simp: adaptor_inv_def s'_def)
  moreover have "ca_used s' = ca_used s" by (simp add: s'_def)
  then have "adaptor_pending remaining s' =
      drop (length (ca_used s) - nat n) (ca_used s) @ adaptor_pending remaining s"
    using u k(1) assms(3) by (simp add: adaptor_pending_def s'_def flip: u) (simp add: nat_minus_as_int)
  moreover have "CopyingInputStreamAdaptor_ByteCount s' = CopyingInputStreamAdaptor_ByteCount s - n"
    by (simp add: CopyingInputStreamAdaptor_ByteCount_def s'_def k(1))
  ultimately show ?thesis using k(2) by simp
qed

lemma adaptor_skip_law:
  assumes "adaptor_inv cgood remaining s" and "0 \<le> n"
  shows "\<exists>ok s'. CopyingInputStreamAdaptor_Skip cs n s = Some (ok, s') \<and> adaptor_inv cgood remaining s' \<and>
        adaptor_pending remaining s' = drop (nat n) (adaptor_pending remaining s) \<and>
        (ok \<longrightarrow> nat n \<le> length (adaptor_pending remaining s)) \<and>
        (\<not> ok \<longrightarrow> length (adaptor_pending remaining s) < nat n \<or> n = 0 \<and> adaptor_pending remaining s = []) \<and>
        CopyingInputStreamAdaptor_ByteCount s' = CopyingInputStreamAdaptor_ByteCount s +
          int (length (adaptor_pending remaining s)) - int (length (adaptor_pending remaining s'))"
proof -
  let ?u = "ca_buffer_used s" and ?k = "ca_backup_bytes s" and ?R = "remaining (ca_copying_stream s)"
  let ?P = "adaptor_pending remaining"
  have inv: "cgood (ca_copying_stream s)" "0 \<le> ?k" "?k \<le> ?u" using assms(1) by (auto simp: adaptor_inv_def)
  have u: "int (length (ca_used s)) = ?u" by (rule length_ca_used [OF assms(1)])
  then have lu: "length (ca_used s) = nat ?u" by linarith
  have P: "?P s = drop (nat (?u - ?k)) (ca_used s) @ ?R" by (simp add: adaptor_pending_def)
  have lb: "length (drop (nat (?u - ?k)) (ca_used s)) = nat ?k"
    using inv u by (simp add: lu)
  consider (failed) "ca_failed s" | (chop) "\<not> ca_failed s" "?k \<ge> n" | (skip) "\<not> ca_failed s" "\<not> ?k \<ge> n" by blast
  then show ?thesis
  proof cases
    case failed
    then have e: "?R = []" "ca_used s = []" using assms(1) by (auto simp: adaptor_inv_def ca_used_def)
    have "CopyingInputStreamAdaptor_Skip cs n s = Some (False, s)"
      using failed assms(2) by (simp add: CopyingInputStreamAdaptor_Skip_def)
    moreover have "?P s = []" "0 < nat n \<or> n = 0" using P e assms(2) by auto
    ultimately show ?thesis using assms(1) by (intro exI [of _ False] exI [of _ s]) simp
  next
    case chop
    define s' where "s' = s\<lparr>ca_backup_bytes := ?k - n\<rparr>"
    have "CopyingInputStreamAdaptor_Skip cs n s = Some (True, s')"
      using chop assms(2) by (simp add: CopyingInputStreamAdaptor_Skip_def s'_def)
    moreover have "adaptor_inv cgood remaining s'" using assms chop by (auto simp: adaptor_inv_def s'_def cong: option.case_cong)
    moreover have "nat (?u - (?k - n)) = nat n + nat (?u - ?k)" using chop inv assms(2) by linarith
    then have p: "?P s' = drop (nat n) (?P s)"
      using lb chop unfolding P by (simp add: adaptor_pending_def s'_def)
    moreover have l: "nat n \<le> length (?P s)" using lb chop unfolding P length_append by linarith
    moreover have "CopyingInputStreamAdaptor_ByteCount s' = CopyingInputStreamAdaptor_ByteCount s +
        int (length (?P s)) - int (length (?P s'))"
      using l assms(2) unfolding p by (simp add: CopyingInputStreamAdaptor_ByteCount_def s'_def)
    ultimately show ?thesis by (intro exI [of _ True] exI [of _ s']) simp
  next
    case skip
    define m where "m = n - ?k"
    have m: "0 \<le> m" "nat n = nat ?k + nat m" using skip inv by (auto simp: m_def)
    obtain c where c: "cp_Skip cs m (ca_copying_stream s) = Some (int (min (nat m) (length ?R)), c)" "cgood c"
      "remaining c = drop (nat m) ?R"
      using skip_law [OF inv(1) m(1)] by blast
    define s' where "s' = s\<lparr>ca_backup_bytes := 0, ca_copying_stream := c,
      ca_position := ca_position s + int (min (nat m) (length ?R))\<rparr>"
    have "CopyingInputStreamAdaptor_Skip cs n s = Some (int (min (nat m) (length ?R)) = m, s')"
      using skip assms(2) c(1) by (simp add: CopyingInputStreamAdaptor_Skip_def Let_def s'_def flip: m_def)
    moreover have "adaptor_inv cgood remaining s'" using assms(1) c(2) skip by (auto simp: adaptor_inv_def s'_def cong: option.case_cong)
    moreover have lP: "length (?P s) = nat ?k + length ?R" using lb unfolding P length_append by linarith
    moreover have p: "?P s' = drop (nat n) (?P s)"
    proof -
      have "?P s' = remaining c" by (simp add: adaptor_pending_def s'_def ca_used_def lu split: option.split)
      then show ?thesis using lb m(2) unfolding P c(3) by simp
    qed
    moreover have "CopyingInputStreamAdaptor_ByteCount s' = CopyingInputStreamAdaptor_ByteCount s +
        int (length (?P s)) - int (length (?P s'))"
      using lP m inv(2) unfolding p by (simp add: CopyingInputStreamAdaptor_ByteCount_def s'_def min_def)
    moreover have "int (min (nat m) (length ?R)) = m \<longleftrightarrow> nat n \<le> length (?P s)"
      using lP m by (auto simp: min_def)
    ultimately show ?thesis
      by (intro exI [of _ "int (min (nat m) (length ?R)) = m"] exI [of _ s']) simp
  qed
qed

lemma adaptor_contract:
  "input_contract (copying_input_stream cs) (adaptor_inv cgood remaining) (adaptor_pending remaining) adaptor_last"
  by (rule input_contract.intro; unfold copying_input_stream_sels)
    (rule adaptor_next_law adaptor_backup_law adaptor_skip_law; assumption)+

end

section \<open>File descriptors\<close>

text \<open>
  What the operating system does with the calls of \<open>read\<close> on a descriptor, as a list of events; its end is the
  end of the file. \<open>read\<close> stores at most as many bytes as are asked for; an error other than an interruption
  is permanent.
\<close>

datatype read_event =
  Interrupted
| Available "byte list"
| Read_error int

definition EINTR :: int where
  "EINTR = 4"

fun sys_read :: "int \<Rightarrow> read_event list \<Rightarrow> int \<times> int \<times> byte list \<times> read_event list" where
  "sys_read n [] = (0, 0, [], [])"
| "sys_read n (Interrupted # evs) = (- 1, EINTR, [], evs)"
| "sys_read n (Available bs # evs) =
     (if length bs \<le> nat n then (int (length bs), 0, bs, evs)
      else (int (nat n), 0, take (nat n) bs, Available (drop (nat n) bs) # evs))"
| "sys_read n (Read_error e # evs) = (- 1, e, [], if e = EINTR then evs else Read_error e # evs)"

record copying_file_input =
  fi_file :: "read_event list"
  fi_is_closed :: bool
  fi_errno :: int
  fi_previous_seek_failed :: bool

definition CopyingFileInputStream :: "read_event list \<Rightarrow> copying_file_input" where
  "CopyingFileInputStream file_descriptor =
     \<lparr>fi_file = file_descriptor, fi_is_closed = False, fi_errno = 0, fi_previous_seek_failed = False\<rparr>"

text \<open>The loop around \<open>read\<close>; it ends since an interruption is an event.\<close>

function read_no_eintr :: "int \<Rightarrow> read_event list \<Rightarrow> int \<times> int \<times> byte list \<times> read_event list" where
  "read_no_eintr n fd =
     (case sys_read n fd of (r, errno, bs, fd') \<Rightarrow>
        if r < 0 \<and> errno = EINTR then read_no_eintr n fd' else (r, errno, bs, fd'))"
  by pat_completeness auto
termination
proof (relation "measure (\<lambda>(n, fd). length fd)", goal_cases)
  case (2 n fd r y errno z bs fd')
  then show ?case by (cases "(n, fd)" rule: sys_read.cases) (auto split: if_splits)
qed simp

declare read_no_eintr.simps [simp del]

definition CopyingFileInputStream_Read ::
  "int \<Rightarrow> copying_file_input \<Rightarrow> (int \<times> byte list \<times> copying_file_input) option" where
  "CopyingFileInputStream_Read n s =
     (if fi_is_closed s then None
      else case read_no_eintr n (fi_file s) of (r, errno, bs, fd) \<Rightarrow>
        let s = s\<lparr>fi_file := fd\<rparr> in
        Some (r, bs, if r < 0 then s\<lparr>fi_errno := errno\<rparr> else s))"

text \<open>On Windows the file redefines \<open>lseek\<close> to fail always.\<close>

definition lseek :: "read_event list \<Rightarrow> int \<Rightarrow> int" where
  "lseek fd offset = - 1"

definition CopyingFileInputStream_Skip :: "int \<Rightarrow> copying_file_input \<Rightarrow> (int \<times> copying_file_input) option" where
  "CopyingFileInputStream_Skip count s =
     (if fi_is_closed s then None
      else if \<not> fi_previous_seek_failed s \<and> lseek (fi_file s) count \<noteq> - 1 then Some (count, s)
      else CopyingInputStream_Skip CopyingFileInputStream_Read count (s\<lparr>fi_previous_seek_failed := True\<rparr>))"

text \<open>The result of \<open>close\<close> and the \<open>errno\<close> it sets, after the interruptions, are arguments.\<close>

definition CopyingFileInputStream_Close :: "int \<Rightarrow> int \<Rightarrow> copying_file_input \<Rightarrow> (bool \<times> copying_file_input) option" where
  "CopyingFileInputStream_Close close_result errno s =
     (if fi_is_closed s then None
      else let s = s\<lparr>fi_is_closed := True\<rparr> in
        if close_result \<noteq> 0 then Some (False, s\<lparr>fi_errno := errno\<rparr>) else Some (True, s))"

definition copying_file_stream :: "copying_file_input copying_input" where
  "copying_file_stream = \<lparr>cp_Read = CopyingFileInputStream_Read, cp_Skip = CopyingFileInputStream_Skip\<rparr>"

text \<open>\<open>FileInputStream\<close> passes its calls on to the adaptor.\<close>

definition FileInputStream :: "read_event list \<Rightarrow> int \<Rightarrow> copying_file_input copying_adaptor" where
  "FileInputStream file_descriptor block_size = CopyingInputStreamAdaptor (CopyingFileInputStream file_descriptor) block_size"

definition file_input_stream :: "copying_file_input copying_adaptor zero_copy_input" where
  "file_input_stream = copying_input_stream copying_file_stream"

definition FileInputStream_Close ::
  "int \<Rightarrow> int \<Rightarrow> copying_file_input copying_adaptor \<Rightarrow> (bool \<times> copying_file_input copying_adaptor) option" where
  "FileInputStream_Close close_result errno s = do {
     (ok, c) \<leftarrow> CopyingFileInputStream_Close close_result errno (ca_copying_stream s);
     Some (ok, s\<lparr>ca_copying_stream := c\<rparr>) }"

text \<open>What the descriptor delivers before its end or its first error.\<close>

fun file_content :: "read_event list \<Rightarrow> byte list" where
  "file_content [] = []"
| "file_content (Interrupted # evs) = file_content evs"
| "file_content (Available bs # evs) = bs @ file_content evs"
| "file_content (Read_error e # evs) = (if e = EINTR then file_content evs else [])"

definition file_ok :: "read_event list \<Rightarrow> bool" where
  "file_ok evs \<longleftrightarrow> Available [] \<notin> set evs"

definition file_good :: "copying_file_input \<Rightarrow> bool" where
  "file_good s \<longleftrightarrow> \<not> fi_is_closed s \<and> file_ok (fi_file s)"

lemma read_no_eintr_law:
  assumes "file_ok evs" and "0 < n"
  shows "\<exists>r e bs evs'. read_no_eintr n evs = (r, e, bs, evs') \<and> file_ok evs' \<and> r \<le> n \<and>
    (if 0 < r then r = int (length bs) \<and> file_content evs = bs @ file_content evs'
     else bs = [] \<and> file_content evs = [] \<and> file_content evs' = [])"
  using assms
proof (induction evs)
  case Nil
  then show ?case by (subst read_no_eintr.simps) (simp add: file_ok_def)
next
  case (Cons ev evs)
  show ?case
  proof (cases ev)
    case Interrupted
    then have eq: "read_no_eintr n (ev # evs) = read_no_eintr n evs" "file_content (ev # evs) = file_content evs" "file_ok evs"
      using Cons.prems by (simp_all add: read_no_eintr.simps [of n "_ # _"] file_ok_def)
    show ?thesis using Cons.IH [OF eq(3) Cons.prems(2)] unfolding eq(1,2) .
  next
    case (Available bs)
    then have "bs \<noteq> []" using Cons.prems(1) by (auto simp: file_ok_def)
    then show ?thesis
      using Available Cons.prems by (subst read_no_eintr.simps) (auto simp: file_ok_def)
  next
    case (Read_error e)
    show ?thesis
    proof (cases "e = EINTR")
      case True
      then have eq: "read_no_eintr n (ev # evs) = read_no_eintr n evs" "file_content (ev # evs) = file_content evs" "file_ok evs"
        using Read_error Cons.prems by (simp_all add: read_no_eintr.simps [of n "_ # _"] file_ok_def)
      show ?thesis using Cons.IH [OF eq(3) Cons.prems(2)] unfolding eq(1,2) .
    next
      case False
      then show ?thesis using Read_error Cons.prems by (subst read_no_eintr.simps) simp
    qed
  qed
qed

lemma file_read_law:
  assumes "file_good c" and "0 < n"
  shows "\<exists>r bs c'. CopyingFileInputStream_Read n c = Some (r, bs, c') \<and> file_good c' \<and> r \<le> n \<and>
      (if 0 < r then r = int (length bs) \<and> file_content (fi_file c) = bs @ file_content (fi_file c')
       else bs = [] \<and> file_content (fi_file c) = [] \<and> file_content (fi_file c') = [])"
proof -
  have "file_ok (fi_file c)" "\<not> fi_is_closed c" using assms(1) by (simp_all add: file_good_def)
  moreover obtain r e bs evs where l: "read_no_eintr n (fi_file c) = (r, e, bs, evs)" "file_ok evs" "r \<le> n"
    "if 0 < r then r = int (length bs) \<and> file_content (fi_file c) = bs @ file_content evs
     else bs = [] \<and> file_content (fi_file c) = [] \<and> file_content evs = []"
    using read_no_eintr_law [OF calculation(1) assms(2)] by blast
  define c' where "c' = (let c = c\<lparr>fi_file := evs\<rparr> in if r < 0 then c\<lparr>fi_errno := e\<rparr> else c)"
  have c': "fi_file c' = evs" "fi_is_closed c' = fi_is_closed c" by (simp_all add: c'_def Let_def)
  have "CopyingFileInputStream_Read n c = Some (r, bs, c')"
    using l(1) calculation(2) by (simp add: CopyingFileInputStream_Read_def Let_def c'_def)
  then show ?thesis using l c' calculation(2) by (intro exI [of _ r] exI [of _ bs] exI [of _ c']) (simp add: file_good_def)
qed

interpretation file_reader: copying_reader CopyingFileInputStream_Read file_good "file_content \<circ> fi_file"
  by unfold_locales (unfold comp_def, rule file_read_law)

lemma file_skip_law:
  assumes "file_good c" and "0 \<le> n"
  shows "\<exists>c'. CopyingFileInputStream_Skip n c = Some (int (min (nat n) (length (file_content (fi_file c)))), c') \<and>
    file_good c' \<and> file_content (fi_file c') = drop (nat n) (file_content (fi_file c))"
proof -
  have "file_good (c\<lparr>fi_previous_seek_failed := True\<rparr>)" "\<not> fi_is_closed c" using assms(1) by (simp_all add: file_good_def)
  with file_reader.default_skip [OF this(1), of 0 n] assms(2) show ?thesis
    by (simp add: CopyingFileInputStream_Skip_def lseek_def CopyingInputStream_Skip_def)
qed

interpretation file_in: copying_contract copying_file_stream file_good "file_content \<circ> fi_file"
  by unfold_locales (unfold copying_file_stream_def copying_input.select_convs comp_def, rule file_read_law file_skip_law; assumption)+

interpretation file_stream: input_contract file_input_stream "adaptor_inv file_good (file_content \<circ> fi_file)"
    "adaptor_pending (file_content \<circ> fi_file)" adaptor_last
  unfolding file_input_stream_def by (rule file_in.adaptor_contract)

section \<open>C++ input streams\<close>

text \<open>
  A \<open>std::istream\<close>: the characters its buffer still delivers, its state bits (\<open>is_fail\<close> stands for failbit or
  badbit) and the count of the last unformatted input. \<open>read\<close> on a stream that is not good only sets failbit;
  when the characters run out it sets eofbit and failbit.
\<close>

record istream =
  is_rest :: "byte list"
  is_eof :: bool
  is_fail :: bool
  is_gcount :: int

definition istream_read :: "int \<Rightarrow> istream \<Rightarrow> byte list \<times> istream" where
  "istream_read n s =
     (if is_eof s \<or> is_fail s then ([], s\<lparr>is_fail := True, is_gcount := 0\<rparr>)
      else if length (is_rest s) < nat n then
        (is_rest s, s\<lparr>is_rest := [], is_eof := True, is_fail := True, is_gcount := int (length (is_rest s))\<rparr>)
      else (take (nat n) (is_rest s), s\<lparr>is_rest := drop (nat n) (is_rest s), is_gcount := int (nat n)\<rparr>))"

definition CopyingIstreamInputStream_Read :: "int \<Rightarrow> istream \<Rightarrow> (int \<times> byte list \<times> istream) option" where
  "CopyingIstreamInputStream_Read n input =
     (case istream_read n input of (bs, input) \<Rightarrow>
        let result = is_gcount input in
        if result = 0 \<and> is_fail input \<and> \<not> is_eof input then Some (- 1, bs, input) else Some (result, bs, input))"

definition copying_istream :: "istream copying_input" where
  "copying_istream = \<lparr>cp_Read = CopyingIstreamInputStream_Read,
     cp_Skip = CopyingInputStream_Skip CopyingIstreamInputStream_Read\<rparr>"

definition IstreamInputStream :: "istream \<Rightarrow> int \<Rightarrow> istream copying_adaptor" where
  "IstreamInputStream input block_size = CopyingInputStreamAdaptor input block_size"

definition istream_content :: "istream \<Rightarrow> byte list" where
  "istream_content s = (if is_eof s \<or> is_fail s then [] else is_rest s)"

lemma istream_read_law:
  assumes "0 < n"
  shows "\<exists>r bs c'. CopyingIstreamInputStream_Read n c = Some (r, bs, c') \<and> r \<le> n \<and>
      (if 0 < r then r = int (length bs) \<and> istream_content c = bs @ istream_content c'
       else bs = [] \<and> istream_content c = [] \<and> istream_content c' = [])"
proof -
  consider (bad) "is_eof c \<or> is_fail c" | (short) "\<not> (is_eof c \<or> is_fail c)" "length (is_rest c) < nat n"
    | (long) "\<not> (is_eof c \<or> is_fail c)" "\<not> length (is_rest c) < nat n" by blast
  then show ?thesis
  proof cases
    case bad
    then show ?thesis
      using assms by (auto simp: CopyingIstreamInputStream_Read_def istream_read_def istream_content_def Let_def)
  next
    case short
    then show ?thesis
      by (cases "is_rest c") (auto simp: CopyingIstreamInputStream_Read_def istream_read_def istream_content_def Let_def)
  next
    case long
    then show ?thesis
      using assms by (simp add: CopyingIstreamInputStream_Read_def istream_read_def istream_content_def Let_def)
  qed
qed

interpretation istream_reader: copying_reader CopyingIstreamInputStream_Read "\<lambda>_. True" istream_content
  by unfold_locales (simp only: simp_thms, rule istream_read_law)

interpretation istream_in: copying_contract copying_istream "\<lambda>_. True" istream_content
proof (unfold_locales, unfold copying_istream_def copying_input.select_convs)
  fix c and n :: int
  show "0 < n \<Longrightarrow> \<exists>r bs c'. CopyingIstreamInputStream_Read n c = Some (r, bs, c') \<and> True \<and> r \<le> n \<and>
      (if 0 < r then r = int (length bs) \<and> istream_content c = bs @ istream_content c'
       else bs = [] \<and> istream_content c = [] \<and> istream_content c' = [])"
    using istream_read_law [of n c] by simp
  show "0 \<le> n \<Longrightarrow> \<exists>c'. CopyingInputStream_Skip CopyingIstreamInputStream_Read n c =
      Some (int (min (nat n) (length (istream_content c))), c') \<and> True \<and> istream_content c' = drop (nat n) (istream_content c)"
    using istream_reader.default_skip [where c = c and s = 0 and n = n] by (simp add: CopyingInputStream_Skip_def)
qed

interpretation istream_stream: input_contract "copying_input_stream copying_istream" "adaptor_inv (\<lambda>_. True) istream_content"
    "adaptor_pending istream_content" adaptor_last
  by (rule istream_in.adaptor_contract)

section \<open>Reading a file\<close>

lemma new_adaptor:
  assumes "cgood c"
  shows "adaptor_inv cgood remaining (CopyingInputStreamAdaptor c block_size)"
    and "adaptor_pending remaining (CopyingInputStreamAdaptor c block_size) = remaining c"
    and "CopyingInputStreamAdaptor_ByteCount (CopyingInputStreamAdaptor c block_size) = 0"
  using assms by (simp_all add: CopyingInputStreamAdaptor_def adaptor_inv_def adaptor_pending_def ca_used_def
      CopyingInputStreamAdaptor_ByteCount_def kDefaultBlockSize_def)

text \<open>
  C30. However the calls of \<open>read\<close> on a descriptor are interrupted and whatever amounts they return, a
  \<open>FileInputStream\<close> delivers exactly the bytes that come before the end of the file or the first error, and
  counts them; after skipping \<open>n\<close> bytes it delivers the ones behind these, and the skip reports success
  exactly when there are \<open>n\<close> bytes.
\<close>

theorem file_stream_delivers:
  assumes "file_ok fd" and "0 < n"
  shows "\<exists>s s1 s2.
    read_all file_input_stream (FileInputStream fd block_size) = Some (file_content fd, s) \<and>
    CopyingInputStreamAdaptor_ByteCount s = int (length (file_content fd)) \<and>
    CopyingInputStreamAdaptor_Skip copying_file_stream n (FileInputStream fd block_size) =
      Some (nat n \<le> length (file_content fd), s1) \<and>
    read_all file_input_stream s1 = Some (drop (nat n) (file_content fd), s2)"
proof -
  let ?s = "FileInputStream fd block_size" and ?inv = "adaptor_inv file_good (file_content \<circ> fi_file)"
  let ?p = "adaptor_pending (file_content \<circ> fi_file)"
  have g: "file_good (CopyingFileInputStream fd)" using assms(1) by (simp add: file_good_def CopyingFileInputStream_def)
  have s: "?inv ?s" "?p ?s = file_content fd" "CopyingInputStreamAdaptor_ByteCount ?s = 0"
    using new_adaptor [of file_good, OF g]
    unfolding FileInputStream_def by (simp_all add: CopyingFileInputStream_def)
  obtain s' where 1: "read_all file_input_stream ?s = Some (file_content fd, s')"
    "CopyingInputStreamAdaptor_ByteCount s' = int (length (file_content fd))"
    using file_stream.read_all_delivers [OF s(1), of "\<lambda>_. True"] s(2,3) by (auto simp: file_input_stream_def)
  obtain ok s1 where 2: "CopyingInputStreamAdaptor_Skip copying_file_stream n ?s = Some (ok, s1)" "?inv s1"
    "?p s1 = drop (nat n) (file_content fd)" "ok \<longrightarrow> nat n \<le> length (file_content fd)"
    "\<not> ok \<longrightarrow> length (file_content fd) < nat n \<or> n = 0 \<and> file_content fd = []"
    using file_stream.skip_law [OF s(1), of n] assms(2) unfolding s(2) by (auto simp: file_input_stream_def)
  then have "ok = (nat n \<le> length (file_content fd))" using assms(2) by auto
  moreover obtain s2 where "read_all file_input_stream s1 = Some (drop (nat n) (file_content fd), s2)"
    using file_stream.read_all_delivers [OF 2(2), of "\<lambda>_. True"] 2(3) by auto
  ultimately show ?thesis using 1 2(1) by blast
qed

theorem file_stream_delivers_witness:
  "\<exists>s s1 s2.
    read_all file_input_stream (FileInputStream [Interrupted, Available [1, 2], Available [3], Read_error 5] 2) = Some ([1, 2, 3], s) \<and>
    CopyingInputStreamAdaptor_ByteCount s = 3 \<and>
    CopyingInputStreamAdaptor_Skip copying_file_stream 2
      (FileInputStream [Interrupted, Available [1, 2], Available [3], Read_error 5] 2) = Some (True, s1) \<and>
    read_all file_input_stream s1 = Some ([3], s2)"
  using file_stream_delivers [of "[Interrupted, Available [1, 2], Available [3], Read_error 5]" 2 2]
  by (simp add: file_ok_def EINTR_def)

end
