(* ===== verification/ZeroCopyOutput.thy ===== *)
theory ZeroCopyOutput
  imports CopyingInput
begin

text \<open>
  The output streams of protobuf that lend blocks of memory to their caller (io/zero_copy_stream.h,
  io/zero_copy_stream_impl_lite.cc, io/zero_copy_stream_impl.cc): the interface \<open>ZeroCopyOutputStream\<close> with the
  contract of its comments as a locale, a client that writes data of any length through it, and the
  implementations for arrays, strings and streams that copy (file descriptors, C++ streams).

  \<open>Next\<close> gives the offset of the block in the memory the stream owns and its size; the caller stores through
  the pointer with \<open>zo_store\<close>, a copy that must stay inside that memory. \<open>None\<close> is a failed \<open>GOOGLE_CHECK\<close> or a
  store outside. The bytes of new memory are set to 0 in the model; the contract holds whatever they are.
\<close>

section \<open>The interface\<close>

record 's zero_copy_output =
  zo_Next :: "'s \<Rightarrow> ((nat \<times> int) option \<times> 's) option"
  zo_store :: "nat \<Rightarrow> byte list \<Rightarrow> 's \<Rightarrow> 's option"
  zo_BackUp :: "int \<Rightarrow> 's \<Rightarrow> 's option"
  zo_ByteCount :: "'s \<Rightarrow> int"

text \<open>
  What a block of \<open>n\<close> bytes at \<open>p\<close> is good for: when the caller has filled it, or has filled its beginning and
  backed up over the rest, then just these bytes have been written.
\<close>

definition block_usable ::
  "'s zero_copy_output \<Rightarrow> ('s \<Rightarrow> bool) \<Rightarrow> ('s \<Rightarrow> byte list) \<Rightarrow> 's \<Rightarrow> 's \<Rightarrow> nat \<Rightarrow> int \<Rightarrow> bool" where
  "block_usable zo good written s s' p n \<longleftrightarrow> 0 < n \<and>
     (\<forall>bs. int (length bs) \<le> n \<longrightarrow> (\<exists>s1. zo_store zo p bs s' = Some s1 \<and>
        (int (length bs) = n \<longrightarrow> good s1 \<and> written s1 = written s @ bs \<and> zo_ByteCount zo s1 = zo_ByteCount zo s + n) \<and>
        (\<exists>s2. zo_BackUp zo (n - int (length bs)) s1 = Some s2 \<and> good s2 \<and> written s2 = written s @ bs \<and>
           zo_ByteCount zo s2 = zo_ByteCount zo s + int (length bs))))"

locale output_contract =
  fixes zo :: "'s zero_copy_output"
    and good :: "'s \<Rightarrow> bool"
    and written :: "'s \<Rightarrow> byte list"
    and stuck :: "'s \<Rightarrow> bool"
  assumes next_law: "good s \<Longrightarrow> \<exists>r s'. zo_Next zo s = Some (r, s') \<and>
    (case r of None \<Rightarrow> stuck s | Some (p, n) \<Rightarrow> block_usable zo good written s s' p n)"

text \<open>A client that writes all of its data; the second component of its result is the state it leaves.\<close>

partial_function (option) write_all :: "'s zero_copy_output \<Rightarrow> byte list \<Rightarrow> 's \<Rightarrow> (bool \<times> 's) option" where
  "write_all zo data s =
     (if data = [] then Some (True, s)
      else do {
        (r, s) \<leftarrow> zo_Next zo s;
        (case r of
           None \<Rightarrow> Some (False, s)
         | Some (p, n) \<Rightarrow>
             if int (length data) \<le> n then do {
               s \<leftarrow> zo_store zo p data s;
               s \<leftarrow> zo_BackUp zo (n - int (length data)) s;
               Some (True, s) }
             else do {
               s \<leftarrow> zo_store zo p (take (nat n) data) s;
               write_all zo (drop (nat n) data) s }) })"

context output_contract
begin

lemma write_all_law:
  assumes "good s"
  shows "\<exists>ok s'. write_all zo data s = Some (ok, s') \<and>
    (if ok then good s' \<and> written s' = written s @ data \<and> zo_ByteCount zo s' = zo_ByteCount zo s + int (length data)
     else \<exists>s0 k. good s0 \<and> stuck s0 \<and> k < length data \<and> written s0 = written s @ take k data \<and>
       zo_Next zo s0 = Some (None, s'))"
  using assms
proof (induction "length data" arbitrary: data s rule: less_induct)
  case less
  show ?case
  proof (cases "data = []")
    case True
    then have "write_all zo data s = Some (True, s)" by (subst write_all.simps) simp
    then show ?thesis using less.prems True by (intro exI [of _ True] exI [of _ s]) simp
  next
    case False
    obtain r s' where n: "zo_Next zo s = Some (r, s')"
      "case r of None \<Rightarrow> stuck s | Some (p, n) \<Rightarrow> block_usable zo good written s s' p n"
      using next_law [OF less.prems] by blast
    show ?thesis
    proof (cases r)
      case None
      have "write_all zo data s = Some (False, s')"
        using False n(1) None by (subst write_all.simps) simp
      moreover have "\<exists>s0 k. good s0 \<and> stuck s0 \<and> k < length data \<and> written s0 = written s @ take k data \<and> zo_Next zo s0 = Some (None, s')"
        using less.prems n None False by (intro exI [of _ s] exI [of _ 0]) simp
      ultimately show ?thesis by (intro exI [of _ False] exI [of _ s']) simp
    next
      case (Some pn)
      obtain p m where pn: "pn = (p, m)" by (cases pn)
      have b: "block_usable zo good written s s' p m" using n(2) Some pn by simp
      then have m: "0 < m" by (simp add: block_usable_def)
      show ?thesis
      proof (cases "int (length data) \<le> m")
        case True
        then obtain s1 s2 where "zo_store zo p data s' = Some s1" "zo_BackUp zo (m - int (length data)) s1 = Some s2"
          "good s2" "written s2 = written s @ data" "zo_ByteCount zo s2 = zo_ByteCount zo s + int (length data)"
          using b unfolding block_usable_def by blast
        moreover from this have "write_all zo data s = Some (True, s2)"
          using n(1) Some pn False True by (subst write_all.simps) simp
        ultimately show ?thesis by (intro exI [of _ True] exI [of _ s2]) simp
      next
        case long: False
        let ?d = "take (nat m) data" and ?r = "drop (nat m) data"
        have l: "int (length ?d) = m" "length ?r < length data" using long m by auto
        then obtain s1 where s1: "zo_store zo p ?d s' = Some s1" "good s1" "written s1 = written s @ ?d"
          "zo_ByteCount zo s1 = zo_ByteCount zo s + m"
          using b unfolding block_usable_def by (metis order_refl)
        have w: "write_all zo data s = write_all zo ?r s1"
          using n(1) Some pn False long s1(1) by (subst write_all.simps) simp
        obtain ok t where t: "write_all zo ?r s1 = Some (ok, t)"
          "if ok then good t \<and> written t = written s1 @ ?r \<and> zo_ByteCount zo t = zo_ByteCount zo s1 + int (length ?r)
           else \<exists>s0 k. good s0 \<and> stuck s0 \<and> k < length ?r \<and> written s0 = written s1 @ take k ?r \<and> zo_Next zo s0 = Some (None, t)"
          using less.hyps [OF l(2) s1(2)] by blast
        show ?thesis
        proof (cases ok)
          case True
          have "zo_ByteCount zo t = zo_ByteCount zo s + int (length data)"
            using t(2) True s1(4) l(1) long m by simp
          then show ?thesis using t True s1(3) unfolding w by (intro exI [of _ True] exI [of _ t]) simp
        next
          case no: False
          then obtain s0 k where k: "good s0" "stuck s0" "k < length ?r" "written s0 = written s1 @ take k ?r" "zo_Next zo s0 = Some (None, t)"
            using t(2) by auto
          have "written s0 = written s @ take (nat m + k) data"
            using k(4) s1(3) by (simp add: take_add)
          moreover have "nat m + k < length data" using k(3) by simp
          ultimately have "\<exists>s0 k. good s0 \<and> stuck s0 \<and> k < length data \<and> written s0 = written s @ take k data \<and> zo_Next zo s0 = Some (None, t)"
            using k(1,2,5) by blast
          then show ?thesis using t(1) no unfolding w by (intro exI [of _ False] exI [of _ t]) simp
        qed
      qed
    qed
  qed
qed

end

section \<open>Arrays\<close>

record array_output =
  ao_data :: "byte list"
  ao_size :: int
  ao_block_size :: int
  ao_position :: int
  ao_last_returned_size :: int

definition ArrayOutputStream :: "byte list \<Rightarrow> int \<Rightarrow> int \<Rightarrow> array_output" where
  "ArrayOutputStream data n block_size =
     \<lparr>ao_data = data, ao_size = n, ao_block_size = (if block_size > 0 then block_size else n),
      ao_position = 0, ao_last_returned_size = 0\<rparr>"

definition ArrayOutputStream_Next :: "array_output \<Rightarrow> ((nat \<times> int) option \<times> array_output) option" where
  "ArrayOutputStream_Next s =
     (if ao_position s < ao_size s then
        let n = min (ao_block_size s) (ao_size s - ao_position s) in
        Some (Some (nat (ao_position s), n), s\<lparr>ao_last_returned_size := n, ao_position := ao_position s + n\<rparr>)
      else Some (None, s\<lparr>ao_last_returned_size := 0\<rparr>))"

definition ArrayOutputStream_BackUp :: "int \<Rightarrow> array_output \<Rightarrow> array_output option" where
  "ArrayOutputStream_BackUp count s =
     (if \<not> ao_last_returned_size s > 0 then None
      else if \<not> count \<le> ao_last_returned_size s then None
      else if \<not> count \<ge> 0 then None
      else Some (s\<lparr>ao_position := ao_position s - count, ao_last_returned_size := 0\<rparr>))"

definition array_store :: "nat \<Rightarrow> byte list \<Rightarrow> array_output \<Rightarrow> array_output option" where
  "array_store p bs s = do { data \<leftarrow> mem_write p bs (ao_data s); Some (s\<lparr>ao_data := data\<rparr>) }"

definition array_output_stream :: "array_output zero_copy_output" where
  "array_output_stream = \<lparr>zo_Next = ArrayOutputStream_Next, zo_store = array_store,
     zo_BackUp = ArrayOutputStream_BackUp, zo_ByteCount = ao_position\<rparr>"

text \<open>The bytes behind the position are still the ones of the original array.\<close>

definition array_out_good :: "byte list \<Rightarrow> array_output \<Rightarrow> bool" where
  "array_out_good original s \<longleftrightarrow> ao_size s = int (length (ao_data s)) \<and> length (ao_data s) = length original \<and>
     (ao_size s > 0 \<longrightarrow> ao_block_size s > 0) \<and> 0 \<le> ao_position s \<and> ao_position s \<le> ao_size s \<and>
     drop (nat (ao_position s)) (ao_data s) = drop (nat (ao_position s)) original"

definition array_written :: "array_output \<Rightarrow> byte list" where
  "array_written s = take (nat (ao_position s)) (ao_data s)"

lemma array_output_stream_sels [simp]:
  "zo_Next array_output_stream = ArrayOutputStream_Next" "zo_store array_output_stream = array_store"
  "zo_BackUp array_output_stream = ArrayOutputStream_BackUp" "zo_ByteCount array_output_stream = ao_position"
  by (simp_all add: array_output_stream_def)

lemma array_out_next_law:
  assumes "array_out_good original s"
  shows "\<exists>r s'. ArrayOutputStream_Next s = Some (r, s') \<and>
    (case r of None \<Rightarrow> ao_position s = ao_size s
     | Some (p, n) \<Rightarrow> block_usable array_output_stream (array_out_good original) array_written s s' p n)"
proof (cases "ao_position s < ao_size s")
  case False
  then show ?thesis using assms by (simp add: ArrayOutputStream_Next_def array_out_good_def)
next
  case True
  define n where "n = min (ao_block_size s) (ao_size s - ao_position s)"
  define p where "p = nat (ao_position s)"
  define s' where "s' = s\<lparr>ao_last_returned_size := n, ao_position := ao_position s + n\<rparr>"
  have n: "0 < n" "ao_position s + n \<le> ao_size s" "ao_position s = int p" "ao_size s = int (length (ao_data s))"
    using assms True by (auto simp: array_out_good_def n_def p_def)
  have bl: "0 < ao_block_size s" using n(1) by (simp add: n_def)
  have len: "length (ao_data s) = length original" using assms by (simp add: array_out_good_def)
  have nx: "ArrayOutputStream_Next s = Some (Some (p, n), s')"
    using True by (simp add: ArrayOutputStream_Next_def Let_def s'_def p_def flip: n_def)
  have "\<exists>s1. array_store p bs s' = Some s1 \<and>
        (int (length bs) = n \<longrightarrow> array_out_good original s1 \<and> array_written s1 = array_written s @ bs \<and>
           ao_position s1 = ao_position s + n) \<and>
        (\<exists>s2. ArrayOutputStream_BackUp (n - int (length bs)) s1 = Some s2 \<and> array_out_good original s2 \<and>
           array_written s2 = array_written s @ bs \<and> ao_position s2 = ao_position s + int (length bs))"
    if l: "int (length bs) \<le> n" for bs
  proof -
    define data where "data = take p (ao_data s) @ bs @ drop (p + length bs) (ao_data s)"
    define s1 where "s1 = s'\<lparr>ao_data := data\<rparr>"
    have b: "p + length bs \<le> length (ao_data s)" using n l by linarith
    then have d: "length data = length (ao_data s)" "take (p + length bs) data = take p (ao_data s) @ bs"
      "drop (p + length bs) data = drop (p + length bs) (ao_data s)"
      by (simp_all add: data_def min_absorb2)
    have orig: "drop (p + length bs) (ao_data s) = drop (p + length bs) original"
    proof -
      have "drop p (ao_data s) = drop p original" using assms n(3) by (simp add: array_out_good_def)
      then have "drop (length bs) (drop p (ao_data s)) = drop (length bs) (drop p original)" by simp
      then show ?thesis by (simp add: add.commute)
    qed
    define t where "t = s1\<lparr>ao_position := int (p + length bs), ao_last_returned_size := 0\<rparr>"
    have "array_store p bs s' = Some s1" using b by (simp add: array_store_def mem_write_def s1_def s'_def data_def)
    moreover have "ArrayOutputStream_BackUp (n - int (length bs)) s1 = Some t"
      using l n by (simp add: ArrayOutputStream_BackUp_def s1_def s'_def t_def)
    moreover have "array_out_good original t" "array_written t = array_written s @ bs"
      "ao_position t = ao_position s + int (length bs)"
      using b d orig n(3,4) bl len by (simp_all add: array_out_good_def t_def s1_def s'_def array_written_def nat_int_add)
    moreover have "array_out_good original s1" "array_written s1 = array_written s @ bs" "ao_position s1 = ao_position s + n"
      if "int (length bs) = n"
    proof -
      have pos: "ao_position s1 = int (p + length bs)" using that n(3) by (simp add: s1_def s'_def)
      then have q: "nat (ao_position s1) = p + length bs" by simp
      have f: "ao_data s1 = data" "ao_size s1 = ao_size s" "ao_block_size s1 = ao_block_size s" by (simp_all add: s1_def s'_def)
      show "array_out_good original s1"
        unfolding array_out_good_def q f using pos b d orig n(4) bl len by simp
      show "array_written s1 = array_written s @ bs"
        unfolding array_written_def q f using d n(3) by simp
      show "ao_position s1 = ao_position s + n" using pos that n(3) by simp
    qed
    ultimately show ?thesis by blast
  qed
  then have "block_usable array_output_stream (array_out_good original) array_written s s' p n"
    using n(1) by (simp add: block_usable_def)
  then show ?thesis using nx by simp
qed

interpretation array_out: output_contract array_output_stream "array_out_good original" array_written
    "\<lambda>s. ao_position s = ao_size s" for original
  by (rule output_contract.intro; unfold array_output_stream_sels) (rule array_out_next_law)

section \<open>Strings\<close>

text \<open>
  A \<open>std::string\<close> with its capacity. Growing beyond it gives at least the capacity that is needed; the
  library chooses it, so the choice is an argument (\<open>grow\<close>, of the old capacity and the new size).
\<close>

record std_string =
  ss_data :: "byte list"
  ss_capacity :: nat

definition string_resize :: "(nat \<Rightarrow> nat \<Rightarrow> nat) \<Rightarrow> nat \<Rightarrow> std_string \<Rightarrow> std_string" where
  "string_resize grow n s = s\<lparr>ss_data := take n (ss_data s) @ replicate (n - length (ss_data s)) 0,
     ss_capacity := (if n \<le> ss_capacity s then ss_capacity s else max n (grow (ss_capacity s) n))\<rparr>"

definition kMinimumSize :: int where
  "kMinimumSize = 16"

definition StringOutputStream_Next ::
  "(nat \<Rightarrow> nat \<Rightarrow> nat) \<Rightarrow> std_string \<Rightarrow> ((nat \<times> int) option \<times> std_string) option" where
  "StringOutputStream_Next grow target = (let old_size = int (length (ss_data target)) in
     if old_size < int (ss_capacity target) then
       let target = string_resize grow (ss_capacity target) target in
       Some (Some (nat old_size, int (length (ss_data target)) - old_size), target)
     else if old_size > INT_MAX div 2 then Some (None, target)
     else
       let target = string_resize grow (nat (max (old_size * 2) (kMinimumSize + 0))) target in
       Some (Some (nat old_size, int (length (ss_data target)) - old_size), target))"

definition StringOutputStream_BackUp :: "(nat \<Rightarrow> nat \<Rightarrow> nat) \<Rightarrow> int \<Rightarrow> std_string \<Rightarrow> std_string option" where
  "StringOutputStream_BackUp grow count target =
     (if \<not> count \<ge> 0 then None
      else if \<not> count \<le> int (length (ss_data target)) then None
      else Some (string_resize grow (nat (int (length (ss_data target)) - count)) target))"

definition string_store :: "nat \<Rightarrow> byte list \<Rightarrow> std_string \<Rightarrow> std_string option" where
  "string_store p bs s = do { data \<leftarrow> mem_write p bs (ss_data s); Some (s\<lparr>ss_data := data\<rparr>) }"

definition string_output_stream :: "(nat \<Rightarrow> nat \<Rightarrow> nat) \<Rightarrow> std_string zero_copy_output" where
  "string_output_stream grow = \<lparr>zo_Next = StringOutputStream_Next grow, zo_store = string_store,
     zo_BackUp = StringOutputStream_BackUp grow, zo_ByteCount = int \<circ> length \<circ> ss_data\<rparr>"

definition string_stuck :: "std_string \<Rightarrow> bool" where
  "string_stuck s \<longleftrightarrow> INT_MAX div 2 < int (length (ss_data s))"

lemma string_output_stream_sels [simp]:
  "zo_Next (string_output_stream grow) = StringOutputStream_Next grow"
  "zo_store (string_output_stream grow) = string_store"
  "zo_BackUp (string_output_stream grow) = StringOutputStream_BackUp grow"
  "zo_ByteCount (string_output_stream grow) s = int (length (ss_data s))"
  by (simp_all add: string_output_stream_def)

lemma string_block_usable:
  assumes "length (ss_data s) < m"
  shows "block_usable (string_output_stream grow) (\<lambda>_. True) ss_data s (string_resize grow m s)
    (length (ss_data s)) (int m - int (length (ss_data s)))"
proof -
  let ?d = "ss_data s" and ?p = "length (ss_data s)" and ?s' = "string_resize grow m s"
  have d: "ss_data ?s' = ?d @ replicate (m - ?p) 0" using assms by (simp add: string_resize_def)
  have "\<exists>s1. string_store ?p bs ?s' = Some s1 \<and>
      (int (length bs) = int m - int ?p \<longrightarrow> ss_data s1 = ?d @ bs) \<and>
      (\<exists>s2. StringOutputStream_BackUp grow (int m - int ?p - int (length bs)) s1 = Some s2 \<and> ss_data s2 = ?d @ bs)"
    if "int (length bs) \<le> int m - int ?p" for bs
  proof -
    have l: "?p + length bs \<le> m" using that by linarith
    define s1 where "s1 = ?s'\<lparr>ss_data := ?d @ bs @ replicate (m - ?p - length bs) 0\<rparr>"
    have st: "string_store ?p bs ?s' = Some s1"
      using l assms by (simp add: string_store_def mem_write_def d s1_def)
    have n: "nat (int (length (ss_data s1)) - (int m - int ?p - int (length bs))) = ?p + length bs"
      using l by (simp add: s1_def)
    have "StringOutputStream_BackUp grow (int m - int ?p - int (length bs)) s1 = Some (string_resize grow (?p + length bs) s1)"
      using l by (simp only: StringOutputStream_BackUp_def n) (simp add: s1_def)
    moreover have "ss_data (string_resize grow (?p + length bs) s1) = ?d @ bs"
      by (simp add: string_resize_def s1_def)
    moreover have "int (length bs) = int m - int ?p \<Longrightarrow> ss_data s1 = ?d @ bs"
      by (simp add: s1_def)
    ultimately show ?thesis using st by blast
  qed
  then show ?thesis using assms unfolding block_usable_def string_output_stream_sels by fastforce
qed

lemma string_next_law:
  "\<exists>r s'. StringOutputStream_Next grow s = Some (r, s') \<and>
    (case r of None \<Rightarrow> string_stuck s
     | Some (p, n) \<Rightarrow> block_usable (string_output_stream grow) (\<lambda>_. True) ss_data s s' p n)"
proof -
  let ?p = "length (ss_data s)"
  define m where "m = (if ?p < ss_capacity s then ss_capacity s else nat (max (int ?p * 2) 16))"
  have m: "?p < m" by (auto simp: m_def max_def)
  have l: "length (ss_data (string_resize grow m s)) = m" using m by (simp add: string_resize_def)
  consider (room) "?p < ss_capacity s" | (big) "\<not> ?p < ss_capacity s" "INT_MAX div 2 < int ?p"
    | (double) "\<not> ?p < ss_capacity s" "\<not> INT_MAX div 2 < int ?p" by blast
  then show ?thesis
  proof cases
    case big
    then show ?thesis by (simp add: StringOutputStream_Next_def string_stuck_def Let_def)
  next
    case room
    then have "StringOutputStream_Next grow s = Some (Some (?p, int m - int ?p), string_resize grow m s)"
      using l by (simp add: StringOutputStream_Next_def Let_def m_def)
    then show ?thesis using string_block_usable [OF m] by simp
  next
    case double
    then have "StringOutputStream_Next grow s = Some (Some (?p, int m - int ?p), string_resize grow m s)"
      using l by (simp add: StringOutputStream_Next_def Let_def m_def kMinimumSize_def)
    then show ?thesis using string_block_usable [OF m] by simp
  qed
qed

interpretation string_out: output_contract "string_output_stream grow" "\<lambda>_. True" ss_data string_stuck for grow
  by (rule output_contract.intro; unfold string_output_stream_sels) (rule string_next_law)

section \<open>Streams that copy\<close>

text \<open>
  \<open>CopyingOutputStream::Write\<close> and its contract: it reports success only when all of the bytes have been
  received; otherwise a part of them may have been.
\<close>

locale copying_writer =
  fixes cwrite :: "byte list \<Rightarrow> 'c \<Rightarrow> (bool \<times> 'c) option"
    and cgood :: "'c \<Rightarrow> bool"
    and received :: "'c \<Rightarrow> byte list"
  assumes write_law: "cgood c \<Longrightarrow> \<exists>ok c'. cwrite bs c = Some (ok, c') \<and> cgood c' \<and>
    (\<exists>k. received c' = received c @ take k bs) \<and> (ok \<longrightarrow> received c' = received c @ bs)"

record 'c copying_out =
  co_copying_stream :: 'c
  co_failed :: bool
  co_position :: int
  co_buffer :: "byte list option"
  co_buffer_size :: int
  co_buffer_used :: int

definition CopyingOutputStreamAdaptor :: "'c \<Rightarrow> int \<Rightarrow> 'c copying_out" where
  "CopyingOutputStreamAdaptor copying_stream block_size =
     \<lparr>co_copying_stream = copying_stream, co_failed = False, co_position = 0, co_buffer = None,
      co_buffer_size = (if block_size > 0 then block_size else kDefaultBlockSize), co_buffer_used = 0\<rparr>"

definition co_AllocateBufferIfNeeded :: "'c copying_out \<Rightarrow> 'c copying_out" where
  "co_AllocateBufferIfNeeded s =
     (case co_buffer s of None \<Rightarrow> s\<lparr>co_buffer := Some (replicate (nat (co_buffer_size s)) 0)\<rparr> | Some _ \<Rightarrow> s)"

definition co_FreeBuffer :: "'c copying_out \<Rightarrow> 'c copying_out" where
  "co_FreeBuffer s = s\<lparr>co_buffer_used := 0, co_buffer := None\<rparr>"

definition WriteBuffer ::
  "(byte list \<Rightarrow> 'c \<Rightarrow> (bool \<times> 'c) option) \<Rightarrow> 'c copying_out \<Rightarrow> (bool \<times> 'c copying_out) option" where
  "WriteBuffer cwrite s =
     (if co_failed s then Some (False, s)
      else if co_buffer_used s = 0 then Some (True, s)
      else do {
        buffer \<leftarrow> co_buffer s;
        bs \<leftarrow> mem_read 0 (nat (co_buffer_used s)) buffer;
        (ok, c) \<leftarrow> cwrite bs (co_copying_stream s);
        let s = s\<lparr>co_copying_stream := c\<rparr> in
        (if ok then Some (True, s\<lparr>co_position := co_position s + co_buffer_used s, co_buffer_used := 0\<rparr>)
         else Some (False, co_FreeBuffer (s\<lparr>co_failed := True\<rparr>))) })"

definition CopyingOutputStreamAdaptor_Next ::
  "(byte list \<Rightarrow> 'c \<Rightarrow> (bool \<times> 'c) option) \<Rightarrow> 'c copying_out \<Rightarrow> ((nat \<times> int) option \<times> 'c copying_out) option" where
  "CopyingOutputStreamAdaptor_Next cwrite s = do {
     (ok, s) \<leftarrow> (if co_buffer_used s = co_buffer_size s then WriteBuffer cwrite s else Some (True, s));
     (if \<not> ok then Some (None, s)
      else let s = co_AllocateBufferIfNeeded s in
        Some (Some (nat (co_buffer_used s), co_buffer_size s - co_buffer_used s), s\<lparr>co_buffer_used := co_buffer_size s\<rparr>)) }"

definition CopyingOutputStreamAdaptor_BackUp :: "int \<Rightarrow> 'c copying_out \<Rightarrow> 'c copying_out option" where
  "CopyingOutputStreamAdaptor_BackUp count s =
     (if \<not> count \<ge> 0 then None
      else if \<not> co_buffer_used s = co_buffer_size s then None
      else if \<not> count \<le> co_buffer_used s then None
      else Some (s\<lparr>co_buffer_used := co_buffer_used s - count\<rparr>))"

definition CopyingOutputStreamAdaptor_ByteCount :: "'c copying_out \<Rightarrow> int" where
  "CopyingOutputStreamAdaptor_ByteCount s = co_position s + co_buffer_used s"

definition CopyingOutputStreamAdaptor_Flush ::
  "(byte list \<Rightarrow> 'c \<Rightarrow> (bool \<times> 'c) option) \<Rightarrow> 'c copying_out \<Rightarrow> (bool \<times> 'c copying_out) option" where
  "CopyingOutputStreamAdaptor_Flush cwrite s = WriteBuffer cwrite s"

definition co_store :: "nat \<Rightarrow> byte list \<Rightarrow> 'c copying_out \<Rightarrow> 'c copying_out option" where
  "co_store p bs s = do {
     buffer \<leftarrow> co_buffer s;
     buffer \<leftarrow> mem_write p bs buffer;
     Some (s\<lparr>co_buffer := Some buffer\<rparr>) }"

definition copying_output_stream :: "(byte list \<Rightarrow> 'c \<Rightarrow> (bool \<times> 'c) option) \<Rightarrow> 'c copying_out zero_copy_output" where
  "copying_output_stream cwrite = \<lparr>zo_Next = CopyingOutputStreamAdaptor_Next cwrite, zo_store = co_store,
     zo_BackUp = CopyingOutputStreamAdaptor_BackUp, zo_ByteCount = CopyingOutputStreamAdaptor_ByteCount\<rparr>"

lemma copying_output_stream_sels [simp]:
  "zo_Next (copying_output_stream cwrite) = CopyingOutputStreamAdaptor_Next cwrite"
  "zo_store (copying_output_stream cwrite) = co_store"
  "zo_BackUp (copying_output_stream cwrite) = CopyingOutputStreamAdaptor_BackUp"
  "zo_ByteCount (copying_output_stream cwrite) = CopyingOutputStreamAdaptor_ByteCount"
  by (simp_all add: copying_output_stream_def)

text \<open>What has been written is what the stream below has received, and the used part of the buffer.\<close>

definition co_used :: "'c copying_out \<Rightarrow> byte list" where
  "co_used s = (case co_buffer s of None \<Rightarrow> [] | Some b \<Rightarrow> take (nat (co_buffer_used s)) b)"

definition co_good :: "('c \<Rightarrow> bool) \<Rightarrow> 'c copying_out \<Rightarrow> bool" where
  "co_good cgood s \<longleftrightarrow> cgood (co_copying_stream s) \<and> \<not> co_failed s \<and> 0 < co_buffer_size s \<and>
     0 \<le> co_buffer_used s \<and> co_buffer_used s \<le> co_buffer_size s \<and>
     (case co_buffer s of None \<Rightarrow> co_buffer_used s = 0 | Some b \<Rightarrow> length b = nat (co_buffer_size s))"

definition co_written :: "('c \<Rightarrow> byte list) \<Rightarrow> 'c copying_out \<Rightarrow> byte list" where
  "co_written received s = received (co_copying_stream s) @ co_used s"

text \<open>\<open>Next\<close> fails only when the buffer is full and cannot be written.\<close>

definition co_stuck :: "(byte list \<Rightarrow> 'c \<Rightarrow> (bool \<times> 'c) option) \<Rightarrow> 'c copying_out \<Rightarrow> bool" where
  "co_stuck cwrite s \<longleftrightarrow> co_buffer_used s = co_buffer_size s \<and>
     (case cwrite (co_used s) (co_copying_stream s) of Some (ok, _) \<Rightarrow> \<not> ok | None \<Rightarrow> False)"

lemma co_good_buffer:
  assumes "co_good cgood s" and "co_buffer_used s \<noteq> 0"
  obtains b where "co_buffer s = Some b" "length b = nat (co_buffer_size s)" "co_used s = take (nat (co_buffer_used s)) b"
    "mem_read 0 (nat (co_buffer_used s)) b = Some (co_used s)"
  using assms by (cases "co_buffer s") (auto simp: co_good_def co_used_def mem_read_def)

context copying_writer
begin

lemma WriteBuffer_law:
  assumes "co_good cgood s"
  shows "\<exists>ok s'. WriteBuffer cwrite s = Some (ok, s') \<and> cgood (co_copying_stream s') \<and>
    (\<exists>k. received (co_copying_stream s') = received (co_copying_stream s) @ take k (co_used s)) \<and>
    (if ok then co_good cgood s' \<and> co_buffer_used s' = 0 \<and> co_buffer_size s' = co_buffer_size s \<and>
       received (co_copying_stream s') = co_written received s \<and> co_written received s' = co_written received s \<and>
       CopyingOutputStreamAdaptor_ByteCount s' = CopyingOutputStreamAdaptor_ByteCount s
     else co_failed s' \<and> (\<exists>c'. cwrite (co_used s) (co_copying_stream s) = Some (False, c')))"
proof (cases "co_buffer_used s = 0")
  case True
  then have "WriteBuffer cwrite s = Some (True, s)" "co_used s = []"
    using assms by (auto simp: WriteBuffer_def co_good_def co_used_def split: option.split)
  then show ?thesis
    using assms True by (intro exI [of _ True] exI [of _ s]) (simp add: co_good_def co_written_def)
next
  case False
  obtain b where b: "co_buffer s = Some b" "length b = nat (co_buffer_size s)"
    "mem_read 0 (nat (co_buffer_used s)) b = Some (co_used s)"
    using co_good_buffer [OF assms False] by blast
  have g: "cgood (co_copying_stream s)" "\<not> co_failed s" using assms by (simp_all add: co_good_def)
  obtain ok c where w: "cwrite (co_used s) (co_copying_stream s) = Some (ok, c)" "cgood c"
    "\<exists>k. received c = received (co_copying_stream s) @ take k (co_used s)" "ok \<longrightarrow> received c = received (co_copying_stream s) @ co_used s"
    using write_law [OF g(1)] by blast
  show ?thesis
  proof (cases ok)
    case True
    define s' where "s' = s\<lparr>co_copying_stream := c, co_position := co_position s + co_buffer_used s, co_buffer_used := 0\<rparr>"
    have "WriteBuffer cwrite s = Some (True, s')"
      using g(2) False b(1,3) w(1) True by (simp add: WriteBuffer_def s'_def)
    moreover have "co_used s' = []" by (simp add: co_used_def s'_def split: option.split)
    ultimately show ?thesis
      using assms b w True by (intro exI [of _ True] exI [of _ s'])
        (simp add: co_good_def s'_def co_written_def CopyingOutputStreamAdaptor_ByteCount_def)
  next
    case no: False
    define s' where "s' = co_FreeBuffer (s\<lparr>co_copying_stream := c, co_failed := True\<rparr>)"
    have "WriteBuffer cwrite s = Some (False, s')"
      using no g(2) False b(1,3) w(1) by (simp add: WriteBuffer_def s'_def)
    then show ?thesis
      using w no by (intro exI [of _ False] exI [of _ s']) (simp add: co_FreeBuffer_def s'_def)
  qed
qed

lemma co_block_usable:
  assumes "co_good cgood s" and "co_buffer_used s < co_buffer_size s"
  shows "block_usable (copying_output_stream cwrite) (co_good cgood) (co_written received) s
    ((co_AllocateBufferIfNeeded s)\<lparr>co_buffer_used := co_buffer_size s\<rparr>)
    (nat (co_buffer_used s)) (co_buffer_size s - co_buffer_used s)"
proof -
  define p where "p = nat (co_buffer_used s)"
  obtain b where b: "co_AllocateBufferIfNeeded s = s\<lparr>co_buffer := Some b\<rparr>" "length b = nat (co_buffer_size s)"
    "co_used s = take p b"
  proof (cases "co_buffer s")
    case None
    then show ?thesis
      using assms(1) that [of "replicate (nat (co_buffer_size s)) 0"]
      by (auto simp: co_AllocateBufferIfNeeded_def co_good_def co_used_def p_def)
  next
    case (Some b)
    then have "s = s\<lparr>co_buffer := Some b\<rparr>" by simp
    then show ?thesis
      using Some assms(1) that [of b] by (auto simp: co_AllocateBufferIfNeeded_def co_good_def co_used_def p_def)
  qed
  let ?n = "co_buffer_size s" and ?u = "co_buffer_used s"
  let ?s' = "s\<lparr>co_buffer := Some b, co_buffer_used := ?n\<rparr>"
  have g: "cgood (co_copying_stream s)" "\<not> co_failed s" "0 < ?n" "?u = int p" using assms by (auto simp: co_good_def p_def)
  have "\<exists>s1. co_store p bs ?s' = Some s1 \<and>
      (int (length bs) = ?n - ?u \<longrightarrow> co_good cgood s1 \<and> co_written received s1 = co_written received s @ bs \<and>
         CopyingOutputStreamAdaptor_ByteCount s1 = CopyingOutputStreamAdaptor_ByteCount s + (?n - ?u)) \<and>
      (\<exists>s2. CopyingOutputStreamAdaptor_BackUp (?n - ?u - int (length bs)) s1 = Some s2 \<and> co_good cgood s2 \<and>
         co_written received s2 = co_written received s @ bs \<and>
         CopyingOutputStreamAdaptor_ByteCount s2 = CopyingOutputStreamAdaptor_ByteCount s + int (length bs))"
    if l: "int (length bs) \<le> ?n - ?u" for bs
  proof -
    define c where "c = take p b @ bs @ drop (p + length bs) b"
    define s1 where "s1 = s\<lparr>co_buffer := Some c, co_buffer_used := ?n\<rparr>"
    define s2 where "s2 = s\<lparr>co_buffer := Some c, co_buffer_used := int (p + length bs)\<rparr>"
    have k: "p + length bs \<le> length b" using l g b(2) by linarith
    then have c: "length c = nat ?n" "take (p + length bs) c = take p b @ bs" using b(2) by (simp_all add: c_def min_absorb2)
    have st: "co_store p bs ?s' = Some s1" using k by (simp add: co_store_def mem_write_def s1_def c_def)
    have bk: "CopyingOutputStreamAdaptor_BackUp (?n - ?u - int (length bs)) s1 = Some s2"
      using l g by (simp add: CopyingOutputStreamAdaptor_BackUp_def s1_def s2_def)
    have used: "nat (int (p + length bs)) = p + length bs" by simp
    have s2: "co_good cgood s2" "co_written received s2 = co_written received s @ bs"
      "CopyingOutputStreamAdaptor_ByteCount s2 = CopyingOutputStreamAdaptor_ByteCount s + int (length bs)"
    proof -
      show "co_good cgood s2" using g c(1) l by (simp add: co_good_def s2_def)
      have f: "co_buffer s2 = Some c" "co_buffer_used s2 = int (p + length bs)" "co_copying_stream s2 = co_copying_stream s"
        by (simp_all add: s2_def)
      have "co_used s2 = take p b @ bs" unfolding co_used_def f option.case used by (rule c(2))
      then show "co_written received s2 = co_written received s @ bs" by (simp add: co_written_def f(3) b(3))
      show "CopyingOutputStreamAdaptor_ByteCount s2 = CopyingOutputStreamAdaptor_ByteCount s + int (length bs)"
        using g by (simp add: CopyingOutputStreamAdaptor_ByteCount_def s2_def)
    qed
    have "s1 = s2" if "int (length bs) = ?n - ?u" using that g by (simp add: s1_def s2_def)
    then show ?thesis using st bk s2 by metis
  qed
  then show ?thesis
    using assms(2) unfolding b(1) by (simp add: block_usable_def p_def)
qed

lemma copying_out_next_law:
  assumes "co_good cgood s"
  shows "\<exists>r s'. CopyingOutputStreamAdaptor_Next cwrite s = Some (r, s') \<and>
    (case r of None \<Rightarrow> co_stuck cwrite s
     | Some (p, n) \<Rightarrow> block_usable (copying_output_stream cwrite) (co_good cgood) (co_written received) s s' p n)"
proof (cases "co_buffer_used s = co_buffer_size s")
  case False
  then have "co_buffer_used s < co_buffer_size s" using assms by (auto simp: co_good_def)
  moreover have "co_buffer_size (co_AllocateBufferIfNeeded s) = co_buffer_size s"
    "co_buffer_used (co_AllocateBufferIfNeeded s) = co_buffer_used s"
    by (simp_all add: co_AllocateBufferIfNeeded_def split: option.split)
  ultimately show ?thesis
    using False co_block_usable [OF assms] by (simp add: CopyingOutputStreamAdaptor_Next_def Let_def)
next
  case True
  obtain ok s1 where w: "WriteBuffer cwrite s = Some (ok, s1)"
    "if ok then co_good cgood s1 \<and> co_buffer_used s1 = 0 \<and> co_buffer_size s1 = co_buffer_size s \<and>
       received (co_copying_stream s1) = co_written received s \<and> co_written received s1 = co_written received s \<and>
       CopyingOutputStreamAdaptor_ByteCount s1 = CopyingOutputStreamAdaptor_ByteCount s
     else co_failed s1 \<and> (\<exists>c'. cwrite (co_used s) (co_copying_stream s) = Some (False, c'))"
    using WriteBuffer_law [OF assms] by blast
  show ?thesis
  proof (cases ok)
    case no: False
    then show ?thesis
      using w True by (auto simp: CopyingOutputStreamAdaptor_Next_def co_stuck_def)
  next
    case yes: True
    have z: "co_buffer_used s1 < co_buffer_size s1" "co_good cgood s1" using w(2) yes by (auto simp: co_good_def)
    have a: "co_buffer_size (co_AllocateBufferIfNeeded s1) = co_buffer_size s1"
      "co_buffer_used (co_AllocateBufferIfNeeded s1) = co_buffer_used s1"
      by (simp_all add: co_AllocateBufferIfNeeded_def split: option.split)
    let ?t = "(co_AllocateBufferIfNeeded s1)\<lparr>co_buffer_used := co_buffer_size s1\<rparr>"
    let ?p = "nat (co_buffer_used s1)" and ?n = "co_buffer_size s1 - co_buffer_used s1"
    have "CopyingOutputStreamAdaptor_Next cwrite s = Some (Some (?p, ?n), ?t)"
      using w(1) yes True a by (simp add: CopyingOutputStreamAdaptor_Next_def Let_def)
    moreover have "block_usable (copying_output_stream cwrite) (co_good cgood) (co_written received) s ?t ?p ?n"
      using co_block_usable [OF z(2,1)] w(2) yes by (simp add: block_usable_def)
    ultimately show ?thesis by simp
  qed
qed

lemma copying_out_contract:
  "output_contract (copying_output_stream cwrite) (co_good cgood) (co_written received) (co_stuck cwrite)"
  by (rule output_contract.intro; unfold copying_output_stream_sels) (rule copying_out_next_law; assumption)

text \<open>Writing data and flushing it: the stream below has received a beginning of the data, all of it on success.\<close>

lemma write_and_flush:
  assumes "co_good cgood s0" and "co_written received s0 = []"
  shows "case write_all (copying_output_stream cwrite) data s0 of
     None \<Rightarrow> False
   | Some (ok, s) \<Rightarrow> (ok \<longrightarrow> \<not> co_failed s) \<and> prefix (received (co_copying_stream s)) data \<and>
       (case CopyingOutputStreamAdaptor_Flush cwrite s of
          None \<Rightarrow> False
        | Some (flushed, s') \<Rightarrow>
            if ok \<and> flushed then received (co_copying_stream s') = data
            else prefix (received (co_copying_stream s')) data)"
proof -
  let ?good = "co_good cgood" and ?written = "co_written received" and ?got = "\<lambda>s. received (co_copying_stream s)"
  obtain ok s where w: "write_all (copying_output_stream cwrite) data s0 = Some (ok, s)"
    "if ok then ?good s \<and> ?written s = data
     else \<exists>s1 k. ?good s1 \<and> co_stuck cwrite s1 \<and> k < length data \<and> ?written s1 = take k data \<and>
       zo_Next (copying_output_stream cwrite) s1 = Some (None, s)"
    using output_contract.write_all_law [OF copying_out_contract assms(1), of data, unfolded assms(2) append_Nil] by (metis (full_types))
  have written_got: "prefix (?got x) (?written x)" for x by (simp add: co_written_def)
  have buf: "\<exists>b y. WriteBuffer cwrite x = Some (b, y) \<and> prefix (?got y) (?written x) \<and>
      (if b then ?got y = ?written x else co_failed y)" if "?good x" for x
  proof -
    have "prefix (u @ take k v) (u @ v)" for u v :: "byte list" and k by (simp add: take_is_prefix)
    then show ?thesis using WriteBuffer_law [OF that] unfolding co_written_def by (metis (no_types, lifting))
  qed
  show ?thesis
  proof (cases ok)
    case True
    then have s: "?good s" "?written s = data" using w(2) by auto
    obtain b y where "WriteBuffer cwrite s = Some (b, y)" "prefix (?got y) data" "b \<Longrightarrow> ?got y = data"
      using buf [OF s(1)] s(2) by (auto split: if_splits)
    then show ?thesis using w(1) True written_got [of s] s by (simp add: CopyingOutputStreamAdaptor_Flush_def co_good_def)
  next
    case False
    then obtain s1 k where s1: "?good s1" "co_stuck cwrite s1" "?written s1 = take k data"
      "CopyingOutputStreamAdaptor_Next cwrite s1 = Some (None, s)"
      using w(2) by auto
    have "co_buffer_used s1 = co_buffer_size s1" using s1(2) by (simp add: co_stuck_def)
    then have "WriteBuffer cwrite s1 = Some (False, s)"
      using s1(4) by (auto simp: CopyingOutputStreamAdaptor_Next_def Let_def bind_Some_iff split: if_splits)
    then have "prefix (?got s) (take k data)" "co_failed s" using buf [OF s1(1)] s1(3) by auto
    moreover from this have "prefix (?got s) data" using prefix_order.trans take_is_prefix by blast
    ultimately show ?thesis using w(1) False by (simp add: CopyingOutputStreamAdaptor_Flush_def WriteBuffer_def)
  qed
qed

end

section \<open>File descriptors\<close>

text \<open>
  What the operating system does with the calls of \<open>write\<close>, as a list of events; after them every call
  writes all it is given. The descriptor also records what it has received.
\<close>

datatype write_event =
  Write_interrupted
| Write_accept nat
| Write_error int

record out_file =
  of_events :: "write_event list"
  of_received :: "byte list"

definition sys_write :: "byte list \<Rightarrow> out_file \<Rightarrow> int \<times> int \<times> out_file" where
  "sys_write bs fd =
     (case of_events fd of
        [] \<Rightarrow> (int (length bs), 0, fd\<lparr>of_received := of_received fd @ bs\<rparr>)
      | Write_interrupted # evs \<Rightarrow> (- 1, EINTR, fd\<lparr>of_events := evs\<rparr>)
      | Write_accept n # evs \<Rightarrow>
          (int (min n (length bs)), 0, fd\<lparr>of_events := evs, of_received := of_received fd @ take n bs\<rparr>)
      | Write_error e # evs \<Rightarrow> (- 1, e, fd\<lparr>of_events := evs\<rparr>))"

record copying_file_output =
  fo_file :: out_file
  fo_is_closed :: bool
  fo_errno :: int

function write_no_eintr :: "byte list \<Rightarrow> out_file \<Rightarrow> int \<times> int \<times> out_file" where
  "write_no_eintr bs fd =
     (case sys_write bs fd of (bytes, errno, fd') \<Rightarrow>
        if bytes < 0 \<and> errno = EINTR then write_no_eintr bs fd' else (bytes, errno, fd'))"
  by pat_completeness auto
termination
  by (relation "measure (\<lambda>(bs, fd). length (of_events fd))")
    (auto simp: sys_write_def split: list.splits write_event.splits if_splits)

declare write_no_eintr.simps [simp del]

text \<open>The loop of \<open>Write\<close>; \<open>bs\<close> are the bytes behind \<open>total_written\<close>.\<close>

function write_loop :: "byte list \<Rightarrow> copying_file_output \<Rightarrow> bool \<times> copying_file_output" where
  "write_loop bs s =
     (if bs = [] then (True, s)
      else (case write_no_eintr bs (fo_file s) of (bytes, errno, fd) \<Rightarrow>
        let s = s\<lparr>fo_file := fd\<rparr> in
        if bytes \<le> 0 then (False, if bytes < 0 then s\<lparr>fo_errno := errno\<rparr> else s)
        else write_loop (drop (nat bytes) bs) s))"
  by pat_completeness auto
termination
  by (relation "measure (\<lambda>(bs, s). length bs)") auto

declare write_loop.simps [simp del]

definition CopyingFileOutputStream_Write :: "byte list \<Rightarrow> copying_file_output \<Rightarrow> (bool \<times> copying_file_output) option" where
  "CopyingFileOutputStream_Write bs s = (if fo_is_closed s then None else Some (write_loop bs s))"

definition CopyingFileOutputStream_Close :: "int \<Rightarrow> int \<Rightarrow> copying_file_output \<Rightarrow> (bool \<times> copying_file_output) option" where
  "CopyingFileOutputStream_Close close_result errno s =
     (if fo_is_closed s then None
      else let s = s\<lparr>fo_is_closed := True\<rparr> in
        if close_result \<noteq> 0 then Some (False, s\<lparr>fo_errno := errno\<rparr>) else Some (True, s))"

definition CopyingFileOutputStream :: "out_file \<Rightarrow> copying_file_output" where
  "CopyingFileOutputStream file_descriptor = \<lparr>fo_file = file_descriptor, fo_is_closed = False, fo_errno = 0\<rparr>"

definition FileOutputStream :: "out_file \<Rightarrow> int \<Rightarrow> copying_file_output copying_out" where
  "FileOutputStream file_descriptor block_size = CopyingOutputStreamAdaptor (CopyingFileOutputStream file_descriptor) block_size"

definition file_output_stream :: "copying_file_output copying_out zero_copy_output" where
  "file_output_stream = copying_output_stream CopyingFileOutputStream_Write"

definition FileOutputStream_Flush :: "copying_file_output copying_out \<Rightarrow> (bool \<times> copying_file_output copying_out) option" where
  "FileOutputStream_Flush s = CopyingOutputStreamAdaptor_Flush CopyingFileOutputStream_Write s"

definition FileOutputStream_Close ::
  "int \<Rightarrow> int \<Rightarrow> copying_file_output copying_out \<Rightarrow> (bool \<times> copying_file_output copying_out) option" where
  "FileOutputStream_Close close_result errno s = do {
     (flush_succeeded, s) \<leftarrow> FileOutputStream_Flush s;
     (ok, c) \<leftarrow> CopyingFileOutputStream_Close close_result errno (co_copying_stream s);
     Some (ok \<and> flush_succeeded, s\<lparr>co_copying_stream := c\<rparr>) }"

lemma write_no_eintr_law:
  "\<exists>r e fd'. write_no_eintr bs fd = (r, e, fd') \<and>
    (0 < r \<longrightarrow> nat r \<le> length bs \<and> of_received fd' = of_received fd @ take (nat r) bs) \<and>
    (r \<le> 0 \<longrightarrow> of_received fd' = of_received fd \<or> bs = [])"
proof (induction "of_events fd" arbitrary: fd)
  case Nil
  then show ?case by (subst write_no_eintr.simps) (simp add: sys_write_def flip: Nil)
next
  case (Cons ev evs)
  note e = Cons.hyps(2) [symmetric]
  show ?case
  proof (cases ev)
    case Write_interrupted
    then have "write_no_eintr bs fd = write_no_eintr bs (fd\<lparr>of_events := evs\<rparr>)"
      by (subst write_no_eintr.simps) (simp add: sys_write_def e)
    then show ?thesis using Cons.hyps(1) [of "fd\<lparr>of_events := evs\<rparr>"] by simp
  next
    case (Write_accept n)
    then show ?thesis
      by (subst write_no_eintr.simps) (auto simp: sys_write_def e min_def)
  next
    case (Write_error n)
    show ?thesis
    proof (cases "n = EINTR")
      case True
      then have "write_no_eintr bs fd = write_no_eintr bs (fd\<lparr>of_events := evs\<rparr>)"
        using Write_error by (subst write_no_eintr.simps) (simp add: sys_write_def e)
      then show ?thesis using Cons.hyps(1) [of "fd\<lparr>of_events := evs\<rparr>"] by simp
    next
      case False
      then show ?thesis using Write_error by (subst write_no_eintr.simps) (simp add: sys_write_def e)
    qed
  qed
qed

lemma write_loop_law:
  "\<exists>ok s'. write_loop bs s = (ok, s') \<and> fo_is_closed s' = fo_is_closed s \<and>
    (\<exists>k. of_received (fo_file s') = of_received (fo_file s) @ take k bs) \<and>
    (ok \<longrightarrow> of_received (fo_file s') = of_received (fo_file s) @ bs)"
proof (induction "length bs" arbitrary: bs s rule: less_induct)
  case less
  show ?case
  proof (cases "bs = []")
    case True
    then have "write_loop bs s = (True, s)" by (simp add: write_loop.simps)
    then show ?thesis using True by (intro exI [of _ True] exI [of _ s]) simp
  next
    case False
    obtain r e fd where w: "write_no_eintr bs (fo_file s) = (r, e, fd)"
      "0 < r \<longrightarrow> nat r \<le> length bs \<and> of_received fd = of_received (fo_file s) @ take (nat r) bs"
      "r \<le> 0 \<longrightarrow> of_received fd = of_received (fo_file s) \<or> bs = []"
      using write_no_eintr_law [of bs "fo_file s"] by blast
    let ?s = "s\<lparr>fo_file := fd\<rparr>"
    show ?thesis
    proof (cases "r \<le> 0")
      case True
      define s' where "s' = (if r < 0 then ?s\<lparr>fo_errno := e\<rparr> else ?s)"
      have "write_loop bs s = (False, s')" using False w(1) True by (simp add: write_loop.simps [of bs] Let_def s'_def)
      moreover have "of_received (fo_file s') = of_received (fo_file s) @ take 0 bs" "fo_is_closed s' = fo_is_closed s"
        using w(3) True False by (simp_all add: s'_def)
      ultimately show ?thesis by (intro exI [of _ False] exI [of _ s']) (metis)
    next
      case pos: False
      have step: "write_loop bs s = write_loop (drop (nat r) bs) ?s"
        using False w(1) pos by (simp add: write_loop.simps [of bs] Let_def)
      have "length (drop (nat r) bs) < length bs" using pos False by simp
      from less.hyps [OF this, of ?s] obtain ok s' k where h: "write_loop (drop (nat r) bs) ?s = (ok, s')"
        "fo_is_closed s' = fo_is_closed ?s" "of_received (fo_file s') = of_received (fo_file ?s) @ take k (drop (nat r) bs)"
        "ok \<longrightarrow> of_received (fo_file s') = of_received (fo_file ?s) @ drop (nat r) bs"
        by blast
      have "of_received (fo_file s') = of_received (fo_file s) @ take (nat r + k) bs"
        using h(3) w(2) pos by (simp add: take_add)
      moreover have "ok \<longrightarrow> of_received (fo_file s') = of_received (fo_file s) @ bs"
        using h(4) w(2) pos by simp
      moreover have "fo_is_closed s' = fo_is_closed s" using h(2) by simp
      ultimately show ?thesis unfolding step using h(1) by blast
    qed
  qed
qed

interpretation file_writer: copying_writer CopyingFileOutputStream_Write "\<lambda>s. \<not> fo_is_closed s" "of_received \<circ> fo_file"
proof unfold_locales
  fix c :: copying_file_output and bs
  assume "\<not> fo_is_closed c"
  then show "\<exists>ok c'. CopyingFileOutputStream_Write bs c = Some (ok, c') \<and> \<not> fo_is_closed c' \<and>
      (\<exists>k. (of_received \<circ> fo_file) c' = (of_received \<circ> fo_file) c @ take k bs) \<and>
      (ok \<longrightarrow> (of_received \<circ> fo_file) c' = (of_received \<circ> fo_file) c @ bs)"
    using write_loop_law [of bs c] unfolding CopyingFileOutputStream_Write_def comp_def by metis
qed

interpretation file_out: output_contract file_output_stream "co_good (\<lambda>s. \<not> fo_is_closed s)"
    "co_written (of_received \<circ> fo_file)" "co_stuck CopyingFileOutputStream_Write"
  unfolding file_output_stream_def by (rule file_writer.copying_out_contract)

section \<open>C++ streams\<close>

text \<open>
  A \<open>std::ostream\<close>: what it has received, whether its state is good, and how many characters its buffer takes in the next
  calls before it fails (\<open>None\<close>, and every call after the list, takes all of them). A stream whose state is not good writes
  nothing.
\<close>

record ostream =
  os_events :: "nat option list"
  os_received :: "byte list"
  os_good :: bool

definition ostream_write :: "byte list \<Rightarrow> ostream \<Rightarrow> ostream" where
  "ostream_write bs s =
     (if \<not> os_good s then s
      else case os_events s of
          Some n # evs \<Rightarrow>
            s\<lparr>os_events := evs, os_received := os_received s @ take n bs, os_good := length bs \<le> n\<rparr>
        | evs \<Rightarrow> s\<lparr>os_events := tl evs, os_received := os_received s @ bs\<rparr>)"

definition CopyingOstreamOutputStream_Write :: "byte list \<Rightarrow> ostream \<Rightarrow> (bool \<times> ostream) option" where
  "CopyingOstreamOutputStream_Write bs output = (let output = ostream_write bs output in Some (os_good output, output))"

definition OstreamOutputStream :: "ostream \<Rightarrow> int \<Rightarrow> ostream copying_out" where
  "OstreamOutputStream output block_size = CopyingOutputStreamAdaptor output block_size"

definition ostream_output_stream :: "ostream copying_out zero_copy_output" where
  "ostream_output_stream = copying_output_stream CopyingOstreamOutputStream_Write"

definition OstreamOutputStream_delete :: "ostream copying_out \<Rightarrow> ostream option" where
  "OstreamOutputStream_delete s = do {
     (_, s) \<leftarrow> CopyingOutputStreamAdaptor_Flush CopyingOstreamOutputStream_Write s;
     Some (co_copying_stream s) }"

interpretation ostream_writer: copying_writer CopyingOstreamOutputStream_Write "\<lambda>_. True" os_received
proof unfold_locales
  fix c :: ostream and bs
  have "\<exists>k. os_received (ostream_write bs c) = os_received c @ take k bs"
    by (cases "os_events c"; cases "hd (os_events c)")
      (auto simp: ostream_write_def intro: exI [of _ 0] exI [of _ "length bs"])
  moreover have "os_good (ostream_write bs c) \<longrightarrow> os_received (ostream_write bs c) = os_received c @ bs"
    by (auto simp: ostream_write_def split: list.splits option.splits)
  ultimately show "\<exists>ok c'. CopyingOstreamOutputStream_Write bs c = Some (ok, c') \<and> True \<and>
      (\<exists>k. os_received c' = os_received c @ take k bs) \<and> (ok \<longrightarrow> os_received c' = os_received c @ bs)"
    by (simp add: CopyingOstreamOutputStream_Write_def Let_def)
qed

interpretation ostream_out: output_contract ostream_output_stream "co_good (\<lambda>_. True)"
    "co_written os_received" "co_stuck CopyingOstreamOutputStream_Write"
  unfolding ostream_output_stream_def by (rule ostream_writer.copying_out_contract)

section \<open>Properties\<close>

text \<open>
  Data written block by block to an \<open>ArrayOutputStream\<close> ends up at the start of the array, with the rest of
  the array as it was, exactly when it fits; otherwise the array is full of its beginning and the stream
  reports the end. Written to a \<open>StringOutputStream\<close> it is appended to the string, however the string grows.
\<close>

theorem memory_streams_hold_data:
  assumes "int (length (ss_data target) + length data) \<le> INT_MAX div 2"
  shows "(\<exists>s. write_all array_output_stream data (ArrayOutputStream array (int (length array)) block_size) =
      Some (length data \<le> length array, s) \<and> ao_data s = take (length array) data @ drop (length data) array \<and>
      ao_position s = int (min (length array) (length data))) \<and>
    (\<exists>t. write_all (string_output_stream grow) data target = Some (True, t) \<and> ss_data t = ss_data target @ data)"
proof
  let ?s = "ArrayOutputStream array (int (length array)) block_size"
  have g: "array_out_good array ?s" "array_written ?s = []" "ao_position ?s = 0"
    by (auto simp: array_out_good_def array_written_def ArrayOutputStream_def)
  obtain ok s where w: "write_all array_output_stream data ?s = Some (ok, s)"
    "if ok then array_out_good array s \<and> array_written s = data \<and> ao_position s = int (length data)
     else \<exists>s0 k. array_out_good array s0 \<and> ao_position s0 = ao_size s0 \<and> k < length data \<and>
       array_written s0 = take k data \<and> ArrayOutputStream_Next s0 = Some (None, s)"
    using array_out.write_all_law [OF g(1), of data, unfolded g(2,3) array_output_stream_sels append_Nil add_0] by blast
  show "\<exists>s. write_all array_output_stream data ?s = Some (length data \<le> length array, s) \<and>
      ao_data s = take (length array) data @ drop (length data) array \<and> ao_position s = int (min (length array) (length data))"
  proof (cases ok)
    case True
    then have s: "array_out_good array s" "take (length data) (ao_data s) = data" "ao_position s = int (length data)"
      using w(2) by (auto simp: array_written_def)
    then have l: "length data \<le> length array" "drop (length data) (ao_data s) = drop (length data) array"
      by (auto simp: array_out_good_def)
    then have "ao_data s = data @ drop (length data) array" using append_take_drop_id [of "length data" "ao_data s"] s(2) by simp
    then show ?thesis using w(1) True s(3) l(1) by simp
  next
    case False
    then obtain s0 k where k: "array_out_good array s0" "ao_position s0 = ao_size s0" "k < length data"
      "array_written s0 = take k data" "ArrayOutputStream_Next s0 = Some (None, s)"
      using w(2) by auto
    have d: "ao_data s0 = take k data" "length (ao_data s0) = length array" "ao_size s0 = int (length array)"
      using k(1,2,4) by (auto simp: array_out_good_def array_written_def)
    then have "k = length array" using k(3) by simp
    moreover have "s = s0\<lparr>ao_last_returned_size := 0\<rparr>" using k(2,5) by (simp add: ArrayOutputStream_Next_def)
    ultimately show ?thesis using w(1) False d k(2,3) by simp
  qed
next
  obtain ok t where w: "write_all (string_output_stream grow) data target = Some (ok, t)"
    "ok \<Longrightarrow> ss_data t = ss_data target @ data"
    "\<not> ok \<Longrightarrow> \<exists>s0 k. string_stuck s0 \<and> k < length data \<and> ss_data s0 = ss_data target @ take k data"
    using string_out.write_all_law [where s = target and grow = grow and data = data] by (metis (no_types, lifting))
  moreover have "\<not> string_stuck s0" if "k < length data" "ss_data s0 = ss_data target @ take k data" for s0 :: std_string and k
    using assms that by (simp add: string_stuck_def)
  ultimately show "\<exists>t. write_all (string_output_stream grow) data target = Some (True, t) \<and> ss_data t = ss_data target @ data"
    by (cases ok) auto
qed

theorem memory_streams_hold_data_witness:
  "(\<exists>s. write_all array_output_stream [1, 2, 3] (ArrayOutputStream [0, 0, 0, 9] 4 2) = Some (True, s) \<and>
      ao_data s = [1, 2, 3, 9] \<and> ao_position s = 3) \<and>
    (\<exists>t. write_all (string_output_stream (\<lambda>c n. 2 * n)) [1, 2, 3] \<lparr>ss_data = [7], ss_capacity = 2\<rparr> = Some (True, t) \<and>
      ss_data t = [7, 1, 2, 3])"
  using memory_streams_hold_data [of "\<lparr>ss_data = [7], ss_capacity = 2\<rparr>" "[1, 2, 3]" "[0, 0, 0, 9]" 2 "\<lambda>c n. 2 * n"]
  by (simp add: INT_MAX_def)

text \<open>
  C31. When writing data to a \<open>FileOutputStream\<close> and flushing it both report success, the descriptor has received
  exactly the data, however the calls of \<open>write\<close> were interrupted or cut short; and whether or not they
  succeed, it has received a beginning of the data and nothing else.
\<close>

theorem file_output_receives_data:
  "case write_all file_output_stream data (FileOutputStream \<lparr>of_events = events, of_received = []\<rparr> block_size) of
     None \<Rightarrow> False
   | Some (ok, s) \<Rightarrow> prefix (of_received (fo_file (co_copying_stream s))) data \<and>
       (case FileOutputStream_Flush s of
          None \<Rightarrow> False
        | Some (flushed, s') \<Rightarrow>
            if ok \<and> flushed then of_received (fo_file (co_copying_stream s')) = data
            else prefix (of_received (fo_file (co_copying_stream s'))) data)"
proof -
  let ?s = "FileOutputStream \<lparr>of_events = events, of_received = []\<rparr> block_size"
  have "co_good (\<lambda>s. \<not> fo_is_closed s) ?s" "co_written (of_received \<circ> fo_file) ?s = []"
    by (simp_all add: FileOutputStream_def CopyingOutputStreamAdaptor_def CopyingFileOutputStream_def co_good_def
        co_written_def co_used_def kDefaultBlockSize_def)
  note w = file_writer.write_and_flush [OF this, of data, unfolded o_apply]
  show ?thesis
    using w unfolding file_output_stream_def FileOutputStream_Flush_def
    by (cases "write_all (copying_output_stream CopyingFileOutputStream_Write) data ?s") (auto split: option.splits)
qed

text \<open>
  The same for a C++ stream, and when the \<open>OstreamOutputStream\<close> is destroyed: the C++ stream has received the data, or a beginning
  of them and then its state is not good.
\<close>

theorem ostream_output_receives_data:
  "case write_all ostream_output_stream data (OstreamOutputStream \<lparr>os_events = events, os_received = [], os_good = True\<rparr> block_size) of
     None \<Rightarrow> False
   | Some (ok, s) \<Rightarrow>
       (case OstreamOutputStream_delete s of
          None \<Rightarrow> False
        | Some output \<Rightarrow> prefix (os_received output) data \<and> (if ok \<and> os_good output then os_received output = data else True))"
proof -
  let ?s = "OstreamOutputStream \<lparr>os_events = events, os_received = [], os_good = True\<rparr> block_size"
  have "co_good (\<lambda>_. True) ?s" "co_written os_received ?s = []"
    by (simp_all add: OstreamOutputStream_def CopyingOutputStreamAdaptor_def co_good_def
        co_written_def co_used_def kDefaultBlockSize_def)
  note w = ostream_writer.write_and_flush [OF this, of data]
  have g: "os_good (co_copying_stream s') \<longrightarrow> flushed"
    if "CopyingOutputStreamAdaptor_Flush CopyingOstreamOutputStream_Write s = Some (flushed, s')" "\<not> co_failed s" for s flushed s'
    using that
    by (auto simp: CopyingOutputStreamAdaptor_Flush_def WriteBuffer_def CopyingOstreamOutputStream_Write_def Let_def
        co_FreeBuffer_def bind_Some_iff split: if_splits)
  show ?thesis
  proof (cases "write_all (copying_output_stream CopyingOstreamOutputStream_Write) data ?s")
    case None
    then show ?thesis using w by simp
  next
    case (Some r)
    obtain ok s where r: "r = (ok, s)" by (cases r)
    obtain flushed s' where f: "CopyingOutputStreamAdaptor_Flush CopyingOstreamOutputStream_Write s = Some (flushed, s')"
      using w Some r by (cases "CopyingOutputStreamAdaptor_Flush CopyingOstreamOutputStream_Write s") auto
    have "os_good (co_copying_stream s') \<longrightarrow> ok \<longrightarrow> flushed" using g [OF f] w Some r by simp
    then show ?thesis
      using w Some r f by (cases "ok \<and> flushed") (auto simp: ostream_output_stream_def OstreamOutputStream_delete_def)
  qed
qed

end
