(* ===== verification/CodedOutput.thy ===== *)
theory CodedOutput
  imports ZeroCopyOutput Varint
begin

text \<open>
  \<open>CodedOutputStream\<close> of protobuf (io/coded_stream.cc and .h): typed writes into the blocks of any zero-copy
  output stream. The stream below is used through its table of methods, and what the proofs need of it is the
  contract \<open>output_contract\<close>, extended by a law on consecutive stores into one block.

  \<open>buffer_\<close> is the offset of the next byte to write in the memory of the stream below, \<open>None\<close> for \<open>NULL\<close>; copying no
  bytes through it does nothing. Writes that alias the caller's memory are not modelled, so \<open>WriteRawMaybeAliased\<close> is
  \<open>WriteRaw\<close>, as when aliasing has not been enabled.
\<close>

section \<open>The contract, for more than one store\<close>

locale output_memory = output_contract +
  assumes store_nil: "zo_store zo p [] s = Some s1 \<Longrightarrow> s1 = s"
    and store_append: "zo_store zo p bs s = Some s1 \<Longrightarrow> zo_store zo (p + length bs) cs s1 = zo_store zo p (bs @ cs) s"

lemma mem_write_append:
  assumes "mem_write p bs m = Some m1"
  shows "mem_write (p + length bs) cs m1 = mem_write p (bs @ cs) m"
proof -
  have le: "p + length bs \<le> length m" and m1: "m1 = take p m @ bs @ drop (p + length bs) m"
    using assms by (auto simp: mem_write_def split: if_splits)
  have "length m1 = length m" "take (p + length bs) m1 = take p m @ bs"
    "drop (p + length bs + length cs) m1 = drop (p + length bs + length cs) m"
    using le by (simp_all add: m1 min_absorb2 add.commute)
  then show ?thesis by (simp add: mem_write_def add.assoc)
qed

lemma mem_write_nil: "mem_write p [] m = Some m1 \<Longrightarrow> m1 = m"
  by (auto simp: mem_write_def split: if_splits)

interpretation array_mem: output_memory array_output_stream "array_out_good original" array_written
    "\<lambda>s. ao_position s = ao_size s" for original
proof
  fix p s s1
  assume "zo_store array_output_stream p [] s = Some s1"
  then show "s1 = s" by (auto simp: array_store_def bind_Some_iff dest!: mem_write_nil)
next
  fix p bs s s1 cs
  assume "zo_store array_output_stream p bs s = Some s1"
  then show "zo_store array_output_stream (p + length bs) cs s1 = zo_store array_output_stream p (bs @ cs) s"
    by (auto simp: array_store_def bind_Some_iff mem_write_append)
qed

interpretation string_mem: output_memory "string_output_stream grow" "\<lambda>_. True" ss_data string_stuck for grow
proof
  fix p s s1
  assume "zo_store (string_output_stream grow) p [] s = Some s1"
  then show "s1 = s" by (auto simp: string_store_def bind_Some_iff dest!: mem_write_nil)
next
  fix p bs s s1 cs
  assume "zo_store (string_output_stream grow) p bs s = Some s1"
  then show "zo_store (string_output_stream grow) (p + length bs) cs s1 = zo_store (string_output_stream grow) p (bs @ cs) s"
    by (auto simp: string_store_def bind_Some_iff mem_write_append)
qed

lemma co_store_append: "co_store p bs s = Some s1 \<Longrightarrow> co_store (p + length bs) cs s1 = co_store p (bs @ cs) s"
  by (auto simp: co_store_def bind_Some_iff mem_write_append)

interpretation file_mem: output_memory file_output_stream "co_good (\<lambda>s. \<not> fo_is_closed s)"
    "co_written (of_received \<circ> fo_file)" "co_stuck CopyingFileOutputStream_Write"
proof
  fix p s s1
  assume "zo_store file_output_stream p [] s = Some s1"
  then show "s1 = s" by (auto simp: file_output_stream_def co_store_def bind_Some_iff dest!: mem_write_nil)
next
  fix p bs s s1 cs
  assume "zo_store file_output_stream p bs s = Some s1"
  then show "zo_store file_output_stream (p + length bs) cs s1 = zo_store file_output_stream p (bs @ cs) s"
    by (simp add: file_output_stream_def co_store_append)
qed

section \<open>The state\<close>

record 's coded_output =
  cw_output :: 's
  cw_buffer :: "nat option"
  cw_buffer_size :: int
  cw_total_bytes :: int
  cw_had_error :: bool

definition cw_store :: "'s zero_copy_output \<Rightarrow> byte list \<Rightarrow> 's coded_output \<Rightarrow> 's coded_output option" where
  "cw_store zo bs s =
     (if bs = [] then Some s
      else do {
        p \<leftarrow> cw_buffer s;
        output \<leftarrow> zo_store zo p bs (cw_output s);
        Some (s\<lparr>cw_output := output\<rparr>) })"

definition cw_Advance :: "int \<Rightarrow> 's coded_output \<Rightarrow> 's coded_output" where
  "cw_Advance amount s =
     s\<lparr>cw_buffer := map_option (\<lambda>p. p + nat amount) (cw_buffer s), cw_buffer_size := cw_buffer_size s - amount\<rparr>"

definition cw_Refresh :: "'s zero_copy_output \<Rightarrow> 's coded_output \<Rightarrow> (bool \<times> 's coded_output) option" where
  "cw_Refresh zo s = do {
     (r, output) \<leftarrow> zo_Next zo (cw_output s);
     let s = s\<lparr>cw_output := output\<rparr> in
     (case r of
        Some (p, n) \<Rightarrow>
          Some (True, s\<lparr>cw_buffer := Some p, cw_buffer_size := n, cw_total_bytes := cw_total_bytes s + n\<rparr>)
      | None \<Rightarrow> Some (False, s\<lparr>cw_buffer := None, cw_buffer_size := 0, cw_had_error := True\<rparr>)) }"

definition CodedOutputStream :: "'s zero_copy_output \<Rightarrow> 's \<Rightarrow> 's coded_output option" where
  "CodedOutputStream zo output = do {
     (_, s) \<leftarrow> cw_Refresh zo \<lparr>cw_output = output, cw_buffer = None, cw_buffer_size = 0, cw_total_bytes = 0, cw_had_error = False\<rparr>;
     Some (s\<lparr>cw_had_error := False\<rparr>) }"

text \<open>The destructor leaves the stream below.\<close>

definition CodedOutputStream_delete :: "'s zero_copy_output \<Rightarrow> 's coded_output \<Rightarrow> 's option" where
  "CodedOutputStream_delete zo s =
     (if cw_buffer_size s > 0 then zo_BackUp zo (cw_buffer_size s) (cw_output s) else Some (cw_output s))"

definition CodedOutputStream_ByteCount :: "'s coded_output \<Rightarrow> int" where
  "CodedOutputStream_ByteCount s = cw_total_bytes s - cw_buffer_size s"

definition HadError :: "'s coded_output \<Rightarrow> bool" where
  "HadError s = cw_had_error s"

section \<open>Writes\<close>

partial_function (option) skip_loop :: "'s zero_copy_output \<Rightarrow> int \<Rightarrow> 's coded_output \<Rightarrow> (bool \<times> 's coded_output) option" where
  "skip_loop zo count s =
     (if count > cw_buffer_size s then do {
        (ok, s') \<leftarrow> cw_Refresh zo s;
        (if \<not> ok then Some (False, s') else skip_loop zo (count - cw_buffer_size s) s') }
      else Some (True, cw_Advance count s))"

definition CodedOutputStream_Skip :: "'s zero_copy_output \<Rightarrow> int \<Rightarrow> 's coded_output \<Rightarrow> (bool \<times> 's coded_output) option" where
  "CodedOutputStream_Skip zo count s = (if count < 0 then Some (False, s) else skip_loop zo count s)"

text \<open>The pointer and the size of what is left of the block.\<close>

definition cw_GetDirectBufferPointer ::
  "'s zero_copy_output \<Rightarrow> 's coded_output \<Rightarrow> ((nat option \<times> int) option \<times> 's coded_output) option" where
  "cw_GetDirectBufferPointer zo s = do {
     (ok, s) \<leftarrow> (if cw_buffer_size s = 0 then cw_Refresh zo s else Some (True, s));
     Some (if ok then Some (cw_buffer s, cw_buffer_size s) else None, s) }"

definition GetDirectBufferForNBytesAndAdvance :: "int \<Rightarrow> 's coded_output \<Rightarrow> nat option \<times> 's coded_output" where
  "GetDirectBufferForNBytesAndAdvance n s =
     (if cw_buffer_size s < n then (None, s) else (cw_buffer s, cw_Advance n s))"

partial_function (option) WriteRaw :: "'s zero_copy_output \<Rightarrow> byte list \<Rightarrow> 's coded_output \<Rightarrow> 's coded_output option" where
  "WriteRaw zo data s =
     (if cw_buffer_size s < int (length data) then do {
        s' \<leftarrow> cw_store zo (take (nat (cw_buffer_size s)) data) s;
        (ok, s') \<leftarrow> cw_Refresh zo s';
        (if \<not> ok then Some s' else WriteRaw zo (drop (nat (cw_buffer_size s)) data) s') }
      else do {
        s' \<leftarrow> cw_store zo data s;
        Some (cw_Advance (int (length data)) s') })"

definition CodedOutputStream_WriteString :: "'s zero_copy_output \<Rightarrow> byte list \<Rightarrow> 's coded_output \<Rightarrow> 's coded_output option" where
  "CodedOutputStream_WriteString zo str s = WriteRaw zo str s"

text \<open>The versions for any byte order; on a little-endian machine the code copies the four or eight bytes.\<close>

definition WriteLittleEndian32ToArray :: "uint32 \<Rightarrow> byte list" where
  "WriteLittleEndian32ToArray v = [ucast v, ucast (drop_bit 8 v), ucast (drop_bit 16 v), ucast (drop_bit 24 v)]"

definition WriteLittleEndian64ToArray :: "uint64 \<Rightarrow> byte list" where
  "WriteLittleEndian64ToArray v = (let part0 = ucast v :: uint32; part1 = ucast (drop_bit 32 v) :: uint32 in
     [ucast part0, ucast (drop_bit 8 part0), ucast (drop_bit 16 part0), ucast (drop_bit 24 part0),
      ucast part1, ucast (drop_bit 8 part1), ucast (drop_bit 16 part1), ucast (drop_bit 24 part1)])"

definition WriteLittleEndian32 :: "'s zero_copy_output \<Rightarrow> uint32 \<Rightarrow> 's coded_output \<Rightarrow> 's coded_output option" where
  "WriteLittleEndian32 zo v s =
     (if cw_buffer_size s \<ge> 4 then do {
        s \<leftarrow> cw_store zo (WriteLittleEndian32ToArray v) s;
        Some (cw_Advance 4 s) }
      else WriteRaw zo (WriteLittleEndian32ToArray v) s)"

definition WriteLittleEndian64 :: "'s zero_copy_output \<Rightarrow> uint64 \<Rightarrow> 's coded_output \<Rightarrow> 's coded_output option" where
  "WriteLittleEndian64 zo v s =
     (if cw_buffer_size s \<ge> 8 then do {
        s \<leftarrow> cw_store zo (WriteLittleEndian64ToArray v) s;
        Some (cw_Advance 8 s) }
      else WriteRaw zo (WriteLittleEndian64ToArray v) s)"

definition WriteVarint32 :: "'s zero_copy_output \<Rightarrow> uint32 \<Rightarrow> 's coded_output \<Rightarrow> 's coded_output option" where
  "WriteVarint32 zo v s =
     (if cw_buffer_size s \<ge> int kMaxVarint32Bytes then
        let target = WriteVarint32FallbackToArrayInline v in do {
        s \<leftarrow> cw_store zo target s;
        Some (cw_Advance (int (length target)) s) }
      else WriteRaw zo (write_varint_loop v) s)"

definition WriteVarint64 :: "'s zero_copy_output \<Rightarrow> uint64 \<Rightarrow> 's coded_output \<Rightarrow> 's coded_output option" where
  "WriteVarint64 zo v s =
     (if cw_buffer_size s \<ge> int kMaxVarintBytes then
        let target = WriteVarint64ToArrayInline v in do {
        s \<leftarrow> cw_store zo target s;
        Some (cw_Advance (int (length target)) s) }
      else WriteRaw zo (write_varint_loop v) s)"

definition WriteVarint32SignExtended :: "'s zero_copy_output \<Rightarrow> int \<Rightarrow> 's coded_output \<Rightarrow> 's coded_output option" where
  "WriteVarint32SignExtended zo i s =
     (if i < 0 then WriteVarint64 zo (word_of_int i) s else WriteVarint32 zo (word_of_int i) s)"

definition WriteTag :: "'s zero_copy_output \<Rightarrow> uint32 \<Rightarrow> 's coded_output \<Rightarrow> 's coded_output option" where
  "WriteTag zo v s = WriteVarint32 zo v s"

definition WriteStringWithSizeToArray :: "byte list \<Rightarrow> byte list" where
  "WriteStringWithSizeToArray str = WriteVarint32ToArray (of_nat (length str)) @ str"

section \<open>Every write is a raw write of the encoded bytes\<close>

lemma WriteRaw_fits:
  "int (length data) \<le> cw_buffer_size s \<Longrightarrow>
     WriteRaw zo data s = map_option (cw_Advance (int (length data))) (cw_store zo data s)"
  by (subst WriteRaw.simps) (auto simp: map_conv_bind_option o_def)

lemma store_advance:
  "do { s \<leftarrow> cw_store zo data s; Some (cw_Advance n s) } = map_option (cw_Advance n) (cw_store zo data s)"
  by (simp add: map_conv_bind_option o_def)

lemma WriteLittleEndian_eq:
  "WriteLittleEndian32 zo v s = WriteRaw zo (WriteLittleEndian32ToArray v) s"
  "WriteLittleEndian64 zo w s = WriteRaw zo (WriteLittleEndian64ToArray w) s"
  by (simp_all add: WriteLittleEndian32_def WriteLittleEndian64_def store_advance WriteRaw_fits
      WriteLittleEndian32ToArray_def WriteLittleEndian64ToArray_def Let_def)

lemma WriteVarint_eq:
  "WriteVarint32 zo v s = WriteRaw zo (varint_bytes (unat v)) s"
  "WriteVarint64 zo w s = WriteRaw zo (varint_bytes (unat w)) s"
proof -
  have "length (varint_bytes (unat v)) \<le> 5"
    using unsigned_less [of v, where ?'a = nat] by (intro length_varint_bytes_le) simp_all
  then show "WriteVarint32 zo v s = WriteRaw zo (varint_bytes (unat v)) s"
    by (simp add: WriteVarint32_def Let_def store_advance WriteRaw_fits write_varint_loop_eq
        WriteVarint32FallbackToArrayInline_eq kMaxVarint32Bytes_def)
  have "length (varint_bytes (unat w)) \<le> 10"
    using unsigned_less [of w, where ?'a = nat] by (intro length_varint_bytes_le) simp_all
  then show "WriteVarint64 zo w s = WriteRaw zo (varint_bytes (unat w)) s"
    by (simp add: WriteVarint64_def Let_def store_advance WriteRaw_fits write_varint_loop_eq
        WriteVarint64ToArrayInline_eq kMaxVarintBytes_def)
qed

lemma WriteVarint32SignExtended_eq:
  "WriteVarint32SignExtended zo i s = WriteRaw zo (WriteVarint32SignExtendedToArray i) s"
  by (simp add: WriteVarint32SignExtended_def WriteVarint32SignExtendedToArray_def WriteVarint_eq
      WriteVarint64ToArrayInline_eq WriteVarint32ToArray_eq)

text \<open>A block lent for direct access and filled is a raw write, too.\<close>

lemma direct_write_eq:
  assumes "GetDirectBufferForNBytesAndAdvance (int (length data)) s = (Some p, s')" and "data \<noteq> []"
  shows "do { output \<leftarrow> zo_store zo p data (cw_output s'); Some (s'\<lparr>cw_output := output\<rparr>) } = WriteRaw zo data s"
proof -
  have f: "int (length data) \<le> cw_buffer_size s" "cw_buffer s = Some p" "s' = cw_Advance (int (length data)) s"
    using assms(1) by (auto simp: GetDirectBufferForNBytesAndAdvance_def split: if_splits)
  show ?thesis
    using f(2) assms(2)
    by (cases "zo_store zo p data (cw_output s)") (simp_all add: WriteRaw_fits [OF f(1)] cw_store_def f(3) cw_Advance_def)
qed

section \<open>What has been written\<close>

text \<open>
  The stream holds a block whose first bytes have been filled. \<open>data\<close> is all that has been written so far, of which
  \<open>start\<close> bytes had been written before the constructor ran; \<open>base\<close> is by how much the count of the stream below
  is ahead of them.
\<close>

definition cw_at ::
  "'s zero_copy_output \<Rightarrow> ('s \<Rightarrow> bool) \<Rightarrow> ('s \<Rightarrow> byte list) \<Rightarrow> int \<Rightarrow> int \<Rightarrow> byte list \<Rightarrow> 's coded_output \<Rightarrow> bool" where
  "cw_at zo good written base start data s \<longleftrightarrow> \<not> HadError s \<and> int (length data) = start + CodedOutputStream_ByteCount s \<and>
     (\<exists>s0 s' p n filled. good s0 \<and> block_usable zo good written s0 s' p n \<and> zo_store zo p filled s' = Some (cw_output s) \<and>
        int (length filled) \<le> n \<and> cw_buffer s = Some (p + length filled) \<and> cw_buffer_size s = n - int (length filled) \<and>
        data = written s0 @ filled \<and> zo_ByteCount zo s0 = base + int (length (written s0)))"

text \<open>After an error: the stream below could not lend another block when \<open>data\<close> had been written.\<close>

definition cw_failed ::
  "'s zero_copy_output \<Rightarrow> ('s \<Rightarrow> bool) \<Rightarrow> ('s \<Rightarrow> byte list) \<Rightarrow> ('s \<Rightarrow> bool) \<Rightarrow> byte list \<Rightarrow> 's coded_output \<Rightarrow> bool" where
  "cw_failed zo good written stuck data s \<longleftrightarrow> HadError s \<and> cw_buffer_size s = 0 \<and>
     (\<exists>s0. good s0 \<and> stuck s0 \<and> written s0 = data \<and> zo_Next zo s0 = Some (None, cw_output s))"

lemma cw_Refresh_Advance: "cw_Refresh zo (cw_Advance n s) = cw_Refresh zo s"
  by (auto simp: cw_Refresh_def cw_Advance_def Let_def split: option.splits intro!: bind_eqI)

context output_memory
begin

lemma block_store_nil:
  assumes "block_usable zo good written s0 t p n"
  shows "zo_store zo p [] t = Some t"
proof -
  have "int (length ([] :: byte list)) \<le> n" using assms by (simp add: block_usable_def)
  then obtain s1 where "zo_store zo p [] t = Some s1" using assms unfolding block_usable_def by blast
  then show ?thesis using store_nil by blast
qed

lemma cw_at_full:
  assumes "cw_at zo good written base start data s" and "cw_buffer_size s = 0"
  shows "good (cw_output s) \<and> written (cw_output s) = data \<and>
    zo_ByteCount zo (cw_output s) = base + int (length data)"
proof -
  obtain s0 s' p n filled where a: "block_usable zo good written s0 s' p n" "zo_store zo p filled s' = Some (cw_output s)"
    "int (length filled) = n" "data = written s0 @ filled" "zo_ByteCount zo s0 = base + int (length (written s0))"
    using assms by (auto simp: cw_at_def)
  from a(1,3) obtain s1 where "zo_store zo p filled s' = Some s1" "good s1" "written s1 = written s0 @ filled"
    "zo_ByteCount zo s1 = zo_ByteCount zo s0 + n"
    unfolding block_usable_def by (metis order_refl)
  then show ?thesis using a(2-5) by simp
qed

lemma cw_at_store:
  assumes "cw_at zo good written base start data s" and "int (length bs) \<le> cw_buffer_size s"
  shows "\<exists>s'. map_option (cw_Advance (int (length bs))) (cw_store zo bs s) = Some s' \<and> cw_at zo good written base start (data @ bs) s'"
proof -
  obtain s0 t p n filled where a: "good s0" "block_usable zo good written s0 t p n" "zo_store zo p filled t = Some (cw_output s)"
    "int (length filled) \<le> n" "cw_buffer s = Some (p + length filled)" "cw_buffer_size s = n - int (length filled)"
    "data = written s0 @ filled" "zo_ByteCount zo s0 = base + int (length (written s0))" "\<not> HadError s"
    "int (length data) = start + CodedOutputStream_ByteCount s"
    using assms(1) by (auto simp: cw_at_def)
  have l: "int (length (filled @ bs)) \<le> n" using assms(2) a(6) by simp
  then obtain out where out: "zo_store zo p (filled @ bs) t = Some out"
    using a(2) unfolding block_usable_def by blast
  have st: "cw_store zo bs s = Some (s\<lparr>cw_output := out\<rparr>)"
  proof (cases "bs = []")
    case True
    then show ?thesis using out a(3) by (simp add: cw_store_def)
  next
    case False
    then show ?thesis using out store_append [OF a(3), of bs] a(5) by (simp add: cw_store_def)
  qed
  define s' where "s' = cw_Advance (int (length bs)) (s\<lparr>cw_output := out\<rparr>)"
  have "cw_at zo good written base start (data @ bs) s'"
    unfolding cw_at_def
  proof (intro conjI exI)
    show "zo_store zo p (filled @ bs) t = Some (cw_output s')" using out by (simp add: s'_def cw_Advance_def)
    show "int (length (data @ bs)) = start + CodedOutputStream_ByteCount s'"
      using a(10) by (simp add: s'_def cw_Advance_def CodedOutputStream_ByteCount_def)
  qed (use a l in \<open>simp_all add: s'_def cw_Advance_def HadError_def\<close>)
  then show ?thesis using st by (simp add: s'_def)
qed

lemma cw_Refresh_law:
  assumes "cw_at zo good written base start data s" and "cw_buffer_size s = 0"
  shows "\<exists>ok s'. cw_Refresh zo s = Some (ok, s') \<and>
    (if ok then cw_at zo good written base start data s' \<and> 0 < cw_buffer_size s' else cw_failed zo good written stuck data s')"
proof -
  note f = cw_at_full [OF assms]
  obtain r t where n: "zo_Next zo (cw_output s) = Some (r, t)"
    "case r of None \<Rightarrow> stuck (cw_output s) | Some (p, n) \<Rightarrow> block_usable zo good written (cw_output s) t p n"
    using next_law f by blast
  show ?thesis
  proof (cases r)
    case None
    then show ?thesis using n f by (auto simp: cw_Refresh_def cw_failed_def HadError_def)
  next
    case (Some b)
    obtain p m where b: "b = (p, m)" by (cases b)
    have u: "block_usable zo good written (cw_output s) t p m" using n(2) Some b by simp
    then have m: "0 < m" by (simp add: block_usable_def)
    define s' where "s' = s\<lparr>cw_output := t, cw_buffer := Some p, cw_buffer_size := m, cw_total_bytes := cw_total_bytes s + m\<rparr>"
    have R: "cw_Refresh zo s = Some (True, s')" using n(1) Some b by (simp add: cw_Refresh_def Let_def s'_def)
    note st = block_store_nil [OF u]
    have "cw_at zo good written base start data s'"
      unfolding cw_at_def
    proof (intro conjI exI)
      show "good (cw_output s)" "block_usable zo good written (cw_output s) t p m" using f u by simp_all
      show "zo_store zo p [] t = Some (cw_output s')" using st by (simp add: s'_def)
      show "\<not> HadError s'" using assms(1) by (simp add: cw_at_def HadError_def s'_def)
      show "int (length data) = start + CodedOutputStream_ByteCount s'"
        using assms by (simp add: s'_def cw_at_def CodedOutputStream_ByteCount_def)
    qed (use m f in \<open>simp_all add: s'_def\<close>)
    then show ?thesis using R m by (intro exI [of _ True] exI [of _ s']) (simp add: s'_def)
  qed
qed

lemma WriteRaw_law:
  assumes "cw_at zo good written base start data s"
  shows "\<exists>s'. WriteRaw zo bs s = Some s' \<and>
    (if HadError s' then \<exists>k < length bs. cw_failed zo good written stuck (data @ take k bs) s'
     else cw_at zo good written base start (data @ bs) s')"
  using assms
proof (induction "2 * length bs + (if cw_buffer_size s = 0 then 1 else 0)" arbitrary: bs data s rule: less_induct)
  case less
  show ?case
  proof (cases "cw_buffer_size s < int (length bs)")
    case False
    then have le: "int (length bs) \<le> cw_buffer_size s" by simp
    obtain s' where s': "map_option (cw_Advance (int (length bs))) (cw_store zo bs s) = Some s'"
      "cw_at zo good written base start (data @ bs) s'"
      using cw_at_store [OF less.prems le] by blast
    then have "\<not> HadError s'" by (simp add: cw_at_def)
    then show ?thesis using s' unfolding WriteRaw_fits [OF le] by (intro exI [of _ s']) simp
  next
    case True
    define k where "k = nat (cw_buffer_size s)"
    have k: "cw_buffer_size s = int k" "k < length bs" using less.prems True by (auto simp: cw_at_def k_def)
    have l: "int (length (take k bs)) = cw_buffer_size s" using k by simp
    obtain s1 where s1: "cw_store zo (take k bs) s = Some s1" "cw_at zo good written base start (data @ take k bs) (cw_Advance (int k) s1)"
      using cw_at_store [OF less.prems eq_refl [OF l]] k by auto
    have z: "cw_buffer_size (cw_Advance (int k) s1) = 0"
      using s1(1) k(1) by (auto simp: cw_store_def cw_Advance_def bind_Some_iff split: if_splits)
    obtain ok s2 where R: "cw_Refresh zo s1 = Some (ok, s2)"
      "if ok then cw_at zo good written base start (data @ take k bs) s2 \<and> 0 < cw_buffer_size s2
       else cw_failed zo good written stuck (data @ take k bs) s2"
      using cw_Refresh_law [OF s1(2) z] by (auto simp: cw_Refresh_Advance)
    have W: "WriteRaw zo bs s = (if \<not> ok then Some s2 else WriteRaw zo (drop k bs) s2)"
      using True s1(1) R(1) by (subst WriteRaw.simps) (simp flip: k_def)
    show ?thesis
    proof (cases ok)
      case False
      then show ?thesis using W R(2) k(2) by (auto simp: cw_failed_def)
    next
      case ok: True
      then have at2: "cw_at zo good written base start (data @ take k bs) s2" "0 < cw_buffer_size s2" using R(2) by simp_all
      have "2 * length (drop k bs) + (if cw_buffer_size s2 = 0 then 1 else 0) < 2 * length bs + (if cw_buffer_size s = 0 then 1 else 0)"
        using at2(2) k by auto
      from less.hyps [OF this at2(1)] obtain s' where s': "WriteRaw zo (drop k bs) s2 = Some s'"
        "if HadError s' then \<exists>j < length (drop k bs). cw_failed zo good written stuck ((data @ take k bs) @ take j (drop k bs)) s'
         else cw_at zo good written base start ((data @ take k bs) @ drop k bs) s'" by blast
      show ?thesis
      proof (cases "HadError s'")
        case True
        then obtain j where "j < length (drop k bs)" "cw_failed zo good written stuck ((data @ take k bs) @ take j (drop k bs)) s'"
          using s'(2) by auto
        then have "k + j < length bs" "cw_failed zo good written stuck (data @ take (k + j) bs) s'"
          by (simp_all add: take_add)
        then show ?thesis using W ok s'(1) True by auto
      qed (use W ok s' in simp)
    qed
  qed
qed

lemma CodedOutputStream_law:
  assumes "good i" and "\<not> stuck i"
  shows "\<exists>s. CodedOutputStream zo i = Some s \<and> 
    cw_at zo good written (zo_ByteCount zo i - int (length (written i))) (int (length (written i))) (written i) s"
proof -
  obtain p n t where n: "zo_Next zo i = Some (Some (p, n), t)" "block_usable zo good written i t p n"
    using next_law [OF assms(1)] assms(2) by (fastforce split: option.splits)
  then have m: "0 < n" by (simp add: block_usable_def)
  define s where "s = \<lparr>cw_output = t, cw_buffer = Some p, cw_buffer_size = n, cw_total_bytes = n, cw_had_error = False\<rparr>"
  have C: "CodedOutputStream zo i = Some s"
    using n(1) by (simp add: CodedOutputStream_def cw_Refresh_def Let_def s_def)
  note st = block_store_nil [OF n(2)]
  have "
    cw_at zo good written (zo_ByteCount zo i - int (length (written i))) (int (length (written i))) (written i) s"
    unfolding cw_at_def
  proof (intro conjI exI)
    show "block_usable zo good written i t p n" by (rule n(2))
    show "zo_store zo p [] t = Some (cw_output s)" using st by (simp add: s_def)
    show "int (length (written i)) = int (length (written i)) + CodedOutputStream_ByteCount s"
      by (simp add: s_def CodedOutputStream_ByteCount_def)
  qed (use m assms(1) in \<open>simp_all add: s_def HadError_def\<close>)
  then show ?thesis using C by blast
qed

lemma CodedOutputStream_delete_law:
  assumes "cw_at zo good written base start data s"
  shows "\<exists>i. CodedOutputStream_delete zo s = Some i \<and> good i \<and> written i = data \<and>
    zo_ByteCount zo i = base + int (length data)"
proof (cases "cw_buffer_size s > 0")
  case False
  then have "cw_buffer_size s = 0" using assms by (auto simp: cw_at_def)
  then show ?thesis using cw_at_full [OF assms] by (simp add: CodedOutputStream_delete_def)
next
  case True
  obtain s0 t p n filled where a: "block_usable zo good written s0 t p n" "zo_store zo p filled t = Some (cw_output s)"
    "int (length filled) \<le> n" "cw_buffer_size s = n - int (length filled)" "data = written s0 @ filled"
    "zo_ByteCount zo s0 = base + int (length (written s0))"
    using assms by (auto simp: cw_at_def)
  then obtain i where "zo_BackUp zo (n - int (length filled)) (cw_output s) = Some i" "good i" "written i = written s0 @ filled"
    "zo_ByteCount zo i = zo_ByteCount zo s0 + int (length filled)"
    unfolding block_usable_def by (metis option.inject)
  then show ?thesis using True a(4-6) by (simp add: CodedOutputStream_delete_def)
qed

end

end
