(* ===== verification/CodedMessages.thy ===== *)
theory CodedMessages
  imports CodedReads CodedOutput
begin

text \<open>
  Whole sessions of writes through a \<open>CodedOutputStream\<close>, and the round trip: what has been written through it to one
  stream is read back through a \<open>CodedInputStream\<close> from another, however both cut the bytes into blocks.
\<close>

section \<open>Clients that write\<close>

text \<open>
  The calls a serializer makes. \<open>Put_Message\<close> writes an embedded message behind its length, which the size functions
  give beforehand.
\<close>

datatype write_op =
    Put_Varint32 uint32
  | Put_Varint64 uint64
  | Put_SignExtended uint32
  | Put_Fixed32 uint32
  | Put_Fixed64 uint64
  | Put_Raw "byte list"
  | Put_String "byte list"
  | Put_Tag uint32
  | Put_Message "write_op list"

fun put_size :: "write_op \<Rightarrow> int" and puts_size :: "write_op list \<Rightarrow> int" where
  "put_size (Put_Varint32 v) = VarintSize32 v"
| "put_size (Put_Varint64 v) = VarintSize64 v"
| "put_size (Put_SignExtended v) = VarintSize32SignExtended (sint v)"
| "put_size (Put_Fixed32 v) = 4"
| "put_size (Put_Fixed64 v) = 8"
| "put_size (Put_Raw bs) = int (length bs)"
| "put_size (Put_String bs) = int (length bs)"
| "put_size (Put_Tag v) = VarintSize32 v"
| "put_size (Put_Message ps) = VarintSize32 (word_of_int (puts_size ps)) + puts_size ps"
| "puts_size [] = 0"
| "puts_size (p # ps) = put_size p + puts_size ps"

text \<open>A client stops when the stream has had an error.\<close>

fun put_op :: "'s zero_copy_output \<Rightarrow> write_op \<Rightarrow> 's coded_output \<Rightarrow> 's coded_output option"
  and put_ops :: "'s zero_copy_output \<Rightarrow> write_op list \<Rightarrow> 's coded_output \<Rightarrow> 's coded_output option" where
  "put_op zo (Put_Varint32 v) s = WriteVarint32 zo v s"
| "put_op zo (Put_Varint64 v) s = WriteVarint64 zo v s"
| "put_op zo (Put_SignExtended v) s = WriteVarint32SignExtended zo (sint v) s"
| "put_op zo (Put_Fixed32 v) s = WriteLittleEndian32 zo v s"
| "put_op zo (Put_Fixed64 v) s = WriteLittleEndian64 zo v s"
| "put_op zo (Put_Raw bs) s = WriteRaw zo bs s"
| "put_op zo (Put_String bs) s = CodedOutputStream_WriteString zo bs s"
| "put_op zo (Put_Tag v) s = WriteTag zo v s"
| "put_op zo (Put_Message ps) s = do {
     s \<leftarrow> WriteVarint32 zo (word_of_int (puts_size ps)) s;
     (if HadError s then Some s else put_ops zo ps s) }"
| "put_ops zo [] s = Some s"
| "put_ops zo (p # ps) s = do {
     s \<leftarrow> put_op zo p s;
     (if HadError s then Some s else put_ops zo ps s) }"

text \<open>The result: no error, \<open>ByteCount\<close> before the destructor, and the stream below.\<close>

definition put_session :: "'s zero_copy_output \<Rightarrow> write_op list \<Rightarrow> 's \<Rightarrow> (bool \<times> int \<times> 's) option" where
  "put_session zo ps i = do {
     s \<leftarrow> CodedOutputStream zo i;
     s \<leftarrow> put_ops zo ps s;
     i \<leftarrow> CodedOutputStream_delete zo s;
     Some (\<not> HadError s, CodedOutputStream_ByteCount s, i) }"

section \<open>The bytes\<close>

fun put_bytes :: "write_op \<Rightarrow> byte list" and puts_bytes :: "write_op list \<Rightarrow> byte list" where
  "put_bytes (Put_Varint32 v) = WriteVarint32ToArray v"
| "put_bytes (Put_Varint64 v) = WriteVarint64ToArrayInline v"
| "put_bytes (Put_SignExtended v) = WriteVarint32SignExtendedToArray (sint v)"
| "put_bytes (Put_Fixed32 v) = WriteLittleEndian32ToArray v"
| "put_bytes (Put_Fixed64 v) = WriteLittleEndian64ToArray v"
| "put_bytes (Put_Raw bs) = bs"
| "put_bytes (Put_String bs) = bs"
| "put_bytes (Put_Tag v) = WriteTagToArray v"
| "put_bytes (Put_Message ps) = WriteVarint32ToArray (of_nat (length (puts_bytes ps))) @ puts_bytes ps"
| "puts_bytes [] = []"
| "puts_bytes (p # ps) = put_bytes p @ puts_bytes ps"

lemma length_sign_extended:
  assumes "- (2 ^ 31) \<le> i"
  shows "int (length (WriteVarint32SignExtendedToArray i)) = VarintSize32SignExtended i"
proof (cases "i < 0")
  case True
  have "i mod 2 ^ 64 = i + 2 ^ 64"
    using True assms mod_add_self2 [of i "2 ^ 64"] mod_pos_pos_trivial [of "i + 2 ^ 64" "2 ^ 64"] by simp
  then have u: "uint (word_of_int i :: uint64) = i + 2 ^ 64" by (simp add: uint_word_of_int)
  have "VarintSize64 (word_of_int i) = 10"
    using assms by (simp add: VarintSize64_def word_less_def u)
  then show ?thesis using True
    by (simp add: WriteVarint32SignExtendedToArray_def VarintSize32SignExtended_def WriteVarint64ToArrayInline_eq flip: VarintSize64_eq)
qed (simp add: WriteVarint32SignExtendedToArray_def VarintSize32SignExtended_def WriteVarint32ToArray_eq VarintSize32_eq)

lemma put_size_eq: "put_size p = int (length (put_bytes p))" "puts_size ps = int (length (puts_bytes ps))"
proof (induction p and ps rule: put_size_puts_size.induct)
  case (3 v)
  have "- (2 ^ 31) \<le> sint v" using sint_greater_eq [of v] by simp
  then show ?case by (simp add: length_sign_extended)
next
  case (9 ps)
  then show ?case by (simp add: WriteVarint32ToArray_eq VarintSize32_eq)
qed (simp_all add: WriteVarint32ToArray_eq VarintSize32_eq WriteVarint64ToArrayInline_eq VarintSize64_eq WriteTagToArray_eq
    WriteLittleEndian32ToArray_def WriteLittleEndian64ToArray_def Let_def)

section \<open>Sessions of writes\<close>

text \<open>One result against what should have been written; an error comes with a proper prefix of it.\<close>

definition put_result ::
  "'s zero_copy_output \<Rightarrow> ('s \<Rightarrow> bool) \<Rightarrow> ('s \<Rightarrow> byte list) \<Rightarrow> ('s \<Rightarrow> bool) \<Rightarrow> int \<Rightarrow> int \<Rightarrow> byte list \<Rightarrow>
     's coded_output option \<Rightarrow> bool" where
  "put_result zo good written stuck base start data r \<longleftrightarrow> (\<exists>s. r = Some s \<and>
     (if HadError s then \<exists>d. strict_prefix d data \<and> cw_failed zo good written stuck d s
      else cw_at zo good written base start data s))"

context output_memory
begin

lemma WriteRaw_result:
  assumes "cw_at zo good written base start data s"
  shows "put_result zo good written stuck base start (data @ bs) (WriteRaw zo bs s)"
proof -
  have "strict_prefix (data @ take k bs) (data @ bs)" if "k < length bs" for k
    using that by (simp add: strict_prefix_def take_is_prefix)
  then show ?thesis using WriteRaw_law [OF assms, of bs] unfolding put_result_def by metis
qed

lemma put_result_then:
  assumes "put_result zo good written stuck base start data r"
    and "\<And>s. cw_at zo good written base start data s \<Longrightarrow> put_result zo good written stuck base start (data @ bs) (f s)"
  shows "put_result zo good written stuck base start (data @ bs) (do { s \<leftarrow> r; (if HadError s then Some s else f s) })"
proof -
  obtain s where s: "r = Some s" "if HadError s then \<exists>d. strict_prefix d data \<and> cw_failed zo good written stuck d s
      else cw_at zo good written base start data s"
    using assms(1) by (auto simp: put_result_def)
  show ?thesis
  proof (cases "HadError s")
    case True
    then obtain d where "strict_prefix d data" "cw_failed zo good written stuck d s" using s(2) by auto
    then have "strict_prefix d (data @ bs)" by (meson prefix_order.less_le_trans prefixI)
    then show ?thesis using s(1) True \<open>cw_failed zo good written stuck d s\<close> by (auto simp: put_result_def)
  qed (use assms(2) s in simp)
qed

lemma put_ops_result:
  "cw_at zo good written base start data s \<Longrightarrow> put_result zo good written stuck base start (data @ put_bytes p) (put_op zo p s)"
  "cw_at zo good written base start data s \<Longrightarrow> put_result zo good written stuck base start (data @ puts_bytes ps) (put_ops zo ps s)"
proof (induction p and ps arbitrary: data s and data s rule: put_size_puts_size.induct)
  case (9 ps)
  have a: "put_result zo good written stuck base start (data @ WriteVarint32ToArray (of_nat (length (puts_bytes ps))))
      (WriteVarint32 zo (word_of_int (puts_size ps)) s)"
    using WriteRaw_result [OF "9.prems"] by (simp add: WriteVarint_eq WriteVarint32ToArray_eq put_size_eq)
  show ?case
    using put_result_then [OF a "9.IH"(1)] by simp
next
  case 10
  then show ?case by (auto simp: put_result_def cw_at_def)
next
  case (11 p ps)
  show ?case
    using put_result_then [OF "11.IH"(1) [OF "11.prems"] "11.IH"(2)] by simp
qed (simp_all add: WriteRaw_result WriteVarint_eq WriteVarint32ToArray_eq WriteVarint64ToArrayInline_eq WriteLittleEndian_eq
    WriteVarint32SignExtended_eq CodedOutputStream_WriteString_def WriteTag_def WriteTagToArray_eq)

lemma put_session_law:
  assumes "good i" and "\<not> stuck i"
  shows "\<exists>ok n i'. put_session zo ps i = Some (ok, n, i') \<and>
    (if ok then good i' \<and> written i' = written i @ puts_bytes ps \<and> n = int (length (puts_bytes ps)) \<and>
       zo_ByteCount zo i' = zo_ByteCount zo i + n
     else \<exists>s0. good s0 \<and> stuck s0 \<and> strict_prefix (written s0) (written i @ puts_bytes ps) \<and> zo_Next zo s0 = Some (None, i'))"
proof -
  let ?base = "zo_ByteCount zo i - int (length (written i))" and ?start = "int (length (written i))"
  obtain s where s: "CodedOutputStream zo i = Some s" "cw_at zo good written ?base ?start (written i) s"
    using CodedOutputStream_law [OF assms] by blast
  obtain s' where s': "put_ops zo ps s = Some s'"
    "if HadError s' then \<exists>d. strict_prefix d (written i @ puts_bytes ps) \<and> cw_failed zo good written stuck d s'
      else cw_at zo good written ?base ?start (written i @ puts_bytes ps) s'"
    using put_ops_result(2) [OF s(2), of ps] by (auto simp: put_result_def)
  show ?thesis
  proof (cases "HadError s'")
    case True
    then obtain d where d: "strict_prefix d (written i @ puts_bytes ps)" "cw_failed zo good written stuck d s'"
      using s'(2) by auto
    then have "CodedOutputStream_delete zo s' = Some (cw_output s')"
      by (simp add: cw_failed_def CodedOutputStream_delete_def)
    then have "put_session zo ps i = Some (False, CodedOutputStream_ByteCount s', cw_output s')"
      using s(1) s'(1) True by (simp add: put_session_def)
    then show ?thesis using d unfolding cw_failed_def by auto
  next
    case False
    then have at1: "cw_at zo good written ?base ?start (written i @ puts_bytes ps) s'" using s'(2) by simp
    obtain i' where i': "CodedOutputStream_delete zo s' = Some i'" "good i'" "written i' = written i @ puts_bytes ps"
      "zo_ByteCount zo i' = ?base + int (length (written i @ puts_bytes ps))"
      using CodedOutputStream_delete_law [OF at1] by blast
    have "CodedOutputStream_ByteCount s' = int (length (puts_bytes ps))" using at1 by (simp add: cw_at_def)
    then have "put_session zo ps i = Some (True, int (length (puts_bytes ps)), i')"
      using s(1) s'(1) i'(1) False by (simp add: put_session_def)
    then show ?thesis
      using i' by (intro exI [of _ True] exI [of _ "int (length (puts_bytes ps))"] exI [of _ i']) simp
  qed
qed

end

section \<open>Reading back\<close>

text \<open>The reads that take in what the writes put out, and the values they should give.\<close>

fun gets_op :: "write_op \<Rightarrow> read_op list" and gets_ops :: "write_op list \<Rightarrow> read_op list" where
  "gets_op (Put_Varint32 v) = [Op_Varint32]"
| "gets_op (Put_Varint64 v) = [Op_Varint64]"
| "gets_op (Put_SignExtended v) = [Op_Varint32]"
| "gets_op (Put_Fixed32 v) = [Op_Fixed32]"
| "gets_op (Put_Fixed64 v) = [Op_Fixed64]"
| "gets_op (Put_Raw bs) = [Op_Bytes (length bs)]"
| "gets_op (Put_String bs) = [Op_String (length bs)]"
| "gets_op (Put_Tag v) = [Op_Tag]"
| "gets_op (Put_Message ps) = [Op_Varint32, Op_Limited (length (puts_bytes ps)) (gets_ops ps)]"
| "gets_ops [] = []"
| "gets_ops (p # ps) = gets_op p @ gets_ops ps"

fun put_vals :: "write_op \<Rightarrow> read_val list" and puts_vals :: "write_op list \<Rightarrow> read_val list" where
  "put_vals (Put_Varint32 v) = [Val32 v]"
| "put_vals (Put_Varint64 v) = [Val64 v]"
| "put_vals (Put_SignExtended v) = [Val32 v]"
| "put_vals (Put_Fixed32 v) = [Val32 v]"
| "put_vals (Put_Fixed64 v) = [Val64 v]"
| "put_vals (Put_Raw bs) = [Val_bytes bs]"
| "put_vals (Put_String bs) = [Val_bytes bs]"
| "put_vals (Put_Tag v) = [Val32 v]"
| "put_vals (Put_Message ps) = Val32 (of_nat (length (puts_bytes ps))) # puts_vals ps"
| "puts_vals [] = []"
| "puts_vals (p # ps) = put_vals p @ puts_vals ps"

text \<open>0 is no tag: the reader takes it for the end.\<close>

fun tags_ok :: "write_op \<Rightarrow> bool" and all_tags_ok :: "write_op list \<Rightarrow> bool" where
  "tags_ok (Put_Varint32 v) = True"
| "tags_ok (Put_Varint64 v) = True"
| "tags_ok (Put_SignExtended v) = True"
| "tags_ok (Put_Fixed32 v) = True"
| "tags_ok (Put_Fixed64 v) = True"
| "tags_ok (Put_Raw bs) = True"
| "tags_ok (Put_String bs) = True"
| "tags_ok (Put_Tag v) = (v \<noteq> 0)"
| "tags_ok (Put_Message ps) = all_tags_ok ps"
| "all_tags_ok [] = True"
| "all_tags_ok (p # ps) = (tags_ok p \<and> all_tags_ok ps)"

lemma bytes_ops_append:
  "bytes_ops xs bs = Some (vs, k) \<Longrightarrow>
     bytes_ops (xs @ ys) bs = map_option (\<lambda>(ws, j). (vs @ ws, k + j)) (bytes_ops ys (drop k bs))"
proof (induction xs arbitrary: bs vs k)
  case Nil
  then show ?case by (simp add: option.map_ident_strong split_beta)
next
  case (Cons x xs)
  then obtain us i ws j where x: "bytes_op x bs = Some (us, i)" "bytes_ops xs (drop i bs) = Some (ws, j)"
    "vs = us @ ws" "k = i + j"
    by (auto split: option.splits prod.splits)
  then show ?case
    using Cons.IH [OF x(2)]
    by (cases "bytes_ops ys (drop k bs)") (simp_all add: add.commute split_beta)
qed

lemma first_varint_bytes: "n < 2 ^ 70 \<Longrightarrow> first_varint (varint_bytes n @ bs) = Some (n, length (varint_bytes n))"
  using read_varint_bytes [of n 10 bs] by (simp add: first_varint_def kMaxVarintBytes_def)

lemma unat_less_70: "unat (v :: uint32) < 2 ^ 70" "unat (w :: uint64) < 2 ^ 70"
  using unsigned_less [of v, where ?'a = nat] unsigned_less [of w, where ?'a = nat] by simp_all

lemma le32_roundtrip: "ReadLittleEndian32FromArray (WriteLittleEndian32ToArray v @ bs) 0 = Some (v, 4)"
proof -
  let ?w = "ucast (ucast v :: byte) OR push_bit 8 (ucast (ucast (drop_bit 8 v) :: byte)) OR
      push_bit 16 (ucast (ucast (drop_bit 16 v) :: byte)) OR push_bit 24 (ucast (ucast (drop_bit 24 v) :: byte)) :: uint32"
  have "?w = v"
  proof (rule bit_word_eqI)
    fix n assume "n < LENGTH(32)"
    then show "bit ?w n = bit v n" by (cases "24 \<le> n"; cases "16 \<le> n") (auto simp: bit_simps)
  qed
  then show ?thesis
    by (simp add: ReadLittleEndian32FromArray_def WriteLittleEndian32ToArray_def mem_get_def)
qed

lemmas first_varint_unat = first_varint_bytes [OF unat_less_70(1)] first_varint_bytes [OF unat_less_70(2)]

lemma ReadLittleEndian32FromArray_at:
  "ReadLittleEndian32FromArray m p = map_option (\<lambda>(x, q). (x, q + p)) (ReadLittleEndian32FromArray (drop p m) 0)"
  unfolding ReadLittleEndian32FromArray_def mem_get_drop [of p] mem_get_drop_0 [of p m] add_0 map_bind
  by (simp add: add.commute)

lemma le64_roundtrip: "ReadLittleEndian64FromArray (WriteLittleEndian64ToArray v @ bs) 0 = Some (v, 8)"
proof -
  let ?lo = "ucast v :: uint32" and ?hi = "ucast (drop_bit 32 v) :: uint32"
  have w: "WriteLittleEndian64ToArray v = WriteLittleEndian32ToArray ?lo @ WriteLittleEndian32ToArray ?hi"
    by (simp add: WriteLittleEndian64ToArray_def WriteLittleEndian32ToArray_def Let_def)
  have l: "length (WriteLittleEndian32ToArray x) = 4" for x by (simp add: WriteLittleEndian32ToArray_def)
  have lo: "ReadLittleEndian32FromArray (WriteLittleEndian64ToArray v @ bs) 0 = Some (?lo, 4)"
    unfolding w append_assoc by (rule le32_roundtrip)
  have "ReadLittleEndian32FromArray (WriteLittleEndian64ToArray v @ bs) 4 =
      map_option (\<lambda>(x, q). (x, q + 4)) (ReadLittleEndian32FromArray (drop 4 (WriteLittleEndian64ToArray v @ bs)) 0)"
    by (simp add: ReadLittleEndian32FromArray_at [of _ 4])
  also have "drop 4 (WriteLittleEndian64ToArray v @ bs) = WriteLittleEndian32ToArray ?hi @ bs" by (simp add: w l)
  finally have hi: "ReadLittleEndian32FromArray (WriteLittleEndian64ToArray v @ bs) 4 = Some (?hi, 8)"
    by (simp add: le32_roundtrip)
  have "(ucast ?lo OR push_bit 32 (ucast ?hi) :: uint64) = v"
  proof (rule bit_word_eqI)
    fix n assume "n < LENGTH(64)"
    then show "bit (ucast ?lo OR push_bit 32 (ucast ?hi) :: uint64) n = bit v n" by (cases "32 \<le> n") (auto simp: bit_simps)
  qed
  then show ?thesis by (simp add: ReadLittleEndian64FromArray_def lo hi)
qed

lemma sign_extended_low: "(of_nat (unat (word_of_int (sint v) :: uint64)) :: uint32) = v" for v :: uint32
proof -
  have "(of_nat (unat (word_of_int (sint v) :: uint64)) :: uint32) = ucast (scast v :: uint64)" by simp
  also have "\<dots> = v" by (rule bit_word_eqI) (auto simp: bit_simps)
  finally show ?thesis .
qed

lemma bytes_of_puts:
  "tags_ok p \<Longrightarrow> length (put_bytes p) < 2 ^ 32 \<Longrightarrow>
     bytes_ops (gets_op p) (put_bytes p @ bs) = Some (put_vals p, length (put_bytes p))"
  "all_tags_ok ps \<Longrightarrow> length (puts_bytes ps) < 2 ^ 32 \<Longrightarrow>
     bytes_ops (gets_ops ps) (puts_bytes ps @ bs) = Some (puts_vals ps, length (puts_bytes ps))"
proof (induction p and ps arbitrary: bs and bs rule: tags_ok_all_tags_ok.induct)
  case (3 v)
  have "(of_nat (unat (word_of_int (sint v) :: uint32)) :: uint32) = v" by simp
  then have "map_option (\<lambda>(n, k). (of_nat n :: uint32, k)) (first_varint (WriteVarint32SignExtendedToArray (sint v) @ bs)) =
      Some (v, length (WriteVarint32SignExtendedToArray (sint v)))"
    unfolding WriteVarint32SignExtendedToArray_def WriteVarint64ToArrayInline_eq WriteVarint32ToArray_eq if_distrib [of "\<lambda>x. x @ bs"]
    by (cases "sint v < 0") (simp_all only: if_True if_False first_varint_bytes unat_less_70 option.map prod.case sign_extended_low)
  then show ?case by (auto split: option.splits)
next
  case (9 ps)
  let ?n = "length (puts_bytes ps)"
  have n: "?n < 2 ^ 32" using 9(3) by simp
  then have u: "unat (of_nat ?n :: uint32) = ?n" by (simp add: unsigned_of_nat take_bit_nat_eq_self)
  have c: "bytes_ops (gets_ops ps) (puts_bytes ps) = Some (puts_vals ps, ?n)"
    using "9.IH" [of "[]"] "9.prems" n by simp
  have "first_varint (WriteVarint32ToArray (of_nat ?n) @ puts_bytes ps @ bs) = Some (?n, length (WriteVarint32ToArray (of_nat ?n)))"
    using n by (simp add: WriteVarint32ToArray_eq u first_varint_bytes)
  then show ?case using c by simp
next
  case (11 p ps)
  have "length (put_bytes p) < 2 ^ 32" "length (puts_bytes ps) < 2 ^ 32" using "11.prems"(2) by simp_all
  then have "bytes_ops (gets_op p) (put_bytes p @ puts_bytes ps @ bs) = Some (put_vals p, length (put_bytes p))"
    "bytes_ops (gets_ops ps) (puts_bytes ps @ bs) = Some (puts_vals ps, length (puts_bytes ps))"
    using "11.IH" "11.prems"(1) by simp_all
  then show ?case using bytes_ops_append by fastforce
qed (simp_all add: WriteVarint32ToArray_eq WriteVarint64ToArrayInline_eq WriteTagToArray_eq first_varint_unat
    le32_roundtrip le64_roundtrip, simp_all add: WriteLittleEndian32ToArray_def WriteLittleEndian64ToArray_def Let_def)

section \<open>Properties\<close>

text \<open>
  Every typed write is the raw write of the bytes that the array version of it stores: the fast paths, which
  store into the block, and the slow paths, which compose the bytes first, cannot be told apart.
\<close>

theorem typed_writes_are_raw_writes:
  "WriteVarint32 zo v s = WriteRaw zo (WriteVarint32ToArray v) s \<and>
   WriteVarint64 zo w s = WriteRaw zo (WriteVarint64ToArrayInline w) s \<and>
   WriteVarint32SignExtended zo i s = WriteRaw zo (WriteVarint32SignExtendedToArray i) s \<and>
   WriteTag zo v s = WriteRaw zo (WriteTagToArray v) s \<and>
   WriteLittleEndian32 zo v s = WriteRaw zo (WriteLittleEndian32ToArray v) s \<and>
   WriteLittleEndian64 zo w s = WriteRaw zo (WriteLittleEndian64ToArray w) s"
  by (simp add: WriteVarint_eq WriteVarint32SignExtended_eq WriteTag_def WriteLittleEndian_eq
      WriteVarint32ToArray_eq WriteVarint64ToArrayInline_eq WriteTagToArray_eq)



text \<open>
  C9. What a session of writes stores in a string, the matching session of reads gets back: the same values,
  embedded messages behind their length included, up to the last byte, however the string grows and
  whatever the block size of the stream it is read from. \<open>ByteCount\<close> is what the size functions had said before.
\<close>

theorem coded_stream_roundtrip:
  assumes "all_tags_ok ps" and "puts_size ps \<le> kDefaultTotalBytesLimit"
  shows "\<exists>out i'. put_session (string_output_stream grow) ps \<lparr>ss_data = [], ss_capacity = c\<rparr> = Some (True, puts_size ps, out) \<and>
    int (length (ss_data out)) = puts_size ps \<and>
    coded_session array_input_stream (gets_ops ps) (ArrayInputStream (ss_data out) (puts_size ps) block_size) =
      Some (Some (puts_vals ps, i')) \<and> array_pending i' = []"
proof -
  let ?i = "\<lparr>ss_data = [], ss_capacity = c\<rparr> :: std_string"
  let ?d = "puts_bytes ps"
  have len: "int (length ?d) \<le> 67108864" using assms(2) by (simp add: put_size_eq kDefaultTotalBytesLimit_def)
  have no: "\<not> string_stuck ?i" by (simp add: string_stuck_def INT_MAX_def)
  obtain ok n out where w: "put_session (string_output_stream grow) ps ?i = Some (ok, n, out)"
    "if ok then True \<and> ss_data out = ss_data ?i @ ?d \<and> n = int (length ?d) \<and>
       zo_ByteCount (string_output_stream grow) out = zo_ByteCount (string_output_stream grow) ?i + n
     else \<exists>s0. True \<and> string_stuck s0 \<and> strict_prefix (ss_data s0) (ss_data ?i @ ?d) \<and>
       zo_Next (string_output_stream grow) s0 = Some (None, out)"
    using string_mem.put_session_law [where i = ?i and ps = ps and grow = grow] no by blast
  have ok: ok
  proof (rule ccontr)
    assume "\<not> ok"
    then obtain s0 where "string_stuck s0" "strict_prefix (ss_data s0) ?d" using w(2) by auto
    then show False using len prefix_length_less by (fastforce simp: string_stuck_def INT_MAX_def)
  qed
  then have out: "ss_data out = ?d" "n = int (length ?d)" using w(2) by simp_all
  let ?a = "ArrayInputStream ?d (int (length ?d)) block_size"
  have t: "take (nat kDefaultTotalBytesLimit) ?d = ?d"
    using len by (simp add: kDefaultTotalBytesLimit_def)
  have "bytes_ops (gets_ops ps) (?d @ []) = Some (puts_vals ps, length ?d)"
    using bytes_of_puts(2) [OF assms(1), of "[]"] len by simp
  moreover have "int (length (array_pending ?a)) \<le> INT_MAX" using len by (simp add: array_pending_new INT_MAX_def)
  ultimately obtain i' where "coded_session array_input_stream (gets_ops ps) ?a = Some (Some (puts_vals ps, i'))"
    "array_pending i' = drop (length ?d) ?d"
    using array_in.coded_session_law [OF array_inv_new [of ?d block_size], of "gets_ops ps"] t
    by (auto simp: array_pending_new)
  then show ?thesis using w(1) ok out by (auto simp: put_size_eq)
qed

theorem coded_stream_roundtrip_witness:
  "\<exists>out i'. put_session (string_output_stream (\<lambda>c n. n)) [Put_Tag 10, Put_Message [Put_Varint32 150]] \<lparr>ss_data = [], ss_capacity = 0\<rparr> =
      Some (True, 4, out) \<and> int (length (ss_data out)) = 4 \<and>
    coded_session array_input_stream [Op_Tag, Op_Varint32, Op_Limited 2 [Op_Varint32]] (ArrayInputStream (ss_data out) 4 1) =
      Some (Some ([Val32 10, Val32 2, Val32 150], i')) \<and> array_pending i' = []"
proof -
  let ?ps = "[Put_Tag 10, Put_Message [Put_Varint32 150]]"
  have two: "length (WriteVarint32ToArray 150) = 2"
    by (simp add: WriteVarint32ToArray_eq varint_bytes_ge varint_bytes_less)
  have s: "puts_size ?ps = 4" by (simp add: VarintSize32_def VarintSize32Fallback_def)
  have "gets_ops ?ps = [Op_Tag, Op_Varint32, Op_Limited 2 [Op_Varint32]]" "puts_vals ?ps = [Val32 10, Val32 2, Val32 150]"
    "all_tags_ok ?ps" by (simp_all add: two)
  then show ?thesis
    using coded_stream_roundtrip [of ?ps "\<lambda>c n. n" 0 1] unfolding s by (simp add: kDefaultTotalBytesLimit_def)
qed

end
