(* ===== verification/WireFormat.thy ===== *)
theory WireFormat
  imports CodedMessages
begin

text \<open>
  The wire format of protobuf messages (wire_format_lite.h, wire_format_lite_inl.h, wire_format_lite.cc): tags, the
  ZigZag transform, and for every field type the read, the writes to a stream and to an array, and the size.

  Signed integers are words like the unsigned ones, read as two's complement (\<open>sint\<close>) where the code compares or shifts
  them, so a \<open>static_cast\<close> between the two is the identity. A float or double is its IEEE-754 representation, which the
  code obtains through a union; the arithmetic of floats is not used. A \<open>WireType\<close> is the number the enum
  stands for, since a tag may hold numbers that are no wire type.
\<close>

section \<open>Types and tags\<close>

type_synonym int32 = "32 word"
type_synonym int64 = "64 word"
type_synonym float_bits = "32 word"
type_synonym double_bits = "64 word"
type_synonym wire_type = uint32

definition WIRETYPE_VARINT :: wire_type where "WIRETYPE_VARINT = 0"
definition WIRETYPE_FIXED64 :: wire_type where "WIRETYPE_FIXED64 = 1"
definition WIRETYPE_LENGTH_DELIMITED :: wire_type where "WIRETYPE_LENGTH_DELIMITED = 2"
definition WIRETYPE_START_GROUP :: wire_type where "WIRETYPE_START_GROUP = 3"
definition WIRETYPE_END_GROUP :: wire_type where "WIRETYPE_END_GROUP = 4"
definition WIRETYPE_FIXED32 :: wire_type where "WIRETYPE_FIXED32 = 5"

lemmas wire_types = WIRETYPE_VARINT_def WIRETYPE_FIXED64_def WIRETYPE_LENGTH_DELIMITED_def WIRETYPE_START_GROUP_def
  WIRETYPE_END_GROUP_def WIRETYPE_FIXED32_def

datatype FieldType =
    TYPE_DOUBLE | TYPE_FLOAT | TYPE_INT64 | TYPE_UINT64 | TYPE_INT32 | TYPE_FIXED64 | TYPE_FIXED32 | TYPE_BOOL
  | TYPE_STRING | TYPE_GROUP | TYPE_MESSAGE | TYPE_BYTES | TYPE_UINT32 | TYPE_ENUM | TYPE_SFIXED32 | TYPE_SFIXED64
  | TYPE_SINT32 | TYPE_SINT64

datatype CppType =
    CPPTYPE_INT32 | CPPTYPE_INT64 | CPPTYPE_UINT32 | CPPTYPE_UINT64 | CPPTYPE_DOUBLE | CPPTYPE_FLOAT | CPPTYPE_BOOL
  | CPPTYPE_ENUM | CPPTYPE_STRING | CPPTYPE_MESSAGE

text \<open>The two tables; their entry 0 is reserved for errors and has no field type.\<close>

fun FieldTypeToCppType :: "FieldType \<Rightarrow> CppType" where
  "FieldTypeToCppType TYPE_DOUBLE = CPPTYPE_DOUBLE"
| "FieldTypeToCppType TYPE_FLOAT = CPPTYPE_FLOAT"
| "FieldTypeToCppType TYPE_INT64 = CPPTYPE_INT64"
| "FieldTypeToCppType TYPE_UINT64 = CPPTYPE_UINT64"
| "FieldTypeToCppType TYPE_INT32 = CPPTYPE_INT32"
| "FieldTypeToCppType TYPE_FIXED64 = CPPTYPE_UINT64"
| "FieldTypeToCppType TYPE_FIXED32 = CPPTYPE_UINT32"
| "FieldTypeToCppType TYPE_BOOL = CPPTYPE_BOOL"
| "FieldTypeToCppType TYPE_STRING = CPPTYPE_STRING"
| "FieldTypeToCppType TYPE_GROUP = CPPTYPE_MESSAGE"
| "FieldTypeToCppType TYPE_MESSAGE = CPPTYPE_MESSAGE"
| "FieldTypeToCppType TYPE_BYTES = CPPTYPE_STRING"
| "FieldTypeToCppType TYPE_UINT32 = CPPTYPE_UINT32"
| "FieldTypeToCppType TYPE_ENUM = CPPTYPE_ENUM"
| "FieldTypeToCppType TYPE_SFIXED32 = CPPTYPE_INT32"
| "FieldTypeToCppType TYPE_SFIXED64 = CPPTYPE_INT64"
| "FieldTypeToCppType TYPE_SINT32 = CPPTYPE_INT32"
| "FieldTypeToCppType TYPE_SINT64 = CPPTYPE_INT64"

fun WireTypeForFieldType :: "FieldType \<Rightarrow> wire_type" where
  "WireTypeForFieldType TYPE_DOUBLE = WIRETYPE_FIXED64"
| "WireTypeForFieldType TYPE_FLOAT = WIRETYPE_FIXED32"
| "WireTypeForFieldType TYPE_INT64 = WIRETYPE_VARINT"
| "WireTypeForFieldType TYPE_UINT64 = WIRETYPE_VARINT"
| "WireTypeForFieldType TYPE_INT32 = WIRETYPE_VARINT"
| "WireTypeForFieldType TYPE_FIXED64 = WIRETYPE_FIXED64"
| "WireTypeForFieldType TYPE_FIXED32 = WIRETYPE_FIXED32"
| "WireTypeForFieldType TYPE_BOOL = WIRETYPE_VARINT"
| "WireTypeForFieldType TYPE_STRING = WIRETYPE_LENGTH_DELIMITED"
| "WireTypeForFieldType TYPE_GROUP = WIRETYPE_START_GROUP"
| "WireTypeForFieldType TYPE_MESSAGE = WIRETYPE_LENGTH_DELIMITED"
| "WireTypeForFieldType TYPE_BYTES = WIRETYPE_LENGTH_DELIMITED"
| "WireTypeForFieldType TYPE_UINT32 = WIRETYPE_VARINT"
| "WireTypeForFieldType TYPE_ENUM = WIRETYPE_VARINT"
| "WireTypeForFieldType TYPE_SFIXED32 = WIRETYPE_FIXED32"
| "WireTypeForFieldType TYPE_SFIXED64 = WIRETYPE_FIXED64"
| "WireTypeForFieldType TYPE_SINT32 = WIRETYPE_VARINT"
| "WireTypeForFieldType TYPE_SINT64 = WIRETYPE_VARINT"

definition kTagTypeBits :: nat where "kTagTypeBits = 3"
definition kTagTypeMask :: uint32 where "kTagTypeMask = push_bit kTagTypeBits 1 - 1"

definition MakeTag :: "int \<Rightarrow> wire_type \<Rightarrow> uint32" where
  "MakeTag field_number type = push_bit kTagTypeBits (word_of_int field_number) OR type"

definition GetTagWireType :: "uint32 \<Rightarrow> wire_type" where
  "GetTagWireType tag = tag AND kTagTypeMask"

definition GetTagFieldNumber :: "uint32 \<Rightarrow> int" where
  "GetTagFieldNumber tag = uint (drop_bit kTagTypeBits tag)"

text \<open>For groups this counts the start and the end tag.\<close>

definition TagSize :: "int \<Rightarrow> FieldType \<Rightarrow> int" where
  "TagSize field_number type =
     (let result = VarintSize32 (push_bit kTagTypeBits (word_of_int field_number)) in
      if type = TYPE_GROUP then result * 2 else result)"

text \<open>The tags of the old message sets, and what they take together.\<close>

definition StaticVarintSize32 :: "uint32 \<Rightarrow> int" where
  "StaticVarintSize32 v =
     (if v < push_bit 7 1 then 1 else if v < push_bit 14 1 then 2 else if v < push_bit 21 1 then 3
      else if v < push_bit 28 1 then 4 else 5)"

definition kMessageSetItemNumber :: int where "kMessageSetItemNumber = 1"
definition kMessageSetTypeIdNumber :: int where "kMessageSetTypeIdNumber = 2"
definition kMessageSetMessageNumber :: int where "kMessageSetMessageNumber = 3"
definition kMessageSetItemStartTag :: uint32 where "kMessageSetItemStartTag = MakeTag kMessageSetItemNumber WIRETYPE_START_GROUP"
definition kMessageSetItemEndTag :: uint32 where "kMessageSetItemEndTag = MakeTag kMessageSetItemNumber WIRETYPE_END_GROUP"
definition kMessageSetTypeIdTag :: uint32 where "kMessageSetTypeIdTag = MakeTag kMessageSetTypeIdNumber WIRETYPE_VARINT"
definition kMessageSetMessageTag :: uint32 where "kMessageSetMessageTag = MakeTag kMessageSetMessageNumber WIRETYPE_LENGTH_DELIMITED"

definition kMessageSetItemTagsSize :: int where
  "kMessageSetItemTagsSize =
     StaticVarintSize32 kMessageSetItemStartTag + StaticVarintSize32 kMessageSetItemEndTag +
     StaticVarintSize32 kMessageSetTypeIdTag + StaticVarintSize32 kMessageSetMessageTag"

section \<open>The ZigZag transform\<close>

text \<open>The right shift of the encoders is that of a signed integer.\<close>

definition ZigZagEncode32 :: "int32 \<Rightarrow> uint32" where
  "ZigZagEncode32 n = push_bit 1 n XOR signed_drop_bit 31 n"

definition ZigZagDecode32 :: "uint32 \<Rightarrow> int32" where
  "ZigZagDecode32 n = drop_bit 1 n XOR - (n AND 1)"

definition ZigZagEncode64 :: "int64 \<Rightarrow> uint64" where
  "ZigZagEncode64 n = push_bit 1 n XOR signed_drop_bit 63 n"

definition ZigZagDecode64 :: "uint64 \<Rightarrow> int64" where
  "ZigZagDecode64 n = drop_bit 1 n XOR - (n AND 1)"

definition EncodeFloat :: "float_bits \<Rightarrow> uint32" where "EncodeFloat value = value"
definition DecodeFloat :: "uint32 \<Rightarrow> float_bits" where "DecodeFloat value = value"
definition EncodeDouble :: "double_bits \<Rightarrow> uint64" where "EncodeDouble value = value"
definition DecodeDouble :: "uint64 \<Rightarrow> double_bits" where "DecodeDouble value = value"

lemmas float_codes = EncodeFloat_def DecodeFloat_def EncodeDouble_def DecodeDouble_def

section \<open>Values of primitive fields\<close>

text \<open>A value together with its declared type.\<close>

datatype primitive =
    Int32 int32
  | Int64 int64
  | UInt32 uint32
  | UInt64 uint64
  | SInt32 int32
  | SInt64 int64
  | Fixed32 uint32
  | Fixed64 uint64
  | SFixed32 int32
  | SFixed64 int64
  | Float float_bits
  | Double double_bits
  | Bool bool
  | Enum int32

fun declared_type :: "primitive \<Rightarrow> FieldType" where
  "declared_type (Int32 v) = TYPE_INT32"
| "declared_type (Int64 v) = TYPE_INT64"
| "declared_type (UInt32 v) = TYPE_UINT32"
| "declared_type (UInt64 v) = TYPE_UINT64"
| "declared_type (SInt32 v) = TYPE_SINT32"
| "declared_type (SInt64 v) = TYPE_SINT64"
| "declared_type (Fixed32 v) = TYPE_FIXED32"
| "declared_type (Fixed64 v) = TYPE_FIXED64"
| "declared_type (SFixed32 v) = TYPE_SFIXED32"
| "declared_type (SFixed64 v) = TYPE_SFIXED64"
| "declared_type (Float v) = TYPE_FLOAT"
| "declared_type (Double v) = TYPE_DOUBLE"
| "declared_type (Bool v) = TYPE_BOOL"
| "declared_type (Enum v) = TYPE_ENUM"

subsection \<open>Reading\<close>

text \<open>The specialisations of \<open>ReadPrimitive\<close>, one for each declared type; the other types have none.\<close>

fun ReadPrimitive :: "'s zero_copy_input \<Rightarrow> FieldType \<Rightarrow> 's coded_input \<Rightarrow> (primitive option \<times> 's coded_input) option" where
  "ReadPrimitive zs TYPE_INT32 s = do {
     (temp, s) \<leftarrow> ReadVarint32 zs s;
     Some (map_option (\<lambda>temp. Int32 temp) temp, s) }"
| "ReadPrimitive zs TYPE_INT64 s = do {
     (temp, s) \<leftarrow> ReadVarint64 zs s;
     Some (map_option (\<lambda>temp. Int64 temp) temp, s) }"
| "ReadPrimitive zs TYPE_UINT32 s = do {
     (temp, s) \<leftarrow> ReadVarint32 zs s;
     Some (map_option (\<lambda>temp. UInt32 temp) temp, s) }"
| "ReadPrimitive zs TYPE_UINT64 s = do {
     (temp, s) \<leftarrow> ReadVarint64 zs s;
     Some (map_option (\<lambda>temp. UInt64 temp) temp, s) }"
| "ReadPrimitive zs TYPE_SINT32 s = do {
     (temp, s) \<leftarrow> ReadVarint32 zs s;
     Some (map_option (\<lambda>temp. SInt32 (ZigZagDecode32 temp)) temp, s) }"
| "ReadPrimitive zs TYPE_SINT64 s = do {
     (temp, s) \<leftarrow> ReadVarint64 zs s;
     Some (map_option (\<lambda>temp. SInt64 (ZigZagDecode64 temp)) temp, s) }"
| "ReadPrimitive zs TYPE_FIXED32 s = do {
     (temp, s) \<leftarrow> ReadLittleEndian32 zs s;
     Some (map_option (\<lambda>temp. Fixed32 temp) temp, s) }"
| "ReadPrimitive zs TYPE_FIXED64 s = do {
     (temp, s) \<leftarrow> ReadLittleEndian64 zs s;
     Some (map_option (\<lambda>temp. Fixed64 temp) temp, s) }"
| "ReadPrimitive zs TYPE_SFIXED32 s = do {
     (temp, s) \<leftarrow> ReadLittleEndian32 zs s;
     Some (map_option (\<lambda>temp. SFixed32 temp) temp, s) }"
| "ReadPrimitive zs TYPE_SFIXED64 s = do {
     (temp, s) \<leftarrow> ReadLittleEndian64 zs s;
     Some (map_option (\<lambda>temp. SFixed64 temp) temp, s) }"
| "ReadPrimitive zs TYPE_FLOAT s = do {
     (temp, s) \<leftarrow> ReadLittleEndian32 zs s;
     Some (map_option (\<lambda>temp. Float (DecodeFloat temp)) temp, s) }"
| "ReadPrimitive zs TYPE_DOUBLE s = do {
     (temp, s) \<leftarrow> ReadLittleEndian64 zs s;
     Some (map_option (\<lambda>temp. Double (DecodeDouble temp)) temp, s) }"
| "ReadPrimitive zs TYPE_BOOL s = do {
     (temp, s) \<leftarrow> ReadVarint64 zs s;
     Some (map_option (\<lambda>temp. Bool (temp \<noteq> 0)) temp, s) }"
| "ReadPrimitive zs TYPE_ENUM s = do {
     (temp, s) \<leftarrow> ReadVarint32 zs s;
     Some (map_option (\<lambda>temp. Enum temp) temp, s) }"
| "ReadPrimitive zs _ s = None"

text \<open>From an array, for the types of fixed width: the value and the position behind it.\<close>

fun ReadPrimitiveFromArray :: "FieldType \<Rightarrow> byte list \<Rightarrow> nat \<Rightarrow> (primitive \<times> nat) option" where
  "ReadPrimitiveFromArray TYPE_FIXED32 buffer p = do {
     (temp, p) \<leftarrow> ReadLittleEndian32FromArray buffer p;
     Some (Fixed32 temp, p) }"
| "ReadPrimitiveFromArray TYPE_FIXED64 buffer p = do {
     (temp, p) \<leftarrow> ReadLittleEndian64FromArray buffer p;
     Some (Fixed64 temp, p) }"
| "ReadPrimitiveFromArray TYPE_SFIXED32 buffer p = do {
     (temp, p) \<leftarrow> ReadLittleEndian32FromArray buffer p;
     Some (SFixed32 temp, p) }"
| "ReadPrimitiveFromArray TYPE_SFIXED64 buffer p = do {
     (temp, p) \<leftarrow> ReadLittleEndian64FromArray buffer p;
     Some (SFixed64 temp, p) }"
| "ReadPrimitiveFromArray TYPE_FLOAT buffer p = do {
     (temp, p) \<leftarrow> ReadLittleEndian32FromArray buffer p;
     Some (Float (DecodeFloat temp), p) }"
| "ReadPrimitiveFromArray TYPE_DOUBLE buffer p = do {
     (temp, p) \<leftarrow> ReadLittleEndian64FromArray buffer p;
     Some (Double (DecodeDouble temp), p) }"
| "ReadPrimitiveFromArray _ buffer p = None"

text \<open>\<open>InternalReadStringInline\<close> is the inlined \<open>ReadString\<close>; a length from \<open>2 ^ 31\<close> on becomes negative.\<close>

definition WireFormat_ReadString ::
  "'s zero_copy_input \<Rightarrow> byte list \<Rightarrow> 's coded_input \<Rightarrow> (bool \<times> byte list \<times> 's coded_input) option" where
  "WireFormat_ReadString zs value s = do {
     (len, s) \<leftarrow> ReadVarint32 zs s;
     (case len of
        None \<Rightarrow> Some (False, value, s)
      | Some len \<Rightarrow> ReadString zs value (sint len) s) }"

definition WireFormat_ReadBytes ::
  "'s zero_copy_input \<Rightarrow> byte list \<Rightarrow> 's coded_input \<Rightarrow> (bool \<times> byte list \<times> 's coded_input) option" where
  "WireFormat_ReadBytes zs value s = do {
     (len, s) \<leftarrow> ReadVarint32 zs s;
     (case len of
        None \<Rightarrow> Some (False, value, s)
      | Some len \<Rightarrow> ReadString zs value (sint len) s) }"

subsection \<open>Writing to a stream\<close>

definition WireFormat_WriteTag :: "int \<Rightarrow> wire_type \<Rightarrow> 's zero_copy_output \<Rightarrow> 's coded_output \<Rightarrow> 's coded_output option" where
  "WireFormat_WriteTag field_number type zo s = WriteTag zo (MakeTag field_number type) s"

definition WriteInt32NoTag :: "int32 \<Rightarrow> 's zero_copy_output \<Rightarrow> 's coded_output \<Rightarrow> 's coded_output option" where
  "WriteInt32NoTag value zo s = WriteVarint32SignExtended zo (sint value) s"

definition WriteInt64NoTag :: "int64 \<Rightarrow> 's zero_copy_output \<Rightarrow> 's coded_output \<Rightarrow> 's coded_output option" where
  "WriteInt64NoTag value zo s = WriteVarint64 zo value s"

definition WriteUInt32NoTag :: "uint32 \<Rightarrow> 's zero_copy_output \<Rightarrow> 's coded_output \<Rightarrow> 's coded_output option" where
  "WriteUInt32NoTag value zo s = WriteVarint32 zo value s"

definition WriteUInt64NoTag :: "uint64 \<Rightarrow> 's zero_copy_output \<Rightarrow> 's coded_output \<Rightarrow> 's coded_output option" where
  "WriteUInt64NoTag value zo s = WriteVarint64 zo value s"

definition WriteSInt32NoTag :: "int32 \<Rightarrow> 's zero_copy_output \<Rightarrow> 's coded_output \<Rightarrow> 's coded_output option" where
  "WriteSInt32NoTag value zo s = WriteVarint32 zo (ZigZagEncode32 value) s"

definition WriteSInt64NoTag :: "int64 \<Rightarrow> 's zero_copy_output \<Rightarrow> 's coded_output \<Rightarrow> 's coded_output option" where
  "WriteSInt64NoTag value zo s = WriteVarint64 zo (ZigZagEncode64 value) s"

definition WriteFixed32NoTag :: "uint32 \<Rightarrow> 's zero_copy_output \<Rightarrow> 's coded_output \<Rightarrow> 's coded_output option" where
  "WriteFixed32NoTag value zo s = WriteLittleEndian32 zo value s"

definition WriteFixed64NoTag :: "uint64 \<Rightarrow> 's zero_copy_output \<Rightarrow> 's coded_output \<Rightarrow> 's coded_output option" where
  "WriteFixed64NoTag value zo s = WriteLittleEndian64 zo value s"

definition WriteSFixed32NoTag :: "int32 \<Rightarrow> 's zero_copy_output \<Rightarrow> 's coded_output \<Rightarrow> 's coded_output option" where
  "WriteSFixed32NoTag value zo s = WriteLittleEndian32 zo value s"

definition WriteSFixed64NoTag :: "int64 \<Rightarrow> 's zero_copy_output \<Rightarrow> 's coded_output \<Rightarrow> 's coded_output option" where
  "WriteSFixed64NoTag value zo s = WriteLittleEndian64 zo value s"

definition WriteFloatNoTag :: "float_bits \<Rightarrow> 's zero_copy_output \<Rightarrow> 's coded_output \<Rightarrow> 's coded_output option" where
  "WriteFloatNoTag value zo s = WriteLittleEndian32 zo (EncodeFloat value) s"

definition WriteDoubleNoTag :: "double_bits \<Rightarrow> 's zero_copy_output \<Rightarrow> 's coded_output \<Rightarrow> 's coded_output option" where
  "WriteDoubleNoTag value zo s = WriteLittleEndian64 zo (EncodeDouble value) s"

definition WriteBoolNoTag :: "bool \<Rightarrow> 's zero_copy_output \<Rightarrow> 's coded_output \<Rightarrow> 's coded_output option" where
  "WriteBoolNoTag value zo s = WriteVarint32 zo (if value then 1 else 0) s"

definition WriteEnumNoTag :: "int32 \<Rightarrow> 's zero_copy_output \<Rightarrow> 's coded_output \<Rightarrow> 's coded_output option" where
  "WriteEnumNoTag value zo s = WriteVarint32SignExtended zo (sint value) s"

definition WriteInt32 :: "int \<Rightarrow> int32 \<Rightarrow> 's zero_copy_output \<Rightarrow> 's coded_output \<Rightarrow> 's coded_output option" where
  "WriteInt32 field_number value zo s = do {
     s \<leftarrow> WireFormat_WriteTag field_number WIRETYPE_VARINT zo s;
     WriteInt32NoTag value zo s }"

definition WriteInt64 :: "int \<Rightarrow> int64 \<Rightarrow> 's zero_copy_output \<Rightarrow> 's coded_output \<Rightarrow> 's coded_output option" where
  "WriteInt64 field_number value zo s = do {
     s \<leftarrow> WireFormat_WriteTag field_number WIRETYPE_VARINT zo s;
     WriteInt64NoTag value zo s }"

definition WriteUInt32 :: "int \<Rightarrow> uint32 \<Rightarrow> 's zero_copy_output \<Rightarrow> 's coded_output \<Rightarrow> 's coded_output option" where
  "WriteUInt32 field_number value zo s = do {
     s \<leftarrow> WireFormat_WriteTag field_number WIRETYPE_VARINT zo s;
     WriteUInt32NoTag value zo s }"

definition WriteUInt64 :: "int \<Rightarrow> uint64 \<Rightarrow> 's zero_copy_output \<Rightarrow> 's coded_output \<Rightarrow> 's coded_output option" where
  "WriteUInt64 field_number value zo s = do {
     s \<leftarrow> WireFormat_WriteTag field_number WIRETYPE_VARINT zo s;
     WriteUInt64NoTag value zo s }"

definition WriteSInt32 :: "int \<Rightarrow> int32 \<Rightarrow> 's zero_copy_output \<Rightarrow> 's coded_output \<Rightarrow> 's coded_output option" where
  "WriteSInt32 field_number value zo s = do {
     s \<leftarrow> WireFormat_WriteTag field_number WIRETYPE_VARINT zo s;
     WriteSInt32NoTag value zo s }"

definition WriteSInt64 :: "int \<Rightarrow> int64 \<Rightarrow> 's zero_copy_output \<Rightarrow> 's coded_output \<Rightarrow> 's coded_output option" where
  "WriteSInt64 field_number value zo s = do {
     s \<leftarrow> WireFormat_WriteTag field_number WIRETYPE_VARINT zo s;
     WriteSInt64NoTag value zo s }"

definition WriteFixed32 :: "int \<Rightarrow> uint32 \<Rightarrow> 's zero_copy_output \<Rightarrow> 's coded_output \<Rightarrow> 's coded_output option" where
  "WriteFixed32 field_number value zo s = do {
     s \<leftarrow> WireFormat_WriteTag field_number WIRETYPE_FIXED32 zo s;
     WriteFixed32NoTag value zo s }"

definition WriteFixed64 :: "int \<Rightarrow> uint64 \<Rightarrow> 's zero_copy_output \<Rightarrow> 's coded_output \<Rightarrow> 's coded_output option" where
  "WriteFixed64 field_number value zo s = do {
     s \<leftarrow> WireFormat_WriteTag field_number WIRETYPE_FIXED64 zo s;
     WriteFixed64NoTag value zo s }"

definition WriteSFixed32 :: "int \<Rightarrow> int32 \<Rightarrow> 's zero_copy_output \<Rightarrow> 's coded_output \<Rightarrow> 's coded_output option" where
  "WriteSFixed32 field_number value zo s = do {
     s \<leftarrow> WireFormat_WriteTag field_number WIRETYPE_FIXED32 zo s;
     WriteSFixed32NoTag value zo s }"

definition WriteSFixed64 :: "int \<Rightarrow> int64 \<Rightarrow> 's zero_copy_output \<Rightarrow> 's coded_output \<Rightarrow> 's coded_output option" where
  "WriteSFixed64 field_number value zo s = do {
     s \<leftarrow> WireFormat_WriteTag field_number WIRETYPE_FIXED64 zo s;
     WriteSFixed64NoTag value zo s }"

definition WriteFloat :: "int \<Rightarrow> float_bits \<Rightarrow> 's zero_copy_output \<Rightarrow> 's coded_output \<Rightarrow> 's coded_output option" where
  "WriteFloat field_number value zo s = do {
     s \<leftarrow> WireFormat_WriteTag field_number WIRETYPE_FIXED32 zo s;
     WriteFloatNoTag value zo s }"

definition WriteDouble :: "int \<Rightarrow> double_bits \<Rightarrow> 's zero_copy_output \<Rightarrow> 's coded_output \<Rightarrow> 's coded_output option" where
  "WriteDouble field_number value zo s = do {
     s \<leftarrow> WireFormat_WriteTag field_number WIRETYPE_FIXED64 zo s;
     WriteDoubleNoTag value zo s }"

definition WriteBool :: "int \<Rightarrow> bool \<Rightarrow> 's zero_copy_output \<Rightarrow> 's coded_output \<Rightarrow> 's coded_output option" where
  "WriteBool field_number value zo s = do {
     s \<leftarrow> WireFormat_WriteTag field_number WIRETYPE_VARINT zo s;
     WriteBoolNoTag value zo s }"

definition WriteEnum :: "int \<Rightarrow> int32 \<Rightarrow> 's zero_copy_output \<Rightarrow> 's coded_output \<Rightarrow> 's coded_output option" where
  "WriteEnum field_number value zo s = do {
     s \<leftarrow> WireFormat_WriteTag field_number WIRETYPE_VARINT zo s;
     WriteEnumNoTag value zo s }"

text \<open>A string that is longer than \<open>kint32max\<close> fails the check, which ends the program.\<close>

definition WireFormat_WriteString :: "int \<Rightarrow> byte list \<Rightarrow> 's zero_copy_output \<Rightarrow> 's coded_output \<Rightarrow> 's coded_output option" where
  "WireFormat_WriteString field_number value zo s = do {
     s \<leftarrow> WireFormat_WriteTag field_number WIRETYPE_LENGTH_DELIMITED zo s;
     (if int (length value) \<le> INT_MAX then do {
        s \<leftarrow> WriteVarint32 zo (of_nat (length value)) s;
        CodedOutputStream_WriteString zo value s }
      else None) }"

definition WriteStringMaybeAliased :: "int \<Rightarrow> byte list \<Rightarrow> 's zero_copy_output \<Rightarrow> 's coded_output \<Rightarrow> 's coded_output option" where
  "WriteStringMaybeAliased field_number value zo s = do {
     s \<leftarrow> WireFormat_WriteTag field_number WIRETYPE_LENGTH_DELIMITED zo s;
     (if int (length value) \<le> INT_MAX then do {
        s \<leftarrow> WriteVarint32 zo (of_nat (length value)) s;
        WriteRaw zo value s }
      else None) }"

definition WriteBytes :: "int \<Rightarrow> byte list \<Rightarrow> 's zero_copy_output \<Rightarrow> 's coded_output \<Rightarrow> 's coded_output option" where
  "WriteBytes field_number value zo s = do {
     s \<leftarrow> WireFormat_WriteTag field_number WIRETYPE_LENGTH_DELIMITED zo s;
     (if int (length value) \<le> INT_MAX then do {
        s \<leftarrow> WriteVarint32 zo (of_nat (length value)) s;
        CodedOutputStream_WriteString zo value s }
      else None) }"

definition WriteBytesMaybeAliased :: "int \<Rightarrow> byte list \<Rightarrow> 's zero_copy_output \<Rightarrow> 's coded_output \<Rightarrow> 's coded_output option" where
  "WriteBytesMaybeAliased field_number value zo s = do {
     s \<leftarrow> WireFormat_WriteTag field_number WIRETYPE_LENGTH_DELIMITED zo s;
     (if int (length value) \<le> INT_MAX then do {
        s \<leftarrow> WriteVarint32 zo (of_nat (length value)) s;
        WriteRaw zo value s }
      else None) }"

subsection \<open>Writing to an array\<close>

text \<open>The bytes stored from \<open>target\<close> on.\<close>

definition WireFormat_WriteTagToArray :: "int \<Rightarrow> wire_type \<Rightarrow> byte list" where
  "WireFormat_WriteTagToArray field_number type = WriteTagToArray (MakeTag field_number type)"

definition WriteInt32NoTagToArray :: "int32 \<Rightarrow> byte list" where
  "WriteInt32NoTagToArray value = WriteVarint32SignExtendedToArray (sint value)"

definition WriteInt64NoTagToArray :: "int64 \<Rightarrow> byte list" where
  "WriteInt64NoTagToArray value = WriteVarint64ToArrayInline value"

definition WriteUInt32NoTagToArray :: "uint32 \<Rightarrow> byte list" where
  "WriteUInt32NoTagToArray value = WriteVarint32ToArray value"

definition WriteUInt64NoTagToArray :: "uint64 \<Rightarrow> byte list" where
  "WriteUInt64NoTagToArray value = WriteVarint64ToArrayInline value"

definition WriteSInt32NoTagToArray :: "int32 \<Rightarrow> byte list" where
  "WriteSInt32NoTagToArray value = WriteVarint32ToArray (ZigZagEncode32 value)"

definition WriteSInt64NoTagToArray :: "int64 \<Rightarrow> byte list" where
  "WriteSInt64NoTagToArray value = WriteVarint64ToArrayInline (ZigZagEncode64 value)"

definition WriteFixed32NoTagToArray :: "uint32 \<Rightarrow> byte list" where
  "WriteFixed32NoTagToArray value = WriteLittleEndian32ToArray value"

definition WriteFixed64NoTagToArray :: "uint64 \<Rightarrow> byte list" where
  "WriteFixed64NoTagToArray value = WriteLittleEndian64ToArray value"

definition WriteSFixed32NoTagToArray :: "int32 \<Rightarrow> byte list" where
  "WriteSFixed32NoTagToArray value = WriteLittleEndian32ToArray value"

definition WriteSFixed64NoTagToArray :: "int64 \<Rightarrow> byte list" where
  "WriteSFixed64NoTagToArray value = WriteLittleEndian64ToArray value"

definition WriteFloatNoTagToArray :: "float_bits \<Rightarrow> byte list" where
  "WriteFloatNoTagToArray value = WriteLittleEndian32ToArray (EncodeFloat value)"

definition WriteDoubleNoTagToArray :: "double_bits \<Rightarrow> byte list" where
  "WriteDoubleNoTagToArray value = WriteLittleEndian64ToArray (EncodeDouble value)"

definition WriteBoolNoTagToArray :: "bool \<Rightarrow> byte list" where
  "WriteBoolNoTagToArray value = WriteVarint32ToArray (if value then 1 else 0)"

definition WriteEnumNoTagToArray :: "int32 \<Rightarrow> byte list" where
  "WriteEnumNoTagToArray value = WriteVarint32SignExtendedToArray (sint value)"

definition WriteInt32ToArray :: "int \<Rightarrow> int32 \<Rightarrow> byte list" where
  "WriteInt32ToArray field_number value = WireFormat_WriteTagToArray field_number WIRETYPE_VARINT @ WriteInt32NoTagToArray value"

definition WriteInt64ToArray :: "int \<Rightarrow> int64 \<Rightarrow> byte list" where
  "WriteInt64ToArray field_number value = WireFormat_WriteTagToArray field_number WIRETYPE_VARINT @ WriteInt64NoTagToArray value"

definition WriteUInt32ToArray :: "int \<Rightarrow> uint32 \<Rightarrow> byte list" where
  "WriteUInt32ToArray field_number value = WireFormat_WriteTagToArray field_number WIRETYPE_VARINT @ WriteUInt32NoTagToArray value"

definition WriteUInt64ToArray :: "int \<Rightarrow> uint64 \<Rightarrow> byte list" where
  "WriteUInt64ToArray field_number value = WireFormat_WriteTagToArray field_number WIRETYPE_VARINT @ WriteUInt64NoTagToArray value"

definition WriteSInt32ToArray :: "int \<Rightarrow> int32 \<Rightarrow> byte list" where
  "WriteSInt32ToArray field_number value = WireFormat_WriteTagToArray field_number WIRETYPE_VARINT @ WriteSInt32NoTagToArray value"

definition WriteSInt64ToArray :: "int \<Rightarrow> int64 \<Rightarrow> byte list" where
  "WriteSInt64ToArray field_number value = WireFormat_WriteTagToArray field_number WIRETYPE_VARINT @ WriteSInt64NoTagToArray value"

definition WriteFixed32ToArray :: "int \<Rightarrow> uint32 \<Rightarrow> byte list" where
  "WriteFixed32ToArray field_number value = WireFormat_WriteTagToArray field_number WIRETYPE_FIXED32 @ WriteFixed32NoTagToArray value"

definition WriteFixed64ToArray :: "int \<Rightarrow> uint64 \<Rightarrow> byte list" where
  "WriteFixed64ToArray field_number value = WireFormat_WriteTagToArray field_number WIRETYPE_FIXED64 @ WriteFixed64NoTagToArray value"

definition WriteSFixed32ToArray :: "int \<Rightarrow> int32 \<Rightarrow> byte list" where
  "WriteSFixed32ToArray field_number value = WireFormat_WriteTagToArray field_number WIRETYPE_FIXED32 @ WriteSFixed32NoTagToArray value"

definition WriteSFixed64ToArray :: "int \<Rightarrow> int64 \<Rightarrow> byte list" where
  "WriteSFixed64ToArray field_number value = WireFormat_WriteTagToArray field_number WIRETYPE_FIXED64 @ WriteSFixed64NoTagToArray value"

definition WriteFloatToArray :: "int \<Rightarrow> float_bits \<Rightarrow> byte list" where
  "WriteFloatToArray field_number value = WireFormat_WriteTagToArray field_number WIRETYPE_FIXED32 @ WriteFloatNoTagToArray value"

definition WriteDoubleToArray :: "int \<Rightarrow> double_bits \<Rightarrow> byte list" where
  "WriteDoubleToArray field_number value = WireFormat_WriteTagToArray field_number WIRETYPE_FIXED64 @ WriteDoubleNoTagToArray value"

definition WriteBoolToArray :: "int \<Rightarrow> bool \<Rightarrow> byte list" where
  "WriteBoolToArray field_number value = WireFormat_WriteTagToArray field_number WIRETYPE_VARINT @ WriteBoolNoTagToArray value"

definition WriteEnumToArray :: "int \<Rightarrow> int32 \<Rightarrow> byte list" where
  "WriteEnumToArray field_number value = WireFormat_WriteTagToArray field_number WIRETYPE_VARINT @ WriteEnumNoTagToArray value"

definition WriteStringToArray :: "int \<Rightarrow> byte list \<Rightarrow> byte list" where
  "WriteStringToArray field_number value =
     WireFormat_WriteTagToArray field_number WIRETYPE_LENGTH_DELIMITED @ WriteStringWithSizeToArray value"

definition WriteBytesToArray :: "int \<Rightarrow> byte list \<Rightarrow> byte list" where
  "WriteBytesToArray field_number value =
     WireFormat_WriteTagToArray field_number WIRETYPE_LENGTH_DELIMITED @ WriteStringWithSizeToArray value"

subsection \<open>Sizes\<close>

definition Int32Size :: "int32 \<Rightarrow> int" where "Int32Size value = VarintSize32SignExtended (sint value)"
definition Int64Size :: "int64 \<Rightarrow> int" where "Int64Size value = VarintSize64 value"
definition UInt32Size :: "uint32 \<Rightarrow> int" where "UInt32Size value = VarintSize32 value"
definition UInt64Size :: "uint64 \<Rightarrow> int" where "UInt64Size value = VarintSize64 value"
definition SInt32Size :: "int32 \<Rightarrow> int" where "SInt32Size value = VarintSize32 (ZigZagEncode32 value)"
definition SInt64Size :: "int64 \<Rightarrow> int" where "SInt64Size value = VarintSize64 (ZigZagEncode64 value)"
definition EnumSize :: "int32 \<Rightarrow> int" where "EnumSize value = VarintSize32SignExtended (sint value)"
definition kFixed32Size :: int where "kFixed32Size = 4"
definition kFixed64Size :: int where "kFixed64Size = 8"
definition kSFixed32Size :: int where "kSFixed32Size = 4"
definition kSFixed64Size :: int where "kSFixed64Size = 8"
definition kFloatSize :: int where "kFloatSize = 4"
definition kDoubleSize :: int where "kDoubleSize = 8"
definition kBoolSize :: int where "kBoolSize = 1"

definition StringSize :: "byte list \<Rightarrow> int" where
  "StringSize value = VarintSize32 (of_nat (length value)) + int (length value)"

definition BytesSize :: "byte list \<Rightarrow> int" where
  "BytesSize value = VarintSize32 (of_nat (length value)) + int (length value)"

definition LengthDelimitedSize :: "int \<Rightarrow> int" where
  "LengthDelimitedSize n = VarintSize32 (word_of_int n) + n"

subsection \<open>The functions of a field type\<close>

text \<open>What generated code calls for a field with the given number and type.\<close>

fun write_field :: "int \<Rightarrow> primitive \<Rightarrow> 's zero_copy_output \<Rightarrow> 's coded_output \<Rightarrow> 's coded_output option" where
  "write_field n (Int32 v) = WriteInt32 n v"
| "write_field n (Int64 v) = WriteInt64 n v"
| "write_field n (UInt32 v) = WriteUInt32 n v"
| "write_field n (UInt64 v) = WriteUInt64 n v"
| "write_field n (SInt32 v) = WriteSInt32 n v"
| "write_field n (SInt64 v) = WriteSInt64 n v"
| "write_field n (Fixed32 v) = WriteFixed32 n v"
| "write_field n (Fixed64 v) = WriteFixed64 n v"
| "write_field n (SFixed32 v) = WriteSFixed32 n v"
| "write_field n (SFixed64 v) = WriteSFixed64 n v"
| "write_field n (Float v) = WriteFloat n v"
| "write_field n (Double v) = WriteDouble n v"
| "write_field n (Bool v) = WriteBool n v"
| "write_field n (Enum v) = WriteEnum n v"

fun field_to_array :: "int \<Rightarrow> primitive \<Rightarrow> byte list" where
  "field_to_array n (Int32 v) = WriteInt32ToArray n v"
| "field_to_array n (Int64 v) = WriteInt64ToArray n v"
| "field_to_array n (UInt32 v) = WriteUInt32ToArray n v"
| "field_to_array n (UInt64 v) = WriteUInt64ToArray n v"
| "field_to_array n (SInt32 v) = WriteSInt32ToArray n v"
| "field_to_array n (SInt64 v) = WriteSInt64ToArray n v"
| "field_to_array n (Fixed32 v) = WriteFixed32ToArray n v"
| "field_to_array n (Fixed64 v) = WriteFixed64ToArray n v"
| "field_to_array n (SFixed32 v) = WriteSFixed32ToArray n v"
| "field_to_array n (SFixed64 v) = WriteSFixed64ToArray n v"
| "field_to_array n (Float v) = WriteFloatToArray n v"
| "field_to_array n (Double v) = WriteDoubleToArray n v"
| "field_to_array n (Bool v) = WriteBoolToArray n v"
| "field_to_array n (Enum v) = WriteEnumToArray n v"

fun value_to_array :: "primitive \<Rightarrow> byte list" where
  "value_to_array (Int32 v) = WriteInt32NoTagToArray v"
| "value_to_array (Int64 v) = WriteInt64NoTagToArray v"
| "value_to_array (UInt32 v) = WriteUInt32NoTagToArray v"
| "value_to_array (UInt64 v) = WriteUInt64NoTagToArray v"
| "value_to_array (SInt32 v) = WriteSInt32NoTagToArray v"
| "value_to_array (SInt64 v) = WriteSInt64NoTagToArray v"
| "value_to_array (Fixed32 v) = WriteFixed32NoTagToArray v"
| "value_to_array (Fixed64 v) = WriteFixed64NoTagToArray v"
| "value_to_array (SFixed32 v) = WriteSFixed32NoTagToArray v"
| "value_to_array (SFixed64 v) = WriteSFixed64NoTagToArray v"
| "value_to_array (Float v) = WriteFloatNoTagToArray v"
| "value_to_array (Double v) = WriteDoubleNoTagToArray v"
| "value_to_array (Bool v) = WriteBoolNoTagToArray v"
| "value_to_array (Enum v) = WriteEnumNoTagToArray v"

fun value_size :: "primitive \<Rightarrow> int" where
  "value_size (Int32 v) = Int32Size v"
| "value_size (Int64 v) = Int64Size v"
| "value_size (UInt32 v) = UInt32Size v"
| "value_size (UInt64 v) = UInt64Size v"
| "value_size (SInt32 v) = SInt32Size v"
| "value_size (SInt64 v) = SInt64Size v"
| "value_size (Fixed32 v) = kFixed32Size"
| "value_size (Fixed64 v) = kFixed64Size"
| "value_size (SFixed32 v) = kSFixed32Size"
| "value_size (SFixed64 v) = kSFixed64Size"
| "value_size (Float v) = kFloatSize"
| "value_size (Double v) = kDoubleSize"
| "value_size (Bool v) = kBoolSize"
| "value_size (Enum v) = EnumSize v"

lemmas to_array_defs = WireFormat_WriteTagToArray_def WriteInt32NoTagToArray_def WriteInt32ToArray_def
  WriteInt64NoTagToArray_def WriteInt64ToArray_def WriteUInt32NoTagToArray_def WriteUInt32ToArray_def
  WriteUInt64NoTagToArray_def WriteUInt64ToArray_def WriteSInt32NoTagToArray_def WriteSInt32ToArray_def
  WriteSInt64NoTagToArray_def WriteSInt64ToArray_def WriteFixed32NoTagToArray_def WriteFixed32ToArray_def
  WriteFixed64NoTagToArray_def WriteFixed64ToArray_def WriteSFixed32NoTagToArray_def WriteSFixed32ToArray_def
  WriteSFixed64NoTagToArray_def WriteSFixed64ToArray_def WriteFloatNoTagToArray_def WriteFloatToArray_def
  WriteDoubleNoTagToArray_def WriteDoubleToArray_def WriteBoolNoTagToArray_def WriteBoolToArray_def
  WriteEnumNoTagToArray_def WriteEnumToArray_def
lemmas to_stream_defs = WireFormat_WriteTag_def WriteInt32NoTag_def WriteInt32_def WriteInt64NoTag_def WriteInt64_def
  WriteUInt32NoTag_def WriteUInt32_def WriteUInt64NoTag_def WriteUInt64_def WriteSInt32NoTag_def WriteSInt32_def
  WriteSInt64NoTag_def WriteSInt64_def WriteFixed32NoTag_def WriteFixed32_def WriteFixed64NoTag_def WriteFixed64_def
  WriteSFixed32NoTag_def WriteSFixed32_def WriteSFixed64NoTag_def WriteSFixed64_def WriteFloatNoTag_def WriteFloat_def
  WriteDoubleNoTag_def WriteDouble_def WriteBoolNoTag_def WriteBool_def WriteEnumNoTag_def WriteEnum_def
lemmas size_defs = Int32Size_def Int64Size_def UInt32Size_def UInt64Size_def SInt32Size_def SInt64Size_def
  kFixed32Size_def kFixed64Size_def kSFixed32Size_def kSFixed64Size_def kFloatSize_def kDoubleSize_def kBoolSize_def
  EnumSize_def

section \<open>Laws of the ZigZag transform\<close>

lemma minus_and_one: "- (x AND 1) = (if bit x 0 then - 1 else 0)" for x :: "'a::len word"
  by (cases "even x") (simp_all add: and_one_eq bit_0 odd_iff_mod_2_eq_one even_iff_mod_2_eq_zero)

lemma sint_neg_bit: "sint n < 0 \<longleftrightarrow> bit n (LENGTH('a) - 1)" for n :: "'a::len word"
  by (simp add: bit_last_iff)

lemma signed_shift_sign: "signed_drop_bit (LENGTH('a) - 1) n = (if sint n < 0 then - 1 else 0)" for n :: "'a::len word"
proof (rule bit_word_eqI)
  fix i assume "i < LENGTH('a)"
  then show "bit (signed_drop_bit (LENGTH('a) - 1) n) i = bit (if sint n < 0 then - 1 else 0 :: 'a word) i"
    by (cases i) (auto simp: bit_signed_drop_bit_iff sint_neg_bit bit_simps min_def le_Suc_eq not_le)
qed

text \<open>The transform for any width, and its inverse.\<close>

definition zigzag :: "'a::len word \<Rightarrow> 'a word" where
  "zigzag n = push_bit 1 n XOR (if sint n < 0 then - 1 else 0)"

definition unzigzag :: "'a::len word \<Rightarrow> 'a word" where
  "unzigzag n = drop_bit 1 n XOR (if bit n 0 then - 1 else 0)"

lemma zigzag_eqs:
  "ZigZagEncode32 = zigzag" "ZigZagDecode32 = unzigzag" "ZigZagEncode64 = zigzag" "ZigZagDecode64 = unzigzag"
  using signed_shift_sign [where ?'a = 32] signed_shift_sign [where ?'a = 64]
  by (auto simp: fun_eq_iff ZigZagEncode32_def ZigZagDecode32_def ZigZagEncode64_def ZigZagDecode64_def zigzag_def
      unzigzag_def minus_and_one)

lemma bit_zigzag: "bit (zigzag n) i \<longleftrightarrow> i < LENGTH('a) \<and> (0 < i \<and> bit n (i - 1)) \<noteq> bit n (LENGTH('a) - 1)"
  for n :: "'a::len word"
  unfolding zigzag_def sint_neg_bit by (auto simp: bit_simps simp del: push_bit_Suc One_nat_def)

lemma bit_unzigzag: "bit (unzigzag n) i \<longleftrightarrow> i < LENGTH('a) \<and> bit n (Suc i) \<noteq> bit n 0"
  for n :: "'a::len word"
  unfolding unzigzag_def by (auto simp: bit_simps plus_1_eq_Suc simp del: drop_bit_Suc One_nat_def dest: bit_imp_le_length)

lemma unzigzag_zigzag [simp]: "unzigzag (zigzag n) = n" for n :: "'a::len word"
proof (rule bit_word_eqI)
  fix i assume "i < LENGTH('a)"
  then show "bit (unzigzag (zigzag n)) i = bit n i"
    by (cases "Suc i < LENGTH('a)") (auto simp: bit_zigzag bit_unzigzag not_less dest!: le_antisym)
qed

lemma zigzag_unzigzag [simp]: "zigzag (unzigzag n) = n" for n :: "'a::len word"
proof (rule bit_word_eqI)
  fix i assume "i < LENGTH('a)"
  moreover have "\<not> bit n LENGTH('a)" by (meson bit_imp_le_length less_irrefl)
  ultimately show "bit (zigzag (unzigzag n)) i = bit n i"
    by (cases i) (auto simp: bit_zigzag bit_unzigzag)
qed

lemma uint_zigzag: "uint (zigzag n) = (if sint n < 0 then - 2 * sint n - 1 else 2 * sint n)" for n :: "'a::len word"
proof -
  have range: "- (2 ^ (LENGTH('a) - 1)) \<le> sint n" "sint n < 2 ^ (LENGTH('a) - 1)"
    using sint_greater_eq [of n] sint_less [of n] by auto
  have pow: "(2::int) ^ LENGTH('a) = 2 * 2 ^ (LENGTH('a) - 1)" by (simp flip: power_Suc)
  have d: "push_bit 1 n = word_of_int (2 * sint n)" by (simp add: push_bit_eq_mult mult.commute)
  show ?thesis
  proof (cases "sint n < 0")
    case False
    have "uint (push_bit 1 n) = 2 * sint n mod 2 ^ LENGTH('a)" unfolding d by (simp only: uint_word_of_int)
    also have "\<dots> = 2 * sint n" by (rule mod_pos_pos_trivial) (use False range pow in auto)
    finally show ?thesis using False by (simp add: zigzag_def)
  next
    case True
    have "NOT (push_bit 1 n) = word_of_int (- 2 * sint n - 1)" unfolding d by (simp add: not_eq_complement)
    then have "uint (NOT (push_bit 1 n)) = (- 2 * sint n - 1) mod 2 ^ LENGTH('a)" by (simp only: uint_word_of_int)
    also have "\<dots> = - 2 * sint n - 1" by (rule mod_pos_pos_trivial) (use True range pow in auto)
    finally show ?thesis using True by (simp add: zigzag_def)
  qed
qed

section \<open>Laws of tags\<close>

lemma kTagTypeMask_eq: "kTagTypeMask = mask 3"
  by (simp add: kTagTypeMask_def kTagTypeBits_def mask_eq_exp_minus_1)

lemma low_bits: "t < 8 \<Longrightarrow> bit t i \<Longrightarrow> i < 3" for t :: uint32
proof -
  assume "t < 8" and b: "bit t i"
  then have "take_bit 3 t = t"
    by (simp add: word_less_nat_alt word_unat_eq_iff unsigned_take_bit_eq take_bit_nat_eq_self)
  then show "i < 3" using b by (metis bit_take_bit_iff)
qed

lemma bit_MakeTag: "bit (MakeTag n t) i \<longleftrightarrow> i < 32 \<and> (3 \<le> i \<and> bit n (i - 3) \<or> bit t i)"
  by (auto simp: MakeTag_def kTagTypeBits_def bit_simps dest: bit_imp_le_length)

lemma bit_wire_type: "bit (GetTagWireType tag) i \<longleftrightarrow> i < 3 \<and> bit tag i"
  by (auto simp: GetTagWireType_def kTagTypeMask_eq bit_simps dest: bit_imp_le_length)

lemma bit_number: "bit (GetTagFieldNumber tag) i \<longleftrightarrow> bit tag (i + 3)"
  by (auto simp: GetTagFieldNumber_def kTagTypeBits_def bit_simps add.commute dest: bit_imp_le_length)

lemma wire_type_of_MakeTag [simp]: "t < 8 \<Longrightarrow> GetTagWireType (MakeTag n t) = t"
  using low_bits [of t] by (auto simp: bit_wire_type bit_MakeTag dest: bit_imp_le_length intro!: bit_word_eqI)

lemma number_of_MakeTag [simp]:
  assumes "t < 8" and "0 \<le> n" and "n < 2 ^ 29"
  shows "GetTagFieldNumber (MakeTag n t) = n"
proof -
  have "take_bit 29 n = n" using assms by (simp add: take_bit_int_eq_self)
  then have "bit n i \<Longrightarrow> i < 29" for i by (metis bit_take_bit_iff)
  moreover have "\<not> bit t (i + 3)" for i using low_bits [OF assms(1), of "i + 3"] by auto
  ultimately show ?thesis by (auto simp: bit_eq_iff bit_number bit_MakeTag)
qed

lemma MakeTag_of_tag [simp]: "MakeTag (GetTagFieldNumber tag) (GetTagWireType tag) = tag"
  by (rule bit_word_eqI) (auto simp: bit_MakeTag bit_number bit_wire_type not_less)

lemma wire_type_less: "GetTagWireType tag < 8"
proof -
  have "unat (take_bit 3 tag) < 2 ^ 3" unfolding unsigned_take_bit_eq by (rule take_bit_nat_less_exp)
  then have "take_bit 3 tag < 8" by (simp add: word_less_nat_alt)
  then show ?thesis by (simp add: GetTagWireType_def kTagTypeMask_eq flip: take_bit_eq_mask)
qed

lemma wire_types_less: "WireTypeForFieldType t < 8"
  by (cases t) (simp_all add: wire_types)

text \<open>The size of a tag does not depend on the wire type.\<close>

lemma unat_MakeTag: "t < 8 \<Longrightarrow> unat (MakeTag n t) div 8 = unat (push_bit 3 (word_of_int n :: uint32)) div 8"
proof -
  assume "t < 8"
  then have "drop_bit 3 (MakeTag n t) = drop_bit 3 (push_bit 3 (word_of_int n :: uint32))"
    using low_bits [of t] by (intro bit_word_eqI) (auto simp: bit_MakeTag bit_simps)
  from arg_cong [OF this, of unat] show ?thesis by (simp add: unat_drop)
qed

lemma VarintSize32_div: "unat v div 8 = unat w div 8 \<Longrightarrow> VarintSize32 v = VarintSize32 w"
proof -
  assume "unat v div 8 = unat w div 8"
  then have "unat v < 8 * k \<longleftrightarrow> unat w < 8 * k" for k by (metis div_less_iff_less_mult mult.commute zero_less_numeral)
  from this [of 16] this [of 2048] this [of 262144] this [of 33554432] show ?thesis
    by (simp add: VarintSize32_def VarintSize32Fallback_def word_less_nat_alt)
qed

lemma TagSize_eq:
  "t < 8 \<Longrightarrow> type \<noteq> TYPE_GROUP \<Longrightarrow> TagSize n type = int (length (WireFormat_WriteTagToArray n t))"
  using VarintSize32_div [OF unat_MakeTag [of t n]]
  by (simp add: TagSize_def kTagTypeBits_def WireFormat_WriteTagToArray_def WriteTagToArray_eq VarintSize32_eq)

lemma StaticVarintSize32_eq: "StaticVarintSize32 = VarintSize32"
  by (simp add: fun_eq_iff StaticVarintSize32_def VarintSize32_def VarintSize32Fallback_def)

section \<open>Laws of primitive fields\<close>

lemma length_tag_value:
  "int (length (value_to_array v)) = value_size v"
  "field_to_array n v = WireFormat_WriteTagToArray n (WireTypeForFieldType (declared_type v)) @ value_to_array v"
proof -
  have "- (2 ^ 31) \<le> sint (x :: int32)" for x using sint_greater_eq [of x] by simp
  then show "int (length (value_to_array v)) = value_size v"
    by (cases v) (simp_all add: to_array_defs size_defs length_sign_extended WriteVarint32ToArray_eq VarintSize32_eq
        WriteVarint64ToArrayInline_eq VarintSize64_eq varint_bytes_less WriteLittleEndian32ToArray_def
        WriteLittleEndian64ToArray_def Let_def)
  show "field_to_array n v = WireFormat_WriteTagToArray n (WireTypeForFieldType (declared_type v)) @ value_to_array v"
    by (cases v) (simp_all add: to_array_defs)
qed

lemma field_to_array_size: "int (length (field_to_array n v)) = TagSize n (declared_type v) + value_size v"
proof -
  have "declared_type v \<noteq> TYPE_GROUP" by (cases v) simp_all
  then show ?thesis using TagSize_eq [OF wire_types_less] by (simp add: length_tag_value flip: length_tag_value(1))
qed

subsection \<open>Reads\<close>

text \<open>The first value of the type in a list of bytes and the number of bytes it takes.\<close>

fun first_value :: "FieldType \<Rightarrow> byte list \<Rightarrow> (primitive \<times> nat) option" where
  "first_value TYPE_INT32 bs = map_option (apfst (\<lambda>v. Int32 (of_nat v))) (first_varint bs)"
| "first_value TYPE_INT64 bs = map_option (apfst (\<lambda>v. Int64 (of_nat v))) (first_varint bs)"
| "first_value TYPE_UINT32 bs = map_option (apfst (\<lambda>v. UInt32 (of_nat v))) (first_varint bs)"
| "first_value TYPE_UINT64 bs = map_option (apfst (\<lambda>v. UInt64 (of_nat v))) (first_varint bs)"
| "first_value TYPE_SINT32 bs = map_option (apfst (\<lambda>v. SInt32 (unzigzag (of_nat v)))) (first_varint bs)"
| "first_value TYPE_SINT64 bs = map_option (apfst (\<lambda>v. SInt64 (unzigzag (of_nat v)))) (first_varint bs)"
| "first_value TYPE_FIXED32 bs = map_option (apfst Fixed32) (ReadLittleEndian32FromArray bs 0)"
| "first_value TYPE_FIXED64 bs = map_option (apfst Fixed64) (ReadLittleEndian64FromArray bs 0)"
| "first_value TYPE_SFIXED32 bs = map_option (apfst SFixed32) (ReadLittleEndian32FromArray bs 0)"
| "first_value TYPE_SFIXED64 bs = map_option (apfst SFixed64) (ReadLittleEndian64FromArray bs 0)"
| "first_value TYPE_FLOAT bs = map_option (apfst Float) (ReadLittleEndian32FromArray bs 0)"
| "first_value TYPE_DOUBLE bs = map_option (apfst Double) (ReadLittleEndian64FromArray bs 0)"
| "first_value TYPE_BOOL bs = map_option (apfst (\<lambda>v. Bool ((of_nat v :: uint64) \<noteq> 0))) (first_varint bs)"
| "first_value TYPE_ENUM bs = map_option (apfst (\<lambda>v. Enum (of_nat v))) (first_varint bs)"
| "first_value _ bs = None"

definition is_primitive :: "FieldType \<Rightarrow> bool" where
  "is_primitive t \<longleftrightarrow> t \<notin> {TYPE_STRING, TYPE_GROUP, TYPE_MESSAGE, TYPE_BYTES}"

lemma first_value_to_array: "first_value (declared_type v) (value_to_array v @ bs) = Some (v, length (value_to_array v))"
proof -
  have s: "map_option (apfst (\<lambda>n. C (of_nat n :: uint32))) (first_varint (WriteVarint32SignExtendedToArray (sint x) @ bs)) =
      Some (C x, length (WriteVarint32SignExtendedToArray (sint x)))" for x :: int32 and C :: "int32 \<Rightarrow> primitive"
    unfolding WriteVarint32SignExtendedToArray_def WriteVarint64ToArrayInline_eq WriteVarint32ToArray_eq if_distrib [of "\<lambda>x. x @ bs"]
    by (cases "sint x < 0")
      (simp_all only: if_True if_False first_varint_bytes unat_less_70 option.map apfst_conv sign_extended_low, simp_all)
  have l: "length (WriteLittleEndian32ToArray x) = 4" "length (WriteLittleEndian64ToArray y) = 8" for x y
    by (simp_all add: WriteLittleEndian32ToArray_def WriteLittleEndian64ToArray_def Let_def)
  show ?thesis
    by (cases v) (simp_all add: to_array_defs WriteVarint32ToArray_eq WriteVarint64ToArrayInline_eq first_varint_unat
        le32_roundtrip le64_roundtrip l s zigzag_eqs float_codes)
qed

lemma declared_type_primitive [simp]: "is_primitive (declared_type v)"
  by (cases v) (simp_all add: is_primitive_def)

lemma first_value_array:
  assumes "t \<in> {TYPE_FIXED32, TYPE_FIXED64, TYPE_SFIXED32, TYPE_SFIXED64, TYPE_FLOAT, TYPE_DOUBLE}"
  shows "ReadPrimitiveFromArray t bs 0 = first_value t bs"
  using assms
  by (cases "ReadLittleEndian32FromArray bs 0"; cases "ReadLittleEndian64FromArray bs 0") (auto simp: float_codes)

context input_contract
begin

lemma first_varint_value:
  assumes "cd_inv good pending last_block s"
    and "\<exists>s' k. f = Some (map_option (\<lambda>(v, j). of_nat v) r, s') \<and> cd_moved good pending last_block k s s' \<and>
      (case r of Some (v, j) \<Rightarrow> k = j | None \<Rightarrow> True)"
  shows "\<exists>s' k. do { (x, s) \<leftarrow> f; Some (map_option C x, s) } = Some (map_option fst (map_option (apfst (\<lambda>v. C (of_nat v))) r), s') \<and>
    cd_moved good pending last_block k s s' \<and>
    (case map_option (apfst (\<lambda>v. C (of_nat v))) r of Some (v, j) \<Rightarrow> k = j | None \<Rightarrow> True)"
  using assms(2) by (cases r) auto

lemma first_fixed_value:
  assumes "\<exists>s'. f = Some (map_option fst r, s') \<and> cd_moved good pending last_block m s s'"
    and "\<forall>v k. r = Some (v, k) \<longrightarrow> k = m"
  shows "\<exists>s' k. do { (x, s) \<leftarrow> f; Some (map_option C x, s) } = Some (map_option fst (map_option (apfst C) r), s') \<and>
    cd_moved good pending last_block k s s' \<and>
    (case map_option (apfst C) r of Some (v, j) \<Rightarrow> k = j | None \<Rightarrow> True)"
  using assms by (cases r) (fastforce split: prod.splits)+

lemma ReadPrimitive_law:
  assumes "cd_inv good pending last_block s" and "is_primitive t"
  shows "\<exists>s' k. ReadPrimitive zs t s = Some (map_option fst (first_value t (cd_visible pending s)), s') \<and>
    cd_moved good pending last_block k s s' \<and>
    (case first_value t (cd_visible pending s) of Some (v, j) \<Rightarrow> k = j | None \<Rightarrow> True)"
proof -
  note v32 = first_varint_value [OF assms(1) ReadVarint32_law [OF assms(1)]]
  note v64 = first_varint_value [OF assms(1) ReadVarint64_law [OF assms(1)]]
  have "\<forall>v k. ReadLittleEndian32FromArray (cd_visible pending s) 0 = Some (v, k) \<longrightarrow> k = min 4 (length (cd_visible pending s))"
    using ReadLittleEndianFromArray_length(1) by fastforce
  note f32 = first_fixed_value [OF ReadLittleEndian32_law [OF assms(1)] this]
  have "\<forall>v k. ReadLittleEndian64FromArray (cd_visible pending s) 0 = Some (v, k) \<longrightarrow> k = min 8 (length (cd_visible pending s))"
    using ReadLittleEndianFromArray_length(2) by fastforce
  note f64 = first_fixed_value [OF ReadLittleEndian64_law [OF assms(1)] this]
  show ?thesis
    using assms(2)
  proof (induction t)
  qed ((unfold ReadPrimitive.simps first_value.simps zigzag_eqs float_codes)?,
      (rule v32 v64 f32 f64 | simp add: is_primitive_def))+
qed

lemma WireFormat_ReadString_law:
  assumes "cd_inv good pending last_block s" and "first_varint (cd_visible pending s) = Some (n, k)" and "n < 2 ^ 31"
    and "k + n \<le> length (cd_visible pending s)"
  shows "\<exists>s'. WireFormat_ReadString zs value s = Some (True, take n (drop k (cd_visible pending s)), s') \<and>
    WireFormat_ReadBytes zs value s = WireFormat_ReadString zs value s \<and> cd_moved good pending last_block (k + n) s s'"
proof -
  obtain s1 where s1: "ReadVarint32 zs s = Some (Some (of_nat n), s1)" "cd_moved good pending last_block k s s1"
    using ReadVarint32_law [OF assms(1)] assms(2) by auto
  have n: "sint (of_nat n :: uint32) = int n"
    using assms(3) by (simp add: sint_uint unsigned_of_nat take_bit_nat_eq_self signed_take_bit_int_eq_self)
  have "cd_inv good pending last_block s1" and v: "cd_visible pending s1 = drop k (cd_visible pending s)"
    using s1(2) by (simp_all add: cd_moved_def)
  then obtain s2 where "ReadString zs value (int n) s1 = Some (True, take n (drop k (cd_visible pending s)), s2)"
    "cd_moved good pending last_block n s1 s2"
    using ReadString_law [of s1 "int n" "value"] assms(4) by auto
  then show ?thesis
    using s1 n cd_moved_trans [OF s1(2)] by (simp add: WireFormat_ReadString_def WireFormat_ReadBytes_def)
qed

end

subsection \<open>Writes\<close>

text \<open>A stream that does not fail before it holds \<open>n\<close> bytes.\<close>

definition takes :: "('s \<Rightarrow> bool) \<Rightarrow> ('s \<Rightarrow> byte list) \<Rightarrow> ('s \<Rightarrow> bool) \<Rightarrow> nat \<Rightarrow> bool" where
  "takes good written stuck n \<longleftrightarrow> (\<forall>s. good s \<and> stuck s \<longrightarrow> n \<le> length (written s))"

definition wrote ::
  "'s zero_copy_output \<Rightarrow> ('s \<Rightarrow> bool) \<Rightarrow> ('s \<Rightarrow> byte list) \<Rightarrow> int \<Rightarrow> int \<Rightarrow> byte list \<Rightarrow> 's coded_output option \<Rightarrow> bool" where
  "wrote zo good written base start data r \<longleftrightarrow> (\<exists>s. r = Some s \<and> cw_at zo good written base start data s)"

lemma wrote_bind:
  "wrote zo good written base start data r \<Longrightarrow>
   (\<And>s. cw_at zo good written base start data s \<Longrightarrow> wrote zo good written base start data' (f s)) \<Longrightarrow>
   wrote zo good written base start data' (r \<bind> f)"
  by (auto simp: wrote_def)

context output_memory
begin

lemma WriteRaw_takes:
  assumes "takes good written stuck n" and "length (data @ bs) \<le> n" and "cw_at zo good written base start data s"
  shows "wrote zo good written base start (data @ bs) (WriteRaw zo bs s)"
proof -
  obtain s' where s': "WriteRaw zo bs s = Some s'"
    "if HadError s' then \<exists>k < length bs. cw_failed zo good written stuck (data @ take k bs) s'
     else cw_at zo good written base start (data @ bs) s'"
    using WriteRaw_law [OF assms(3)] by blast
  have "\<not> cw_failed zo good written stuck (data @ take k bs) s'" if "k < length bs" for k
  proof
    assume "cw_failed zo good written stuck (data @ take k bs) s'"
    then obtain s0 where "good s0" "stuck s0" "written s0 = data @ take k bs" by (auto simp: cw_failed_def)
    then show False using assms(1,2) that by (fastforce simp: takes_def)
  qed
  then show ?thesis using s' by (auto simp: wrote_def split: if_splits)
qed

lemma WriteVarint32_takes:
  assumes "takes good written stuck n" and "length (data @ WriteVarint32ToArray v) \<le> n"
    and "cw_at zo good written base start data s"
  shows "wrote zo good written base start (data @ WriteVarint32ToArray v) (WriteVarint32 zo v s)"
  using WriteRaw_takes [OF assms] by (simp add: WriteVarint_eq WriteVarint32ToArray_eq)

lemma WriteTag_takes:
  assumes "takes good written stuck n" and "length (data @ WireFormat_WriteTagToArray num type) \<le> n"
    and "cw_at zo good written base start data s"
  shows "wrote zo good written base start (data @ WireFormat_WriteTagToArray num type) (WireFormat_WriteTag num type zo s)"
  using WriteRaw_takes [OF assms]
  by (simp add: WireFormat_WriteTag_def WriteTag_def WriteVarint_eq WireFormat_WriteTagToArray_def WriteTagToArray_eq)

lemma write_field_takes:
  assumes "takes good written stuck n" and "length (data @ field_to_array num v) \<le> n"
    and "cw_at zo good written base start data s"
  shows "wrote zo good written base start (data @ field_to_array num v) (write_field num v zo s)"
proof -
  let ?tag = "WireFormat_WriteTagToArray num (WireTypeForFieldType (declared_type v))"
  have w: "write_field num v zo s = WireFormat_WriteTag num (WireTypeForFieldType (declared_type v)) zo s \<bind>
      WriteRaw zo (value_to_array v)"
    by (cases v) (simp_all add: to_stream_defs to_array_defs WriteVarint_eq WriteVarint32SignExtended_eq WriteLittleEndian_eq
        WriteVarint32ToArray_eq WriteVarint64ToArrayInline_eq)
  have "wrote zo good written base start (data @ ?tag) (WireFormat_WriteTag num (WireTypeForFieldType (declared_type v)) zo s)"
    using assms(2) by (intro WriteTag_takes [OF assms(1) _ assms(3)]) (simp add: length_tag_value(2))
  moreover have "wrote zo good written base start ((data @ ?tag) @ value_to_array v) (WriteRaw zo (value_to_array v) s')"
    if "cw_at zo good written base start (data @ ?tag) s'" for s'
    using assms(2) by (intro WriteRaw_takes [OF assms(1) _ that]) (simp add: length_tag_value(2))
  ultimately show ?thesis unfolding w by (simp add: wrote_bind length_tag_value(2))
qed

lemma WriteBytes_takes:
  assumes "takes good written stuck n" and "length (data @ WriteStringToArray num str) \<le> n" and "int (length str) \<le> INT_MAX"
    and "cw_at zo good written base start data s" and "f \<in> {WireFormat_WriteString, WriteStringMaybeAliased, WriteBytes, WriteBytesMaybeAliased}"
  shows "wrote zo good written base start (data @ WriteStringToArray num str) (f num str zo s)"
proof -
  let ?tag = "WireFormat_WriteTagToArray num WIRETYPE_LENGTH_DELIMITED" and ?len = "WriteVarint32ToArray (of_nat (length str))"
  have a: "WriteStringToArray num str = ?tag @ ?len @ str"
    by (simp add: WriteStringToArray_def WriteStringWithSizeToArray_def)
  have le: "length (data @ ?tag) \<le> n" "length ((data @ ?tag) @ ?len) \<le> n" "length (((data @ ?tag) @ ?len) @ str) \<le> n"
    using assms(2) by (simp_all add: a)
  have "wrote zo good written base start (((data @ ?tag) @ ?len) @ str)
      (do { s \<leftarrow> WireFormat_WriteTag num WIRETYPE_LENGTH_DELIMITED zo s; s \<leftarrow> WriteVarint32 zo (of_nat (length str)) s; WriteRaw zo str s })"
    by (intro wrote_bind [OF WriteTag_takes [OF assms(1) le(1) assms(4)]] wrote_bind [OF WriteVarint32_takes [OF assms(1) le(2)]]
        WriteRaw_takes [OF assms(1) le(3)])
  moreover have "CodedOutputStream_WriteString zo = WriteRaw zo"
    by (simp add: fun_eq_iff CodedOutputStream_WriteString_def)
  ultimately show ?thesis
    using assms(3,5) by (auto simp: a WireFormat_WriteString_def WriteStringMaybeAliased_def WriteBytes_def WriteBytesMaybeAliased_def)
qed

end

section \<open>Messages of primitive and string fields\<close>

text \<open>What the code generated for such a message does: a list of fields, each with its number.\<close>

datatype simple_field = Primitive_field int primitive | Bytes_field int "byte list"

fun field_number :: "simple_field \<Rightarrow> int" where
  "field_number (Primitive_field n v) = n"
| "field_number (Bytes_field n v) = n"

fun field_type :: "simple_field \<Rightarrow> FieldType" where
  "field_type (Primitive_field n v) = declared_type v"
| "field_type (Bytes_field n v) = TYPE_BYTES"

fun field_bytes :: "simple_field \<Rightarrow> byte list" where
  "field_bytes (Primitive_field n v) = field_to_array n v"
| "field_bytes (Bytes_field n v) = WriteBytesToArray n v"

fun field_size :: "simple_field \<Rightarrow> int" where
  "field_size (Primitive_field n v) = TagSize n (declared_type v) + value_size v"
| "field_size (Bytes_field n v) = TagSize n TYPE_BYTES + BytesSize v"

fun put_field :: "simple_field \<Rightarrow> 's zero_copy_output \<Rightarrow> 's coded_output \<Rightarrow> 's coded_output option" where
  "put_field (Primitive_field n v) zo s = write_field n v zo s"
| "put_field (Bytes_field n v) zo s = WriteBytes n v zo s"

fun put_fields :: "simple_field list \<Rightarrow> 's zero_copy_output \<Rightarrow> 's coded_output \<Rightarrow> 's coded_output option" where
  "put_fields [] zo s = Some s"
| "put_fields (f # fs) zo s = do { s \<leftarrow> put_field f zo s; put_fields fs zo s }"

text \<open>Reading a field of the expected type: \<open>None\<close> inside when the tag is another one or the value is not there.\<close>

definition get_field :: "'s zero_copy_input \<Rightarrow> FieldType \<Rightarrow> 's coded_input \<Rightarrow> (simple_field option \<times> 's coded_input) option" where
  "get_field zs type s = do {
     (tag, s) \<leftarrow> ReadTag zs s;
     (if tag = 0 \<or> GetTagWireType tag \<noteq> WireTypeForFieldType type then Some (None, s)
      else if type = TYPE_BYTES then do {
        (ok, value, s) \<leftarrow> WireFormat_ReadBytes zs [] s;
        Some (if ok then Some (Bytes_field (GetTagFieldNumber tag) value) else None, s) }
      else do {
        (r, s) \<leftarrow> ReadPrimitive zs type s;
        Some (map_option (Primitive_field (GetTagFieldNumber tag)) r, s) }) }"

fun get_fields :: "'s zero_copy_input \<Rightarrow> FieldType list \<Rightarrow> 's coded_input \<Rightarrow> (simple_field list option \<times> 's coded_input) option" where
  "get_fields zs [] s = Some (Some [], s)"
| "get_fields zs (t # ts) s = do {
     (f, s) \<leftarrow> get_field zs t s;
     (case f of
        None \<Rightarrow> Some (None, s)
      | Some f \<Rightarrow> do { (fs, s) \<leftarrow> get_fields zs ts s; Some (map_option (Cons f) fs, s) }) }"

definition put_fields_session :: "'s zero_copy_output \<Rightarrow> simple_field list \<Rightarrow> 's \<Rightarrow> (bool \<times> 's) option" where
  "put_fields_session zo fs i = do {
     s \<leftarrow> CodedOutputStream zo i;
     s \<leftarrow> put_fields fs zo s;
     i \<leftarrow> CodedOutputStream_delete zo s;
     Some (\<not> HadError s, i) }"

definition get_fields_session :: "'s zero_copy_input \<Rightarrow> FieldType list \<Rightarrow> 's \<Rightarrow> simple_field list option option" where
  "get_fields_session zs ts i = do {
     s \<leftarrow> CodedInputStream zs i;
     (fs, s) \<leftarrow> get_fields zs ts s;
     Some fs }"

lemma StringSize_eq: "int (length (WriteStringWithSizeToArray v)) = StringSize v" "BytesSize v = StringSize v"
  by (simp_all add: WriteStringWithSizeToArray_def StringSize_def BytesSize_def WriteVarint32ToArray_eq VarintSize32_eq)

lemma WriteBytesToArray_eq: "WriteBytesToArray = WriteStringToArray"
  by (simp add: fun_eq_iff WriteBytesToArray_def WriteStringToArray_def)

lemma field_size_eq: "int (length (field_bytes f)) = field_size f"
proof (cases f)
  case (Primitive_field n v)
  then show ?thesis by (simp add: field_to_array_size)
next
  case (Bytes_field n v)
  then show ?thesis
    using TagSize_eq [of WIRETYPE_LENGTH_DELIMITED TYPE_BYTES n] StringSize_eq(1) [of v]
    by (simp add: WriteBytesToArray_def StringSize_eq(2) wire_types)
qed

definition number_ok :: "simple_field \<Rightarrow> bool" where
  "number_ok f \<longleftrightarrow> 0 < field_number f \<and> field_number f < 2 ^ 29"

lemma MakeTag_not_0: "t < 8 \<Longrightarrow> 0 < n \<Longrightarrow> n < 2 ^ 29 \<Longrightarrow> MakeTag n t \<noteq> 0"
  using number_of_MakeTag [of t n] by (auto simp: GetTagFieldNumber_def)

lemma field_bytes_tag:
  "field_bytes f = WireFormat_WriteTagToArray (field_number f) (WireTypeForFieldType (field_type f)) @
     (case f of Primitive_field n v \<Rightarrow> value_to_array v | Bytes_field n v \<Rightarrow> WriteStringWithSizeToArray v)"
  by (cases f) (simp_all add: length_tag_value(2) WriteBytesToArray_def)

lemma first_varint_tag:
  "first_varint (WireFormat_WriteTagToArray n t @ bs) = Some (unat (MakeTag n t), length (WireFormat_WriteTagToArray n t))"
  by (simp add: WireFormat_WriteTagToArray_def WriteTagToArray_eq first_varint_unat)

lemma first_varint_length:
  assumes "length v < 2 ^ 32"
  shows "first_varint (WriteVarint32ToArray (of_nat (length v)) @ bs) = Some (length v, length (WriteVarint32ToArray (of_nat (length v))))"
  using assms by (simp add: WriteVarint32ToArray_eq unsigned_of_nat take_bit_nat_eq_self first_varint_bytes)

context input_contract
begin

text \<open>The tag is read, and what follows it is visible.\<close>

lemma ReadTag_written:
  assumes "cd_inv good pending last_block s" and "cd_visible pending s = WireFormat_WriteTagToArray n t @ bs"
  shows "\<exists>s'. ReadTag zs s = Some (MakeTag n t, s') \<and> cd_moved good pending last_block (length (WireFormat_WriteTagToArray n t)) s s' \<and>
    cd_visible pending s' = bs"
  using ReadTag_law [OF assms(1)] assms(2) by (auto simp: first_varint_tag tag_of_def cd_moved_def)

lemma get_field_written:
  assumes "cd_inv good pending last_block s" and "number_ok f" and "length (field_bytes f) < 2 ^ 31"
    and "cd_visible pending s = field_bytes f @ bs"
  shows "\<exists>s'. get_field zs (field_type f) s = Some (Some f, s') \<and>
    cd_moved good pending last_block (length (field_bytes f)) s s' \<and> cd_visible pending s' = bs"
proof -
  let ?t = "WireTypeForFieldType (field_type f)"
  let ?b = "case f of Primitive_field n v \<Rightarrow> value_to_array v | Bytes_field n v \<Rightarrow> WriteStringWithSizeToArray v"
  obtain s1 where s1: "ReadTag zs s = Some (MakeTag (field_number f) ?t, s1)"
    "cd_moved good pending last_block (length (WireFormat_WriteTagToArray (field_number f) ?t)) s s1" "cd_visible pending s1 = ?b @ bs"
    using ReadTag_written [OF assms(1), of "field_number f" ?t "?b @ bs"] assms(4) by (auto simp: field_bytes_tag)
  have tag: "MakeTag (field_number f) ?t \<noteq> 0" "GetTagWireType (MakeTag (field_number f) ?t) = ?t"
    "GetTagFieldNumber (MakeTag (field_number f) ?t) = field_number f"
    using assms(2) wire_types_less MakeTag_not_0 by (simp_all add: number_ok_def)
  have inv: "cd_inv good pending last_block s1" using s1(2) by (simp add: cd_moved_def)
  have "\<exists>s2. get_field zs (field_type f) s = Some (Some f, s2) \<and> cd_moved good pending last_block (length ?b) s1 s2"
  proof (cases f)
    case (Primitive_field n v)
    have nb: "declared_type v \<noteq> TYPE_BYTES" by (cases v) simp_all
    obtain s2 where "ReadPrimitive zs (declared_type v) s1 = Some (Some v, s2)"
      "cd_moved good pending last_block (length (value_to_array v)) s1 s2"
      using ReadPrimitive_law [OF inv declared_type_primitive [of v]] s1(3) Primitive_field by (auto simp: first_value_to_array)
    then show ?thesis using s1(1) tag nb Primitive_field by (simp add: get_field_def)
  next
    case (Bytes_field n v)
    have len: "length v < 2 ^ 31" using assms(3) Bytes_field by (simp add: WriteBytesToArray_def WriteStringWithSizeToArray_def)
    then have "first_varint (cd_visible pending s1) = Some (length v, length (WriteVarint32ToArray (of_nat (length v))))"
      using s1(3) Bytes_field by (simp add: WriteStringWithSizeToArray_def first_varint_length)
    from WireFormat_ReadString_law [OF inv this len, of "[]"]
    obtain s2 where "WireFormat_ReadBytes zs [] s1 = Some (True, v, s2)"
      "cd_moved good pending last_block (length (WriteStringWithSizeToArray v)) s1 s2"
      using s1(3) Bytes_field by (auto simp: WriteStringWithSizeToArray_def)
    then show ?thesis using s1(1) tag Bytes_field by (simp add: get_field_def)
  qed
  then obtain s2 where s2: "get_field zs (field_type f) s = Some (Some f, s2)" "cd_moved good pending last_block (length ?b) s1 s2"
    by blast
  have "cd_visible pending s2 = bs" using s2(2) s1(3) by (simp add: cd_moved_def)
  then show ?thesis using s2(1) cd_moved_trans [OF s1(2) s2(2)] by (simp add: field_bytes_tag)
qed

lemma get_fields_written:
  assumes "cd_inv good pending last_block s" and "list_all number_ok fs" and "length (concat (map field_bytes fs)) < 2 ^ 31"
    and "cd_visible pending s = concat (map field_bytes fs) @ bs"
  shows "\<exists>s'. get_fields zs (map field_type fs) s = Some (Some fs, s') \<and>
    cd_moved good pending last_block (length (concat (map field_bytes fs))) s s'"
  using assms
proof (induction fs arbitrary: s)
  case Nil
  then show ?case using cd_moved_0 by simp
next
  case (Cons f fs)
  obtain s1 where s1: "get_field zs (field_type f) s = Some (Some f, s1)"
    "cd_moved good pending last_block (length (field_bytes f)) s s1" "cd_visible pending s1 = concat (map field_bytes fs) @ bs"
    using get_field_written [OF Cons.prems(1), of f "concat (map field_bytes fs) @ bs"] Cons.prems by auto
  have "cd_inv good pending last_block s1" using s1(2) by (simp add: cd_moved_def)
  then obtain s2 where "get_fields zs (map field_type fs) s1 = Some (Some fs, s2)"
    "cd_moved good pending last_block (length (concat (map field_bytes fs))) s1 s2"
    using Cons.IH [OF _ _ _ s1(3)] Cons.prems by auto
  then show ?case using s1(1) cd_moved_trans [OF s1(2)] by simp
qed

end

context output_memory
begin

lemma put_fields_takes:
  assumes "takes good written stuck n" and "length (data @ concat (map field_bytes fs)) \<le> n" and "int n \<le> INT_MAX"
    and "cw_at zo good written base start data s"
  shows "wrote zo good written base start (data @ concat (map field_bytes fs)) (put_fields fs zo s)"
  using assms(2,4)
proof (induction fs arbitrary: data s)
  case Nil
  then show ?case by (simp add: wrote_def)
next
  case (Cons f fs)
  have le: "length (data @ field_bytes f) \<le> n" using Cons.prems(1) by simp
  have "wrote zo good written base start (data @ field_bytes f) (put_field f zo s)"
  proof (cases f)
    case (Primitive_field k v)
    then show ?thesis using write_field_takes [OF assms(1) _ Cons.prems(2)] le by simp
  next
    case (Bytes_field k v)
    then have "int (length v) \<le> INT_MAX"
      using le assms(3) by (simp add: WriteBytesToArray_def WriteStringWithSizeToArray_def)
    then show ?thesis
      using WriteBytes_takes [OF assms(1) _ _ Cons.prems(2)] le Bytes_field by (simp add: WriteBytesToArray_eq)
  qed
  moreover have "wrote zo good written base start ((data @ field_bytes f) @ concat (map field_bytes fs)) (put_fields fs zo s')"
    if "cw_at zo good written base start (data @ field_bytes f) s'" for s'
    using Cons.prems(1) by (intro Cons.IH [OF _ that]) simp
  ultimately show ?case by (simp add: wrote_bind)
qed

end

section \<open>Properties\<close>

text \<open>
  The ZigZag transform of both widths is a bijection between signed and unsigned integers, and it does what
  the table in the header says: \<open>n\<close> becomes \<open>2 * n\<close> and a negative \<open>n\<close> becomes \<open>- 2 * n - 1\<close>, without overflow.
\<close>

theorem zigzag_bijection:
  "ZigZagDecode32 (ZigZagEncode32 m) = m \<and> ZigZagEncode32 (ZigZagDecode32 m) = m \<and>
   uint (ZigZagEncode32 m) = (if sint m < 0 then - 2 * sint m - 1 else 2 * sint m) \<and>
   ZigZagDecode64 (ZigZagEncode64 n) = n \<and> ZigZagEncode64 (ZigZagDecode64 n) = n \<and>
   uint (ZigZagEncode64 n) = (if sint n < 0 then - 2 * sint n - 1 else 2 * sint n)"
  by (simp only: zigzag_eqs unzigzag_zigzag zigzag_unzigzag uint_zigzag)

text \<open>
  For every field type and value, the size functions announce exactly the number of bytes that the array
  versions store, the tag included, and so do the functions for strings.
\<close>

theorem sizes_are_exact:
  "int (length (field_bytes f)) = field_size f \<and>
   int (length (WriteStringToArray n v)) = TagSize n TYPE_STRING + StringSize v \<and>
   int (length (WireFormat_WriteTagToArray n WIRETYPE_START_GROUP @ WireFormat_WriteTagToArray n WIRETYPE_END_GROUP)) =
     TagSize n TYPE_GROUP"
  using TagSize_eq [of WIRETYPE_LENGTH_DELIMITED TYPE_STRING n] TagSize_eq [of WIRETYPE_START_GROUP TYPE_BYTES n]
    TagSize_eq [of WIRETYPE_END_GROUP TYPE_BYTES n] StringSize_eq(1) [of v]
  by (simp add: field_size_eq WriteStringToArray_def wire_types) (simp add: TagSize_def)

text \<open>
  A message of fields of any types, written field by field through a \<open>CodedOutputStream\<close> into a string,
  has the size the size functions say, and reading fields of these types from an array stream with any block size gives
  the same numbers and values back.
\<close>

theorem fields_roundtrip:
  assumes "list_all number_ok fs" and "sum_list (map field_size fs) \<le> kDefaultTotalBytesLimit"
  shows "\<exists>out. put_fields_session (string_output_stream grow) fs \<lparr>ss_data = [], ss_capacity = c\<rparr> = Some (True, out) \<and>
    int (length (ss_data out)) = sum_list (map field_size fs) \<and>
    get_fields_session array_input_stream (map field_type fs)
      (ArrayInputStream (ss_data out) (sum_list (map field_size fs)) block_size) = Some (Some fs)"
proof -
  let ?i = "\<lparr>ss_data = [], ss_capacity = c\<rparr> :: std_string" and ?d = "concat (map field_bytes fs)" and ?zo = "string_output_stream grow"
  have size: "int (length ?d) = sum_list (map field_size fs)"
    by (induction fs) (simp_all add: field_size_eq)
  then have le: "int (length ?d) \<le> kDefaultTotalBytesLimit" using assms(2) by simp
  have takes: "takes (\<lambda>_. True) ss_data string_stuck (length ?d)" and no: "\<not> string_stuck ?i"
    using le by (auto simp: takes_def string_stuck_def INT_MAX_def kDefaultTotalBytesLimit_def)
  obtain s where s: "CodedOutputStream ?zo ?i = Some s" "cw_at ?zo (\<lambda>_. True) ss_data (zo_ByteCount ?zo ?i) 0 [] s"
    using string_mem.CodedOutputStream_law [of ?i grow] no by auto
  obtain s' where s': "put_fields fs ?zo s = Some s'" "cw_at ?zo (\<lambda>_. True) ss_data (zo_ByteCount ?zo ?i) 0 ?d s'"
    using string_mem.put_fields_takes [OF takes _ _ s(2), of fs] le
    by (auto simp: wrote_def INT_MAX_def kDefaultTotalBytesLimit_def)
  obtain out where out: "CodedOutputStream_delete ?zo s' = Some out" "ss_data out = ?d"
    using string_mem.CodedOutputStream_delete_law [OF s'(2)] by blast
  have w: "put_fields_session ?zo fs ?i = Some (True, out)"
    using s(1) s' out(1) by (simp add: put_fields_session_def cw_at_def)
  let ?a = "ArrayInputStream ?d (int (length ?d)) block_size"
  have "int (length (array_pending ?a)) \<le> INT_MAX" "take (nat kDefaultTotalBytesLimit) ?d = ?d"
    using le by (simp_all add: array_pending_new INT_MAX_def kDefaultTotalBytesLimit_def)
  then obtain r where r: "CodedInputStream array_input_stream ?a = Some r" "cd_inv array_inv array_pending array_last r"
    "cd_visible array_pending r = ?d @ []"
    using array_in.CodedInputStream_law [OF array_inv_new [of ?d block_size]] by (auto simp: array_pending_new)
  have "length ?d < 2 ^ 31" using le by (simp add: kDefaultTotalBytesLimit_def)
  then obtain r' where "get_fields array_input_stream (map field_type fs) r = Some (Some fs, r')"
    using array_in.get_fields_written [OF r(2) assms(1) _ r(3)] by blast
  then have "get_fields_session array_input_stream (map field_type fs) ?a = Some (Some fs)"
    using r(1) by (simp add: get_fields_session_def)
  then show ?thesis using w out(2) size by auto
qed

theorem fields_roundtrip_witness:
  "\<exists>out. put_fields_session (string_output_stream (\<lambda>c n. n))
        [Primitive_field 1 (SInt32 (- 3)), Primitive_field 2 (Bool True), Bytes_field 3 [104, 105]] \<lparr>ss_data = [], ss_capacity = 0\<rparr> =
      Some (True, out) \<and> int (length (ss_data out)) = 8 \<and>
    get_fields_session array_input_stream [TYPE_SINT32, TYPE_BOOL, TYPE_BYTES] (ArrayInputStream (ss_data out) 8 1) =
      Some (Some [Primitive_field 1 (SInt32 (- 3)), Primitive_field 2 (Bool True), Bytes_field 3 [104, 105]])"
proof -
  let ?fs = "[Primitive_field 1 (SInt32 (- 3)), Primitive_field 2 (Bool True), Bytes_field 3 [104, 105]]"
  have z: "ZigZagEncode32 (- 3) = 5" by (simp add: ZigZagEncode32_def)
  have "sum_list (map field_size ?fs) = 8"
    by (simp add: TagSize_def kTagTypeBits_def VarintSize32_def SInt32Size_def kBoolSize_def BytesSize_def z)
  then show ?thesis
    using fields_roundtrip [of ?fs "\<lambda>c n. n" 0 1] by (simp add: number_ok_def kDefaultTotalBytesLimit_def)
qed

end
