(* ===== verification/WireSkip.thy ===== *)
theory WireSkip
  imports WireFormat
begin

text \<open>
  Skipping unknown fields (wire_format_lite.cc): \<open>SkipField\<close> and \<open>SkipMessage\<close>, the version that discards the
  fields and the one that copies them to a \<open>CodedOutputStream\<close>, and the two field skippers built on them.

  The two functions of a version call each other: the body of \<open>SkipField\<close> is a definition over the call of
  \<open>SkipMessage\<close>, and \<open>SkipMessage\<close> is a partial function, since its loop reads until the input ends. The laws say that
  it always ends, and what it does for any bytes: it takes the longest list of fields from them.
\<close>

section \<open>Skipping\<close>

definition SkipField_body ::
  "('s coded_input \<Rightarrow> (bool \<times> 's coded_input) option) \<Rightarrow> 's zero_copy_input \<Rightarrow> uint32 \<Rightarrow> 's coded_input \<Rightarrow>
     (bool \<times> 's coded_input) option" where
  "SkipField_body skip_message zs tag s =
     (if GetTagWireType tag = WIRETYPE_VARINT then do {
        (r, s) \<leftarrow> ReadVarint64 zs s;
        Some (r \<noteq> None, s) }
      else if GetTagWireType tag = WIRETYPE_FIXED64 then do {
        (r, s) \<leftarrow> ReadLittleEndian64 zs s;
        Some (r \<noteq> None, s) }
      else if GetTagWireType tag = WIRETYPE_LENGTH_DELIMITED then do {
        (r, s) \<leftarrow> ReadVarint32 zs s;
        (case r of
           None \<Rightarrow> Some (False, s)
         | Some n \<Rightarrow> CodedInputStream_Skip zs (sint n) s) }
      else if GetTagWireType tag = WIRETYPE_START_GROUP then
        (case IncrementRecursionDepth s of (ok, s) \<Rightarrow>
           if \<not> ok then Some (False, s)
           else do {
             (ok, s) \<leftarrow> skip_message s;
             (if \<not> ok then Some (False, s)
              else let s = DecrementRecursionDepth s in
                Some (LastTagWas (MakeTag (GetTagFieldNumber tag) WIRETYPE_END_GROUP) s, s)) })
      else if GetTagWireType tag = WIRETYPE_END_GROUP then Some (False, s)
      else if GetTagWireType tag = WIRETYPE_FIXED32 then do {
        (r, s) \<leftarrow> ReadLittleEndian32 zs s;
        Some (r \<noteq> None, s) }
      else Some (False, s))"

lemma mono_SkipField_body [partial_function_mono]:
  assumes "\<And>x. mono_option (\<lambda>f. B f x)"
  shows "mono_option (\<lambda>f. SkipField_body (B f) zs tag s)"
  unfolding SkipField_body_def Let_def using assms
  by (cases "IncrementRecursionDepth s") (auto intro!: partial_function_mono split: prod.splits)

partial_function (option) SkipMessage :: "'s zero_copy_input \<Rightarrow> 's coded_input \<Rightarrow> (bool \<times> 's coded_input) option" where
  "SkipMessage zs s = do {
     (tag, s) \<leftarrow> ReadTag zs s;
     (if tag = 0 then Some (True, s)
      else if GetTagWireType tag = WIRETYPE_END_GROUP then Some (True, s)
      else do {
        (ok, s) \<leftarrow> SkipField_body (SkipMessage zs) zs tag s;
        (if \<not> ok then Some (False, s) else SkipMessage zs s) }) }"

definition SkipField :: "'s zero_copy_input \<Rightarrow> uint32 \<Rightarrow> 's coded_input \<Rightarrow> (bool \<times> 's coded_input) option" where
  "SkipField zs tag s = SkipField_body (SkipMessage zs) zs tag s"

section \<open>Skipping into an output stream\<close>

definition SkipField_output_body ::
  "('s coded_input \<times> 't coded_output \<Rightarrow> (bool \<times> 's coded_input \<times> 't coded_output) option) \<Rightarrow>
     's zero_copy_input \<Rightarrow> 't zero_copy_output \<Rightarrow> uint32 \<Rightarrow> 's coded_input \<Rightarrow> 't coded_output \<Rightarrow>
     (bool \<times> 's coded_input \<times> 't coded_output) option" where
  "SkipField_output_body skip_message zs zo tag s out =
     (if GetTagWireType tag = WIRETYPE_VARINT then do {
        (r, s) \<leftarrow> ReadVarint64 zs s;
        (case r of
           None \<Rightarrow> Some (False, s, out)
         | Some v \<Rightarrow> do {
             out \<leftarrow> WriteVarint32 zo tag out;
             out \<leftarrow> WriteVarint64 zo v out;
             Some (True, s, out) }) }
      else if GetTagWireType tag = WIRETYPE_FIXED64 then do {
        (r, s) \<leftarrow> ReadLittleEndian64 zs s;
        (case r of
           None \<Rightarrow> Some (False, s, out)
         | Some v \<Rightarrow> do {
             out \<leftarrow> WriteVarint32 zo tag out;
             out \<leftarrow> WriteLittleEndian64 zo v out;
             Some (True, s, out) }) }
      else if GetTagWireType tag = WIRETYPE_LENGTH_DELIMITED then do {
        (r, s) \<leftarrow> ReadVarint32 zs s;
        (case r of
           None \<Rightarrow> Some (False, s, out)
         | Some n \<Rightarrow> do {
             out \<leftarrow> WriteVarint32 zo tag out;
             out \<leftarrow> WriteVarint32 zo n out;
             (ok, temp, s) \<leftarrow> ReadString zs [] (sint n) s;
             (if \<not> ok then Some (False, s, out)
              else do {
                out \<leftarrow> CodedOutputStream_WriteString zo temp out;
                Some (True, s, out) }) }) }
      else if GetTagWireType tag = WIRETYPE_START_GROUP then do {
        out \<leftarrow> WriteVarint32 zo tag out;
        (case IncrementRecursionDepth s of (ok, s) \<Rightarrow>
           if \<not> ok then Some (False, s, out)
           else do {
             (ok, s, out) \<leftarrow> skip_message (s, out);
             (if \<not> ok then Some (False, s, out)
              else let s = DecrementRecursionDepth s in
                Some (LastTagWas (MakeTag (GetTagFieldNumber tag) WIRETYPE_END_GROUP) s, s, out)) }) }
      else if GetTagWireType tag = WIRETYPE_END_GROUP then Some (False, s, out)
      else if GetTagWireType tag = WIRETYPE_FIXED32 then do {
        (r, s) \<leftarrow> ReadLittleEndian32 zs s;
        (case r of
           None \<Rightarrow> Some (False, s, out)
         | Some v \<Rightarrow> do {
             out \<leftarrow> WriteVarint32 zo tag out;
             out \<leftarrow> WriteLittleEndian32 zo v out;
             Some (True, s, out) }) }
      else Some (False, s, out))"

lemma mono_SkipField_output_body [partial_function_mono]:
  assumes "\<And>x. mono_option (\<lambda>f. B f x)"
  shows "mono_option (\<lambda>f. SkipField_output_body (B f) zs zo tag s out)"
  unfolding SkipField_output_body_def Let_def using assms
  by (cases "IncrementRecursionDepth s") (auto intro!: partial_function_mono split: prod.splits option.splits)

partial_function (option) SkipMessage_output ::
  "'s zero_copy_input \<Rightarrow> 't zero_copy_output \<Rightarrow> 's coded_input \<times> 't coded_output \<Rightarrow>
     (bool \<times> 's coded_input \<times> 't coded_output) option" where
  "SkipMessage_output zs zo p = do {
     (tag, s) \<leftarrow> ReadTag zs (fst p);
     (if tag = 0 then Some (True, s, snd p)
      else if GetTagWireType tag = WIRETYPE_END_GROUP then do {
        out \<leftarrow> WriteVarint32 zo tag (snd p);
        Some (True, s, out) }
      else do {
        (ok, s, out) \<leftarrow> SkipField_output_body (SkipMessage_output zs zo) zs zo tag s (snd p);
        (if \<not> ok then Some (False, s, out) else SkipMessage_output zs zo (s, out)) }) }"

definition SkipField_output ::
  "'s zero_copy_input \<Rightarrow> 't zero_copy_output \<Rightarrow> uint32 \<Rightarrow> 's coded_input \<Rightarrow> 't coded_output \<Rightarrow>
     (bool \<times> 's coded_input \<times> 't coded_output) option" where
  "SkipField_output zs zo tag s out = SkipField_output_body (SkipMessage_output zs zo) zs zo tag s out"

section \<open>Field skippers\<close>

text \<open>The virtual methods. The plain skipper has no state; the other one keeps the stream for unknown fields.\<close>

record ('s, 'f) field_skipper =
  fs_SkipField :: "'s coded_input \<Rightarrow> uint32 \<Rightarrow> 'f \<Rightarrow> (bool \<times> 's coded_input \<times> 'f) option"
  fs_SkipMessage :: "'s coded_input \<Rightarrow> 'f \<Rightarrow> (bool \<times> 's coded_input \<times> 'f) option"
  fs_SkipUnknownEnum :: "int32 \<Rightarrow> int32 \<Rightarrow> 'f \<Rightarrow> 'f option"

definition FieldSkipper :: "'s zero_copy_input \<Rightarrow> ('s, unit) field_skipper" where
  "FieldSkipper zs =
     \<lparr>fs_SkipField = (\<lambda>input tag f. map_option (\<lambda>(ok, s). (ok, s, f)) (SkipField zs tag input)),
      fs_SkipMessage = (\<lambda>input f. map_option (\<lambda>(ok, s). (ok, s, f)) (SkipMessage zs input)),
      fs_SkipUnknownEnum = (\<lambda>field_number value f. Some f)\<rparr>"

definition CodedOutputStreamFieldSkipper ::
  "'s zero_copy_input \<Rightarrow> 't zero_copy_output \<Rightarrow> ('s, 't coded_output) field_skipper" where
  "CodedOutputStreamFieldSkipper zs zo =
     \<lparr>fs_SkipField = (\<lambda>input tag unknown_fields. SkipField_output zs zo tag input unknown_fields),
      fs_SkipMessage = (\<lambda>input unknown_fields. SkipMessage_output zs zo (input, unknown_fields)),
      fs_SkipUnknownEnum = (\<lambda>field_number value unknown_fields. do {
        unknown_fields \<leftarrow> WriteVarint32 zo field_number unknown_fields;
        WriteVarint64 zo (scast value) unknown_fields })\<rparr>"

section \<open>The specification: the fields in a list of bytes\<close>

text \<open>Fields as the wire knows them, without their declared types. The encoder writes the shortest varints.\<close>

datatype wire_field =
    Wire_varint int uint64
  | Wire_fixed64 int uint64
  | Wire_bytes int "byte list"
  | Wire_group int "wire_field list"
  | Wire_fixed32 int uint32

fun wire_bytes :: "wire_field \<Rightarrow> byte list" and wires_bytes :: "wire_field list \<Rightarrow> byte list" where
  "wire_bytes (Wire_varint n v) = WireFormat_WriteTagToArray n WIRETYPE_VARINT @ WriteVarint64ToArrayInline v"
| "wire_bytes (Wire_fixed64 n v) = WireFormat_WriteTagToArray n WIRETYPE_FIXED64 @ WriteLittleEndian64ToArray v"
| "wire_bytes (Wire_bytes n bs) = WireFormat_WriteTagToArray n WIRETYPE_LENGTH_DELIMITED @ WriteStringWithSizeToArray bs"
| "wire_bytes (Wire_group n fs) =
     WireFormat_WriteTagToArray n WIRETYPE_START_GROUP @ wires_bytes fs @ WireFormat_WriteTagToArray n WIRETYPE_END_GROUP"
| "wire_bytes (Wire_fixed32 n v) = WireFormat_WriteTagToArray n WIRETYPE_FIXED32 @ WriteLittleEndian32ToArray v"
| "wires_bytes [] = []"
| "wires_bytes (f # fs) = wire_bytes f @ wires_bytes fs"

text \<open>A field that is no group, behind its tag, and the number of bytes it takes.\<close>

definition parse_simple :: "uint32 \<Rightarrow> byte list \<Rightarrow> (wire_field \<times> nat) option" where
  "parse_simple tag bs =
     (let n = GetTagFieldNumber tag; t = GetTagWireType tag in
      if t = WIRETYPE_VARINT then map_option (\<lambda>(v, k). (Wire_varint n (of_nat v), k)) (first_varint bs)
      else if t = WIRETYPE_FIXED64 then map_option (\<lambda>(v, k). (Wire_fixed64 n v, k)) (ReadLittleEndian64FromArray bs 0)
      else if t = WIRETYPE_LENGTH_DELIMITED then
        (case first_varint bs of
           None \<Rightarrow> None
         | Some (v, k) \<Rightarrow>
             let len = unat (of_nat v :: uint32) in
             if k + len \<le> length bs then Some (Wire_bytes n (take len (drop k bs)), k + len) else None)
      else if t = WIRETYPE_FIXED32 then map_option (\<lambda>(v, k). (Wire_fixed32 n v, k)) (ReadLittleEndian32FromArray bs 0)
      else None)"

lemma first_varint_pos:
  assumes "first_varint bs = Some (v, k)"
  shows "0 < k" and "k \<le> length bs" and "v < 2 ^ (7 * k)"
proof -
  have "read_varint n bs = Some (Some (v, k)) \<Longrightarrow> 0 < k \<and> k \<le> length bs \<and> v < 2 ^ (7 * k)" for n
  proof (induction n bs arbitrary: v k rule: read_varint.induct)
    case (3 n b bs)
    show ?case
    proof (cases "last7 b")
      case True
      then show ?thesis using 3(2) lo7_less [of b] by auto
    next
      case False
      then obtain w j where "read_varint n bs = Some (Some (w, j))" "v = lo7 b + 128 * w" "k = j + 1"
        using 3(2) by auto
      then show ?thesis using 3(1) [OF False] lo7_less [of b] by (simp add: power_add)
    qed
  qed simp_all
  from this [of kMaxVarintBytes] show "0 < k" and "k \<le> length bs" and "v < 2 ^ (7 * k)"
    using assms by (auto simp: first_varint_def split: option.splits)
qed

text \<open>
  The fields up to the end of the bytes, an end-group tag or a zero tag, the tag that ended them, and how many bytes this
  took. A malformed tag ends them, too, at no specified place. \<open>None\<close> when a field is cut off or has no valid wire type, when a group is not closed
  by its own end tag, or when groups are nested more than \<open>d\<close> deep.
\<close>

function parse_fields :: "nat \<Rightarrow> byte list \<Rightarrow> (wire_field list \<times> uint32 \<times> nat option) option" where
  "parse_fields d bs =
     (case first_varint bs of
        None \<Rightarrow> Some ([], 0, if bs = [] then Some 0 else None)
      | Some (v, k) \<Rightarrow>
          let tag = of_nat v; n = GetTagFieldNumber tag in
          if tag = 0 \<or> GetTagWireType tag = WIRETYPE_END_GROUP then Some ([], tag, Some k)
          else
            (case (if GetTagWireType tag = WIRETYPE_START_GROUP then
                     (if d = 0 then None
                      else case parse_fields (d - 1) (drop k bs) of
                          Some (fs, t, Some j) \<Rightarrow>
                            if t = MakeTag n WIRETYPE_END_GROUP then Some (Wire_group n fs, j) else None
                        | _ \<Rightarrow> None)
                   else parse_simple tag (drop k bs)) of
               None \<Rightarrow> None
             | Some (f, j) \<Rightarrow>
                 map_option (\<lambda>(fs, t, r). (f # fs, t, map_option ((+) (k + j)) r)) (parse_fields d (drop (k + j) bs))))"
  by pat_completeness auto
termination
proof (relation "measure (length \<circ> snd)")
  fix d :: nat and bs :: "byte list" and r v k
  assume "first_varint bs = Some r" "(v, k) = r"
  then have "0 < k" "k \<le> length bs" using first_varint_pos(1,2) [of bs v k] by simp_all
  then show "((d - 1, drop k bs), (d, bs)) \<in> measure (length \<circ> snd)" "((d, drop (k + j) bs), (d, bs)) \<in> measure (length \<circ> snd)" for j
    by auto
qed simp

declare parse_fields.simps [simp del]

section \<open>Laws of skipping\<close>

lemma wire_types_distinct:
  "WIRETYPE_START_GROUP \<noteq> WIRETYPE_VARINT" "WIRETYPE_START_GROUP \<noteq> WIRETYPE_FIXED64"
  "WIRETYPE_START_GROUP \<noteq> WIRETYPE_LENGTH_DELIMITED" "WIRETYPE_END_GROUP \<noteq> WIRETYPE_VARINT"
  "WIRETYPE_END_GROUP \<noteq> WIRETYPE_FIXED64" "WIRETYPE_END_GROUP \<noteq> WIRETYPE_LENGTH_DELIMITED"
  "WIRETYPE_END_GROUP \<noteq> WIRETYPE_START_GROUP"
  by (simp_all add: wire_types)

lemma visible_le:
  assumes "cd_inv good pending last_block s"
  shows "int (length (cd_visible pending s)) \<le> INT_MAX"
proof -
  have "length (cd_visible pending s) \<le> nat (closest_limit s - CurrentPosition s)"
    unfolding cd_visible_def by (simp only: length_take min.cobounded2)
  then have "int (length (cd_visible pending s)) \<le> int (nat (closest_limit s - CurrentPosition s))" by (simp only: of_nat_le_iff)
  moreover have "0 \<le> CurrentPosition s" "CurrentPosition s \<le> closest_limit s" "closest_limit s \<le> INT_MAX"
    using assms by (auto simp: cd_inv_def closest_limit_def)
  ultimately show ?thesis by linarith
qed

lemma depth_updates:
  "CurrentPosition (s\<lparr>cd_recursion_depth := d\<rparr>) = CurrentPosition s"
  "closest_limit (s\<lparr>cd_recursion_depth := d\<rparr>) = closest_limit s"
  "cd_rest pending (s\<lparr>cd_recursion_depth := d\<rparr>) = cd_rest pending s"
  "cd_visible pending (s\<lparr>cd_recursion_depth := d\<rparr>) = cd_visible pending s"
  "cd_inv good pending last_block (s\<lparr>cd_recursion_depth := d\<rparr>) = cd_inv good pending last_block s"
proof -
  show c: "CurrentPosition (s\<lparr>cd_recursion_depth := d\<rparr>) = CurrentPosition s"
    "closest_limit (s\<lparr>cd_recursion_depth := d\<rparr>) = closest_limit s" by (simp_all add: CurrentPosition_def closest_limit_def)
  show r: "cd_rest pending (s\<lparr>cd_recursion_depth := d\<rparr>) = cd_rest pending s" by (simp add: cd_rest_def cd_pending_def)
  show "cd_visible pending (s\<lparr>cd_recursion_depth := d\<rparr>) = cd_visible pending s" by (simp add: cd_visible_def c r)
  show "cd_inv good pending last_block (s\<lparr>cd_recursion_depth := d\<rparr>) = cd_inv good pending last_block s"
    by (simp add: cd_inv_def c cong: option.case_cong)
qed

text \<open>Reading inside of a group, one level deeper, and going up again.\<close>

lemma group_moved:
  assumes "cd_moved good pending last_block j (s\<lparr>cd_recursion_depth := cd_recursion_depth s + 1\<rparr>) s'"
    and "0 \<le> cd_recursion_depth s"
  shows "cd_moved good pending last_block j s (DecrementRecursionDepth s')"
  using assms by (auto simp: cd_moved_def DecrementRecursionDepth_def depth_updates cd_frame_def)

text \<open>How many more groups may be nested.\<close>

definition depth_left :: "'s coded_input \<Rightarrow> nat" where
  "depth_left s = nat (cd_recursion_limit s - cd_recursion_depth s)"

lemma depth_left_moved: "cd_moved good pending last_block k s s' \<Longrightarrow> depth_left s' = depth_left s"
  "cd_moved good pending last_block k s s' \<Longrightarrow> cd_recursion_depth s' = cd_recursion_depth s"
  by (simp_all add: cd_moved_def depth_left_def cd_frame_def)

lemma sint_of_len: "int (unat v) \<le> INT_MAX \<Longrightarrow> sint v = int (unat v)" for v :: uint32
proof -
  assume "int (unat v) \<le> INT_MAX"
  then have "- (2 ^ 31) \<le> uint v" "uint v < 2 ^ 31" by (simp_all add: INT_MAX_def order_trans [OF _ uint_nonnegative])
  then show ?thesis by (simp add: sint_uint signed_take_bit_int_eq_self)
qed

lemma sint_big: "INT_MAX < int (unat v) \<Longrightarrow> sint v < 0" for v :: uint32
proof (rule ccontr)
  assume big: "INT_MAX < int (unat v)" and "\<not> sint v < 0"
  then have n: "\<not> bit v 31" by (simp add: sint_neg_bit)
  have "take_bit 31 v = v"
  proof (rule bit_word_eqI)
    fix i assume "i < LENGTH(32)"
    then show "bit (take_bit 31 v) i = bit v i" using n by (cases "i = 31") (auto simp: bit_simps)
  qed
  moreover have "unat (take_bit 31 v) < 2 ^ 31" unfolding unsigned_take_bit_eq by (rule take_bit_nat_less_exp)
  ultimately have "unat v < 2147483648" by simp
  then show False using big unfolding INT_MAX_def by linarith
qed

context input_contract
begin

text \<open>Skipping that many bytes, where the number comes from the data.\<close>

lemma Skip_length_law:
  assumes "cd_inv good pending last_block s"
  shows "\<exists>s'. CodedInputStream_Skip zs (sint (v :: uint32)) s = Some (unat v \<le> length (cd_visible pending s), s') \<and>
    (unat v \<le> length (cd_visible pending s) \<longrightarrow> cd_moved good pending last_block (unat v) s s')"
proof (cases "int (unat v) \<le> INT_MAX")
  case True
  then show ?thesis using Skip_law [OF assms, of "int (unat v)"] by (auto simp: sint_of_len)
next
  case False
  then have "\<not> unat v \<le> length (cd_visible pending s)" using visible_le [OF assms] by linarith
  moreover have "sint v < 0" using sint_big [of v] False by simp
  ultimately show ?thesis by (simp add: CodedInputStream_Skip_def)
qed

end

text \<open>One result against the specification: \<open>None\<close> must be reported as such, and otherwise the field has been taken.\<close>

definition skipped ::
  "('s \<Rightarrow> bool) \<Rightarrow> ('s \<Rightarrow> byte list) \<Rightarrow> ('s \<Rightarrow> byte list) \<Rightarrow> 's coded_input \<Rightarrow> nat option \<Rightarrow>
     (bool \<times> 's coded_input) option \<Rightarrow> bool" where
  "skipped good pending last_block s spec r \<longleftrightarrow> (case spec of
     None \<Rightarrow> \<exists>s'. r = Some (False, s')
   | Some j \<Rightarrow> \<exists>s'. r = Some (True, s') \<and> cd_moved good pending last_block j s s')"

lemma skipped_simps [simp]:
  "skipped good pending last_block s None r \<longleftrightarrow> (\<exists>s'. r = Some (False, s'))"
  "skipped good pending last_block s (Some j) r \<longleftrightarrow> (\<exists>s'. r = Some (True, s') \<and> cd_moved good pending last_block j s s')"
  by (simp_all add: skipped_def)

text \<open>The group behind a start tag, in the specification.\<close>

definition parse_group :: "nat \<Rightarrow> uint32 \<Rightarrow> byte list \<Rightarrow> (wire_field \<times> nat) option" where
  "parse_group d tag bs =
     (if d = 0 then None
      else case parse_fields (d - 1) bs of
          Some (fs, t, Some j) \<Rightarrow>
            if t = MakeTag (GetTagFieldNumber tag) WIRETYPE_END_GROUP then Some (Wire_group (GetTagFieldNumber tag) fs, j) else None
        | _ \<Rightarrow> None)"

definition parse_field :: "nat \<Rightarrow> uint32 \<Rightarrow> byte list \<Rightarrow> (wire_field \<times> nat) option" where
  "parse_field d tag bs = (if GetTagWireType tag = WIRETYPE_START_GROUP then parse_group d tag bs else parse_simple tag bs)"

definition ends_fields :: "uint32 \<Rightarrow> bool" where
  "ends_fields tag \<longleftrightarrow> tag = 0 \<or> GetTagWireType tag = WIRETYPE_END_GROUP"

lemma parse_fields_eq:
  "parse_fields d bs =
     (case first_varint bs of
        None \<Rightarrow> Some ([], 0, if bs = [] then Some 0 else None)
      | Some (v, k) \<Rightarrow>
          if ends_fields (of_nat v) then Some ([], of_nat v, Some k)
          else
            (case parse_field d (of_nat v) (drop k bs) of
               None \<Rightarrow> None
             | Some (f, j) \<Rightarrow>
                 map_option (\<lambda>(fs, t, r). (f # fs, t, map_option ((+) (k + j)) r)) (parse_fields d (drop (k + j) bs))))"
  by (subst parse_fields.simps)
    (simp only: parse_field_def parse_group_def ends_fields_def Let_def split_beta if_cancel cong: option.case_cong if_cong)

lemma parse_fields_induct [consumes 0, case_names fields]:
  assumes "\<And>d bs.
    (\<And>v k. first_varint bs = Some (v, k) \<Longrightarrow> \<not> ends_fields (of_nat v) \<Longrightarrow> 0 < d \<Longrightarrow> P (d - 1) (drop k bs)) \<Longrightarrow>
    (\<And>v k f j. first_varint bs = Some (v, k) \<Longrightarrow> \<not> ends_fields (of_nat v) \<Longrightarrow>
      parse_field d (of_nat v) (drop k bs) = Some (f, j) \<Longrightarrow> P d (drop (k + j) bs)) \<Longrightarrow> P d bs"
  shows "P d bs"
proof (induction "length bs" arbitrary: d bs rule: less_induct)
  case less
  show ?case
  proof (rule assms)
    fix v k f j
    assume a: "first_varint bs = Some (v, k)"
    then have "length (drop k bs) < length bs" "length (drop (k + j) bs) < length bs"
      using first_varint_pos(1,2) [OF a] by auto
    then show "P (d - 1) (drop k bs)" "P d (drop (k + j) bs)" by (simp_all add: less)
  qed
qed

lemma parse_fields_malformed: "parse_fields d bs = Some (fs, t, None) \<Longrightarrow> t = 0"
proof (induction d bs arbitrary: fs rule: parse_fields_induct)
  case (fields d bs)
  show ?case
    using fields.prems fields.IH(2) by (subst (asm) parse_fields_eq) (auto split: option.splits if_splits)
qed

lemma end_tag_not_0: "MakeTag n WIRETYPE_END_GROUP \<noteq> 0"
proof
  assume "MakeTag n WIRETYPE_END_GROUP = 0"
  then have "GetTagWireType 0 = WIRETYPE_END_GROUP" using wire_type_of_MakeTag [of WIRETYPE_END_GROUP n] by (simp add: wire_types)
  then show False by (simp add: GetTagWireType_def wire_types)
qed

context input_contract
begin

lemma SkipField_simple_law:
  assumes "cd_inv good pending last_block s" and "GetTagWireType tag \<noteq> WIRETYPE_START_GROUP"
  shows "skipped good pending last_block s (map_option snd (parse_simple tag (cd_visible pending s))) (SkipField_body F zs tag s)"
proof -
  let ?bs = "cd_visible pending s"
  obtain s1 k1 where v64: "ReadVarint64 zs s = Some (map_option (\<lambda>(v, j). of_nat v) (first_varint ?bs), s1)"
    "cd_moved good pending last_block k1 s s1" "case first_varint ?bs of Some (v, j) \<Rightarrow> k1 = j | None \<Rightarrow> True"
    using ReadVarint64_law [OF assms(1)] by blast
  obtain s2 k2 where v32: "ReadVarint32 zs s = Some (map_option (\<lambda>(v, j). of_nat v) (first_varint ?bs), s2)"
    "cd_moved good pending last_block k2 s s2" "case first_varint ?bs of Some (v, j) \<Rightarrow> k2 = j | None \<Rightarrow> True"
    using ReadVarint32_law [OF assms(1)] by blast
  obtain s3 where f32: "ReadLittleEndian32 zs s = Some (map_option fst (ReadLittleEndian32FromArray ?bs 0), s3)"
    "cd_moved good pending last_block (min 4 (length ?bs)) s s3"
    using ReadLittleEndian32_law [OF assms(1)] by blast
  obtain s4 where f64: "ReadLittleEndian64 zs s = Some (map_option fst (ReadLittleEndian64FromArray ?bs 0), s4)"
    "cd_moved good pending last_block (min 8 (length ?bs)) s s4"
    using ReadLittleEndian64_law [OF assms(1)] by blast
  consider "GetTagWireType tag = WIRETYPE_VARINT" | "GetTagWireType tag = WIRETYPE_FIXED64"
    | "GetTagWireType tag = WIRETYPE_LENGTH_DELIMITED" | "GetTagWireType tag = WIRETYPE_FIXED32"
    | "GetTagWireType tag \<notin> {WIRETYPE_VARINT, WIRETYPE_FIXED64, WIRETYPE_LENGTH_DELIMITED, WIRETYPE_FIXED32}" by blast
  then show ?thesis
  proof cases
    case 1
    then show ?thesis using v64
      by (cases "first_varint ?bs") (auto simp: SkipField_body_def parse_simple_def)
  next
    case 2
    then show ?thesis using f64 ReadLittleEndianFromArray_length(2) [of ?bs]
      by (cases "ReadLittleEndian64FromArray ?bs 0") (fastforce simp: SkipField_body_def parse_simple_def wire_types)+
  next
    case 4
    then show ?thesis using f32 ReadLittleEndianFromArray_length(1) [of ?bs]
      by (cases "ReadLittleEndian32FromArray ?bs 0") (fastforce simp: SkipField_body_def parse_simple_def wire_types)+
  next
    case 3
    show ?thesis
    proof (cases "first_varint ?bs")
      case None
      then show ?thesis using 3 v32 by (simp add: SkipField_body_def parse_simple_def wire_types)
    next
      case (Some r)
      obtain v k where r: "r = (v, k)" by (cases r)
      have m: "cd_moved good pending last_block k s s2" using v32(2,3) Some r by simp
      then have i: "cd_inv good pending last_block s2" and b: "cd_visible pending s2 = drop k ?bs" by (simp_all add: cd_moved_def)
      obtain s5 where s5: "CodedInputStream_Skip zs (sint (of_nat v :: uint32)) s2 =
          Some (unat (of_nat v :: uint32) \<le> length (drop k ?bs), s5)"
        "unat (of_nat v :: uint32) \<le> length (drop k ?bs) \<longrightarrow> cd_moved good pending last_block (unat (of_nat v :: uint32)) s2 s5"
        using Skip_length_law [OF i] unfolding b by blast
      have "k \<le> length ?bs" using first_varint_pos(2) [of ?bs v k] Some r by simp
      then have "unat (of_nat v :: uint32) \<le> length (drop k ?bs) \<longleftrightarrow> k + unat (of_nat v :: uint32) \<le> length ?bs" by auto
      then show ?thesis
        using 3 v32(1) Some r s5 cd_moved_trans [OF m]
        by (auto simp: SkipField_body_def parse_simple_def wire_types Let_def)
    qed
  next
    case 5
    then show ?thesis using assms(2) by (simp add: SkipField_body_def parse_simple_def)
  qed
qed

text \<open>What a skipped message should give.\<close>

definition skipped_message :: "'s coded_input \<Rightarrow> (wire_field list \<times> uint32 \<times> nat option) option \<Rightarrow> (bool \<times> 's coded_input) option \<Rightarrow> bool" where
  "skipped_message s spec r \<longleftrightarrow> (case spec of
     None \<Rightarrow> \<exists>s'. r = Some (False, s')
   | Some (fs, t, j) \<Rightarrow> \<exists>s' k. r = Some (True, s') \<and> LastTagWas t s' \<and> cd_moved good pending last_block k s s' \<and>
       (case j of None \<Rightarrow> True | Some j \<Rightarrow> k = j))"

lemma SkipField_group_law:
  assumes "cd_inv good pending last_block s" and "0 \<le> cd_recursion_depth s" and "GetTagWireType tag = WIRETYPE_START_GROUP"
    and "\<And>s1. 0 < depth_left s \<Longrightarrow> cd_inv good pending last_block s1 \<Longrightarrow> 0 \<le> cd_recursion_depth s1 \<Longrightarrow>
      depth_left s1 = depth_left s - 1 \<Longrightarrow> cd_visible pending s1 = cd_visible pending s \<Longrightarrow>
      skipped_message s1 (parse_fields (depth_left s - 1) (cd_visible pending s)) (F s1)"
  shows "skipped good pending last_block s (map_option snd (parse_group (depth_left s) tag (cd_visible pending s))) (SkipField_body F zs tag s)"
proof (cases "depth_left s = 0")
  case True
  then show ?thesis
    using assms(3) by (simp add: SkipField_body_def parse_group_def wire_types IncrementRecursionDepth_def depth_left_def)
next
  case False
  let ?s1 = "s\<lparr>cd_recursion_depth := cd_recursion_depth s + 1\<rparr>" and ?p = "parse_fields (depth_left s - 1) (cd_visible pending s)"
  have inc: "IncrementRecursionDepth s = (True, ?s1)" using False by (simp add: IncrementRecursionDepth_def depth_left_def)
  have d: "depth_left ?s1 = depth_left s - 1" using False by (simp add: depth_left_def)
  have law: "skipped_message ?s1 ?p (F ?s1)"
    using assms(1,2) False d by (intro assms(4)) (simp_all add: depth_updates)
  show ?thesis
  proof (cases ?p)
    case None
    then obtain s' where "F ?s1 = Some (False, s')" using law by (auto simp: skipped_message_def)
    then show ?thesis using assms(3) inc None False by (simp add: SkipField_body_def parse_group_def wire_types)
  next
    case (Some q)
    obtain fs t j where q: "q = (fs, t, j)" by (cases q)
    obtain s' k where s': "F ?s1 = Some (True, s')" "LastTagWas t s'" "cd_moved good pending last_block k ?s1 s'"
      "case j of None \<Rightarrow> True | Some j \<Rightarrow> k = j"
      using law Some q by (auto simp: skipped_message_def)
    have l: "LastTagWas e (DecrementRecursionDepth s') \<longleftrightarrow> e = t" for e
      using s'(2) by (auto simp: LastTagWas_def DecrementRecursionDepth_def)
    have g: "parse_group (depth_left s) tag (cd_visible pending s) =
        (case j of None \<Rightarrow> None | Some j \<Rightarrow> if t = MakeTag (GetTagFieldNumber tag) WIRETYPE_END_GROUP
           then Some (Wire_group (GetTagFieldNumber tag) fs, j) else None)"
      using Some q False by (simp add: parse_group_def)
    have b: "SkipField_body F zs tag s =
        Some (t = MakeTag (GetTagFieldNumber tag) WIRETYPE_END_GROUP, DecrementRecursionDepth s')"
      using assms(3) inc s'(1) l by (auto simp: SkipField_body_def wire_types Let_def)
    show ?thesis
    proof (cases j)
      case None
      then show ?thesis using g b parse_fields_malformed [of _ _ fs t] Some q end_tag_not_0 by auto
    next
      case (Some j')
      then show ?thesis using g b group_moved [OF _ assms(2)] s'(3,4) by auto
    qed
  qed
qed

lemma ReadTag_step:
  assumes "cd_inv good pending last_block s"
  shows "\<exists>s' k. ReadTag zs s = Some (tag_of (first_varint (cd_visible pending s)), s') \<and>
    LastTagWas (tag_of (first_varint (cd_visible pending s))) s' \<and> cd_moved good pending last_block k s s' \<and>
    (case first_varint (cd_visible pending s) of Some (v, j) \<Rightarrow> k = j | None \<Rightarrow> True) \<and>
    (cd_visible pending s = [] \<longrightarrow> k = 0)"
  using ReadTag_law [OF assms] by (elim exE conjE) (intro exI conjI, assumption+, simp split: if_splits)

lemma SkipMessage_law:
  "cd_inv good pending last_block s \<Longrightarrow> 0 \<le> cd_recursion_depth s \<Longrightarrow> depth_left s = d \<Longrightarrow> cd_visible pending s = bs \<Longrightarrow>
     skipped_message s (parse_fields d bs) (SkipMessage zs s)"
proof (induction d bs arbitrary: s rule: parse_fields_induct)
  case (fields d bs)
  obtain s1 k1 where s1: "ReadTag zs s = Some (tag_of (first_varint bs), s1)" "LastTagWas (tag_of (first_varint bs)) s1"
    "cd_moved good pending last_block k1 s s1" "case first_varint bs of Some (v, j) \<Rightarrow> k1 = j | None \<Rightarrow> True"
    "bs = [] \<longrightarrow> k1 = 0"
    using ReadTag_step [OF fields.prems(1)] unfolding fields.prems(4) by blast
  have inv1: "cd_inv good pending last_block s1" and vis1: "cd_visible pending s1 = drop k1 bs"
    and depth1: "0 \<le> cd_recursion_depth s1" "depth_left s1 = d"
    using s1(3) fields.prems depth_left_moved [OF s1(3)] by (simp_all add: cd_moved_def)
  show ?case
  proof (cases "first_varint bs")
    case None
    then show ?thesis
      using s1 None by (subst parse_fields_eq, subst SkipMessage.simps) (auto simp: skipped_message_def tag_of_def)
  next
    case (Some r)
    obtain v k where r: "r = (v, k)" by (cases r)
    let ?tag = "of_nat v :: uint32"
    have k: "k1 = k" using s1(4) Some r by simp
    have R: "ReadTag zs s = Some (?tag, s1)" using s1(1) Some r by (simp add: tag_of_def)
    show ?thesis
    proof (cases "ends_fields ?tag")
      case True
      then show ?thesis
        using s1(2,3) R Some r k by (subst parse_fields_eq, subst SkipMessage.simps) (auto simp: skipped_message_def ends_fields_def tag_of_def)
    next
      case False
      have S: "SkipMessage zs s = do { (ok, s) \<leftarrow> SkipField_body (SkipMessage zs) zs ?tag s1;
          (if \<not> ok then Some (False, s) else SkipMessage zs s) }"
        using R False by (subst SkipMessage.simps) (simp add: ends_fields_def)
      have P: "parse_fields d bs = (case parse_field d ?tag (drop k bs) of
          None \<Rightarrow> None
        | Some (f, j) \<Rightarrow> map_option (\<lambda>(fs, t, r). (f # fs, t, map_option ((+) (k + j)) r)) (parse_fields d (drop (k + j) bs)))"
        using Some r False by (subst parse_fields_eq) simp
      have F: "skipped good pending last_block s1 (map_option snd (parse_field d ?tag (drop k bs))) (SkipField_body (SkipMessage zs) zs ?tag s1)"
      proof (cases "GetTagWireType ?tag = WIRETYPE_START_GROUP")
        case True
        have "skipped good pending last_block s1 (map_option snd (parse_group (depth_left s1) ?tag (cd_visible pending s1)))
            (SkipField_body (SkipMessage zs) zs ?tag s1)"
        proof (rule SkipField_group_law [OF inv1 depth1(1) True])
          fix s2
          assume "0 < depth_left s1" "cd_inv good pending last_block s2" "0 \<le> cd_recursion_depth s2"
            "depth_left s2 = depth_left s1 - 1" "cd_visible pending s2 = cd_visible pending s1"
          then show "skipped_message s2 (parse_fields (depth_left s1 - 1) (cd_visible pending s1)) (SkipMessage zs s2)"
            using fields.IH(1) [OF Some [unfolded r] False, of s2] depth1(2) vis1 k by simp
        qed
        then show ?thesis using True depth1(2) vis1 k by (simp add: parse_field_def)
      next
        case simple: False
        then show ?thesis using SkipField_simple_law [OF inv1 simple] vis1 k by (simp add: parse_field_def)
      qed
      show ?thesis
      proof (cases "parse_field d ?tag (drop k bs)")
        case None
        then show ?thesis using F by (auto simp: S P skipped_message_def)
      next
        case field: (Some q)
        obtain f j where q: "q = (f, j)" by (cases q)
        obtain s2 where s2: "SkipField_body (SkipMessage zs) zs ?tag s1 = Some (True, s2)" "cd_moved good pending last_block j s1 s2"
          using F field q by auto
        have m: "cd_moved good pending last_block (k + j) s s2" using cd_moved_trans [OF s1(3) s2(2)] k by simp
        have "skipped_message s2 (parse_fields d (drop (k + j) bs)) (SkipMessage zs s2)"
          using fields.prems m depth_left_moved [OF m]
          by (intro fields.IH(2) [OF Some [unfolded r] False field [unfolded q]]) (simp_all add: cd_moved_def)
        then show ?thesis
          using s2(1) field q cd_moved_trans [OF m]
          by (fastforce simp: S P skipped_message_def split: option.splits)
      qed
    qed
  qed
qed

end

section \<open>Laws of copying\<close>

text \<open>What is copied is never longer than what has been read: the encoder writes the shortest varints.\<close>

lemma length_varint32_le: "unat v < 2 ^ (7 * k) \<Longrightarrow> 0 < k \<Longrightarrow> length (WriteVarint32ToArray v) \<le> k"
  by (simp add: WriteVarint32ToArray_eq length_varint_bytes_le)

lemma unat_of_nat_le: "unat (of_nat n :: 'a::len word) \<le> n"
  by (simp add: unsigned_of_nat take_bit_nat_eq_self_iff take_bit_eq_mod)

lemma canonical_varint:
  assumes "first_varint bs = Some (v, k)"
  shows "length (WriteVarint32ToArray (of_nat v)) \<le> k" and "length (WriteVarint64ToArrayInline (of_nat v)) \<le> k"
proof -
  note f = first_varint_pos [OF assms]
  have "unat (of_nat v :: uint32) < 2 ^ (7 * k)" "unat (of_nat v :: uint64) < 2 ^ (7 * k)"
    using f(3) unat_of_nat_le [where ?'a = 32, of v] unat_of_nat_le [where ?'a = 64, of v] by linarith+
  then show "length (WriteVarint32ToArray (of_nat v)) \<le> k" "length (WriteVarint64ToArrayInline (of_nat v)) \<le> k"
    using f(1) by (simp_all add: WriteVarint32ToArray_eq WriteVarint64ToArrayInline_eq length_varint_bytes_le)
qed

lemma tag_to_array: "WireFormat_WriteTagToArray (GetTagFieldNumber tag) (GetTagWireType tag) = WriteVarint32ToArray tag"
  by (simp add: WireFormat_WriteTagToArray_def WriteTagToArray_eq WriteVarint32ToArray_eq)

lemma le_length: "length (WriteLittleEndian32ToArray v) = 4" "length (WriteLittleEndian64ToArray w) = 8"
  by (simp_all add: WriteLittleEndian32ToArray_def WriteLittleEndian64ToArray_def Let_def)

text \<open>The bytes of a field behind its tag.\<close>

fun wire_value_bytes :: "wire_field \<Rightarrow> byte list" where
  "wire_value_bytes (Wire_varint n v) = WriteVarint64ToArrayInline v"
| "wire_value_bytes (Wire_fixed64 n v) = WriteLittleEndian64ToArray v"
| "wire_value_bytes (Wire_bytes n bs) = WriteStringWithSizeToArray bs"
| "wire_value_bytes (Wire_group n fs) = wires_bytes fs @ WireFormat_WriteTagToArray n WIRETYPE_END_GROUP"
| "wire_value_bytes (Wire_fixed32 n v) = WriteLittleEndian32ToArray v"

definition end_bytes :: "uint32 \<Rightarrow> byte list" where
  "end_bytes t = (if t = 0 then [] else WriteVarint32ToArray t)"

lemma parse_simple_bytes:
  assumes "parse_simple tag bs = Some (f, j)"
  shows "wire_bytes f = WriteVarint32ToArray tag @ wire_value_bytes f" and "length (wire_value_bytes f) \<le> j" and "j \<le> length bs"
proof -
  have *: "wire_bytes f = WriteVarint32ToArray tag @ wire_value_bytes f \<and> length (wire_value_bytes f) \<le> j \<and> j \<le> length bs"
    using assms tag_to_array [of tag] ReadLittleEndianFromArray_length [of bs]
    by (auto simp: parse_simple_def Let_def le_length WriteStringWithSizeToArray_def first_varint_pos(2) canonical_varint
        split: if_splits option.splits)
  then show "wire_bytes f = WriteVarint32ToArray tag @ wire_value_bytes f" "length (wire_value_bytes f) \<le> j" "j \<le> length bs"
    by blast+
qed

text \<open>The same for a group, if it holds for the fields inside of it.\<close>

lemma parse_group_bytes:
  assumes "parse_group d tag bs = Some (f, j)" and "GetTagWireType tag = WIRETYPE_START_GROUP"
    and "\<And>fs t j. parse_fields (d - 1) bs = Some (fs, t, Some j) \<Longrightarrow> j \<le> length bs \<and> length (wires_bytes fs) + length (end_bytes t) \<le> j"
  shows "wire_bytes f = WriteVarint32ToArray tag @ wire_value_bytes f \<and> length (wire_value_bytes f) \<le> j \<and> j \<le> length bs"
proof -
  obtain fs where fs: "parse_fields (d - 1) bs = Some (fs, MakeTag (GetTagFieldNumber tag) WIRETYPE_END_GROUP, Some j)"
    "f = Wire_group (GetTagFieldNumber tag) fs"
    using assms(1) by (auto simp: parse_group_def split: if_splits option.splits)
  have "end_bytes (MakeTag (GetTagFieldNumber tag) WIRETYPE_END_GROUP) = WireFormat_WriteTagToArray (GetTagFieldNumber tag) WIRETYPE_END_GROUP"
    by (simp add: end_bytes_def end_tag_not_0 WireFormat_WriteTagToArray_def WriteTagToArray_eq WriteVarint32ToArray_eq)
  then show ?thesis
    using assms(3) [OF fs(1)] fs(2) tag_to_array [of tag] assms(2) by simp
qed

lemma parse_field_bytes:
  assumes "parse_field d tag bs = Some (f, j)"
    and "\<And>fs t j. 0 < d \<Longrightarrow> parse_fields (d - 1) bs = Some (fs, t, Some j) \<Longrightarrow> j \<le> length bs \<and> length (wires_bytes fs) + length (end_bytes t) \<le> j"
  shows "wire_bytes f = WriteVarint32ToArray tag @ wire_value_bytes f \<and> length (wire_value_bytes f) \<le> j \<and> j \<le> length bs"
proof (cases "GetTagWireType tag = WIRETYPE_START_GROUP")
  case True
  then have g: "parse_group d tag bs = Some (f, j)" using assms(1) by (simp add: parse_field_def)
  then have "0 < d" by (simp add: parse_group_def split: if_splits)
  then show ?thesis using parse_group_bytes [OF g True] assms(2) by blast
qed (use assms(1) parse_simple_bytes in \<open>simp add: parse_field_def\<close>)

lemma parse_fields_length:
  "parse_fields d bs = Some (fs, t, r) \<Longrightarrow>
     (case r of None \<Rightarrow> length (wires_bytes fs) + length (end_bytes t) \<le> length bs
      | Some j \<Rightarrow> j \<le> length bs \<and> length (wires_bytes fs) + length (end_bytes t) \<le> j)"
proof (induction d bs arbitrary: fs t r rule: parse_fields_induct)
  case (fields d bs)
  show ?case
  proof (cases "first_varint bs")
    case None
    then show ?thesis using fields.prems by (subst (asm) parse_fields_eq) (auto simp: end_bytes_def split: option.splits if_splits)
  next
    case (Some p)
    obtain v k where p: "first_varint bs = Some (v, k)" using Some by (cases p) simp
    have k: "k \<le> length bs" "length (WriteVarint32ToArray (of_nat v)) \<le> k"
      using first_varint_pos(2) [OF p] canonical_varint(1) [OF p] by simp_all
    show ?thesis
    proof (cases "ends_fields (of_nat v)")
      case True
      then show ?thesis
        using fields.prems p k by (subst (asm) parse_fields_eq) (auto simp: end_bytes_def)
    next
      case False
      obtain f j fs' r' where q: "parse_field d (of_nat v) (drop k bs) = Some (f, j)" "parse_fields d (drop (k + j) bs) = Some (fs', t, r')"
        "fs = f # fs'" "r = map_option ((+) (k + j)) r'"
        using fields.prems p False by (subst (asm) parse_fields_eq) (auto split: option.splits)
      have b: "wire_bytes f = WriteVarint32ToArray (of_nat v) @ wire_value_bytes f \<and> length (wire_value_bytes f) \<le> j \<and> j \<le> length (drop k bs)"
        using parse_field_bytes [OF q(1)] fields.IH(1) [OF p False] by fastforce
      show ?thesis
        using fields.IH(2) [OF p False q(1) q(2)] b k q(3,4) by (cases r') auto
    qed
  qed
qed

lemmas parse_field_wire_bytes = parse_field_bytes [OF _ parse_fields_length [where r = "Some j" for j, simplified]]

context output_memory
begin

text \<open>Writing a tag and a value behind it, the bytes of a field.\<close>

lemma write_tag_value_takes:
  assumes "takes good written stuck n" and "cw_at zo good written base start data s"
    and "length data + length (WriteVarint32ToArray tag) + length bs \<le> n"
    and "\<And>s. write s = WriteRaw zo bs s"
  shows "wrote zo good written base start (data @ WriteVarint32ToArray tag @ bs) (WriteVarint32 zo tag s \<bind> write)"
proof -
  have t: "wrote zo good written base start (data @ WriteVarint32ToArray tag) (WriteVarint32 zo tag s)"
    by (rule WriteVarint32_takes [OF assms(1) _ assms(2)]) (use assms(3) in simp)
  have "wrote zo good written base start ((data @ WriteVarint32ToArray tag) @ bs) (write s')"
    if "cw_at zo good written base start (data @ WriteVarint32ToArray tag) s'" for s'
    unfolding assms(4) by (rule WriteRaw_takes [OF assms(1) _ that]) (use assms(3) in simp)
  from wrote_bind [OF t this] show ?thesis by simp
qed

end

text \<open>One result of the copying versions against the specification: the field and the number of bytes it takes.\<close>

definition copied ::
  "('s \<Rightarrow> bool) \<Rightarrow> ('s \<Rightarrow> byte list) \<Rightarrow> ('s \<Rightarrow> byte list) \<Rightarrow> 's coded_input \<Rightarrow> ('t coded_output \<Rightarrow> byte list \<Rightarrow> bool) \<Rightarrow>
     (wire_field \<times> nat) option \<Rightarrow> (bool \<times> 's coded_input \<times> 't coded_output) option \<Rightarrow> bool" where
  "copied good pending last_block s at spec r \<longleftrightarrow> (case spec of
     None \<Rightarrow> \<exists>s' out'. r = Some (False, s', out')
   | Some (f, j) \<Rightarrow> \<exists>s' out'. r = Some (True, s', out') \<and> cd_moved good pending last_block j s s' \<and> at out' (wire_bytes f))"

lemma copied_simps [simp]:
  "copied good pending last_block s at None r \<longleftrightarrow> (\<exists>s' out'. r = Some (False, s', out'))"
  "copied good pending last_block s at (Some (f, j)) r \<longleftrightarrow>
     (\<exists>s' out'. r = Some (True, s', out') \<and> cd_moved good pending last_block j s s' \<and> at out' (wire_bytes f))"
  by (simp_all add: copied_def)

context input_contract
begin

lemma ReadString_length_law:
  assumes "cd_inv good pending last_block s"
  shows "\<exists>bs s'. ReadString zs value (sint (v :: uint32)) s = Some (unat v \<le> length (cd_visible pending s), bs, s') \<and>
    (unat v \<le> length (cd_visible pending s) \<longrightarrow>
       bs = take (unat v) (cd_visible pending s) \<and> cd_moved good pending last_block (unat v) s s')"
proof (cases "int (unat v) \<le> INT_MAX")
  case True
  then show ?thesis using ReadString_law [OF assms, of "int (unat v)" "value"] by (auto simp: sint_of_len min_def)
next
  case False
  then have "\<not> unat v \<le> length (cd_visible pending s)" using visible_le [OF assms] by linarith
  moreover have "sint v < 0" using sint_big [of v] False by simp
  ultimately show ?thesis by (simp add: ReadString_def)
qed

lemma SkipField_output_simple_law:
  assumes out: "output_memory zo ogood written stuck" and takes: "takes ogood written stuck n"
    and o: "cw_at zo ogood written base start data out"
    and room: "length data + length (WriteVarint32ToArray tag) + length (cd_visible pending s) \<le> n"
    and i: "cd_inv good pending last_block s" and t: "GetTagWireType tag \<noteq> WIRETYPE_START_GROUP"
  shows "copied good pending last_block s (\<lambda>out bs. cw_at zo ogood written base start (data @ bs) out)
    (parse_simple tag (cd_visible pending s)) (SkipField_output_body F zs zo tag s out)"
proof -
  let ?bs = "cd_visible pending s" and ?tag = "WriteVarint32ToArray tag"
  note put = output_memory.write_tag_value_takes [OF out takes o]
  obtain s1 k1 where v64: "ReadVarint64 zs s = Some (map_option (\<lambda>(v, j). of_nat v) (first_varint ?bs), s1)"
    "cd_moved good pending last_block k1 s s1" "case first_varint ?bs of Some (v, j) \<Rightarrow> k1 = j | None \<Rightarrow> True"
    using ReadVarint64_law [OF i] by blast
  obtain s2 k2 where v32: "ReadVarint32 zs s = Some (map_option (\<lambda>(v, j). of_nat v) (first_varint ?bs), s2)"
    "cd_moved good pending last_block k2 s s2" "case first_varint ?bs of Some (v, j) \<Rightarrow> k2 = j | None \<Rightarrow> True"
    using ReadVarint32_law [OF i] by blast
  obtain s3 where f32: "ReadLittleEndian32 zs s = Some (map_option fst (ReadLittleEndian32FromArray ?bs 0), s3)"
    "cd_moved good pending last_block (min 4 (length ?bs)) s s3"
    using ReadLittleEndian32_law [OF i] by blast
  obtain s4 where f64: "ReadLittleEndian64 zs s = Some (map_option fst (ReadLittleEndian64FromArray ?bs 0), s4)"
    "cd_moved good pending last_block (min 8 (length ?bs)) s s4"
    using ReadLittleEndian64_law [OF i] by blast
  have tag: "WireFormat_WriteTagToArray (GetTagFieldNumber tag) w = ?tag" if "GetTagWireType tag = w" for w
    using tag_to_array [of tag] that by simp
  consider "GetTagWireType tag = WIRETYPE_VARINT" | "GetTagWireType tag = WIRETYPE_FIXED64"
    | "GetTagWireType tag = WIRETYPE_LENGTH_DELIMITED" | "GetTagWireType tag = WIRETYPE_FIXED32"
    | "GetTagWireType tag \<notin> {WIRETYPE_VARINT, WIRETYPE_FIXED64, WIRETYPE_LENGTH_DELIMITED, WIRETYPE_FIXED32}" by blast
  then show ?thesis
  proof cases
    case 1
    show ?thesis
    proof (cases "first_varint ?bs")
      case None
      then show ?thesis using 1 v64(1) by (simp add: SkipField_output_body_def parse_simple_def)
    next
      case (Some r)
      obtain v k where r: "r = (v, k)" by (cases r)
      have l: "length (WriteVarint64ToArrayInline (of_nat v)) \<le> length ?bs"
        using canonical_varint(2) [of ?bs v k] first_varint_pos(2) [of ?bs v k] Some r by simp
      have "wrote zo ogood written base start (data @ ?tag @ WriteVarint64ToArrayInline (of_nat v))
          (WriteVarint32 zo tag out \<bind> WriteVarint64 zo (of_nat v))"
        by (rule put) (use room l in \<open>simp_all add: WriteVarint_eq WriteVarint64ToArrayInline_eq\<close>)
      then show ?thesis
        using 1 v64 Some r tag [OF 1] by (auto simp: SkipField_output_body_def parse_simple_def wrote_def bind_eq_Some_conv)
    qed
  next
    case 2
    show ?thesis
    proof (cases "ReadLittleEndian64FromArray ?bs 0")
      case None
      then show ?thesis using 2 f64(1) by (simp add: SkipField_output_body_def parse_simple_def wire_types)
    next
      case (Some r)
      obtain v k where r: "r = (v, k)" by (cases r)
      have l: "k = 8" "8 \<le> length ?bs" using ReadLittleEndianFromArray_length(2) [of ?bs v k] Some r by simp_all
      have "wrote zo ogood written base start (data @ ?tag @ WriteLittleEndian64ToArray v)
          (WriteVarint32 zo tag out \<bind> WriteLittleEndian64 zo v)"
        by (rule put) (use room l in \<open>simp_all add: WriteLittleEndian_eq le_length\<close>)
      then show ?thesis
        using 2 f64 Some r l tag [OF 2] by (auto simp: SkipField_output_body_def parse_simple_def wrote_def wire_types bind_eq_Some_conv)
    qed
  next
    case 4
    show ?thesis
    proof (cases "ReadLittleEndian32FromArray ?bs 0")
      case None
      then show ?thesis using 4 f32(1) by (simp add: SkipField_output_body_def parse_simple_def wire_types)
    next
      case (Some r)
      obtain v k where r: "r = (v, k)" by (cases r)
      have l: "k = 4" "4 \<le> length ?bs" using ReadLittleEndianFromArray_length(1) [of ?bs v k] Some r by simp_all
      have "wrote zo ogood written base start (data @ ?tag @ WriteLittleEndian32ToArray v)
          (WriteVarint32 zo tag out \<bind> WriteLittleEndian32 zo v)"
        by (rule put) (use room l in \<open>simp_all add: WriteLittleEndian_eq le_length\<close>)
      then show ?thesis
        using 4 f32 Some r l tag [OF 4] by (auto simp: SkipField_output_body_def parse_simple_def wrote_def wire_types bind_eq_Some_conv)
    qed
  next
    case 3
    show ?thesis
    proof (cases "first_varint ?bs")
      case None
      then show ?thesis using 3 v32(1) by (simp add: SkipField_output_body_def parse_simple_def wire_types)
    next
      case (Some r)
      obtain v k where r: "r = (v, k)" by (cases r)
      let ?len = "of_nat v :: uint32"
      have m: "cd_moved good pending last_block k s s2" using v32(2,3) Some r by simp
      then have inv2: "cd_inv good pending last_block s2" and b: "cd_visible pending s2 = drop k ?bs" by (simp_all add: cd_moved_def)
      have k: "k \<le> length ?bs" "length (WriteVarint32ToArray ?len) \<le> k"
        using first_varint_pos(2) [of ?bs v k] canonical_varint(1) [of ?bs v k] Some r by simp_all
      have "wrote zo ogood written base start (data @ ?tag @ WriteVarint32ToArray ?len)
          (WriteVarint32 zo tag out \<bind> WriteVarint32 zo ?len)"
        by (rule put) (use room k in \<open>simp_all add: WriteVarint_eq WriteVarint32ToArray_eq\<close>)
      then obtain out1 where out1: "WriteVarint32 zo tag out \<bind> WriteVarint32 zo ?len = Some out1"
        "cw_at zo ogood written base start (data @ ?tag @ WriteVarint32ToArray ?len) out1" by (auto simp: wrote_def)
      obtain ok temp s5 where s5: "ReadString zs [] (sint ?len) s2 = Some (ok, temp, s5)"
        "ok \<longleftrightarrow> k + unat ?len \<le> length ?bs"
        "ok \<longrightarrow> temp = take (unat ?len) (drop k ?bs) \<and> cd_moved good pending last_block (unat ?len) s2 s5"
        using ReadString_length_law [OF inv2, of "[]" ?len] k(1) unfolding b by fastforce
      have S: "SkipField_output_body F zs zo tag s out = (if \<not> ok then Some (False, s5, out1)
          else do { out \<leftarrow> CodedOutputStream_WriteString zo temp out1; Some (True, s5, out) })"
        using 3 v32(1) Some r out1(1) s5(1)
        by (auto simp: SkipField_output_body_def wire_types bind_Some_iff)
      show ?thesis
      proof (cases ok)
        case False
        then show ?thesis using S s5(2) 3 Some r by (simp add: parse_simple_def wire_types Let_def)
      next
        case True
        have temp: "length temp = unat ?len" using s5(2,3) True by simp
        have "wrote zo ogood written base start ((data @ ?tag @ WriteVarint32ToArray ?len) @ temp) (WriteRaw zo temp out1)"
          by (rule output_memory.WriteRaw_takes [OF out takes _ out1(2)]) (use room k temp s5(2) True in simp)
        then obtain out2 where "CodedOutputStream_WriteString zo temp out1 = Some out2"
          "cw_at zo ogood written base start (data @ ?tag @ WriteStringWithSizeToArray temp) out2"
          by (auto simp: wrote_def CodedOutputStream_WriteString_def WriteStringWithSizeToArray_def temp)
        moreover have "parse_simple tag ?bs = Some (Wire_bytes (GetTagFieldNumber tag) temp, k + unat ?len)"
          using 3 Some r s5(2,3) True by (simp add: parse_simple_def wire_types Let_def)
        ultimately show ?thesis using S True s5(3) cd_moved_trans [OF m] tag [OF 3] by auto
      qed
    qed
  next
    case 5
    then show ?thesis using t by (simp add: SkipField_output_body_def parse_simple_def)
  qed
qed

end

context input_contract
begin

definition copied_message ::
  "'s coded_input \<Rightarrow> ('t coded_output \<Rightarrow> byte list \<Rightarrow> bool) \<Rightarrow> (wire_field list \<times> uint32 \<times> nat option) option \<Rightarrow>
     (bool \<times> 's coded_input \<times> 't coded_output) option \<Rightarrow> bool" where
  "copied_message s at spec r \<longleftrightarrow> (case spec of
     None \<Rightarrow> \<exists>s' out'. r = Some (False, s', out')
   | Some (fs, t, j) \<Rightarrow> \<exists>s' out' k. r = Some (True, s', out') \<and> LastTagWas t s' \<and> cd_moved good pending last_block k s s' \<and>
       (case j of None \<Rightarrow> True | Some j \<Rightarrow> k = j) \<and> at out' (wires_bytes fs @ end_bytes t))"

lemma SkipField_output_group_law:
  assumes out: "output_memory zo ogood written stuck" and takes: "takes ogood written stuck n"
    and o: "cw_at zo ogood written base start data out"
    and room: "length data + length (WriteVarint32ToArray tag) + length (cd_visible pending s) \<le> n"
    and i: "cd_inv good pending last_block s" "0 \<le> cd_recursion_depth s" and t: "GetTagWireType tag = WIRETYPE_START_GROUP"
    and F: "\<And>s1 out1. 0 < depth_left s \<Longrightarrow> cd_inv good pending last_block s1 \<Longrightarrow> 0 \<le> cd_recursion_depth s1 \<Longrightarrow>
      depth_left s1 = depth_left s - 1 \<Longrightarrow> cd_visible pending s1 = cd_visible pending s \<Longrightarrow>
      cw_at zo ogood written base start (data @ WriteVarint32ToArray tag) out1 \<Longrightarrow>
      copied_message s1 (\<lambda>out bs. cw_at zo ogood written base start ((data @ WriteVarint32ToArray tag) @ bs) out)
        (parse_fields (depth_left s - 1) (cd_visible pending s)) (F (s1, out1))"
  shows "copied good pending last_block s (\<lambda>out bs. cw_at zo ogood written base start (data @ bs) out)
    (parse_group (depth_left s) tag (cd_visible pending s)) (SkipField_output_body F zs zo tag s out)"
proof -
  let ?tag = "WriteVarint32ToArray tag" and ?close = "MakeTag (GetTagFieldNumber tag) WIRETYPE_END_GROUP"
  obtain out1 where out1: "WriteVarint32 zo tag out = Some out1" "cw_at zo ogood written base start (data @ ?tag) out1"
    using output_memory.WriteVarint32_takes [OF out takes _ o, of tag] room by (auto simp: wrote_def)
  show ?thesis
  proof (cases "depth_left s = 0")
    case True
    then show ?thesis
      using t out1(1) by (simp add: SkipField_output_body_def parse_group_def wire_types IncrementRecursionDepth_def depth_left_def)
  next
    case False
    let ?s1 = "s\<lparr>cd_recursion_depth := cd_recursion_depth s + 1\<rparr>" and ?p = "parse_fields (depth_left s - 1) (cd_visible pending s)"
    have inc: "IncrementRecursionDepth s = (True, ?s1)" using False by (simp add: IncrementRecursionDepth_def depth_left_def)
    have d: "depth_left ?s1 = depth_left s - 1" using False by (simp add: depth_left_def)
    have law: "copied_message ?s1 (\<lambda>out bs. cw_at zo ogood written base start ((data @ ?tag) @ bs) out) ?p (F (?s1, out1))"
      using i False d out1(2) by (intro F) (simp_all add: depth_updates)
    show ?thesis
    proof (cases ?p)
      case None
      then obtain s' out' where "F (?s1, out1) = Some (False, s', out')" using law by (auto simp: copied_message_def)
      then show ?thesis using t inc out1(1) None False by (simp add: SkipField_output_body_def parse_group_def wire_types)
    next
      case (Some q)
      obtain fs e j where q: "q = (fs, e, j)" by (cases q)
      obtain s' out' k where s': "F (?s1, out1) = Some (True, s', out')" "LastTagWas e s'" "cd_moved good pending last_block k ?s1 s'"
        "case j of None \<Rightarrow> True | Some j \<Rightarrow> k = j" "cw_at zo ogood written base start ((data @ ?tag) @ wires_bytes fs @ end_bytes e) out'"
        using law Some q by (auto simp: copied_message_def)
      have l: "LastTagWas x (DecrementRecursionDepth s') \<longleftrightarrow> x = e" for x
        using s'(2) by (auto simp: LastTagWas_def DecrementRecursionDepth_def)
      have g: "parse_group (depth_left s) tag (cd_visible pending s) =
          (case j of None \<Rightarrow> None | Some j \<Rightarrow> if e = ?close then Some (Wire_group (GetTagFieldNumber tag) fs, j) else None)"
        using Some q False by (simp add: parse_group_def)
      have b: "SkipField_output_body F zs zo tag s out = Some (e = ?close, DecrementRecursionDepth s', out')"
        using t inc out1(1) s'(1) l by (auto simp: SkipField_output_body_def wire_types Let_def)
      show ?thesis
      proof (cases j)
        case None
        then show ?thesis using g b parse_fields_malformed [of _ _ fs e] Some q end_tag_not_0 by auto
      next
        case (Some j')
        have "data @ wire_bytes (Wire_group (GetTagFieldNumber tag) fs) = (data @ ?tag) @ wires_bytes fs @ end_bytes e" if "e = ?close"
          using that t tag_to_array [of tag]
          by (simp add: end_bytes_def end_tag_not_0 WireFormat_WriteTagToArray_def WriteTagToArray_eq WriteVarint32ToArray_eq)
        then show ?thesis using g b group_moved [OF _ i(2)] s'(3-5) Some by auto
      qed
    qed
  qed
qed

lemma SkipMessage_output_law:
  assumes out: "output_memory zo ogood written stuck" and takes: "takes ogood written stuck n"
  shows "cd_inv good pending last_block s \<Longrightarrow> 0 \<le> cd_recursion_depth s \<Longrightarrow> depth_left s = d \<Longrightarrow> cd_visible pending s = bs \<Longrightarrow>
    cw_at zo ogood written base start data out \<Longrightarrow> length data + length bs \<le> n \<Longrightarrow>
    copied_message s (\<lambda>out bs. cw_at zo ogood written base start (data @ bs) out) (parse_fields d bs) (SkipMessage_output zs zo (s, out))"
proof (induction d bs arbitrary: s data out rule: parse_fields_induct)
  case (fields d bs)
  obtain s1 k1 where s1: "ReadTag zs s = Some (tag_of (first_varint bs), s1)" "LastTagWas (tag_of (first_varint bs)) s1"
    "cd_moved good pending last_block k1 s s1" "case first_varint bs of Some (v, j) \<Rightarrow> k1 = j | None \<Rightarrow> True"
    "bs = [] \<longrightarrow> k1 = 0"
    using ReadTag_step [OF fields.prems(1)] unfolding fields.prems(4) by blast
  have inv1: "cd_inv good pending last_block s1" and vis1: "cd_visible pending s1 = drop k1 bs"
    and depth1: "0 \<le> cd_recursion_depth s1" "depth_left s1 = d"
    using s1(3) fields.prems depth_left_moved [OF s1(3)] by (simp_all add: cd_moved_def)
  note o = fields.prems(5)
  show ?case
  proof (cases "first_varint bs")
    case None
    then show ?thesis
      using s1 o by (subst parse_fields_eq, subst SkipMessage_output.simps) (auto simp: copied_message_def tag_of_def end_bytes_def)
  next
    case (Some r)
    obtain v k where r: "r = (v, k)" by (cases r)
    let ?tag = "of_nat v :: uint32"
    have k: "k1 = k" using s1(4) Some r by simp
    have k': "k \<le> length bs" "length (WriteVarint32ToArray ?tag) \<le> k"
      using first_varint_pos(2) [of bs v k] canonical_varint(1) [of bs v k] Some r by simp_all
    have R: "ReadTag zs s = Some (?tag, s1)" using s1(1) Some r by (simp add: tag_of_def)
    show ?thesis
    proof (cases "ends_fields ?tag")
      case True
      obtain out1 where "WriteVarint32 zo ?tag out = Some out1" "cw_at zo ogood written base start (data @ WriteVarint32ToArray ?tag) out1"
        using output_memory.WriteVarint32_takes [OF out takes _ o, of ?tag] k' fields.prems(6) by (auto simp: wrote_def)
      then show ?thesis
        using s1(2,3) R Some r k o True
        by (subst parse_fields_eq, subst SkipMessage_output.simps) (auto simp: copied_message_def ends_fields_def tag_of_def end_bytes_def)
    next
      case False
      have S: "SkipMessage_output zs zo (s, out) = do {
          (ok, s, out) \<leftarrow> SkipField_output_body (SkipMessage_output zs zo) zs zo ?tag s1 out;
          (if \<not> ok then Some (False, s, out) else SkipMessage_output zs zo (s, out)) }"
        using R False by (subst SkipMessage_output.simps) (simp add: ends_fields_def)
      have P: "parse_fields d bs = (case parse_field d ?tag (drop k bs) of
          None \<Rightarrow> None
        | Some (f, j) \<Rightarrow> map_option (\<lambda>(fs, t, r). (f # fs, t, map_option ((+) (k + j)) r)) (parse_fields d (drop (k + j) bs)))"
        using Some r False by (subst parse_fields_eq) simp
      have room: "length data + length (WriteVarint32ToArray ?tag) + length (cd_visible pending s1) \<le> n"
        using fields.prems(6) k' by (simp add: vis1 k)
      have F: "copied good pending last_block s1 (\<lambda>out bs. cw_at zo ogood written base start (data @ bs) out)
          (parse_field d ?tag (drop k bs)) (SkipField_output_body (SkipMessage_output zs zo) zs zo ?tag s1 out)"
      proof (cases "GetTagWireType ?tag = WIRETYPE_START_GROUP")
        case True
        have "copied good pending last_block s1 (\<lambda>out bs. cw_at zo ogood written base start (data @ bs) out)
            (parse_group (depth_left s1) ?tag (cd_visible pending s1)) (SkipField_output_body (SkipMessage_output zs zo) zs zo ?tag s1 out)"
        proof (rule SkipField_output_group_law [OF out takes o room inv1 depth1(1) True])
          fix s2 out1
          assume a: "0 < depth_left s1" "cd_inv good pending last_block s2" "0 \<le> cd_recursion_depth s2"
            "depth_left s2 = depth_left s1 - 1" "cd_visible pending s2 = cd_visible pending s1"
            "cw_at zo ogood written base start (data @ WriteVarint32ToArray ?tag) out1"
          show "copied_message s2 (\<lambda>out bs. cw_at zo ogood written base start ((data @ WriteVarint32ToArray ?tag) @ bs) out)
              (parse_fields (depth_left s1 - 1) (cd_visible pending s1)) (SkipMessage_output zs zo (s2, out1))"
            using fields.IH(1) [OF Some [unfolded r] False _ a(2,3) _ _ a(6)] a(1,4,5) depth1(2) vis1 k room by simp
        qed
        then show ?thesis using True depth1(2) vis1 k by (simp add: parse_field_def)
      next
        case simple: False
        then show ?thesis using SkipField_output_simple_law [OF out takes o room inv1 simple] vis1 k by (simp add: parse_field_def)
      qed
      show ?thesis
      proof (cases "parse_field d ?tag (drop k bs)")
        case None
        then show ?thesis using F by (auto simp: S P copied_message_def)
      next
        case field: (Some q)
        obtain f j where q: "q = (f, j)" by (cases q)
        obtain s2 out2 where s2: "SkipField_output_body (SkipMessage_output zs zo) zs zo ?tag s1 out = Some (True, s2, out2)"
          "cd_moved good pending last_block j s1 s2" "cw_at zo ogood written base start (data @ wire_bytes f) out2"
          using F field q by auto
        have m: "cd_moved good pending last_block (k + j) s s2" using cd_moved_trans [OF s1(3) s2(2)] k by simp
        have "wire_bytes f = WriteVarint32ToArray ?tag @ wire_value_bytes f \<and> length (wire_value_bytes f) \<le> j \<and> j \<le> length (drop k bs)"
          using parse_field_wire_bytes [OF field [unfolded q]] .
        then have room2: "length (data @ wire_bytes f) + length (drop (k + j) bs) \<le> n"
          using fields.prems(6) k' by auto
        have "copied_message s2 (\<lambda>out bs. cw_at zo ogood written base start ((data @ wire_bytes f) @ bs) out)
            (parse_fields d (drop (k + j) bs)) (SkipMessage_output zs zo (s2, out2))"
          using fields.prems m depth_left_moved [OF m] room2 s2(3)
          by (intro fields.IH(2) [OF Some [unfolded r] False field [unfolded q]]) (simp_all add: cd_moved_def)
        then show ?thesis
          using s2(1) field q cd_moved_trans [OF m]
          by (fastforce simp: S P copied_message_def split: option.splits)
      qed
    qed
  qed
qed

end

section \<open>Fields written and read again\<close>

text \<open>What the encoder can write and the reader accepts: valid numbers, lengths in 32 bits, at most \<open>d\<close> nested groups.\<close>

definition number_valid :: "int \<Rightarrow> bool" where
  "number_valid n \<longleftrightarrow> 0 < n \<and> n < 2 ^ 29"

fun wire_ok :: "nat \<Rightarrow> wire_field \<Rightarrow> bool" and wires_ok :: "nat \<Rightarrow> wire_field list \<Rightarrow> bool" where
  "wire_ok d (Wire_varint n v) = number_valid n"
| "wire_ok d (Wire_fixed64 n v) = number_valid n"
| "wire_ok d (Wire_bytes n bs) = (number_valid n \<and> length bs < 2 ^ 32)"
| "wire_ok d (Wire_group n fs) = (number_valid n \<and> 0 < d \<and> wires_ok (d - 1) fs)"
| "wire_ok d (Wire_fixed32 n v) = number_valid n"
| "wires_ok d [] = True"
| "wires_ok d (f # fs) = (wire_ok d f \<and> wires_ok d fs)"

lemma first_varint_wire_tag:
  assumes "number_valid n" and "w \<in> {WIRETYPE_VARINT, WIRETYPE_FIXED64, WIRETYPE_LENGTH_DELIMITED, WIRETYPE_START_GROUP, WIRETYPE_FIXED32}"
  shows "first_varint (WireFormat_WriteTagToArray n w @ bs) = Some (unat (MakeTag n w), length (WireFormat_WriteTagToArray n w))"
    and "\<not> ends_fields (MakeTag n w)" and "GetTagWireType (MakeTag n w) = w" and "GetTagFieldNumber (MakeTag n w) = n"
proof -
  have w: "w < 8" "w \<noteq> WIRETYPE_END_GROUP" using assms(2) by (auto simp: wire_types)
  show "first_varint (WireFormat_WriteTagToArray n w @ bs) = Some (unat (MakeTag n w), length (WireFormat_WriteTagToArray n w))"
    by (rule first_varint_tag)
  show "GetTagWireType (MakeTag n w) = w" "GetTagFieldNumber (MakeTag n w) = n"
    using w assms(1) by (simp_all add: number_valid_def)
  show "\<not> ends_fields (MakeTag n w)"
    using w assms(1) MakeTag_not_0 [of w n] by (simp add: ends_fields_def number_valid_def)
qed

lemma parse_fields_cons:
  assumes "number_valid n" and "w \<in> {WIRETYPE_VARINT, WIRETYPE_FIXED64, WIRETYPE_LENGTH_DELIMITED, WIRETYPE_START_GROUP, WIRETYPE_FIXED32}"
    and "parse_field d (MakeTag n w) (bs @ rest) = Some (f, length bs)"
  shows "parse_fields d (WireFormat_WriteTagToArray n w @ bs @ rest) =
    map_option (\<lambda>(gs, t, r). (f # gs, t, map_option ((+) (length (WireFormat_WriteTagToArray n w @ bs))) r)) (parse_fields d rest)"
  using first_varint_wire_tag [OF assms(1,2)] assms(3) by (subst parse_fields_eq) (simp add: add.commute)

lemma parse_simple_values:
  assumes "number_valid n"
  shows "parse_simple (MakeTag n WIRETYPE_VARINT) (WriteVarint64ToArrayInline v @ rest) =
      Some (Wire_varint n v, length (WriteVarint64ToArrayInline v))"
    and "parse_simple (MakeTag n WIRETYPE_FIXED64) (WriteLittleEndian64ToArray v @ rest) = Some (Wire_fixed64 n v, 8)"
    and "parse_simple (MakeTag n WIRETYPE_FIXED32) (WriteLittleEndian32ToArray x @ rest) = Some (Wire_fixed32 n x, 4)"
    and "length bs < 2 ^ 32 \<Longrightarrow> parse_simple (MakeTag n WIRETYPE_LENGTH_DELIMITED) (WriteStringWithSizeToArray bs @ rest) =
      Some (Wire_bytes n bs, length (WriteStringWithSizeToArray bs))"
  using assms
  by (simp_all add: parse_simple_def first_varint_wire_tag Let_def WriteVarint64ToArrayInline_eq first_varint_unat
      le64_roundtrip le32_roundtrip wire_types WriteStringWithSizeToArray_def first_varint_length unsigned_of_nat take_bit_nat_eq_self)

text \<open>Parsing peels the written fields off.\<close>

lemma parse_fields_written:
  "wire_ok d f \<Longrightarrow> parse_fields d (wire_bytes f @ rest) =
     map_option (\<lambda>(gs, t, r). (f # gs, t, map_option ((+) (length (wire_bytes f))) r)) (parse_fields d rest)"
  "wires_ok d fs \<Longrightarrow> parse_fields d (wires_bytes fs @ rest) =
     map_option (\<lambda>(gs, t, r). (fs @ gs, t, map_option ((+) (length (wires_bytes fs))) r)) (parse_fields d rest)"
proof (induction f and fs arbitrary: d rest and d rest rule: wire_bytes_wires_bytes.induct)
  case (1 n v)
  then show ?case
    using parse_fields_cons [of n WIRETYPE_VARINT d "WriteVarint64ToArrayInline v" rest] parse_simple_values(1) [of n v rest]
      first_varint_wire_tag(3) [of n WIRETYPE_VARINT]
    by (simp add: parse_field_def wire_types)
next
  case (2 n v)
  then show ?case
    using parse_fields_cons [of n WIRETYPE_FIXED64 d "WriteLittleEndian64ToArray v" rest] parse_simple_values(2) [of n v rest]
      first_varint_wire_tag(3) [of n WIRETYPE_FIXED64]
    by (simp add: parse_field_def wire_types le_length)
next
  case (3 n bs)
  then show ?case
    using parse_fields_cons [of n WIRETYPE_LENGTH_DELIMITED d "WriteStringWithSizeToArray bs" rest] parse_simple_values(4) [of n bs rest]
      first_varint_wire_tag(3) [of n WIRETYPE_LENGTH_DELIMITED]
    by (simp add: parse_field_def wire_types)
next
  case (4 n fs)
  let ?e = "WireFormat_WriteTagToArray n WIRETYPE_END_GROUP"
  have n: "number_valid n" and d: "0 < d" and fs: "wires_ok (d - 1) fs" using "4.prems" by simp_all
  have "parse_fields (d - 1) (?e @ rest) = Some ([], MakeTag n WIRETYPE_END_GROUP, Some (length ?e))"
    by (subst parse_fields_eq) (simp add: first_varint_tag ends_fields_def wire_types)
  then have "parse_fields (d - 1) (wires_bytes fs @ ?e @ rest) =
      Some (fs, MakeTag n WIRETYPE_END_GROUP, Some (length (wires_bytes fs @ ?e)))"
    using "4.IH" [OF fs, of "?e @ rest"] by simp
  then have "parse_field d (MakeTag n WIRETYPE_START_GROUP) ((wires_bytes fs @ ?e) @ rest) =
      Some (Wire_group n fs, length (wires_bytes fs @ ?e))"
    using d first_varint_wire_tag(3,4) [OF n, of WIRETYPE_START_GROUP]
    by (simp add: parse_field_def parse_group_def)
  then show ?case using parse_fields_cons [OF n, of WIRETYPE_START_GROUP d "wires_bytes fs @ ?e" rest "Wire_group n fs"] by simp
next
  case (5 n v)
  then show ?case
    using parse_fields_cons [of n WIRETYPE_FIXED32 d "WriteLittleEndian32ToArray v" rest] parse_simple_values(3) [of n v rest]
      first_varint_wire_tag(3) [of n WIRETYPE_FIXED32]
    by (simp add: parse_field_def wire_types le_length)
next
  case (6 d)
  then show ?case by (cases "parse_fields d rest") (auto simp: option.map_ident)
next
  case (7 f fs)
  then show ?case by (cases "parse_fields d rest") (auto simp: option.map_comp o_def add.assoc)
qed

lemma parse_fields_of_wires: "wires_ok d fs \<Longrightarrow> parse_fields d (wires_bytes fs) = Some (fs, 0, Some (length (wires_bytes fs)))"
  using parse_fields_written(2) [where rest = "[]"] by (simp add: parse_fields_eq [where bs = "[]"])

lemma parse_fields_too_deep:
  "number_valid n \<Longrightarrow> d < m \<Longrightarrow> parse_fields d (concat (replicate m (WireFormat_WriteTagToArray n WIRETYPE_START_GROUP)) @ bs) = None"
proof (induction m arbitrary: d)
  case (Suc m)
  let ?bs = "concat (replicate m (WireFormat_WriteTagToArray n WIRETYPE_START_GROUP)) @ bs"
  have "parse_field d (MakeTag n WIRETYPE_START_GROUP) ?bs = None"
    using Suc first_varint_wire_tag(3) [OF Suc.prems(1), of WIRETYPE_START_GROUP]
    by (simp add: parse_field_def parse_group_def)
  then show ?case
    using first_varint_wire_tag(1) [OF Suc.prems(1), of WIRETYPE_START_GROUP ?bs]
      first_varint_wire_tag(2) [OF Suc.prems(1), of WIRETYPE_START_GROUP]
    by (subst parse_fields_eq) simp
qed simp

section \<open>Properties\<close>


lemma flat_reader:
  fixes bs :: "byte list"
  defines "s \<equiv> CodedInputStream_flat bs (int (length bs)) :: array_input coded_input"
  assumes "int (length bs) \<le> kDefaultTotalBytesLimit"
  shows "cd_inv array_inv array_pending array_last s" and "cd_visible array_pending s = bs" and "0 \<le> cd_recursion_depth s"
    and "depth_left s = 100"
  using assms by (simp_all add: cd_inv_def cd_visible_def cd_rest_def cd_pending_def CodedInputStream_flat_def CurrentPosition_def
      closest_limit_def kDefaultTotalBytesLimit_def INT_MAX_def depth_left_def default_recursion_limit_def)


text \<open>
  The version of \<open>SkipMessage\<close> that copies to an output stream writes exactly the fields it has skipped, in order and in the
  shortest encoding, and the end-group tag if there was one; it fails when the discarding version fails, and needs no more room
  in the output than the bytes it reads.
\<close>

theorem SkipMessage_copies_fields:
  assumes "input_contract zs good pending last_block" and "cd_inv good pending last_block s" and "0 \<le> cd_recursion_depth s"
    and "output_memory zo ogood written stuck" and "takes ogood written stuck n"
    and "cw_at zo ogood written base start data out" and "length data + length (cd_visible pending s) \<le> n"
  shows "case parse_fields (depth_left s) (cd_visible pending s) of
     None \<Rightarrow> \<exists>s' out'. SkipMessage_output zs zo (s, out) = Some (False, s', out')
   | Some (fs, t, j) \<Rightarrow> \<exists>s' out'. SkipMessage_output zs zo (s, out) = Some (True, s', out') \<and> LastTagWas t s' \<and>
       cw_at zo ogood written base start (data @ wires_bytes fs @ (if t = 0 then [] else WriteVarint32ToArray t)) out'"
  using input_contract.SkipMessage_output_law [OF assms(1,4,5,2,3) refl refl assms(6,7)]
  by (auto simp: input_contract.copied_message_def [OF assms(1)] end_bytes_def split: option.splits prod.splits)

text \<open>
  C15. Unknown fields survive: when a message is skipped into a string, as generated code does with the fields it
  does not know, the string holds the same bytes as the message, for all fields in the encoding the library writes and nested up to the
  recursion limit.
\<close>

definition copy_unknown_session :: "(nat \<Rightarrow> nat \<Rightarrow> nat) \<Rightarrow> byte list \<Rightarrow> std_string \<Rightarrow> (bool \<times> std_string) option" where
  "copy_unknown_session grow bs unknown_fields = do {
     out \<leftarrow> CodedOutputStream (string_output_stream grow) unknown_fields;
     (ok, _, out) \<leftarrow> SkipMessage_output array_input_stream (string_output_stream grow)
       (CodedInputStream_flat bs (int (length bs)), out);
     unknown_fields \<leftarrow> CodedOutputStream_delete (string_output_stream grow) out;
     Some (ok, unknown_fields) }"

theorem unknown_fields_are_preserved:
  assumes "wires_ok (nat default_recursion_limit) fs" and "int (length (wires_bytes fs)) \<le> kDefaultTotalBytesLimit"
  shows "\<exists>unknown_fields. copy_unknown_session grow (wires_bytes fs) \<lparr>ss_data = [], ss_capacity = c\<rparr> = Some (True, unknown_fields) \<and>
    ss_data unknown_fields = wires_bytes fs"
proof -
  let ?i = "\<lparr>ss_data = [], ss_capacity = c\<rparr> :: std_string" and ?d = "wires_bytes fs" and ?zo = "string_output_stream grow"
  let ?s = "CodedInputStream_flat ?d (int (length ?d)) :: array_input coded_input"
  note r = flat_reader [OF assms(2)]
  have takes: "takes (\<lambda>_. True) ss_data string_stuck (length ?d)" and no: "\<not> string_stuck ?i"
    using assms(2) by (auto simp: takes_def string_stuck_def INT_MAX_def kDefaultTotalBytesLimit_def)
  obtain out where out: "CodedOutputStream ?zo ?i = Some out" "cw_at ?zo (\<lambda>_. True) ss_data (zo_ByteCount ?zo ?i) 0 [] out"
    using string_mem.CodedOutputStream_law [of ?i grow] no by auto
  have p: "parse_fields (depth_left ?s) (cd_visible array_pending ?s) = Some (fs, 0, Some (length ?d))"
    using parse_fields_of_wires [of 100 fs] assms(1) by (simp add: r(2,4) default_recursion_limit_def)
  obtain s' out' where s': "SkipMessage_output array_input_stream ?zo (?s, out) = Some (True, s', out')"
    "cw_at ?zo (\<lambda>_. True) ss_data (zo_ByteCount ?zo ?i) 0 ?d out'"
    using SkipMessage_copies_fields [OF array_in.input_contract_axioms r(1,3) string_mem.output_memory_axioms takes out(2)]
    unfolding p by (auto simp: r(2))
  obtain u where "CodedOutputStream_delete ?zo out' = Some u" "ss_data u = ?d"
    using string_mem.CodedOutputStream_delete_law [OF s'(2)] by blast
  then show ?thesis using out(1) s'(1) by (simp add: copy_unknown_session_def)
qed

theorem unknown_fields_are_preserved_witness:
  "\<exists>u. copy_unknown_session (\<lambda>c n. n) (wires_bytes [Wire_group 2 [Wire_varint 1 300], Wire_bytes 3 [104, 105]])
      \<lparr>ss_data = [], ss_capacity = 0\<rparr> = Some (True, u) \<and>
    ss_data u = wires_bytes [Wire_group 2 [Wire_varint 1 300], Wire_bytes 3 [104, 105]]"
proof -
  let ?fs = "[Wire_group 2 [Wire_varint 1 300], Wire_bytes 3 [104, 105]]"
  have "int (length (wires_bytes ?fs)) = 9"
    by (simp add: WireFormat_WriteTagToArray_def WriteTagToArray_eq MakeTag_def kTagTypeBits_def wire_types
        WriteVarint64ToArrayInline_eq WriteStringWithSizeToArray_def WriteVarint32ToArray_eq varint_bytes_less varint_bytes_ge)
  then have "int (length (wires_bytes ?fs)) \<le> kDefaultTotalBytesLimit" by (simp add: kDefaultTotalBytesLimit_def)
  then show ?thesis
    by (intro unknown_fields_are_preserved) (simp_all add: number_valid_def default_recursion_limit_def)
qed

text \<open>
  Groups nested deeper than the recursion limit are rejected, however many there are and whatever is behind them: the loop
  does not follow them down.
\<close>

theorem deep_groups_are_rejected:
  assumes "input_contract zs good pending last_block" and "cd_inv good pending last_block s" and "0 \<le> cd_recursion_depth s"
    and "cd_visible pending s = concat (replicate m (WireFormat_WriteTagToArray n WIRETYPE_START_GROUP)) @ bs"
    and "0 < n" and "n < 2 ^ 29" and "depth_left s < m"
  shows "\<exists>s'. SkipMessage zs s = Some (False, s')"
proof -
  have "parse_fields (depth_left s) (cd_visible pending s) = None"
    unfolding assms(4) using assms(5-7) by (intro parse_fields_too_deep) (simp_all add: number_valid_def)
  then show ?thesis
    using input_contract.SkipMessage_law [OF assms(1-3) refl refl] by (simp add: input_contract.skipped_message_def [OF assms(1)])
qed

theorem deep_groups_are_rejected_witness:
  "\<exists>s'. SkipMessage array_input_stream (CodedInputStream_flat (replicate 101 11) 101) = Some (False, s')"
proof -
  let ?bs = "replicate 101 11 :: byte list"
  have len: "int (length ?bs) = 101" by simp
  note r = flat_reader [of ?bs, unfolded len kDefaultTotalBytesLimit_def, simplified]
  have tag: "WireFormat_WriteTagToArray 1 WIRETYPE_START_GROUP = [11]"
    by (simp add: WireFormat_WriteTagToArray_def WriteTagToArray_eq MakeTag_def kTagTypeBits_def wire_types varint_bytes_less)
  have "concat (replicate m [x]) = replicate m x" for m :: nat and x :: byte by (induction m) simp_all
  then have v: "cd_visible array_pending (CodedInputStream_flat ?bs 101) =
      concat (replicate 101 (WireFormat_WriteTagToArray 1 WIRETYPE_START_GROUP)) @ []"
    by (simp only: r(2) tag append_Nil2)
  show ?thesis
    using deep_groups_are_rejected [OF array_in.input_contract_axioms r(1,3) v] by (simp add: r(4))
qed

text \<open>
  C40. \<open>CodedOutputStreamFieldSkipper::SkipUnknownEnum\<close> does not save the value as a field: it writes the
  field number where the tag should be, so what it writes is never the varint field with that number, and for number 2 and value 5
  it is not even a list of fields.
\<close>

theorem unknown_enum_is_saved_without_tag:
  assumes "output_memory zo ogood written stuck" and "takes ogood written stuck n"
    and "cw_at zo ogood written base start data out"
    and "length data + length (WriteVarint32ToArray number @ WriteVarint64ToArrayInline (scast val)) \<le> n" and "0 < uint number"
    and "uint number < 2 ^ 29"
  shows "\<exists>out' bs. fs_SkipUnknownEnum (CodedOutputStreamFieldSkipper zs zo) number val out = Some out' \<and>
    cw_at zo ogood written base start (data @ bs) out' \<and> bs \<noteq> wire_bytes (Wire_varint (uint number) (scast val)) \<and>
    (if number = 2 \<and> val = 5 then parse_fields d bs = None else True)"
proof -
  let ?bs = "WriteVarint32ToArray number @ WriteVarint64ToArrayInline (scast val)"
  have "wrote zo ogood written base start (data @ ?bs) (WriteVarint32 zo number out \<bind> WriteVarint64 zo (scast val))"
    using assms(4) by (intro output_memory.write_tag_value_takes [OF assms(1-3)])
      (simp_all add: WriteVarint_eq WriteVarint64ToArrayInline_eq)
  then obtain out' where out': "WriteVarint32 zo number out \<bind> WriteVarint64 zo (scast val) = Some out'"
    "cw_at zo ogood written base start (data @ ?bs) out'" by (auto simp: wrote_def)
  have "number \<noteq> MakeTag (uint number) WIRETYPE_VARINT"
  proof
    assume eq: "number = MakeTag (uint number) WIRETYPE_VARINT"
    have "GetTagFieldNumber (MakeTag (uint number) WIRETYPE_VARINT) = uint number"
      using assms(6) by (simp add: wire_types)
    then have "GetTagFieldNumber number = uint number" by (simp flip: eq)
    then have "uint number div 8 = uint number" by (simp add: GetTagFieldNumber_def kTagTypeBits_def drop_bit_eq_div uint_div)
    then show False using assms(5) by simp
  qed
  moreover have "first_varint ?bs = Some (unat number, length (WriteVarint32ToArray number))"
    by (simp add: WriteVarint32ToArray_eq first_varint_unat)
  moreover have "first_varint (wire_bytes (Wire_varint (uint number) (scast val))) =
      Some (unat (MakeTag (uint number) WIRETYPE_VARINT), length (WireFormat_WriteTagToArray (uint number) WIRETYPE_VARINT))"
    by (simp add: first_varint_tag)
  ultimately have ne: "?bs \<noteq> wire_bytes (Wire_varint (uint number) (scast val))"
    by (metis Pair_inject option.inject word_unat_eq_iff)
  have "parse_fields d ?bs = None" if "number = 2" "val = 5"
  proof -
    have bs: "?bs = [2, 5]"
      using that by (simp add: WriteVarint32ToArray_eq WriteVarint64ToArrayInline_eq varint_bytes_less)
    have v: "first_varint [2, 5] = Some (2, 1)" "first_varint [5] = Some (5, 1)"
      using array_in.first_varint_Cons [of 2 "[5]"] array_in.first_varint_Cons [of 5 "[]"] by simp_all
    have "GetTagWireType 2 = WIRETYPE_LENGTH_DELIMITED" by (simp add: GetTagWireType_def kTagTypeMask_def kTagTypeBits_def wire_types)
    then show ?thesis
      unfolding bs by (subst parse_fields_eq)
        (simp add: v ends_fields_def parse_field_def parse_simple_def wire_types)
  qed
  then show ?thesis
    using out' ne by (intro exI [of _ out'] exI [of _ ?bs]) (simp add: CodedOutputStreamFieldSkipper_def)
qed

theorem unknown_enum_is_saved_without_tag_witness:
  "\<exists>out out' bs. CodedOutputStream (string_output_stream (\<lambda>c n. n)) \<lparr>ss_data = [], ss_capacity = 0\<rparr> = Some out \<and>
    fs_SkipUnknownEnum (CodedOutputStreamFieldSkipper array_input_stream (string_output_stream (\<lambda>c n. n))) 2 5 out = Some out' \<and>
    cw_at (string_output_stream (\<lambda>c n. n)) (\<lambda>_. True) ss_data 0 0 bs out' \<and> bs \<noteq> wire_bytes (Wire_varint 2 5) \<and>
    parse_fields 100 bs = None"
proof -
  let ?i = "\<lparr>ss_data = [], ss_capacity = 0\<rparr> :: std_string" and ?zo = "string_output_stream (\<lambda>c n. n)"
  have no: "\<not> string_stuck ?i" and takes: "takes (\<lambda>_. True) ss_data string_stuck 20"
    by (auto simp: string_stuck_def INT_MAX_def takes_def)
  have z: "zo_ByteCount ?zo ?i = 0" by (simp add: string_output_stream_sels)
  obtain out where out: "CodedOutputStream ?zo ?i = Some out" "cw_at ?zo (\<lambda>_. True) ss_data 0 0 [] out"
    using string_mem.CodedOutputStream_law [of ?i "\<lambda>c n. n"] no z by auto
  show ?thesis
    using unknown_enum_is_saved_without_tag [OF string_mem.output_memory_axioms takes out(2), of 2 5 array_input_stream 100] out(1)
    by (auto simp: WriteVarint32ToArray_eq WriteVarint64ToArrayInline_eq varint_bytes_less)
qed

end
