(* ===== verification/UnknownFields.thy ===== *)
theory UnknownFields
  imports WireSkip
begin

text \<open>
  Sets of unknown fields (unknown_field_set.h, unknown_field_set.cc) and what wire_format.cc does with them: collecting the
  fields of a message, writing them, computing their size.

  An \<open>UnknownField\<close>, a number with a tagged union, is a \<open>wire_field\<close>, and an \<open>UnknownFieldSet\<close> is the list of its
  fields; \<open>fields_ == NULL\<close> is the empty list. A pointer to a set that may be null is an option. Deep copies are copies of
  values, so only the order in which fields are copied matters.
\<close>

section \<open>The set\<close>

type_synonym UnknownField = wire_field
type_synonym UnknownFieldSet = "wire_field list"

datatype UnknownField_type = UF_TYPE_VARINT | UF_TYPE_FIXED32 | UF_TYPE_FIXED64 | UF_TYPE_LENGTH_DELIMITED | UF_TYPE_GROUP

fun UnknownField_number :: "UnknownField \<Rightarrow> int" where
  "UnknownField_number (Wire_varint n v) = n"
| "UnknownField_number (Wire_fixed64 n v) = n"
| "UnknownField_number (Wire_bytes n v) = n"
| "UnknownField_number (Wire_group n fs) = n"
| "UnknownField_number (Wire_fixed32 n v) = n"

fun UnknownField_kind :: "UnknownField \<Rightarrow> UnknownField_type" where
  "UnknownField_kind (Wire_varint n v) = UF_TYPE_VARINT"
| "UnknownField_kind (Wire_fixed64 n v) = UF_TYPE_FIXED64"
| "UnknownField_kind (Wire_bytes n v) = UF_TYPE_LENGTH_DELIMITED"
| "UnknownField_kind (Wire_group n fs) = UF_TYPE_GROUP"
| "UnknownField_kind (Wire_fixed32 n v) = UF_TYPE_FIXED32"

definition UnknownFieldSet_new :: UnknownFieldSet where "UnknownFieldSet_new = []"

definition UnknownFieldSet_Clear :: "UnknownFieldSet \<Rightarrow> UnknownFieldSet" where "UnknownFieldSet_Clear fs = []"

definition UnknownFieldSet_empty :: "UnknownFieldSet \<Rightarrow> bool" where "UnknownFieldSet_empty fs \<longleftrightarrow> fs = []"

definition field_count :: "UnknownFieldSet \<Rightarrow> int" where "field_count fs = int (length fs)"

definition UnknownFieldSet_Swap :: "UnknownFieldSet \<Rightarrow> UnknownFieldSet \<Rightarrow> UnknownFieldSet \<times> UnknownFieldSet" where
  "UnknownFieldSet_Swap x y = (y, x)"

definition AddVarint :: "int \<Rightarrow> uint64 \<Rightarrow> UnknownFieldSet \<Rightarrow> UnknownFieldSet" where
  "AddVarint number value fs = fs @ [Wire_varint number value]"

definition AddFixed32 :: "int \<Rightarrow> uint32 \<Rightarrow> UnknownFieldSet \<Rightarrow> UnknownFieldSet" where
  "AddFixed32 number value fs = fs @ [Wire_fixed32 number value]"

definition AddFixed64 :: "int \<Rightarrow> uint64 \<Rightarrow> UnknownFieldSet \<Rightarrow> UnknownFieldSet" where
  "AddFixed64 number value fs = fs @ [Wire_fixed64 number value]"

text \<open>The code gets a pointer to the new string or group and fills it afterwards; here it comes with its content.\<close>

definition AddLengthDelimited :: "int \<Rightarrow> byte list \<Rightarrow> UnknownFieldSet \<Rightarrow> UnknownFieldSet" where
  "AddLengthDelimited number value fs = fs @ [Wire_bytes number value]"

definition AddGroup :: "int \<Rightarrow> UnknownFieldSet \<Rightarrow> UnknownFieldSet \<Rightarrow> UnknownFieldSet" where
  "AddGroup number g fs = fs @ [Wire_group number g]"

text \<open>Copying a field copies the groups in it, field by field.\<close>

fun DeepCopy :: "UnknownField \<Rightarrow> UnknownField" and MergeFrom_loop :: "UnknownFieldSet \<Rightarrow> UnknownFieldSet \<Rightarrow> UnknownFieldSet" where
  "DeepCopy (Wire_group n fs) = Wire_group n (MergeFrom_loop fs [])"
| "DeepCopy (Wire_varint n v) = Wire_varint n v"
| "DeepCopy (Wire_fixed64 n v) = Wire_fixed64 n v"
| "DeepCopy (Wire_bytes n v) = Wire_bytes n v"
| "DeepCopy (Wire_fixed32 n v) = Wire_fixed32 n v"
| "MergeFrom_loop [] fs = fs"
| "MergeFrom_loop (g # gs) fs = MergeFrom_loop gs (fs @ [DeepCopy g])"

definition AddField :: "UnknownField \<Rightarrow> UnknownFieldSet \<Rightarrow> UnknownFieldSet" where
  "AddField field fs = fs @ [DeepCopy field]"

definition UnknownFieldSet_MergeFrom :: "UnknownFieldSet \<Rightarrow> UnknownFieldSet \<Rightarrow> UnknownFieldSet" where
  "UnknownFieldSet_MergeFrom other fs = MergeFrom_loop other fs"

text \<open>Deleting moves fields to the left, one by one; an access outside of the vector is undefined.\<close>

definition vector_move :: "nat \<Rightarrow> nat \<Rightarrow> 'a list \<Rightarrow> 'a list option" where
  "vector_move i j fs = (if i < length fs \<and> j < length fs then Some (fs[j := fs ! i]) else None)"

fun slide_down :: "nat \<Rightarrow> nat \<Rightarrow> nat \<Rightarrow> 'a list \<Rightarrow> 'a list option" where
  "slide_down 0 i num fs = Some fs"
| "slide_down (Suc k) i num fs = vector_move i (i - num) fs \<bind> slide_down k (i + 1) num"

definition DeleteSubrange :: "nat \<Rightarrow> nat \<Rightarrow> UnknownFieldSet \<Rightarrow> UnknownFieldSet option" where
  "DeleteSubrange start num fs =
     (if start + num \<le> length fs then do {
        fs \<leftarrow> slide_down (length fs - (start + num)) (start + num) num fs;
        Some (take (length fs - num) fs) }
      else None)"

text \<open>\<open>k\<close> fields are still to be looked at, the next one is at \<open>i\<close>, and \<open>left\<close> fields have been kept.\<close>

fun delete_loop :: "int \<Rightarrow> nat \<Rightarrow> nat \<Rightarrow> nat \<Rightarrow> UnknownFieldSet \<Rightarrow> (nat \<times> UnknownFieldSet) option" where
  "delete_loop number 0 i left fs = Some (left, fs)"
| "delete_loop number (Suc k) i left fs =
     (if i < length fs then
        if UnknownField_number (fs ! i) = number then delete_loop number k (i + 1) left fs
        else do {
          fs \<leftarrow> (if i \<noteq> left then vector_move i left fs else Some fs);
          delete_loop number k (i + 1) (left + 1) fs }
      else None)"

definition DeleteByNumber :: "int \<Rightarrow> UnknownFieldSet \<Rightarrow> UnknownFieldSet option" where
  "DeleteByNumber number fs = do {
     (left, fs) \<leftarrow> delete_loop number (length fs) 0 0 fs;
     Some (take left fs) }"

section \<open>Collecting unknown fields\<close>

text \<open>On failure the set keeps what has been added so far, the string or group being read included.\<close>

definition SkipField_set_body ::
  "('s coded_input \<times> UnknownFieldSet option \<Rightarrow> (bool \<times> 's coded_input \<times> UnknownFieldSet option) option) \<Rightarrow>
     's zero_copy_input \<Rightarrow> uint32 \<Rightarrow> 's coded_input \<Rightarrow> UnknownFieldSet option \<Rightarrow>
     (bool \<times> 's coded_input \<times> UnknownFieldSet option) option" where
  "SkipField_set_body skip_message zs tag s unknown_fields =
     (let number = GetTagFieldNumber tag in
      if GetTagWireType tag = WIRETYPE_VARINT then do {
        (r, s) \<leftarrow> ReadVarint64 zs s;
        (case r of
           None \<Rightarrow> Some (False, s, unknown_fields)
         | Some v \<Rightarrow> Some (True, s, map_option (AddVarint number v) unknown_fields)) }
      else if GetTagWireType tag = WIRETYPE_FIXED64 then do {
        (r, s) \<leftarrow> ReadLittleEndian64 zs s;
        (case r of
           None \<Rightarrow> Some (False, s, unknown_fields)
         | Some v \<Rightarrow> Some (True, s, map_option (AddFixed64 number v) unknown_fields)) }
      else if GetTagWireType tag = WIRETYPE_LENGTH_DELIMITED then do {
        (r, s) \<leftarrow> ReadVarint32 zs s;
        (case r of
           None \<Rightarrow> Some (False, s, unknown_fields)
         | Some n \<Rightarrow>
             (case unknown_fields of
                None \<Rightarrow> do {
                  (ok, s) \<leftarrow> CodedInputStream_Skip zs (sint n) s;
                  Some (ok, s, None) }
              | Some u \<Rightarrow> do {
                  (ok, str, s) \<leftarrow> ReadString zs [] (sint n) s;
                  Some (ok, s, Some (AddLengthDelimited number str u)) })) }
      else if GetTagWireType tag = WIRETYPE_START_GROUP then
        (case IncrementRecursionDepth s of (ok, s) \<Rightarrow>
           if \<not> ok then Some (False, s, unknown_fields)
           else do {
             (ok, s, g) \<leftarrow> skip_message (s, if unknown_fields = None then None else Some UnknownFieldSet_new);
             let unknown_fields = (case g of None \<Rightarrow> None | Some g \<Rightarrow> map_option (AddGroup number g) unknown_fields) in
             (if \<not> ok then Some (False, s, unknown_fields)
              else let s = DecrementRecursionDepth s in
                Some (LastTagWas (MakeTag (GetTagFieldNumber tag) WIRETYPE_END_GROUP) s, s, unknown_fields)) })
      else if GetTagWireType tag = WIRETYPE_END_GROUP then Some (False, s, unknown_fields)
      else if GetTagWireType tag = WIRETYPE_FIXED32 then do {
        (r, s) \<leftarrow> ReadLittleEndian32 zs s;
        (case r of
           None \<Rightarrow> Some (False, s, unknown_fields)
         | Some v \<Rightarrow> Some (True, s, map_option (AddFixed32 number v) unknown_fields)) }
      else Some (False, s, unknown_fields))"

lemma mono_SkipField_set_body [partial_function_mono]:
  assumes "\<And>x. mono_option (\<lambda>f. B f x)"
  shows "mono_option (\<lambda>f. SkipField_set_body (B f) zs tag s u)"
  unfolding SkipField_set_body_def Let_def using assms
  by (cases "IncrementRecursionDepth s") (auto intro!: partial_function_mono split: prod.splits option.splits)

partial_function (option) SkipMessage_set ::
  "'s zero_copy_input \<Rightarrow> 's coded_input \<times> UnknownFieldSet option \<Rightarrow> (bool \<times> 's coded_input \<times> UnknownFieldSet option) option" where
  "SkipMessage_set zs p = do {
     (tag, s) \<leftarrow> ReadTag zs (fst p);
     (if tag = 0 then Some (True, s, snd p)
      else if GetTagWireType tag = WIRETYPE_END_GROUP then Some (True, s, snd p)
      else do {
        (ok, s, u) \<leftarrow> SkipField_set_body (SkipMessage_set zs) zs tag s (snd p);
        (if \<not> ok then Some (False, s, u) else SkipMessage_set zs (s, u)) }) }"

definition SkipField_set ::
  "'s zero_copy_input \<Rightarrow> uint32 \<Rightarrow> 's coded_input \<Rightarrow> UnknownFieldSet option \<Rightarrow> (bool \<times> 's coded_input \<times> UnknownFieldSet option) option" where
  "SkipField_set zs tag s u = SkipField_set_body (SkipMessage_set zs) zs tag s u"

definition UnknownFieldSetFieldSkipper :: "'s zero_copy_input \<Rightarrow> ('s, UnknownFieldSet option) field_skipper" where
  "UnknownFieldSetFieldSkipper zs =
     \<lparr>fs_SkipField = (\<lambda>input tag u. SkipField_set zs tag input u),
      fs_SkipMessage = (\<lambda>input u. SkipMessage_set zs (input, u)),
      fs_SkipUnknownEnum = (\<lambda>field_number value u.
        map_option (\<lambda>u. Some (AddVarint (sint field_number) (scast value) u)) u)\<rparr>"

text \<open>Parsing a whole message into a set.\<close>

definition UnknownFieldSet_MergeFromCodedStream ::
  "'s zero_copy_input \<Rightarrow> 's coded_input \<Rightarrow> UnknownFieldSet \<Rightarrow> (bool \<times> 's coded_input \<times> UnknownFieldSet) option" where
  "UnknownFieldSet_MergeFromCodedStream zs input fs = do {
     (ok, input, other) \<leftarrow> SkipMessage_set zs (input, Some UnknownFieldSet_new);
     (if ok \<and> ConsumedEntireMessage input then do {
        other \<leftarrow> other;
        Some (True, input, UnknownFieldSet_MergeFrom other fs) }
      else Some (False, input, fs)) }"

definition UnknownFieldSet_ParseFromCodedStream ::
  "'s zero_copy_input \<Rightarrow> 's coded_input \<Rightarrow> UnknownFieldSet \<Rightarrow> (bool \<times> 's coded_input \<times> UnknownFieldSet) option" where
  "UnknownFieldSet_ParseFromCodedStream zs input fs =
     UnknownFieldSet_MergeFromCodedStream zs input (UnknownFieldSet_Clear fs)"

definition UnknownFieldSet_ParseFromZeroCopyStream ::
  "'s zero_copy_input \<Rightarrow> 's \<Rightarrow> UnknownFieldSet \<Rightarrow> (bool \<times> UnknownFieldSet) option" where
  "UnknownFieldSet_ParseFromZeroCopyStream zs input fs = do {
     coded_input \<leftarrow> CodedInputStream zs input;
     (ok, coded_input, fs) \<leftarrow> UnknownFieldSet_ParseFromCodedStream zs coded_input fs;
     Some (ok \<and> ConsumedEntireMessage coded_input, fs) }"

text \<open>With a block size of - 1, the default, the array is one block.\<close>

definition UnknownFieldSet_ParseFromArray :: "byte list \<Rightarrow> int \<Rightarrow> UnknownFieldSet \<Rightarrow> (bool \<times> UnknownFieldSet) option" where
  "UnknownFieldSet_ParseFromArray data n fs =
     UnknownFieldSet_ParseFromZeroCopyStream array_input_stream (ArrayInputStream data n (- 1)) fs"

section \<open>Writing unknown fields\<close>

fun SerializeUnknownField :: "'s zero_copy_output \<Rightarrow> UnknownField \<Rightarrow> 's coded_output \<Rightarrow> 's coded_output option"
  and SerializeUnknownFields :: "'s zero_copy_output \<Rightarrow> UnknownFieldSet \<Rightarrow> 's coded_output \<Rightarrow> 's coded_output option" where
  "SerializeUnknownField zo (Wire_varint n v) out = do {
     out \<leftarrow> WriteVarint32 zo (MakeTag n WIRETYPE_VARINT) out;
     WriteVarint64 zo v out }"
| "SerializeUnknownField zo (Wire_fixed32 n x) out = do {
     out \<leftarrow> WriteVarint32 zo (MakeTag n WIRETYPE_FIXED32) out;
     WriteLittleEndian32 zo x out }"
| "SerializeUnknownField zo (Wire_fixed64 n v) out = do {
     out \<leftarrow> WriteVarint32 zo (MakeTag n WIRETYPE_FIXED64) out;
     WriteLittleEndian64 zo v out }"
| "SerializeUnknownField zo (Wire_bytes n bs) out = do {
     out \<leftarrow> WriteVarint32 zo (MakeTag n WIRETYPE_LENGTH_DELIMITED) out;
     out \<leftarrow> WriteVarint32 zo (of_nat (length bs)) out;
     WriteRaw zo bs out }"
| "SerializeUnknownField zo (Wire_group n fs) out = do {
     out \<leftarrow> WriteVarint32 zo (MakeTag n WIRETYPE_START_GROUP) out;
     out \<leftarrow> SerializeUnknownFields zo fs out;
     WriteVarint32 zo (MakeTag n WIRETYPE_END_GROUP) out }"
| "SerializeUnknownFields zo [] out = Some out"
| "SerializeUnknownFields zo (f # fs) out = do {
     out \<leftarrow> SerializeUnknownField zo f out;
     SerializeUnknownFields zo fs out }"

fun SerializeUnknownFieldToArray :: "UnknownField \<Rightarrow> byte list"
  and SerializeUnknownFieldsToArray :: "UnknownFieldSet \<Rightarrow> byte list" where
  "SerializeUnknownFieldToArray (Wire_varint n v) = WriteInt64ToArray n v"
| "SerializeUnknownFieldToArray (Wire_fixed32 n x) = WriteFixed32ToArray n x"
| "SerializeUnknownFieldToArray (Wire_fixed64 n v) = WriteFixed64ToArray n v"
| "SerializeUnknownFieldToArray (Wire_bytes n bs) = WriteBytesToArray n bs"
| "SerializeUnknownFieldToArray (Wire_group n fs) =
     WireFormat_WriteTagToArray n WIRETYPE_START_GROUP @ SerializeUnknownFieldsToArray fs @
     WireFormat_WriteTagToArray n WIRETYPE_END_GROUP"
| "SerializeUnknownFieldsToArray [] = []"
| "SerializeUnknownFieldsToArray (f # fs) = SerializeUnknownFieldToArray f @ SerializeUnknownFieldsToArray fs"

fun ComputeUnknownFieldSize :: "UnknownField \<Rightarrow> int" and ComputeUnknownFieldsSize :: "UnknownFieldSet \<Rightarrow> int" where
  "ComputeUnknownFieldSize (Wire_varint n v) = VarintSize32 (MakeTag n WIRETYPE_VARINT) + VarintSize64 v"
| "ComputeUnknownFieldSize (Wire_fixed32 n x) = VarintSize32 (MakeTag n WIRETYPE_FIXED32) + 4"
| "ComputeUnknownFieldSize (Wire_fixed64 n v) = VarintSize32 (MakeTag n WIRETYPE_FIXED64) + 8"
| "ComputeUnknownFieldSize (Wire_bytes n bs) =
     VarintSize32 (MakeTag n WIRETYPE_LENGTH_DELIMITED) + VarintSize32 (of_nat (length bs)) + int (length bs)"
| "ComputeUnknownFieldSize (Wire_group n fs) =
     VarintSize32 (MakeTag n WIRETYPE_START_GROUP) + ComputeUnknownFieldsSize fs + VarintSize32 (MakeTag n WIRETYPE_END_GROUP)"
| "ComputeUnknownFieldsSize [] = 0"
| "ComputeUnknownFieldsSize (f # fs) = ComputeUnknownFieldSize f + ComputeUnknownFieldsSize fs"

subsection \<open>Message sets\<close>

text \<open>Only length-delimited fields are items of a message set; the others are left out.\<close>

definition SerializeLengthDelimitedNoTag :: "'s zero_copy_output \<Rightarrow> byte list \<Rightarrow> 's coded_output \<Rightarrow> 's coded_output option" where
  "SerializeLengthDelimitedNoTag zo data out = do {
     out \<leftarrow> WriteVarint32 zo (of_nat (length data)) out;
     WriteRaw zo data out }"

definition SerializeLengthDelimitedNoTagToArray :: "byte list \<Rightarrow> byte list" where
  "SerializeLengthDelimitedNoTagToArray data = WriteVarint32ToArray (of_nat (length data)) @ data"

fun SerializeUnknownMessageSetItems :: "'s zero_copy_output \<Rightarrow> UnknownFieldSet \<Rightarrow> 's coded_output \<Rightarrow> 's coded_output option" where
  "SerializeUnknownMessageSetItems zo [] out = Some out"
| "SerializeUnknownMessageSetItems zo (Wire_bytes n data # fs) out = do {
     out \<leftarrow> WriteVarint32 zo kMessageSetItemStartTag out;
     out \<leftarrow> WriteVarint32 zo kMessageSetTypeIdTag out;
     out \<leftarrow> WriteVarint32 zo (word_of_int n) out;
     out \<leftarrow> WriteVarint32 zo kMessageSetMessageTag out;
     out \<leftarrow> SerializeLengthDelimitedNoTag zo data out;
     out \<leftarrow> WriteVarint32 zo kMessageSetItemEndTag out;
     SerializeUnknownMessageSetItems zo fs out }"
| "SerializeUnknownMessageSetItems zo (_ # fs) out = SerializeUnknownMessageSetItems zo fs out"

fun SerializeUnknownMessageSetItemsToArray :: "UnknownFieldSet \<Rightarrow> byte list" where
  "SerializeUnknownMessageSetItemsToArray [] = []"
| "SerializeUnknownMessageSetItemsToArray (Wire_bytes n data # fs) =
     WriteTagToArray kMessageSetItemStartTag @ WriteTagToArray kMessageSetTypeIdTag @ WriteVarint32ToArray (word_of_int n) @
     WriteTagToArray kMessageSetMessageTag @ SerializeLengthDelimitedNoTagToArray data @
     WriteTagToArray kMessageSetItemEndTag @ SerializeUnknownMessageSetItemsToArray fs"
| "SerializeUnknownMessageSetItemsToArray (_ # fs) = SerializeUnknownMessageSetItemsToArray fs"

fun ComputeUnknownMessageSetItemsSize :: "UnknownFieldSet \<Rightarrow> int" where
  "ComputeUnknownMessageSetItemsSize [] = 0"
| "ComputeUnknownMessageSetItemsSize (Wire_bytes n data # fs) =
     kMessageSetItemTagsSize + VarintSize32 (word_of_int n) + VarintSize32 (of_nat (length data)) + int (length data) +
     ComputeUnknownMessageSetItemsSize fs"
| "ComputeUnknownMessageSetItemsSize (_ # fs) = ComputeUnknownMessageSetItemsSize fs"

section \<open>The set is a list\<close>

lemma DeepCopy_eq: "DeepCopy f = f" "MergeFrom_loop gs fs = fs @ gs"
  by (induction f and gs fs rule: DeepCopy_MergeFrom_loop.induct) simp_all

lemma MergeFrom_append: "UnknownFieldSet_MergeFrom other fs = fs @ other"
  by (simp add: UnknownFieldSet_MergeFrom_def DeepCopy_eq)

lemma slide_down_eq:
  "i + k = length fs \<Longrightarrow> num \<le> i \<Longrightarrow>
     slide_down k i num fs = Some (take (i - num) fs @ drop i fs @ drop (i - num + k) fs)"
proof (induction k arbitrary: i fs)
  case (Suc k)
  let ?fs = "fs[i - num := fs ! i]"
  have "vector_move i (i - num) fs = Some ?fs" using Suc.prems by (simp add: vector_move_def)
  moreover have "take (Suc i - num) ?fs @ drop (Suc i) ?fs @ drop (Suc i - num + k) ?fs =
      take (i - num) fs @ drop i fs @ drop (i - num + Suc k) fs"
  proof (rule nth_equalityI)
    show "length (take (Suc i - num) ?fs @ drop (Suc i) ?fs @ drop (Suc i - num + k) ?fs) =
      length (take (i - num) fs @ drop i fs @ drop (i - num + Suc k) fs)"
      using Suc.prems by simp
  next
    fix j
    assume "j < length (take (Suc i - num) ?fs @ drop (Suc i) ?fs @ drop (Suc i - num + k) ?fs)"
    then have j: "j < length fs" using Suc.prems by simp
    consider "j < i - num" | "j = i - num" | "i - num < j" by linarith
    then show "(take (Suc i - num) ?fs @ drop (Suc i) ?fs @ drop (Suc i - num + k) ?fs) ! j =
      (take (i - num) fs @ drop i fs @ drop (i - num + Suc k) fs) ! j"
      using Suc.prems j by cases (auto simp: nth_append nth_list_update Suc_diff_le)
  qed
  ultimately show ?case using Suc.IH [of "Suc i" ?fs] Suc.prems by simp
qed simp

lemma DeleteSubrange_eq:
  "start + num \<le> length fs \<Longrightarrow> DeleteSubrange start num fs = Some (take start fs @ drop (start + num) fs)"
  using slide_down_eq [of "start + num" "length fs - (start + num)" fs num]
  by (simp add: DeleteSubrange_def)

lemma delete_loop_eq:
  "i + k = length fs \<Longrightarrow> left \<le> i \<Longrightarrow>
     \<exists>gs. delete_loop number k i left fs = Some (left + length (filter (\<lambda>f. UnknownField_number f \<noteq> number) (drop i fs)), gs) \<and>
       length gs = length fs \<and>
       take (left + length (filter (\<lambda>f. UnknownField_number f \<noteq> number) (drop i fs))) gs =
         take left fs @ filter (\<lambda>f. UnknownField_number f \<noteq> number) (drop i fs)"
proof (induction k arbitrary: i left fs)
  case (Suc k)
  have d: "drop i fs = fs ! i # drop (Suc i) fs" using Suc.prems by (simp add: Cons_nth_drop_Suc)
  show ?case
  proof (cases "UnknownField_number (fs ! i) = number")
    case True
    then show ?thesis using Suc.IH [of "Suc i" fs left] Suc.prems by (simp add: d)
  next
    case False
    let ?fs = "fs[left := fs ! i]"
    have m: "(if i \<noteq> left then vector_move i left fs else Some fs) = Some ?fs"
      using Suc.prems by (simp add: vector_move_def)
    have "drop (Suc i) ?fs = drop (Suc i) fs" "take (Suc left) ?fs = take left fs @ [fs ! i]"
      using Suc.prems by (simp_all add: take_Suc_conv_app_nth)
    then show ?thesis using Suc.IH [of "Suc i" ?fs "Suc left"] Suc.prems False by (simp add: d m)
  qed
qed simp

lemma DeleteByNumber_eq: "DeleteByNumber number fs = Some (filter (\<lambda>f. UnknownField_number f \<noteq> number) fs)"
  using delete_loop_eq [of 0 "length fs" fs 0 number] by (auto simp: DeleteByNumber_def)

section \<open>The bytes of a set\<close>

lemma SerializeToArray_eq: "SerializeUnknownFieldToArray f = wire_bytes f" "SerializeUnknownFieldsToArray fs = wires_bytes fs"
  by (induction f and fs rule: wire_bytes_wires_bytes.induct) (simp_all add: to_array_defs WriteBytesToArray_def)

lemma ComputeUnknownFieldsSize_eq:
  "ComputeUnknownFieldSize f = int (length (wire_bytes f))" "ComputeUnknownFieldsSize fs = int (length (wires_bytes fs))"
  by (induction f and fs rule: wire_bytes_wires_bytes.induct)
    (simp_all add: WireFormat_WriteTagToArray_def WriteTagToArray_eq le_length VarintSize32_eq VarintSize64_eq
      WriteVarint64ToArrayInline_eq WriteStringWithSizeToArray_def WriteVarint32ToArray_eq)

text \<open>An item of a message set is a group of a type id and a message.\<close>

fun message_set_items :: "UnknownFieldSet \<Rightarrow> wire_field list" where
  "message_set_items [] = []"
| "message_set_items (Wire_bytes n data # fs) = Wire_group 1 [Wire_varint 2 (word_of_int n), Wire_bytes 3 data] # message_set_items fs"
| "message_set_items (_ # fs) = message_set_items fs"

lemmas message_set_tags = kMessageSetItemStartTag_def kMessageSetItemEndTag_def kMessageSetTypeIdTag_def
  kMessageSetMessageTag_def kMessageSetItemNumber_def kMessageSetTypeIdNumber_def kMessageSetMessageNumber_def

lemma unat_number: "0 \<le> n \<Longrightarrow> n < 2 ^ 29 \<Longrightarrow> unat (word_of_int n :: uint64) = unat (word_of_int n :: uint32)"
  by (simp add: unat_eq_nat_uint uint_word_of_int)

lemma SerializeMessageSetToArray_eq:
  "\<forall>f \<in> set fs. number_valid (UnknownField_number f) \<Longrightarrow>
     SerializeUnknownMessageSetItemsToArray fs = wires_bytes (message_set_items fs)"
proof (induction fs rule: message_set_items.induct)
  case (2 n data fs)
  then have "unat (word_of_int n :: uint64) = unat (word_of_int n :: uint32)"
    using unat_number [of n] by (simp add: number_valid_def)
  then show ?case
    using 2 by (simp add: message_set_tags WireFormat_WriteTagToArray_def WriteVarint64ToArrayInline_eq WriteVarint32ToArray_eq
        WriteStringWithSizeToArray_def SerializeLengthDelimitedNoTagToArray_def)
qed simp_all

lemma ComputeMessageSetSize_eq:
  "ComputeUnknownMessageSetItemsSize fs = int (length (SerializeUnknownMessageSetItemsToArray fs))"
  by (induction fs rule: message_set_items.induct)
    (simp_all add: kMessageSetItemTagsSize_def StaticVarintSize32_eq VarintSize32_eq WriteTagToArray_eq WriteVarint32ToArray_eq
      SerializeLengthDelimitedNoTagToArray_def)

context output_memory
begin

lemma SerializeUnknownFields_takes:
  assumes "takes good written stuck n"
  shows "length (data @ wire_bytes f) \<le> n \<Longrightarrow> cw_at zo good written base start data s \<Longrightarrow>
    wrote zo good written base start (data @ wire_bytes f) (SerializeUnknownField zo f s)"
  and "length (data @ wires_bytes fs) \<le> n \<Longrightarrow> cw_at zo good written base start data s \<Longrightarrow>
    wrote zo good written base start (data @ wires_bytes fs) (SerializeUnknownFields zo fs s)"
proof (induction f and fs arbitrary: data s and data s rule: wire_bytes_wires_bytes.induct)
  case (4 num fs)
  let ?b = "WriteVarint32ToArray (MakeTag num WIRETYPE_START_GROUP)" and ?e = "WriteVarint32ToArray (MakeTag num WIRETYPE_END_GROUP)"
  have b: "wire_bytes (Wire_group num fs) = ?b @ wires_bytes fs @ ?e"
    by (simp add: WireFormat_WriteTagToArray_def WriteTagToArray_eq WriteVarint32ToArray_eq)
  have "wrote zo good written base start (((data @ ?b) @ wires_bytes fs) @ ?e) (SerializeUnknownField zo (Wire_group num fs) s)"
    using "4.prems" unfolding b SerializeUnknownField.simps
    by (intro wrote_bind [OF WriteVarint32_takes [OF assms]] wrote_bind [OF "4.IH"] WriteVarint32_takes [OF assms])
      (auto simp del: append_assoc)
  then show ?case unfolding b by simp
next
  case (3 num bs)
  let ?t = "WriteVarint32ToArray (MakeTag num WIRETYPE_LENGTH_DELIMITED)" and ?l = "WriteVarint32ToArray (of_nat (length bs))"
  have b: "wire_bytes (Wire_bytes num bs) = ?t @ ?l @ bs"
    by (simp add: WireFormat_WriteTagToArray_def WriteTagToArray_eq WriteVarint32ToArray_eq WriteStringWithSizeToArray_def)
  have "wrote zo good written base start (((data @ ?t) @ ?l) @ bs) (SerializeUnknownField zo (Wire_bytes num bs) s)"
    using "3.prems" unfolding b SerializeUnknownField.simps
    by (intro wrote_bind [OF WriteVarint32_takes [OF assms]] WriteRaw_takes [OF assms]) (auto simp del: append_assoc)
  then show ?case unfolding b by simp
next
  case (7 f fs)
  have "wrote zo good written base start ((data @ wire_bytes f) @ wires_bytes fs) (SerializeUnknownFields zo (f # fs) s)"
    using "7.prems" unfolding SerializeUnknownFields.simps by (intro wrote_bind [OF "7.IH"(1)] "7.IH"(2))
      (auto simp del: append_assoc)
  then show ?case by simp
next
  case (1 num v)
  then show ?case using write_tag_value_takes [OF assms "1.prems"(2), of "MakeTag num WIRETYPE_VARINT" "WriteVarint64ToArrayInline v" "WriteVarint64 zo v"]
    by (simp add: WireFormat_WriteTagToArray_def WriteTagToArray_eq WriteVarint32ToArray_eq WriteVarint64ToArrayInline_eq WriteVarint_eq)
next
  case (2 num v)
  then show ?case using write_tag_value_takes [OF assms "2.prems"(2), of "MakeTag num WIRETYPE_FIXED64" "WriteLittleEndian64ToArray v" "WriteLittleEndian64 zo v"]
    by (simp add: WireFormat_WriteTagToArray_def WriteTagToArray_eq WriteVarint32ToArray_eq WriteLittleEndian_eq)
next
  case (5 num v)
  then show ?case using write_tag_value_takes [OF assms "5.prems"(2), of "MakeTag num WIRETYPE_FIXED32" "WriteLittleEndian32ToArray v" "WriteLittleEndian32 zo v"]
    by (simp add: WireFormat_WriteTagToArray_def WriteTagToArray_eq WriteVarint32ToArray_eq WriteLittleEndian_eq)
qed (simp add: wrote_def)

lemma SerializeMessageSet_takes:
  assumes "takes good written stuck n"
  shows "length (data @ SerializeUnknownMessageSetItemsToArray fs) \<le> n \<Longrightarrow> cw_at zo good written base start data s \<Longrightarrow>
    wrote zo good written base start (data @ SerializeUnknownMessageSetItemsToArray fs) (SerializeUnknownMessageSetItems zo fs s)"
proof (induction fs arbitrary: data s rule: message_set_items.induct)
  case (2 num bs fs)
  let ?b = "WriteVarint32ToArray kMessageSetItemStartTag" and ?i = "WriteVarint32ToArray kMessageSetTypeIdTag"
    and ?n = "WriteVarint32ToArray (word_of_int num)" and ?m = "WriteVarint32ToArray kMessageSetMessageTag"
    and ?l = "WriteVarint32ToArray (of_nat (length bs))" and ?e = "WriteVarint32ToArray kMessageSetItemEndTag"
  have b: "SerializeUnknownMessageSetItemsToArray (Wire_bytes num bs # fs) =
      ?b @ ?i @ ?n @ ?m @ ?l @ bs @ ?e @ SerializeUnknownMessageSetItemsToArray fs"
    by (simp add: WriteTagToArray_eq WriteVarint32ToArray_eq SerializeLengthDelimitedNoTagToArray_def)
  have l: "SerializeLengthDelimitedNoTag zo bs = (\<lambda>out. WriteVarint32 zo (of_nat (length bs)) out \<bind> WriteRaw zo bs)"
    by (simp add: fun_eq_iff SerializeLengthDelimitedNoTag_def)
  have "wrote zo good written base start
      ((((((((data @ ?b) @ ?i) @ ?n) @ ?m) @ ?l) @ bs) @ ?e) @ SerializeUnknownMessageSetItemsToArray fs)
      (SerializeUnknownMessageSetItems zo (Wire_bytes num bs # fs) s)"
    using "2.prems" unfolding b SerializeUnknownMessageSetItems.simps l Option.bind_assoc
    by (intro wrote_bind [OF WriteVarint32_takes [OF assms]] wrote_bind [OF WriteRaw_takes [OF assms]] "2.IH")
      (auto simp del: append_assoc)
  then show ?case unfolding b by simp
qed (simp_all add: wrote_def)

end

section \<open>Messages: all of the bytes\<close>

text \<open>The fields of bytes that are nothing but fields: a message ends where its bytes end, with no tag behind.\<close>

function parse_message :: "nat \<Rightarrow> byte list \<Rightarrow> wire_field list option" where
  "parse_message d bs =
     (if bs = [] then Some []
      else case first_varint bs of
          None \<Rightarrow> None
        | Some (v, k) \<Rightarrow>
            if ends_fields (of_nat v) then None
            else case parse_field d (of_nat v) (drop k bs) of
                None \<Rightarrow> None
              | Some (f, j) \<Rightarrow> map_option ((#) f) (parse_message d (drop (k + j) bs)))"
  by pat_completeness auto
termination
proof (relation "measure (length \<circ> snd)")
  fix d :: nat and bs :: "byte list" and r v k f and j :: nat
  assume "first_varint bs = Some r" "(v, k) = r"
  then have "0 < k" "k \<le> length bs" using first_varint_pos(1,2) [of bs v k] by simp_all
  then show "((d, drop (k + j) bs), (d, bs)) \<in> measure (length \<circ> snd)" by auto
qed simp

declare parse_message.simps [simp del]

lemma parse_message_Nil [simp]: "parse_message d [] = Some []"
  by (simp add: parse_message.simps)

lemma parse_message_step:
  assumes "first_varint bs = Some (v, k)" and "\<not> ends_fields (of_nat v)"
  shows "parse_message d bs = (case parse_field d (of_nat v) (drop k bs) of
     None \<Rightarrow> None | Some (f, j) \<Rightarrow> map_option ((#) f) (parse_message d (drop (k + j) bs)))"
  using assms by (cases "bs = []") (simp_all add: parse_message.simps [where bs = bs])

lemma parse_message_no_step:
  assumes "bs \<noteq> []" and "case first_varint bs of None \<Rightarrow> True | Some (v, k) \<Rightarrow> ends_fields (of_nat v)"
  shows "parse_message d bs = None"
  using assms by (subst parse_message.simps) (auto split: option.splits)

lemma parse_field_canonical:
  assumes "parse_field d tag bs = Some (f, j)"
  shows "wire_bytes f = WriteVarint32ToArray tag @ wire_value_bytes f" and "length (wire_value_bytes f) \<le> j" and "j \<le> length bs"
  using parse_field_wire_bytes [OF assms, where da = "\<lambda>_ _ _. d - 1"] by simp_all

lemma parse_message_fields: "parse_message d bs = Some fs \<Longrightarrow> parse_fields d bs = Some (fs, 0, Some (length bs))"
proof (induction d bs arbitrary: fs rule: parse_message.induct)
  case (1 d bs)
  show ?case
  proof (cases "bs = []")
    case True
    then show ?thesis using "1.prems" by (simp add: parse_fields_eq [where bs = "[]"])
  next
    case False
    then obtain v k where v: "first_varint bs = Some (v, k)" "\<not> ends_fields (of_nat v)"
      using "1.prems" parse_message_no_step [OF False] by (fastforce split: option.splits)
    then obtain f j gs where f: "parse_field d (of_nat v) (drop k bs) = Some (f, j)"
      "parse_message d (drop (k + j) bs) = Some gs" "fs = f # gs"
      using "1.prems" by (auto simp: parse_message_step split: option.splits)
    have "parse_fields d (drop (k + j) bs) = Some (gs, 0, Some (length (drop (k + j) bs)))"
      using "1.IH" [OF False v(1) refl v(2) f(1) refl f(2)] .
    moreover have "k + j \<le> length bs"
      using parse_field_canonical(3) [OF f(1)] first_varint_pos(2) [OF v(1)] by simp
    ultimately show ?thesis using v f by (subst parse_fields_eq) simp
  qed
qed

lemma parse_message_of_wires: "wires_ok d fs \<Longrightarrow> parse_message d (wires_bytes fs) = Some fs"
proof (induction fs)
  case (Cons f fs)
  let ?bs = "wire_bytes f @ wires_bytes fs"
  have all: "parse_fields d ?bs = Some (f # fs, 0, Some (length ?bs))"
    using parse_fields_of_wires [OF Cons.prems] by simp
  obtain v k where v: "first_varint ?bs = Some (v, k)" "\<not> ends_fields (of_nat v)"
    using all by (subst (asm) parse_fields_eq) (auto split: option.splits if_splits)
  then obtain j r where f: "parse_field d (of_nat v) (drop k ?bs) = Some (f, j)"
    "parse_fields d (drop (k + j) ?bs) = Some (fs, 0, Some r)" "length ?bs = k + j + r"
    using all by (subst (asm) parse_fields_eq) (auto split: option.splits)
  have "length (wire_bytes f) \<le> k + j"
    using parse_field_canonical(1,2) [OF f(1)] canonical_varint(1) [OF v(1)] by simp
  moreover have "length (wires_bytes fs) \<le> r" using parse_fields_length [OF f(2)] by simp
  ultimately have "k + j = length (wire_bytes f)" using f(3) by simp
  then show ?case using v f(1) Cons by (simp add: parse_message_step)
qed simp

section \<open>Laws of collecting\<close>

text \<open>One field against the specification: what has been read is added to the set, if there is one.\<close>

definition collected ::
  "('s \<Rightarrow> bool) \<Rightarrow> ('s \<Rightarrow> byte list) \<Rightarrow> ('s \<Rightarrow> byte list) \<Rightarrow> 's coded_input \<Rightarrow> UnknownFieldSet option \<Rightarrow>
     (wire_field \<times> nat) option \<Rightarrow> (bool \<times> 's coded_input \<times> UnknownFieldSet option) option \<Rightarrow> bool" where
  "collected good pending last_block s u spec r \<longleftrightarrow> (case spec of
     None \<Rightarrow> \<exists>s' u'. r = Some (False, s', u')
   | Some (f, j) \<Rightarrow> \<exists>s'. r = Some (True, s', map_option (\<lambda>u. u @ [f]) u) \<and> cd_moved good pending last_block j s s' \<and>
       cd_legitimate_message_end s' = cd_legitimate_message_end s)"

lemma collected_simps [simp]:
  "collected good pending last_block s u None r \<longleftrightarrow> (\<exists>s' u'. r = Some (False, s', u'))"
  "collected good pending last_block s u (Some (f, j)) r \<longleftrightarrow>
     (\<exists>s'. r = Some (True, s', map_option (\<lambda>u. u @ [f]) u) \<and> cd_moved good pending last_block j s s' \<and>
       cd_legitimate_message_end s' = cd_legitimate_message_end s)"
  by (simp_all add: collected_def)

lemma add_eqs:
  "AddVarint n v = (\<lambda>fs. fs @ [Wire_varint n v])" "AddFixed32 n x = (\<lambda>fs. fs @ [Wire_fixed32 n x])"
  "AddFixed64 n v = (\<lambda>fs. fs @ [Wire_fixed64 n v])" "AddGroup n gs = (\<lambda>fs. fs @ [Wire_group n gs])"
  by (simp_all add: fun_eq_iff AddVarint_def AddFixed32_def AddFixed64_def AddGroup_def)

context input_contract
begin

text \<open>The string of a length-delimited field, read or skipped.\<close>

lemma collect_bytes_law:
  assumes "cd_inv good pending last_block s"
  shows "\<exists>ok s' u'. (case u of
       None \<Rightarrow> CodedInputStream_Skip zs (sint (v :: uint32)) s \<bind> (\<lambda>(ok, s). Some (ok, s, None))
     | Some u \<Rightarrow> ReadString zs [] (sint v) s \<bind> (\<lambda>(ok, str, s). Some (ok, s, Some (AddLengthDelimited n str u)))) =
       Some (ok, s', u') \<and> ok = (unat v \<le> length (cd_visible pending s)) \<and>
     (if ok then u' = map_option (\<lambda>u. u @ [Wire_bytes n (take (unat v) (cd_visible pending s))]) u \<and>
        cd_moved good pending last_block (unat v) s s' \<and> cd_legitimate_message_end s' = cd_legitimate_message_end s else True)"
proof (cases u)
  case None
  obtain s' where s': "CodedInputStream_Skip zs (sint v) s = Some (unat v \<le> length (cd_visible pending s), s')"
    "unat v \<le> length (cd_visible pending s) \<longrightarrow> cd_moved good pending last_block (unat v) s s'"
    using Skip_length_law [OF assms, of v] by blast
  then show ?thesis using None Skip_end [of zs "sint v" s] by (auto simp: keeps_end_def)
next
  case (Some fs)
  obtain bs s' where s': "ReadString zs [] (sint v) s = Some (unat v \<le> length (cd_visible pending s), bs, s')"
    "unat v \<le> length (cd_visible pending s) \<longrightarrow>
       bs = take (unat v) (cd_visible pending s) \<and> cd_moved good pending last_block (unat v) s s'"
    using ReadString_length_law [OF assms, of "[]" v] by blast
  then show ?thesis using Some ReadString_end [OF s'(1)] by (auto simp: AddLengthDelimited_def)
qed

lemma SkipField_set_simple_law:
  assumes "cd_inv good pending last_block s" and "GetTagWireType tag \<noteq> WIRETYPE_START_GROUP"
  shows "collected good pending last_block s u (parse_simple tag (cd_visible pending s)) (SkipField_set_body F zs tag s u)"
proof -
  let ?bs = "cd_visible pending s"
  obtain s1 k1 where v64: "ReadVarint64 zs s = Some (map_option (\<lambda>(v, j). of_nat v) (first_varint ?bs), s1)"
    "cd_moved good pending last_block k1 s s1" "case first_varint ?bs of Some (v, j) \<Rightarrow> k1 = j | None \<Rightarrow> True"
    using ReadVarint64_law [OF assms(1)] by blast
  obtain s2 k2 where v32: "ReadVarint32 zs s = Some (map_option (\<lambda>(v, j). of_nat v) (first_varint ?bs), s2)"
    "cd_moved good pending last_block k2 s s2" "case first_varint ?bs of Some (v, j) \<Rightarrow> k2 = j | None \<Rightarrow> True"
    using ReadVarint32_law [OF assms(1)] by blast
  obtain s3 where f32: "ReadLittleEndian32 zs s = Some (map_option fst (ReadLittleEndian32FromArray ?bs 0), s3)"
    "cd_moved good pending last_block (min 4 (length ?bs)) s s3"
    using ReadLittleEndian32_law [OF assms(1)] by blast
  obtain s4 where f64: "ReadLittleEndian64 zs s = Some (map_option fst (ReadLittleEndian64FromArray ?bs 0), s4)"
    "cd_moved good pending last_block (min 8 (length ?bs)) s s4"
    using ReadLittleEndian64_law [OF assms(1)] by blast
  have ends: "cd_legitimate_message_end s1 = cd_legitimate_message_end s" "cd_legitimate_message_end s2 = cd_legitimate_message_end s"
    "cd_legitimate_message_end s3 = cd_legitimate_message_end s" "cd_legitimate_message_end s4 = cd_legitimate_message_end s"
    using varint_end(3) [of zs s] varint_end(4) [of zs s] ReadLittleEndian_end [of zs s] v64(1) v32(1) f32(1) f64(1)
    by (simp_all add: keeps_end_def)
  consider "GetTagWireType tag = WIRETYPE_VARINT" | "GetTagWireType tag = WIRETYPE_FIXED64"
    | "GetTagWireType tag = WIRETYPE_LENGTH_DELIMITED" | "GetTagWireType tag = WIRETYPE_FIXED32"
    | "GetTagWireType tag \<notin> {WIRETYPE_VARINT, WIRETYPE_FIXED64, WIRETYPE_LENGTH_DELIMITED, WIRETYPE_FIXED32}" by blast
  then show ?thesis
  proof cases
    case 1
    then show ?thesis using v64 ends
      by (cases "first_varint ?bs") (auto simp: SkipField_set_body_def parse_simple_def add_eqs)
  next
    case 2
    then show ?thesis using f64 ends ReadLittleEndianFromArray_length(2) [of ?bs]
      by (cases "ReadLittleEndian64FromArray ?bs 0") (fastforce simp: SkipField_set_body_def parse_simple_def wire_types add_eqs)+
  next
    case 4
    then show ?thesis using f32 ends ReadLittleEndianFromArray_length(1) [of ?bs]
      by (cases "ReadLittleEndian32FromArray ?bs 0") (fastforce simp: SkipField_set_body_def parse_simple_def wire_types add_eqs)+
  next
    case 3
    show ?thesis
    proof (cases "first_varint ?bs")
      case None
      then show ?thesis using 3 v32 by (simp add: SkipField_set_body_def parse_simple_def wire_types)
    next
      case (Some r)
      obtain v k where r: "r = (v, k)" by (cases r)
      let ?v = "of_nat v :: uint32" and ?n = "GetTagFieldNumber tag"
      have m: "cd_moved good pending last_block k s s2" using v32(2,3) Some r by simp
      then have i: "cd_inv good pending last_block s2" and b: "cd_visible pending s2 = drop k ?bs" by (simp_all add: cd_moved_def)
      obtain ok s5 u' where s5: "(case u of
           None \<Rightarrow> CodedInputStream_Skip zs (sint ?v) s2 \<bind> (\<lambda>(ok, s). Some (ok, s, None))
         | Some u \<Rightarrow> ReadString zs [] (sint ?v) s2 \<bind> (\<lambda>(ok, str, s). Some (ok, s, Some (AddLengthDelimited ?n str u)))) =
           Some (ok, s5, u')" "ok = (unat ?v \<le> length (drop k ?bs))"
        "if ok then u' = map_option (\<lambda>u. u @ [Wire_bytes ?n (take (unat ?v) (drop k ?bs))]) u \<and>
           cd_moved good pending last_block (unat ?v) s2 s5 \<and> cd_legitimate_message_end s5 = cd_legitimate_message_end s2 else True"
        using collect_bytes_law [OF i, where v = ?v and u = u and n = ?n] unfolding b by blast
      have "SkipField_set_body F zs tag s u = Some (ok, s5, u')"
        using 3 v32(1) Some r s5(1) by (simp add: SkipField_set_body_def wire_types Let_def)
      moreover have "k \<le> length ?bs" using first_varint_pos(2) [of ?bs v k] Some r by simp
      moreover have "parse_simple tag ?bs =
          (if ok then Some (Wire_bytes ?n (take (unat ?v) (drop k ?bs)), k + unat ?v) else None)"
        using 3 Some r s5(2) \<open>k \<le> length ?bs\<close> by (auto simp: parse_simple_def wire_types Let_def)
      ultimately show ?thesis
        using s5(3) ends(2) cd_moved_trans [OF m] by (auto split: if_splits)
    qed
  next
    case 5
    then show ?thesis using assms(2) by (simp add: SkipField_set_body_def parse_simple_def)
  qed
qed

end

text \<open>Whether the end of the data is a legitimate end of the message \<open>n\<close> bytes further on.\<close>

definition end_is_legitimate :: "nat \<Rightarrow> 's coded_input \<Rightarrow> bool" where
  "end_is_legitimate n s \<longleftrightarrow> CurrentPosition s + int n < cd_total_bytes_limit s \<or> cd_current_limit s = cd_total_bytes_limit s"

lemma end_is_legitimate_moved:
  "cd_moved good pending last_block k s s' \<Longrightarrow> end_is_legitimate n s' = end_is_legitimate (k + n) s"
  by (simp add: cd_moved_def cd_frame_def end_is_legitimate_def add.assoc)

text \<open>The flag behind a message of \<open>n\<close> bytes, if they are all fields, and behind other bytes.\<close>

definition end_flag :: "nat \<Rightarrow> bool \<Rightarrow> 's coded_input \<Rightarrow> 's coded_input \<Rightarrow> bool" where
  "end_flag n whole s s' \<longleftrightarrow>
     (if whole then cd_legitimate_message_end s \<or> cd_legitimate_message_end s' = end_is_legitimate n s
      else cd_legitimate_message_end s' = cd_legitimate_message_end s)"

definition collected_message ::
  "('s \<Rightarrow> bool) \<Rightarrow> ('s \<Rightarrow> byte list) \<Rightarrow> ('s \<Rightarrow> byte list) \<Rightarrow> 's coded_input \<Rightarrow> UnknownFieldSet option \<Rightarrow> nat \<Rightarrow> bool \<Rightarrow>
     (wire_field list \<times> uint32 \<times> nat option) option \<Rightarrow> (bool \<times> 's coded_input \<times> UnknownFieldSet option) option \<Rightarrow> bool" where
  "collected_message good pending last_block s u n whole spec r \<longleftrightarrow> (case spec of
     None \<Rightarrow> \<exists>s' u'. r = Some (False, s', u')
   | Some (fs, t, j) \<Rightarrow> \<exists>s' k. r = Some (True, s', map_option (\<lambda>u. u @ fs) u) \<and> LastTagWas t s' \<and>
       cd_moved good pending last_block k s s' \<and> (case j of None \<Rightarrow> True | Some j \<Rightarrow> k = j) \<and> end_flag n whole s s')"

lemma collected_message_None [simp]:
  "collected_message good pending last_block s u n whole None r \<longleftrightarrow> (\<exists>s' u'. r = Some (False, s', u'))"
  by (simp add: collected_message_def)

lemma collected_message_Some:
  "collected_message good pending last_block s u n whole (Some (fs, t, j)) r \<longleftrightarrow>
     (\<exists>s' k. r = Some (True, s', map_option (\<lambda>u. u @ fs) u) \<and> LastTagWas t s' \<and>
       cd_moved good pending last_block k s s' \<and> (case j of None \<Rightarrow> True | Some j \<Rightarrow> k = j) \<and> end_flag n whole s s')"
  by (simp add: collected_message_def)

context input_contract
begin

lemma SkipField_set_group_law:
  assumes "cd_inv good pending last_block s" and "0 \<le> cd_recursion_depth s" and "GetTagWireType tag = WIRETYPE_START_GROUP"
    and "\<And>s1 u1. 0 < depth_left s \<Longrightarrow> cd_inv good pending last_block s1 \<Longrightarrow> 0 \<le> cd_recursion_depth s1 \<Longrightarrow>
      depth_left s1 = depth_left s - 1 \<Longrightarrow> cd_visible pending s1 = cd_visible pending s \<Longrightarrow>
      collected_message good pending last_block s1 u1 (length (cd_visible pending s))
        (parse_message (depth_left s - 1) (cd_visible pending s) \<noteq> None) (parse_fields (depth_left s - 1) (cd_visible pending s)) (F (s1, u1))"
  shows "collected good pending last_block s u (parse_group (depth_left s) tag (cd_visible pending s)) (SkipField_set_body F zs tag s u)"
proof (cases "depth_left s = 0")
  case True
  then show ?thesis
    using assms(3) by (simp add: SkipField_set_body_def parse_group_def wire_types IncrementRecursionDepth_def depth_left_def)
next
  case False
  let ?s1 = "s\<lparr>cd_recursion_depth := cd_recursion_depth s + 1\<rparr>" and ?p = "parse_fields (depth_left s - 1) (cd_visible pending s)"
    and ?u1 = "if u = None then None else Some UnknownFieldSet_new" and ?n = "GetTagFieldNumber tag"
  let ?m = "parse_message (depth_left s - 1) (cd_visible pending s)"
  have inc: "IncrementRecursionDepth s = (True, ?s1)" using False by (simp add: IncrementRecursionDepth_def depth_left_def)
  have d: "depth_left ?s1 = depth_left s - 1" using False by (simp add: depth_left_def)
  have law: "collected_message good pending last_block ?s1 ?u1 (length (cd_visible pending s)) (?m \<noteq> None) ?p (F (?s1, ?u1))"
    using assms(1,2) False d by (intro assms(4)) (simp_all add: depth_updates)
  show ?thesis
  proof (cases ?p)
    case None
    then obtain s' u' where "F (?s1, ?u1) = Some (False, s', u')" using law by auto
    then show ?thesis using assms(3) inc None False by (simp add: SkipField_set_body_def parse_group_def wire_types Let_def)
  next
    case (Some q)
    obtain fs t j where q: "q = (fs, t, j)" by (cases q)
    obtain s' k where s': "F (?s1, ?u1) = Some (True, s', map_option (\<lambda>u. u @ fs) ?u1)" "LastTagWas t s'"
      "cd_moved good pending last_block k ?s1 s'" "case j of None \<Rightarrow> True | Some j \<Rightarrow> k = j"
      "end_flag (length (cd_visible pending s)) (?m \<noteq> None) ?s1 s'"
      using law Some q by (auto simp: collected_message_Some)
    have l: "LastTagWas e (DecrementRecursionDepth s') \<longleftrightarrow> e = t" for e
      using s'(2) by (auto simp: LastTagWas_def DecrementRecursionDepth_def)
    have g: "parse_group (depth_left s) tag (cd_visible pending s) =
        (case j of None \<Rightarrow> None | Some j \<Rightarrow> if t = MakeTag ?n WIRETYPE_END_GROUP then Some (Wire_group ?n fs, j) else None)"
      using Some q False by (simp add: parse_group_def)
    have b: "SkipField_set_body F zs tag s u =
        Some (t = MakeTag ?n WIRETYPE_END_GROUP, DecrementRecursionDepth s', map_option (\<lambda>u. u @ [Wire_group ?n fs]) u)"
      using assms(3) inc s'(1) l by (cases u) (auto simp: SkipField_set_body_def wire_types Let_def UnknownFieldSet_new_def AddGroup_def)
    have f: "cd_legitimate_message_end (DecrementRecursionDepth s') = cd_legitimate_message_end s" if "t \<noteq> 0"
    proof -
      have "?m = None" using parse_message_fields [of "depth_left s - 1" "cd_visible pending s"] Some q that by (cases ?m) auto
      then show ?thesis using s'(5) by (simp add: end_flag_def DecrementRecursionDepth_def)
    qed
    show ?thesis
    proof (cases j)
      case None
      then show ?thesis using g b parse_fields_malformed [of _ _ fs t] Some q end_tag_not_0 by auto
    next
      case (Some j')
      then show ?thesis using g b f group_moved [OF _ assms(2)] s'(3,4) end_tag_not_0 by auto
    qed
  qed
qed

lemma ReadTag_end_flag:
  assumes "cd_inv good pending last_block s"
  shows "\<exists>s' k. ReadTag zs s = Some (tag_of (first_varint (cd_visible pending s)), s') \<and>
    LastTagWas (tag_of (first_varint (cd_visible pending s))) s' \<and> cd_moved good pending last_block k s s' \<and>
    (case first_varint (cd_visible pending s) of Some (v, j) \<Rightarrow> k = j | None \<Rightarrow> True) \<and>
    (cd_visible pending s = [] \<longrightarrow> k = 0) \<and> end_flag 0 (cd_visible pending s = []) s s'"
proof -
  let ?t = "tag_of (first_varint (cd_visible pending s))"
  obtain s' k where s': "ReadTag zs s = Some (?t, s')" "LastTagWas ?t s'" "cd_moved good pending last_block k s s'"
    "case first_varint (cd_visible pending s) of Some (v, j) \<Rightarrow> k = j | None \<Rightarrow> True"
    "if cd_visible pending s = [] then k = 0 \<and> (ConsumedEntireMessage s \<or>
       ConsumedEntireMessage s' = (CurrentPosition s < cd_total_bytes_limit s \<or> cd_current_limit s = cd_total_bytes_limit s)) else True"
    using ReadTag_law [OF assms] by blast
  have "end_flag 0 (cd_visible pending s = []) s s'"
  proof (cases "cd_visible pending s = []")
    case True
    then show ?thesis using s'(5) by (simp add: end_flag_def end_is_legitimate_def ConsumedEntireMessage_def)
  next
    case False
    then show ?thesis using ReadTag_before_end [OF assms False s'(1)] by (simp add: end_flag_def)
  qed
  then show ?thesis using s' by (intro exI [of _ s'] exI [of _ k]) (simp split: if_splits)
qed

lemma SkipMessage_set_law:
  "cd_inv good pending last_block s \<Longrightarrow> 0 \<le> cd_recursion_depth s \<Longrightarrow> depth_left s = d \<Longrightarrow> cd_visible pending s = bs \<Longrightarrow>
     collected_message good pending last_block s u (length bs) (parse_message d bs \<noteq> None) (parse_fields d bs) (SkipMessage_set zs (s, u))"
proof (induction d bs arbitrary: s u rule: parse_fields_induct)
  case (fields d bs)
  obtain s1 k1 where s1: "ReadTag zs s = Some (tag_of (first_varint bs), s1)" "LastTagWas (tag_of (first_varint bs)) s1"
    "cd_moved good pending last_block k1 s s1" "case first_varint bs of Some (v, j) \<Rightarrow> k1 = j | None \<Rightarrow> True"
    "bs = [] \<longrightarrow> k1 = 0" "end_flag 0 (bs = []) s s1"
    using ReadTag_end_flag [OF fields.prems(1)] unfolding fields.prems(4) by blast
  have inv1: "cd_inv good pending last_block s1" and vis1: "cd_visible pending s1 = drop k1 bs"
    and depth1: "0 \<le> cd_recursion_depth s1" "depth_left s1 = d"
    using s1(3) fields.prems depth_left_moved [OF s1(3)] by (simp_all add: cd_moved_def)
  show ?case
  proof (cases "case first_varint bs of None \<Rightarrow> True | Some (v, k) \<Rightarrow> ends_fields (of_nat v)")
    case True
    have R: "SkipMessage_set zs (s, u) = Some (True, s1, u)"
      using s1(1) True by (subst SkipMessage_set.simps) (auto simp: tag_of_def ends_fields_def split: option.splits)
    have P: "parse_fields d bs = Some ([], tag_of (first_varint bs),
        case first_varint bs of None \<Rightarrow> if bs = [] then Some 0 else None | Some (v, k) \<Rightarrow> Some k)"
      using True by (subst parse_fields_eq) (auto simp: tag_of_def split: option.splits)
    have m: "parse_message d bs \<noteq> None \<longleftrightarrow> bs = []" using parse_message_no_step [of bs d] True by (cases "bs = []") simp_all
    have f: "end_flag (length bs) (parse_message d bs \<noteq> None) s s1" using s1(6) unfolding m by (simp add: end_flag_def)
    show ?thesis
      unfolding R P collected_message_Some
      using s1(2-5) f by (intro exI [of _ s1] exI [of _ k1]) (auto simp: option.map_ident split: option.splits)
  next
    case False
    then obtain v k where v: "first_varint bs = Some (v, k)" and nend: "\<not> ends_fields (of_nat v)" by (auto split: option.splits)
    let ?tag = "of_nat v :: uint32"
    have k: "k1 = k" and ne: "bs \<noteq> []" using s1(4) v by auto
    have R: "ReadTag zs s = Some (?tag, s1)" using s1(1) v by (simp add: tag_of_def)
    have S: "SkipMessage_set zs (s, u) = do { (ok, s, u) \<leftarrow> SkipField_set_body (SkipMessage_set zs) zs ?tag s1 u;
        (if \<not> ok then Some (False, s, u) else SkipMessage_set zs (s, u)) }"
      using R nend by (subst SkipMessage_set.simps) (simp add: ends_fields_def)
    have P: "parse_fields d bs = (case parse_field d ?tag (drop k bs) of
        None \<Rightarrow> None
      | Some (f, j) \<Rightarrow> map_option (\<lambda>(fs, t, r). (f # fs, t, map_option ((+) (k + j)) r)) (parse_fields d (drop (k + j) bs)))"
      using v nend by (subst parse_fields_eq) simp
    have F: "collected good pending last_block s1 u (parse_field d ?tag (drop k bs)) (SkipField_set_body (SkipMessage_set zs) zs ?tag s1 u)"
    proof (cases "GetTagWireType ?tag = WIRETYPE_START_GROUP")
      case True
      have "collected good pending last_block s1 u (parse_group (depth_left s1) ?tag (cd_visible pending s1))
          (SkipField_set_body (SkipMessage_set zs) zs ?tag s1 u)"
      proof (rule SkipField_set_group_law [OF inv1 depth1(1) True])
        fix s2 u1
        assume "0 < depth_left s1" "cd_inv good pending last_block s2" "0 \<le> cd_recursion_depth s2"
          "depth_left s2 = depth_left s1 - 1" "cd_visible pending s2 = cd_visible pending s1"
        then show "collected_message good pending last_block s2 u1 (length (cd_visible pending s1))
            (parse_message (depth_left s1 - 1) (cd_visible pending s1) \<noteq> None) (parse_fields (depth_left s1 - 1) (cd_visible pending s1))
            (SkipMessage_set zs (s2, u1))"
          using fields.IH(1) [OF v nend, of s2 u1] depth1(2) vis1 k by simp
      qed
      then show ?thesis using True depth1(2) vis1 k by (simp add: parse_field_def)
    next
      case simple: False
      then show ?thesis using SkipField_set_simple_law [OF inv1 simple] vis1 k by (simp add: parse_field_def)
    qed
    show ?thesis
    proof (cases "parse_field d ?tag (drop k bs)")
      case None
      then show ?thesis using F by (auto simp: S P)
    next
      case field: (Some q)
      obtain f j where q: "q = (f, j)" by (cases q)
      obtain s2 where s2: "SkipField_set_body (SkipMessage_set zs) zs ?tag s1 u = Some (True, s2, map_option (\<lambda>u. u @ [f]) u)"
        "cd_moved good pending last_block j s1 s2" "cd_legitimate_message_end s2 = cd_legitimate_message_end s1"
        using F field q by auto
      have m: "cd_moved good pending last_block (k + j) s s2" using cd_moved_trans [OF s1(3) s2(2)] k by simp
      have l: "cd_legitimate_message_end s2 = cd_legitimate_message_end s" using s1(6) s2(3) ne by (simp add: end_flag_def)
      have len: "k + j \<le> length bs"
        using parse_field_canonical(3) [OF field [unfolded q]] first_varint_pos(2) [OF v] by simp
      have whole: "parse_message d bs \<noteq> None \<longleftrightarrow> parse_message d (drop (k + j) bs) \<noteq> None"
        using field q by (simp add: parse_message_step [OF v nend])
      have flag: "end_flag (length (drop (k + j) bs)) w s2 s' \<longleftrightarrow> end_flag (length bs) w s s'" for w s'
        using l len end_is_legitimate_moved [OF m, of "length (drop (k + j) bs)"] by (simp add: end_flag_def)
      have S': "SkipMessage_set zs (s, u) = SkipMessage_set zs (s2, map_option (\<lambda>u. u @ [f]) u)" by (simp add: S s2(1))
      have IH: "collected_message good pending last_block s2 (map_option (\<lambda>u. u @ [f]) u) (length (drop (k + j) bs))
          (parse_message d (drop (k + j) bs) \<noteq> None) (parse_fields d (drop (k + j) bs)) (SkipMessage_set zs (s2, map_option (\<lambda>u. u @ [f]) u))"
        using fields.prems m depth_left_moved [OF m]
        by (intro fields.IH(2) [OF v nend field [unfolded q]]) (simp_all add: cd_moved_def)
      show ?thesis
      proof (cases "parse_fields d (drop (k + j) bs)")
        case None
        then show ?thesis using IH field q by (simp add: S' P)
      next
        case (Some p)
        obtain gs t r where p: "p = (gs, t, r)" by (cases p)
        obtain s' k' where s': "SkipMessage_set zs (s2, map_option (\<lambda>u. u @ [f]) u) =
            Some (True, s', map_option (\<lambda>u. u @ gs) (map_option (\<lambda>u. u @ [f]) u))" "LastTagWas t s'"
          "cd_moved good pending last_block k' s2 s'" "case r of None \<Rightarrow> True | Some j \<Rightarrow> k' = j"
          "end_flag (length (drop (k + j) bs)) (parse_message d (drop (k + j) bs) \<noteq> None) s2 s'"
          using IH unfolding Some p collected_message_Some by blast
        have u: "map_option (\<lambda>u. u @ gs) (map_option (\<lambda>u. u @ [f]) u) = map_option (\<lambda>u. u @ f # gs) u"
          by (cases u) simp_all
        have P': "parse_fields d bs = Some (f # gs, t, map_option ((+) (k + j)) r)" using Some p field q by (simp add: P)
        have f: "end_flag (length bs) (parse_message d bs \<noteq> None) s s'" using s'(5) unfolding flag whole .
        show ?thesis
          unfolding S' P' collected_message_Some
          using s'(1,2,4) cd_moved_trans [OF m s'(3)] f u
          by (intro exI [of _ s'] exI [of _ "k + j + k'"] conjI) (simp_all split: option.splits)
      qed
    qed
  qed
qed

lemma SkipField_set_law:
  assumes "cd_inv good pending last_block s" and "0 \<le> cd_recursion_depth s"
  shows "collected good pending last_block s u (parse_field (depth_left s) tag (cd_visible pending s)) (SkipField_set zs tag s u)"
proof (cases "GetTagWireType tag = WIRETYPE_START_GROUP")
  case True
  have "collected good pending last_block s u (parse_group (depth_left s) tag (cd_visible pending s))
      (SkipField_set_body (SkipMessage_set zs) zs tag s u)"
    by (rule SkipField_set_group_law [OF assms True]) (rule SkipMessage_set_law, assumption+)
  then show ?thesis using True by (simp add: parse_field_def SkipField_set_def)
next
  case False
  then show ?thesis using SkipField_set_simple_law [OF assms(1) False] by (simp add: parse_field_def SkipField_set_def)
qed

end

text \<open>A set that is given is never lost, whatever else fails.\<close>

lemma SkipField_set_body_keeps_set:
  assumes "\<And>s u ok s' u'. F (s, u) = Some (ok, s', u') \<Longrightarrow> u' = None \<longleftrightarrow> u = None"
    and "SkipField_set_body F zs tag s u = Some (ok, s', u')"
  shows "u' = None \<longleftrightarrow> u = None"
proof (cases "GetTagWireType tag = WIRETYPE_START_GROUP")
  case True
  obtain ok1 s1 where i: "IncrementRecursionDepth s = (ok1, s1)" by fastforce
  let ?u = "if u = None then None else Some UnknownFieldSet_new"
  show ?thesis
  proof (cases ok1)
    case ok: True
    obtain ok2 s2 g where g: "F (s1, ?u) = Some (ok2, s2, g)" "u' = (case g of None \<Rightarrow> None | Some g \<Rightarrow> map_option (AddGroup (GetTagFieldNumber tag) g) u)"
      using assms(2) True i ok by (auto simp: SkipField_set_body_def wire_types bind_eq_Some_conv Let_def split: if_splits)
    have "g = None \<longleftrightarrow> u = None" using assms(1) [OF g(1)] by simp
    then show ?thesis using g(2) by (cases g) auto
  qed (use assms(2) True i in \<open>simp add: SkipField_set_body_def wire_types\<close>)
next
  case False
  then show ?thesis
    using assms(2) by (auto simp: SkipField_set_body_def bind_eq_Some_conv Let_def split: if_splits option.splits)
qed

lemma SkipMessage_set_keeps_set: "SkipMessage_set zs p = Some r \<Longrightarrow> snd (snd r) = None \<longleftrightarrow> snd p = None"
proof (induction rule: SkipMessage_set.raw_induct [rotated, consumes 1, case_names step])
  case (step F zs p r)
  obtain tag s where R: "ReadTag zs (fst p) = Some (tag, s)" using step(2) by (auto simp: bind_eq_Some_conv)
  show ?case
  proof (cases "tag = 0 \<or> GetTagWireType tag = WIRETYPE_END_GROUP")
    case True
    then show ?thesis using step(2) R by (auto split: if_splits)
  next
    case False
    then obtain ok s' u where b: "SkipField_set_body (F zs) zs tag s (snd p) = Some (ok, s', u)"
      "(if \<not> ok then Some (False, s', u) else F zs (s', u)) = Some r"
      using step(2) R by (auto simp: bind_eq_Some_conv)
    have "u = None \<longleftrightarrow> snd p = None"
      by (rule SkipField_set_body_keeps_set [OF _ b(1)]) (use step(1) in fastforce)
    then show ?thesis using b(2) step(1) [of zs "(s', u)" r] by (cases ok) auto
  qed
qed

lemma SkipField_set_keeps_set: "SkipField_set zs tag s u = Some (ok, s', u') \<Longrightarrow> u' = None \<longleftrightarrow> u = None"
  unfolding SkipField_set_def by (rule SkipField_set_body_keeps_set) (auto dest: SkipMessage_set_keeps_set)

section \<open>Parsing from an array\<close>

context input_contract
begin

text \<open>A stream of at least the default limit never holds a message: its end is not a legitimate one.\<close>

lemma ParseFromZeroCopyStream_law:
  assumes "good i" and "int (length (pending i)) \<le> INT_MAX"
  shows "UnknownFieldSet_ParseFromZeroCopyStream zs i fs =
    Some (case if int (length (pending i)) < kDefaultTotalBytesLimit then parse_message (nat default_recursion_limit) (pending i) else None of
        None \<Rightarrow> (False, []) | Some gs \<Rightarrow> (True, gs))"
proof -
  let ?bs = "take (nat kDefaultTotalBytesLimit) (pending i)" and ?d = "nat default_recursion_limit"
  obtain s where s: "CodedInputStream zs i = Some s" "cd_inv good pending last_block s" "CurrentPosition s = 0"
    "cd_visible pending s = ?bs" "cd_frame s = (INT_MAX, kDefaultTotalBytesLimit, 0, default_recursion_limit, False)"
    "\<not> cd_legitimate_message_end s"
    using CodedInputStream_law [OF assms] by blast
  have d: "depth_left s = ?d" "0 \<le> cd_recursion_depth s" using s(5) by (simp_all add: cd_frame_def depth_left_def)
  have e: "end_is_legitimate (length ?bs) s \<longleftrightarrow> int (length (pending i)) < kDefaultTotalBytesLimit"
    using s(3,5) by (auto simp: end_is_legitimate_def cd_frame_def kDefaultTotalBytesLimit_def INT_MAX_def)
  note law = SkipMessage_set_law [OF s(2) d(2,1) s(4), of "Some []"]
  show ?thesis
  proof (cases "parse_message ?d ?bs")
    case None
    then have "(\<exists>s' u'. SkipMessage_set zs (s, Some []) = Some (False, s', u')) \<or>
        (\<exists>s' u'. SkipMessage_set zs (s, Some []) = Some (True, s', u') \<and> \<not> cd_legitimate_message_end s')"
      using law s(6) by (cases "parse_fields ?d ?bs") (auto simp: collected_message_Some end_flag_def)
    moreover have "parse_message ?d (pending i) = None" if "int (length (pending i)) < kDefaultTotalBytesLimit"
      using None that by (simp add: kDefaultTotalBytesLimit_def)
    ultimately show ?thesis
      using s(1) by (auto simp: UnknownFieldSet_ParseFromZeroCopyStream_def UnknownFieldSet_ParseFromCodedStream_def
          UnknownFieldSet_MergeFromCodedStream_def UnknownFieldSet_new_def UnknownFieldSet_Clear_def ConsumedEntireMessage_def)
  next
    case (Some gs)
    obtain s' where s': "SkipMessage_set zs (s, Some []) = Some (True, s', Some gs)" "end_flag (length ?bs) True s s'"
      using law parse_message_fields [OF Some] Some by (auto simp: collected_message_Some)
    then have "cd_legitimate_message_end s' \<longleftrightarrow> int (length (pending i)) < kDefaultTotalBytesLimit"
      using s(6) e by (simp add: end_flag_def)
    moreover have "parse_message ?d (pending i) = Some gs" if "int (length (pending i)) < kDefaultTotalBytesLimit"
      using Some that by (simp add: kDefaultTotalBytesLimit_def)
    ultimately show ?thesis
      using s(1) s'(1) by (simp add: UnknownFieldSet_ParseFromZeroCopyStream_def UnknownFieldSet_ParseFromCodedStream_def
          UnknownFieldSet_MergeFromCodedStream_def UnknownFieldSet_new_def UnknownFieldSet_Clear_def ConsumedEntireMessage_def MergeFrom_append)
  qed
qed

end

section \<open>Properties\<close>

text \<open>
  C13. \<open>UnknownFieldSet::ParseFromArray\<close> always ends, and decides exactly the wire format: it returns true with the
  fields, in order, when all of the bytes are fields with groups at most as deep as the recursion limit, and otherwise false with an
  empty set. Arrays of 64 megabytes or more, the default limit, are always rejected, even if they hold a message of exactly that size.
\<close>

theorem ParseFromArray_decides_wire_format:
  assumes "int (length data) \<le> INT_MAX"
  shows "UnknownFieldSet_ParseFromArray data (int (length data)) old =
    Some (case if int (length data) < kDefaultTotalBytesLimit then parse_message (nat default_recursion_limit) data else None of
        None \<Rightarrow> (False, []) | Some fs \<Rightarrow> (True, fs))"
  using array_in.ParseFromZeroCopyStream_law [OF array_inv_new [of data "- 1"]] assms
  by (simp add: UnknownFieldSet_ParseFromArray_def array_pending_new)

theorem ParseFromArray_decides_wire_format_witness:
  "UnknownFieldSet_ParseFromArray [0x0D, 1, 2, 3, 4] 5 [] = Some (True, [Wire_fixed32 1 0x04030201]) \<and>
   UnknownFieldSet_ParseFromArray [0x0D, 1, 2, 3] 4 [] = Some (False, [])"
proof -
  have v: "first_varint (b # bs) = Some (unat b, 1)" if "unat b < 128" for b bs
    using that by (rule array_in.first_varint_Cons)
  have t: "GetTagWireType 13 = WIRETYPE_FIXED32" "GetTagFieldNumber 13 = 1"
    by (simp_all add: GetTagWireType_def kTagTypeMask_def kTagTypeBits_def wire_types GetTagFieldNumber_def)
  have "parse_field 100 13 [1, 2, 3, 4] = Some (Wire_fixed32 1 0x04030201, 4)" "parse_field 100 13 [1, 2, 3] = None"
    by (simp_all add: parse_field_def parse_simple_def t wire_types Let_def ReadLittleEndian32FromArray_def mem_get_def)
  then have "parse_message 100 [0x0D, 1, 2, 3, 4] = Some [Wire_fixed32 1 0x04030201]" "parse_message 100 [0x0D, 1, 2, 3] = None"
    by (subst parse_message.simps, simp add: v ends_fields_def t wire_types)+
  then show ?thesis
    using ParseFromArray_decides_wire_format [of "[0x0D, 1, 2, 3, 4]" "[]"]
      ParseFromArray_decides_wire_format [of "[0x0D, 1, 2, 3]" "[]"]
    by (simp add: INT_MAX_def kDefaultTotalBytesLimit_def default_recursion_limit_def)
qed

text \<open>Unknown fields of a message, written through a coded stream into a string.\<close>

definition serialize_unknown_session :: "(nat \<Rightarrow> nat \<Rightarrow> nat) \<Rightarrow> UnknownFieldSet \<Rightarrow> std_string \<Rightarrow> std_string option" where
  "serialize_unknown_session grow fs output = do {
     out \<leftarrow> CodedOutputStream (string_output_stream grow) output;
     out \<leftarrow> SerializeUnknownFields (string_output_stream grow) fs out;
     CodedOutputStream_delete (string_output_stream grow) out }"

text \<open>
  C14. A set of unknown fields, nested up to the recursion limit, written through a stream gives the same bytes as
  \<open>SerializeUnknownFieldsToArray\<close>, exactly as many as \<open>ComputeUnknownFieldsSize\<close> says, and parsing them gives the
  set back.
\<close>

theorem unknown_field_set_roundtrip:
  assumes "wires_ok (nat default_recursion_limit) fs" and "ComputeUnknownFieldsSize fs < kDefaultTotalBytesLimit"
  shows "\<exists>out. serialize_unknown_session grow fs \<lparr>ss_data = [], ss_capacity = c\<rparr> = Some out \<and>
    ss_data out = SerializeUnknownFieldsToArray fs \<and> int (length (ss_data out)) = ComputeUnknownFieldsSize fs \<and>
    UnknownFieldSet_ParseFromArray (ss_data out) (ComputeUnknownFieldsSize fs) old = Some (True, fs)"
proof -
  let ?i = "\<lparr>ss_data = [], ss_capacity = c\<rparr> :: std_string" and ?d = "wires_bytes fs" and ?zo = "string_output_stream grow"
  have len: "int (length ?d) < 67108864" using assms(2) by (simp add: ComputeUnknownFieldsSize_eq kDefaultTotalBytesLimit_def)
  have takes: "takes (\<lambda>_. True) ss_data string_stuck (length ?d)" and no: "\<not> string_stuck ?i"
    using len by (auto simp: takes_def string_stuck_def INT_MAX_def)
  obtain s where s: "CodedOutputStream ?zo ?i = Some s" "cw_at ?zo (\<lambda>_. True) ss_data (zo_ByteCount ?zo ?i) 0 [] s"
    using string_mem.CodedOutputStream_law [of ?i grow] no by auto
  obtain s' where s': "SerializeUnknownFields ?zo fs s = Some s'" "cw_at ?zo (\<lambda>_. True) ss_data (zo_ByteCount ?zo ?i) 0 ?d s'"
    using string_mem.SerializeUnknownFields_takes(2) [OF takes _ s(2), of fs] by (auto simp: wrote_def)
  obtain out where out: "CodedOutputStream_delete ?zo s' = Some out" "ss_data out = ?d"
    using string_mem.CodedOutputStream_delete_law [OF s'(2)] by blast
  have "UnknownFieldSet_ParseFromArray ?d (int (length ?d)) old = Some (True, fs)"
    using array_in.ParseFromZeroCopyStream_law [OF array_inv_new [of ?d "- 1"]] len parse_message_of_wires [OF assms(1)]
    by (simp add: UnknownFieldSet_ParseFromArray_def array_pending_new INT_MAX_def kDefaultTotalBytesLimit_def)
  then show ?thesis
    using s(1) s'(1) out by (simp add: serialize_unknown_session_def SerializeToArray_eq ComputeUnknownFieldsSize_eq)
qed

theorem unknown_field_set_roundtrip_witness:
  "\<exists>out. serialize_unknown_session (\<lambda>c n. n) [Wire_group 2 [Wire_varint 1 300], Wire_bytes 3 [104, 105]]
      \<lparr>ss_data = [], ss_capacity = 0\<rparr> = Some out \<and> length (ss_data out) = 9 \<and>
    UnknownFieldSet_ParseFromArray (ss_data out) 9 [] = Some (True, [Wire_group 2 [Wire_varint 1 300], Wire_bytes 3 [104, 105]])"
proof -
  let ?fs = "[Wire_group 2 [Wire_varint 1 300], Wire_bytes 3 [104, 105]]"
  have "ComputeUnknownFieldsSize ?fs = 9"
    by (simp add: ComputeUnknownFieldsSize_eq WireFormat_WriteTagToArray_def WriteTagToArray_eq MakeTag_def kTagTypeBits_def wire_types
        WriteVarint64ToArrayInline_eq WriteStringWithSizeToArray_def WriteVarint32ToArray_eq varint_bytes_less varint_bytes_ge
        del: ComputeUnknownFieldsSize.simps ComputeUnknownFieldSize.simps)
  then show ?thesis
    using unknown_field_set_roundtrip [of ?fs "\<lambda>c n. n" 0 "[]"]
    by (auto simp: number_valid_def default_recursion_limit_def kDefaultTotalBytesLimit_def
        simp del: ComputeUnknownFieldsSize.simps ComputeUnknownFieldSize.simps SerializeUnknownFieldsToArray.simps)
qed

text \<open>
  The loops over the vector of a set do what the operations promise: merging, with its deep copies,
  appends the other fields, \<open>DeleteSubrange\<close> takes exactly the range out and never accesses memory outside of the vector if
  the range is inside of it, and \<open>DeleteByNumber\<close> keeps exactly the other fields, in order.
\<close>

theorem unknown_field_set_operations:
  "UnknownFieldSet_MergeFrom other fs = fs @ other \<and>
   DeleteByNumber number fs = Some (filter (\<lambda>f. UnknownField_number f \<noteq> number) fs) \<and>
   DeleteSubrange start num fs = (if start + num \<le> length fs then Some (take start fs @ drop (start + num) fs) else None)"
proof (intro conjI)
  show "UnknownFieldSet_MergeFrom other fs = fs @ other" by (rule MergeFrom_append)
  show "DeleteByNumber number fs = Some (filter (\<lambda>f. UnknownField_number f \<noteq> number) fs)" by (rule DeleteByNumber_eq)
  show "DeleteSubrange start num fs = (if start + num \<le> length fs then Some (take start fs @ drop (start + num) fs) else None)"
    using DeleteSubrange_eq [of start num fs] by (simp add: DeleteSubrange_def)
qed

text \<open>
  The unknown items of a message set are written as groups of a type id and a message, with the size the size function
  gives; fields that are not length-delimited are left out.
\<close>

theorem message_set_items_are_groups:
  assumes "\<forall>f \<in> set fs. number_valid (UnknownField_number f)"
  shows "SerializeUnknownMessageSetItemsToArray fs = wires_bytes (message_set_items fs)"
    and "ComputeUnknownMessageSetItemsSize fs = ComputeUnknownFieldsSize (message_set_items fs)"
  using SerializeMessageSetToArray_eq [OF assms] by (simp_all add: ComputeMessageSetSize_eq ComputeUnknownFieldsSize_eq)

end
