(* ===== verification/MessageLite.thy ===== *)
theory MessageLite
  imports UnknownFields
begin

text \<open>
  Messages (message_lite.h, message_lite.cc): parsing from streams and arrays and serializing to them, on top of the virtual
  methods of a message, and the groups and embedded messages of wire_format_lite.h, _inl.h and .cc.

  The virtual methods are a record over the states of the message and of the streams below. A method gets the message and
  returns what it leaves of it; \<open>ByteSize\<close> is declared const, but it stores the size in the message. A failed
  \<open>GOOGLE_CHECK\<close> is \<open>None\<close>. Log messages are left out.
\<close>

section \<open>The virtual methods\<close>

record ('m, 's, 't) message_lite =
  ml_Clear :: "'m \<Rightarrow> 'm"
  ml_IsInitialized :: "'m \<Rightarrow> bool"
  ml_MergePartialFromCodedStream :: "'s coded_input \<Rightarrow> 'm \<Rightarrow> (bool \<times> 's coded_input \<times> 'm) option"
  ml_ByteSize :: "'m \<Rightarrow> int \<times> 'm"
  ml_GetCachedSize :: "'m \<Rightarrow> int"
  ml_SerializeWithCachedSizes :: "'m \<Rightarrow> 't coded_output \<Rightarrow> 't coded_output option"
  ml_SerializeWithCachedSizesToArray :: "'m \<Rightarrow> byte list option"

section \<open>Parsing\<close>

definition InlineMergeFromCodedStream ::
  "('m, 's, 't) message_lite \<Rightarrow> 's coded_input \<Rightarrow> 'm \<Rightarrow> (bool \<times> 's coded_input \<times> 'm) option" where
  "InlineMergeFromCodedStream M input message = do {
     (ok, input, message) \<leftarrow> ml_MergePartialFromCodedStream M input message;
     (if \<not> ok then Some (False, input, message)
      else if \<not> ml_IsInitialized M message then Some (False, input, message)
      else Some (True, input, message)) }"

definition InlineParseFromCodedStream ::
  "('m, 's, 't) message_lite \<Rightarrow> 's coded_input \<Rightarrow> 'm \<Rightarrow> (bool \<times> 's coded_input \<times> 'm) option" where
  "InlineParseFromCodedStream M input message = InlineMergeFromCodedStream M input (ml_Clear M message)"

definition InlineParsePartialFromCodedStream ::
  "('m, 's, 't) message_lite \<Rightarrow> 's coded_input \<Rightarrow> 'm \<Rightarrow> (bool \<times> 's coded_input \<times> 'm) option" where
  "InlineParsePartialFromCodedStream M input message = ml_MergePartialFromCodedStream M input (ml_Clear M message)"

definition InlineParseFromArray :: "('m, 's, 't) message_lite \<Rightarrow> byte list \<Rightarrow> int \<Rightarrow> 'm \<Rightarrow> (bool \<times> 'm) option" where
  "InlineParseFromArray M data n message = do {
     (ok, input, message) \<leftarrow> InlineParseFromCodedStream M (CodedInputStream_flat data n) message;
     Some (ok \<and> ConsumedEntireMessage input, message) }"

definition InlineParsePartialFromArray :: "('m, 's, 't) message_lite \<Rightarrow> byte list \<Rightarrow> int \<Rightarrow> 'm \<Rightarrow> (bool \<times> 'm) option" where
  "InlineParsePartialFromArray M data n message = do {
     (ok, input, message) \<leftarrow> InlineParsePartialFromCodedStream M (CodedInputStream_flat data n) message;
     Some (ok \<and> ConsumedEntireMessage input, message) }"

definition MergeFromCodedStream ::
  "('m, 's, 't) message_lite \<Rightarrow> 's coded_input \<Rightarrow> 'm \<Rightarrow> (bool \<times> 's coded_input \<times> 'm) option" where
  "MergeFromCodedStream M input message = InlineMergeFromCodedStream M input message"

definition ParseFromCodedStream ::
  "('m, 's, 't) message_lite \<Rightarrow> 's coded_input \<Rightarrow> 'm \<Rightarrow> (bool \<times> 's coded_input \<times> 'm) option" where
  "ParseFromCodedStream M input message = InlineParseFromCodedStream M input message"

definition ParsePartialFromCodedStream ::
  "('m, 's, 't) message_lite \<Rightarrow> 's coded_input \<Rightarrow> 'm \<Rightarrow> (bool \<times> 's coded_input \<times> 'm) option" where
  "ParsePartialFromCodedStream M input message = InlineParsePartialFromCodedStream M input message"

text \<open>The result is the verdict and the message; what the destructor of the decoder leaves of the stream is not part of it.\<close>

definition ParseFromZeroCopyStream ::
  "('m, 's, 't) message_lite \<Rightarrow> 's zero_copy_input \<Rightarrow> 's \<Rightarrow> 'm \<Rightarrow> (bool \<times> 'm) option" where
  "ParseFromZeroCopyStream M zs input message = do {
     decoder \<leftarrow> CodedInputStream zs input;
     (ok, decoder, message) \<leftarrow> ParseFromCodedStream M decoder message;
     Some (ok \<and> ConsumedEntireMessage decoder, message) }"

definition ParsePartialFromZeroCopyStream ::
  "('m, 's, 't) message_lite \<Rightarrow> 's zero_copy_input \<Rightarrow> 's \<Rightarrow> 'm \<Rightarrow> (bool \<times> 'm) option" where
  "ParsePartialFromZeroCopyStream M zs input message = do {
     decoder \<leftarrow> CodedInputStream zs input;
     (ok, decoder, message) \<leftarrow> ParsePartialFromCodedStream M decoder message;
     Some (ok \<and> ConsumedEntireMessage decoder, message) }"

definition ParseFromBoundedZeroCopyStream ::
  "('m, 's, 't) message_lite \<Rightarrow> 's zero_copy_input \<Rightarrow> 's \<Rightarrow> int \<Rightarrow> 'm \<Rightarrow> (bool \<times> 'm) option" where
  "ParseFromBoundedZeroCopyStream M zs input n message = do {
     decoder \<leftarrow> CodedInputStream zs input;
     let (_, decoder) = PushLimit n decoder in do {
     (ok, decoder, message) \<leftarrow> ParseFromCodedStream M decoder message;
     Some (ok \<and> ConsumedEntireMessage decoder \<and> BytesUntilLimit decoder = 0, message) } }"

definition ParsePartialFromBoundedZeroCopyStream ::
  "('m, 's, 't) message_lite \<Rightarrow> 's zero_copy_input \<Rightarrow> 's \<Rightarrow> int \<Rightarrow> 'm \<Rightarrow> (bool \<times> 'm) option" where
  "ParsePartialFromBoundedZeroCopyStream M zs input n message = do {
     decoder \<leftarrow> CodedInputStream zs input;
     let (_, decoder) = PushLimit n decoder in do {
     (ok, decoder, message) \<leftarrow> ParsePartialFromCodedStream M decoder message;
     Some (ok \<and> ConsumedEntireMessage decoder \<and> BytesUntilLimit decoder = 0, message) } }"

definition ParseFromString :: "('m, 's, 't) message_lite \<Rightarrow> byte list \<Rightarrow> 'm \<Rightarrow> (bool \<times> 'm) option" where
  "ParseFromString M data message = InlineParseFromArray M data (int (length data)) message"

definition ParsePartialFromString :: "('m, 's, 't) message_lite \<Rightarrow> byte list \<Rightarrow> 'm \<Rightarrow> (bool \<times> 'm) option" where
  "ParsePartialFromString M data message = InlineParsePartialFromArray M data (int (length data)) message"

definition ParseFromArray :: "('m, 's, 't) message_lite \<Rightarrow> byte list \<Rightarrow> int \<Rightarrow> 'm \<Rightarrow> (bool \<times> 'm) option" where
  "ParseFromArray M data n message = InlineParseFromArray M data n message"

definition ParsePartialFromArray :: "('m, 's, 't) message_lite \<Rightarrow> byte list \<Rightarrow> int \<Rightarrow> 'm \<Rightarrow> (bool \<times> 'm) option" where
  "ParsePartialFromArray M data n message = InlineParsePartialFromArray M data n message"

section \<open>Serializing\<close>

text \<open>
  The default of the array version, for classes that do not have their own: it writes through a stream over the memory
  behind \<open>target\<close>, whose new content is the result.
\<close>

definition MessageLite_SerializeWithCachedSizesToArray ::
  "('m \<Rightarrow> int) \<Rightarrow> ('m \<Rightarrow> array_output coded_output \<Rightarrow> array_output coded_output option) \<Rightarrow> byte list \<Rightarrow> 'm \<Rightarrow> byte list option" where
  "MessageLite_SerializeWithCachedSizesToArray get_cached_size serialize target message = do {
     coded_out \<leftarrow> CodedOutputStream array_output_stream (ArrayOutputStream target (get_cached_size message) (- 1));
     coded_out \<leftarrow> serialize message coded_out;
     (if HadError coded_out then None
      else do {
        out \<leftarrow> CodedOutputStream_delete array_output_stream coded_out;
        Some (ao_data out) }) }"

text \<open>The bytes go where the pointer points; nothing is stored when there are none.\<close>

definition store_array :: "'t zero_copy_output \<Rightarrow> nat option \<Rightarrow> byte list \<Rightarrow> 't coded_output \<Rightarrow> 't coded_output option" where
  "store_array zo target bs s =
     (if bs = [] then Some s
      else do {
        p \<leftarrow> target;
        out \<leftarrow> zo_store zo p bs (cw_output s);
        Some (s\<lparr>cw_output := out\<rparr>) })"

definition SerializePartialToCodedStream ::
  "('m, 's, 't) message_lite \<Rightarrow> 't zero_copy_output \<Rightarrow> 'm \<Rightarrow> 't coded_output \<Rightarrow> (bool \<times> 'm \<times> 't coded_output) option" where
  "SerializePartialToCodedStream M zo message output =
     (case ml_ByteSize M message of (n, message) \<Rightarrow>
        (case GetDirectBufferForNBytesAndAdvance n output of (buffer, output) \<Rightarrow>
           if buffer \<noteq> None then do {
             bs \<leftarrow> ml_SerializeWithCachedSizesToArray M message;
             output \<leftarrow> store_array zo buffer bs output;
             (if int (length bs) \<noteq> n then None else Some (True, message, output)) }
           else
             let original_byte_count = CodedOutputStream_ByteCount output in do {
             output \<leftarrow> ml_SerializeWithCachedSizes M message output;
             (if HadError output then Some (False, message, output)
              else if CodedOutputStream_ByteCount output - original_byte_count \<noteq> n then None
              else Some (True, message, output)) }))"

definition SerializeToCodedStream ::
  "('m, 's, 't) message_lite \<Rightarrow> 't zero_copy_output \<Rightarrow> 'm \<Rightarrow> 't coded_output \<Rightarrow> (bool \<times> 'm \<times> 't coded_output) option" where
  "SerializeToCodedStream M zo message output = SerializePartialToCodedStream M zo message output"

definition SerializeToZeroCopyStream ::
  "('m, 's, 't) message_lite \<Rightarrow> 't zero_copy_output \<Rightarrow> 'm \<Rightarrow> 't \<Rightarrow> (bool \<times> 'm \<times> 't) option" where
  "SerializeToZeroCopyStream M zo message output = do {
     encoder \<leftarrow> CodedOutputStream zo output;
     (ok, message, encoder) \<leftarrow> SerializeToCodedStream M zo message encoder;
     output \<leftarrow> CodedOutputStream_delete zo encoder;
     Some (ok, message, output) }"

definition SerializePartialToZeroCopyStream ::
  "('m, 's, 't) message_lite \<Rightarrow> 't zero_copy_output \<Rightarrow> 'm \<Rightarrow> 't \<Rightarrow> (bool \<times> 'm \<times> 't) option" where
  "SerializePartialToZeroCopyStream M zo message output = do {
     encoder \<leftarrow> CodedOutputStream zo output;
     (ok, message, encoder) \<leftarrow> SerializePartialToCodedStream M zo message encoder;
     output \<leftarrow> CodedOutputStream_delete zo encoder;
     Some (ok, message, output) }"

text \<open>The string grows by the announced size first; what is in the new part before the message is stored does not matter.\<close>

definition AppendPartialToString :: "('m, 's, 't) message_lite \<Rightarrow> 'm \<Rightarrow> byte list \<Rightarrow> (bool \<times> 'm \<times> byte list) option" where
  "AppendPartialToString M message output =
     (let old_size = length output in
      case ml_ByteSize M message of (byte_size, message) \<Rightarrow> do {
        bs \<leftarrow> ml_SerializeWithCachedSizesToArray M message;
        output \<leftarrow> mem_write old_size bs (output @ replicate (nat byte_size) 0);
        (if int (length bs) \<noteq> byte_size then None else Some (True, message, output)) })"

definition AppendToString :: "('m, 's, 't) message_lite \<Rightarrow> 'm \<Rightarrow> byte list \<Rightarrow> (bool \<times> 'm \<times> byte list) option" where
  "AppendToString M message output = AppendPartialToString M message output"

definition SerializeToString :: "('m, 's, 't) message_lite \<Rightarrow> 'm \<Rightarrow> byte list \<Rightarrow> (bool \<times> 'm \<times> byte list) option" where
  "SerializeToString M message output = AppendToString M message []"

definition SerializePartialToString :: "('m, 's, 't) message_lite \<Rightarrow> 'm \<Rightarrow> byte list \<Rightarrow> (bool \<times> 'm \<times> byte list) option" where
  "SerializePartialToString M message output = AppendPartialToString M message []"

definition SerializePartialToArray :: "('m, 's, 't) message_lite \<Rightarrow> 'm \<Rightarrow> byte list \<Rightarrow> int \<Rightarrow> (bool \<times> 'm \<times> byte list) option" where
  "SerializePartialToArray M message data n =
     (case ml_ByteSize M message of (byte_size, message) \<Rightarrow>
        if n < byte_size then Some (False, message, data)
        else do {
          bs \<leftarrow> ml_SerializeWithCachedSizesToArray M message;
          data \<leftarrow> mem_write 0 bs data;
          (if int (length bs) \<noteq> byte_size then None else Some (True, message, data)) })"

definition SerializeToArray :: "('m, 's, 't) message_lite \<Rightarrow> 'm \<Rightarrow> byte list \<Rightarrow> int \<Rightarrow> (bool \<times> 'm \<times> byte list) option" where
  "SerializeToArray M message data n = SerializePartialToArray M message data n"

definition SerializeAsString :: "('m, 's, 't) message_lite \<Rightarrow> 'm \<Rightarrow> ('m \<times> byte list) option" where
  "SerializeAsString M message = do {
     (ok, message, output) \<leftarrow> AppendToString M message [];
     Some (message, if \<not> ok then [] else output) }"

definition SerializePartialAsString :: "('m, 's, 't) message_lite \<Rightarrow> 'm \<Rightarrow> ('m \<times> byte list) option" where
  "SerializePartialAsString M message = do {
     (ok, message, output) \<leftarrow> AppendPartialToString M message [];
     Some (message, if \<not> ok then [] else output) }"

section \<open>Groups and embedded messages\<close>

definition ReadGroup ::
  "('m, 's, 't) message_lite \<Rightarrow> int \<Rightarrow> 's coded_input \<Rightarrow> 'm \<Rightarrow> (bool \<times> 's coded_input \<times> 'm) option" where
  "ReadGroup M number input v =
     (case IncrementRecursionDepth input of (ok, input) \<Rightarrow>
        if \<not> ok then Some (False, input, v)
        else do {
          (ok, input, v) \<leftarrow> ml_MergePartialFromCodedStream M input v;
          (if \<not> ok then Some (False, input, v)
           else let input = DecrementRecursionDepth input in
             Some (LastTagWas (MakeTag number WIRETYPE_END_GROUP) input, input, v)) })"

text \<open>A length from \<open>2 ^ 31\<close> on becomes a negative limit.\<close>

definition ReadMessage ::
  "('m, 's, 't) message_lite \<Rightarrow> 's zero_copy_input \<Rightarrow> 's coded_input \<Rightarrow> 'm \<Rightarrow> (bool \<times> 's coded_input \<times> 'm) option" where
  "ReadMessage M zs input v = do {
     (len, input) \<leftarrow> ReadVarint32 zs input;
     (case len of
        None \<Rightarrow> Some (False, input, v)
      | Some len \<Rightarrow>
          (case IncrementRecursionDepth input of (ok, input) \<Rightarrow>
             if \<not> ok then Some (False, input, v)
             else let (limit, input) = PushLimit (sint len) input in do {
               (ok, input, v) \<leftarrow> ml_MergePartialFromCodedStream M input v;
               (if \<not> ok then Some (False, input, v)
                else if \<not> ConsumedEntireMessage input then Some (False, input, v)
                else Some (True, DecrementRecursionDepth (PopLimit limit input), v)) })) }"

definition WriteGroup :: "('m, 's, 't) message_lite \<Rightarrow> int \<Rightarrow> 'm \<Rightarrow> 't zero_copy_output \<Rightarrow> 't coded_output \<Rightarrow> 't coded_output option" where
  "WriteGroup M number v zo output = do {
     output \<leftarrow> WireFormat_WriteTag number WIRETYPE_START_GROUP zo output;
     output \<leftarrow> ml_SerializeWithCachedSizes M v output;
     WireFormat_WriteTag number WIRETYPE_END_GROUP zo output }"

definition WriteMessage :: "('m, 's, 't) message_lite \<Rightarrow> int \<Rightarrow> 'm \<Rightarrow> 't zero_copy_output \<Rightarrow> 't coded_output \<Rightarrow> 't coded_output option" where
  "WriteMessage M number v zo output = do {
     output \<leftarrow> WireFormat_WriteTag number WIRETYPE_LENGTH_DELIMITED zo output;
     output \<leftarrow> WriteVarint32 zo (word_of_int (ml_GetCachedSize M v)) output;
     ml_SerializeWithCachedSizes M v output }"

text \<open>The versions that use the memory of the stream when all of the message fits.\<close>

definition serialize_maybe_to_array ::
  "('m, 's, 't) message_lite \<Rightarrow> int \<Rightarrow> 'm \<Rightarrow> 't zero_copy_output \<Rightarrow> 't coded_output \<Rightarrow> 't coded_output option" where
  "serialize_maybe_to_array M n v zo output =
     (case GetDirectBufferForNBytesAndAdvance n output of (target, output) \<Rightarrow>
        if target \<noteq> None then do {
          bs \<leftarrow> ml_SerializeWithCachedSizesToArray M v;
          store_array zo target bs output }
        else ml_SerializeWithCachedSizes M v output)"

definition WriteGroupMaybeToArray ::
  "('m, 's, 't) message_lite \<Rightarrow> int \<Rightarrow> 'm \<Rightarrow> 't zero_copy_output \<Rightarrow> 't coded_output \<Rightarrow> 't coded_output option" where
  "WriteGroupMaybeToArray M number v zo output = do {
     output \<leftarrow> WireFormat_WriteTag number WIRETYPE_START_GROUP zo output;
     output \<leftarrow> serialize_maybe_to_array M (ml_GetCachedSize M v) v zo output;
     WireFormat_WriteTag number WIRETYPE_END_GROUP zo output }"

definition WriteMessageMaybeToArray ::
  "('m, 's, 't) message_lite \<Rightarrow> int \<Rightarrow> 'm \<Rightarrow> 't zero_copy_output \<Rightarrow> 't coded_output \<Rightarrow> 't coded_output option" where
  "WriteMessageMaybeToArray M number v zo output = do {
     output \<leftarrow> WireFormat_WriteTag number WIRETYPE_LENGTH_DELIMITED zo output;
     let n = ml_GetCachedSize M v in do {
     output \<leftarrow> WriteVarint32 zo (word_of_int n) output;
     serialize_maybe_to_array M n v zo output } }"

definition WriteGroupToArray :: "('m, 's, 't) message_lite \<Rightarrow> int \<Rightarrow> 'm \<Rightarrow> byte list option" where
  "WriteGroupToArray M number v = do {
     bs \<leftarrow> ml_SerializeWithCachedSizesToArray M v;
     Some (WireFormat_WriteTagToArray number WIRETYPE_START_GROUP @ bs @
       WireFormat_WriteTagToArray number WIRETYPE_END_GROUP) }"

definition WriteMessageToArray :: "('m, 's, 't) message_lite \<Rightarrow> int \<Rightarrow> 'm \<Rightarrow> byte list option" where
  "WriteMessageToArray M number v = do {
     bs \<leftarrow> ml_SerializeWithCachedSizesToArray M v;
     Some (WireFormat_WriteTagToArray number WIRETYPE_LENGTH_DELIMITED @
       WriteVarint32ToArray (word_of_int (ml_GetCachedSize M v)) @ bs) }"

definition GroupSize :: "('m, 's, 't) message_lite \<Rightarrow> 'm \<Rightarrow> int \<times> 'm" where
  "GroupSize M v = ml_ByteSize M v"

definition MessageSize :: "('m, 's, 't) message_lite \<Rightarrow> 'm \<Rightarrow> int \<times> 'm" where
  "MessageSize M v = (case ml_ByteSize M v of (n, v) \<Rightarrow> (LengthDelimitedSize n, v))"

section \<open>The contract of a parser\<close>

text \<open>
  Where a parser stops: at the end of the visible bytes, behind a zero tag or an end-group tag with the number of bytes
  before it and its own, or at a malformed tag.
\<close>

datatype message_end = At_end | At_tag uint32 nat | At_bad_tag

definition stopped ::
  "('s \<Rightarrow> bool) \<Rightarrow> ('s \<Rightarrow> byte list) \<Rightarrow> ('s \<Rightarrow> byte list) \<Rightarrow> 's coded_input \<Rightarrow> message_end \<Rightarrow> 's coded_input \<Rightarrow> bool" where
  "stopped good pending last_block s e s' \<longleftrightarrow> (case e of
     At_end \<Rightarrow> LastTagWas 0 s' \<and> cd_moved good pending last_block (length (cd_visible pending s)) s s' \<and>
       (ConsumedEntireMessage s \<or> (if end_is_legitimate (length (cd_visible pending s)) s then ConsumedEntireMessage s' else True))
   | At_tag t k \<Rightarrow> LastTagWas t s' \<and> cd_moved good pending last_block k s s' \<and> ConsumedEntireMessage s' = ConsumedEntireMessage s
   | At_bad_tag \<Rightarrow> LastTagWas 0 s' \<and> (\<exists>k. cd_moved good pending last_block k s s') \<and> ConsumedEntireMessage s' = ConsumedEntireMessage s)"

lemma stopped_simps [simp]:
  "stopped good pending last_block s At_end s' \<longleftrightarrow>
     LastTagWas 0 s' \<and> cd_moved good pending last_block (length (cd_visible pending s)) s s' \<and>
     (ConsumedEntireMessage s \<or> (if end_is_legitimate (length (cd_visible pending s)) s then ConsumedEntireMessage s' else True))"
  "stopped good pending last_block s (At_tag t k) s' \<longleftrightarrow>
     LastTagWas t s' \<and> cd_moved good pending last_block k s s' \<and> ConsumedEntireMessage s' = ConsumedEntireMessage s"
  "stopped good pending last_block s At_bad_tag s' \<longleftrightarrow>
     LastTagWas 0 s' \<and> (\<exists>k. cd_moved good pending last_block k s s') \<and> ConsumedEntireMessage s' = ConsumedEntireMessage s"
  by (simp_all add: stopped_def)

definition merged ::
  "('s \<Rightarrow> bool) \<Rightarrow> ('s \<Rightarrow> byte list) \<Rightarrow> ('s \<Rightarrow> byte list) \<Rightarrow> 's coded_input \<Rightarrow> ('m \<times> message_end) option \<Rightarrow>
     (bool \<times> 's coded_input \<times> 'm) option \<Rightarrow> bool" where
  "merged good pending last_block s spec r \<longleftrightarrow> (case spec of
     None \<Rightarrow> \<exists>s' m'. r = Some (False, s', m')
   | Some (m', e) \<Rightarrow> \<exists>s'. r = Some (True, s', m') \<and> stopped good pending last_block s e s')"

lemma merged_simps [simp]:
  "merged good pending last_block s None r \<longleftrightarrow> (\<exists>s' m'. r = Some (False, s', m'))"
  "merged good pending last_block s (Some (m', e)) r \<longleftrightarrow> (\<exists>s'. r = Some (True, s', m') \<and> stopped good pending last_block s e s')"
  by (simp_all add: merged_def)

text \<open>What a client of a whole message gets: the message must end where its bytes end.\<close>

definition parsed :: "('m \<Rightarrow> bool) \<Rightarrow> ('m \<times> message_end) option \<Rightarrow> (bool \<times> 'm) option \<Rightarrow> bool" where
  "parsed complete spec r \<longleftrightarrow> (\<exists>ok m'. r = Some (ok, m') \<and>
     (case spec of Some (m1, At_end) \<Rightarrow> m' = m1 \<and> ok = complete m1 | _ \<Rightarrow> \<not> ok))"

text \<open>
  A parser that keeps the contract does to the message what \<open>parse\<close> says, a function of the depth that is left, the
  visible bytes and the message.
\<close>

locale message_reader = input_contract zs good pending last_block
  for zs :: "'s zero_copy_input" and good :: "'s \<Rightarrow> bool" and pending :: "'s \<Rightarrow> byte list" and last_block :: "'s \<Rightarrow> byte list" +
  fixes M :: "('m, 's, 't) message_lite"
    and parse :: "nat \<Rightarrow> byte list \<Rightarrow> 'm \<Rightarrow> ('m \<times> message_end) option"
  assumes merge_law: "cd_inv good pending last_block s \<Longrightarrow> 0 \<le> cd_recursion_depth s \<Longrightarrow>
    merged good pending last_block s (parse (depth_left s) (cd_visible pending s) m) (ml_MergePartialFromCodedStream M s m)"
begin

lemma whole_message:
  assumes "cd_inv good pending last_block s" and "0 \<le> cd_recursion_depth s" and "\<not> ConsumedEntireMessage s"
    and "end_is_legitimate (length (cd_visible pending s)) s"
  shows "parsed (\<lambda>_. True) (parse (depth_left s) (cd_visible pending s) m)
      (ml_MergePartialFromCodedStream M s m \<bind> (\<lambda>(ok, s, m). Some (ok \<and> ConsumedEntireMessage s, m)))"
    and "parsed (ml_IsInitialized M) (parse (depth_left s) (cd_visible pending s) m)
      (InlineMergeFromCodedStream M s m \<bind> (\<lambda>(ok, s, m). Some (ok \<and> ConsumedEntireMessage s, m)))"
proof -
  have "parsed (\<lambda>_. True) (parse (depth_left s) (cd_visible pending s) m)
      (ml_MergePartialFromCodedStream M s m \<bind> (\<lambda>(ok, s, m). Some (ok \<and> ConsumedEntireMessage s, m))) \<and>
    parsed (ml_IsInitialized M) (parse (depth_left s) (cd_visible pending s) m)
      (InlineMergeFromCodedStream M s m \<bind> (\<lambda>(ok, s, m). Some (ok \<and> ConsumedEntireMessage s, m)))"
  proof (cases "parse (depth_left s) (cd_visible pending s) m")
    case None
    then show ?thesis using merge_law [OF assms(1,2), of m] by (auto simp: parsed_def InlineMergeFromCodedStream_def)
  next
    case (Some r)
    obtain m' e where r: "r = (m', e)" by (cases r)
    obtain s' where "ml_MergePartialFromCodedStream M s m = Some (True, s', m')" "stopped good pending last_block s e s'"
      using merge_law [OF assms(1,2), of m] Some r by auto
    then show ?thesis using Some r assms(3,4) by (cases e) (auto simp: parsed_def InlineMergeFromCodedStream_def)
  qed
  then show "parsed (\<lambda>_. True) (parse (depth_left s) (cd_visible pending s) m)
      (ml_MergePartialFromCodedStream M s m \<bind> (\<lambda>(ok, s, m). Some (ok \<and> ConsumedEntireMessage s, m)))"
    and "parsed (ml_IsInitialized M) (parse (depth_left s) (cd_visible pending s) m)
      (InlineMergeFromCodedStream M s m \<bind> (\<lambda>(ok, s, m). Some (ok \<and> ConsumedEntireMessage s, m)))" by blast+
qed

lemma flat_reader_law:
  assumes "int (length bs) \<le> kDefaultTotalBytesLimit"
  shows "cd_inv good pending last_block (CodedInputStream_flat bs (int (length bs)))"
    and "cd_visible pending (CodedInputStream_flat bs (int (length bs))) = bs"
    and "0 \<le> cd_recursion_depth (CodedInputStream_flat bs (int (length bs)) :: 's coded_input)"
    and "depth_left (CodedInputStream_flat bs (int (length bs)) :: 's coded_input) = nat default_recursion_limit"
    and "\<not> ConsumedEntireMessage (CodedInputStream_flat bs (int (length bs)) :: 's coded_input)"
    and "end_is_legitimate (length bs) (CodedInputStream_flat bs (int (length bs)) :: 's coded_input)"
  using assms by (auto simp: cd_inv_def cd_visible_def cd_rest_def cd_pending_def CodedInputStream_flat_def CurrentPosition_def
      closest_limit_def kDefaultTotalBytesLimit_def INT_MAX_def depth_left_def ConsumedEntireMessage_def end_is_legitimate_def)

lemma ParseFromString_law:
  assumes "int (length data) \<le> kDefaultTotalBytesLimit"
  shows "parsed (ml_IsInitialized M) (parse (nat default_recursion_limit) data (ml_Clear M m)) (ParseFromString M data m)"
    and "parsed (\<lambda>_. True) (parse (nat default_recursion_limit) data (ml_Clear M m)) (ParsePartialFromString M data m)"
proof -
  note r = flat_reader_law [OF assms]
  note w = whole_message [OF r(1,3,5), unfolded r(2,4), OF r(6)]
  show "parsed (ml_IsInitialized M) (parse (nat default_recursion_limit) data (ml_Clear M m)) (ParseFromString M data m)"
    using w(2) [of "ml_Clear M m"] by (simp add: ParseFromString_def InlineParseFromArray_def InlineParseFromCodedStream_def)
  show "parsed (\<lambda>_. True) (parse (nat default_recursion_limit) data (ml_Clear M m)) (ParsePartialFromString M data m)"
    using w(1) [of "ml_Clear M m"] by (simp add: ParsePartialFromString_def InlineParsePartialFromArray_def InlineParsePartialFromCodedStream_def)
qed

lemma ParseFromZeroCopyStream_law:
  assumes "good i" and "int (length (pending i)) < kDefaultTotalBytesLimit"
  shows "parsed (ml_IsInitialized M) (parse (nat default_recursion_limit) (pending i) (ml_Clear M m)) (ParseFromZeroCopyStream M zs i m)"
    and "parsed (\<lambda>_. True) (parse (nat default_recursion_limit) (pending i) (ml_Clear M m)) (ParsePartialFromZeroCopyStream M zs i m)"
proof -
  have le: "int (length (pending i)) \<le> INT_MAX" using assms(2) by (simp add: INT_MAX_def kDefaultTotalBytesLimit_def)
  obtain s where s: "CodedInputStream zs i = Some s" "cd_inv good pending last_block s" "CurrentPosition s = 0"
    "cd_visible pending s = take (nat kDefaultTotalBytesLimit) (pending i)"
    "cd_frame s = (INT_MAX, kDefaultTotalBytesLimit, 0, default_recursion_limit, False)" "\<not> cd_legitimate_message_end s"
    using CodedInputStream_law [OF assms(1) le] by blast
  have v: "cd_visible pending s = pending i" using s(4) assms(2) by (simp add: kDefaultTotalBytesLimit_def)
  have d: "depth_left s = nat default_recursion_limit" "0 \<le> cd_recursion_depth s" "\<not> ConsumedEntireMessage s"
    and e: "end_is_legitimate (length (pending i)) s"
    using s(3,5,6) assms(2) by (simp_all add: cd_frame_def depth_left_def end_is_legitimate_def ConsumedEntireMessage_def)
  note w = whole_message [OF s(2) d(2,3), unfolded v d(1), OF e]
  show "parsed (ml_IsInitialized M) (parse (nat default_recursion_limit) (pending i) (ml_Clear M m)) (ParseFromZeroCopyStream M zs i m)"
    using w(2) [of "ml_Clear M m"] s(1) by (simp add: ParseFromZeroCopyStream_def ParseFromCodedStream_def InlineParseFromCodedStream_def)
  show "parsed (\<lambda>_. True) (parse (nat default_recursion_limit) (pending i) (ml_Clear M m)) (ParsePartialFromZeroCopyStream M zs i m)"
    using w(1) [of "ml_Clear M m"] s(1)
    by (simp add: ParsePartialFromZeroCopyStream_def ParsePartialFromCodedStream_def InlineParsePartialFromCodedStream_def)
qed

end

subsection \<open>Groups and embedded messages\<close>

lemma PushLimit_end: "cd_legitimate_message_end (snd (PushLimit n s)) = cd_legitimate_message_end s"
  by (simp add: PushLimit_def Let_def RecomputeBufferLimits_def)

text \<open>A limit whose size comes from the data: from \<open>2 ^ 31\<close> on it is no limit.\<close>

lemma PushLimit_length:
  assumes "cd_inv good pending last_block s"
  obtains s' where "PushLimit (sint (v :: uint32)) s = (cd_current_limit s, s')" "cd_inv good pending last_block s'"
    "cd_rest pending s' = cd_rest pending s" "CurrentPosition s' = CurrentPosition s"
    "cd_visible pending s' = take (unat v) (cd_visible pending s)"
    "cd_total_bytes_limit s' = cd_total_bytes_limit s" "snd (snd (cd_frame s')) = snd (snd (cd_frame s))"
    "cd_legitimate_message_end s' = cd_legitimate_message_end s"
proof -
  note l = PushLimit_end [where s = s]
  show ?thesis
  proof (cases "int (unat v) \<le> INT_MAX")
    case True
    obtain s' where s': "PushLimit (int (unat v)) s = (cd_current_limit s, s')" "cd_inv good pending last_block s'"
      "cd_rest pending s' = cd_rest pending s" "CurrentPosition s' = CurrentPosition s"
      "cd_visible pending s' = take (nat (int (unat v))) (cd_visible pending s)"
      "cd_total_bytes_limit s' = cd_total_bytes_limit s" "snd (snd (cd_frame s')) = snd (snd (cd_frame s))"
      using PushLimit_law [OF assms, of "int (unat v)"] by (metis of_nat_0_le_iff)
    show ?thesis
      by (rule that [of s']) (use s' True l [of "int (unat v)"] in \<open>simp_all add: sint_of_len\<close>)
  next
    case False
    then have neg: "sint v < 0" using sint_big [of v] by simp
    have pos: "0 \<le> CurrentPosition s" "cd_current_limit s \<le> INT_MAX" "0 \<le> INT_MAX" using assms by (simp_all add: cd_inv_def INT_MAX_def)
    have e: "PushLimit (sint v) s = PushLimit INT_MAX s" using neg pos by (auto simp: PushLimit_def Let_def INT_MAX_def)
    obtain s' where s': "PushLimit INT_MAX s = (cd_current_limit s, s')" "cd_inv good pending last_block s'"
      "cd_rest pending s' = cd_rest pending s" "CurrentPosition s' = CurrentPosition s"
      "cd_visible pending s' = take (nat INT_MAX) (cd_visible pending s)"
      "cd_total_bytes_limit s' = cd_total_bytes_limit s" "snd (snd (cd_frame s')) = snd (snd (cd_frame s))"
      using PushLimit_law [OF assms pos(3)] by metis
    have "length (cd_visible pending s) \<le> nat INT_MAX" "length (cd_visible pending s) \<le> unat v"
      using visible_le [OF assms] False by linarith+
    then show ?thesis
      by (intro that [of s']) (use s' l [of INT_MAX] in \<open>simp_all add: e\<close>)
  qed
qed

text \<open>Reading inside of a limit and popping it.\<close>

lemma limited_moved:
  assumes "cd_inv good pending last_block s" and "cd_moved good pending last_block k s1 s2" and "k \<le> length (cd_visible pending s)"
    and "cd_rest pending s1 = cd_rest pending s" and "CurrentPosition s1 = CurrentPosition s"
    and "cd_total_bytes_limit s1 = cd_total_bytes_limit s" and "snd (snd (cd_frame s1)) = snd (snd (cd_frame s))"
  shows "cd_moved good pending last_block k s (PopLimit (cd_current_limit s) s2)"
proof -
  have s2: "cd_inv good pending last_block s2" "cd_rest pending s2 = drop k (cd_rest pending s)"
    "CurrentPosition s2 = CurrentPosition s + int k" "cd_frame s2 = cd_frame s1"
    using assms(2,4,5) by (simp_all add: cd_moved_def)
  have t: "cd_total_bytes_limit s2 = cd_total_bytes_limit s" "(cd_input s2 = None) = (cd_input s = None)"
    "snd (cd_frame s2) = snd (cd_frame s)"
    using s2(4) assms(6,7) by (simp_all add: cd_frame_def)
  have v: "int (length (cd_visible pending s)) \<le> closest_limit s - CurrentPosition s"
    using assms(1) by (auto simp: cd_visible_def cd_inv_def)
  have le: "CurrentPosition s2 \<le> cd_current_limit s" "cd_current_limit s \<le> INT_MAX"
    using s2(3) v assms(1,3) by (auto simp: closest_limit_def cd_inv_def)
  have read: "cd_total_bytes_read x = CurrentPosition x + int (length (cd_bytes x))" if "cd_inv good pending last_block x" for x
    using that by (simp add: cd_inv_def CurrentPosition_def)
  have rest: "k \<le> length (cd_rest pending s)" using assms(3) by (simp add: cd_visible_def)
  have n: "cd_input s2 = None \<longrightarrow> cd_current_limit s \<le> cd_total_bytes_read s2"
  proof
    assume "cd_input s2 = None"
    then have "cd_rest pending s = cd_bytes s" "cd_rest pending s2 = cd_bytes s2" "cd_current_limit s \<le> cd_total_bytes_read s"
      using t(2) assms(1) by (simp_all add: cd_rest_def cd_pending_def cd_inv_def)
    moreover from this have "int (length (cd_bytes s2)) = int (length (cd_bytes s)) - int k"
      using s2(2) rest by (metis length_drop of_nat_diff)
    ultimately show "cd_current_limit s \<le> cd_total_bytes_read s2"
      using read [OF assms(1)] read [OF s2(1)] s2(3) by linarith
  qed
  note pop = PopLimit_law [OF s2(1) le n]
  have "nat (closest_limit s - CurrentPosition s) - k = nat (min (cd_current_limit s) (cd_total_bytes_limit s2) - CurrentPosition s2)"
    using s2(3) t(1) by (simp add: closest_limit_def)
  then have v: "cd_visible pending (PopLimit (cd_current_limit s) s2) = drop k (cd_visible pending s)"
    unfolding pop(4) s2(2) by (simp add: cd_visible_def drop_take)
  have "cd_frame (PopLimit (cd_current_limit s) s2) = cd_frame s"
    unfolding pop(5) t(3) by (simp add: cd_frame_def)
  then show ?thesis using pop(1-3) s2(2,3) v by (simp add: cd_moved_def)
qed

text \<open>One field that holds a message against its specification: the message, and the number of bytes it takes.\<close>

definition read_field ::
  "('s \<Rightarrow> bool) \<Rightarrow> ('s \<Rightarrow> byte list) \<Rightarrow> ('s \<Rightarrow> byte list) \<Rightarrow> 's coded_input \<Rightarrow> ('m \<times> nat) option \<Rightarrow>
     (bool \<times> 's coded_input \<times> 'm) option \<Rightarrow> bool" where
  "read_field good pending last_block s spec r \<longleftrightarrow> (case spec of
     None \<Rightarrow> \<exists>s' m'. r = Some (False, s', m')
   | Some (m', k) \<Rightarrow> \<exists>s'. r = Some (True, s', m') \<and> cd_moved good pending last_block k s s' \<and>
       ConsumedEntireMessage s' = ConsumedEntireMessage s)"

context message_reader
begin

lemma ReadGroup_law:
  assumes "cd_inv good pending last_block s" and "0 \<le> cd_recursion_depth s"
  shows "read_field good pending last_block s
    (if depth_left s = 0 then None
     else case parse (depth_left s - 1) (cd_visible pending s) m of
         Some (m', At_tag t k) \<Rightarrow> if t = MakeTag n WIRETYPE_END_GROUP then Some (m', k) else None
       | _ \<Rightarrow> None) (ReadGroup M n s m)"
proof (cases "depth_left s = 0")
  case True
  then show ?thesis by (simp add: read_field_def ReadGroup_def IncrementRecursionDepth_def depth_left_def)
next
  case False
  let ?s1 = "s\<lparr>cd_recursion_depth := cd_recursion_depth s + 1\<rparr>" and ?p = "parse (depth_left s - 1) (cd_visible pending s) m"
  have inc: "IncrementRecursionDepth s = (True, ?s1)" using False by (simp add: IncrementRecursionDepth_def depth_left_def)
  have "depth_left ?s1 = depth_left s - 1" by (simp add: depth_left_def)
  then have law: "merged good pending last_block ?s1 ?p (ml_MergePartialFromCodedStream M ?s1 m)"
    using merge_law [of ?s1 m] assms by (simp add: depth_updates)
  show ?thesis
  proof (cases ?p)
    case None
    then show ?thesis using law inc False by (auto simp: read_field_def ReadGroup_def)
  next
    case (Some r)
    obtain m' e where r: "r = (m', e)" by (cases r)
    obtain s' where s': "ml_MergePartialFromCodedStream M ?s1 m = Some (True, s', m')" "stopped good pending last_block ?s1 e s'"
      using law Some r by auto
    have l: "LastTagWas t (DecrementRecursionDepth s') = LastTagWas t s'"
      "ConsumedEntireMessage (DecrementRecursionDepth s') = ConsumedEntireMessage s'" for t
      by (simp_all add: LastTagWas_def ConsumedEntireMessage_def DecrementRecursionDepth_def)
    have no: "LastTagWas 0 s' \<Longrightarrow> \<not> LastTagWas (MakeTag n WIRETYPE_END_GROUP) s'"
      using end_tag_not_0 [of n] by (simp add: LastTagWas_def)
    have "ConsumedEntireMessage ?s1 = ConsumedEntireMessage s" by (simp add: ConsumedEntireMessage_def)
    then show ?thesis
      using s' Some r inc False no group_moved [OF _ assms(2)] l
      by (cases e) (auto simp: read_field_def ReadGroup_def LastTagWas_def Let_def)
  qed
qed

text \<open>
  An embedded message gets as many of the visible bytes as its length says, or all of them if there are fewer: a message
  that is cut off between two fields is accepted. Only the limit on the total number of bytes must not be reached.
\<close>

lemma ReadMessage_law:
  assumes "cd_inv good pending last_block s" and "0 \<le> cd_recursion_depth s" and "\<not> ConsumedEntireMessage s"
    and "CurrentPosition s + int (length (cd_visible pending s)) < cd_total_bytes_limit s"
  shows "read_field good pending last_block s
    (case first_varint (cd_visible pending s) of
       None \<Rightarrow> None
     | Some (v, k) \<Rightarrow>
         if depth_left s = 0 then None
         else let sub = take (unat (of_nat v :: uint32)) (drop k (cd_visible pending s)) in
           case parse (depth_left s - 1) sub m of
             Some (m', At_end) \<Rightarrow> Some (m', k + length sub)
           | _ \<Rightarrow> None) (ReadMessage M zs s m)"
proof -
  obtain s1 k1 where v32: "ReadVarint32 zs s = Some (map_option (\<lambda>(v, j). of_nat v) (first_varint (cd_visible pending s)), s1)"
    "cd_moved good pending last_block k1 s s1" "case first_varint (cd_visible pending s) of Some (v, j) \<Rightarrow> k1 = j | None \<Rightarrow> True"
    using ReadVarint32_law [OF assms(1)] by blast
  show ?thesis
  proof (cases "first_varint (cd_visible pending s)")
    case None
    then show ?thesis using v32(1) by (simp add: read_field_def ReadMessage_def)
  next
    case (Some q)
    obtain v k where q: "q = (v, k)" by (cases q)
    let ?v = "of_nat v :: uint32" and ?rest = "drop k (cd_visible pending s)"
    let ?sub = "take (unat ?v) ?rest"
    have m1: "cd_moved good pending last_block k s s1" and R: "ReadVarint32 zs s = Some (Some ?v, s1)"
      using v32 Some q by simp_all
    have k: "k \<le> length (cd_visible pending s)" using first_varint_pos(2) [of "cd_visible pending s" v k] Some q by simp
    have s1: "cd_inv good pending last_block s1" "cd_visible pending s1 = ?rest" "depth_left s1 = depth_left s"
      "cd_recursion_depth s1 = cd_recursion_depth s" "CurrentPosition s1 = CurrentPosition s + int k"
      "cd_total_bytes_limit s1 = cd_total_bytes_limit s"
      using m1 depth_left_moved [OF m1] by (simp_all add: cd_moved_def cd_frame_def)
    have l1: "\<not> cd_legitimate_message_end s1"
      using varint_end(4) [of zs s] R assms(3) by (simp add: keeps_end_def ConsumedEntireMessage_def)
    show ?thesis
    proof (cases "depth_left s = 0")
      case True
      then have "IncrementRecursionDepth s1 = (False, s1\<lparr>cd_recursion_depth := cd_recursion_depth s1 + 1\<rparr>)"
        using s1(3) by (simp add: IncrementRecursionDepth_def depth_left_def)
      then show ?thesis using R True Some q by (simp add: read_field_def ReadMessage_def)
    next
      case False
      define s2 where "s2 = s1\<lparr>cd_recursion_depth := cd_recursion_depth s1 + 1\<rparr>"
      have inc: "IncrementRecursionDepth s1 = (True, s2)"
        using False s1(3) by (simp add: IncrementRecursionDepth_def depth_left_def s2_def)
      have s2: "cd_inv good pending last_block s2" "cd_visible pending s2 = ?rest" "depth_left s2 = depth_left s - 1"
        "0 \<le> cd_recursion_depth s2" "CurrentPosition s2 = CurrentPosition s + int k" "cd_current_limit s2 = cd_current_limit s1"
        "cd_total_bytes_limit s2 = cd_total_bytes_limit s" "\<not> cd_legitimate_message_end s2"
        using s1 l1 assms(2) by (simp_all add: s2_def depth_updates) (simp_all add: depth_left_def)
      obtain s3 where s3: "PushLimit (sint ?v) s2 = (cd_current_limit s2, s3)" "cd_inv good pending last_block s3"
        "cd_rest pending s3 = cd_rest pending s2" "CurrentPosition s3 = CurrentPosition s2" "cd_visible pending s3 = ?sub"
        "cd_total_bytes_limit s3 = cd_total_bytes_limit s2" "snd (snd (cd_frame s3)) = snd (snd (cd_frame s2))"
        "\<not> cd_legitimate_message_end s3"
        using PushLimit_length [OF s2(1), of ?v] s2(2,8) by metis
      have d3: "0 \<le> cd_recursion_depth s3" "depth_left s3 = depth_left s - 1" "cd_recursion_depth s3 = cd_recursion_depth s2"
        using s3(7) s2(3,4) by (simp_all add: cd_frame_def depth_left_def)
      have sub: "length ?sub \<le> length ?rest" by simp
      have "CurrentPosition s + int k + int (length ?sub) < cd_total_bytes_limit s"
        using assms(4) sub k by simp
      then have e3: "end_is_legitimate (length ?sub) s3"
        using s3(4,6) s2(5,7) by (simp add: end_is_legitimate_def)
      have law: "merged good pending last_block s3 (parse (depth_left s - 1) ?sub m) (ml_MergePartialFromCodedStream M s3 m)"
        using merge_law [OF s3(2) d3(1), of m] by (simp only: d3(2) s3(5))
      have B: "ReadMessage M zs s m = do {
          (ok, input, v) \<leftarrow> ml_MergePartialFromCodedStream M s3 m;
          (if \<not> ok then Some (False, input, v)
           else if \<not> ConsumedEntireMessage input then Some (False, input, v)
           else Some (True, DecrementRecursionDepth (PopLimit (cd_current_limit s2) input), v)) }"
        using R inc s3(1) by (simp add: ReadMessage_def)
      have ends: "\<not> ConsumedEntireMessage s3" using s3(8) by (simp add: ConsumedEntireMessage_def)
      show ?thesis
      proof (cases "parse (depth_left s - 1) ?sub m")
        case None
        then show ?thesis using law Some q False by (auto simp: read_field_def B Let_def)
      next
        case (Some p)
        obtain m' e where p: "p = (m', e)" by (cases p)
        obtain s4 where s4: "ml_MergePartialFromCodedStream M s3 m = Some (True, s4, m')" "stopped good pending last_block s3 e s4"
          using law Some p by auto
        show ?thesis
        proof (cases "e = At_end")
          case False
          then have "\<not> ConsumedEntireMessage s4" using s4(2) ends by (cases e) auto
          then show ?thesis
            using s4(1) Some p \<open>first_varint _ = Some q\<close> q False \<open>depth_left s \<noteq> 0\<close>
            by (auto simp: read_field_def B Let_def split: message_end.splits)
        next
          case True
          have m4: "cd_moved good pending last_block (length ?sub) s3 s4" and c4: "ConsumedEntireMessage s4"
            using s4(2) True ends e3 s3(5) by auto
          let ?s5 = "PopLimit (cd_current_limit s2) s4"
          have "cd_moved good pending last_block (length ?sub) s2 ?s5"
            by (rule limited_moved [OF s2(1) m4 _ s3(3,4,6,7)]) (use sub s2(2) in simp)
          then have "cd_moved good pending last_block (length ?sub) s1 (DecrementRecursionDepth ?s5)"
            using group_moved [of good pending last_block "length ?sub" s1 ?s5] assms(2) s1(4) by (simp add: s2_def)
          then have "cd_moved good pending last_block (k + length ?sub) s (DecrementRecursionDepth ?s5)"
            by (rule cd_moved_trans [OF m1])
          moreover have "\<not> ConsumedEntireMessage (DecrementRecursionDepth ?s5)"
            by (simp add: ConsumedEntireMessage_def DecrementRecursionDepth_def PopLimit_def)
          moreover have "ReadMessage M zs s m = Some (True, DecrementRecursionDepth ?s5, m')"
            using s4(1) c4 by (simp add: B)
          ultimately show ?thesis
            using Some p True \<open>first_varint _ = Some q\<close> q False assms(3) by (simp add: read_field_def Let_def)
        qed
      qed
    qed
  qed
qed

end

subsection \<open>Bounded streams\<close>

context message_reader
begin

lemma ParseFromBoundedZeroCopyStream_law:
  assumes "good i" and "int (length (pending i)) < kDefaultTotalBytesLimit" and "0 \<le> n"
  shows "parsed (ml_IsInitialized M)
      (if nat n \<le> length (pending i) then parse (nat default_recursion_limit) (take (nat n) (pending i)) (ml_Clear M m) else None)
      (ParseFromBoundedZeroCopyStream M zs i n m)"
    and "parsed (\<lambda>_. True)
      (if nat n \<le> length (pending i) then parse (nat default_recursion_limit) (take (nat n) (pending i)) (ml_Clear M m) else None)
      (ParsePartialFromBoundedZeroCopyStream M zs i n m)"
proof -
  let ?m = "ml_Clear M m" and ?d = "nat default_recursion_limit" and ?bs = "take (nat n) (pending i)"
  have le: "int (length (pending i)) \<le> INT_MAX" using assms(2) by (simp add: INT_MAX_def kDefaultTotalBytesLimit_def)
  obtain s0 where s0: "CodedInputStream zs i = Some s0" "cd_inv good pending last_block s0" "CurrentPosition s0 = 0"
    "cd_visible pending s0 = take (nat kDefaultTotalBytesLimit) (pending i)"
    "cd_frame s0 = (INT_MAX, kDefaultTotalBytesLimit, 0, default_recursion_limit, False)" "\<not> cd_legitimate_message_end s0"
    using CodedInputStream_law [OF assms(1) le] by blast
  have v0: "cd_visible pending s0 = pending i" using s0(4) assms(2) by (simp add: kDefaultTotalBytesLimit_def)
  obtain s where s: "PushLimit n s0 = (cd_current_limit s0, s)" "cd_inv good pending last_block s" "CurrentPosition s = 0"
    "cd_visible pending s = ?bs" "cd_current_limit s = min n INT_MAX" "cd_total_bytes_limit s = kDefaultTotalBytesLimit"
    "snd (snd (cd_frame s)) = (0, default_recursion_limit, False)"
    using PushLimit_law [OF s0(2) assms(3)] s0(3,5) v0 by (metis add_0 cd_frame_def prod.inject snd_conv)
  have l: "\<not> ConsumedEntireMessage s"
    using s0(6) s(1) PushLimit_end [of n s0] by (simp add: ConsumedEntireMessage_def)
  have d: "depth_left s = ?d" "0 \<le> cd_recursion_depth s" using s(7) by (simp_all add: cd_frame_def depth_left_def)
  have e: "end_is_legitimate (length ?bs) s" using s(3,6) assms(2) by (auto simp: end_is_legitimate_def min_def)
  have until: "BytesUntilLimit s' = 0 \<longleftrightarrow> nat n \<le> length (pending i)"
    if "stopped good pending last_block s At_end s'" for s'
  proof -
    have "CurrentPosition s' = int (length ?bs)" "cd_current_limit s' = min n INT_MAX"
      using that s(3-5) by (simp_all add: cd_moved_def cd_frame_def)
    then show ?thesis using le assms(2,3) by (auto simp: BytesUntilLimit_def INT_MAX_def kDefaultTotalBytesLimit_def min_def split: if_splits)
  qed
  have law: "merged good pending last_block s (parse ?d ?bs ?m) (ml_MergePartialFromCodedStream M s ?m)"
    using merge_law [OF s(2) d(2), of ?m] by (simp add: d(1) s(4))
  have "parsed (ml_IsInitialized M) (if nat n \<le> length (pending i) then parse ?d ?bs ?m else None)
      (InlineMergeFromCodedStream M s ?m \<bind> (\<lambda>(ok, s, m). Some (ok \<and> ConsumedEntireMessage s \<and> BytesUntilLimit s = 0, m))) \<and>
    parsed (\<lambda>_. True) (if nat n \<le> length (pending i) then parse ?d ?bs ?m else None)
      (ml_MergePartialFromCodedStream M s ?m \<bind> (\<lambda>(ok, s, m). Some (ok \<and> ConsumedEntireMessage s \<and> BytesUntilLimit s = 0, m)))"
  proof (cases "parse ?d ?bs ?m")
    case None
    then show ?thesis using law by (auto simp: parsed_def InlineMergeFromCodedStream_def)
  next
    case (Some r)
    obtain m' e where r: "r = (m', e)" by (cases r)
    obtain s' where s': "ml_MergePartialFromCodedStream M s ?m = Some (True, s', m')" "stopped good pending last_block s e s'"
      using law Some r by auto
    show ?thesis
    proof (cases "e = At_end")
      case True
      then have "ConsumedEntireMessage s'" "BytesUntilLimit s' = 0 \<longleftrightarrow> nat n \<le> length (pending i)"
        using s'(2) l \<open>end_is_legitimate (length ?bs) s\<close> s(4) until [of s'] by auto
      then show ?thesis using Some r s'(1) True by (auto simp: parsed_def InlineMergeFromCodedStream_def)
    next
      case False
      then have "\<not> ConsumedEntireMessage s'" using s'(2) l by (cases e) auto
      then show ?thesis using Some r s'(1) False by (cases e) (auto simp: parsed_def InlineMergeFromCodedStream_def)
    qed
  qed
  then show "parsed (ml_IsInitialized M)
      (if nat n \<le> length (pending i) then parse ?d ?bs ?m else None) (ParseFromBoundedZeroCopyStream M zs i n m)"
    and "parsed (\<lambda>_. True)
      (if nat n \<le> length (pending i) then parse ?d ?bs ?m else None) (ParsePartialFromBoundedZeroCopyStream M zs i n m)"
    using s0(1) s(1) by (simp_all add: ParseFromBoundedZeroCopyStream_def ParsePartialFromBoundedZeroCopyStream_def
        ParseFromCodedStream_def ParsePartialFromCodedStream_def InlineParseFromCodedStream_def InlineParsePartialFromCodedStream_def)
qed

end

section \<open>The contract of a writer\<close>

text \<open>
  \<open>ByteSize\<close> announces the number of bytes and stores it; after that both ways to serialize give the same bytes.
  \<open>cached\<close> says that the sizes stored in the message, and in the messages inside of it, are up to date. A message
  whose size is no \<open>int\<close> is outside of the contract.
\<close>

locale message_writer = output_memory zo good written stuck
  for zo :: "'t zero_copy_output" and good :: "'t \<Rightarrow> bool" and written :: "'t \<Rightarrow> byte list" and stuck :: "'t \<Rightarrow> bool" +
  fixes M :: "('m, 's, 't) message_lite"
    and bytes_of :: "'m \<Rightarrow> byte list"
    and cached :: "'m \<Rightarrow> bool"
  assumes size_law: "int (length (bytes_of m)) \<le> INT_MAX \<Longrightarrow>
      \<exists>m'. ml_ByteSize M m = (int (length (bytes_of m)), m') \<and> bytes_of m' = bytes_of m \<and> cached m'"
    and cached_law: "cached m \<Longrightarrow> ml_GetCachedSize M m = int (length (bytes_of m))"
    and array_law: "cached m \<Longrightarrow> ml_SerializeWithCachedSizesToArray M m = Some (bytes_of m)"
    and stream_law: "cached m \<Longrightarrow> takes good written stuck n \<Longrightarrow> length (data @ bytes_of m) \<le> n \<Longrightarrow>
      cw_at zo good written base start data s \<Longrightarrow>
      wrote zo good written base start (data @ bytes_of m) (ml_SerializeWithCachedSizes M m s)"
begin

lemma store_array_takes:
  assumes "takes good written stuck n" and "length (data @ bs) \<le> n" and "cw_at zo good written base start data s"
    and "GetDirectBufferForNBytesAndAdvance (int (length bs)) s = (Some p, s')"
  shows "wrote zo good written base start (data @ bs) (store_array zo (Some p) bs s')"
proof (cases "bs = []")
  case True
  then have "s' = s" using assms(4) by (cases "cw_buffer s") (auto simp: GetDirectBufferForNBytesAndAdvance_def cw_Advance_def split: if_splits)
  then show ?thesis using True assms(3) by (simp add: store_array_def wrote_def)
next
  case False
  have "store_array zo (Some p) bs s' = WriteRaw zo bs s"
    using direct_write_eq [OF assms(4) False] False by (simp add: store_array_def)
  then show ?thesis using WriteRaw_takes [OF assms(1-3)] by simp
qed

text \<open>Which way is taken depends on the room in the block, what is written does not.\<close>

lemma serialize_maybe_to_array_takes:
  assumes "cached m" and "takes good written stuck n" and "length (data @ bytes_of m) \<le> n" and "cw_at zo good written base start data s"
  shows "wrote zo good written base start (data @ bytes_of m) (serialize_maybe_to_array M (int (length (bytes_of m))) m zo s)"
proof (cases "GetDirectBufferForNBytesAndAdvance (int (length (bytes_of m))) s")
  case (Pair target s')
  show ?thesis
  proof (cases target)
    case None
    moreover have "s' = s \<or> (\<exists>n. s' = cw_Advance n s \<and> cw_buffer s = None)"
      using Pair None by (auto simp: GetDirectBufferForNBytesAndAdvance_def split: if_splits)
    moreover have "cw_buffer s \<noteq> None" using assms(4) by (auto simp: cw_at_def)
    ultimately show ?thesis using Pair stream_law [OF assms] by (simp add: serialize_maybe_to_array_def)
  next
    case (Some p)
    then show ?thesis
      using Pair store_array_takes [OF assms(2-4)] array_law [OF assms(1)] by (simp add: serialize_maybe_to_array_def)
  qed
qed

lemma SerializePartialToCodedStream_law:
  assumes fits: "int (length (bytes_of m)) \<le> INT_MAX"
    and "takes good written stuck n" and "length (data @ bytes_of m) \<le> n" and "cw_at zo good written base start data s"
  shows "\<exists>m' s'. SerializePartialToCodedStream M zo m s = Some (True, m', s') \<and> bytes_of m' = bytes_of m \<and> cached m' \<and>
    cw_at zo good written base start (data @ bytes_of m) s'"
proof -
  obtain m' where m': "ml_ByteSize M m = (int (length (bytes_of m)), m')" "bytes_of m' = bytes_of m" "cached m'"
    using size_law [OF fits] by blast
  obtain target s1 where d: "GetDirectBufferForNBytesAndAdvance (int (length (bytes_of m))) s = (target, s1)" by fastforce
  have le: "length (data @ bytes_of m') \<le> n" using assms(3) m'(2) by simp
  show ?thesis
  proof (cases target)
    case None
    then have "s1 = s" using d assms(4) by (auto simp: GetDirectBufferForNBytesAndAdvance_def cw_at_def split: if_splits)
    moreover obtain s' where s': "ml_SerializeWithCachedSizes M m' s = Some s'" "cw_at zo good written base start (data @ bytes_of m) s'"
      using stream_law [OF m'(3) assms(2) le assms(4)] m'(2) by (auto simp: wrote_def)
    moreover have "\<not> HadError s'" "CodedOutputStream_ByteCount s' - CodedOutputStream_ByteCount s = int (length (bytes_of m))"
      using s'(2) assms(4) by (auto simp: cw_at_def)
    ultimately show ?thesis using None d m' by (simp add: SerializePartialToCodedStream_def)
  next
    case (Some p)
    then show ?thesis
      using d m' store_array_takes [OF assms(2-4)] array_law [OF m'(3)] by (auto simp: SerializePartialToCodedStream_def wrote_def)
  qed
qed

lemma SerializeToZeroCopyStream_law:
  assumes fits: "int (length (bytes_of m)) \<le> INT_MAX" and "good i" and "\<not> stuck i" and "takes good written stuck n" and "length (written i @ bytes_of m) \<le> n"
  shows "\<exists>m' i'. SerializeToZeroCopyStream M zo m i = Some (True, m', i') \<and> bytes_of m' = bytes_of m \<and> cached m' \<and>
    good i' \<and> written i' = written i @ bytes_of m \<and> zo_ByteCount zo i' = zo_ByteCount zo i + int (length (bytes_of m))"
proof -
  obtain s where s: "CodedOutputStream zo i = Some s"
    "cw_at zo good written (zo_ByteCount zo i - int (length (written i))) (int (length (written i))) (written i) s"
    using CodedOutputStream_law [OF assms(2,3)] by blast
  obtain m' s' where s': "SerializePartialToCodedStream M zo m s = Some (True, m', s')" "bytes_of m' = bytes_of m" "cached m'"
    "cw_at zo good written (zo_ByteCount zo i - int (length (written i))) (int (length (written i))) (written i @ bytes_of m) s'"
    using SerializePartialToCodedStream_law [OF fits assms(4,5) s(2)] by blast
  show ?thesis
    using CodedOutputStream_delete_law [OF s'(4)] s(1) s'(1-3)
    by (auto simp: SerializeToZeroCopyStream_def SerializeToCodedStream_def)
qed

lemma SerializeToString_law:
  assumes fits: "int (length (bytes_of m)) \<le> INT_MAX"
  shows "\<exists>m'. AppendPartialToString M m output = Some (True, m', output @ bytes_of m) \<and> bytes_of m' = bytes_of m \<and> cached m'"
proof -
  obtain m' where m': "ml_ByteSize M m = (int (length (bytes_of m)), m')" "bytes_of m' = bytes_of m" "cached m'"
    using size_law [OF fits] by blast
  then show ?thesis using array_law [OF m'(3)] by (simp add: AppendPartialToString_def Let_def mem_write_def)
qed

lemma SerializePartialToArray_law:
  assumes fits: "int (length (bytes_of m)) \<le> INT_MAX" and "int (length array) = n"
  shows "\<exists>m'. SerializePartialToArray M m array n =
      Some (length (bytes_of m) \<le> length array, m',
        if length (bytes_of m) \<le> length array then bytes_of m @ drop (length (bytes_of m)) array else array) \<and>
    bytes_of m' = bytes_of m \<and> cached m'"
proof -
  obtain m' where m': "ml_ByteSize M m = (int (length (bytes_of m)), m')" "bytes_of m' = bytes_of m" "cached m'"
    using size_law [OF fits] by blast
  then show ?thesis using array_law [OF m'(3)] assms(2) by (auto simp: SerializePartialToArray_def mem_write_def)
qed

text \<open>A group and an embedded message, by all the ways there are.\<close>

lemma WriteGroup_takes:
  fixes num m
  defines "bs \<equiv> WireFormat_WriteTagToArray num WIRETYPE_START_GROUP @ bytes_of m @ WireFormat_WriteTagToArray num WIRETYPE_END_GROUP"
  assumes "cached m" and "takes good written stuck n" and "length (data @ bs) \<le> n" and "cw_at zo good written base start data s"
  shows "wrote zo good written base start (data @ bs) (WriteGroup M num m zo s)"
    and "wrote zo good written base start (data @ bs) (WriteGroupMaybeToArray M num m zo s)"
    and "WriteGroupToArray M num m = Some bs"
proof -
  let ?b = "WireFormat_WriteTagToArray num WIRETYPE_START_GROUP" and ?e = "WireFormat_WriteTagToArray num WIRETYPE_END_GROUP"
  have "wrote zo good written base start (((data @ ?b) @ bytes_of m) @ ?e) (WriteGroup M num m zo s)"
    unfolding WriteGroup_def using assms(4,5)
    by (intro wrote_bind [OF WriteTag_takes [OF assms(3)]] wrote_bind [OF stream_law [OF assms(2,3)]] WriteTag_takes [OF assms(3)])
      (auto simp: bs_def simp del: append_assoc)
  then show "wrote zo good written base start (data @ bs) (WriteGroup M num m zo s)" by (simp add: bs_def)
  have "wrote zo good written base start (((data @ ?b) @ bytes_of m) @ ?e) (WriteGroupMaybeToArray M num m zo s)"
    unfolding WriteGroupMaybeToArray_def cached_law [OF assms(2)] using assms(4,5)
    by (intro wrote_bind [OF WriteTag_takes [OF assms(3)]] wrote_bind [OF serialize_maybe_to_array_takes [OF assms(2,3)]]
        WriteTag_takes [OF assms(3)]) (auto simp: bs_def simp del: append_assoc)
  then show "wrote zo good written base start (data @ bs) (WriteGroupMaybeToArray M num m zo s)" by (simp add: bs_def)
  show "WriteGroupToArray M num m = Some bs" by (simp add: WriteGroupToArray_def array_law [OF assms(2)] bs_def)
qed

lemma WriteMessage_takes:
  fixes num m
  defines "bs \<equiv> WireFormat_WriteTagToArray num WIRETYPE_LENGTH_DELIMITED @ WriteStringWithSizeToArray (bytes_of m)"
  assumes "cached m" and "takes good written stuck n" and "length (data @ bs) \<le> n" and "cw_at zo good written base start data s"
  shows "wrote zo good written base start (data @ bs) (WriteMessage M num m zo s)"
    and "wrote zo good written base start (data @ bs) (WriteMessageMaybeToArray M num m zo s)"
    and "WriteMessageToArray M num m = Some bs"
proof -
  let ?t = "WireFormat_WriteTagToArray num WIRETYPE_LENGTH_DELIMITED" and ?l = "WriteVarint32ToArray (of_nat (length (bytes_of m)))"
  have bs: "bs = ?t @ ?l @ bytes_of m" by (simp add: bs_def WriteStringWithSizeToArray_def)
  have c: "word_of_int (ml_GetCachedSize M m) = (of_nat (length (bytes_of m)) :: uint32)" by (simp add: cached_law [OF assms(2)])
  have "wrote zo good written base start (((data @ ?t) @ ?l) @ bytes_of m) (WriteMessage M num m zo s)"
    unfolding WriteMessage_def c using assms(4,5)
    by (intro wrote_bind [OF WriteTag_takes [OF assms(3)]] wrote_bind [OF WriteVarint32_takes [OF assms(3)]] stream_law [OF assms(2,3)])
      (auto simp: bs simp del: append_assoc)
  then show "wrote zo good written base start (data @ bs) (WriteMessage M num m zo s)" by (simp add: bs)
  have "wrote zo good written base start (((data @ ?t) @ ?l) @ bytes_of m) (WriteMessageMaybeToArray M num m zo s)"
    unfolding WriteMessageMaybeToArray_def Let_def c unfolding cached_law [OF assms(2)] using assms(4,5)
    by (intro wrote_bind [OF WriteTag_takes [OF assms(3)]] wrote_bind [OF WriteVarint32_takes [OF assms(3)]]
        serialize_maybe_to_array_takes [OF assms(2,3)]) (auto simp: bs simp del: append_assoc)
  then show "wrote zo good written base start (data @ bs) (WriteMessageMaybeToArray M num m zo s)" by (simp add: bs)
  show "WriteMessageToArray M num m = Some bs" using array_law [OF assms(2)] c by (simp add: WriteMessageToArray_def bs)
qed

lemma MessageSize_law:
  assumes "int (length (bytes_of m)) \<le> INT_MAX"
  shows "fst (MessageSize M m) = int (length (WriteStringWithSizeToArray (bytes_of m)))" "fst (GroupSize M m) = int (length (bytes_of m))"
proof -
  obtain m' where "ml_ByteSize M m = (int (length (bytes_of m)), m')" using size_law [OF assms] by blast
  then show "fst (MessageSize M m) = int (length (WriteStringWithSizeToArray (bytes_of m)))" "fst (GroupSize M m) = int (length (bytes_of m))"
    by (simp_all add: MessageSize_def GroupSize_def LengthDelimitedSize_def WriteStringWithSizeToArray_def WriteVarint32ToArray_eq VarintSize32_eq)
qed

end

section \<open>The default of the array version\<close>

text \<open>A class that only writes to streams gets the same bytes from it, if there are any.\<close>

lemma default_array_version:
  assumes M: "message_writer array_output_stream (array_out_good target) array_written (\<lambda>s. ao_position s = ao_size s) M bytes_of cached"
    and "cached m" and "length target = length (bytes_of m)" and "bytes_of m \<noteq> []"
  shows "MessageLite_SerializeWithCachedSizesToArray (ml_GetCachedSize M) (ml_SerializeWithCachedSizes M) target m = Some (bytes_of m)"
proof -
  let ?i = "ArrayOutputStream target (int (length target)) (- 1)" and ?zo = array_output_stream
  let ?at = "cw_at ?zo (array_out_good target) array_written (zo_ByteCount ?zo ?i) 0"
  have c: "ml_GetCachedSize M m = int (length target)" using message_writer.cached_law [OF M assms(2)] assms(3) by simp
  have i: "array_out_good target ?i" "array_written ?i = []" "ao_position ?i \<noteq> ao_size ?i"
    using assms(3,4) by (auto simp: array_out_good_def array_written_def ArrayOutputStream_def)
  obtain s where s: "CodedOutputStream ?zo ?i = Some s" "?at [] s"
    using array_mem.CodedOutputStream_law [OF i(1,3)] i(2) by auto
  have takes: "takes (array_out_good target) array_written (\<lambda>s. ao_position s = ao_size s) (length (bytes_of m))"
    using assms(3) by (auto simp: takes_def array_out_good_def array_written_def)
  obtain s' where s': "ml_SerializeWithCachedSizes M m s = Some s'" "?at (bytes_of m) s'"
    using message_writer.stream_law [OF M assms(2) takes _ s(2)] by (auto simp: wrote_def)
  obtain out where out: "CodedOutputStream_delete ?zo s' = Some out" "array_out_good target out" "array_written out = bytes_of m"
    using array_mem.CodedOutputStream_delete_law [OF s'(2)] by blast
  have "length (array_written out) = length (ao_data out)" using out(2,3) assms(3) by (simp add: array_out_good_def)
  then have "ao_data out = bytes_of m" using out(3) by (simp add: array_written_def min_def split: if_splits)
  moreover have "\<not> HadError s'" using s'(2) by (simp add: cw_at_def)
  ultimately show ?thesis
    using s(1) s'(1) out(1) by (simp add: MessageLite_SerializeWithCachedSizesToArray_def c)
qed

end
