(* ===== verification/RepeatedField.thy ===== *)
theory RepeatedField
  imports Prelude
begin

text \<open>
  Repeated fields (repeated_field.h): an array that grows by doubling, here over any type of elements that are copied by
  value. A cell that has not been written is \<open>None\<close>; to read it, to leave the array and to let a size overflow is \<open>None\<close> as
  a result. The class refines a plain list (\<open>rf_at\<close>).
\<close>

section \<open>The class\<close>

definition kMinRepeatedFieldAllocationSize :: int where "kMinRepeatedFieldAllocationSize = 4"

record 'a repeated_field =
  rf_elements :: "'a option list option"
  rf_current_size :: int
  rf_total_size :: int

definition RepeatedField_new :: "'a repeated_field" where
  "RepeatedField_new = \<lparr>rf_elements = None, rf_current_size = 0, rf_total_size = 0\<rparr>"

definition rf_empty :: "'a repeated_field \<Rightarrow> bool" where
  "rf_empty f \<longleftrightarrow> rf_current_size f = 0"

definition rf_size :: "'a repeated_field \<Rightarrow> int" where
  "rf_size f = rf_current_size f"

definition Capacity :: "'a repeated_field \<Rightarrow> int" where
  "Capacity f = rf_total_size f"

text \<open>Access to a cell through the pointer.\<close>

definition load_cell :: "'a option list option \<Rightarrow> int \<Rightarrow> 'a option" where
  "load_cell elements i = do {
     els \<leftarrow> elements;
     c \<leftarrow> (if 0 \<le> i then mem_get (nat i) els else None);
     c }"

definition store_cell :: "'a option list option \<Rightarrow> int \<Rightarrow> 'a \<Rightarrow> 'a option list option" where
  "store_cell elements i v = do {
     els \<leftarrow> elements;
     (if 0 \<le> i then mem_write (nat i) [Some v] els else None) }"

definition CopyArray :: "'a option list \<Rightarrow> int \<Rightarrow> 'a option list \<Rightarrow> int \<Rightarrow> 'a option list option" where
  "CopyArray target at source array_size = do {
     cells \<leftarrow> mem_read 0 (nat array_size) source;
     mem_write (nat at) cells target }"

definition MoveArray :: "'a option list \<Rightarrow> 'a option list \<Rightarrow> int \<Rightarrow> 'a option list option" where
  "MoveArray target source array_size = CopyArray target 0 source array_size"

definition Reserve :: "int \<Rightarrow> 'a repeated_field \<Rightarrow> 'a repeated_field option" where
  "Reserve new_size f =
     (if rf_total_size f \<ge> new_size then Some f
      else if rf_total_size f * 2 > INT_MAX then None
      else
        let old_elements = rf_elements f;
          total_size = max kMinRepeatedFieldAllocationSize (max (rf_total_size f * 2) new_size);
          elements = replicate (nat total_size) None in do {
        elements \<leftarrow> (case old_elements of
          None \<Rightarrow> Some elements
        | Some old_elements \<Rightarrow> MoveArray elements old_elements (rf_current_size f));
        Some (f\<lparr>rf_elements := Some elements, rf_total_size := total_size\<rparr>) })"

definition AddAlreadyReserved :: "'a \<Rightarrow> 'a repeated_field \<Rightarrow> 'a repeated_field option" where
  "AddAlreadyReserved v f = do {
     elements \<leftarrow> store_cell (rf_elements f) (rf_current_size f) v;
     Some (f\<lparr>rf_elements := Some elements, rf_current_size := rf_current_size f + 1\<rparr>) }"

definition RepeatedField_Add :: "'a \<Rightarrow> 'a repeated_field \<Rightarrow> 'a repeated_field option" where
  "RepeatedField_Add v f = do {
     f \<leftarrow> (if rf_current_size f = rf_total_size f then Reserve (rf_total_size f + 1) f else Some f);
     elements \<leftarrow> store_cell (rf_elements f) (rf_current_size f) v;
     Some (f\<lparr>rf_elements := Some elements, rf_current_size := rf_current_size f + 1\<rparr>) }"

text \<open>\<open>std::fill\<close> on the cells from the current size on.\<close>

definition Resize :: "int \<Rightarrow> 'a \<Rightarrow> 'a repeated_field \<Rightarrow> 'a repeated_field option" where
  "Resize new_size v f = do {
     f \<leftarrow> (if new_size > rf_size f then do {
         f \<leftarrow> Reserve new_size f;
         elements \<leftarrow> rf_elements f;
         elements \<leftarrow> mem_write (nat (rf_current_size f)) (replicate (nat (new_size - rf_current_size f)) (Some v)) elements;
         Some (f\<lparr>rf_elements := Some elements\<rparr>) }
       else Some f);
     Some (f\<lparr>rf_current_size := new_size\<rparr>) }"

definition RepeatedField_Get :: "int \<Rightarrow> 'a repeated_field \<Rightarrow> 'a option" where
  "RepeatedField_Get index f = load_cell (rf_elements f) index"

definition RepeatedField_Set :: "int \<Rightarrow> 'a \<Rightarrow> 'a repeated_field \<Rightarrow> 'a repeated_field option" where
  "RepeatedField_Set index v f = do {
     elements \<leftarrow> store_cell (rf_elements f) index v;
     Some (f\<lparr>rf_elements := Some elements\<rparr>) }"

definition RemoveLast :: "'a repeated_field \<Rightarrow> 'a repeated_field" where
  "RemoveLast f = f\<lparr>rf_current_size := rf_current_size f - 1\<rparr>"

definition Truncate :: "int \<Rightarrow> 'a repeated_field \<Rightarrow> 'a repeated_field" where
  "Truncate new_size f = f\<lparr>rf_current_size := new_size\<rparr>"

text \<open>The loops of \<open>ExtractSubrange\<close>: the elements from \<open>i\<close> on, and moving elements down by \<open>num\<close>.\<close>

fun extract_values :: "nat \<Rightarrow> int \<Rightarrow> 'a repeated_field \<Rightarrow> 'a list option" where
  "extract_values 0 i f = Some []"
| "extract_values (Suc k) i f = do { v \<leftarrow> RepeatedField_Get i f; vs \<leftarrow> extract_values k (i + 1) f; Some (v # vs) }"

fun slide_values :: "nat \<Rightarrow> int \<Rightarrow> int \<Rightarrow> 'a repeated_field \<Rightarrow> 'a repeated_field option" where
  "slide_values 0 i num f = Some f"
| "slide_values (Suc k) i num f = do {
     v \<leftarrow> RepeatedField_Get i f;
     f \<leftarrow> RepeatedField_Set (i - num) v f;
     slide_values k (i + 1) num f }"

definition ExtractSubrange :: "int \<Rightarrow> int \<Rightarrow> bool \<Rightarrow> 'a repeated_field \<Rightarrow> ('a list \<times> 'a repeated_field) option" where
  "ExtractSubrange start num wanted f = do {
     vs \<leftarrow> (if wanted then extract_values (nat num) start f else Some []);
     f \<leftarrow> (if num > 0 then do {
         f \<leftarrow> slide_values (nat (rf_size f - (start + num))) (start + num) num f;
         Some (Truncate (rf_size f - num) f) }
       else Some f);
     Some (vs, f) }"

definition RepeatedField_Clear :: "'a repeated_field \<Rightarrow> 'a repeated_field" where
  "RepeatedField_Clear f = f\<lparr>rf_current_size := 0\<rparr>"

text \<open>Merging a field with itself is a failed check; here the two are different objects.\<close>

definition RepeatedField_MergeFrom :: "'a repeated_field \<Rightarrow> 'a repeated_field \<Rightarrow> 'a repeated_field option" where
  "RepeatedField_MergeFrom other f =
     (if rf_current_size other \<noteq> 0 then do {
        f \<leftarrow> Reserve (rf_current_size f + rf_current_size other) f;
        elements \<leftarrow> rf_elements f;
        other_elements \<leftarrow> rf_elements other;
        elements \<leftarrow> CopyArray elements (rf_current_size f) other_elements (rf_current_size other);
        Some (f\<lparr>rf_elements := Some elements, rf_current_size := rf_current_size f + rf_current_size other\<rparr>) }
      else Some f)"

definition RepeatedField_CopyFrom :: "'a repeated_field \<Rightarrow> 'a repeated_field \<Rightarrow> 'a repeated_field option" where
  "RepeatedField_CopyFrom other f = RepeatedField_MergeFrom other (RepeatedField_Clear f)"

definition RepeatedField_Swap :: "'a repeated_field \<Rightarrow> 'a repeated_field \<Rightarrow> 'a repeated_field \<times> 'a repeated_field" where
  "RepeatedField_Swap f other =
     (f\<lparr>rf_elements := rf_elements other, rf_current_size := rf_current_size other, rf_total_size := rf_total_size other\<rparr>,
      other\<lparr>rf_elements := rf_elements f, rf_current_size := rf_current_size f, rf_total_size := rf_total_size f\<rparr>)"

definition SwapElements :: "int \<Rightarrow> int \<Rightarrow> 'a repeated_field \<Rightarrow> 'a repeated_field option" where
  "SwapElements index1 index2 f = do {
     a \<leftarrow> load_cell (rf_elements f) index1;
     b \<leftarrow> load_cell (rf_elements f) index2;
     elements \<leftarrow> store_cell (rf_elements f) index1 b;
     elements \<leftarrow> store_cell (Some elements) index2 a;
     Some (f\<lparr>rf_elements := Some elements\<rparr>) }"

section \<open>A list\<close>

definition rf_at :: "'a list \<Rightarrow> 'a repeated_field \<Rightarrow> bool" where
  "rf_at xs f \<longleftrightarrow> rf_current_size f = int (length xs) \<and> int (length xs) \<le> rf_total_size f \<and>
     (case rf_elements f of
        None \<Rightarrow> rf_total_size f = 0
      | Some els \<Rightarrow> length els = nat (rf_total_size f) \<and> take (length xs) els = map Some xs)"

lemma rf_at_new: "rf_at [] RepeatedField_new"
  by (simp add: rf_at_def RepeatedField_new_def)

lemma rf_at_sizes:
  assumes "rf_at xs f"
  shows "rf_size f = int (length xs)" "int (length xs) \<le> Capacity f" "rf_empty f \<longleftrightarrow> xs = []"
  using assms by (simp_all add: rf_at_def rf_size_def Capacity_def rf_empty_def)

lemma Reserve_law:
  assumes "rf_at xs f" and "2 * n \<le> INT_MAX"
  shows "\<exists>f'. Reserve n f = Some f' \<and> rf_at xs f' \<and> n \<le> rf_total_size f' \<and> (rf_elements f' = None \<longrightarrow> n \<le> 0)"
proof (cases "rf_total_size f \<ge> n")
  case True
  then show ?thesis using assms(1) by (auto simp: Reserve_def rf_at_def split: option.splits)
next
  case False
  let ?t = "max kMinRepeatedFieldAllocationSize (max (rf_total_size f * 2) n)"
  have t: "int (length xs) \<le> ?t" "n \<le> ?t" "0 \<le> ?t" "\<not> rf_total_size f * 2 > INT_MAX"
    using assms False by (auto simp: rf_at_def kMinRepeatedFieldAllocationSize_def)
  show ?thesis
  proof (cases "rf_elements f")
    case None
    then have "xs = []" using assms(1) by (auto simp: rf_at_def)
    then show ?thesis using None False t assms(1) by (simp add: Reserve_def rf_at_def Let_def)
  next
    case (Some els)
    then have "mem_read 0 (length xs) els = Some (map Some xs)" "rf_current_size f = int (length xs)"
      using assms(1) by (auto simp: rf_at_def mem_read_def)
    then show ?thesis
      using Some False t
      by (simp add: Reserve_def rf_at_def Let_def MoveArray_def CopyArray_def mem_write_def nat_le_eq_zle flip: nat_le_iff)
  qed
qed

text \<open>The array holds the list and then the cells that are not in use.\<close>

lemma rf_at_cells:
  "rf_at xs f \<longleftrightarrow> rf_current_size f = int (length xs) \<and>
     (case rf_elements f of
        None \<Rightarrow> xs = [] \<and> rf_total_size f = 0
      | Some els \<Rightarrow> \<exists>rest. els = map Some xs @ rest \<and> rf_total_size f = int (length xs + length rest))"
proof (cases "rf_elements f")
  case None
  then show ?thesis by (auto simp: rf_at_def)
next
  case (Some els)
  have "(int (length xs) \<le> rf_total_size f \<and> length els = nat (rf_total_size f) \<and> take (length xs) els = map Some xs) \<longleftrightarrow>
    (\<exists>rest. els = map Some xs @ rest \<and> rf_total_size f = int (length xs + length rest))"
  proof
    assume a: "int (length xs) \<le> rf_total_size f \<and> length els = nat (rf_total_size f) \<and> take (length xs) els = map Some xs"
    then have "els = map Some xs @ drop (length xs) els" by (metis append_take_drop_id)
    then show "\<exists>rest. els = map Some xs @ rest \<and> rf_total_size f = int (length xs + length rest)"
      using a by (intro exI [of _ "drop (length xs) els"]) auto
  qed auto
  then show ?thesis using Some by (simp add: rf_at_def)
qed

lemma rf_at_Some:
  assumes "rf_at xs f" and "xs \<noteq> [] \<or> 0 < rf_total_size f"
  obtains rest where "rf_elements f = Some (map Some xs @ rest)" "rf_total_size f = int (length xs + length rest)"
    "rf_current_size f = int (length xs)"
  using assms by (cases "rf_elements f") (auto simp: rf_at_cells)

lemma rf_at_SomeI:
  "rf_current_size f = int (length xs) \<Longrightarrow> rf_elements f = Some (map Some xs @ rest) \<Longrightarrow>
    rf_total_size f = int (length xs + length rest) \<Longrightarrow> rf_at xs f"
  by (auto simp: rf_at_cells)

lemma load_cell_law: "rf_at xs f \<Longrightarrow> 0 \<le> i \<Longrightarrow> i < int (length xs) \<Longrightarrow> load_cell (rf_elements f) i = Some (xs ! nat i)"
  by (rule rf_at_Some [of xs f]) (auto simp: load_cell_def mem_get_def nth_append)

lemma store_cell_law:
  assumes "rf_at xs f" and "0 \<le> i" and "i < int (length xs)"
  shows "\<exists>els. store_cell (rf_elements f) i v = Some els \<and> rf_at (xs[nat i := v]) (f\<lparr>rf_elements := Some els\<rparr>)"
proof -
  obtain rest where r: "rf_elements f = Some (map Some xs @ rest)" "rf_total_size f = int (length xs + length rest)"
    "rf_current_size f = int (length xs)" by (rule rf_at_Some [OF assms(1)]) (use assms(2,3) in auto)
  have i: "nat i < length xs" using assms(2,3) by simp
  have u: "take (nat i) ys @ v # drop (Suc (nat i)) ys = ys[nat i := v]" if "nat i < length ys" for ys :: "'b list" and v
    using that by (simp add: upd_conv_take_nth_drop)
  have s: "store_cell (rf_elements f) i v = Some (map Some (xs[nat i := v]) @ rest)"
    using r(1) assms(2) i u [of "map Some xs @ rest" "Some v"] by (simp add: store_cell_def mem_write_def map_update list_update_append)
  show ?thesis by (rule exI [of _ "map Some (xs[nat i := v]) @ rest"], rule conjI [OF s], rule rf_at_SomeI [of _ _ rest]) (use r in simp_all)
qed

lemma AddAlreadyReserved_law:
  assumes "rf_at xs f" and "int (length xs) < rf_total_size f"
  shows "\<exists>f'. AddAlreadyReserved v f = Some f' \<and> rf_at (xs @ [v]) f' \<and> rf_total_size f' = rf_total_size f"
proof -
  obtain rest where r: "rf_elements f = Some (map Some xs @ rest)" "rf_total_size f = int (length xs + length rest)"
    "rf_current_size f = int (length xs)" by (rule rf_at_Some [OF assms(1)]) (use assms(2) in auto)
  obtain c cs where "rest = c # cs" using r(2) assms(2) by (cases rest) auto
  then have "store_cell (rf_elements f) (rf_current_size f) v = Some (map Some (xs @ [v]) @ cs)"
    using r by (simp add: store_cell_def mem_write_def)
  then show ?thesis
    using r \<open>rest = c # cs\<close> by (simp add: AddAlreadyReserved_def rf_at_cells)
qed

lemma Add_law:
  assumes "rf_at xs f" and "2 * (int (length xs) + 1) \<le> INT_MAX"
  shows "\<exists>f'. RepeatedField_Add v f = Some f' \<and> rf_at (xs @ [v]) f'"
proof -
  let ?r = "if rf_current_size f = rf_total_size f then Reserve (rf_total_size f + 1) f else Some f"
  have "\<exists>f1. ?r = Some f1 \<and> rf_at xs f1 \<and> int (length xs) < rf_total_size f1"
  proof (cases "rf_current_size f = rf_total_size f")
    case True
    then have "rf_total_size f = int (length xs)" using assms(1) by (simp add: rf_at_def)
    then show ?thesis using True Reserve_law [OF assms(1), of "rf_total_size f + 1"] assms(2) by auto
  next
    case False
    then show ?thesis using assms(1) by (auto simp: rf_at_def)
  qed
  then obtain f1 where f1: "?r = Some f1" "rf_at xs f1" "int (length xs) < rf_total_size f1" by blast
  have "RepeatedField_Add v f = AddAlreadyReserved v f1" using f1(1) by (simp add: RepeatedField_Add_def AddAlreadyReserved_def)
  then show ?thesis using AddAlreadyReserved_law [OF f1(2,3)] by auto
qed

lemma Truncate_law: "rf_at xs f \<Longrightarrow> 0 \<le> n \<Longrightarrow> n \<le> int (length xs) \<Longrightarrow> rf_at (take (nat n) xs) (Truncate n f)"
  by (auto simp: rf_at_def Truncate_def take_map [symmetric] min_def nat_le_iff split: option.splits
      dest: arg_cong [where f = "take (nat n)"])

lemma RemoveLast_law: "rf_at xs f \<Longrightarrow> xs \<noteq> [] \<Longrightarrow> rf_at (butlast xs) (RemoveLast f)"
  using Truncate_law [of xs f "int (length xs) - 1"]
  by (cases xs rule: rev_cases) (simp_all add: Truncate_def RemoveLast_def rf_at_def)

lemma Resize_law:
  assumes "rf_at xs f" and "0 \<le> n" and "2 * n \<le> INT_MAX"
  shows "\<exists>f'. Resize n v f = Some f' \<and> rf_at (take (nat n) xs @ replicate (nat n - length xs) v) f'"
proof (cases "n > int (length xs)")
  case False
  then show ?thesis using Truncate_law [OF assms(1,2)] rf_at_sizes(1) [OF assms(1)] by (simp add: Resize_def Truncate_def)
next
  case True
  obtain f1 where f1: "Reserve n f = Some f1" "rf_at xs f1" "n \<le> rf_total_size f1" using Reserve_law [OF assms(1,3)] by blast
  obtain rest where r: "rf_elements f1 = Some (map Some xs @ rest)" "rf_total_size f1 = int (length xs + length rest)"
    "rf_current_size f1 = int (length xs)" by (rule rf_at_Some [OF f1(2)]) (use f1(3) True in auto)
  let ?k = "nat n - length xs"
  have k: "nat (n - int (length xs)) = ?k" "?k \<le> length rest" using r(2) f1(3) True by simp_all
  have "mem_write (length xs) (replicate ?k (Some v)) (map Some xs @ rest) = Some (map Some (xs @ replicate ?k v) @ drop ?k rest)"
    using k(2) by (simp add: mem_write_def)
  then show ?thesis
    using f1(1) r True k rf_at_sizes(1) [OF assms(1)] by (simp add: Resize_def rf_at_cells)
qed

lemma Get_law: "rf_at xs f \<Longrightarrow> 0 \<le> i \<Longrightarrow> i < int (length xs) \<Longrightarrow> RepeatedField_Get i f = Some (xs ! nat i)"
  by (simp add: RepeatedField_Get_def load_cell_law)

lemma Set_law:
  assumes "rf_at xs f" and "0 \<le> i" and "i < int (length xs)"
  shows "\<exists>f'. RepeatedField_Set i v f = Some f' \<and> rf_at (xs[nat i := v]) f' \<and> rf_total_size f' = rf_total_size f"
  using store_cell_law [OF assms, of v] by (auto simp: RepeatedField_Set_def)

lemma extract_values_law:
  "rf_at xs f \<Longrightarrow> 0 \<le> i \<Longrightarrow> i + int k \<le> int (length xs) \<Longrightarrow> extract_values k i f = Some (take k (drop (nat i) xs))"
proof (induction k arbitrary: i)
  case (Suc k)
  have "drop (nat i) xs = xs ! nat i # drop (nat (i + 1)) xs"
    using Suc.prems by (simp add: nat_add_distrib Cons_nth_drop_Suc)
  then show ?case using Suc Get_law [of xs f i] by simp
qed simp

lemma slide_values_law:
  "rf_at xs f \<Longrightarrow> 0 \<le> num \<Longrightarrow> num \<le> i \<Longrightarrow> i + int k = int (length xs) \<Longrightarrow>
   \<exists>f'. slide_values k i num f = Some f' \<and>
     rf_at (take (nat (i - num)) xs @ drop (nat i) xs @ drop (length xs - nat num) xs) f'"
proof (induction k arbitrary: i f xs)
  case 0
  have "nat (i - num) = length xs - nat num" "nat i = length xs" using "0.prems" by auto
  then show ?case using "0.prems"(1) by simp
next
  case (Suc k)
  let ?n = "nat num" and ?i = "nat i"
  obtain f1 where f1: "RepeatedField_Set (i - num) (xs ! ?i) f = Some f1" "rf_at (xs[nat (i - num) := xs ! ?i]) f1"
    using Set_law [OF Suc.prems(1), of "i - num" "xs ! ?i"] Suc.prems by auto
  let ?ys = "xs[nat (i - num) := xs ! ?i]"
  obtain f2 where f2: "slide_values k (i + 1) num f1 = Some f2"
    "rf_at (take (nat (i + 1 - num)) ?ys @ drop (nat (i + 1)) ?ys @ drop (length ?ys - ?n) ?ys) f2"
    using Suc.IH [OF f1(2), of "i + 1"] Suc.prems by auto
  have n: "nat (i - num) = ?i - ?n" "nat (i + 1 - num) = Suc (?i - ?n)" "nat (i + 1) = Suc ?i" "?n \<le> ?i" "?i < length xs"
    using Suc.prems by linarith+
  have "take (Suc (?i - ?n)) ?ys = take (?i - ?n) xs @ [xs ! ?i]"
    using n less_imp_diff_less [OF n(5), of ?n] by (simp add: take_Suc_conv_app_nth del: diff_is_0_eq')
  moreover have "drop (Suc ?i) ?ys = drop (Suc ?i) xs" by (rule drop_update_cancel) (use n in linarith)
  moreover have "drop (length xs - ?n) ?ys = drop (length xs - ?n) xs" by (rule drop_update_cancel) (use n in linarith)
  moreover have "drop ?i xs = xs ! ?i # drop (Suc ?i) xs" using n by (simp add: Cons_nth_drop_Suc)
  ultimately have "rf_at (take (nat (i - num)) xs @ drop ?i xs @ drop (length xs - ?n) xs) f2"
    using f2(2) by (simp only: n length_list_update append_assoc append.simps)
  moreover have "RepeatedField_Get i f = Some (xs ! ?i)" using Get_law [OF Suc.prems(1), of i] Suc.prems by simp
  then have "slide_values (Suc k) i num f = Some f2" using f1(1) f2(1) by simp
  ultimately show ?case by blast
qed

lemma ExtractSubrange_law:
  assumes "rf_at xs f" and "0 \<le> start" and "0 \<le> num" and "start + num \<le> int (length xs)"
  shows "\<exists>f'. ExtractSubrange start num wanted f = Some (if wanted then take (nat num) (drop (nat start) xs) else [], f') \<and>
    rf_at (take (nat start) xs @ drop (nat (start + num)) xs) f'"
proof (cases "num = 0")
  case True
  then show ?thesis using assms(1) by (simp add: ExtractSubrange_def)
next
  case False
  let ?rest = "take (nat start) xs @ drop (nat (start + num)) xs"
  have size: "rf_size f = int (length xs)" using rf_at_sizes(1) [OF assms(1)] .
  have k: "start + num + int (nat (rf_size f - (start + num))) = int (length xs)" using size assms(4) by simp
  obtain f1 where f1: "slide_values (nat (rf_size f - (start + num))) (start + num) num f = Some f1"
    "rf_at (?rest @ drop (length xs - nat num) xs) f1"
    using slide_values_law [OF assms(1,3) _ k] assms(2) by auto
  have l: "int (length ?rest) = int (length xs) - num" using assms by auto
  have s: "rf_size f1 = int (length xs)" using rf_at_sizes(1) [OF f1(2)] l assms(3,4) by simp
  have "take (nat (int (length rs))) (rs @ ds) = rs" "int (length rs) \<le> int (length (rs @ ds))" for rs ds :: "'a list" by simp_all
  then have "rf_at ?rest (Truncate (int (length ?rest)) f1)"
    using Truncate_law [OF f1(2), of "int (length ?rest)"] by (metis of_nat_0_le_iff)
  then have "rf_at ?rest (Truncate (rf_size f1 - num) f1)" unfolding s l .
  then show ?thesis
    using f1(1) False assms extract_values_law [OF assms(1,2), of "nat num"] by (simp add: ExtractSubrange_def)
qed

lemma MergeFrom_law:
  assumes "rf_at ys other" and "rf_at xs f" and "2 * int (length xs + length ys) \<le> INT_MAX"
  shows "\<exists>f'. RepeatedField_MergeFrom other f = Some f' \<and> rf_at (xs @ ys) f'"
proof (cases "ys = []")
  case True
  then show ?thesis using assms(1,2) by (simp add: RepeatedField_MergeFrom_def rf_at_def)
next
  case False
  let ?n = "int (length xs + length ys)"
  obtain f1 where f1: "Reserve ?n f = Some f1" "rf_at xs f1" "?n \<le> rf_total_size f1" using Reserve_law [OF assms(2,3)] by blast
  have "0 < rf_total_size f1" using f1(3) False by (cases ys) auto
  then obtain rest where r: "rf_elements f1 = Some (map Some xs @ rest)" "rf_total_size f1 = int (length xs + length rest)"
    "rf_current_size f1 = int (length xs)" by (rule rf_at_Some [OF f1(2) disjI2])
  obtain rest' where o: "rf_elements other = Some (map Some ys @ rest')" "rf_current_size other = int (length ys)"
    by (rule rf_at_Some [OF assms(1) disjI1 [OF False]])
  have c: "CopyArray (map Some xs @ rest) (int (length xs)) (map Some ys @ rest') (int (length ys)) =
      Some (map Some (xs @ ys) @ drop (length ys) rest)"
    using r(2) f1(3) by (simp add: CopyArray_def mem_read_def mem_write_def)
  have s: "rf_current_size f + rf_current_size other = ?n" "rf_current_size other \<noteq> 0"
    using o(2) assms(2) False by (simp_all add: rf_at_def)
  have "RepeatedField_MergeFrom other f =
      Some (f1\<lparr>rf_elements := Some (map Some (xs @ ys) @ drop (length ys) rest), rf_current_size := ?n\<rparr>)"
    using f1(1) s r o c by (simp add: RepeatedField_MergeFrom_def)
  then show ?thesis using r(2) f1(3) by (auto simp: rf_at_cells)
qed

lemma Clear_law: "rf_at xs f \<Longrightarrow> rf_at [] (RepeatedField_Clear f)"
  using Truncate_law [of xs f 0] by (simp add: RepeatedField_Clear_def Truncate_def)

lemma CopyFrom_law:
  "rf_at ys other \<Longrightarrow> rf_at xs f \<Longrightarrow> 2 * int (length ys) \<le> INT_MAX \<Longrightarrow> \<exists>f'. RepeatedField_CopyFrom other f = Some f' \<and> rf_at ys f'"
  using MergeFrom_law [OF _ Clear_law, of ys other xs f] by (simp add: RepeatedField_CopyFrom_def)

lemma Swap_law: "rf_at xs f \<Longrightarrow> rf_at ys g \<Longrightarrow> rf_at ys (fst (RepeatedField_Swap f g)) \<and> rf_at xs (snd (RepeatedField_Swap f g))"
  by (auto simp: RepeatedField_Swap_def rf_at_def split: option.splits)

lemma SwapElements_law:
  assumes "rf_at xs f" and "0 \<le> i" and "i < int (length xs)" and "0 \<le> j" and "j < int (length xs)"
  shows "\<exists>f'. SwapElements i j f = Some f' \<and> rf_at (xs[nat i := xs ! nat j, nat j := xs ! nat i]) f'"
proof -
  obtain els where e: "store_cell (rf_elements f) i (xs ! nat j) = Some els" "rf_at (xs[nat i := xs ! nat j]) (f\<lparr>rf_elements := Some els\<rparr>)"
    using store_cell_law [OF assms(1-3)] by blast
  have "j < int (length (xs[nat i := xs ! nat j]))" using assms(5) by simp
  then show ?thesis
    using e(1) store_cell_law [OF e(2) assms(4), of "xs ! nat i"] load_cell_law [OF assms(1-3)] load_cell_law [OF assms(1,4,5)]
    by (auto simp: SwapElements_def)
qed

section \<open>Sequences of operations\<close>

datatype 'a field_op =
    Op_Add 'a | Op_Set int 'a | Op_RemoveLast | Op_Truncate int | Op_Resize int 'a | Op_Extract int int | Op_Clear
  | Op_Merge "'a list" | Op_Copy "'a list" | Op_SwapElements int int | Op_Swap "'a list"

text \<open>A field with these elements, added one after the other, as the other operand.\<close>

fun add_values :: "'a list \<Rightarrow> 'a repeated_field \<Rightarrow> 'a repeated_field option" where
  "add_values [] f = Some f"
| "add_values (v # vs) f = do { f \<leftarrow> RepeatedField_Add v f; add_values vs f }"

fun field_step :: "'a field_op \<Rightarrow> 'a repeated_field \<Rightarrow> 'a repeated_field option" where
  "field_step (Op_Add v) f = RepeatedField_Add v f"
| "field_step (Op_Set i v) f = RepeatedField_Set i v f"
| "field_step Op_RemoveLast f = Some (RemoveLast f)"
| "field_step (Op_Truncate n) f = Some (Truncate n f)"
| "field_step (Op_Resize n v) f = Resize n v f"
| "field_step (Op_Extract i n) f = map_option snd (ExtractSubrange i n True f)"
| "field_step Op_Clear f = Some (RepeatedField_Clear f)"
| "field_step (Op_Merge vs) f = do { other \<leftarrow> add_values vs RepeatedField_new; RepeatedField_MergeFrom other f }"
| "field_step (Op_Copy vs) f = do { other \<leftarrow> add_values vs RepeatedField_new; RepeatedField_CopyFrom other f }"
| "field_step (Op_SwapElements i j) f = SwapElements i j f"
| "field_step (Op_Swap vs) f = do { other \<leftarrow> add_values vs RepeatedField_new; Some (fst (RepeatedField_Swap f other)) }"

fun field_steps :: "'a field_op list \<Rightarrow> 'a repeated_field \<Rightarrow> 'a repeated_field option" where
  "field_steps [] f = Some f"
| "field_steps (x # ops) f = do { f \<leftarrow> field_step x f; field_steps ops f }"

text \<open>The same on a list; \<open>None\<close> when the caller breaks the precondition.\<close>

definition in_list :: "int \<Rightarrow> 'a list \<Rightarrow> bool" where
  "in_list i xs \<longleftrightarrow> 0 \<le> i \<and> i < int (length xs)"

fun list_step :: "'a field_op \<Rightarrow> 'a list \<Rightarrow> 'a list option" where
  "list_step (Op_Add v) xs = Some (xs @ [v])"
| "list_step (Op_Set i v) xs = (if in_list i xs then Some (xs[nat i := v]) else None)"
| "list_step Op_RemoveLast xs = (if xs = [] then None else Some (butlast xs))"
| "list_step (Op_Truncate n) xs = (if 0 \<le> n \<and> n \<le> int (length xs) then Some (take (nat n) xs) else None)"
| "list_step (Op_Resize n v) xs = (if 0 \<le> n then Some (take (nat n) xs @ replicate (nat n - length xs) v) else None)"
| "list_step (Op_Extract i n) xs =
     (if 0 \<le> i \<and> 0 \<le> n \<and> i + n \<le> int (length xs) then Some (take (nat i) xs @ drop (nat (i + n)) xs) else None)"
| "list_step Op_Clear xs = Some []"
| "list_step (Op_Merge vs) xs = Some (xs @ vs)"
| "list_step (Op_Copy vs) xs = Some vs"
| "list_step (Op_SwapElements i j) xs =
     (if in_list i xs \<and> in_list j xs then Some (xs[nat i := xs ! nat j, nat j := xs ! nat i]) else None)"
| "list_step (Op_Swap vs) xs = Some vs"

text \<open>No list on the way is longer than the doubling of sizes can handle.\<close>

definition kMaxFieldSize :: int where "kMaxFieldSize = 2 ^ 30 - 1"

fun list_steps :: "'a field_op list \<Rightarrow> 'a list \<Rightarrow> 'a list option" where
  "list_steps [] xs = Some xs"
| "list_steps (x # ops) xs = do { xs \<leftarrow> list_step x xs; (if int (length xs) \<le> kMaxFieldSize then list_steps ops xs else None) }"

lemma add_values_law:
  "rf_at xs f \<Longrightarrow> int (length xs + length vs) \<le> kMaxFieldSize \<Longrightarrow> \<exists>f'. add_values vs f = Some f' \<and> rf_at (xs @ vs) f'"
proof (induction vs arbitrary: xs f)
  case (Cons v vs)
  have "2 * (int (length xs) + 1) \<le> INT_MAX" using Cons.prems(2) by (simp add: INT_MAX_def kMaxFieldSize_def)
  then obtain f1 where "RepeatedField_Add v f = Some f1" "rf_at (xs @ [v]) f1" using Add_law [OF Cons.prems(1)] by blast
  then show ?case using Cons.IH [of "xs @ [v]" f1] Cons.prems(2) by simp
qed simp

lemma field_step_law:
  assumes "rf_at xs f" and "list_step x xs = Some ys" and "int (length ys) \<le> kMaxFieldSize"
  shows "\<exists>f'. field_step x f = Some f' \<and> rf_at ys f'"
proof -
  have max: "2 * int n \<le> INT_MAX" if "int n \<le> kMaxFieldSize" for n using that by (simp add: INT_MAX_def kMaxFieldSize_def)
  have other: "\<exists>g. add_values vs RepeatedField_new = Some g \<and> rf_at vs g" if "int (length vs) \<le> kMaxFieldSize" for vs :: "'a list"
    using add_values_law [OF rf_at_new, of vs] that by simp
  show ?thesis
  proof (cases x)
    case (Op_Add v)
    then show ?thesis using assms Add_law [OF assms(1), of v] max [OF assms(3)] by auto
  next
    case (Op_Set i v)
    then show ?thesis using assms(2) Set_law [OF assms(1), of i v] by (auto simp: in_list_def split: if_splits)
  next
    case Op_RemoveLast
    then show ?thesis using assms(2) RemoveLast_law [OF assms(1)] by (auto split: if_splits)
  next
    case (Op_Truncate n)
    then show ?thesis using assms(2) Truncate_law [OF assms(1), of n] by (auto split: if_splits)
  next
    case (Op_Resize n v)
    then have "0 \<le> n" "ys = take (nat n) xs @ replicate (nat n - length xs) v" using assms(2) by (auto split: if_splits)
    moreover have "2 * n \<le> INT_MAX" using calculation max [OF assms(3)] by (auto simp: min_def split: if_splits)
    ultimately show ?thesis using Op_Resize Resize_law [OF assms(1), of n v] by auto
  next
    case (Op_Extract i n)
    then show ?thesis using assms(2) ExtractSubrange_law [OF assms(1), of i n True] by (auto split: if_splits)
  next
    case Op_Clear
    then show ?thesis using assms(2) Clear_law [OF assms(1)] by auto
  next
    case (Op_Merge vs)
    then have ys: "ys = xs @ vs" using assms(2) by simp
    then obtain g where "add_values vs RepeatedField_new = Some g" "rf_at vs g" using other [of vs] assms(3) by auto
    then show ?thesis using Op_Merge ys MergeFrom_law [OF _ assms(1), of vs g] max [OF assms(3)] by auto
  next
    case (Op_Copy vs)
    then have ys: "ys = vs" using assms(2) by simp
    then obtain g where "add_values vs RepeatedField_new = Some g" "rf_at vs g" using other [of vs] assms(3) by auto
    then show ?thesis using Op_Copy ys CopyFrom_law [OF _ assms(1), of vs g] max [OF assms(3)] by auto
  next
    case (Op_SwapElements i j)
    then show ?thesis using assms(2) SwapElements_law [OF assms(1), of i j] by (auto simp: in_list_def split: if_splits)
  next
    case (Op_Swap vs)
    then have ys: "ys = vs" using assms(2) by simp
    then obtain g where "add_values vs RepeatedField_new = Some g" "rf_at vs g" using other [of vs] assms(3) by auto
    then show ?thesis using Op_Swap ys Swap_law [OF assms(1), of vs g] by auto
  qed
qed

lemma field_steps_law:
  "rf_at xs f \<Longrightarrow> list_steps ops xs = Some ys \<Longrightarrow> \<exists>f'. field_steps ops f = Some f' \<and> rf_at ys f'"
proof (induction ops arbitrary: xs f)
  case (Cons x ops)
  then obtain zs where zs: "list_step x xs = Some zs" "int (length zs) \<le> kMaxFieldSize" "list_steps ops zs = Some ys"
    by (auto simp: bind_eq_Some_conv split: if_splits)
  obtain f1 where "field_step x f = Some f1" "rf_at zs f1" using field_step_law [OF Cons.prems(1) zs(1,2)] by blast
  then show ?case using Cons.IH [OF _ zs(3), of f1] by simp
qed simp

text \<open>
  C22.
  Any sequence of operations on a new field that a list allows, with no more than \<open>2 ^ 30 - 1\<close> elements at a time, stays
  inside the array, overflows no size and leaves the field with the elements of the list: \<open>size\<close> is its length, \<open>Get\<close>
  reads each element, and the loop of \<open>ExtractSubrange\<close> copies all of them out.
\<close>

theorem repeated_field_is_a_list:
  assumes "list_steps ops [] = Some xs"
  shows "\<exists>f. field_steps ops RepeatedField_new = Some f \<and> rf_size f = int (length xs) \<and> (rf_empty f \<longleftrightarrow> xs = []) \<and>
    map (\<lambda>i. RepeatedField_Get (int i) f) [0..<length xs] = map Some xs \<and>
    extract_values (length xs) 0 f = Some xs"
proof -
  obtain f where f: "field_steps ops RepeatedField_new = Some f" "rf_at xs f" using field_steps_law [OF rf_at_new assms] by blast
  have "map (\<lambda>i. RepeatedField_Get (int i) f) [0..<length xs] = map Some xs"
    by (rule nth_equalityI) (simp_all add: Get_law [OF f(2)])
  then show ?thesis
    using f rf_at_sizes [OF f(2)] extract_values_law [OF f(2), of 0 "length xs"] by auto
qed

theorem repeated_field_is_a_list_witness:
  "\<exists>f. field_steps [Op_Add 1, Op_Merge [2, 3, 4, 5 :: int], Op_Extract 1 2, Op_Set 0 7, Op_SwapElements 0 2] RepeatedField_new = Some f \<and>
    rf_size f = 3 \<and> \<not> rf_empty f \<and> RepeatedField_Get 0 f = Some 5 \<and> RepeatedField_Get 1 f = Some 4 \<and> RepeatedField_Get 2 f = Some 7"
proof -
  have "list_steps [Op_Add 1, Op_Merge [2, 3, 4, 5 :: int], Op_Extract 1 2, Op_Set 0 7, Op_SwapElements 0 2] [] = Some [5, 4, 7]"
    by code_simp
  from repeated_field_is_a_list [OF this] show ?thesis by auto
qed

end
