(* ===== verification/RepeatedRead.thy ===== *)
theory RepeatedRead
  imports MessageLite RepeatedField
begin

text \<open>
  Repeated fields of primitive types on the wire (wire_format_lite_inl.h, wire_format_lite.cc): one value behind each tag,
  read ahead as long as the next tag is the same, and packed values behind one length. The values are those of \<open>WireFormat\<close>;
  a parameter of type \<open>FieldType\<close> selects the instance of the template.
\<close>

section \<open>The code\<close>

definition ExpectTagFromArray :: "byte list \<Rightarrow> nat \<Rightarrow> uint32 \<Rightarrow> nat option option" where
  "ExpectTagFromArray buffer p expected =
     (if expected < 2 ^ 7 then do {
        b \<leftarrow> mem_get p buffer;
        Some (if ucast b = expected then Some (p + 1) else None) }
      else if expected < 2 ^ 14 then do {
        b \<leftarrow> mem_get p buffer;
        (if b = ucast (expected OR 0x80) then do {
           c \<leftarrow> mem_get (p + 1) buffer;
           Some (if c = ucast (drop_bit 7 expected) then Some (p + 2) else None) }
         else Some None) }
      else Some None)"

text \<open>The types with a specialisation, and the bytes of their values.\<close>

definition fixed_size_type :: "FieldType \<Rightarrow> bool" where
  "fixed_size_type t \<longleftrightarrow> t \<in> {TYPE_FIXED32, TYPE_FIXED64, TYPE_SFIXED32, TYPE_SFIXED64, TYPE_FLOAT, TYPE_DOUBLE}"

definition size_of_type :: "FieldType \<Rightarrow> int" where
  "size_of_type t = (if t \<in> {TYPE_FIXED64, TYPE_SFIXED64, TYPE_DOUBLE} then 8 else 4)"

fun zero_of_type :: "FieldType \<Rightarrow> primitive" where
  "zero_of_type TYPE_FIXED64 = Fixed64 0"
| "zero_of_type TYPE_SFIXED64 = SFixed64 0"
| "zero_of_type TYPE_DOUBLE = Double 0"
| "zero_of_type TYPE_SFIXED32 = SFixed32 0"
| "zero_of_type TYPE_FLOAT = Float 0"
| "zero_of_type _ = Fixed32 0"

subsection \<open>One tag for each value\<close>

fun repeated_loop ::
  "'s zero_copy_input \<Rightarrow> FieldType \<Rightarrow> uint32 \<Rightarrow> nat \<Rightarrow> 's coded_input \<Rightarrow> primitive repeated_field \<Rightarrow>
     (bool \<times> 's coded_input \<times> primitive repeated_field) option" where
  "repeated_loop zs t tag 0 s values = Some (True, s, values)"
| "repeated_loop zs t tag (Suc elements_already_reserved) s values = do {
     (expected, s) \<leftarrow> ExpectTag tag s;
     (if \<not> expected then Some (True, s, values)
      else do {
        (r, s) \<leftarrow> ReadPrimitive zs t s;
        (case r of
           None \<Rightarrow> Some (False, s, values)
         | Some v \<Rightarrow> do {
             values \<leftarrow> AddAlreadyReserved v values;
             repeated_loop zs t tag elements_already_reserved s values }) }) }"

definition ReadRepeatedPrimitive_any ::
  "'s zero_copy_input \<Rightarrow> FieldType \<Rightarrow> uint32 \<Rightarrow> 's coded_input \<Rightarrow> primitive repeated_field \<Rightarrow>
     (bool \<times> 's coded_input \<times> primitive repeated_field) option" where
  "ReadRepeatedPrimitive_any zs t tag input values = do {
     (r, input) \<leftarrow> ReadPrimitive zs t input;
     (case r of
        None \<Rightarrow> Some (False, input, values)
      | Some v \<Rightarrow> do {
          values \<leftarrow> RepeatedField_Add v values;
          repeated_loop zs t tag (nat (Capacity values - rf_size values)) input values }) }"

text \<open>The loop over the block in memory, with the number of values it has read.\<close>

fun fixed_size_loop ::
  "FieldType \<Rightarrow> uint32 \<Rightarrow> nat \<Rightarrow> byte list \<Rightarrow> nat \<Rightarrow> primitive repeated_field \<Rightarrow> (nat \<times> primitive repeated_field) option" where
  "fixed_size_loop t tag 0 buffer p values = Some (0, values)"
| "fixed_size_loop t tag (Suc elements_available) buffer p values = do {
     r \<leftarrow> ExpectTagFromArray buffer p tag;
     (case r of
        None \<Rightarrow> Some (0, values)
      | Some p \<Rightarrow> do {
          (v, p) \<leftarrow> ReadPrimitiveFromArray t buffer p;
          values \<leftarrow> AddAlreadyReserved v values;
          (num_read, values) \<leftarrow> fixed_size_loop t tag elements_available buffer p values;
          Some (num_read + 1, values) }) }"

definition ReadRepeatedFixedSizePrimitive ::
  "'s zero_copy_input \<Rightarrow> FieldType \<Rightarrow> int \<Rightarrow> uint32 \<Rightarrow> 's coded_input \<Rightarrow> primitive repeated_field \<Rightarrow>
     (bool \<times> 's coded_input \<times> primitive repeated_field) option" where
  "ReadRepeatedFixedSizePrimitive zs t tag_size tag input values = do {
     (r, input) \<leftarrow> ReadPrimitive zs t input;
     (case r of
        None \<Rightarrow> Some (False, input, values)
      | Some v \<Rightarrow> do {
          values \<leftarrow> RepeatedField_Add v values;
          let buffer = cd_bytes input; size = cd_size input in
          (if size > 0 then
             let per_value_size = tag_size + size_of_type t;
               elements_available = min (Capacity values - rf_size values) (size div per_value_size) in do {
             (num_read, values) \<leftarrow> fixed_size_loop t tag (nat elements_available) buffer 0 values;
             let read_bytes = int num_read * per_value_size in
             (if read_bytes > 0 then do {
                (ok, input) \<leftarrow> CodedInputStream_Skip zs read_bytes input;
                Some (True, input, values) }
              else Some (True, input, values)) }
           else Some (True, input, values)) }) }"

definition ReadRepeatedPrimitive ::
  "'s zero_copy_input \<Rightarrow> FieldType \<Rightarrow> int \<Rightarrow> uint32 \<Rightarrow> 's coded_input \<Rightarrow> primitive repeated_field \<Rightarrow>
     (bool \<times> 's coded_input \<times> primitive repeated_field) option" where
  "ReadRepeatedPrimitive zs t tag_size tag input values =
     (if fixed_size_type t then ReadRepeatedFixedSizePrimitive zs t tag_size tag input values
      else ReadRepeatedPrimitive_any zs t tag input values)"

subsection \<open>Packed values\<close>

text \<open>The loop up to the limit; \<open>is_valid\<close> says which values are kept.\<close>

partial_function (option) packed_loop ::
  "'s zero_copy_input \<Rightarrow> FieldType \<Rightarrow> (primitive \<Rightarrow> bool) \<Rightarrow> 's coded_input \<times> primitive repeated_field \<Rightarrow>
     (bool \<times> 's coded_input \<times> primitive repeated_field) option" where
  "packed_loop zs t is_valid p =
     (if BytesUntilLimit (fst p) > 0 then do {
        (r, s) \<leftarrow> ReadPrimitive zs t (fst p);
        (if r = None then Some (False, s, snd p)
         else do {
           v \<leftarrow> r;
           values \<leftarrow> (if is_valid v then RepeatedField_Add v (snd p) else Some (snd p));
           packed_loop zs t is_valid (s, values) }) }
      else Some (True, fst p, snd p))"

definition ReadPacked_any ::
  "'s zero_copy_input \<Rightarrow> FieldType \<Rightarrow> (primitive \<Rightarrow> bool) \<Rightarrow> 's coded_input \<Rightarrow> primitive repeated_field \<Rightarrow>
     (bool \<times> 's coded_input \<times> primitive repeated_field) option" where
  "ReadPacked_any zs t is_valid input values = do {
     (len, input) \<leftarrow> ReadVarint32 zs input;
     (case len of
        None \<Rightarrow> Some (False, input, values)
      | Some len \<Rightarrow>
          let (limit, input) = PushLimit (sint len) input in do {
          (ok, input, values) \<leftarrow> packed_loop zs t is_valid (input, values);
          (if \<not> ok then Some (False, input, values) else Some (True, PopLimit limit input, values)) }) }"

definition ReadPackedEnumNoInline ::
  "'s zero_copy_input \<Rightarrow> (int \<Rightarrow> bool) \<Rightarrow> 's coded_input \<Rightarrow> primitive repeated_field \<Rightarrow>
     (bool \<times> 's coded_input \<times> primitive repeated_field) option" where
  "ReadPackedEnumNoInline zs is_valid input values =
     ReadPacked_any zs TYPE_ENUM (\<lambda>v. case v of Enum n \<Rightarrow> is_valid (sint n) | _ \<Rightarrow> False) input values"

text \<open>The values that are copied into the array as they are, on a little-endian machine.\<close>

fun load_values :: "FieldType \<Rightarrow> nat \<Rightarrow> byte list \<Rightarrow> nat \<Rightarrow> primitive list option" where
  "load_values t 0 bs p = Some []"
| "load_values t (Suc k) bs p = do {
     (v, p) \<leftarrow> ReadPrimitiveFromArray t bs p;
     vs \<leftarrow> load_values t k bs p;
     Some (v # vs) }"

fun packed_slow ::
  "'s zero_copy_input \<Rightarrow> FieldType \<Rightarrow> nat \<Rightarrow> 's coded_input \<Rightarrow> primitive repeated_field \<Rightarrow>
     (bool \<times> 's coded_input \<times> primitive repeated_field) option" where
  "packed_slow zs t 0 s values = Some (True, s, values)"
| "packed_slow zs t (Suc k) s values = do {
     (r, s) \<leftarrow> ReadPrimitive zs t s;
     (case r of
        None \<Rightarrow> Some (False, s, values)
      | Some v \<Rightarrow> do { values \<leftarrow> RepeatedField_Add v values; packed_slow zs t k s values }) }"

text \<open>The values at \<open>mutable_data() + i\<close>; no value is stored behind a null pointer.\<close>

definition store_values :: "int \<Rightarrow> 'a list \<Rightarrow> 'a repeated_field \<Rightarrow> 'a repeated_field option" where
  "store_values i vs f =
     (case rf_elements f of
        None \<Rightarrow> if vs = [] then Some f else None
      | Some elements \<Rightarrow> do {
          elements \<leftarrow> mem_write (nat i) (map Some vs) elements;
          Some (f\<lparr>rf_elements := Some elements\<rparr>) })"

text \<open>When \<open>ReadRaw\<close> fails, the cells behind the old entries keep what was stored there.\<close>

definition ReadPackedFixedSizePrimitive ::
  "'s zero_copy_input \<Rightarrow> FieldType \<Rightarrow> 's coded_input \<Rightarrow> primitive repeated_field \<Rightarrow>
     (bool \<times> 's coded_input \<times> primitive repeated_field) option" where
  "ReadPackedFixedSizePrimitive zs t input values = do {
     (len, input) \<leftarrow> ReadVarint32 zs input;
     (case len of
        None \<Rightarrow> Some (False, input, values)
      | Some len \<Rightarrow>
          let old_entries = rf_size values;
            new_entries = uint len div size_of_type t;
            new_bytes = new_entries * size_of_type t in
          if new_bytes \<noteq> uint len then Some (False, input, values)
          else
            let bytes_limit = BytesUntilTotalBytesLimit input;
              bytes_limit = (if bytes_limit = - 1 then BytesUntilLimit input else min bytes_limit (BytesUntilLimit input)) in
            if bytes_limit \<ge> new_bytes then do {
              values \<leftarrow> Resize (old_entries + new_entries) (zero_of_type t) values;
              (ok, bs, input) \<leftarrow> ReadRaw zs new_bytes input;
              (if \<not> ok then Some (False, input, Truncate old_entries values)
               else do {
                 vs \<leftarrow> load_values t (nat new_entries) bs 0;
                 values \<leftarrow> store_values old_entries vs values;
                 Some (True, input, values) }) }
            else packed_slow zs t (nat new_entries) input values) }"

definition ReadPackedPrimitive ::
  "'s zero_copy_input \<Rightarrow> FieldType \<Rightarrow> 's coded_input \<Rightarrow> primitive repeated_field \<Rightarrow>
     (bool \<times> 's coded_input \<times> primitive repeated_field) option" where
  "ReadPackedPrimitive zs t input values =
     (if fixed_size_type t then ReadPackedFixedSizePrimitive zs t input values
      else ReadPacked_any zs t (\<lambda>_. True) input values)"

section \<open>Values in a list of bytes\<close>

text \<open>The values of a type that make up a list of bytes.\<close>

function parse_values :: "FieldType \<Rightarrow> byte list \<Rightarrow> primitive list option" where
  "parse_values t bs =
     (if bs = [] then Some []
      else case first_value t bs of
          None \<Rightarrow> None
        | Some (v, k) \<Rightarrow> if k = 0 then None else map_option ((#) v) (parse_values t (drop k bs)))"
  by pat_completeness auto
termination
  by (relation "measure (length \<circ> snd)") auto

declare parse_values.simps [simp del]

lemma parse_values_Nil [simp]: "parse_values t [] = Some []"
  by (simp add: parse_values.simps)

lemma first_value_pos:
  assumes "first_value t bs = Some (v, k)"
  shows "0 < k" and "k \<le> length bs"
proof -
  have "0 < k \<and> k \<le> length bs"
    using assms first_varint_pos(1,2) [of bs] ReadLittleEndianFromArray_length [of bs]
    by (cases t) (auto simp: apfst_def map_prod_def split: prod.splits)
  then show "0 < k" and "k \<le> length bs" by simp_all
qed

lemma parse_values_step:
  assumes "bs \<noteq> []"
  shows "parse_values t bs = (case first_value t bs of None \<Rightarrow> None | Some (v, k) \<Rightarrow> map_option ((#) v) (parse_values t (drop k bs)))"
  using assms first_value_pos(1) [of t bs] by (subst parse_values.simps) (auto split: option.splits)

lemma parse_values_written:
  "\<forall>v \<in> set vs. declared_type v = t \<Longrightarrow> parse_values t (concat (map value_to_array vs)) = Some vs"
proof (induction vs)
  case (Cons v vs)
  let ?b = "value_to_array v @ concat (map value_to_array vs)"
  have f: "first_value t ?b = Some (v, length (value_to_array v))" using first_value_to_array [of v] Cons.prems by simp
  then have "?b \<noteq> []" using first_value_pos [OF f] by fastforce
  then show ?case using Cons f by (simp add: parse_values_step)
qed simp

section \<open>Packed values\<close>

context input_contract
begin

lemma until_limit_ge:
  assumes "cd_inv good pending last_block s"
  shows "int (length (cd_visible pending s)) \<le> cd_current_limit s - CurrentPosition s"
  using assms by (auto simp: cd_visible_def cd_inv_def closest_limit_def)

lemma packed_loop_law:
  assumes "is_primitive t"
  shows "cd_inv good pending last_block s \<Longrightarrow> cd_current_limit s \<noteq> INT_MAX \<Longrightarrow> rf_at xs values \<Longrightarrow>
    2 * int (length xs + length (cd_visible pending s)) \<le> INT_MAX \<Longrightarrow>
    \<exists>ok s' values'. packed_loop zs t P (s, values) = Some (ok, s', values') \<and>
      (case (if BytesUntilLimit s = int (length (cd_visible pending s)) then parse_values t (cd_visible pending s) else None) of
         None \<Rightarrow> \<not> ok
       | Some vs \<Rightarrow> ok \<and> rf_at (xs @ filter P vs) values' \<and> cd_moved good pending last_block (length (cd_visible pending s)) s s')"
proof (induction "length (cd_visible pending s)" arbitrary: s xs "values" rule: less_induct)
  case less
  note inv = less.prems(1) and rf = less.prems(3)
  let ?bs = "cd_visible pending s"
  have n: "BytesUntilLimit s = cd_current_limit s - CurrentPosition s" using less.prems(2) by (simp add: BytesUntilLimit_def)
  have ge: "int (length ?bs) \<le> BytesUntilLimit s" using until_limit_ge [OF inv] n by simp
  show ?case
  proof (cases "BytesUntilLimit s > 0")
    case False
    then have "int (length ?bs) = 0" "BytesUntilLimit s = int (length ?bs)" using ge by linarith+
    then show ?thesis
      using False rf cd_moved_0 [OF inv]
      by (subst packed_loop.simps) (intro exI [of _ True] exI [of _ s] exI [of _ "values"], simp)
  next
    case True
    obtain s1 k where s1: "ReadPrimitive zs t s = Some (map_option fst (first_value t ?bs), s1)"
      "cd_moved good pending last_block k s s1" "case first_value t ?bs of Some (v, j) \<Rightarrow> k = j | None \<Rightarrow> True"
      using ReadPrimitive_law [OF inv assms] by blast
    show ?thesis
    proof (cases "first_value t ?bs")
      case None
      then have "packed_loop zs t P (s, values) = Some (False, s1, values)"
        using True s1(1) by (subst packed_loop.simps) simp
      moreover have "(if BytesUntilLimit s = int (length ?bs) then parse_values t ?bs else None) = None"
        using None True by (cases "?bs = []") (auto simp: parse_values_step)
      ultimately show ?thesis by (intro exI [of _ False] exI [of _ s1] exI [of _ "values"]) simp
    next
      case (Some r)
      obtain v j where r: "r = (v, j)" by (cases r)
      have k: "k = j" "0 < k" "k \<le> length ?bs" using s1(3) Some r first_value_pos [of t ?bs v j] by simp_all
      have m: "cd_inv good pending last_block s1" "cd_visible pending s1 = drop k ?bs" "cd_current_limit s1 = cd_current_limit s"
        "CurrentPosition s1 = CurrentPosition s + int k"
        using s1(2) by (simp_all add: cd_moved_def cd_frame_def)
      have "2 * (int (length xs) + 1) \<le> INT_MAX" using less.prems(4) k by simp
      then obtain values1 where v1: "(if P v then RepeatedField_Add v values else Some values) = Some values1"
        "rf_at (xs @ filter P [v]) values1"
        using Add_law [OF rf, of v] rf by (cases "P v") auto
      have S: "packed_loop zs t P (s, values) = packed_loop zs t P (s1, values1)"
        using True s1(1) Some r v1(1) by (subst packed_loop.simps, cases "P v") simp_all
      have u: "BytesUntilLimit s1 = BytesUntilLimit s - int k" using m(3,4) n less.prems(2) by (simp add: BytesUntilLimit_def)
      have "length (cd_visible pending s1) < length ?bs" "cd_current_limit s1 \<noteq> INT_MAX"
        "2 * int (length (xs @ filter P [v]) + length (cd_visible pending s1)) \<le> INT_MAX"
        using m k less.prems(2,4) by auto
      from less.hyps [OF this(1) m(1) this(2) v1(2) this(3)]
      obtain ok s' values' where r': "packed_loop zs t P (s1, values1) = Some (ok, s', values')"
        "case (if BytesUntilLimit s1 = int (length (cd_visible pending s1)) then parse_values t (cd_visible pending s1) else None) of
           None \<Rightarrow> \<not> ok
         | Some vs \<Rightarrow> ok \<and> rf_at ((xs @ filter P [v]) @ filter P vs) values' \<and>
             cd_moved good pending last_block (length (cd_visible pending s1)) s1 s'" by blast
      have ne: "?bs \<noteq> []" using k by auto
      have e: "(if BytesUntilLimit s = int (length ?bs) then parse_values t ?bs else None) =
          map_option ((#) v) (if BytesUntilLimit s1 = int (length (cd_visible pending s1)) then parse_values t (cd_visible pending s1) else None)"
        using Some r k u m(2) by (simp add: parse_values_step [OF ne])
      show ?thesis
      proof (cases "if BytesUntilLimit s1 = int (length (cd_visible pending s1)) then parse_values t (cd_visible pending s1) else None")
        case None
        then show ?thesis
          unfolding S e r'(1) using r'(2) by (intro exI [of _ ok] exI [of _ s'] exI [of _ values']) simp
      next
        case (Some vs)
        have l: "k + length (cd_visible pending s1) = length ?bs" using m(2) k by simp
        show ?thesis
          unfolding S e r'(1) Some using r'(2) Some cd_moved_trans [OF s1(2), of "length (cd_visible pending s1)" s'] l
          by (intro exI [of _ ok] exI [of _ s'] exI [of _ values']) auto
      qed
    qed
  qed
qed

end

context input_contract
begin

text \<open>
  Packed values whose length is there, or reaches over the limit that ends the data: then those up to this limit are read.
\<close>

lemma ReadPacked_any_law:
  fixes s :: "'s coded_input" and v :: nat
  defines "bs \<equiv> cd_visible pending s" and "len \<equiv> of_nat v :: uint32"
  assumes "is_primitive t" and "cd_inv good pending last_block s" and "rf_at xs values" and "2 * int (length xs + length bs) \<le> INT_MAX"
    and "CurrentPosition s + int (length bs) < INT_MAX" and "first_varint bs = Some (v, k)"
    and "unat len \<le> length (drop k bs) \<or> cd_current_limit s = CurrentPosition s + int (length bs)"
  shows "\<exists>ok s' values'. ReadPacked_any zs t P s values = Some (ok, s', values') \<and>
    (case parse_values t (take (unat len) (drop k bs)) of
       None \<Rightarrow> \<not> ok
     | Some vs \<Rightarrow> ok \<and> rf_at (xs @ filter P vs) values' \<and>
         cd_moved good pending last_block (k + length (take (unat len) (drop k bs))) s s')"
proof -
  let ?sub = "take (unat len) (drop k bs)"
  obtain s1 k1 where v32: "ReadVarint32 zs s = Some (map_option (\<lambda>(v, j). of_nat v) (first_varint bs), s1)"
    "cd_moved good pending last_block k1 s s1" "case first_varint bs of Some (v, j) \<Rightarrow> k1 = j | None \<Rightarrow> True"
    using ReadVarint32_law [OF assms(4)] unfolding bs_def by blast
  have m: "cd_moved good pending last_block k s s1" and R: "ReadVarint32 zs s = Some (Some len, s1)"
    using v32 assms(8) by (simp_all add: len_def)
  have s1: "cd_inv good pending last_block s1" "cd_visible pending s1 = drop k bs" "CurrentPosition s1 = CurrentPosition s + int k"
    "cd_current_limit s1 = cd_current_limit s"
    using m by (simp_all add: cd_moved_def cd_frame_def bs_def)
  have k: "k \<le> length bs" using first_varint_pos(2) [OF assms(8)] .
  obtain s2 where s2: "PushLimit (sint len) s1 = (cd_current_limit s1, s2)" "cd_inv good pending last_block s2"
    "cd_rest pending s2 = cd_rest pending s1" "CurrentPosition s2 = CurrentPosition s1"
    "cd_visible pending s2 = ?sub" "cd_total_bytes_limit s2 = cd_total_bytes_limit s1"
    "snd (snd (cd_frame s2)) = snd (snd (cd_frame s1))"
    using PushLimit_length [OF s1(1), of len] unfolding s1(2) by metis
  have cur: "int (length (drop k bs)) \<le> cd_current_limit s1 - CurrentPosition s1" "cd_current_limit s1 \<le> INT_MAX"
    using until_limit_ge [OF s1(1)] s1(1) by (simp_all add: s1(2) cd_inv_def)
  have lim: "cd_current_limit s2 = min (if 0 \<le> sint len \<and> sint len \<le> INT_MAX - CurrentPosition s1 then CurrentPosition s1 + sint len else INT_MAX)
      (cd_current_limit s1)"
    using s2(1) by (auto simp: PushLimit_def Let_def)
  have E: "cd_current_limit s2 = CurrentPosition s1 + int (length ?sub)"
  proof (cases "unat len \<le> length (drop k bs)")
    case True
    then have "int (unat len) \<le> INT_MAX - CurrentPosition s1" using cur by linarith
    moreover have "0 \<le> CurrentPosition s1" using s1(1) by (simp add: cd_inv_def)
    ultimately have "sint len = int (unat len)" using sint_of_len [of len] by simp
    moreover have "int (unat len) \<le> cd_current_limit s1 - CurrentPosition s1" using True cur(1) by linarith
    ultimately show ?thesis
      using lim True \<open>int (unat len) \<le> INT_MAX - CurrentPosition s1\<close> by (simp add: min_absorb1 min_absorb2)
  next
    case False
    then have "cd_current_limit s1 = CurrentPosition s1 + int (length ?sub)" using assms(9) s1(3,4) k by simp
    moreover have "sint len < 0 \<or> int (length (drop k bs)) < sint len"
      using False sint_of_len [of len] sint_big [of len] by linarith
    ultimately show ?thesis using lim cur(2) False by auto
  qed
  have "CurrentPosition s1 + int (length ?sub) < INT_MAX" using assms(7) s1(3) k by simp
  then have ne: "cd_current_limit s2 \<noteq> INT_MAX" using E by simp
  have u: "BytesUntilLimit s2 = int (length (cd_visible pending s2))" using ne E s2(4,5) by (simp add: BytesUntilLimit_def)
  have room: "2 * int (length xs + length (cd_visible pending s2)) \<le> INT_MAX" using assms(6) s2(5) by simp
  obtain ok s3 values3 where p: "packed_loop zs t P (s2, values) = Some (ok, s3, values3)"
    "case parse_values t ?sub of None \<Rightarrow> \<not> ok
     | Some vs \<Rightarrow> ok \<and> rf_at (xs @ filter P vs) values3 \<and> cd_moved good pending last_block (length ?sub) s2 s3"
    using packed_loop_law [OF assms(3) s2(2) ne assms(5) room, of P] unfolding u s2(5) by auto
  have run: "ReadPacked_any zs t P s values =
      (if \<not> ok then Some (False, s3, values3) else Some (True, PopLimit (cd_current_limit s1) s3, values3))"
    using R s2(1) p(1) by (simp add: ReadPacked_any_def)
  show ?thesis
  proof (cases "parse_values t ?sub")
    case None
    then show ?thesis using run p(2) by (intro exI [of _ False] exI [of _ s3] exI [of _ values3]) simp
  next
    case (Some vs)
    then have ok: "ok" "rf_at (xs @ filter P vs) values3" "cd_moved good pending last_block (length ?sub) s2 s3" using p(2) by simp_all
    have "cd_moved good pending last_block (length ?sub) s1 (PopLimit (cd_current_limit s1) s3)"
      by (rule limited_moved [OF s1(1) ok(3) _ s2(3,4,6,7)]) (simp add: s1(2))
    then show ?thesis
      using run ok Some cd_moved_trans [OF m]
      by (intro exI [of _ True] exI [of _ "PopLimit (cd_current_limit s1) s3"] exI [of _ values3]) simp
  qed
qed

text \<open>Without a limit a length of \<open>2 ^ 31\<close> or more reads nothing, and succeeds.\<close>

lemma ReadPacked_any_negative:
  assumes "cd_inv good pending last_block s" and "first_varint (cd_visible pending s) = Some (v, k)"
    and "sint (of_nat v :: uint32) < 0" and "cd_current_limit s = INT_MAX"
  shows "\<exists>s'. ReadPacked_any zs t P s values = Some (True, s', values) \<and> cd_visible pending s' = drop k (cd_visible pending s)"
proof -
  let ?bs = "cd_visible pending s" and ?len = "of_nat v :: uint32"
  obtain s1 k1 where v32: "ReadVarint32 zs s = Some (map_option (\<lambda>(v, j). of_nat v) (first_varint ?bs), s1)"
    "cd_moved good pending last_block k1 s s1" "case first_varint ?bs of Some (v, j) \<Rightarrow> k1 = j | None \<Rightarrow> True"
    using ReadVarint32_law [OF assms(1)] by blast
  have m: "cd_moved good pending last_block k s s1" and R: "ReadVarint32 zs s = Some (Some ?len, s1)"
    using v32 assms(2) by simp_all
  have s1: "cd_inv good pending last_block s1" "cd_visible pending s1 = drop k ?bs" "cd_current_limit s1 = INT_MAX"
    using m assms(4) by (simp_all add: cd_moved_def cd_frame_def)
  obtain s2 where p: "PushLimit (sint ?len) s1 = (INT_MAX, s2)" "cd_current_limit s2 = INT_MAX"
    using s1(3) assms(3) by (simp add: PushLimit_def Let_def)
  have "packed_loop zs t P (s2, values) = Some (True, s2, values)"
    using p(2) by (subst packed_loop.simps) (simp add: BytesUntilLimit_def)
  then have "ReadPacked_any zs t P s values = Some (True, PopLimit INT_MAX s2, values)"
    using R p(1) by (simp add: ReadPacked_any_def)
  moreover have "cd_visible pending (PopLimit INT_MAX s2) = drop k ?bs"
    using PushLimit_PopLimit [OF s1(1), of "sint ?len"] p(1) s1(2) by simp
  ultimately show ?thesis by blast
qed

end

subsection \<open>Values of a fixed size\<close>

lemma size_of_type_pos: "0 < size_of_type t" "4 \<le> size_of_type t" "size_of_type t \<le> 8"
  by (simp_all add: size_of_type_def)

lemma fixed_first_value:
  assumes "fixed_size_type t"
  shows "if nat (size_of_type t) \<le> length bs then \<exists>v. first_value t bs = Some (v, nat (size_of_type t)) else first_value t bs = None"
proof -
  have "\<exists>v. ReadLittleEndian32FromArray bs 0 = Some (v, 4)" if "4 \<le> length bs"
    using that ReadLittleEndianFromArray_defined(1) [of 0 bs] ReadLittleEndian32FromArray_next [of bs 0] by fastforce
  moreover have "\<exists>v. ReadLittleEndian64FromArray bs 0 = Some (v, 8)" if "8 \<le> length bs"
    using that ReadLittleEndianFromArray_defined(2) [of 0 bs] ReadLittleEndianFromArray_length(2) [of bs] by fastforce
  ultimately show ?thesis
    using assms ReadLittleEndianFromArray_defined(3,4) [of bs 0]
    by (auto simp: fixed_size_type_def size_of_type_def)
qed

lemma fixed_size_primitive: "fixed_size_type t \<Longrightarrow> is_primitive t"
  by (auto simp: fixed_size_type_def is_primitive_def)

lemma ReadLittleEndian64FromArray_at:
  "ReadLittleEndian64FromArray m p = map_option (\<lambda>(x, q). (x, q + p)) (ReadLittleEndian64FromArray (drop p m) 0)"
proof (cases "ReadLittleEndian32FromArray (drop p m) 0")
  case None
  then show ?thesis by (simp add: ReadLittleEndian64FromArray_def ReadLittleEndian32FromArray_at [of m p])
next
  case (Some r)
  obtain x where x: "ReadLittleEndian32FromArray (drop p m) 0 = Some (x, 4)"
    using Some ReadLittleEndian32FromArray_next [of "drop p m" 0] by (cases r) auto
  have "ReadLittleEndian32FromArray m p = Some (x, 4 + p)" using x by (simp add: ReadLittleEndian32FromArray_at [of m p])
  moreover have "ReadLittleEndian32FromArray m (4 + p) = map_option (\<lambda>(y, q). (y, q + p)) (ReadLittleEndian32FromArray (drop p m) 4)"
    unfolding ReadLittleEndian32FromArray_at [of m "4 + p"] ReadLittleEndian32FromArray_at [of "drop p m" 4] drop_drop
    by (cases "ReadLittleEndian32FromArray (drop (4 + p) m) 0") auto
  ultimately show ?thesis
    using x by (cases "ReadLittleEndian32FromArray (drop p m) 4") (auto simp: ReadLittleEndian64FromArray_def)
qed

lemma ReadPrimitiveFromArray_at:
  assumes "fixed_size_type t"
  shows "ReadPrimitiveFromArray t bs p = map_option (\<lambda>(v, q). (v, p + q)) (first_value t (drop p bs))"
proof -
  have "ReadPrimitiveFromArray t bs p = map_option (\<lambda>(v, q). (v, p + q)) (ReadPrimitiveFromArray t (drop p bs) 0)"
    using assms ReadLittleEndian32FromArray_at [of bs p] ReadLittleEndian64FromArray_at [of bs p]
    by (cases "ReadLittleEndian32FromArray (drop p bs) 0"; cases "ReadLittleEndian64FromArray (drop p bs) 0")
      (auto simp: fixed_size_type_def)
  then show ?thesis using assms first_value_array [of t "drop p bs"] by (simp add: fixed_size_type_def)
qed

lemma parse_values_fixed:
  "fixed_size_type t \<Longrightarrow> case parse_values t bs of
     None \<Rightarrow> \<not> size_of_type t dvd int (length bs)
   | Some vs \<Rightarrow> int (length bs) = int (length vs) * size_of_type t"
proof (induction t bs rule: parse_values.induct)
  case (1 t bs)
  let ?n = "nat (size_of_type t)"
  note n = size_of_type_pos [of t]
  show ?case
  proof (cases "bs = []")
    case False
    show ?thesis
    proof (cases "?n \<le> length bs")
      case True
      then obtain v where v: "first_value t bs = Some (v, ?n)" using fixed_first_value [OF "1.prems", of bs] by auto
      have IH: "case parse_values t (drop ?n bs) of
          None \<Rightarrow> \<not> size_of_type t dvd int (length (drop ?n bs))
        | Some vs \<Rightarrow> int (length (drop ?n bs)) = int (length vs) * size_of_type t"
        using "1.IH" [OF False v refl _ "1.prems"] n(1) by simp
      have l: "int (length bs) = int (length (drop ?n bs)) + size_of_type t" using True n by simp
      show ?thesis
        unfolding l using IH v by (cases "parse_values t (drop ?n bs)") (simp_all add: parse_values_step [OF False] algebra_simps del: length_drop)
    next
      case no: False
      then have "first_value t bs = None" using fixed_first_value [OF "1.prems", of bs] by auto
      moreover have "\<not> size_of_type t dvd int (length bs)"
        using no False n zdvd_imp_le [of "size_of_type t" "int (length bs)"] by auto
      ultimately show ?thesis by (simp add: parse_values_step [OF False])
    qed
  qed simp
qed

lemma parse_values_fixed_step:
  assumes "fixed_size_type t" and "nat (size_of_type t) \<le> length bs"
  shows "\<exists>v. first_value t bs = Some (v, nat (size_of_type t)) \<and>
    parse_values t bs = map_option ((#) v) (parse_values t (drop (nat (size_of_type t)) bs))"
proof -
  obtain v where "first_value t bs = Some (v, nat (size_of_type t))" using fixed_first_value [OF assms(1), of bs] assms(2) by auto
  moreover have "bs \<noteq> []" using assms(2) size_of_type_pos [of t] by auto
  ultimately show ?thesis by (simp add: parse_values_step)
qed

lemma first_value_fixed_take:
  assumes "fixed_size_type t" and "nat (size_of_type t) \<le> k" and "first_value t (take k bs) = Some (v, nat (size_of_type t))"
  shows "first_value t bs = Some (v, nat (size_of_type t))"
  using assms ReadLittleEndian32FromArray_take [of 0 k bs] ReadLittleEndian64FromArray_take [of 0 k bs]
  by (auto simp: fixed_size_type_def size_of_type_def)

lemma load_values_law:
  assumes "fixed_size_type t"
  shows "k * nat (size_of_type t) \<le> length (drop p bs) \<Longrightarrow>
    load_values t k bs p = parse_values t (take (k * nat (size_of_type t)) (drop p bs)) \<and> load_values t k bs p \<noteq> None"
proof (induction k arbitrary: p)
  case (Suc k)
  let ?n = "nat (size_of_type t)" and ?bs = "take (Suc k * nat (size_of_type t)) (drop p bs)"
  have "?n \<le> length ?bs" using Suc.prems by simp
  then obtain v where v: "first_value t ?bs = Some (v, ?n)" "parse_values t ?bs = map_option ((#) v) (parse_values t (drop ?n ?bs))"
    using parse_values_fixed_step [OF assms] by blast
  have "first_value t (drop p bs) = Some (v, ?n)" by (rule first_value_fixed_take [OF assms _ v(1)]) simp
  then have r: "ReadPrimitiveFromArray t bs p = Some (v, p + ?n)" by (simp add: ReadPrimitiveFromArray_at [OF assms])
  have d: "drop ?n ?bs = take (k * ?n) (drop (p + ?n) bs)" by (simp add: drop_take add.commute)
  have "k * ?n \<le> length (drop (p + ?n) bs)" using Suc.prems by simp
  note IH = Suc.IH [OF this]
  then obtain vs where vs: "load_values t k bs (p + ?n) = Some vs" by blast
  then have "parse_values t (drop ?n ?bs) = Some vs" using IH unfolding d by simp
  then show ?case using r v(2) vs by simp
qed simp

context input_contract
begin

lemma packed_slow_law:
  assumes "fixed_size_type t"
  shows "cd_inv good pending last_block s \<Longrightarrow> rf_at xs values \<Longrightarrow> 2 * int (length xs + length (cd_visible pending s)) \<le> INT_MAX \<Longrightarrow>
    \<exists>ok s' values'. packed_slow zs t k s values = Some (ok, s', values') \<and>
      (case (if k * nat (size_of_type t) \<le> length (cd_visible pending s)
             then parse_values t (take (k * nat (size_of_type t)) (cd_visible pending s)) else None) of
         None \<Rightarrow> \<not> ok
       | Some vs \<Rightarrow> ok \<and> rf_at (xs @ vs) values' \<and> cd_moved good pending last_block (k * nat (size_of_type t)) s s')"
proof (induction k arbitrary: s xs "values")
  case 0
  then show ?case using cd_moved_0 [OF "0.prems"(1)] by (intro exI [of _ True] exI [of _ s] exI [of _ "values"]) simp
next
  case (Suc k)
  let ?bs = "cd_visible pending s" and ?n = "nat (size_of_type t)"
  note prim = fixed_size_primitive [OF assms]
  obtain s1 j where s1: "ReadPrimitive zs t s = Some (map_option fst (first_value t ?bs), s1)"
    "cd_moved good pending last_block j s s1" "case first_value t ?bs of Some (v, j') \<Rightarrow> j = j' | None \<Rightarrow> True"
    using ReadPrimitive_law [OF Suc.prems(1) prim] by blast
  show ?case
  proof (cases "?n \<le> length ?bs")
    case False
    then have "first_value t ?bs = None" "\<not> Suc k * ?n \<le> length ?bs" using fixed_first_value [OF assms, of ?bs] by auto
    then show ?thesis using s1(1) by (intro exI [of _ False] exI [of _ s1] exI [of _ "values"]) simp
  next
    case True
    then obtain v where v: "first_value t ?bs = Some (v, ?n)" using fixed_first_value [OF assms, of ?bs] by auto
    have m: "cd_moved good pending last_block ?n s s1" using s1(2,3) v by simp
    have i1: "cd_inv good pending last_block s1" "cd_visible pending s1 = drop ?n ?bs" using m by (simp_all add: cd_moved_def)
    have n: "0 < ?n" using size_of_type_pos(1) [of t] by simp
    have "2 * (int (length xs) + 1) \<le> INT_MAX" using Suc.prems(3) True n by simp
    then obtain values1 where v1: "RepeatedField_Add v values = Some values1" "rf_at (xs @ [v]) values1"
      using Add_law [OF Suc.prems(2)] by blast
    have "2 * int (length (xs @ [v]) + length (cd_visible pending s1)) \<le> INT_MAX" using Suc.prems(3) i1(2) True n by simp
    from Suc.IH [OF i1(1) v1(2) this]
    obtain ok s' values' where r: "packed_slow zs t k s1 values1 = Some (ok, s', values')"
      "case (if k * ?n \<le> length (cd_visible pending s1) then parse_values t (take (k * ?n) (cd_visible pending s1)) else None) of
         None \<Rightarrow> \<not> ok
       | Some vs \<Rightarrow> ok \<and> rf_at ((xs @ [v]) @ vs) values' \<and> cd_moved good pending last_block (k * ?n) s1 s'" by blast
    have run: "packed_slow zs t (Suc k) s values = Some (ok, s', values')" using s1(1) v v1(1) r(1) by simp
    have le: "Suc k * ?n \<le> length ?bs \<longleftrightarrow> k * ?n \<le> length (cd_visible pending s1)" using i1(2) True by auto
    have p: "parse_values t (take (Suc k * ?n) ?bs) = map_option ((#) v) (parse_values t (take (k * ?n) (cd_visible pending s1)))"
      if "Suc k * ?n \<le> length ?bs"
    proof -
      have "?n \<le> length (take (Suc k * ?n) ?bs)" using that by simp
      then obtain w where w: "first_value t (take (Suc k * ?n) ?bs) = Some (w, ?n)"
        "parse_values t (take (Suc k * ?n) ?bs) = map_option ((#) w) (parse_values t (drop ?n (take (Suc k * ?n) ?bs)))"
        using parse_values_fixed_step [OF assms] by blast
      have "w = v" using first_value_fixed_take [OF assms _ w(1)] v by simp
      then show ?thesis using w(2) i1(2) by (simp add: drop_take)
    qed
    have e: "(if Suc k * ?n \<le> length ?bs then parse_values t (take (Suc k * ?n) ?bs) else None) =
        map_option ((#) v) (if k * ?n \<le> length (cd_visible pending s1) then parse_values t (take (k * ?n) (cd_visible pending s1)) else None)"
      using p unfolding le by (cases "k * ?n \<le> length (cd_visible pending s1)") (simp_all only: if_True if_False option.map)
    show ?thesis
      unfolding e
    proof (cases "if k * ?n \<le> length (cd_visible pending s1) then parse_values t (take (k * ?n) (cd_visible pending s1)) else None")
      case None
      then show "\<exists>ok s' values'. packed_slow zs t (Suc k) s values = Some (ok, s', values') \<and>
        (case map_option ((#) v) (if k * ?n \<le> length (cd_visible pending s1) then parse_values t (take (k * ?n) (cd_visible pending s1)) else None) of
           None \<Rightarrow> \<not> ok
         | Some vs \<Rightarrow> ok \<and> rf_at (xs @ vs) values' \<and> cd_moved good pending last_block (Suc k * ?n) s s')"
        using run r(2) by (intro exI [of _ ok] exI [of _ s'] exI [of _ values']) simp
    next
      case (Some vs)
      then show "\<exists>ok s' values'. packed_slow zs t (Suc k) s values = Some (ok, s', values') \<and>
        (case map_option ((#) v) (if k * ?n \<le> length (cd_visible pending s1) then parse_values t (take (k * ?n) (cd_visible pending s1)) else None) of
           None \<Rightarrow> \<not> ok
         | Some vs \<Rightarrow> ok \<and> rf_at (xs @ vs) values' \<and> cd_moved good pending last_block (Suc k * ?n) s s')"
        using run r(2) cd_moved_trans [OF m, of "k * ?n" s'] by (intro exI [of _ ok] exI [of _ s'] exI [of _ values']) simp
    qed
  qed
qed

end

lemma store_values_law:
  assumes "rf_at (xs @ zs) f" and "length zs = length vs"
  shows "\<exists>f'. store_values (int (length xs)) vs f = Some f' \<and> rf_at (xs @ vs) f'"
proof (cases "rf_elements f")
  case None
  then show ?thesis using assms by (auto simp: store_values_def rf_at_cells)
next
  case (Some els)
  then obtain rest where "els = map Some (xs @ zs) @ rest" "rf_total_size f = int (length (xs @ zs) + length rest)"
    "rf_current_size f = int (length (xs @ zs))"
    using assms(1) by (auto simp: rf_at_cells)
  then show ?thesis using Some assms(2) by (simp add: store_values_def mem_write_def rf_at_cells)
qed

context input_contract
begin

lemma ReadPackedFixedSizePrimitive_law:
  fixes s :: "'s coded_input" and v :: nat
  defines "bs \<equiv> cd_visible pending s" and "len \<equiv> of_nat v :: uint32"
  assumes "fixed_size_type t" and "cd_inv good pending last_block s" and "rf_at xs values" and "2 * int (length xs + length bs) \<le> INT_MAX"
    and "int (length xs) < 2 ^ 29" and "first_varint bs = Some (v, k)"
  shows "\<exists>ok s' values'. ReadPackedFixedSizePrimitive zs t s values = Some (ok, s', values') \<and>
    (case (if unat len \<le> length (drop k bs) then parse_values t (take (unat len) (drop k bs)) else None) of
       None \<Rightarrow> \<not> ok
     | Some vs \<Rightarrow> ok \<and> rf_at (xs @ vs) values' \<and> cd_moved good pending last_block (k + unat len) s s')"
proof -
  obtain s1 k1 where v32: "ReadVarint32 zs s = Some (map_option (\<lambda>(v, j). of_nat v) (first_varint bs), s1)"
    "cd_moved good pending last_block k1 s s1" "case first_varint bs of Some (v, j) \<Rightarrow> k1 = j | None \<Rightarrow> True"
    using ReadVarint32_law [OF assms(4)] unfolding bs_def by blast
  have m: "cd_moved good pending last_block k s s1" and R: "ReadVarint32 zs s = Some (Some len, s1)"
    using v32 assms(8) by (simp_all add: len_def)
  have s1: "cd_inv good pending last_block s1" "cd_visible pending s1 = drop k bs"
    using m by (simp_all add: cd_moved_def bs_def)
  have size: "rf_size values = int (length xs)" using rf_at_sizes(1) [OF assms(5)] .
  let ?n = "uint len div size_of_type t"
  show ?thesis
  proof (cases "?n * size_of_type t = uint len")
    case False
    then have "\<not> size_of_type t dvd uint len" by (metis dvd_div_mult_self)
    have "parse_values t (take (unat len) (drop k bs)) = None" if "unat len \<le> length (drop k bs)"
    proof (rule ccontr)
      assume "parse_values t (take (unat len) (drop k bs)) \<noteq> None"
      then obtain vs where "parse_values t (take (unat len) (drop k bs)) = Some vs" by blast
      then have "int (length (take (unat len) (drop k bs))) = int (length vs) * size_of_type t"
        using parse_values_fixed [OF assms(3), of "take (unat len) (drop k bs)"] by simp
      then have "uint len = int (length vs) * size_of_type t" using that by simp
      then show False using \<open>\<not> size_of_type t dvd uint len\<close> by simp
    qed
    then have "(if unat len \<le> length (drop k bs) then parse_values t (take (unat len) (drop k bs)) else None) = None" by simp
    moreover have "ReadPackedFixedSizePrimitive zs t s values = Some (False, s1, values)"
      using R False by (simp add: ReadPackedFixedSizePrimitive_def Let_def)
    ultimately show ?thesis by (intro exI [of _ False] exI [of _ s1] exI [of _ "values"]) simp
  next
    case True
    have n0: "0 \<le> ?n" using size_of_type_pos(1) [of t] by (simp add: pos_imp_zdiv_nonneg_iff)
    have nn: "nat ?n * nat (size_of_type t) = unat len"
      using True size_of_type_pos(1) [of t] n0 by (simp add: nat_mult_distrib [symmetric])
    define lim where "lim = (if BytesUntilTotalBytesLimit s1 = - 1 then BytesUntilLimit s1
      else min (BytesUntilTotalBytesLimit s1) (BytesUntilLimit s1))"
    show ?thesis
    proof (cases "lim \<ge> uint len")
      case False
      have run: "ReadPackedFixedSizePrimitive zs t s values = packed_slow zs t (nat ?n) s1 values"
        using R True False size unfolding lim_def by (simp add: ReadPackedFixedSizePrimitive_def Let_def)
      have "2 * int (length xs + length (cd_visible pending s1)) \<le> INT_MAX" using assms(6) s1(2) by simp
      from packed_slow_law [OF assms(3) s1(1) assms(5) this, of "nat ?n"]
      obtain ok s' values' where r: "packed_slow zs t (nat ?n) s1 values = Some (ok, s', values')"
        "case (if unat len \<le> length (drop k bs) then parse_values t (take (unat len) (drop k bs)) else None) of
           None \<Rightarrow> \<not> ok
         | Some vs \<Rightarrow> ok \<and> rf_at (xs @ vs) values' \<and> cd_moved good pending last_block (unat len) s1 s'"
        unfolding nn s1(2) by blast
      show ?thesis
        unfolding run using r cd_moved_trans [OF m, of "unat len" s']
        by (intro exI [of _ ok] exI [of _ s'] exI [of _ values']) (auto split: option.splits if_splits)
    next
      case lim: True
      have "BytesUntilLimit s1 \<le> INT_MAX" "(- 1 :: int) \<le> INT_MAX"
        using s1(1) by (auto simp: BytesUntilLimit_def cd_inv_def INT_MAX_def)
      then have "lim \<le> INT_MAX" by (simp add: lim_def min.coboundedI2)
      then have len: "uint len \<le> INT_MAX" using lim by linarith
      have "?n \<le> uint len div 4" using size_of_type_pos [of t] by (intro zdiv_mono2) auto
      then have "4 * ?n \<le> INT_MAX" using len by linarith
      then have room: "2 * (int (length xs) + ?n) \<le> INT_MAX" "0 \<le> int (length xs) + ?n" using assms(7) n0 by (simp_all add: INT_MAX_def)
      obtain values1 where v1: "Resize (int (length xs) + ?n) (zero_of_type t) values = Some values1"
        "rf_at (xs @ replicate (nat ?n) (zero_of_type t)) values1"
        using Resize_law [OF assms(5) room(2,1), of "zero_of_type t"] n0 by (auto simp: nat_add_distrib)
      obtain s2 where s2: "ReadRaw zs (uint len) s1 =
          Some (unat len \<le> length (drop k bs), take (unat len) (drop k bs), s2)"
        "cd_moved good pending last_block (min (unat len) (length (drop k bs))) s1 s2"
        using ReadRaw_law [OF s1(1), of "uint len"] s1(2) by auto
      show ?thesis
      proof (cases "unat len \<le> length (drop k bs)")
        case False
        then have "ReadPackedFixedSizePrimitive zs t s values = Some (False, s2, Truncate (int (length xs)) values1)"
          using R True lim size v1(1) s2(1) unfolding lim_def by (simp add: ReadPackedFixedSizePrimitive_def Let_def)
        then show ?thesis using False by (intro exI [of _ False] exI [of _ s2]) simp
      next
        case fits: True
        let ?sub = "take (unat len) (drop k bs)"
        have "nat ?n * nat (size_of_type t) \<le> length (drop 0 ?sub)" unfolding nn using fits by simp
        note ld = load_values_law [OF assms(3) this]
        then obtain vs where vs: "load_values t (nat ?n) ?sub 0 = Some vs" by blast
        then have pv: "parse_values t ?sub = Some vs" using ld fits unfolding nn by simp
        have "int (unat len) = int (length vs) * size_of_type t"
          using parse_values_fixed [OF assms(3), of ?sub] pv fits by simp
        then have "uint len = int (length vs) * size_of_type t" by (simp only: uint_nat)
        then have "?n = int (length vs)" using size_of_type_pos(1) [of t] by (simp only: nonzero_mult_div_cancel_right)
        then have "length (replicate (nat ?n) (zero_of_type t)) = length vs" by (simp only: length_replicate nat_int)
        from store_values_law [OF v1(2) this] obtain values2 where v2: "store_values (int (length xs)) vs values1 = Some values2"
          "rf_at (xs @ vs) values2" by blast
        have "ReadPackedFixedSizePrimitive zs t s values = Some (True, s2, values2)"
          using R True lim size v1(1) s2(1) fits vs v2(1) unfolding lim_def by (simp add: ReadPackedFixedSizePrimitive_def Let_def)
        then show ?thesis
          using fits pv v2(2) cd_moved_trans [OF m s2(2)] by (intro exI [of _ True] exI [of _ s2] exI [of _ values2]) (simp add: min_absorb1)
      qed
    qed
  qed
qed

end

section \<open>A run of values behind the same tag\<close>

text \<open>\<open>bs\<close> begins with the values \<open>vs\<close>, each behind the tag, in \<open>k\<close> bytes.\<close>

inductive value_run :: "FieldType \<Rightarrow> uint32 \<Rightarrow> byte list \<Rightarrow> primitive list \<Rightarrow> nat \<Rightarrow> bool" for t tag where
  run_end: "value_run t tag bs [] 0"
| run_value: "first_varint bs = Some (unat tag, j) \<Longrightarrow> first_value t (drop j bs) = Some (v, i) \<Longrightarrow>
    value_run t tag (drop (j + i) bs) vs k \<Longrightarrow> value_run t tag bs (v # vs) (j + i + k)"

inductive_cases value_run_ConsE: "value_run t tag bs (v # vs) k"

text \<open>A field that a parser may read for \<open>bs\<close> behind its first tag, or the first value it cannot read.\<close>

definition repeated_values :: "FieldType \<Rightarrow> uint32 \<Rightarrow> byte list \<Rightarrow> primitive list \<Rightarrow> nat \<Rightarrow> bool" where
  "repeated_values t tag bs vs k \<longleftrightarrow>
     (\<exists>v i vs' j. first_value t bs = Some (v, i) \<and> value_run t tag (drop i bs) vs' j \<and> vs = v # vs' \<and> k = i + j)"

definition repeated_cut :: "FieldType \<Rightarrow> uint32 \<Rightarrow> byte list \<Rightarrow> primitive list \<Rightarrow> bool" where
  "repeated_cut t tag bs vs \<longleftrightarrow>
     first_value t bs = None \<and> vs = [] \<or>
     (\<exists>k j. repeated_values t tag bs vs k \<and> first_varint (drop k bs) = Some (unat tag, j) \<and> first_value t (drop (k + j) bs) = None)"

context input_contract
begin

lemma repeated_loop_law:
  assumes "is_primitive t"
  shows "cd_inv good pending last_block s \<Longrightarrow> rf_at xs values \<Longrightarrow> int (length xs + n) \<le> rf_total_size values \<Longrightarrow>
    \<exists>ok s' values' vs k. repeated_loop zs t tag n s values = Some (ok, s', values') \<and> rf_at (xs @ vs) values' \<and>
      value_run t tag (cd_visible pending s) vs k \<and>
      (if ok then cd_moved good pending last_block k s s'
       else \<exists>j. first_varint (drop k (cd_visible pending s)) = Some (unat tag, j) \<and> first_value t (drop (k + j) (cd_visible pending s)) = None)"
proof (induction n arbitrary: s xs "values")
  case 0
  then show ?case
    using cd_moved_0 [OF "0.prems"(1)] value_run.run_end [of t tag "cd_visible pending s"]
    by (intro exI [of _ True] exI [of _ s] exI [of _ "values"] exI [of _ "[]"] exI [of _ 0]) simp
next
  case (Suc n)
  let ?bs = "cd_visible pending s"
  obtain ok1 s1 j where s1: "ExpectTag tag s = Some (ok1, s1)" "cd_moved good pending last_block j s s1"
    "if ok1 then first_varint ?bs = Some (unat tag, j) else j = 0"
    using ExpectTag_law [OF Suc.prems(1), of tag] by blast
  show ?case
  proof (cases ok1)
    case False
    then show ?thesis
      using s1 Suc.prems(2) value_run.run_end [of t tag ?bs]
      by (intro exI [of _ True] exI [of _ s1] exI [of _ "values"] exI [of _ "[]"] exI [of _ 0]) simp
  next
    case True
    then have tag: "first_varint ?bs = Some (unat tag, j)" using s1(3) by simp
    have i1: "cd_inv good pending last_block s1" "cd_visible pending s1 = drop j ?bs" using s1(2) by (simp_all add: cd_moved_def)
    obtain s2 i where s2: "ReadPrimitive zs t s1 = Some (map_option fst (first_value t (drop j ?bs)), s2)"
      "cd_moved good pending last_block i s1 s2" "case first_value t (drop j ?bs) of Some (v, i') \<Rightarrow> i = i' | None \<Rightarrow> True"
      using ReadPrimitive_law [OF i1(1) assms] unfolding i1(2) by blast
    show ?thesis
    proof (cases "first_value t (drop j ?bs)")
      case None
      then show ?thesis
        using s1(1) True s2(1) tag Suc.prems(2) value_run.run_end [of t tag ?bs]
        by (intro exI [of _ False] exI [of _ s2] exI [of _ "values"] exI [of _ "[]"] exI [of _ 0]) simp
    next
      case (Some r)
      then obtain v where v: "first_value t (drop j ?bs) = Some (v, i)" using s2(3) by (cases r) simp
      have m: "cd_moved good pending last_block (j + i) s s2" using cd_moved_trans [OF s1(2) s2(2)] .
      then have i2: "cd_inv good pending last_block s2" "cd_visible pending s2 = drop (j + i) ?bs" by (simp_all add: cd_moved_def)
      obtain values1 where v1: "AddAlreadyReserved v values = Some values1" "rf_at (xs @ [v]) values1"
        "rf_total_size values1 = rf_total_size values"
        using AddAlreadyReserved_law [OF Suc.prems(2), of v] Suc.prems(3) by auto
      have "int (length (xs @ [v]) + n) \<le> rf_total_size values1" using Suc.prems(3) v1(3) by simp
      from Suc.IH [OF i2(1) v1(2) this] obtain ok s' values' vs k where
        r': "repeated_loop zs t tag n s2 values1 = Some (ok, s', values')" "rf_at ((xs @ [v]) @ vs) values'"
          "value_run t tag (drop (j + i) ?bs) vs k"
          "if ok then cd_moved good pending last_block k s2 s'
           else \<exists>j'. first_varint (drop k (drop (j + i) ?bs)) = Some (unat tag, j') \<and> first_value t (drop (k + j') (drop (j + i) ?bs)) = None"
        unfolding i2(2) by blast
      have run: "repeated_loop zs t tag (Suc n) s values = Some (ok, s', values')" using s1(1) True s2(1) v v1(1) r'(1) by simp
      have vr: "value_run t tag ?bs (v # vs) (j + i + k)" using value_run.run_value [OF tag v r'(3)] .
      have "if ok then cd_moved good pending last_block (j + i + k) s s'
         else \<exists>j'. first_varint (drop (j + i + k) ?bs) = Some (unat tag, j') \<and> first_value t (drop (j + i + k + j') ?bs) = None"
        using r'(4) cd_moved_trans [OF m, of k s'] by (simp add: add.commute add.left_commute split: if_splits)
      then show ?thesis
        using run vr r'(2)
        by (intro exI [of _ ok] exI [of _ s'] exI [of _ values'] exI [of _ "v # vs"] exI [of _ "j + i + k"]) simp
    qed
  qed
qed

lemma ReadRepeatedPrimitive_any_law:
  assumes "is_primitive t" and "cd_inv good pending last_block s" and "rf_at xs values" and "2 * (int (length xs) + 1) \<le> INT_MAX"
  shows "\<exists>ok s' values' vs. ReadRepeatedPrimitive_any zs t tag s values = Some (ok, s', values') \<and> rf_at (xs @ vs) values' \<and>
    (if ok then \<exists>k. repeated_values t tag (cd_visible pending s) vs k \<and> cd_moved good pending last_block k s s'
     else repeated_cut t tag (cd_visible pending s) vs)"
proof -
  let ?bs = "cd_visible pending s"
  obtain s1 i where s1: "ReadPrimitive zs t s = Some (map_option fst (first_value t ?bs), s1)"
    "cd_moved good pending last_block i s s1" "case first_value t ?bs of Some (v, i') \<Rightarrow> i = i' | None \<Rightarrow> True"
    using ReadPrimitive_law [OF assms(2,1)] by blast
  show ?thesis
  proof (cases "first_value t ?bs")
    case None
    then show ?thesis
      using s1(1) assms(3)
      by (intro exI [of _ False] exI [of _ s1] exI [of _ "values"] exI [of _ "[]"]) (simp add: ReadRepeatedPrimitive_any_def repeated_cut_def)
  next
    case (Some r)
    then obtain v where v: "first_value t ?bs = Some (v, i)" using s1(3) by (cases r) simp
    have i1: "cd_inv good pending last_block s1" "cd_visible pending s1 = drop i ?bs" using s1(2) by (simp_all add: cd_moved_def)
    obtain values1 where v1: "RepeatedField_Add v values = Some values1" "rf_at (xs @ [v]) values1"
      using Add_law [OF assms(3,4)] by blast
    let ?n = "nat (Capacity values1 - rf_size values1)"
    have "int (length (xs @ [v]) + ?n) \<le> rf_total_size values1"
      using rf_at_sizes(1,2) [OF v1(2)] by (simp add: Capacity_def)
    from repeated_loop_law [OF assms(1) i1(1) v1(2) this, of tag] obtain ok s' values' vs k where
      r: "repeated_loop zs t tag ?n s1 values1 = Some (ok, s', values')" "rf_at ((xs @ [v]) @ vs) values'"
        "value_run t tag (drop i ?bs) vs k"
        "if ok then cd_moved good pending last_block k s1 s'
         else \<exists>j. first_varint (drop k (drop i ?bs)) = Some (unat tag, j) \<and> first_value t (drop (k + j) (drop i ?bs)) = None"
      unfolding i1(2) by blast
    have run: "ReadRepeatedPrimitive_any zs t tag s values = Some (ok, s', values')"
      using s1(1) v v1(1) r(1) by (simp add: ReadRepeatedPrimitive_any_def)
    have rv: "repeated_values t tag ?bs (v # vs) (i + k)" using v r(3) by (auto simp: repeated_values_def)
    show ?thesis
    proof (intro exI [of _ ok] exI [of _ s'] exI [of _ values'] exI [of _ "v # vs"] conjI)
      show "if ok then \<exists>k. repeated_values t tag ?bs (v # vs) k \<and> cd_moved good pending last_block k s s' else repeated_cut t tag ?bs (v # vs)"
      proof (cases ok)
        case True
        then show ?thesis using rv r(4) cd_moved_trans [OF s1(2), of k s'] by auto
      next
        case False
        then obtain j where "first_varint (drop (i + k) ?bs) = Some (unat tag, j)" "first_value t (drop (i + k + j) ?bs) = None"
          using r(4) by (auto simp: add.commute add.left_commute)
        then have "repeated_cut t tag ?bs (v # vs)" using rv unfolding repeated_cut_def by blast
        then show ?thesis using False by simp
      qed
    qed (use run r(2) in simp_all)
  qed
qed

end

subsection \<open>Values of a fixed size\<close>

context input_contract
begin

lemma ExpectTagFromArray_law:
  assumes "cd_inv good pending last_block s" and "int p + VarintSize32 tag \<le> cd_size s"
  shows "\<exists>r. ExpectTagFromArray (cd_bytes s) p tag = Some r \<and>
    (case r of None \<Rightarrow> True
     | Some q \<Rightarrow> int q = int p + VarintSize32 tag \<and> first_varint (drop p (cd_visible pending s)) = Some (unat tag, nat (VarintSize32 tag)))"
proof -
  have p: "int p \<le> cd_size s" "0 < VarintSize32 tag" using assms(2) by (auto simp: VarintSize32_def VarintSize32Fallback_def split: if_splits)
  let ?s = "cd_Advance (int p) s"
  note m = advance_moved [OF assms(1) p(1)]
  have inv: "cd_inv good pending last_block ?s" "cd_visible pending ?s = drop p (cd_visible pending s)" using m by (simp_all add: cd_moved_def)
  have b: "cd_bytes ?s = drop p (cd_bytes s)" "cd_size ?s = cd_size s - int p" by (simp_all add: cd_Advance_def)
  obtain ok s' k where E: "ExpectTag tag ?s = Some (ok, s')" "cd_moved good pending last_block k ?s s'"
    "if ok then first_varint (drop p (cd_visible pending s)) = Some (unat tag, k) else k = 0"
    using ExpectTag_law [OF inv(1), of tag] unfolding inv(2) by blast
  have pos: "k = j" if "s' = cd_Advance (int j) ?s" for j
    using E(2) that by (simp add: cd_moved_def CurrentPosition_def cd_Advance_def)
  have g: "mem_get p (cd_bytes s) = mem_get 0 (cd_bytes ?s)" "mem_get (p + 1) (cd_bytes s) = mem_get 1 (cd_bytes ?s)"
    unfolding b(1) using mem_get_drop [of p 1 "cd_bytes s"] mem_get_drop [of p 0 "cd_bytes s"] by simp_all
  consider (one) "tag < 2 ^ 7" | (two) "\<not> tag < 2 ^ 7" "tag < 2 ^ 14" | (never) "\<not> tag < 2 ^ 7" "\<not> tag < 2 ^ 14" by blast
  then show ?thesis
  proof cases
    case one
    then have z: "VarintSize32 tag = 1" by (simp add: VarintSize32_def)
    obtain c where c: "mem_get 0 (cd_bytes ?s) = Some c" using E(1) one z assms(2) b(2) by (auto simp: ExpectTag_def bind_eq_Some_conv)
    show ?thesis
    proof (cases "ucast c = tag")
      case True
      then have "ok" "k = 1" using E(1) one z assms(2) b(2) c pos [of 1] by (simp_all add: ExpectTag_def)
      then show ?thesis using True E(3) one c g z by (simp add: ExpectTagFromArray_def)
    next
      case False
      then show ?thesis using one c g by (simp add: ExpectTagFromArray_def)
    qed
  next
    case two
    then have z: "VarintSize32 tag = 2" by (simp add: VarintSize32_def VarintSize32Fallback_def)
    obtain c d where c: "mem_get 0 (cd_bytes ?s) = Some c" "mem_get 1 (cd_bytes ?s) = Some d"
      using E(1) two z assms(2) b(2) by (auto simp: ExpectTag_def bind_eq_Some_conv)
    show ?thesis
    proof (cases "c = ucast (tag OR 0x80) \<and> d = ucast (drop_bit 7 tag)")
      case True
      then have "ok" "k = 2" using E(1) two z assms(2) b(2) c pos [of 2] by (simp_all add: ExpectTag_def)
      then show ?thesis using True E(3) two c g z by (simp add: ExpectTagFromArray_def)
    next
      case False
      then show ?thesis using two c g by (auto simp: ExpectTagFromArray_def)
    qed
  next
    case never
    then show ?thesis by (simp add: ExpectTagFromArray_def)
  qed
qed

lemma fixed_size_loop_law:
  fixes tag :: uint32
  assumes "fixed_size_type t" and "cd_inv good pending last_block s"
  defines "per_value \<equiv> VarintSize32 tag + size_of_type t"
  shows "int p + int n * per_value \<le> cd_size s \<Longrightarrow> rf_at xs values \<Longrightarrow> int (length xs + n) \<le> rf_total_size values \<Longrightarrow>
    \<exists>values' vs. fixed_size_loop t tag n (cd_bytes s) p values = Some (length vs, values') \<and> rf_at (xs @ vs) values' \<and>
      length vs \<le> n \<and> value_run t tag (drop p (cd_visible pending s)) vs (nat (int (length vs) * per_value))"
proof (induction n arbitrary: p xs "values")
  case 0
  then show ?case using value_run.run_end by (intro exI [of _ "values"] exI [of _ "[]"]) simp
next
  case (Suc n)
  let ?bs = "cd_visible pending s" and ?n = "nat (size_of_type t)" and ?j = "nat (VarintSize32 tag)"
  have ts: "0 < VarintSize32 tag" by (simp add: VarintSize32_def VarintSize32Fallback_def)
  note vs = size_of_type_pos [of t]
  have pv: "0 \<le> int n * per_value" "int (Suc n) * per_value = int n * per_value + per_value" using ts vs by (simp_all add: per_value_def algebra_simps)
  have fit: "int p + VarintSize32 tag + size_of_type t \<le> cd_size s" using Suc.prems(1) pv unfolding per_value_def by linarith
  then have "int p + VarintSize32 tag \<le> cd_size s" using vs by linarith
  from ExpectTagFromArray_law [OF assms(2) this] obtain r where r: "ExpectTagFromArray (cd_bytes s) p tag = Some r"
    "case r of None \<Rightarrow> True | Some q \<Rightarrow> int q = int p + VarintSize32 tag \<and> first_varint (drop p ?bs) = Some (unat tag, ?j)" by blast
  show ?case
  proof (cases r)
    case None
    then show ?thesis using r(1) Suc.prems(2) value_run.run_end by (intro exI [of _ "values"] exI [of _ "[]"]) simp
  next
    case (Some q)
    have q': "int q = int p + VarintSize32 tag" "first_varint (drop p ?bs) = Some (unat tag, ?j)" using r(2) Some by simp_all
    have q: "q = p + ?j" "first_varint (drop p ?bs) = Some (unat tag, ?j)" using q'(1) ts apply linarith by (rule q'(2))
    note l = size_le_visible [OF assms(2)]
    have le: "q + ?n \<le> nat (cd_size s)" using fit q(1) ts vs by linarith
    have same: "take (q + ?n) (cd_bytes s) = take (q + ?n) ?bs" using l(3) [OF le] .
    have len: "?n \<le> length (take ?n (drop q ?bs))" using le l(1) by simp
    have e: "take ?n (drop q ?bs) = take ?n (drop q (cd_bytes s))" using same by (simp add: take_drop add.commute)
    obtain v where v: "first_value t (take ?n (drop q ?bs)) = Some (v, ?n)" using fixed_first_value [OF assms(1), of "take ?n (drop q ?bs)"] len by auto
    have v1: "first_value t (drop q ?bs) = Some (v, ?n)" by (rule first_value_fixed_take [OF assms(1) order_refl v])
    have "first_value t (drop q (cd_bytes s)) = Some (v, ?n)" by (rule first_value_fixed_take [OF assms(1) order_refl v [unfolded e]])
    then have rd: "ReadPrimitiveFromArray t (cd_bytes s) q = Some (v, q + ?n)" by (simp add: ReadPrimitiveFromArray_at [OF assms(1)])
    obtain values1 where a: "AddAlreadyReserved v values = Some values1" "rf_at (xs @ [v]) values1" "rf_total_size values1 = rf_total_size values"
      using AddAlreadyReserved_law [OF Suc.prems(2), of v] Suc.prems(3) by auto
    have "int (q + ?n) + int n * per_value \<le> cd_size s" "int (length (xs @ [v]) + n) \<le> rf_total_size values1"
      using Suc.prems(1,3) pv(2) q(1) ts vs a(3) unfolding per_value_def by simp_all
    from Suc.IH [OF this(1) a(2) this(2)] obtain values' ws where
      w: "fixed_size_loop t tag n (cd_bytes s) (q + ?n) values1 = Some (length ws, values')" "rf_at ((xs @ [v]) @ ws) values'" "length ws \<le> n"
        "value_run t tag (drop (q + ?n) ?bs) ws (nat (int (length ws) * per_value))" by blast
    have "drop (q + ?n) ?bs = drop (?j + ?n) (drop p ?bs)" "drop q ?bs = drop ?j (drop p ?bs)" using q(1) by (simp_all add: add.commute add.left_commute)
    then have "value_run t tag (drop p ?bs) (v # ws) (?j + ?n + nat (int (length ws) * per_value))"
      using value_run.run_value [OF q(2)] v1 w(4) by metis
    moreover have "?j + ?n + nat (int (length ws) * per_value) = nat (int (length (v # ws)) * per_value)"
      using ts vs unfolding per_value_def by (simp add: algebra_simps nat_add_distrib)
    ultimately show ?thesis
      using r(1) Some rd a(1) w(1,2,3) by (intro exI [of _ values'] exI [of _ "v # ws"]) simp
  qed
qed

lemma ReadRepeatedFixedSizePrimitive_law:
  assumes "fixed_size_type t" and "cd_inv good pending last_block s" and "rf_at xs values" and "2 * (int (length xs) + 1) \<le> INT_MAX"
  shows "\<exists>ok s' values' vs. ReadRepeatedFixedSizePrimitive zs t (VarintSize32 tag) tag s values = Some (ok, s', values') \<and> rf_at (xs @ vs) values' \<and>
    (if ok then \<exists>k. repeated_values t tag (cd_visible pending s) vs k \<and> cd_moved good pending last_block k s s'
     else repeated_cut t tag (cd_visible pending s) vs)"
proof -
  let ?bs = "cd_visible pending s"
  obtain s1 i where s1: "ReadPrimitive zs t s = Some (map_option fst (first_value t ?bs), s1)"
    "cd_moved good pending last_block i s s1" "case first_value t ?bs of Some (v, i') \<Rightarrow> i = i' | None \<Rightarrow> True"
    using ReadPrimitive_law [OF assms(2) fixed_size_primitive [OF assms(1)]] by blast
  show ?thesis
  proof (cases "first_value t ?bs")
    case None
    then show ?thesis
      using s1(1) assms(3)
      by (intro exI [of _ False] exI [of _ s1] exI [of _ "values"] exI [of _ "[]"])
        (simp add: ReadRepeatedFixedSizePrimitive_def repeated_cut_def)
  next
    case (Some r)
    then obtain v where v: "first_value t ?bs = Some (v, i)" using s1(3) by (cases r) simp
    have i1: "cd_inv good pending last_block s1" "cd_visible pending s1 = drop i ?bs" using s1(2) by (simp_all add: cd_moved_def)
    obtain values1 where v1: "RepeatedField_Add v values = Some values1" "rf_at (xs @ [v]) values1"
      using Add_law [OF assms(3,4)] by blast
    let ?per = "VarintSize32 tag + size_of_type t"
    let ?n = "nat (min (Capacity values1 - rf_size values1) (cd_size s1 div ?per))"
    have ok: "\<exists>ok s' values' vs. Some (True, s2, values2) = Some (ok, s', values') \<and> rf_at (xs @ vs) values' \<and>
      (if ok then \<exists>k. repeated_values t tag ?bs vs k \<and> cd_moved good pending last_block k s s' else repeated_cut t tag ?bs vs)"
      if "value_run t tag (drop i ?bs) ws k" "cd_moved good pending last_block k s1 s2" "rf_at (xs @ v # ws) values2" for s2 values2 ws k
      using that cd_moved_trans [OF s1(2) that(2)] v unfolding repeated_values_def
      by (intro exI [of _ True] exI [of _ s2] exI [of _ values2] exI [of _ "v # ws"]) auto
    show ?thesis
    proof (cases "cd_size s1 > 0")
      case False
      then have "ReadRepeatedFixedSizePrimitive zs t (VarintSize32 tag) tag s values = Some (True, s1, values1)"
        using s1(1) v v1(1) by (simp add: ReadRepeatedFixedSizePrimitive_def Let_def)
      then show ?thesis using ok [OF value_run.run_end cd_moved_0 [OF i1(1)]] v1(2) by simp
    next
      case True
      have per: "0 < ?per" using size_of_type_pos(1) [of t] by (simp add: VarintSize32_def VarintSize32Fallback_def)
      have n: "int ?n \<le> Capacity values1 - rf_size values1" "int ?n \<le> cd_size s1 div ?per"
        using rf_at_sizes(1,2) [OF v1(2)] True per by (simp_all add: pos_imp_zdiv_nonneg_iff)
      then have "int ?n * ?per \<le> cd_size s1 div ?per * ?per" by (intro mult_right_mono) (use per in auto)
      also have "\<dots> \<le> cd_size s1" using minus_mod_eq_div_mult [of "cd_size s1" ?per] per pos_mod_sign [of ?per "cd_size s1"] by linarith
      finally have fit: "int 0 + int ?n * ?per \<le> cd_size s1" by simp
      have room: "int (length (xs @ [v]) + ?n) \<le> rf_total_size values1" using n(1) rf_at_sizes(1) [OF v1(2)] by (simp add: Capacity_def)
      obtain values2 ws where w: "fixed_size_loop t tag ?n (cd_bytes s1) 0 values1 = Some (length ws, values2)" "rf_at ((xs @ [v]) @ ws) values2"
        "length ws \<le> ?n" "value_run t tag (drop i ?bs) ws (nat (int (length ws) * ?per))"
        using fixed_size_loop_law [OF assms(1) i1(1) fit v1(2) room] unfolding i1(2) by auto
      let ?read = "int (length ws) * ?per"
      show ?thesis
      proof (cases "?read > 0")
        case False
        then have "ws = []" using per by (cases ws) (auto simp: zero_less_mult_iff)
        then have "ReadRepeatedFixedSizePrimitive zs t (VarintSize32 tag) tag s values = Some (True, s1, values2)"
          using s1(1) v v1(1) True w(1) by (simp add: ReadRepeatedFixedSizePrimitive_def Let_def)
        then show ?thesis using ok [OF value_run.run_end cd_moved_0 [OF i1(1)]] w(2) \<open>ws = []\<close> by simp
      next
        case False: True
        have "?read \<le> int ?n * ?per" using w(3) per by (intro mult_right_mono) auto
        then have "?read \<le> cd_size s1" using fit by linarith
        then have le: "nat ?read \<le> length (cd_visible pending s1)" using size_le_visible(1) [OF i1(1)] by linarith
        obtain s2 where s2: "CodedInputStream_Skip zs ?read s1 = Some (True, s2)" "cd_moved good pending last_block (nat ?read) s1 s2"
          using Skip_law [OF i1(1), of ?read] False le by auto
        have "ReadRepeatedFixedSizePrimitive zs t (VarintSize32 tag) tag s values = Some (True, s2, values2)"
          using s1(1) v v1(1) True w(1) False s2(1) by (simp add: ReadRepeatedFixedSizePrimitive_def Let_def)
        then show ?thesis using ok [OF w(4) s2(2)] w(2) by simp
      qed
    qed
  qed
qed

end

section \<open>The properties\<close>

text \<open>What a packed field holds, and its bytes.\<close>

definition packed_field :: "FieldType \<Rightarrow> byte list \<Rightarrow> (primitive list \<times> nat) option" where
  "packed_field t bs =
     (case first_varint bs of
        None \<Rightarrow> None
      | Some (v, k) \<Rightarrow>
          let n = unat (of_nat v :: uint32) in
          if n \<le> length (drop k bs) then map_option (\<lambda>vs. (vs, k + n)) (parse_values t (take n (drop k bs))) else None)"

lemma no_varint_no_packed_values:
  assumes "input_contract zs good pending last_block" and "cd_inv good pending last_block s" and "first_varint (cd_visible pending s) = None"
  shows "\<exists>s'. ReadPackedPrimitive zs t s values = Some (False, s', values)"
proof -
  obtain s1 where "ReadVarint32 zs s = Some (None, s1)"
    using input_contract.ReadVarint32_law [OF assms(1,2)] assms(3) by auto
  then show ?thesis by (simp add: ReadPackedPrimitive_def ReadPackedFixedSizePrimitive_def ReadPacked_any_def)
qed

lemma flat_position:
  "CurrentPosition (CodedInputStream_flat bs n) = 0" "cd_current_limit (CodedInputStream_flat bs n) = n"
  by (simp_all add: CodedInputStream_flat_def CurrentPosition_def)

lemma all_values: "filter (\<lambda>_. True) vs = vs"
  by simp





text \<open>
  C21.
  The readers of a repeated field, the one for types of fixed size that goes over the block in memory included, read the
  value behind the tag and then as many values behind the same tag as they like: they succeed having appended a run of such
  values in order, with the stream right behind them, or fail having appended all values before the first one that is cut off.
\<close>

theorem repeated_values_are_read:
  assumes "input_contract zs good pending last_block" and "cd_inv good pending last_block s" and "is_primitive t"
    and "rf_at xs values" and "length xs < 2 ^ 30 - 1"
  shows "\<exists>ok s' values' vs. ReadRepeatedPrimitive zs t (VarintSize32 tag) tag s values = Some (ok, s', values') \<and>
    rf_at (xs @ vs) values' \<and>
    (if ok then \<exists>k. repeated_values t tag (cd_visible pending s) vs k \<and> cd_moved good pending last_block k s s'
     else repeated_cut t tag (cd_visible pending s) vs)"
proof -
  have room: "2 * (int (length xs) + 1) \<le> INT_MAX" using assms(5) by (simp add: INT_MAX_def)
  show ?thesis
    using input_contract.ReadRepeatedFixedSizePrimitive_law [OF assms(1) _ assms(2,4) room, of t tag]
      input_contract.ReadRepeatedPrimitive_any_law [OF assms(1,3,2,4) room, of tag]
    by (cases "fixed_size_type t") (simp_all add: ReadRepeatedPrimitive_def)
qed
theorem repeated_values_are_read_witness:
  "\<exists>ok s' values' vs. ReadRepeatedPrimitive array_input_stream TYPE_FIXED32 (VarintSize32 13) 13
       (CodedInputStream_flat [5, 0, 0, 0, 13, 6, 0, 0, 0] 9) RepeatedField_new = Some (ok, s', values') \<and> rf_at vs values' \<and>
     (if ok then \<exists>k. repeated_values TYPE_FIXED32 13 [5, 0, 0, 0, 13, 6, 0, 0, 0] vs k \<and>
        cd_visible array_pending s' = drop k [5, 0, 0, 0, 13, 6, 0, 0, 0]
      else repeated_cut TYPE_FIXED32 13 [5, 0, 0, 0, 13, 6, 0, 0, 0] vs)"
proof -
  let ?bs = "[5, 0, 0, 0, 13, 6, 0, 0, 0] :: byte list"
  have len: "int (length ?bs) = 9" by simp
  note r = flat_reader [of ?bs, unfolded len kDefaultTotalBytesLimit_def, simplified]
  show ?thesis
    using repeated_values_are_read [OF array_in.input_contract_axioms r(1) _ rf_at_new, of TYPE_FIXED32 13]
    unfolding r(2) by (auto simp: is_primitive_def cd_moved_def r(2) split: if_splits)
qed

end
