(* ===== verification/NamePart.thy ===== *)
theory NamePart
  imports MessageLite
begin

text \<open>
  A message class as protoc generates it: \<open>UninterpretedOption_NamePart\<close> (descriptor.pb.cc, descriptor.pb.h), with a required
  string, a required bool and a set of unknown fields. Its parser and serializers are shown to keep the contracts of
  \<open>MessageLite\<close>, so that everything proved there holds for it.

  The members are a record; \<open>np_name_part\<close> is \<open>None\<close> when the pointer is the one to the shared empty string. The jump into the
  middle of the loop is a call of the part behind the label. UTF-8 is checked only in debug builds, and then only logged.
\<close>

section \<open>The class\<close>

record name_part =
  np_unknown_fields :: UnknownFieldSet
  np_has_bits :: uint32
  np_cached_size :: int
  np_name_part :: "byte list option"
  np_is_extension :: bool

definition NamePart_new :: name_part where
  "NamePart_new = \<lparr>np_unknown_fields = UnknownFieldSet_new, np_has_bits = 0, np_cached_size = 0, np_name_part = None, np_is_extension = False\<rparr>"

definition has_name_part :: "name_part \<Rightarrow> bool" where
  "has_name_part m \<longleftrightarrow> np_has_bits m AND 1 \<noteq> 0"

definition set_has_name_part :: "name_part \<Rightarrow> name_part" where
  "set_has_name_part m = m\<lparr>np_has_bits := np_has_bits m OR 1\<rparr>"

definition clear_has_name_part :: "name_part \<Rightarrow> name_part" where
  "clear_has_name_part m = m\<lparr>np_has_bits := np_has_bits m AND NOT 1\<rparr>"

definition clear_name_part :: "name_part \<Rightarrow> name_part" where
  "clear_name_part m = clear_has_name_part (m\<lparr>np_name_part := map_option (\<lambda>_. []) (np_name_part m)\<rparr>)"

definition get_name_part :: "name_part \<Rightarrow> byte list" where
  "get_name_part m = (case np_name_part m of None \<Rightarrow> [] | Some s \<Rightarrow> s)"

definition set_name_part :: "byte list \<Rightarrow> name_part \<Rightarrow> name_part" where
  "set_name_part value m = (set_has_name_part m)\<lparr>np_name_part := Some value\<rparr>"

text \<open>The string the returned pointer leads to, and the message, whose string the caller may then change.\<close>

definition mutable_name_part :: "name_part \<Rightarrow> byte list \<times> name_part" where
  "mutable_name_part m =
     (let m = set_has_name_part m; m = (if np_name_part m = None then m\<lparr>np_name_part := Some []\<rparr> else m) in (get_name_part m, m))"

definition release_name_part :: "name_part \<Rightarrow> byte list option \<times> name_part" where
  "release_name_part m = (let m = clear_has_name_part m in (np_name_part m, m\<lparr>np_name_part := None\<rparr>))"

definition set_allocated_name_part :: "byte list option \<Rightarrow> name_part \<Rightarrow> name_part" where
  "set_allocated_name_part s m =
     (case s of
        Some s \<Rightarrow> (set_has_name_part m)\<lparr>np_name_part := Some s\<rparr>
      | None \<Rightarrow> (clear_has_name_part m)\<lparr>np_name_part := None\<rparr>)"

definition has_is_extension :: "name_part \<Rightarrow> bool" where
  "has_is_extension m \<longleftrightarrow> np_has_bits m AND 2 \<noteq> 0"

definition set_has_is_extension :: "name_part \<Rightarrow> name_part" where
  "set_has_is_extension m = m\<lparr>np_has_bits := np_has_bits m OR 2\<rparr>"

definition clear_has_is_extension :: "name_part \<Rightarrow> name_part" where
  "clear_has_is_extension m = m\<lparr>np_has_bits := np_has_bits m AND NOT 2\<rparr>"

definition clear_is_extension :: "name_part \<Rightarrow> name_part" where
  "clear_is_extension m = clear_has_is_extension (m\<lparr>np_is_extension := False\<rparr>)"

definition set_is_extension :: "bool \<Rightarrow> name_part \<Rightarrow> name_part" where
  "set_is_extension value m = (set_has_is_extension m)\<lparr>np_is_extension := value\<rparr>"

definition NamePart_Clear :: "name_part \<Rightarrow> name_part" where
  "NamePart_Clear m =
     (let m = (if np_has_bits m AND 3 \<noteq> 0 then
          let m = (if has_name_part m then m\<lparr>np_name_part := map_option (\<lambda>_. []) (np_name_part m)\<rparr> else m) in
          m\<lparr>np_is_extension := False\<rparr> else m);
        m = m\<lparr>np_has_bits := 0\<rparr> in
      m\<lparr>np_unknown_fields := UnknownFieldSet_Clear (np_unknown_fields m)\<rparr>)"

definition NamePart_IsInitialized :: "name_part \<Rightarrow> bool" where
  "NamePart_IsInitialized m \<longleftrightarrow> \<not> np_has_bits m AND 3 \<noteq> 3"

text \<open>Merging a message with itself is a failed check; here the two are different messages.\<close>

definition NamePart_MergeFrom :: "name_part \<Rightarrow> name_part \<Rightarrow> name_part" where
  "NamePart_MergeFrom from m =
     (let m = (if np_has_bits from AND push_bit (0 mod 32) 0xFF \<noteq> 0 then
          let m = (if has_name_part from then set_name_part (get_name_part from) m else m) in
          (if has_is_extension from then set_is_extension (np_is_extension from) m else m) else m) in
      m\<lparr>np_unknown_fields := UnknownFieldSet_MergeFrom (np_unknown_fields from) (np_unknown_fields m)\<rparr>)"

definition NamePart_CopyFrom :: "name_part \<Rightarrow> name_part \<Rightarrow> name_part" where
  "NamePart_CopyFrom from m = NamePart_MergeFrom from (NamePart_Clear m)"

definition NamePart_Swap :: "name_part \<Rightarrow> name_part \<Rightarrow> name_part \<times> name_part" where
  "NamePart_Swap x y =
     (let (ux, uy) = UnknownFieldSet_Swap (np_unknown_fields x) (np_unknown_fields y) in
      (x\<lparr>np_name_part := np_name_part y, np_is_extension := np_is_extension y, np_has_bits := np_has_bits y,
         np_unknown_fields := ux, np_cached_size := np_cached_size y\<rparr>,
       y\<lparr>np_name_part := np_name_part x, np_is_extension := np_is_extension x, np_has_bits := np_has_bits x,
         np_unknown_fields := uy, np_cached_size := np_cached_size x\<rparr>))"

section \<open>The parser\<close>

text \<open>The parts of the loop, over the call of the next round: a field that is not known or not of the declared type, \<dots>\<close>

definition handle_unusual ::
  "('s coded_input \<times> name_part \<Rightarrow> (bool \<times> 's coded_input \<times> name_part) option) \<Rightarrow> 's zero_copy_input \<Rightarrow> uint32 \<Rightarrow>
     's coded_input \<Rightarrow> name_part \<Rightarrow> (bool \<times> 's coded_input \<times> name_part) option" where
  "handle_unusual loop zs tag s m =
     (if tag = 0 \<or> GetTagWireType tag = WIRETYPE_END_GROUP then Some (True, s, m)
      else do {
        (ok, s, u) \<leftarrow> SkipField_set zs tag s (Some (np_unknown_fields m));
        u \<leftarrow> u;
        let m = m\<lparr>np_unknown_fields := u\<rparr> in
        (if \<not> ok then Some (False, s, m) else loop (s, m)) })"

text \<open>\<dots> the part behind the label in the second case, \<dots>\<close>

definition parse_is_extension ::
  "('s coded_input \<times> name_part \<Rightarrow> (bool \<times> 's coded_input \<times> name_part) option) \<Rightarrow> 's zero_copy_input \<Rightarrow>
     's coded_input \<Rightarrow> name_part \<Rightarrow> (bool \<times> 's coded_input \<times> name_part) option" where
  "parse_is_extension loop zs s m = do {
     (r, s) \<leftarrow> ReadPrimitive zs TYPE_BOOL s;
     (case r of
        None \<Rightarrow> Some (False, s, m)
      | Some v \<Rightarrow>
          let m = (case v of Bool b \<Rightarrow> m\<lparr>np_is_extension := b\<rparr> | _ \<Rightarrow> m); m = set_has_is_extension m;
            (at_end, s) = ExpectAtEnd s in
          if at_end then Some (True, s, m) else loop (s, m)) }"

text \<open>\<dots> and the whole.\<close>

definition merge_body ::
  "('s coded_input \<times> name_part \<Rightarrow> (bool \<times> 's coded_input \<times> name_part) option) \<Rightarrow> 's zero_copy_input \<Rightarrow>
     's coded_input \<Rightarrow> name_part \<Rightarrow> (bool \<times> 's coded_input \<times> name_part) option" where
  "merge_body loop zs s m = do {
     (tag, below, s) \<leftarrow> ReadTagWithCutoff zs 127 s;
     (if \<not> below then handle_unusual loop zs tag s m
      else if GetTagFieldNumber tag = 1 then
        (if tag = 10 then
           let (str, m) = mutable_name_part m in do {
           (ok, str, s) \<leftarrow> WireFormat_ReadString zs str s;
           let m = m\<lparr>np_name_part := Some str\<rparr> in
           (if \<not> ok then Some (False, s, m)
            else do {
              (expected, s) \<leftarrow> ExpectTag 16 s;
              (if expected then parse_is_extension loop zs s m else loop (s, m)) }) }
         else handle_unusual loop zs tag s m)
      else if GetTagFieldNumber tag = 2 then
        (if tag = 16 then parse_is_extension loop zs s m else handle_unusual loop zs tag s m)
      else handle_unusual loop zs tag s m) }"

lemma mono_NamePart_parts [partial_function_mono]:
  assumes "\<And>x. mono_option (\<lambda>f. B f x)"
  shows "mono_option (\<lambda>f. handle_unusual (B f) zs tag s m)" and "mono_option (\<lambda>f. parse_is_extension (B f) zs s m)"
    and "mono_option (\<lambda>f. merge_body (B f) zs s m)"
proof -
  show u: "mono_option (\<lambda>f. handle_unusual (B f) zs tag s m)" for tag s m
    unfolding handle_unusual_def Let_def using assms by (auto intro!: partial_function_mono split: prod.splits)
  show e: "mono_option (\<lambda>f. parse_is_extension (B f) zs s m)" for s m
    unfolding parse_is_extension_def Let_def
    subgoal premises
      apply (intro partial_function_mono)
      subgoal for r
        by (cases r; cases "fst r"; cases "ExpectAtEnd (snd r)") (auto intro!: partial_function_mono assms)
      done
    done
  show "mono_option (\<lambda>f. merge_body (B f) zs s m)"
    unfolding merge_body_def Let_def using assms by (cases "mutable_name_part m") (auto intro!: partial_function_mono u e split: prod.splits)
qed

partial_function (option) NamePart_merge ::
  "'s zero_copy_input \<Rightarrow> 's coded_input \<times> name_part \<Rightarrow> (bool \<times> 's coded_input \<times> name_part) option" where
  "NamePart_merge zs p = merge_body (NamePart_merge zs) zs (fst p) (snd p)"

definition NamePart_MergePartialFromCodedStream ::
  "'s zero_copy_input \<Rightarrow> 's coded_input \<Rightarrow> name_part \<Rightarrow> (bool \<times> 's coded_input \<times> name_part) option" where
  "NamePart_MergePartialFromCodedStream zs input m = NamePart_merge zs (input, m)"

section \<open>The serializers\<close>

definition NamePart_SerializeWithCachedSizes ::
  "'t zero_copy_output \<Rightarrow> name_part \<Rightarrow> 't coded_output \<Rightarrow> 't coded_output option" where
  "NamePart_SerializeWithCachedSizes zo m output = do {
     output \<leftarrow> (if has_name_part m then WriteStringMaybeAliased 1 (get_name_part m) zo output else Some output);
     output \<leftarrow> (if has_is_extension m then WriteBool 2 (np_is_extension m) zo output else Some output);
     (if \<not> UnknownFieldSet_empty (np_unknown_fields m) then SerializeUnknownFields zo (np_unknown_fields m) output
      else Some output) }"

definition NamePart_SerializeWithCachedSizesToArray :: "name_part \<Rightarrow> byte list" where
  "NamePart_SerializeWithCachedSizesToArray m =
     (if has_name_part m then WriteStringToArray 1 (get_name_part m) else []) @
     (if has_is_extension m then WriteBoolToArray 2 (np_is_extension m) else []) @
     (if \<not> UnknownFieldSet_empty (np_unknown_fields m) then SerializeUnknownFieldsToArray (np_unknown_fields m) else [])"

definition NamePart_ByteSize :: "name_part \<Rightarrow> int \<times> name_part" where
  "NamePart_ByteSize m =
     (let total_size = 0;
        total_size = (if np_has_bits m AND push_bit (0 mod 32) 0xFF \<noteq> 0 then
          let total_size = (if has_name_part m then total_size + (1 + StringSize (get_name_part m)) else total_size) in
          (if has_is_extension m then total_size + (1 + 1) else total_size) else total_size);
        total_size = (if \<not> UnknownFieldSet_empty (np_unknown_fields m)
          then total_size + ComputeUnknownFieldsSize (np_unknown_fields m) else total_size) in
      (total_size, m\<lparr>np_cached_size := total_size\<rparr>))"

definition NamePart_GetCachedSize :: "name_part \<Rightarrow> int" where
  "NamePart_GetCachedSize m = np_cached_size m"

definition NamePart_message :: "'s zero_copy_input \<Rightarrow> 't zero_copy_output \<Rightarrow> (name_part, 's, 't) message_lite" where
  "NamePart_message zs zo =
     \<lparr>ml_Clear = NamePart_Clear, ml_IsInitialized = NamePart_IsInitialized,
      ml_MergePartialFromCodedStream = NamePart_MergePartialFromCodedStream zs,
      ml_ByteSize = NamePart_ByteSize, ml_GetCachedSize = NamePart_GetCachedSize,
      ml_SerializeWithCachedSizes = NamePart_SerializeWithCachedSizes zo,
      ml_SerializeWithCachedSizesToArray = (\<lambda>m. Some (NamePart_SerializeWithCachedSizesToArray m))\<rparr>"

section \<open>The specification\<close>

text \<open>The fields of a message and where they end, \<dots>\<close>

definition wire_parse :: "nat \<Rightarrow> byte list \<Rightarrow> (wire_field list \<times> message_end) option" where
  "wire_parse d bs = map_option
     (\<lambda>(fs, t, j). (fs, if parse_message d bs \<noteq> None then At_end else case j of None \<Rightarrow> At_bad_tag | Some k \<Rightarrow> At_tag t k))
     (parse_fields d bs)"

text \<open>\<dots> what each of them does to the message, and the parser.\<close>

fun np_merge_field :: "wire_field \<Rightarrow> name_part \<Rightarrow> name_part" where
  "np_merge_field (Wire_bytes n str) m =
     (if n = 1 then set_name_part str m else m\<lparr>np_unknown_fields := np_unknown_fields m @ [Wire_bytes n str]\<rparr>)"
| "np_merge_field (Wire_varint n v) m =
     (if n = 2 then set_is_extension (v \<noteq> 0) m else m\<lparr>np_unknown_fields := np_unknown_fields m @ [Wire_varint n v]\<rparr>)"
| "np_merge_field f m = m\<lparr>np_unknown_fields := np_unknown_fields m @ [f]\<rparr>"

definition np_parse :: "nat \<Rightarrow> byte list \<Rightarrow> name_part \<Rightarrow> (name_part \<times> message_end) option" where
  "np_parse d bs m = map_option (\<lambda>(fs, e). (fold np_merge_field fs m, e)) (wire_parse d bs)"

fun shift_end :: "nat \<Rightarrow> message_end \<Rightarrow> message_end" where
  "shift_end n (At_tag t k) = At_tag t (n + k)"
| "shift_end n e = e"

lemma wire_parse_Nil [simp]: "wire_parse d [] = Some ([], At_end)"
  using parse_message_fields [of d "[]" "[]"] by (simp add: wire_parse_def)

lemma wire_parse_step:
  assumes "first_varint bs = Some (v, k)" and "\<not> ends_fields (of_nat v)"
  shows "wire_parse d bs = (case parse_field d (of_nat v) (drop k bs) of
     None \<Rightarrow> None | Some (f, j) \<Rightarrow> map_option (\<lambda>(fs, e). (f # fs, shift_end (k + j) e)) (wire_parse d (drop (k + j) bs)))"
proof (cases "parse_field d (of_nat v) (drop k bs)")
  case None
  then show ?thesis using assms unfolding wire_parse_def by (subst parse_fields_eq) simp
next
  case (Some r)
  obtain f j where r: "r = (f, j)" by (cases r)
  have "parse_fields d bs = map_option (\<lambda>(fs, t, r). (f # fs, t, map_option ((+) (k + j)) r)) (parse_fields d (drop (k + j) bs))"
    using assms Some r by (subst parse_fields_eq) simp
  moreover have "parse_message d bs = map_option ((#) f) (parse_message d (drop (k + j) bs))"
    using assms Some r by (simp add: parse_message_step)
  ultimately show ?thesis
    using Some r by (cases "parse_fields d (drop (k + j) bs)") (auto simp: wire_parse_def split: option.splits)
qed

lemma wire_parse_stop:
  assumes "bs \<noteq> []" and "case first_varint bs of None \<Rightarrow> True | Some (v, k) \<Rightarrow> ends_fields (of_nat v)"
  shows "wire_parse d bs = Some ([], case first_varint bs of None \<Rightarrow> At_bad_tag | Some (v, k) \<Rightarrow> At_tag (of_nat v) k)"
proof (cases "first_varint bs")
  case None
  then show ?thesis
    using assms parse_message_no_step [OF assms] unfolding wire_parse_def by (subst parse_fields_eq) simp
next
  case (Some r)
  then show ?thesis
    using assms parse_message_no_step [OF assms] unfolding wire_parse_def by (cases r, subst parse_fields_eq) simp
qed

lemma np_parse_step:
  assumes "first_varint bs = Some (v, k)" and "\<not> ends_fields (of_nat v)"
  shows "np_parse d bs m = (case parse_field d (of_nat v) (drop k bs) of
     None \<Rightarrow> None
   | Some (f, j) \<Rightarrow> map_option (\<lambda>(m, e). (m, shift_end (k + j) e)) (np_parse d (drop (k + j) bs) (np_merge_field f m)))"
  by (auto simp: np_parse_def wire_parse_step [OF assms] option.map_comp o_def split_beta split: option.splits)

lemma merged_moved:
  assumes "merged good pending last_block s1 spec r" and "cd_moved good pending last_block n s s1"
    and "ConsumedEntireMessage s1 = ConsumedEntireMessage s" and "n \<le> length (cd_visible pending s)"
  shows "merged good pending last_block s (map_option (\<lambda>(m, e). (m, shift_end n e)) spec) r"
proof (cases spec)
  case None
  then show ?thesis using assms(1) by simp
next
  case (Some p)
  obtain m' e where p: "p = (m', e)" by (cases p)
  obtain s' where s': "r = Some (True, s', m')" "stopped good pending last_block s1 e s'" using assms(1) Some p by auto
  have l: "length (cd_visible pending s1) = length (cd_visible pending s) - n" using assms(2) by (simp add: cd_moved_def)
  have t: "cd_moved good pending last_block k s1 s' \<Longrightarrow> cd_moved good pending last_block (n + k) s s'" for k
    by (rule cd_moved_trans [OF assms(2)])
  have "stopped good pending last_block s (shift_end n e) s'"
  proof (cases e)
    case At_end
    have "cd_moved good pending last_block (length (cd_visible pending s)) s s'"
      using t [of "length (cd_visible pending s1)"] s'(2) At_end l assms(4) by simp
    moreover have "end_is_legitimate (length (cd_visible pending s1)) s1 = end_is_legitimate (length (cd_visible pending s)) s"
      using end_is_legitimate_moved [OF assms(2)] l assms(4) by simp
    ultimately show ?thesis using s'(2) At_end assms(3) by simp
  next
    case (At_tag tag k)
    then show ?thesis using s'(2) t assms(3) by simp
  next
    case At_bad_tag
    then show ?thesis using s'(2) t assms(3) by auto
  qed
  then show ?thesis using s'(1) Some p by simp
qed

lemma set_has_is_extension_late: "set_has_is_extension (m\<lparr>np_is_extension := b\<rparr>) = set_is_extension b m"
  by (simp add: set_is_extension_def set_has_is_extension_def)

context input_contract
begin

lemma ReadString_field_law:
  assumes "cd_inv good pending last_block s"
  shows "case parse_simple 10 (cd_visible pending s) of
     None \<Rightarrow> \<exists>str s'. WireFormat_ReadString zs value s = Some (False, str, s')
   | Some (f, j) \<Rightarrow> \<exists>str s'. WireFormat_ReadString zs value s = Some (True, str, s') \<and> f = Wire_bytes 1 str \<and>
       cd_moved good pending last_block j s s' \<and> ConsumedEntireMessage s' = ConsumedEntireMessage s"
proof -
  let ?bs = "cd_visible pending s"
  have tag: "GetTagWireType 10 = WIRETYPE_LENGTH_DELIMITED" "GetTagFieldNumber 10 = 1"
    by (simp_all add: GetTagWireType_def GetTagFieldNumber_def wire_types kTagTypeMask_def kTagTypeBits_def)
  obtain s2 k2 where v32: "ReadVarint32 zs s = Some (map_option (\<lambda>(v, j). of_nat v) (first_varint ?bs), s2)"
    "cd_moved good pending last_block k2 s s2" "case first_varint ?bs of Some (v, j) \<Rightarrow> k2 = j | None \<Rightarrow> True"
    using ReadVarint32_law [OF assms] by blast
  have e2: "cd_legitimate_message_end s2 = cd_legitimate_message_end s"
    using varint_end(4) [of zs s] v32(1) by (simp add: keeps_end_def)
  show ?thesis
  proof (cases "first_varint ?bs")
    case None
    then show ?thesis using v32(1) by (simp add: parse_simple_def tag wire_types WireFormat_ReadString_def)
  next
    case (Some r)
    obtain v k where r: "r = (v, k)" by (cases r)
    let ?v = "of_nat v :: uint32"
    have m: "cd_moved good pending last_block k s s2" using v32(2,3) Some r by simp
    then have i: "cd_inv good pending last_block s2" and b: "cd_visible pending s2 = drop k ?bs" by (simp_all add: cd_moved_def)
    obtain str s' where s': "ReadString zs value (sint ?v) s2 = Some (unat ?v \<le> length (drop k ?bs), str, s')"
      "unat ?v \<le> length (drop k ?bs) \<longrightarrow> str = take (unat ?v) (drop k ?bs) \<and> cd_moved good pending last_block (unat ?v) s2 s'"
      using ReadString_length_law [OF i, of "value" ?v] unfolding b by blast
    have k: "k \<le> length ?bs" using first_varint_pos(2) [of ?bs v k] Some r by simp
    have R: "WireFormat_ReadString zs value s = Some (unat ?v \<le> length (drop k ?bs), str, s')"
      using v32(1) Some r s'(1) by (simp add: WireFormat_ReadString_def)
    have P: "parse_simple 10 ?bs =
        (if unat ?v \<le> length (drop k ?bs) then Some (Wire_bytes 1 (take (unat ?v) (drop k ?bs)), k + unat ?v) else None)"
      using Some r k by (auto simp: parse_simple_def tag wire_types Let_def)
    show ?thesis
      using R s' e2 ReadString_end [OF s'(1)] cd_moved_trans [OF m] unfolding P
      by (auto simp: ConsumedEntireMessage_def)
  qed
qed

lemma ReadBool_field_law:
  assumes "cd_inv good pending last_block s"
  shows "\<exists>s' k. ReadPrimitive zs TYPE_BOOL s = Some (map_option (\<lambda>(v, j). Bool ((of_nat v :: uint64) \<noteq> 0)) (first_varint (cd_visible pending s)), s') \<and>
    cd_moved good pending last_block k s s' \<and> (case first_varint (cd_visible pending s) of Some (v, j) \<Rightarrow> k = j | None \<Rightarrow> True) \<and>
    ConsumedEntireMessage s' = ConsumedEntireMessage s"
proof -
  obtain s1 k1 where v64: "ReadVarint64 zs s = Some (map_option (\<lambda>(v, j). of_nat v) (first_varint (cd_visible pending s)), s1)"
    "cd_moved good pending last_block k1 s s1" "case first_varint (cd_visible pending s) of Some (v, j) \<Rightarrow> k1 = j | None \<Rightarrow> True"
    using ReadVarint64_law [OF assms] by blast
  have "cd_legitimate_message_end s1 = cd_legitimate_message_end s"
    using varint_end(3) [of zs s] v64(1) by (simp add: keeps_end_def)
  then show ?thesis
    using v64 by (cases "first_varint (cd_visible pending s)") (auto simp: ConsumedEntireMessage_def)
qed

lemma parse_is_extension_law:
  assumes "cd_moved good pending last_block k s s1" and "ConsumedEntireMessage s1 = ConsumedEntireMessage s"
    and "first_varint (cd_visible pending s) = Some (v, k)" and "of_nat v = (16 :: uint32)"
    and loop: "\<And>f j s2 m. parse_field d (of_nat v) (drop k (cd_visible pending s)) = Some (f, j) \<Longrightarrow>
      cd_moved good pending last_block (k + j) s s2 \<Longrightarrow>
      merged good pending last_block s2 (np_parse d (drop (k + j) (cd_visible pending s)) m) (loop (s2, m))"
  shows "merged good pending last_block s (np_parse d (cd_visible pending s) m) (parse_is_extension loop zs s1 m)"
proof -
  let ?bs = "cd_visible pending s"
  have tag: "GetTagWireType 16 = WIRETYPE_VARINT" "GetTagFieldNumber 16 = 2" "\<not> ends_fields 16"
    by (simp_all add: GetTagWireType_def GetTagFieldNumber_def wire_types kTagTypeMask_def kTagTypeBits_def ends_fields_def)
  have k: "k \<le> length ?bs" using first_varint_pos(2) [OF assms(3)] .
  have inv: "cd_inv good pending last_block s1" and vis: "cd_visible pending s1 = drop k ?bs"
    using assms(1) by (simp_all add: cd_moved_def)
  have P: "parse_field d (of_nat v) (drop k ?bs) = map_option (\<lambda>(w, j). (Wire_varint 2 (of_nat w), j)) (first_varint (drop k ?bs))"
    using assms(4) by (simp add: parse_field_def parse_simple_def tag wire_types)
  have np: "np_parse d ?bs m = (case parse_field d (of_nat v) (drop k ?bs) of
     None \<Rightarrow> None
   | Some (f, j) \<Rightarrow> map_option (\<lambda>(m, e). (m, shift_end (k + j) e)) (np_parse d (drop (k + j) ?bs) (np_merge_field f m)))"
    using np_parse_step [OF assms(3)] tag(3) assms(4) by simp
  obtain s2 i where s2: "ReadPrimitive zs TYPE_BOOL s1 =
      Some (map_option (\<lambda>(w, j). Bool ((of_nat w :: uint64) \<noteq> 0)) (first_varint (drop k ?bs)), s2)"
    "cd_moved good pending last_block i s1 s2" "case first_varint (drop k ?bs) of Some (w, j) \<Rightarrow> i = j | None \<Rightarrow> True"
    "ConsumedEntireMessage s2 = ConsumedEntireMessage s1"
    using ReadBool_field_law [OF inv] unfolding vis by blast
  show ?thesis
  proof (cases "first_varint (drop k ?bs)")
    case None
    then show ?thesis using s2(1) by (simp add: np P parse_is_extension_def)
  next
    case (Some r)
    obtain w j where r: "r = (w, j)" by (cases r)
    let ?m = "set_is_extension ((of_nat w :: uint64) \<noteq> 0) m"
    have m2: "cd_moved good pending last_block (k + j) s s2" using cd_moved_trans [OF assms(1) s2(2)] s2(3) Some r by simp
    have kj: "k + j \<le> length ?bs" using first_varint_pos(2) [of "drop k ?bs" w j] Some r k by simp
    have inv2: "cd_inv good pending last_block s2" and vis2: "cd_visible pending s2 = drop (k + j) ?bs"
      using m2 by (simp_all add: cd_moved_def)
    have c: "ConsumedEntireMessage s2 = ConsumedEntireMessage s" using s2(4) assms(2) by simp
    have np': "np_parse d ?bs m = map_option (\<lambda>(m, e). (m, shift_end (k + j) e)) (np_parse d (drop (k + j) ?bs) ?m)"
      using Some r by (simp add: np P)
    have R: "parse_is_extension loop zs s1 m =
        (case ExpectAtEnd s2 of (at_end, s) \<Rightarrow> if at_end then Some (True, s, ?m) else loop (s, ?m))"
      using s2(1) Some r
      by (cases "ExpectAtEnd s2") (simp add: parse_is_extension_def set_has_is_extension_late Let_def del: ReadPrimitive.simps)
    obtain at_end s3 where s3: "ExpectAtEnd s2 = (at_end, s3)" by (cases "ExpectAtEnd s2")
    have "merged good pending last_block s2 (np_parse d (drop (k + j) ?bs) ?m) (parse_is_extension loop zs s1 m)"
    proof (cases at_end)
      case True
      note at = ExpectAtEnd_law [OF inv2, of s3]
      have "drop (k + j) ?bs = []" using at(1) s3 True vis2 by simp
      then have "np_parse d (drop (k + j) ?bs) ?m = Some (?m, At_end)" by (simp add: np_parse_def)
      then show ?thesis using R s3 True at by simp
    next
      case False
      then have "s3 = s2" using s3 by (auto simp: ExpectAtEnd_def split: if_splits)
      then show ?thesis using R s3 False loop [OF _ m2] Some r by (simp add: P)
    qed
    from merged_moved [OF this m2 c kj] show ?thesis unfolding np' .
  qed
qed

end

lemma unknown_to_set:
  assumes "parse_field d tag bs = Some (f, j)" and "tag \<notin> {10, 16}"
  shows "np_merge_field f m = m\<lparr>np_unknown_fields := np_unknown_fields m @ [f]\<rparr>"
proof -
  have "MakeTag 1 WIRETYPE_LENGTH_DELIMITED = 10" "MakeTag 2 WIRETYPE_VARINT = 16"
    by (simp_all add: MakeTag_def wire_types kTagTypeBits_def)
  then have "\<not> (GetTagFieldNumber tag = 1 \<and> GetTagWireType tag = WIRETYPE_LENGTH_DELIMITED)"
    "\<not> (GetTagFieldNumber tag = 2 \<and> GetTagWireType tag = WIRETYPE_VARINT)"
    using assms(2) MakeTag_of_tag [of tag] by (metis insert_iff)+
  then show ?thesis
    using assms(1) by (auto simp: parse_field_def parse_group_def parse_simple_def Let_def split: if_splits option.splits)
qed

lemma merge_body_unusual:
  assumes "ReadTagWithCutoff zs 127 s = Some (tag, below, s1)" and "tag \<notin> {10, 16}"
  shows "merge_body loop zs s m = handle_unusual loop zs tag s1 m"
  using assms by (simp add: merge_body_def)

context input_contract
begin

lemma handle_unusual_law:
  assumes "cd_moved good pending last_block k s s1" and "ConsumedEntireMessage s1 = ConsumedEntireMessage s"
    and "first_varint (cd_visible pending s) = Some (v, k)" and "\<not> ends_fields (of_nat v)" and "of_nat v \<notin> {10, 16 :: uint32}"
    and "0 \<le> cd_recursion_depth s" and "depth_left s = d"
    and loop: "\<And>f j s2 m. parse_field d (of_nat v) (drop k (cd_visible pending s)) = Some (f, j) \<Longrightarrow>
      cd_moved good pending last_block (k + j) s s2 \<Longrightarrow>
      merged good pending last_block s2 (np_parse d (drop (k + j) (cd_visible pending s)) m) (loop (s2, m))"
  shows "merged good pending last_block s (np_parse d (cd_visible pending s) m) (handle_unusual loop zs (of_nat v) s1 m)"
proof -
  let ?bs = "cd_visible pending s" and ?tag = "of_nat v :: uint32" and ?u = "np_unknown_fields m"
  have inv: "cd_inv good pending last_block s1" "0 \<le> cd_recursion_depth s1" "depth_left s1 = d" "cd_visible pending s1 = drop k ?bs"
    using assms(1,6,7) depth_left_moved [OF assms(1)] by (simp_all add: cd_moved_def)
  note F = SkipField_set_law [OF inv(1,2), of "Some ?u" ?tag, unfolded inv(3,4)]
  have R: "handle_unusual loop zs ?tag s1 m = do {
      (ok, s, u) \<leftarrow> SkipField_set zs ?tag s1 (Some ?u);
      u \<leftarrow> u;
      (if \<not> ok then Some (False, s, m\<lparr>np_unknown_fields := u\<rparr>) else loop (s, m\<lparr>np_unknown_fields := u\<rparr>)) }"
    using assms(4) by (simp add: handle_unusual_def ends_fields_def Let_def)
  show ?thesis
  proof (cases "parse_field d ?tag (drop k ?bs)")
    case None
    then obtain s' u' where s': "SkipField_set zs ?tag s1 (Some ?u) = Some (False, s', u')" using F by auto
    obtain w where "u' = Some w" using SkipField_set_keeps_set [OF s'] by (cases u') auto
    then show ?thesis using None s' by (simp add: np_parse_step [OF assms(3,4)] R)
  next
    case (Some r)
    obtain f j where r: "r = (f, j)" by (cases r)
    obtain s2 where s2: "SkipField_set zs ?tag s1 (Some ?u) = Some (True, s2, Some (?u @ [f]))" "cd_moved good pending last_block j s1 s2"
      "cd_legitimate_message_end s2 = cd_legitimate_message_end s1"
      using F Some r by auto
    have m2: "cd_moved good pending last_block (k + j) s s2" using cd_moved_trans [OF assms(1) s2(2)] .
    have c: "ConsumedEntireMessage s2 = ConsumedEntireMessage s" using s2(3) assms(2) by (simp add: ConsumedEntireMessage_def)
    have kj: "k + j \<le> length ?bs"
      using parse_field_canonical(3) [OF Some [unfolded r]] first_varint_pos(2) [OF assms(3)] by simp
    have np: "np_parse d ?bs m = map_option (\<lambda>(m, e). (m, shift_end (k + j) e))
        (np_parse d (drop (k + j) ?bs) (m\<lparr>np_unknown_fields := ?u @ [f]\<rparr>))"
      using Some r unknown_to_set [OF Some [unfolded r] assms(5)] by (simp add: np_parse_step [OF assms(3,4)])
    have "handle_unusual loop zs ?tag s1 m = loop (s2, m\<lparr>np_unknown_fields := ?u @ [f]\<rparr>)" using s2(1) by (simp add: R)
    then have "merged good pending last_block s2 (np_parse d (drop (k + j) ?bs) (m\<lparr>np_unknown_fields := ?u @ [f]\<rparr>))
        (handle_unusual loop zs ?tag s1 m)"
      using loop [OF _ m2] Some r by simp
    from merged_moved [OF this m2 c kj] show ?thesis unfolding np .
  qed
qed

end

lemma shift_end_0 [simp]: "shift_end 0 e = e"
  by (cases e) simp_all

context input_contract
begin

lemma ReadTagWithCutoff_end:
  assumes "cd_inv good pending last_block s" and "\<And>v k. first_varint (cd_visible pending s) = Some (v, k) \<Longrightarrow> ends_fields (of_nat v)"
  shows "\<exists>below s'. ReadTagWithCutoff zs cutoff s = Some (tag_of (first_varint (cd_visible pending s)), below, s') \<and>
    ends_fields (tag_of (first_varint (cd_visible pending s))) \<and> merged good pending last_block s (np_parse d (cd_visible pending s) m) (Some (True, s', m))"
proof -
  let ?bs = "cd_visible pending s"
  obtain below s' k where s': "ReadTagWithCutoff zs cutoff s = Some (tag_of (first_varint ?bs), below, s')"
    "LastTagWas (tag_of (first_varint ?bs)) s'" "cd_moved good pending last_block k s s'"
    "case first_varint ?bs of Some (v, j) \<Rightarrow> k = j | None \<Rightarrow> True"
    "if ?bs = []
     then k = 0 \<and> (ConsumedEntireMessage s \<or>
       ConsumedEntireMessage s' = (CurrentPosition s < cd_total_bytes_limit s \<or> cd_current_limit s = cd_total_bytes_limit s))
     else ConsumedEntireMessage s' = ConsumedEntireMessage s"
    using ReadTagWithCutoff_law [OF assms(1)] by blast
  have e: "ends_fields (tag_of (first_varint ?bs))"
    using assms(2) by (cases "first_varint ?bs") (auto simp: tag_of_def ends_fields_def)
  have "merged good pending last_block s (np_parse d ?bs m) (Some (True, s', m))"
  proof (cases "?bs = []")
    case True
    then have "stopped good pending last_block s At_end s'"
      using s'(2,3,5) by (auto simp: tag_of_def end_is_legitimate_def)
    then show ?thesis by (simp add: np_parse_def True)
  next
    case False
    have "wire_parse d ?bs = Some ([], case first_varint ?bs of None \<Rightarrow> At_bad_tag | Some (v, k) \<Rightarrow> At_tag (of_nat v) k)"
      using assms(2) by (intro wire_parse_stop [OF False]) (auto split: option.splits)
    then show ?thesis
      using s'(2-5) False by (cases "first_varint ?bs") (auto simp: np_parse_def tag_of_def)
  qed
  then show ?thesis using s'(1) e by blast
qed

lemma ExpectTag_end: "ExpectTag expected s = Some (ok, s') \<Longrightarrow> ConsumedEntireMessage s' = ConsumedEntireMessage s"
  by (auto simp: ExpectTag_def ConsumedEntireMessage_def bind_eq_Some_conv split: if_splits)

lemma mutable_name_part_eq: "mutable_name_part m = (str, m') \<Longrightarrow> m'\<lparr>np_name_part := Some v\<rparr> = set_name_part v m"
  by (auto simp: mutable_name_part_def set_name_part_def Let_def split: if_splits)

text \<open>The loop from the top, and from behind a tag of the second field.\<close>

lemma parse_name_part_law:
  assumes "cd_moved good pending last_block k s s1" and "ConsumedEntireMessage s1 = ConsumedEntireMessage s"
    and "first_varint (cd_visible pending s) = Some (v, k)" and "of_nat v = (10 :: uint32)"
    and "\<And>f j s2 m. parse_field d (of_nat v) (drop k (cd_visible pending s)) = Some (f, j) \<Longrightarrow>
      cd_moved good pending last_block (k + j) s s2 \<Longrightarrow>
      merged good pending last_block s2 (np_parse d (drop (k + j) (cd_visible pending s)) m) (loop (s2, m))"
    and "\<And>f j s2 s3 w i m. parse_field d (of_nat v) (drop k (cd_visible pending s)) = Some (f, j) \<Longrightarrow>
      cd_moved good pending last_block (k + j) s s2 \<Longrightarrow> cd_moved good pending last_block i s2 s3 \<Longrightarrow>
      ConsumedEntireMessage s3 = ConsumedEntireMessage s2 \<Longrightarrow>
      first_varint (drop (k + j) (cd_visible pending s)) = Some (w, i) \<Longrightarrow> of_nat w = (16 :: uint32) \<Longrightarrow>
      merged good pending last_block s2 (np_parse d (drop (k + j) (cd_visible pending s)) m) (parse_is_extension loop zs s3 m)"
  shows "merged good pending last_block s (np_parse d (cd_visible pending s) m)
    (let (str, m) = mutable_name_part m in do {
       (ok, str, s) \<leftarrow> WireFormat_ReadString zs str s1;
       let m = m\<lparr>np_name_part := Some str\<rparr> in
       (if \<not> ok then Some (False, s, m)
        else do {
          (expected, s) \<leftarrow> ExpectTag 16 s;
          (if expected then parse_is_extension loop zs s m else loop (s, m)) }) })" (is "merged _ _ _ _ _ ?r")
proof -
  let ?bs = "cd_visible pending s"
  have tag: "GetTagWireType 10 \<noteq> WIRETYPE_START_GROUP" "\<not> ends_fields 10"
    by (simp_all add: GetTagWireType_def wire_types kTagTypeMask_def kTagTypeBits_def ends_fields_def)
  have inv: "cd_inv good pending last_block s1" and vis: "cd_visible pending s1 = drop k ?bs"
    using assms(1) by (simp_all add: cd_moved_def)
  obtain str0 m0 where m0: "mutable_name_part m = (str0, m0)" by fastforce
  note set = mutable_name_part_eq [OF m0]
  have P: "parse_field d (of_nat v) (drop k ?bs) = parse_simple 10 (drop k ?bs)"
    using assms(4) tag(1) by (simp add: parse_field_def)
  have np: "np_parse d ?bs m = (case parse_field d (of_nat v) (drop k ?bs) of
     None \<Rightarrow> None
   | Some (f, j) \<Rightarrow> map_option (\<lambda>(m, e). (m, shift_end (k + j) e)) (np_parse d (drop (k + j) ?bs) (np_merge_field f m)))"
    using np_parse_step [OF assms(3)] tag(2) assms(4) by simp
  note R = ReadString_field_law [OF inv, of str0, unfolded vis]
  show ?thesis
  proof (cases "parse_simple 10 (drop k ?bs)")
    case None
    then obtain str s' where "WireFormat_ReadString zs str0 s1 = Some (False, str, s')" using R by auto
    then show ?thesis using None m0 by (simp add: np P)
  next
    case (Some r)
    obtain f j where r: "r = (f, j)" by (cases r)
    obtain str s2 where s2: "WireFormat_ReadString zs str0 s1 = Some (True, str, s2)" "f = Wire_bytes 1 str"
      "cd_moved good pending last_block j s1 s2" "ConsumedEntireMessage s2 = ConsumedEntireMessage s1"
      using R Some r by auto
    let ?m = "set_name_part str m"
    have F: "parse_field d (of_nat v) (drop k ?bs) = Some (f, j)" using P Some r by simp
    have m2: "cd_moved good pending last_block (k + j) s s2" using cd_moved_trans [OF assms(1) s2(3)] .
    have c: "ConsumedEntireMessage s2 = ConsumedEntireMessage s" using s2(4) assms(2) by simp
    have kj: "k + j \<le> length ?bs"
      using parse_field_canonical(3) [OF F] first_varint_pos(2) [OF assms(3)] by simp
    have inv2: "cd_inv good pending last_block s2" and vis2: "cd_visible pending s2 = drop (k + j) ?bs"
      using m2 by (simp_all add: cd_moved_def)
    have np': "np_parse d ?bs m = map_option (\<lambda>(m, e). (m, shift_end (k + j) e)) (np_parse d (drop (k + j) ?bs) ?m)"
      using F s2(2) by (simp add: np)
    obtain ok s3 i where s3: "ExpectTag 16 s2 = Some (ok, s3)" "cd_moved good pending last_block i s2 s3"
      "if ok then first_varint (drop (k + j) ?bs) = Some (unat (16 :: uint32), i) else i = 0"
      using ExpectTag_law [OF inv2, of 16] unfolding vis2 by blast
    note c3 = ExpectTag_end [OF s3(1)]
    have r: "?r = (if ok then parse_is_extension loop zs s3 ?m else loop (s3, ?m))"
      using m0 s2(1) s3(1) set by simp
    have "merged good pending last_block s2 (np_parse d (drop (k + j) ?bs) ?m) ?r"
    proof (cases ok)
      case True
      then have w: "first_varint (drop (k + j) ?bs) = Some (unat (16 :: uint32), i)" using s3(3) by simp
      show ?thesis
        unfolding r if_P [OF True] by (rule assms(6) [OF F m2 s3(2) c3 w]) simp
    next
      case False
      then have m3: "cd_moved good pending last_block (k + j) s s3" "cd_moved good pending last_block 0 s2 s3"
        using cd_moved_trans [OF m2 s3(2)] s3(2,3) by auto
      have "merged good pending last_block s3 (np_parse d (drop (k + j) ?bs) ?m) (loop (s3, ?m))" by (rule assms(5) [OF F m3(1)])
      from merged_moved [OF this m3(2) c3] show ?thesis
        using False by (simp add: r shift_end_0 case_prod_beta option.map_ident option.map_id)
    qed
    from merged_moved [OF this m2 c kj] show ?thesis unfolding np' .
  qed
qed

lemma NamePart_merge_laws:
  "(\<forall>s m. cd_inv good pending last_block s \<longrightarrow> 0 \<le> cd_recursion_depth s \<longrightarrow> depth_left s = d \<longrightarrow> cd_visible pending s = bs \<longrightarrow>
      merged good pending last_block s (np_parse d bs m) (NamePart_merge zs (s, m))) \<and>
   (\<forall>s s1 k v m. 0 \<le> cd_recursion_depth s \<longrightarrow> depth_left s = d \<longrightarrow> cd_visible pending s = bs \<longrightarrow>
      cd_moved good pending last_block k s s1 \<longrightarrow> ConsumedEntireMessage s1 = ConsumedEntireMessage s \<longrightarrow>
      first_varint bs = Some (v, k) \<longrightarrow> of_nat v = (16 :: uint32) \<longrightarrow>
      merged good pending last_block s (np_parse d bs m) (parse_is_extension (NamePart_merge zs) zs s1 m))"
proof (induction d bs rule: parse_fields_induct)
  case (fields d bs)
  have loop: "merged good pending last_block s2 (np_parse d (drop (k + j) bs) m) (NamePart_merge zs (s2, m))"
    if "first_varint bs = Some (v, k)" "\<not> ends_fields (of_nat v)" "parse_field d (of_nat v) (drop k bs) = Some (f, j)"
      "cd_moved good pending last_block (k + j) s s2" "0 \<le> cd_recursion_depth s" "depth_left s = d" "cd_visible pending s = bs"
    for v k f j s s2 m
    using fields.IH(2) [OF that(1-3)] that(4-) depth_left_moved [OF that(4)] by (simp add: cd_moved_def)
  have second: "merged good pending last_block s (np_parse d bs m) (parse_is_extension (NamePart_merge zs) zs s1 m)"
    if "0 \<le> cd_recursion_depth s" "depth_left s = d" "cd_visible pending s = bs"
      "cd_moved good pending last_block k s s1" "ConsumedEntireMessage s1 = ConsumedEntireMessage s"
      "first_varint bs = Some (v, k)" "of_nat v = (16 :: uint32)" for s s1 k v m
  proof -
    have nend: "\<not> ends_fields (of_nat v)"
      using that(7) by (simp add: ends_fields_def GetTagWireType_def wire_types kTagTypeMask_def kTagTypeBits_def)
    show ?thesis
      using parse_is_extension_law [where s = s and v = v and d = d and loop = "NamePart_merge zs", unfolded that(3), OF that(4-7)]
        loop [OF that(6) nend _ _ that(1-3)] by blast
  qed
  have top: "merged good pending last_block s (np_parse d bs m) (NamePart_merge zs (s, m))"
    if "cd_inv good pending last_block s" "0 \<le> cd_recursion_depth s" "depth_left s = d" "cd_visible pending s = bs" for s m
  proof -
    note st = that
    have S: "NamePart_merge zs (s, m) = merge_body (NamePart_merge zs) zs s m" by (subst NamePart_merge.simps) simp
    show ?thesis
    proof (cases "case first_varint bs of None \<Rightarrow> True | Some (v, k) \<Rightarrow> ends_fields (of_nat v)")
      case True
      let ?tag = "tag_of (first_varint bs)"
      have "\<exists>below s'. ReadTagWithCutoff zs 127 s = Some (?tag, below, s') \<and> ends_fields ?tag \<and>
          merged good pending last_block s (np_parse d bs m) (Some (True, s', m))"
        by (rule ReadTagWithCutoff_end [OF st(1), unfolded st(4)]) (use True in simp)
      then obtain below s' where s': "ReadTagWithCutoff zs 127 s = Some (?tag, below, s')" "ends_fields ?tag"
        "merged good pending last_block s (np_parse d bs m) (Some (True, s', m))" by blast
      have "?tag \<notin> {10, 16}"
        using s'(2) by (auto simp: ends_fields_def GetTagWireType_def wire_types kTagTypeMask_def kTagTypeBits_def)
      then show ?thesis
        using s'(2,3) by (simp add: S merge_body_unusual [OF s'(1)] handle_unusual_def ends_fields_def)
    next
      case False
      then obtain v k where v: "first_varint bs = Some (v, k)" and nend: "\<not> ends_fields (of_nat v)" by (auto split: option.splits)
      let ?tag = "of_nat v :: uint32"
      have ne: "bs \<noteq> []" using v by auto
      obtain below s1 where s1: "ReadTagWithCutoff zs 127 s = Some (?tag, below, s1)" "cd_moved good pending last_block k s s1"
        "ConsumedEntireMessage s1 = ConsumedEntireMessage s" "below = (?tag \<le> 127)"
        using ReadTagWithCutoff_law [OF st(1), of 127] nend v unfolding st(4)
        by (auto simp: tag_of_def ne ends_fields_def)
      note loop = loop [OF v nend _ _ st(2-4)]
      consider (name) "?tag = 10" | (ext) "?tag = 16" | (unusual) "?tag \<notin> {10, 16}" by blast
      then show ?thesis
      proof cases
        case unusual
        have "merged good pending last_block s (np_parse d bs m) (handle_unusual (NamePart_merge zs) zs ?tag s1 m)"
          by (rule handle_unusual_law [where s = s, unfolded st(4), OF s1(2,3) v nend unusual st(2,3)]) (rule loop)
        then show ?thesis by (simp add: S merge_body_unusual [OF s1(1) unusual])
      next
        case ext
        then have "merge_body (NamePart_merge zs) zs s m = parse_is_extension (NamePart_merge zs) zs s1 m"
          using s1(1,4) by (simp add: merge_body_def GetTagFieldNumber_def kTagTypeBits_def)
        then show ?thesis using \<open>?tag = 16\<close> second [OF st(2-4) s1(2,3) v] by (simp add: S)
      next
        case name
        have m: "merge_body (NamePart_merge zs) zs s m = (let (str, m) = mutable_name_part m in do {
            (ok, str, s) \<leftarrow> WireFormat_ReadString zs str s1;
            let m = m\<lparr>np_name_part := Some str\<rparr> in
            (if \<not> ok then Some (False, s, m)
             else do {
               (expected, s) \<leftarrow> ExpectTag 16 s;
               (if expected then parse_is_extension (NamePart_merge zs) zs s m else NamePart_merge zs (s, m)) }) })"
          using s1(1,4) name by (simp add: merge_body_def GetTagFieldNumber_def kTagTypeBits_def)
        have "merged good pending last_block s (np_parse d bs m) (merge_body (NamePart_merge zs) zs s m)"
          unfolding m
        proof (rule parse_name_part_law [where s = s, unfolded st(4), OF s1(2,3) v name loop])
          fix f j s2 s3 w i m
          assume f: "parse_field d ?tag (drop k bs) = Some (f, j)" and m2: "cd_moved good pending last_block (k + j) s s2"
            and "cd_moved good pending last_block i s2 s3" "ConsumedEntireMessage s3 = ConsumedEntireMessage s2"
            "first_varint (drop (k + j) bs) = Some (w, i)" "of_nat w = (16 :: uint32)"
          then show "merged good pending last_block s2 (np_parse d (drop (k + j) bs) m) (parse_is_extension (NamePart_merge zs) zs s3 m)"
            using fields.IH(2) [OF v nend f] st depth_left_moved [OF m2] by (auto simp: cd_moved_def)
        qed
        then show ?thesis by (simp only: S)
      qed
    qed
  qed
  show ?case using top second by blast
qed

end

section \<open>The parser and the serializers keep their contracts\<close>

lemma NamePart_message_sel [simp]:
  "ml_Clear (NamePart_message zs zo) = NamePart_Clear" "ml_IsInitialized (NamePart_message zs zo) = NamePart_IsInitialized"
  "ml_MergePartialFromCodedStream (NamePart_message zs zo) = NamePart_MergePartialFromCodedStream zs"
  "ml_ByteSize (NamePart_message zs zo) = NamePart_ByteSize" "ml_GetCachedSize (NamePart_message zs zo) = NamePart_GetCachedSize"
  "ml_SerializeWithCachedSizes (NamePart_message zs zo) = NamePart_SerializeWithCachedSizes zo"
  "ml_SerializeWithCachedSizesToArray (NamePart_message zs zo) m = Some (NamePart_SerializeWithCachedSizesToArray m)"
  by (simp_all add: NamePart_message_def)

context input_contract
begin

lemma NamePart_reader: "message_reader zs good pending last_block (NamePart_message zs zo) np_parse"
  by unfold_locales (use NamePart_merge_laws in \<open>simp add: NamePart_MergePartialFromCodedStream_def\<close>)

end

text \<open>The fields a message is written as.\<close>

definition np_wires :: "name_part \<Rightarrow> wire_field list" where
  "np_wires m = (if has_name_part m then [Wire_bytes 1 (get_name_part m)] else []) @
     (if has_is_extension m then [Wire_varint 2 (if np_is_extension m then 1 else 0)] else []) @ np_unknown_fields m"

definition np_bytes :: "name_part \<Rightarrow> byte list" where
  "np_bytes m = wires_bytes (np_wires m)"

text \<open>The size is up to date and an \<open>int\<close>.\<close>

definition np_cached :: "name_part \<Rightarrow> bool" where
  "np_cached m \<longleftrightarrow> np_cached_size m = int (length (np_bytes m)) \<and> np_cached_size m \<le> INT_MAX"

lemma wires_bytes_append [simp]: "wires_bytes (fs @ gs) = wires_bytes fs @ wires_bytes gs"
  by (induction fs) simp_all

lemma bool_to_array: "WriteBoolToArray n b = wire_bytes (Wire_varint n (if b then 1 else 0))"
  by (simp add: WriteBoolToArray_def WriteBoolNoTagToArray_def WriteVarint32ToArray_eq WriteVarint64ToArrayInline_eq)

lemma string_to_array: "WriteStringToArray n str = wire_bytes (Wire_bytes n str)"
  by (simp add: WriteStringToArray_def)

lemma NamePart_array_law: "NamePart_SerializeWithCachedSizesToArray m = np_bytes m"
  by (simp add: NamePart_SerializeWithCachedSizesToArray_def np_bytes_def np_wires_def bool_to_array string_to_array
      SerializeToArray_eq UnknownFieldSet_empty_def)

lemma one_byte_tags: "length (WireFormat_WriteTagToArray 1 WIRETYPE_LENGTH_DELIMITED) = 1" "length (WireFormat_WriteTagToArray 2 WIRETYPE_VARINT) = 1"
  "length (WriteVarint64ToArrayInline (if b then 1 else 0)) = 1"
  by (simp_all add: WireFormat_WriteTagToArray_def WriteTagToArray_eq WriteVarint64ToArrayInline_eq MakeTag_def wire_types kTagTypeBits_def
      varint_bytes_less)

lemma has_bits: "has_name_part m \<longleftrightarrow> bit (np_has_bits m) 0" "has_is_extension m \<longleftrightarrow> bit (np_has_bits m) 1"
  using and_exp_eq_0_iff_not_bit [of "np_has_bits m" 0] and_exp_eq_0_iff_not_bit [of "np_has_bits m" 1]
  by (simp_all add: has_name_part_def has_is_extension_def)

lemma NamePart_size_law: "NamePart_ByteSize m = (int (length (np_bytes m)), m\<lparr>np_cached_size := int (length (np_bytes m))\<rparr>)"
proof -
  have "np_has_bits m AND 0xFF \<noteq> 0" if "has_name_part m \<or> has_is_extension m"
  proof
    assume "np_has_bits m AND 0xFF = 0"
    then have "\<not> bit (np_has_bits m AND 0xFF) 0" "\<not> bit (np_has_bits m AND 0xFF) 1" by simp_all
    then have "\<not> bit (np_has_bits m) 0" "\<not> bit (np_has_bits m) 1" by (simp_all add: bit_simps)
    then show False using that by (simp add: has_bits)
  qed
  then show ?thesis
    by (auto simp: NamePart_ByteSize_def Let_def np_bytes_def np_wires_def ComputeUnknownFieldsSize_eq UnknownFieldSet_empty_def one_byte_tags
        simp flip: StringSize_eq)
qed

lemma np_bytes_cached [simp]: "np_bytes (m\<lparr>np_cached_size := n\<rparr>) = np_bytes m"
  by (simp add: np_bytes_def np_wires_def has_name_part_def has_is_extension_def get_name_part_def)

interpretation np_in_array: message_reader array_input_stream array_inv array_pending array_last "NamePart_message array_input_stream zo" np_parse
  for zo by (rule array_in.NamePart_reader)

context output_memory
begin

lemma NamePart_writer: "message_writer zo good written stuck (NamePart_message zs zo) np_bytes np_cached"
proof unfold_locales
  fix m
  assume "int (length (np_bytes m)) \<le> INT_MAX"
  then show "\<exists>m'. ml_ByteSize (NamePart_message zs zo) m = (int (length (np_bytes m)), m') \<and> np_bytes m' = np_bytes m \<and> np_cached m'"
    by (simp add: NamePart_size_law np_cached_def)
next
  fix m n data base start s
  assume m: "np_cached m" and takes: "takes good written stuck n" and le: "length (data @ np_bytes m) \<le> n"
    and s: "cw_at zo good written base start data s"
  let ?a = "if has_name_part m then WriteStringToArray 1 (get_name_part m) else []"
    and ?b = "if has_is_extension m then WriteBoolToArray 2 (np_is_extension m) else []"
  have bytes: "np_bytes m = ?a @ ?b @ wires_bytes (np_unknown_fields m)"
    by (simp add: np_bytes_def np_wires_def bool_to_array string_to_array)
  have "int (length (get_name_part m)) \<le> INT_MAX" if "has_name_part m"
    using m that by (auto simp: np_cached_def bytes WriteStringToArray_def WriteStringWithSizeToArray_def)
  then have a: "wrote zo good written base start (data @ ?a)
      (if has_name_part m then WriteStringMaybeAliased 1 (get_name_part m) zo s else Some s)"
    using WriteBytes_takes [OF takes _ _ s, of 1 "get_name_part m" WriteStringMaybeAliased] le s
    by (cases "has_name_part m") (simp_all add: bytes wrote_def)
  have b: "wrote zo good written base start ((data @ ?a) @ ?b) (if has_is_extension m then WriteBool 2 (np_is_extension m) zo s' else Some s')"
    if "cw_at zo good written base start (data @ ?a) s'" for s'
    using write_field_takes [OF takes _ that, of 2 "Bool (np_is_extension m)"] le that
    by (cases "has_is_extension m") (simp_all add: bytes wrote_def)
  have c: "wrote zo good written base start (((data @ ?a) @ ?b) @ wires_bytes (np_unknown_fields m))
      (if \<not> UnknownFieldSet_empty (np_unknown_fields m) then SerializeUnknownFields zo (np_unknown_fields m) s' else Some s')"
    if "cw_at zo good written base start ((data @ ?a) @ ?b) s'" for s'
    using SerializeUnknownFields_takes(2) [OF takes _ that, of "np_unknown_fields m"] le that
    by (auto simp: bytes wrote_def UnknownFieldSet_empty_def)
  have "wrote zo good written base start (((data @ ?a) @ ?b) @ wires_bytes (np_unknown_fields m)) (NamePart_SerializeWithCachedSizes zo m s)"
    unfolding NamePart_SerializeWithCachedSizes_def by (intro wrote_bind [OF a] wrote_bind [OF b] c)
  then show "wrote zo good written base start (data @ np_bytes m) (ml_SerializeWithCachedSizes (NamePart_message zs zo) m s)"
    by (simp add: bytes)
qed (simp_all add: np_cached_def NamePart_GetCachedSize_def NamePart_array_law)

end

interpretation np_to_array: message_writer array_output_stream "array_out_good original" array_written
  "\<lambda>s. ao_position s = ao_size s" "NamePart_message zs array_output_stream" np_bytes np_cached
  for original zs by (rule array_mem.NamePart_writer)

end
