(* ===== verification/NamePartMessages.thy ===== *)
theory NamePartMessages
  imports NamePart
begin

text \<open>
  Whole messages of the class of \<open>NamePart\<close>: parsing and serializing with the functions of \<open>MessageLite\<close>, merging,
  and messages inside of other messages.
\<close>

section \<open>What a parsed message is\<close>

lemma np_parse_whole:
  "(case np_parse d bs m of Some (m1, At_end) \<Rightarrow> Q m1 | _ \<Rightarrow> R) =
     (case parse_message d bs of Some fs \<Rightarrow> Q (fold np_merge_field fs m) | None \<Rightarrow> R)"
proof (cases "parse_message d bs")
  case None
  then show ?thesis
    by (cases "parse_fields d bs") (auto simp: np_parse_def wire_parse_def split: option.splits)
next
  case (Some fs)
  then show ?thesis using parse_message_fields [OF Some] by (simp add: np_parse_def wire_parse_def)
qed

lemma parsed_NamePart:
  "parsed complete (np_parse d bs m) r \<longleftrightarrow> (\<exists>ok m'. r = Some (ok, m') \<and>
     (case parse_message d bs of Some fs \<Rightarrow> m' = fold np_merge_field fs m \<and> ok = complete m' | None \<Rightarrow> \<not> ok))"
  unfolding parsed_def np_parse_whole by (auto split: option.splits)

section \<open>Bytes behind a field\<close>

lemma first_varint_append: "first_varint bs = Some r \<Longrightarrow> first_varint (bs @ cs) = Some r"
  using read_varint_append [of kMaxVarintBytes bs _ cs] by (auto simp: first_varint_def split: option.splits)

lemma fixed_append:
  "ReadLittleEndian32FromArray bs 0 = Some (v, k) \<Longrightarrow> ReadLittleEndian32FromArray (bs @ cs) 0 = Some (v, k)"
  "ReadLittleEndian64FromArray bs 0 = Some (w, k) \<Longrightarrow> ReadLittleEndian64FromArray (bs @ cs) 0 = Some (w, k)"
  using ReadLittleEndian32FromArray_take [of 0 "length bs" "bs @ cs"] ReadLittleEndian64FromArray_take [of 0 "length bs" "bs @ cs"]
    ReadLittleEndianFromArray_defined(3,4) [where p = 0 and m = bs] by force+

lemma parse_simple_append:
  assumes "parse_simple tag bs = Some (f, j)"
  shows "parse_simple tag (bs @ cs) = Some (f, j)"
proof (cases "GetTagWireType tag = WIRETYPE_LENGTH_DELIMITED")
  case True
  then obtain v k where v: "first_varint bs = Some (v, k)" "k + unat (of_nat v :: uint32) \<le> length bs"
    "f = Wire_bytes (GetTagFieldNumber tag) (take (unat (of_nat v :: uint32)) (drop k bs))" "j = k + unat (of_nat v :: uint32)"
    using assms by (auto simp: parse_simple_def wire_types Let_def split: option.splits if_splits)
  have "take n (drop k (bs @ cs)) = take n (drop k bs)" if "k + n \<le> length bs" for n using that by simp
  then show ?thesis using True v first_varint_append [OF v(1)] by (simp add: parse_simple_def wire_types Let_def)
next
  case False
  then show ?thesis
    using assms fixed_append [of bs] first_varint_append [of bs]
    by (auto simp: parse_simple_def Let_def split: if_splits)
qed

lemma parse_field_append_groups:
  assumes "\<And>fs t j. 0 < d \<Longrightarrow> parse_fields (d - 1) bs = Some (fs, t, Some j) \<Longrightarrow> t \<noteq> 0 \<Longrightarrow>
      parse_fields (d - 1) (bs @ cs) = Some (fs, t, Some j)"
    and "parse_field d tag bs = Some (f, j)"
  shows "parse_field d tag (bs @ cs) = Some (f, j)"
proof (cases "GetTagWireType tag = WIRETYPE_START_GROUP")
  case True
  then obtain fs where "0 < d" "parse_fields (d - 1) bs = Some (fs, MakeTag (GetTagFieldNumber tag) WIRETYPE_END_GROUP, Some j)"
    "f = Wire_group (GetTagFieldNumber tag) fs"
    using assms(2) by (auto simp: parse_field_def parse_group_def split: if_splits option.splits)
  then show ?thesis using True assms(1) end_tag_not_0 by (simp add: parse_field_def parse_group_def)
next
  case False
  then show ?thesis using assms(2) parse_simple_append by (simp add: parse_field_def)
qed

lemma parse_fields_append:
  "parse_fields d bs = Some (fs, t, Some j) \<Longrightarrow> t \<noteq> 0 \<Longrightarrow> parse_fields d (bs @ cs) = Some (fs, t, Some j)"
proof (induction d bs arbitrary: fs t j rule: parse_fields_induct)
  case (fields d bs)
  obtain v k where v: "first_varint bs = Some (v, k)"
    using fields.prems by (subst (asm) parse_fields_eq) (auto split: option.splits)
  note vc = first_varint_append [OF v, of cs] and k = first_varint_pos(2) [OF v]
  show ?case
  proof (cases "ends_fields (of_nat v)")
    case True
    then show ?thesis using fields.prems v vc by (simp add: parse_fields_eq [where bs = bs] parse_fields_eq [where bs = "bs @ cs"])
  next
    case False
    then obtain f i gs r where f: "parse_field d (of_nat v) (drop k bs) = Some (f, i)"
      "parse_fields d (drop (k + i) bs) = Some (gs, t, Some r)" "fs = f # gs" "j = k + i + r"
      using fields.prems(1) v by (subst (asm) parse_fields_eq) (auto split: option.splits)
    have "parse_field d (of_nat v) (drop k bs @ cs) = Some (f, i)"
      by (rule parse_field_append_groups [OF fields.IH(1) [OF v False] f(1)])
    moreover have "k + i \<le> length bs" using parse_field_canonical(3) [OF f(1)] k by simp
    moreover have "parse_fields d (drop (k + i) bs @ cs) = Some (gs, t, Some r)"
      by (rule fields.IH(2) [OF v False f(1,2) fields.prems(2)])
    ultimately show ?thesis
      using False vc k f(3,4) by (subst parse_fields_eq) simp
  qed
qed

lemma parse_field_append: "parse_field d tag bs = Some (f, j) \<Longrightarrow> parse_field d tag (bs @ cs) = Some (f, j)"
  by (rule parse_field_append_groups) (rule parse_fields_append)

text \<open>A message behind a message is one message.\<close>

lemma parse_message_append:
  "parse_message d as = Some fs \<Longrightarrow> parse_message d (as @ bs) = map_option ((@) fs) (parse_message d bs)"
proof (induction d as arbitrary: fs rule: parse_message.induct)
  case (1 d as)
  show ?case
  proof (cases "as = []")
    case True
    then show ?thesis using "1.prems" by (simp add: option.map_ident)
  next
    case False
    then obtain v k where v: "first_varint as = Some (v, k)" "\<not> ends_fields (of_nat v)"
      using "1.prems" parse_message_no_step [OF False] by (fastforce split: option.splits)
    then obtain f j gs where f: "parse_field d (of_nat v) (drop k as) = Some (f, j)"
      "parse_message d (drop (k + j) as) = Some gs" "fs = f # gs"
      using "1.prems" by (auto simp: parse_message_step split: option.splits)
    have kj: "k + j \<le> length as" "k \<le> length as"
      using parse_field_canonical(3) [OF f(1)] first_varint_pos(2) [OF v(1)] by simp_all
    have "parse_message d (drop (k + j) as @ bs) = map_option ((@) gs) (parse_message d bs)"
      using "1.IH" [OF False v(1) refl v(2) f(1) refl f(2)] .
    then show ?thesis
      using parse_field_append [OF f(1), of bs] kj f(3)
      by (simp add: parse_message_step [OF first_varint_append [OF v(1)] v(2)] option.map_comp o_def)
  qed
qed

section \<open>Merging\<close>

text \<open>What can be seen of a message: the values of the fields it has, and the unknown fields.\<close>

definition np_view :: "name_part \<Rightarrow> byte list option \<times> bool option \<times> wire_field list" where
  "np_view m = (if has_name_part m then Some (get_name_part m) else None,
     if has_is_extension m then Some (np_is_extension m) else None, np_unknown_fields m)"

text \<open>What a field does to the view, and the fields that are not the class's own.\<close>

fun view_field :: "wire_field \<Rightarrow> byte list option \<times> bool option \<times> wire_field list \<Rightarrow> byte list option \<times> bool option \<times> wire_field list" where
  "view_field (Wire_bytes n str) (s, e, u) = (if n = 1 then (Some str, e, u) else (s, e, u @ [Wire_bytes n str]))"
| "view_field (Wire_varint n v) (s, e, u) = (if n = 2 then (s, Some (v \<noteq> 0), u) else (s, e, u @ [Wire_varint n v]))"
| "view_field f (s, e, u) = (s, e, u @ [f])"

fun np_unknown :: "wire_field \<Rightarrow> bool" where
  "np_unknown (Wire_bytes n str) \<longleftrightarrow> n \<noteq> 1"
| "np_unknown (Wire_varint n v) \<longleftrightarrow> n \<noteq> 2"
| "np_unknown f \<longleftrightarrow> True"

lemma bit_or_1: "bit (w OR 1) 0" "bit (w OR 1) 1 \<longleftrightarrow> bit w 1" "bit (w OR 2) 1" "bit (w OR 2) 0 \<longleftrightarrow> bit w 0" for w :: uint32
  using bit_2_iff [where ?'a = "32 word"] by (auto simp: bit_simps)

lemma set_view [simp]:
  "np_view (set_name_part v m) = (case np_view m of (s, e, u) \<Rightarrow> (Some v, e, u))"
  "np_view (set_is_extension b m) = (case np_view m of (s, e, u) \<Rightarrow> (s, Some b, u))"
  "np_view (m\<lparr>np_unknown_fields := w\<rparr>) = (case np_view m of (s, e, u) \<Rightarrow> (s, e, w))"
  "np_view (m\<lparr>np_cached_size := n\<rparr>) = np_view m"
  by (simp_all add: np_view_def set_name_part_def set_is_extension_def set_has_name_part_def set_has_is_extension_def
      has_bits get_name_part_def bit_or_1 bit_or_1 [unfolded One_nat_def])

lemma merge_field_view: "np_view (np_merge_field f m) = view_field f (np_view m)"
  by (cases f) (auto simp: split_beta prod_eq_iff, auto simp: np_view_def)

lemma merge_fields_view: "np_view (fold np_merge_field fs m) = fold view_field fs (np_view m)"
  by (induction fs arbitrary: m) (simp_all add: merge_field_view)

lemma Clear_view [simp]: "np_view (NamePart_Clear m) = (None, None, [])"
  by (simp add: NamePart_Clear_def np_view_def has_name_part_def has_is_extension_def Let_def UnknownFieldSet_Clear_def)

text \<open>Merging takes the fields that are set from the other message and appends its unknown fields.\<close>

lemma any_has_bit: "has_name_part m \<or> has_is_extension m \<Longrightarrow> np_has_bits m AND push_bit (0 mod 32) 0xFF \<noteq> 0"
proof
  assume h: "has_name_part m \<or> has_is_extension m" and "np_has_bits m AND push_bit (0 mod 32) 0xFF = 0"
  then have "\<not> bit (np_has_bits m AND 0xFF) 0" "\<not> bit (np_has_bits m AND 0xFF) 1" by simp_all
  then have "\<not> bit (np_has_bits m) 0" "\<not> bit (np_has_bits m) 1" by (simp_all add: bit_simps)
  then show False using h by (simp add: has_bits)
qed

lemma MergeFrom_view: "np_view (NamePart_MergeFrom from m) = (case np_view from of (s, e, u) \<Rightarrow> case np_view m of (s', e', u') \<Rightarrow>
   (if s = None then s' else s, if e = None then e' else e, u' @ u))"
proof -
  have f: "np_unknown_fields (set_name_part v m) = np_unknown_fields m" "np_unknown_fields (set_is_extension b m) = np_unknown_fields m" for v b m
    by (simp_all add: set_name_part_def set_is_extension_def set_has_name_part_def set_has_is_extension_def)
  show ?thesis
    using any_has_bit [of "from"]
    by (cases "has_name_part from"; cases "has_is_extension from")
      (auto simp: NamePart_MergeFrom_def Let_def MergeFrom_append f split_beta, auto simp: np_view_def)
qed

lemma view_fields_append:
  "fold view_field fs (s, e, u) = (case fold view_field fs (None, None, []) of (s', e', u') \<Rightarrow>
     (if s' = None then s else s', if e' = None then e else e', u @ u'))"
proof (induction fs rule: rev_induct)
  case (snoc f fs)
  obtain s' e' u' where r: "fold view_field fs (None, None, []) = (s', e', u')" by (metis prod_cases3)
  have "fold view_field fs (s, e, u) = (if s' = None then s else s', if e' = None then e else e', u @ u')"
    using snoc r by simp
  then show ?case using r by (cases f) simp_all
qed simp

lemma unknown_fields_view: "list_all np_unknown fs \<Longrightarrow> fold view_field fs (s, e, u) = (s, e, u @ fs)"
proof (induction fs arbitrary: u)
  case (Cons f fs)
  then show ?case by (cases f) auto
qed simp

lemma np_wires_view:
  assumes "list_all np_unknown (np_unknown_fields m)"
  shows "fold view_field (np_wires m) (None, None, []) = np_view m"
  using unknown_fields_view [OF assms] by (simp add: np_wires_def np_view_def)

section \<open>Correctness of the class\<close>



lemma IsInitialized_view: "NamePart_IsInitialized m \<longleftrightarrow> fst (np_view m) \<noteq> None \<and> fst (snd (np_view m)) \<noteq> None"
proof -
  have "np_has_bits m AND 3 = 3 \<longleftrightarrow> bit (np_has_bits m) 0 \<and> bit (np_has_bits m) 1"
  proof
    assume "np_has_bits m AND 3 = 3"
    then have "bit (np_has_bits m AND 3) n = bit (3 :: uint32) n" for n by simp
    from this [of 0] this [of 1] show "bit (np_has_bits m) 0 \<and> bit (np_has_bits m) 1" by (auto simp: bit_simps)
  next
    assume b: "bit (np_has_bits m) 0 \<and> bit (np_has_bits m) 1"
    have "(3 :: uint32) div 2 = 1" by simp
    then have three: "bit (3 :: uint32) n \<longleftrightarrow> n = 0 \<or> n = 1" for n
      by (cases n) (simp_all only: bit_0 bit_Suc bit_1_iff, simp_all)
    show "np_has_bits m AND 3 = 3"
    proof (rule bit_word_eqI)
      fix n
      show "bit (np_has_bits m AND 3) n = bit (3 :: uint32) n" unfolding bit_and_iff three using b by blast
    qed
  qed
  then show ?thesis by (simp add: NamePart_IsInitialized_def np_view_def has_bits)
qed

text \<open>Parsing a whole string.\<close>

lemma NamePart_ParseFromString:
  assumes "int (length data) \<le> kDefaultTotalBytesLimit"
  defines "fs \<equiv> parse_message (nat default_recursion_limit) data"
  shows "\<exists>ok m'. ParseFromString (NamePart_message array_input_stream zo) data m = Some (ok, m') \<and>
      (case fs of Some fs \<Rightarrow> m' = fold np_merge_field fs (NamePart_Clear m) \<and> ok = NamePart_IsInitialized m' | None \<Rightarrow> \<not> ok)"
    and "\<exists>ok m'. ParsePartialFromString (NamePart_message array_input_stream zo) data m = Some (ok, m') \<and>
      (case fs of Some fs \<Rightarrow> m' = fold np_merge_field fs (NamePart_Clear m) \<and> ok | None \<Rightarrow> \<not> ok)"
proof -
  note r = np_in_array.ParseFromString_law [OF assms(1), of zo m]
  show "\<exists>ok m'. ParseFromString (NamePart_message array_input_stream zo) data m = Some (ok, m') \<and>
      (case fs of Some fs \<Rightarrow> m' = fold np_merge_field fs (NamePart_Clear m) \<and> ok = NamePart_IsInitialized m' | None \<Rightarrow> \<not> ok)"
    using r(1) [unfolded parsed_NamePart NamePart_message_sel simp_thms] unfolding fs_def .
  show "\<exists>ok m'. ParsePartialFromString (NamePart_message array_input_stream zo) data m = Some (ok, m') \<and>
      (case fs of Some fs \<Rightarrow> m' = fold np_merge_field fs (NamePart_Clear m) \<and> ok | None \<Rightarrow> \<not> ok)"
    using r(2) [unfolded parsed_NamePart NamePart_message_sel simp_thms] unfolding fs_def .
qed


text \<open>
  C17. A message that is written and parsed again is the same: the fields it has and their values, and the unknown
  fields in their order, unless one of those was added under the number and type of a field of the class. \<open>ByteSize\<close> has
  announced the number of bytes, and the parser asks for both required fields.
\<close>

theorem NamePart_roundtrip:
  assumes "list_all np_unknown (np_unknown_fields m)" and "wires_ok (nat default_recursion_limit) (np_wires m)"
    and "fst (NamePart_ByteSize m) \<le> kDefaultTotalBytesLimit"
  shows "\<exists>m1 data m2. SerializeToString (NamePart_message array_input_stream array_output_stream) m out = Some (True, m1, data) \<and>
    int (length data) = fst (NamePart_ByteSize m) \<and>
    ParseFromString (NamePart_message array_input_stream array_output_stream) data old = Some (NamePart_IsInitialized m, m2) \<and>
    np_view m2 = np_view m"
proof -
  let ?M = "NamePart_message array_input_stream array_output_stream"
  have len: "int (length (np_bytes m)) \<le> kDefaultTotalBytesLimit" using assms(3) by (simp add: NamePart_size_law)
  then have "int (length (np_bytes m)) \<le> INT_MAX" by (simp add: kDefaultTotalBytesLimit_def INT_MAX_def)
  then obtain m1 where m1: "SerializeToString ?M m out = Some (True, m1, np_bytes m)"
    using np_to_array.SerializeToString_law [of m array_input_stream "[]"] by (auto simp: SerializeToString_def AppendToString_def)
  have "parse_message (nat default_recursion_limit) (np_bytes m) = Some (np_wires m)"
    unfolding np_bytes_def by (rule parse_message_of_wires [OF assms(2)])
  then obtain m2 where m2: "ParseFromString ?M (np_bytes m) old = Some (NamePart_IsInitialized m2, m2)"
    "m2 = fold np_merge_field (np_wires m) (NamePart_Clear old)"
    using NamePart_ParseFromString(1) [OF len] by auto
  have v: "np_view m2 = np_view m" using m2(2) by (simp add: merge_fields_view np_wires_view [OF assms(1)])
  have "NamePart_IsInitialized m2 = NamePart_IsInitialized m"
    using v unfolding IsInitialized_view by simp
  then show ?thesis using m1 m2(1) v by (simp add: NamePart_size_law)
qed

lemma NamePart_new_view: "np_view NamePart_new = (None, None, [])"
  by (simp add: np_view_def NamePart_new_def has_name_part_def has_is_extension_def UnknownFieldSet_new_def)

theorem NamePart_roundtrip_witness:
  "\<exists>m1 data m2. SerializeToString (NamePart_message array_input_stream array_output_stream)
      (set_is_extension True (set_name_part [7] NamePart_new)) [] = Some (True, m1, data) \<and> int (length data) = 5 \<and>
    ParseFromString (NamePart_message array_input_stream array_output_stream) data NamePart_new = Some (True, m2) \<and>
    np_view m2 = (Some [7], Some True, [])"
proof -
  let ?m = "set_is_extension True (set_name_part [7] NamePart_new)"
  have v: "np_view ?m = (Some [7], Some True, [])"
    using NamePart_new_view by simp
  then have w: "np_wires ?m = [Wire_bytes 1 [7], Wire_varint 2 1]" and u: "np_unknown_fields ?m = []"
    by (auto simp: np_wires_def np_view_def split: if_splits)
  have b: "fst (NamePart_ByteSize ?m) = 5"
    by (simp add: NamePart_size_law np_bytes_def w one_byte_tags one_byte_tags(3) [of True, simplified] WriteStringWithSizeToArray_def
        WriteVarint32ToArray_eq varint_bytes_less)
  have "NamePart_IsInitialized ?m" unfolding IsInitialized_view v by simp
  then show ?thesis
    using NamePart_roundtrip [of ?m "[]" NamePart_new] unfolding b v w u
    by (simp add: number_valid_def default_recursion_limit_def kDefaultTotalBytesLimit_def)
qed

text \<open>
  C18. Parsing the bytes of one message behind those of another gives what merging the second into the first gives:
  the code that the compiler generated for \<open>MergeFrom\<close> and for the parser agree.
\<close>

theorem parsing_concatenation_merges:
  assumes "int (length (as @ bs)) \<le> kDefaultTotalBytesLimit"
    and "ParsePartialFromString (NamePart_message array_input_stream array_output_stream) as m = Some (True, ma)"
    and "ParsePartialFromString (NamePart_message array_input_stream array_output_stream) bs m = Some (True, mb)"
  shows "\<exists>mc. ParsePartialFromString (NamePart_message array_input_stream array_output_stream) (as @ bs) m = Some (True, mc) \<and>
    np_view mc = np_view (NamePart_MergeFrom mb ma)"
proof -
  let ?M = "NamePart_message array_input_stream array_output_stream" and ?p = "parse_message (nat default_recursion_limit)"
  have le: "int (length as) \<le> kDefaultTotalBytesLimit" "int (length bs) \<le> kDefaultTotalBytesLimit" using assms(1) by simp_all
  obtain fs where fs: "?p as = Some fs" "ma = fold np_merge_field fs (NamePart_Clear m)"
    using NamePart_ParseFromString(2) [OF le(1), of array_output_stream m] assms(2) by (auto split: option.splits)
  obtain gs where gs: "?p bs = Some gs" "mb = fold np_merge_field gs (NamePart_Clear m)"
    using NamePart_ParseFromString(2) [OF le(2), of array_output_stream m] assms(3) by (auto split: option.splits)
  have "?p (as @ bs) = Some (fs @ gs)" using parse_message_append [OF fs(1), of bs] gs(1) by simp
  then obtain mc where mc: "ParsePartialFromString ?M (as @ bs) m = Some (True, mc)"
    "mc = fold np_merge_field (fs @ gs) (NamePart_Clear m)"
    using NamePart_ParseFromString(2) [OF assms(1), of array_output_stream m] by auto
  obtain s e u where a: "np_view ma = (s, e, u)" by (cases "np_view ma")
  have "np_view mc = fold view_field gs (np_view ma)"
    using mc(2) fs(2) by (simp add: merge_fields_view)
  also have "\<dots> = np_view (NamePart_MergeFrom mb ma)"
    using gs(2) unfolding MergeFrom_view a view_fields_append [of gs s] by (simp add: merge_fields_view)
  finally show ?thesis using mc(1) by blast
qed

theorem parsing_concatenation_merges_witness:
  "\<exists>ma mb mc. ParsePartialFromString (NamePart_message array_input_stream array_output_stream) [10, 1, 7] NamePart_new = Some (True, ma) \<and>
     ParsePartialFromString (NamePart_message array_input_stream array_output_stream) [10, 1, 8, 16, 1] NamePart_new = Some (True, mb) \<and>
     ParsePartialFromString (NamePart_message array_input_stream array_output_stream) ([10, 1, 7] @ [10, 1, 8, 16, 1]) NamePart_new =
       Some (True, mc) \<and> np_view mc = (Some [8], Some True, [])"
proof -
  let ?M = "NamePart_message array_input_stream array_output_stream"
  have b: "wires_bytes [Wire_bytes 1 [7]] = [10, 1, 7]" "wires_bytes [Wire_bytes 1 [8], Wire_varint 2 1] = [10, 1, 8, 16, 1]"
    by (simp_all add: WireFormat_WriteTagToArray_def WriteTagToArray_eq MakeTag_def wire_types kTagTypeBits_def varint_bytes_less
        WriteStringWithSizeToArray_def WriteVarint32ToArray_eq WriteVarint64ToArrayInline_eq)
  have p: "parse_message (nat default_recursion_limit) [10, 1, 7] = Some [Wire_bytes 1 [7]]"
    "parse_message (nat default_recursion_limit) [10, 1, 8, 16, 1] = Some [Wire_bytes 1 [8], Wire_varint 2 1]"
    using parse_message_of_wires [where d = "nat default_recursion_limit" and fs = "[Wire_bytes 1 [7]]"]
      parse_message_of_wires [where d = "nat default_recursion_limit" and fs = "[Wire_bytes 1 [8], Wire_varint 2 1]"]
    unfolding b by (simp_all add: number_valid_def)
  obtain ma where a: "ParsePartialFromString ?M [10, 1, 7] NamePart_new = Some (True, ma)"
    "ma = fold np_merge_field [Wire_bytes 1 [7]] (NamePart_Clear NamePart_new)"
    using NamePart_ParseFromString(2) [of "[10, 1, 7]" array_output_stream NamePart_new] p(1) by (auto simp: kDefaultTotalBytesLimit_def)
  obtain mb where mb: "ParsePartialFromString ?M [10, 1, 8, 16, 1] NamePart_new = Some (True, mb)"
    "mb = fold np_merge_field [Wire_bytes 1 [8], Wire_varint 2 1] (NamePart_Clear NamePart_new)"
    using NamePart_ParseFromString(2) [of "[10, 1, 8, 16, 1]" array_output_stream NamePart_new] p(2) by (auto simp: kDefaultTotalBytesLimit_def)
  have "np_view (NamePart_MergeFrom mb ma) = (Some [8], Some True, [])"
    unfolding MergeFrom_view using a(2) mb(2) by (simp add: merge_fields_view)
  then show ?thesis
    using parsing_concatenation_merges [OF _ a(1) mb(1)] a(1) mb(1) by (auto simp: kDefaultTotalBytesLimit_def)
qed

section \<open>Messages that are cut off\<close>



text \<open>
  Where the limit on the total number of bytes cuts off a message inside of a block, \<open>ReadTag\<close> reports that the
  message was not read to its end; \<open>ExpectAtEnd\<close>, which generated parsers call behind their last field, reports that it was.
\<close>

theorem ExpectAtEnd_hides_total_limit:
  assumes "cd_size s = 0" and "0 < cd_buffer_size_after_limit s" and "cd_total_bytes_limit s \<le> CurrentPosition s"
    and "cd_current_limit s \<noteq> cd_total_bytes_limit s"
  shows "(case ReadTag zs s of Some (t, s1) \<Rightarrow> t = 0 \<and> \<not> ConsumedEntireMessage s1 | None \<Rightarrow> False) \<and>
    (case ExpectAtEnd s of (at_end, s2) \<Rightarrow> at_end \<and> ConsumedEntireMessage s2)"
proof -
  have p: "CurrentPosition s = cd_total_bytes_read s - cd_buffer_size_after_limit s" using assms(1) by (simp add: CurrentPosition_def)
  have "Refresh zs s = Some (False, s)" using assms(2) by (simp add: Refresh_def)
  then have "ReadTagSlow zs s = Some (0, s\<lparr>cd_legitimate_message_end := False\<rparr>)"
    using assms p by (simp add: ReadTagSlow_def Let_def)
  moreover have "varint_fits s = Some False" using assms(1) by (simp add: varint_fits_def kMaxVarintBytes_def)
  ultimately have "ReadTagFallback zs s = Some (0, s\<lparr>cd_legitimate_message_end := False\<rparr>)"
    using assms p by (simp add: ReadTagFallback_def)
  then show ?thesis
    using assms by (simp add: ReadTag_def ExpectAtEnd_def ConsumedEntireMessage_def)
qed

theorem ExpectAtEnd_hides_total_limit_witness:
  "(case ReadTag array_input_stream (SetTotalBytesLimit 0 (- 1) (CodedInputStream_flat [16, 1] 2)) of
      Some (t, s1) \<Rightarrow> t = 0 \<and> \<not> ConsumedEntireMessage s1 | None \<Rightarrow> False) \<and>
   (case ExpectAtEnd (SetTotalBytesLimit 0 (- 1) (CodedInputStream_flat [16, 1] 2 :: array_input coded_input)) of
      (at_end, s2) \<Rightarrow> at_end \<and> ConsumedEntireMessage s2)"
  by (rule ExpectAtEnd_hides_total_limit)
    (simp_all add: SetTotalBytesLimit_def CodedInputStream_flat_def RecomputeBufferLimits_def closest_limit_def CurrentPosition_def
      kDefaultTotalBytesLimit_def Let_def)

end
