(* ===== verification/RepeatedPtr.thy ===== *)
theory RepeatedPtr
  imports RepeatedField NamePartMessages
begin

text \<open>
  Repeated fields of strings and messages (repeated_field.h, repeated_field.cc): an array of pointers to objects that the field
  owns. Objects that leave the list are cleared and kept behind it for later use. The heap is the list of all objects that have
  been allocated, \<open>None\<close> when deleted; to use a deleted object, or to delete it again, is \<open>None\<close> as a result. What the class needs
  of the type of its elements is the \<open>TypeHandler\<close>, a parameter.
\<close>

section \<open>Objects\<close>

type_synonym 'e objects = "'e option list"

definition new_object :: "'e \<Rightarrow> 'e objects \<Rightarrow> nat \<times> 'e objects" where
  "new_object v h = (length h, h @ [Some v])"

definition load_object :: "nat \<Rightarrow> 'e objects \<Rightarrow> 'e option" where
  "load_object p h = do { c \<leftarrow> mem_get p h; c }"

definition update_object :: "('e \<Rightarrow> 'e) \<Rightarrow> nat \<Rightarrow> 'e objects \<Rightarrow> 'e objects option" where
  "update_object g p h = do { v \<leftarrow> load_object p h; Some (h[p := Some (g v)]) }"

definition delete_object :: "nat \<Rightarrow> 'e objects \<Rightarrow> 'e objects option" where
  "delete_object p h = do { v \<leftarrow> load_object p h; Some (h[p := None]) }"

record 'e type_handler =
  th_New :: 'e
  th_Clear :: "'e \<Rightarrow> 'e"
  th_Merge :: "'e \<Rightarrow> 'e \<Rightarrow> 'e"

definition StringTypeHandler :: "byte list type_handler" where
  "StringTypeHandler = \<lparr>th_New = [], th_Clear = (\<lambda>_. []), th_Merge = (\<lambda>from to. from)\<rparr>"

text \<open>\<open>GenericTypeHandler\<close> for the one generated message class.\<close>

definition NamePart_TypeHandler :: "name_part type_handler" where
  "NamePart_TypeHandler = \<lparr>th_New = NamePart_new, th_Clear = NamePart_Clear, th_Merge = NamePart_MergeFrom\<rparr>"

section \<open>The class\<close>

record ptr_field =
  pf_elements :: "nat option list option"
  pf_current_size :: int
  pf_allocated_size :: int
  pf_total_size :: int

definition PtrField_new :: ptr_field where
  "PtrField_new = \<lparr>pf_elements = None, pf_current_size = 0, pf_allocated_size = 0, pf_total_size = 0\<rparr>"

fun delete_cells :: "nat \<Rightarrow> int \<Rightarrow> nat option list option \<Rightarrow> 'e objects \<Rightarrow> 'e objects option" where
  "delete_cells 0 i elements h = Some h"
| "delete_cells (Suc k) i elements h = do {
     p \<leftarrow> load_cell elements i;
     h \<leftarrow> delete_object p h;
     delete_cells k (i + 1) elements h }"

definition PtrField_Destroy :: "ptr_field \<Rightarrow> 'e objects \<Rightarrow> 'e objects option" where
  "PtrField_Destroy f h = delete_cells (nat (pf_allocated_size f)) 0 (pf_elements f) h"

definition pf_empty :: "ptr_field \<Rightarrow> bool" where "pf_empty f \<longleftrightarrow> pf_current_size f = 0"

definition pf_size :: "ptr_field \<Rightarrow> int" where "pf_size f = pf_current_size f"

definition pf_Capacity :: "ptr_field \<Rightarrow> int" where "pf_Capacity f = pf_total_size f"

definition ClearedCount :: "ptr_field \<Rightarrow> int" where "ClearedCount f = pf_allocated_size f - pf_current_size f"

definition PtrField_Mutable :: "int \<Rightarrow> ptr_field \<Rightarrow> nat option" where
  "PtrField_Mutable index f = load_cell (pf_elements f) index"

definition PtrField_Get :: "int \<Rightarrow> 'e objects \<Rightarrow> ptr_field \<Rightarrow> 'e option" where
  "PtrField_Get index h f = do { p \<leftarrow> load_cell (pf_elements f) index; load_object p h }"

definition PtrField_Reserve :: "int \<Rightarrow> ptr_field \<Rightarrow> ptr_field option" where
  "PtrField_Reserve new_size f =
     (if pf_total_size f \<ge> new_size then Some f
      else if pf_total_size f * 2 > INT_MAX then None
      else
        let old_elements = pf_elements f;
          total_size = max kMinRepeatedFieldAllocationSize (max (pf_total_size f * 2) new_size);
          elements = replicate (nat total_size) None in do {
        elements \<leftarrow> (case old_elements of
          None \<Rightarrow> Some elements
        | Some old_elements \<Rightarrow> CopyArray elements 0 old_elements (pf_allocated_size f));
        Some (f\<lparr>pf_elements := Some elements, pf_total_size := total_size\<rparr>) })"

definition PtrField_Add :: "'e type_handler \<Rightarrow> 'e objects \<Rightarrow> ptr_field \<Rightarrow> (nat \<times> 'e objects \<times> ptr_field) option" where
  "PtrField_Add th h f =
     (if pf_current_size f < pf_allocated_size f then do {
        p \<leftarrow> load_cell (pf_elements f) (pf_current_size f);
        Some (p, h, f\<lparr>pf_current_size := pf_current_size f + 1\<rparr>) }
      else do {
        f \<leftarrow> (if pf_allocated_size f = pf_total_size f then PtrField_Reserve (pf_total_size f + 1) f else Some f);
        let (result, h) = new_object (th_New th) h in do {
        elements \<leftarrow> store_cell (pf_elements f) (pf_current_size f) result;
        Some (result, h, f\<lparr>pf_elements := Some elements, pf_current_size := pf_current_size f + 1,
          pf_allocated_size := pf_allocated_size f + 1\<rparr>) } })"

definition PtrField_RemoveLast :: "'e type_handler \<Rightarrow> 'e objects \<Rightarrow> ptr_field \<Rightarrow> ('e objects \<times> ptr_field) option" where
  "PtrField_RemoveLast th h f = do {
     p \<leftarrow> load_cell (pf_elements f) (pf_current_size f - 1);
     h \<leftarrow> update_object (th_Clear th) p h;
     Some (h, f\<lparr>pf_current_size := pf_current_size f - 1\<rparr>) }"

fun clear_cells :: "'e type_handler \<Rightarrow> nat \<Rightarrow> int \<Rightarrow> nat option list option \<Rightarrow> 'e objects \<Rightarrow> 'e objects option" where
  "clear_cells th 0 i elements h = Some h"
| "clear_cells th (Suc k) i elements h = do {
     p \<leftarrow> load_cell elements i;
     h \<leftarrow> update_object (th_Clear th) p h;
     clear_cells th k (i + 1) elements h }"

definition PtrField_Clear :: "'e type_handler \<Rightarrow> 'e objects \<Rightarrow> ptr_field \<Rightarrow> ('e objects \<times> ptr_field) option" where
  "PtrField_Clear th h f = do {
     h \<leftarrow> clear_cells th (nat (pf_current_size f)) 0 (pf_elements f) h;
     Some (h, f\<lparr>pf_current_size := 0\<rparr>) }"

fun merge_cells :: "'e type_handler \<Rightarrow> nat \<Rightarrow> int \<Rightarrow> ptr_field \<Rightarrow> 'e objects \<Rightarrow> ptr_field \<Rightarrow> ('e objects \<times> ptr_field) option" where
  "merge_cells th 0 i other h f = Some (h, f)"
| "merge_cells th (Suc k) i other h f = do {
     v \<leftarrow> PtrField_Get i h other;
     (p, h, f) \<leftarrow> PtrField_Add th h f;
     h \<leftarrow> update_object (th_Merge th v) p h;
     merge_cells th k (i + 1) other h f }"

text \<open>The two fields are different objects.\<close>

definition PtrField_MergeFrom :: "'e type_handler \<Rightarrow> ptr_field \<Rightarrow> 'e objects \<Rightarrow> ptr_field \<Rightarrow> ('e objects \<times> ptr_field) option" where
  "PtrField_MergeFrom th other h f = do {
     f \<leftarrow> PtrField_Reserve (pf_current_size f + pf_current_size other) f;
     merge_cells th (nat (pf_current_size other)) 0 other h f }"

definition PtrField_CopyFrom :: "'e type_handler \<Rightarrow> ptr_field \<Rightarrow> 'e objects \<Rightarrow> ptr_field \<Rightarrow> ('e objects \<times> ptr_field) option" where
  "PtrField_CopyFrom th other h f = do {
     (h, f) \<leftarrow> PtrField_Clear th h f;
     PtrField_MergeFrom th other h f }"

fun move_cells :: "nat \<Rightarrow> int \<Rightarrow> int \<Rightarrow> nat option list option \<Rightarrow> nat option list option option" where
  "move_cells 0 i num elements = Some elements"
| "move_cells (Suc k) i num elements = do {
     p \<leftarrow> load_cell elements i;
     elements \<leftarrow> store_cell elements (i - num) p;
     move_cells k (i + 1) num (Some elements) }"

definition CloseGap :: "int \<Rightarrow> int \<Rightarrow> ptr_field \<Rightarrow> ptr_field option" where
  "CloseGap start num f = do {
     elements \<leftarrow> move_cells (nat (pf_allocated_size f - (start + num))) (start + num) num (pf_elements f);
     Some (f\<lparr>pf_elements := elements, pf_current_size := pf_current_size f - num, pf_allocated_size := pf_allocated_size f - num\<rparr>) }"

fun load_cells :: "nat \<Rightarrow> int \<Rightarrow> nat option list option \<Rightarrow> nat list option" where
  "load_cells 0 i elements = Some []"
| "load_cells (Suc k) i elements = do { p \<leftarrow> load_cell elements i; ps \<leftarrow> load_cells k (i + 1) elements; Some (p # ps) }"

definition PtrField_ExtractSubrange :: "int \<Rightarrow> int \<Rightarrow> bool \<Rightarrow> ptr_field \<Rightarrow> (nat list \<times> ptr_field) option" where
  "PtrField_ExtractSubrange start num wanted f =
     (if num > 0 then do {
        ps \<leftarrow> (if wanted then load_cells (nat num) start (pf_elements f) else Some []);
        f \<leftarrow> CloseGap start num f;
        Some (ps, f) }
      else Some ([], f))"

definition PtrField_DeleteSubrange :: "int \<Rightarrow> int \<Rightarrow> 'e objects \<Rightarrow> ptr_field \<Rightarrow> ('e objects \<times> ptr_field) option" where
  "PtrField_DeleteSubrange start num h f = do {
     h \<leftarrow> delete_cells (nat num) start (pf_elements f) h;
     (_, f) \<leftarrow> PtrField_ExtractSubrange start num False f;
     Some (h, f) }"

definition PtrField_Swap :: "ptr_field \<Rightarrow> ptr_field \<Rightarrow> ptr_field \<times> ptr_field" where
  "PtrField_Swap f other =
     (f\<lparr>pf_elements := pf_elements other, pf_current_size := pf_current_size other,
        pf_allocated_size := pf_allocated_size other, pf_total_size := pf_total_size other\<rparr>,
      other\<lparr>pf_elements := pf_elements f, pf_current_size := pf_current_size f,
        pf_allocated_size := pf_allocated_size f, pf_total_size := pf_total_size f\<rparr>)"

definition PtrField_SwapElements :: "int \<Rightarrow> int \<Rightarrow> ptr_field \<Rightarrow> ptr_field option" where
  "PtrField_SwapElements index1 index2 f = do {
     p \<leftarrow> load_cell (pf_elements f) index1;
     q \<leftarrow> load_cell (pf_elements f) index2;
     elements \<leftarrow> store_cell (pf_elements f) index1 q;
     elements \<leftarrow> store_cell (Some elements) index2 p;
     Some (f\<lparr>pf_elements := Some elements\<rparr>) }"

subsection \<open>Ownership\<close>

definition AddFromCleared :: "ptr_field \<Rightarrow> (nat option \<times> ptr_field) option" where
  "AddFromCleared f =
     (if pf_current_size f < pf_allocated_size f then do {
        p \<leftarrow> load_cell (pf_elements f) (pf_current_size f);
        Some (Some p, f\<lparr>pf_current_size := pf_current_size f + 1\<rparr>) }
      else Some (None, f))"

definition AddAllocated :: "nat \<Rightarrow> 'e objects \<Rightarrow> ptr_field \<Rightarrow> ('e objects \<times> ptr_field) option" where
  "AddAllocated v h f = do {
     (h, f) \<leftarrow>
       (if pf_current_size f = pf_total_size f then do {
          f \<leftarrow> PtrField_Reserve (pf_total_size f + 1) f;
          Some (h, f\<lparr>pf_allocated_size := pf_allocated_size f + 1\<rparr>) }
        else if pf_allocated_size f = pf_total_size f then do {
          p \<leftarrow> load_cell (pf_elements f) (pf_current_size f);
          h \<leftarrow> delete_object p h;
          Some (h, f) }
        else if pf_current_size f < pf_allocated_size f then do {
          p \<leftarrow> load_cell (pf_elements f) (pf_current_size f);
          elements \<leftarrow> store_cell (pf_elements f) (pf_allocated_size f) p;
          Some (h, f\<lparr>pf_elements := Some elements, pf_allocated_size := pf_allocated_size f + 1\<rparr>) }
        else Some (h, f\<lparr>pf_allocated_size := pf_allocated_size f + 1\<rparr>));
     elements \<leftarrow> store_cell (pf_elements f) (pf_current_size f) v;
     Some (h, f\<lparr>pf_elements := Some elements, pf_current_size := pf_current_size f + 1\<rparr>) }"

definition ReleaseLast :: "ptr_field \<Rightarrow> (nat \<times> ptr_field) option" where
  "ReleaseLast f = do {
     let f = f\<lparr>pf_current_size := pf_current_size f - 1\<rparr>;
     result \<leftarrow> load_cell (pf_elements f) (pf_current_size f);
     let f = f\<lparr>pf_allocated_size := pf_allocated_size f - 1\<rparr>;
     (if pf_current_size f < pf_allocated_size f then do {
        p \<leftarrow> load_cell (pf_elements f) (pf_allocated_size f);
        elements \<leftarrow> store_cell (pf_elements f) (pf_current_size f) p;
        Some (result, f\<lparr>pf_elements := Some elements\<rparr>) }
      else Some (result, f)) }"

definition AddCleared :: "nat \<Rightarrow> ptr_field \<Rightarrow> ptr_field option" where
  "AddCleared v f = do {
     f \<leftarrow> (if pf_allocated_size f = pf_total_size f then PtrField_Reserve (pf_total_size f + 1) f else Some f);
     elements \<leftarrow> store_cell (pf_elements f) (pf_allocated_size f) v;
     Some (f\<lparr>pf_elements := Some elements, pf_allocated_size := pf_allocated_size f + 1\<rparr>) }"

definition ReleaseCleared :: "ptr_field \<Rightarrow> (nat \<times> ptr_field) option" where
  "ReleaseCleared f = do {
     let f = f\<lparr>pf_allocated_size := pf_allocated_size f - 1\<rparr>;
     p \<leftarrow> load_cell (pf_elements f) (pf_allocated_size f);
     Some (p, f) }"

section \<open>Lists of pointers\<close>

text \<open>The array is that of a \<open>RepeatedField\<close> of pointers whose size is the number of all objects.\<close>

definition as_field :: "ptr_field \<Rightarrow> nat repeated_field" where
  "as_field f = \<lparr>rf_elements = pf_elements f, rf_current_size = pf_allocated_size f, rf_total_size = pf_total_size f\<rparr>"

definition with_field :: "nat repeated_field \<Rightarrow> int \<Rightarrow> ptr_field \<Rightarrow> ptr_field" where
  "with_field g n f = f\<lparr>pf_elements := rf_elements g, pf_current_size := n, pf_allocated_size := rf_current_size g, pf_total_size := rf_total_size g\<rparr>"

lemma as_field_sels [simp]:
  "rf_elements (as_field f) = pf_elements f" "rf_current_size (as_field f) = pf_allocated_size f"
  "rf_total_size (as_field f) = pf_total_size f" "as_field (with_field g n f) = g" "pf_current_size (with_field g n f) = n"
  "as_field (f\<lparr>pf_current_size := n\<rparr>) = as_field f"
  by (simp_all add: as_field_def with_field_def)

text \<open>The objects in the list and the cleared ones behind it.\<close>

definition pf_cells :: "nat list \<Rightarrow> nat list \<Rightarrow> ptr_field \<Rightarrow> bool" where
  "pf_cells ps qs f \<longleftrightarrow> rf_at (ps @ qs) (as_field f) \<and> pf_current_size f = int (length ps)"

lemma pf_cells_new: "pf_cells [] [] PtrField_new"
  by (simp add: pf_cells_def as_field_def PtrField_new_def rf_at_def)

lemma pf_cells_sizes:
  assumes "pf_cells ps qs f"
  shows "pf_current_size f = int (length ps)" "pf_allocated_size f = int (length (ps @ qs))"
    "int (length (ps @ qs)) \<le> pf_total_size f" "rf_at (ps @ qs) (as_field f)"
  using assms rf_at_sizes(1,2) [of "ps @ qs" "as_field f"] by (simp_all add: pf_cells_def rf_size_def Capacity_def)

lemma pf_cells_with: "rf_at (ps @ qs) g \<Longrightarrow> n = int (length ps) \<Longrightarrow> pf_cells ps qs (with_field g n f)"
  by (simp add: pf_cells_def)

lemma load_cell_at:
  assumes "pf_cells ps qs f" and "i = int k" and "k < length (ps @ qs)"
  shows "load_cell (pf_elements f) i = Some ((ps @ qs) ! k)"
  using load_cell_law [OF pf_cells_sizes(4) [OF assms(1)], of i] assms(2,3) by simp

lemma store_cell_at:
  assumes "pf_cells ps qs f" and "i = int k" and "k < length (ps @ qs)"
  shows "\<exists>els. store_cell (pf_elements f) i p = Some els \<and> rf_at ((ps @ qs)[k := p]) (as_field (f\<lparr>pf_elements := Some els\<rparr>))"
  using store_cell_law [OF pf_cells_sizes(4) [OF assms(1)], of i p] assms(2,3) by (auto simp: as_field_def)

lemma store_cell_end:
  assumes "pf_cells ps qs f" and "int (length (ps @ qs)) < pf_total_size f"
  shows "\<exists>els. store_cell (pf_elements f) (int (length (ps @ qs))) p = Some els \<and>
    rf_at (ps @ qs @ [p]) (as_field (f\<lparr>pf_elements := Some els, pf_allocated_size := pf_allocated_size f + 1\<rparr>))"
  using AddAlreadyReserved_law [OF pf_cells_sizes(4) [OF assms(1)], of p] assms(2) pf_cells_sizes(2) [OF assms(1)]
  by (auto simp: AddAlreadyReserved_def as_field_def bind_eq_Some_conv)

lemma PtrField_Reserve_eq:
  "PtrField_Reserve n f = map_option (\<lambda>g. with_field g (pf_current_size f) f) (Reserve n (as_field f))"
  by (auto simp: PtrField_Reserve_def Reserve_def as_field_def with_field_def Let_def MoveArray_def map_option_case
      split: option.splits Option.bind_splits)

lemma PtrField_Reserve_law:
  assumes "pf_cells ps qs f" and "2 * n \<le> INT_MAX"
  shows "\<exists>f'. PtrField_Reserve n f = Some f' \<and> pf_cells ps qs f' \<and> n \<le> pf_total_size f'"
proof -
  obtain g where g: "Reserve n (as_field f) = Some g" "rf_at (ps @ qs) g" "n \<le> rf_total_size g"
    using Reserve_law [OF pf_cells_sizes(4) [OF assms(1)] assms(2)] by blast
  then show ?thesis
    using pf_cells_with [OF g(2), of "pf_current_size f" f] pf_cells_sizes(1) [OF assms(1)]
    by (simp add: PtrField_Reserve_eq with_field_def)
qed

lemma slide_values_frame:
  "slide_values k i num f = Some g \<Longrightarrow> rf_current_size g = rf_current_size f \<and> rf_total_size g = rf_total_size f"
  by (induction k arbitrary: i f) (auto simp: RepeatedField_Set_def bind_eq_Some_conv)

lemma move_cells_eq: "move_cells k i num (rf_elements f) = map_option rf_elements (slide_values k i num f)"
proof (induction k arbitrary: i f)
  case (Suc k)
  show ?case
  proof (cases "RepeatedField_Get i f")
    case None
    then show ?thesis by (simp add: RepeatedField_Get_def)
  next
    case (Some p)
    then show ?thesis
      using Suc.IH [of "i + 1" "f\<lparr>rf_elements := els\<rparr>" for els]
      by (cases "store_cell (rf_elements f) (i - num) p") (simp_all add: RepeatedField_Get_def RepeatedField_Set_def)
  qed
qed simp

lemma load_cells_eq: "load_cells k i (rf_elements f) = extract_values k i f"
  by (induction k arbitrary: i) (simp_all add: RepeatedField_Get_def)

lemma CloseGap_law:
  assumes "pf_cells (ps @ rs @ ps') qs f" and "rs \<noteq> []" and "start = int (length ps)" and "num = int (length rs)"
  shows "\<exists>f'. CloseGap start num f = Some f' \<and> pf_cells (ps @ ps') qs f'"
proof -
  note z = pf_cells_sizes [OF assms(1)]
  have num: "num > 0" using assms(2,4) by simp
  obtain g where g: "ExtractSubrange start num False (as_field f) = Some ([], g)" "rf_at ((ps @ ps') @ qs) g"
    using ExtractSubrange_law [OF z(4), of start num False] assms(3,4) by (auto simp: nat_add_distrib)
  obtain g1 where g1: "slide_values (nat (rf_size (as_field f) - (start + num))) (start + num) num (as_field f) = Some g1"
    "g = Truncate (rf_size g1 - num) g1"
    using g(1) num by (auto simp: ExtractSubrange_def bind_eq_Some_conv)
  have "CloseGap start num f = Some (with_field g (pf_current_size f - num) f)"
    using g1 slide_values_frame [OF g1(1)] move_cells_eq [of _ _ _ "as_field f"]
    by (simp add: CloseGap_def with_field_def Truncate_def rf_size_def)
  then show ?thesis using pf_cells_with [OF g(2), of "pf_current_size f - num" f] z(1) assms(4) by simp
qed

lemma load_cells_law:
  assumes "pf_cells (ps @ rs @ ps') qs f" and "start = int (length ps)"
  shows "load_cells (length rs) start (pf_elements f) = Some rs"
  using extract_values_law [OF pf_cells_sizes(4) [OF assms(1)], of start "length rs"] assms(2) load_cells_eq [of _ _ "as_field f"]
  by simp

lemma PtrField_SwapElements_law:
  assumes "pf_cells ps qs f" and "i < length ps" and "j < length ps"
  shows "\<exists>f'. PtrField_SwapElements (int i) (int j) f = Some f' \<and> pf_cells (ps[i := ps ! j, j := ps ! i]) qs f'"
proof -
  note z = pf_cells_sizes [OF assms(1)]
  obtain g where g: "SwapElements (int i) (int j) (as_field f) = Some g" "rf_at ((ps @ qs)[i := (ps @ qs) ! j, j := (ps @ qs) ! i]) g"
    using SwapElements_law [OF z(4), of "int i" "int j"] assms(2,3) by auto
  have "rf_at (ps[i := ps ! j, j := ps ! i] @ qs) g" using g(2) assms(2,3) by (simp add: nth_append list_update_append)
  moreover have "PtrField_SwapElements (int i) (int j) f = Some (with_field g (pf_current_size f) f)"
    using g(1) by (auto simp: PtrField_SwapElements_def SwapElements_def with_field_def bind_eq_Some_conv)
  ultimately show ?thesis using z(1) pf_cells_with by fastforce
qed

lemma PtrField_Swap_law:
  "pf_cells ps qs f \<Longrightarrow> pf_cells rs ss g \<Longrightarrow> pf_cells rs ss (fst (PtrField_Swap f g)) \<and> pf_cells ps qs (snd (PtrField_Swap f g))"
  by (simp add: PtrField_Swap_def pf_cells_def as_field_def)

section \<open>Objects that change hands\<close>

text \<open>
  From the heap \<open>h\<close> with the objects \<open>A\<close> in hand to \<open>h'\<close> with the objects \<open>B\<close>: the new objects are fresh, those given up are
  deleted, and no other object has changed.
\<close>

definition heap_step :: "nat set \<Rightarrow> 'e objects \<Rightarrow> nat set \<Rightarrow> 'e objects \<Rightarrow> bool" where
  "heap_step A h B h' \<longleftrightarrow> (\<forall>p. p \<notin> A \<union> B \<longrightarrow> load_object p h' = load_object p h) \<and>
     (\<forall>p \<in> B - A. load_object p h = None) \<and> (\<forall>p \<in> A - B. load_object p h' = None)"

lemma heap_step_refl [simp]: "heap_step A h A h"
  by (simp add: heap_step_def)

lemma heap_step_trans:
  assumes "heap_step A h B h'" and "heap_step B h' C h''"
  shows "heap_step A h C h''"
  unfolding heap_step_def
proof (intro conjI ballI allI impI)
  fix p
  show "load_object p h'' = load_object p h" if "p \<notin> A \<union> C"
    using assms that by (cases "p \<in> B") (auto simp: heap_step_def)
  show "load_object p h = None" if "p \<in> C - A" using assms that by (cases "p \<in> B") (auto simp: heap_step_def)
  show "load_object p h'' = None" if "p \<in> A - C" using assms that by (cases "p \<in> B") (auto simp: heap_step_def)
qed

lemma heap_step_other: "heap_step A h B h' \<Longrightarrow> p \<notin> A \<Longrightarrow> load_object p h \<noteq> None \<Longrightarrow> load_object p h' = load_object p h \<and> p \<notin> B"
  by (auto simp: heap_step_def)

lemma load_object_live: "load_object p h \<noteq> None \<Longrightarrow> p < length h"
  by (auto simp: load_object_def mem_get_def split: if_splits)

lemma load_new_object: "new_object v h = (p, h') \<Longrightarrow> load_object q h' = (if q = p then Some v else load_object q h)"
  by (auto simp: new_object_def load_object_def mem_get_def nth_append not_less less_Suc_eq_le)

lemma new_object_fresh: "new_object v h = (p, h') \<Longrightarrow> load_object p h = None"
  by (auto simp: new_object_def load_object_def mem_get_def)

lemma new_object_step: "new_object v h = (p, h') \<Longrightarrow> heap_step A h (insert p A) h'"
  using load_new_object [of v h p h'] new_object_fresh [of v h p h'] by (auto simp: heap_step_def)

lemma load_updated: "p < length h \<Longrightarrow> load_object q (h[p := c]) = (if q = p then c else load_object q h)"
  by (auto simp: load_object_def mem_get_def)

lemma update_object_law:
  assumes "load_object p h = Some v"
  shows "\<exists>h'. update_object g p h = Some h' \<and> (\<forall>q. load_object q h' = (if q = p then Some (g v) else load_object q h))"
  using assms load_updated [OF load_object_live, of p h _ "Some (g v)"] by (auto simp: update_object_def)

lemma delete_object_law:
  assumes "load_object p h \<noteq> None"
  shows "\<exists>h'. delete_object p h = Some h' \<and> (\<forall>q. load_object q h' = (if q = p then None else load_object q h))"
  using assms load_updated [OF load_object_live, of p h _ None] by (auto simp: delete_object_def)

lemma delete_cells_law:
  "pf_cells (ps @ rs @ ps') qs f \<Longrightarrow> distinct rs \<Longrightarrow> \<forall>p \<in> set rs. load_object p h \<noteq> None \<Longrightarrow>
   \<exists>h'. delete_cells (length rs) (int (length ps)) (pf_elements f) h = Some h' \<and>
     (\<forall>q. load_object q h' = (if q \<in> set rs then None else load_object q h))"
proof (induction rs arbitrary: ps h)
  case (Cons p rs)
  obtain h1 where h1: "delete_object p h = Some h1" "\<forall>q. load_object q h1 = (if q = p then None else load_object q h)"
    using delete_object_law [of p h] Cons.prems(3) by auto
  have cell: "load_cell (pf_elements f) (int (length ps)) = Some p" using load_cell_at [OF Cons.prems(1) refl, of "length ps"] by simp
  have "pf_cells ((ps @ [p]) @ rs @ ps') qs f" using Cons.prems(1) by simp
  moreover have "\<forall>q \<in> set rs. load_object q h1 \<noteq> None" using Cons.prems(2,3) h1(2) by auto
  ultimately obtain h' where "delete_cells (length rs) (int (length (ps @ [p]))) (pf_elements f) h1 = Some h'"
    "\<forall>q. load_object q h' = (if q \<in> set rs then None else load_object q h1)"
    using Cons.IH [of "ps @ [p]" h1] Cons.prems(2) by auto
  then show ?case using h1 cell by (intro exI [of _ h']) (simp add: add.commute)
qed simp

section \<open>The field and its elements\<close>

text \<open>
  What the class relies on: what is visible of an object that has been cleared is what is visible of a new one, and merging
  into such an object copies.
\<close>

locale element_type =
  fixes th :: "'e type_handler" and view :: "'e \<Rightarrow> 'v"
  assumes clear_law: "view (th_Clear th v) = view (th_New th)"
    and merge_law: "view w = view (th_New th) \<Longrightarrow> view (th_Merge th v w) = view v"

text \<open>
  The field owns the objects \<open>ps\<close>, in which the values \<open>xs\<close> are visible, and \<open>qs\<close>, which are as new; all are alive, and each
  is in one place of the array only.
\<close>

definition pf_holds :: "'e type_handler \<Rightarrow> ('e \<Rightarrow> 'v) \<Rightarrow> 'v list \<Rightarrow> nat list \<Rightarrow> nat list \<Rightarrow> 'e objects \<Rightarrow> ptr_field \<Rightarrow> bool" where
  "pf_holds th view xs ps qs h f \<longleftrightarrow> pf_cells ps qs f \<and> distinct (ps @ qs) \<and>
     map (\<lambda>p. map_option view (load_object p h)) ps = map Some xs \<and>
     (\<forall>q \<in> set qs. map_option view (load_object q h) = Some (view (th_New th)))"

lemma pf_holds_new: "pf_holds th view [] [] [] h PtrField_new"
  by (simp add: pf_holds_def pf_cells_new)

lemma map_option_views: "map f ps = map Some xs \<Longrightarrow> length xs = length ps \<and> (\<forall>p \<in> set ps. f p \<noteq> None)"
  by (metis (no_types, lifting) imageE length_map list.set_map option.distinct(1) rev_image_eqI)

lemma pf_holds_length: "pf_holds th view xs ps qs h f \<Longrightarrow> length xs = length ps"
  by (auto simp: pf_holds_def dest: map_option_views)

lemma pf_holds_live: "pf_holds th view xs ps qs h f \<Longrightarrow> p \<in> set (ps @ qs) \<Longrightarrow> load_object p h \<noteq> None"
  by (auto simp: pf_holds_def dest: map_option_views)

lemma pf_holds_cells: "pf_holds th view xs ps qs h f \<Longrightarrow> pf_cells ps qs f'  \<Longrightarrow> pf_holds th view xs ps qs h f'"
  by (simp add: pf_holds_def)

lemma pf_holds_heap:
  assumes "pf_holds th view xs ps qs h f" and "\<And>p. p \<in> set (ps @ qs) \<Longrightarrow> load_object p h' = load_object p h"
  shows "pf_holds th view xs ps qs h' f"
proof -
  have "map (\<lambda>p. map_option view (load_object p h')) ps = map (\<lambda>p. map_option view (load_object p h)) ps" using assms(2) by simp
  moreover have "\<forall>q \<in> set qs. load_object q h' = load_object q h" using assms(2) by simp
  ultimately show ?thesis using assms(1) unfolding pf_holds_def by metis
qed

text \<open>Steps of another owner leave the field as it is.\<close>

lemma pf_holds_frame:
  assumes "pf_holds th view xs ps qs h f" and "heap_step A h B h'" and "set (ps @ qs) \<inter> A = {}"
  shows "pf_holds th view xs ps qs h' f" and "set (ps @ qs) \<inter> B = {}"
proof -
  have s: "load_object p h' = load_object p h \<and> p \<notin> B" if "p \<in> set (ps @ qs)" for p
    using heap_step_other [OF assms(2) _ pf_holds_live [OF assms(1) that]] assms(3) that by blast
  show "pf_holds th view xs ps qs h' f" by (rule pf_holds_heap [OF assms(1)]) (use s in blast)
  show "set (ps @ qs) \<inter> B = {}" using s by blast
qed

lemma PtrField_Get_law:
  assumes "pf_holds th view xs ps qs h f" and "k < length xs"
  shows "\<exists>v. PtrField_Get (int k) h f = Some v \<and> view v = xs ! k"
proof -
  note l = pf_holds_length [OF assms(1)]
  have "map (\<lambda>p. map_option view (load_object p h)) ps ! k = map Some xs ! k" using assms(1) by (simp add: pf_holds_def)
  then have "map_option view (load_object (ps ! k) h) = Some (xs ! k)" using assms(2) l by simp
  moreover have "load_cell (pf_elements f) (int k) = Some (ps ! k)"
    using load_cell_at [of ps qs f "int k" k] assms l by (simp add: pf_holds_def nth_append)
  ultimately show ?thesis by (auto simp: PtrField_Get_def)
qed

text \<open>Writing to an element.\<close>

lemma pf_holds_update:
  assumes "pf_holds th view xs ps qs h f" and "k < length ps" and "load_object (ps ! k) h = Some v"
  shows "\<exists>h'. update_object g (ps ! k) h = Some h' \<and> pf_holds th view (xs[k := view (g v)]) ps qs h' f \<and>
    heap_step (set (ps @ qs)) h (set (ps @ qs)) h'"
proof -
  obtain h' where h': "update_object g (ps ! k) h = Some h'" "\<forall>q. load_object q h' = (if q = ps ! k then Some (g v) else load_object q h)"
    using update_object_law [OF assms(3), of g] by blast
  have d: "distinct ps" "ps ! k \<notin> set qs" using assms(1) nth_mem [OF assms(2)] by (auto simp: pf_holds_def)
  let ?o = "\<lambda>h p. map_option view (load_object p h)"
  have "map (?o h') ps = (map (?o h) ps)[k := Some (view (g v))]"
    using d(1) assms(2) h'(2) by (intro nth_equalityI) (simp_all add: nth_list_update nth_eq_iff_index_eq)
  then have "pf_holds th view (xs[k := view (g v)]) ps qs h' f" using assms(1) d(2) h'(2) by (auto simp: pf_holds_def map_update)
  moreover have "heap_step (set (ps @ qs)) h (set (ps @ qs)) h'" using h'(2) assms(2) by (auto simp: heap_step_def)
  ultimately show ?thesis using h'(1) by blast
qed

section \<open>The operations\<close>

text \<open>The same array with the border between list and cleared objects at another place.\<close>

lemma pf_cells_border: "pf_cells ps qs f \<Longrightarrow> ps @ qs = ps' @ qs' \<Longrightarrow> n = int (length ps') \<Longrightarrow> pf_cells ps' qs' (f\<lparr>pf_current_size := n\<rparr>)"
  by (simp add: pf_cells_def)

lemma PtrField_Destroy_law:
  assumes "pf_holds th view xs ps qs h f"
  shows "\<exists>h'. PtrField_Destroy f h = Some h' \<and> heap_step (set (ps @ qs)) h {} h'"
proof -
  have c: "pf_cells ps qs f" "distinct (ps @ qs)" using assms by (simp_all add: pf_holds_def)
  let ?f = "f\<lparr>pf_current_size := int (length (ps @ qs))\<rparr>"
  have "pf_cells ([] @ (ps @ qs) @ []) [] ?f" by (rule pf_cells_border [OF c(1)]) simp_all
  from delete_cells_law [OF this c(2), of h] pf_holds_live [OF assms] obtain h' where
    "delete_cells (length (ps @ qs)) 0 (pf_elements f) h = Some h'" "\<forall>q. load_object q h' = (if q \<in> set (ps @ qs) then None else load_object q h)"
    by auto
  then show ?thesis using pf_cells_sizes(2) [OF c(1)] by (intro exI [of _ h']) (simp add: PtrField_Destroy_def heap_step_def nat_add_distrib)
qed

text \<open>Taking elements out of the list, and out of the array.\<close>

lemma pf_holds_cut:
  assumes "pf_holds th view xs (ps @ rs @ ps') qs h f" and "pf_cells (ps @ ps') qs f'"
  shows "pf_holds th view (take (length ps) xs @ drop (length ps + length rs) xs) (ps @ ps') qs h f'"
proof -
  let ?o = "\<lambda>p. map_option view (load_object p h)"
  have m: "map Some xs = map ?o (ps @ rs @ ps')" using assms(1) by (simp add: pf_holds_def)
  have "map Some (take (length ps) xs) = map ?o ps" "map Some (drop (length ps + length rs) xs) = map ?o ps'"
    unfolding take_map [symmetric] drop_map [symmetric] m by (simp_all add: take_map [symmetric] drop_map [symmetric])
  then show ?thesis using assms by (auto simp: pf_holds_def)
qed

lemma split_range:
  fixes ps :: "'a list"
  assumes "start + num \<le> length ps"
  obtains p1 rs p2 where "ps = p1 @ rs @ p2" "length p1 = start" "length rs = num"
proof
  show "ps = take start ps @ take num (drop start ps) @ drop (start + num) ps" by (metis append_take_drop_id drop_drop add.commute)
qed (use assms in auto)

lemma PtrField_ExtractSubrange_law:
  assumes "pf_holds th view xs ps qs h f" and "start + num \<le> length xs"
  shows "\<exists>rs ps' f'. PtrField_ExtractSubrange (int start) (int num) wanted f = Some (if wanted then rs else [], f') \<and>
    rs = take num (drop start ps) \<and> ps' = take start ps @ drop (start + num) ps \<and>
    pf_holds th view (take start xs @ drop (start + num) xs) ps' qs h f'"
proof -
  note l = pf_holds_length [OF assms(1)]
  obtain p1 rs p2 where s: "ps = p1 @ rs @ p2" "length p1 = start" "length rs = num" by (rule split_range [of start num ps]) (use assms(2) l in simp)
  have c: "pf_cells (p1 @ rs @ p2) qs f" using assms(1) s(1) by (simp add: pf_holds_def)
  show ?thesis
  proof (cases "num = 0")
    case True
    then show ?thesis using assms(1) by (simp add: PtrField_ExtractSubrange_def)
  next
    case False
    then have "rs \<noteq> []" using s(3) by auto
    then obtain f' where f': "CloseGap (int start) (int num) f = Some f'" "pf_cells (p1 @ p2) qs f'"
      using CloseGap_law [OF c, of "int start" "int num"] s(2,3) by auto
    have "load_cells num (int start) (pf_elements f) = Some rs" using load_cells_law [OF c, of "int start"] s(2,3) by simp
    then show ?thesis
      using False f' s pf_holds_cut [OF assms(1) [unfolded s(1)] f'(2)] by (auto simp: PtrField_ExtractSubrange_def)
  qed
qed

lemma PtrField_DeleteSubrange_law:
  assumes "pf_holds th view xs ps qs h f" and "start + num \<le> length xs"
  shows "\<exists>ps' h' f'. PtrField_DeleteSubrange (int start) (int num) h f = Some (h', f') \<and>
    pf_holds th view (take start xs @ drop (start + num) xs) ps' qs h' f' \<and>
    heap_step (set (ps @ qs)) h (set (ps' @ qs)) h' \<and> length (ps' @ qs) \<le> length (ps @ qs)"
proof -
  note l = pf_holds_length [OF assms(1)]
  obtain p1 rs p2 where s: "ps = p1 @ rs @ p2" "length p1 = start" "length rs = num" by (rule split_range [of start num ps]) (use assms(2) l in simp)
  have c: "pf_cells (p1 @ rs @ p2) qs f" "distinct (p1 @ rs @ p2)" "set (p1 @ rs @ p2) \<inter> set qs = {}"
    using assms(1) s(1) by (auto simp: pf_holds_def)
  have live: "\<forall>p \<in> set rs. load_object p h \<noteq> None" using pf_holds_live [OF assms(1)] s(1) by auto
  obtain h' where h': "delete_cells num (int start) (pf_elements f) h = Some h'"
    "\<forall>q. load_object q h' = (if q \<in> set rs then None else load_object q h)"
    using delete_cells_law [OF c(1) _ live] c(2) s(2,3) by auto
  obtain f' where f': "PtrField_ExtractSubrange (int start) (int num) False f = Some ([], f')"
    "pf_holds th view (take start xs @ drop (start + num) xs) (p1 @ p2) qs h f'"
    using PtrField_ExtractSubrange_law [OF assms, of False] s by auto
  have "pf_holds th view (take start xs @ drop (start + num) xs) (p1 @ p2) qs h' f'"
    by (rule pf_holds_heap [OF f'(2)]) (use h'(2) c(2,3) in auto)
  moreover have "heap_step (set (ps @ qs)) h (set ((p1 @ p2) @ qs)) h'" using h'(2) s(1) by (auto simp: heap_step_def)
  ultimately show ?thesis using h'(1) f'(1) s(1) by (intro exI [of _ "p1 @ p2"] exI [of _ h'] exI [of _ f']) (simp add: PtrField_DeleteSubrange_def)
qed

lemma PtrField_SwapElements_holds:
  assumes "pf_holds th view xs ps qs h f" and "i < length xs" and "j < length xs"
  shows "\<exists>ps' f'. PtrField_SwapElements (int i) (int j) f = Some f' \<and> set ps' = set ps \<and> length ps' = length ps \<and>
    pf_holds th view (xs[i := xs ! j, j := xs ! i]) ps' qs h f'"
proof -
  note l = pf_holds_length [OF assms(1)]
  let ?o = "\<lambda>p. map_option view (load_object p h)" and ?ps = "ps[i := ps ! j, j := ps ! i]"
  obtain f' where f': "PtrField_SwapElements (int i) (int j) f = Some f'" "pf_cells ?ps qs f'"
    using PtrField_SwapElements_law [of ps qs f i j] assms l by (auto simp: pf_holds_def)
  have m: "map ?o ps = map Some xs" using assms(1) by (simp add: pf_holds_def)
  have "map ?o ?ps = (map ?o ps)[i := map ?o ps ! j, j := map ?o ps ! i]" using assms(2,3) l by (simp add: map_update)
  also have "\<dots> = map Some (xs[i := xs ! j, j := xs ! i])" unfolding m using assms(2,3) by (simp add: map_update)
  finally have "map ?o ?ps = map Some (xs[i := xs ! j, j := xs ! i])" .
  moreover have "set ?ps = set ps" "distinct ?ps = distinct ps" using assms(2,3) l by (simp_all add: set_swap distinct_swap)
  ultimately show ?thesis using f' assms(1) by (intro exI [of _ ?ps] exI [of _ f']) (simp add: pf_holds_def)
qed

lemma PtrField_Reserve_holds:
  "pf_holds th view xs ps qs h f \<Longrightarrow> 2 * n \<le> INT_MAX \<Longrightarrow> \<exists>f'. PtrField_Reserve n f = Some f' \<and> pf_holds th view xs ps qs h f'"
  using PtrField_Reserve_law [of ps qs f n] pf_holds_cells by (force simp: pf_holds_def)

subsection \<open>Objects in reserve\<close>

text \<open>The first of the cleared objects joins the list.\<close>

lemma pf_holds_reuse:
  assumes "pf_holds th view xs ps (q # qs) h f"
  shows "pf_current_size f < pf_allocated_size f" and "load_cell (pf_elements f) (pf_current_size f) = Some q"
    and "pf_holds th view (xs @ [view (th_New th)]) (ps @ [q]) qs h (f\<lparr>pf_current_size := pf_current_size f + 1\<rparr>)"
proof -
  have c: "pf_cells ps (q # qs) f" using assms by (simp add: pf_holds_def)
  note z = pf_cells_sizes [OF c]
  show "pf_current_size f < pf_allocated_size f" using z(1,2) by simp
  show "load_cell (pf_elements f) (pf_current_size f) = Some q" using load_cell_at [OF c z(1)] by simp
  have "pf_cells (ps @ [q]) qs (f\<lparr>pf_current_size := pf_current_size f + 1\<rparr>)" by (rule pf_cells_border [OF c]) (use z(1) in simp_all)
  then show "pf_holds th view (xs @ [view (th_New th)]) (ps @ [q]) qs h (f\<lparr>pf_current_size := pf_current_size f + 1\<rparr>)"
    using assms by (simp add: pf_holds_def)
qed

lemma PtrField_Add_law:
  assumes "pf_holds th view xs ps qs h f" and "2 * (int (length (ps @ qs)) + 1) \<le> INT_MAX"
  shows "\<exists>p qs' h' f'. PtrField_Add th h f = Some (p, h', f') \<and> pf_holds th view (xs @ [view (th_New th)]) (ps @ [p]) qs' h' f' \<and>
    heap_step (set (ps @ qs)) h (set ((ps @ [p]) @ qs')) h' \<and> length (ps @ [p]) + length qs' \<le> length (ps @ qs) + 1"
proof (cases qs)
  case (Cons q qs')
  note r = pf_holds_reuse [OF assms(1) [unfolded Cons]]
  have "PtrField_Add th h f = Some (q, h, f\<lparr>pf_current_size := pf_current_size f + 1\<rparr>)" using r(1,2) by (simp add: PtrField_Add_def)
  then show ?thesis using r(3) Cons by (intro exI [of _ q] exI [of _ qs'] exI [of _ h]) simp
next
  case Nil
  have c: "pf_cells ps [] f" using assms(1) Nil by (simp add: pf_holds_def)
  note z = pf_cells_sizes [OF c]
  let ?r = "if pf_allocated_size f = pf_total_size f then PtrField_Reserve (pf_total_size f + 1) f else Some f"
  have "\<exists>f1. ?r = Some f1 \<and> pf_cells ps [] f1 \<and> int (length ps) < pf_total_size f1"
  proof (cases "pf_allocated_size f = pf_total_size f")
    case True
    then show ?thesis using PtrField_Reserve_law [OF c, of "pf_total_size f + 1"] assms(2) Nil z(2) by auto
  next
    case False
    then show ?thesis using c z(2,3) by auto
  qed
  then obtain f1 where f1: "?r = Some f1" "pf_cells ps [] f1" "int (length (ps @ [])) < pf_total_size f1" by auto
  obtain p h' where n: "new_object (th_New th) h = (p, h')" by (cases "new_object (th_New th) h")
  obtain els where els: "store_cell (pf_elements f1) (int (length ps)) p = Some els"
    "rf_at (ps @ [] @ [p]) (as_field (f1\<lparr>pf_elements := Some els, pf_allocated_size := pf_allocated_size f1 + 1\<rparr>))"
    using store_cell_end [OF f1(2,3), of p] by auto
  let ?f = "f1\<lparr>pf_elements := Some els, pf_current_size := pf_current_size f1 + 1, pf_allocated_size := pf_allocated_size f1 + 1\<rparr>"
  have z1: "pf_current_size f1 = int (length ps)" using pf_cells_sizes(1) [OF f1(2)] .
  have run: "PtrField_Add th h f = Some (p, h', ?f)"
    using f1(1) n els(1) z(1,2) z1 by (simp add: PtrField_Add_def Let_def)
  have cells: "pf_cells (ps @ [p]) [] ?f" using els(2) z1 by (simp add: pf_cells_def as_field_def)
  have p: "load_object q h' = load_object q h" if "q \<in> set ps" for q
    using load_new_object [OF n, of q] new_object_fresh [OF n] pf_holds_live [OF assms(1), of q] that by auto
  have fresh: "p \<notin> set ps" using new_object_fresh [OF n] pf_holds_live [OF assms(1), of p] by auto
  have "pf_holds th view (xs @ [view (th_New th)]) (ps @ [p]) [] h' ?f"
    using assms(1) Nil cells p fresh load_new_object [OF n, of p] by (auto simp: pf_holds_def cong: map_cong)
  moreover have "heap_step (set ps) h (set (ps @ [p])) h'" using new_object_step [OF n, of "set ps"] by simp
  ultimately show ?thesis using run Nil by (intro exI [of _ p] exI [of _ "[]"] exI [of _ h'] exI [of _ ?f]) simp
qed

lemma AddFromCleared_law:
  assumes "pf_holds th view xs ps qs h f"
  shows "case qs of
     [] \<Rightarrow> AddFromCleared f = Some (None, f)
   | q # qs' \<Rightarrow> \<exists>f'. AddFromCleared f = Some (Some q, f') \<and> pf_holds th view (xs @ [view (th_New th)]) (ps @ [q]) qs' h f'"
proof (cases qs)
  case Nil
  then show ?thesis using assms pf_cells_sizes(1,2) [of ps qs f] by (simp add: AddFromCleared_def pf_holds_def)
next
  case (Cons q qs')
  then show ?thesis using pf_holds_reuse [OF assms [unfolded Cons]] by (simp add: AddFromCleared_def)
qed

subsection \<open>Removing elements\<close>

lemma rf_at_beginning: "rf_at (xs @ ys) f \<Longrightarrow> rf_at xs (Truncate (int (length xs)) f)"
  using Truncate_law [of "xs @ ys" f "int (length xs)"] by simp

lemma pf_holds_snoc:
  assumes "pf_holds th view xs ps qs h f" and "xs \<noteq> []"
  obtains ys y ps0 p v where "xs = ys @ [y]" "ps = ps0 @ [p]" "load_object p h = Some v" "view v = y"
    "load_cell (pf_elements f) (pf_current_size f - 1) = Some p" "pf_current_size f = int (length ps0) + 1"
proof -
  note l = pf_holds_length [OF assms(1)]
  obtain ys y where ys: "xs = ys @ [y]" using assms(2) by (cases xs rule: rev_cases) auto
  obtain ps0 p where ps: "ps = ps0 @ [p]" using ys l by (cases ps rule: rev_cases) auto
  have c: "pf_cells ps qs f" using assms(1) by (simp add: pf_holds_def)
  have "map (\<lambda>p. map_option view (load_object p h)) ps = map Some xs" using assms(1) by (simp add: pf_holds_def)
  then have "map_option view (load_object p h) = Some y" using ys ps by simp
  then obtain v where "load_object p h = Some v" "view v = y" by auto
  moreover have s: "pf_current_size f = int (length ps0) + 1" using pf_cells_sizes(1) [OF c] ps by simp
  moreover have "load_cell (pf_elements f) (pf_current_size f - 1) = Some p"
    using load_cell_at [OF c, of "pf_current_size f - 1" "length ps0"] s ps by simp
  ultimately show thesis using that ys ps by blast
qed

lemma ReleaseLast_law:
  assumes "pf_holds th view xs ps qs h f" and "xs \<noteq> []"
  shows "\<exists>p qs' f' v. ReleaseLast f = Some (p, f') \<and> load_object p h = Some v \<and> view v = last xs \<and>
    p \<in> set ps \<and> set (butlast ps @ qs') = set (ps @ qs) - {p} \<and> pf_holds th view (butlast xs) (butlast ps) qs' h f'"
proof -
  obtain ys y ps0 p v where s: "xs = ys @ [y]" "ps = ps0 @ [p]" "load_object p h = Some v" "view v = y"
    "load_cell (pf_elements f) (pf_current_size f - 1) = Some p" "pf_current_size f = int (length ps0) + 1"
    using pf_holds_snoc [OF assms] .
  have c: "pf_cells ps qs f" using assms(1) by (simp add: pf_holds_def)
  note z = pf_cells_sizes [OF c]
  have d: "distinct (ps0 @ [p] @ qs)" "map (\<lambda>p. map_option view (load_object p h)) ps0 = map Some ys"
    "\<forall>q \<in> set qs. map_option view (load_object q h) = Some (view (th_New th))"
    using assms(1) s(1,2) by (auto simp: pf_holds_def)
  show ?thesis
  proof (cases qs rule: rev_cases)
    case Nil
    let ?f = "f\<lparr>pf_current_size := pf_current_size f - 1, pf_allocated_size := pf_allocated_size f - 1\<rparr>"
    have run: "ReleaseLast f = Some (p, ?f)" using s z(2) Nil by (simp add: ReleaseLast_def Let_def)
    have "as_field ?f = Truncate (int (length ps0)) (as_field f)" using z(2) s(2) Nil by (simp add: as_field_def Truncate_def)
    moreover have "rf_at ps0 (Truncate (int (length ps0)) (as_field f))"
      using rf_at_beginning [of ps0 "[p]"] z(4) s(2) Nil by simp
    ultimately have "pf_cells ps0 [] ?f" using s(6) by (simp add: pf_cells_def)
    then have "pf_holds th view ys ps0 [] h ?f" using d by (simp add: pf_holds_def)
    then show ?thesis using run s d(1) Nil by (intro exI [of _ p] exI [of _ "[]"] exI [of _ ?f] exI [of _ v]) auto
  next
    case (snoc qs0 q)
    have a: "pf_allocated_size f - 1 = int (length (ps @ qs0))" using z(2) snoc by simp
    have lq: "load_cell (pf_elements f) (pf_allocated_size f - 1) = Some q" using load_cell_at [OF c a] snoc by (simp add: nth_append)
    obtain els where els: "store_cell (pf_elements f) (pf_current_size f - 1) q = Some els"
      "rf_at ((ps @ qs)[length ps0 := q]) (as_field (f\<lparr>pf_elements := Some els\<rparr>))"
      using store_cell_at [OF c, of "pf_current_size f - 1" "length ps0" q] s(2,6) by auto
    let ?f = "f\<lparr>pf_elements := Some els, pf_current_size := pf_current_size f - 1, pf_allocated_size := pf_allocated_size f - 1\<rparr>"
    have run: "ReleaseLast f = Some (p, ?f)" using s(2,5,6) a lq els(1) by (simp add: ReleaseLast_def Let_def)
    have at: "(ps @ qs)[length ps0 := q] = (ps0 @ q # qs0) @ [q]" using s(2) snoc by (simp add: list_update_append)
    have "as_field ?f = Truncate (int (length (ps0 @ q # qs0))) (as_field (f\<lparr>pf_elements := Some els\<rparr>))"
      using a s(2) by (simp add: as_field_def Truncate_def)
    moreover have "rf_at (ps0 @ q # qs0) (Truncate (int (length (ps0 @ q # qs0))) (as_field (f\<lparr>pf_elements := Some els\<rparr>)))"
      using rf_at_beginning [OF els(2) [unfolded at]] .
    ultimately have "pf_cells ps0 (q # qs0) ?f" using s(6) by (simp add: pf_cells_def)
    then have "pf_holds th view ys ps0 (q # qs0) h ?f" using d snoc by (auto simp: pf_holds_def)
    then show ?thesis using run s d(1) snoc by (intro exI [of _ p] exI [of _ "q # qs0"] exI [of _ ?f] exI [of _ v]) auto
  qed
qed

lemma ReleaseCleared_law:
  assumes "pf_holds th view xs ps (qs @ [q]) h f"
  shows "\<exists>f'. ReleaseCleared f = Some (q, f') \<and> pf_holds th view xs ps qs h f'"
proof -
  have c: "pf_cells ps (qs @ [q]) f" using assms by (simp add: pf_holds_def)
  note z = pf_cells_sizes [OF c]
  let ?f = "f\<lparr>pf_allocated_size := pf_allocated_size f - 1\<rparr>"
  have a: "pf_allocated_size f - 1 = int (length (ps @ qs))" using z(2) by simp
  have "load_cell (pf_elements f) (pf_allocated_size f - 1) = Some q" using load_cell_at [OF c a] by (simp add: nth_append)
  moreover have "as_field ?f = Truncate (int (length (ps @ qs))) (as_field f)" using a by (simp add: as_field_def Truncate_def)
  moreover have "rf_at (ps @ qs) (Truncate (int (length (ps @ qs))) (as_field f))"
    using rf_at_beginning [of "ps @ qs" "[q]"] z(4) by simp
  ultimately show ?thesis
    using assms z(1) by (auto simp: ReleaseCleared_def Let_def pf_holds_def pf_cells_def)
qed

subsection \<open>Taking objects over\<close>

lemma pf_holds_take:
  assumes "pf_holds th view xs ps qs h f" and "load_object v h = Some w" and "v \<notin> set (ps @ qs)"
    and "pf_cells (ps @ [v]) qs' f'" and "distinct qs'" and "set qs' \<subseteq> set qs"
  shows "pf_holds th view (xs @ [view w]) (ps @ [v]) qs' h f'"
  using assms by (auto simp: pf_holds_def)

lemma AddAllocated_law:
  assumes "pf_holds th view xs ps qs h f" and "2 * (int (length (ps @ qs)) + 1) \<le> INT_MAX"
    and "load_object v h = Some w" and "v \<notin> set (ps @ qs)"
  shows "\<exists>qs' h' f'. AddAllocated v h f = Some (h', f') \<and> pf_holds th view (xs @ [view w]) (ps @ [v]) qs' h' f' \<and>
    heap_step (insert v (set (ps @ qs))) h (set ((ps @ [v]) @ qs')) h' \<and> length (ps @ [v]) + length qs' \<le> length (ps @ qs) + 1"
proof -
  have c: "pf_cells ps qs f" "distinct (ps @ qs)" using assms(1) by (simp_all add: pf_holds_def)
  note z = pf_cells_sizes [OF c(1)]
  have at_end: "\<exists>els. store_cell (pf_elements f1) (pf_current_size f1) v = Some els \<and>
      pf_holds th view (xs @ [view w]) (ps @ [v]) [] h
        (f1\<lparr>pf_allocated_size := pf_allocated_size f1 + 1, pf_elements := Some els, pf_current_size := pf_current_size f1 + 1\<rparr>)"
    if qs: "qs = []" and f1: "pf_cells ps [] f1" "int (length ps) < pf_total_size f1" for f1
  proof -
    have s: "pf_current_size f1 = int (length ps)" using pf_cells_sizes(1) [OF f1(1)] .
    obtain els where els: "store_cell (pf_elements f1) (int (length ps)) v = Some els"
      "rf_at (ps @ [] @ [v]) (as_field (f1\<lparr>pf_elements := Some els, pf_allocated_size := pf_allocated_size f1 + 1\<rparr>))"
      using store_cell_end [OF f1(1), of v] f1(2) by auto
    have "pf_cells (ps @ [v]) []
        (f1\<lparr>pf_allocated_size := pf_allocated_size f1 + 1, pf_elements := Some els, pf_current_size := pf_current_size f1 + 1\<rparr>)"
      using els(2) s by (simp add: pf_cells_def as_field_def)
    then show ?thesis using els(1) s pf_holds_take [OF assms(1,3,4)] by simp
  qed
  have only_v: "heap_step (insert v (set ps)) h (set (ps @ [v])) h" by simp
  show ?thesis
  proof (cases qs)
    case Nil
    show ?thesis
    proof (cases "pf_current_size f = pf_total_size f")
      case True
      obtain f1 where f1: "PtrField_Reserve (pf_total_size f + 1) f = Some f1" "pf_cells ps [] f1" "pf_total_size f + 1 \<le> pf_total_size f1"
        using PtrField_Reserve_law [OF c(1), of "pf_total_size f + 1"] True z(1) assms(2) Nil by auto
      obtain els where "store_cell (pf_elements f1) (pf_current_size f1) v = Some els"
        "pf_holds th view (xs @ [view w]) (ps @ [v]) [] h
          (f1\<lparr>pf_allocated_size := pf_allocated_size f1 + 1, pf_elements := Some els, pf_current_size := pf_current_size f1 + 1\<rparr>)"
        using at_end [OF Nil f1(2)] f1(3) True z(1) by auto
      then show ?thesis
        using True f1(1) only_v Nil by (intro exI [of _ "[]"] exI [of _ h] exI) (auto simp: AddAllocated_def)
    next
      case False
      then have "int (length ps) < pf_total_size f" "pf_allocated_size f \<noteq> pf_total_size f" "\<not> pf_current_size f < pf_allocated_size f"
        using z Nil by auto
      moreover from this obtain els where "store_cell (pf_elements f) (pf_current_size f) v = Some els"
        "pf_holds th view (xs @ [view w]) (ps @ [v]) [] h
          (f\<lparr>pf_allocated_size := pf_allocated_size f + 1, pf_elements := Some els, pf_current_size := pf_current_size f + 1\<rparr>)"
        using at_end [OF Nil, of f] c(1) Nil by auto
      ultimately show ?thesis
        using False only_v Nil by (intro exI [of _ "[]"] exI [of _ h] exI) (auto simp: AddAllocated_def)
    qed
  next
    case (Cons q qs1)
    have lq: "load_cell (pf_elements f) (pf_current_size f) = Some q" using load_cell_at [OF c(1) z(1)] Cons by simp
    have ne: "pf_current_size f \<noteq> pf_total_size f" "pf_current_size f < pf_allocated_size f" using z(1,2,3) Cons by simp_all
    have d: "distinct qs1" "q \<notin> set qs1" "q \<notin> set ps" "q \<noteq> v" using c(2) Cons assms(4) by auto
    show ?thesis
    proof (cases "pf_allocated_size f = pf_total_size f")
      case True
      have "load_object q h \<noteq> None" using pf_holds_live [OF assms(1), of q] Cons by simp
      then obtain h' where h': "delete_object q h = Some h'" "\<forall>p. load_object p h' = (if p = q then None else load_object p h)"
        using delete_object_law [of q h] by auto
      obtain els where els: "store_cell (pf_elements f) (pf_current_size f) v = Some els"
        "rf_at ((ps @ qs)[length ps := v]) (as_field (f\<lparr>pf_elements := Some els\<rparr>))"
        using store_cell_at [OF c(1) z(1), of v] Cons by auto
      let ?f = "f\<lparr>pf_elements := Some els, pf_current_size := pf_current_size f + 1\<rparr>"
      have "pf_cells (ps @ [v]) qs1 ?f" using els(2) z(1) Cons by (simp add: pf_cells_def as_field_def list_update_append)
      then have "pf_holds th view (xs @ [view w]) (ps @ [v]) qs1 h ?f" using pf_holds_take [OF assms(1,3,4)] d(1) Cons by auto
      then have "pf_holds th view (xs @ [view w]) (ps @ [v]) qs1 h' ?f"
        by (rule pf_holds_heap) (use h'(2) d in auto)
      moreover have "heap_step (insert v (set (ps @ qs))) h (set ((ps @ [v]) @ qs1)) h'"
        using h'(2) Cons by (auto simp: heap_step_def)
      moreover have "AddAllocated v h f = Some (h', ?f)" using ne True lq h'(1) els(1) by (simp add: AddAllocated_def)
      ultimately show ?thesis using Cons by (intro exI [of _ qs1] exI [of _ h'] exI [of _ ?f]) simp
    next
      case False
      then have "int (length (ps @ qs)) < pf_total_size f" using z(2,3) by simp
      from store_cell_end [OF c(1) this, of q] obtain els where els: "store_cell (pf_elements f) (pf_allocated_size f) q = Some els"
        "rf_at (ps @ qs @ [q]) (as_field (f\<lparr>pf_elements := Some els, pf_allocated_size := pf_allocated_size f + 1\<rparr>))"
        using z(2) by auto
      let ?f1 = "f\<lparr>pf_elements := Some els, pf_allocated_size := pf_allocated_size f + 1\<rparr>"
      have c1: "pf_cells ps (qs @ [q]) ?f1" using els(2) z(1) by (simp add: pf_cells_def)
      obtain els1 where els1: "store_cell (pf_elements ?f1) (pf_current_size ?f1) v = Some els1"
        "rf_at ((ps @ qs @ [q])[length ps := v]) (as_field (?f1\<lparr>pf_elements := Some els1\<rparr>))"
        using store_cell_at [OF c1, of "pf_current_size ?f1" "length ps" v] z(1) by auto
      let ?f = "?f1\<lparr>pf_elements := Some els1, pf_current_size := pf_current_size ?f1 + 1\<rparr>"
      have "pf_cells (ps @ [v]) (qs1 @ [q]) ?f" using els1(2) z(1) Cons by (simp add: pf_cells_def as_field_def list_update_append)
      then have "pf_holds th view (xs @ [view w]) (ps @ [v]) (qs1 @ [q]) h ?f"
        using pf_holds_take [OF assms(1,3,4)] d Cons by auto
      moreover have "insert v (set (ps @ qs)) = set ((ps @ [v]) @ qs1 @ [q])" using Cons by auto
      moreover have "AddAllocated v h f = Some (h, ?f)" using ne False lq els(1) els1(1) by (simp add: AddAllocated_def)
      ultimately show ?thesis using Cons by (intro exI [of _ "qs1 @ [q]"] exI [of _ h] exI [of _ ?f]) simp
    qed
  qed
qed

lemma AddCleared_law:
  assumes "pf_holds th view xs ps qs h f" and "2 * (int (length (ps @ qs)) + 1) \<le> INT_MAX"
    and "load_object v h = Some w" and "view w = view (th_New th)" and "v \<notin> set (ps @ qs)"
  shows "\<exists>f'. AddCleared v f = Some f' \<and> pf_holds th view xs ps (qs @ [v]) h f'"
proof -
  have c: "pf_cells ps qs f" using assms(1) by (simp add: pf_holds_def)
  note z = pf_cells_sizes [OF c]
  let ?r = "if pf_allocated_size f = pf_total_size f then PtrField_Reserve (pf_total_size f + 1) f else Some f"
  have "\<exists>f1. ?r = Some f1 \<and> pf_cells ps qs f1 \<and> int (length (ps @ qs)) < pf_total_size f1"
  proof (cases "pf_allocated_size f = pf_total_size f")
    case True
    then show ?thesis using PtrField_Reserve_law [OF c, of "pf_total_size f + 1"] assms(2) z(2) by auto
  next
    case False
    then show ?thesis using c z(2,3) by auto
  qed
  then obtain f1 where f1: "?r = Some f1" "pf_cells ps qs f1" "int (length (ps @ qs)) < pf_total_size f1" by blast
  obtain els where els: "store_cell (pf_elements f1) (int (length (ps @ qs))) v = Some els"
    "rf_at (ps @ qs @ [v]) (as_field (f1\<lparr>pf_elements := Some els, pf_allocated_size := pf_allocated_size f1 + 1\<rparr>))"
    using store_cell_end [OF f1(2,3)] by blast
  let ?f = "f1\<lparr>pf_elements := Some els, pf_allocated_size := pf_allocated_size f1 + 1\<rparr>"
  have "AddCleared v f = Some ?f" using f1(1) els(1) pf_cells_sizes(2) [OF f1(2)] by (simp add: AddCleared_def)
  moreover have "pf_cells ps (qs @ [v]) ?f" using els(2) pf_cells_sizes(1) [OF f1(2)] by (simp add: pf_cells_def)
  ultimately show ?thesis using assms by (intro exI [of _ ?f]) (auto simp: pf_holds_def)
qed

subsection \<open>Clearing and merging\<close>

lemma clear_cells_law:
  "pf_cells (ps @ rs @ ps') qs f \<Longrightarrow> distinct rs \<Longrightarrow> \<forall>p \<in> set rs. load_object p h \<noteq> None \<Longrightarrow>
   \<exists>h'. clear_cells th (length rs) (int (length ps)) (pf_elements f) h = Some h' \<and>
     (\<forall>q. load_object q h' = (if q \<in> set rs then map_option (th_Clear th) (load_object q h) else load_object q h))"
proof (induction rs arbitrary: ps h)
  case (Cons p rs)
  obtain v where "load_object p h = Some v" using Cons.prems(3) by auto
  then obtain h1 where h1: "update_object (th_Clear th) p h = Some h1"
    "\<forall>q. load_object q h1 = (if q = p then map_option (th_Clear th) (load_object p h) else load_object q h)"
    using update_object_law [of p h v "th_Clear th"] by auto
  have cell: "load_cell (pf_elements f) (int (length ps)) = Some p" using load_cell_at [OF Cons.prems(1) refl, of "length ps"] by simp
  have "pf_cells ((ps @ [p]) @ rs @ ps') qs f" using Cons.prems(1) by simp
  moreover have "\<forall>q \<in> set rs. load_object q h1 \<noteq> None" using Cons.prems(2,3) h1(2) by auto
  ultimately obtain h' where "clear_cells th (length rs) (int (length (ps @ [p]))) (pf_elements f) h1 = Some h'"
    "\<forall>q. load_object q h' = (if q \<in> set rs then map_option (th_Clear th) (load_object q h1) else load_object q h1)"
    using Cons.IH [of "ps @ [p]" h1] Cons.prems(2) by auto
  then show ?case using h1 cell Cons.prems(2) by (intro exI [of _ h']) (auto simp: add.commute)
qed simp

context element_type
begin

lemma PtrField_RemoveLast_law:
  assumes "pf_holds th view xs ps qs h f" and "xs \<noteq> []"
  shows "\<exists>ps' qs' h' f'. PtrField_RemoveLast th h f = Some (h', f') \<and> pf_holds th view (butlast xs) ps' qs' h' f' \<and>
    heap_step (set (ps @ qs)) h (set (ps' @ qs')) h' \<and> length (ps' @ qs') \<le> length (ps @ qs)"
proof -
  obtain ys y ps0 p v where s: "xs = ys @ [y]" "ps = ps0 @ [p]" "load_object p h = Some v" "view v = y"
    "load_cell (pf_elements f) (pf_current_size f - 1) = Some p" "pf_current_size f = int (length ps0) + 1"
    using pf_holds_snoc [OF assms] .
  obtain h' where h': "update_object (th_Clear th) p h = Some h'" "\<forall>q. load_object q h' = (if q = p then Some (th_Clear th v) else load_object q h)"
    using update_object_law [OF s(3)] by blast
  let ?f = "f\<lparr>pf_current_size := pf_current_size f - 1\<rparr>"
  have "pf_cells ps0 (p # qs) ?f" by (rule pf_cells_border [of ps qs]) (use assms(1) s(2,6) in \<open>simp_all add: pf_holds_def\<close>)
  moreover have d: "distinct (ps0 @ [p] @ qs)" "map (\<lambda>p. map_option view (load_object p h)) ps0 = map Some ys"
    "\<forall>q \<in> set qs. map_option view (load_object q h) = Some (view (th_New th))"
    using assms(1) s(1,2) by (auto simp: pf_holds_def)
  moreover have "map (\<lambda>p. map_option view (load_object p h')) ps0 = map (\<lambda>p. map_option view (load_object p h)) ps0"
    using d(1) h'(2) by (intro map_cong) auto
  ultimately have "pf_holds th view ys ps0 (p # qs) h' ?f" using h'(2) clear_law by (auto simp: pf_holds_def)
  moreover have "heap_step (set (ps @ qs)) h (set (ps0 @ p # qs)) h'" using h'(2) s(2) by (auto simp: heap_step_def)
  ultimately show ?thesis
    using s h'(1) by (intro exI [of _ ps0] exI [of _ "p # qs"] exI [of _ h'] exI [of _ ?f]) (simp add: PtrField_RemoveLast_def)
qed

lemma PtrField_Clear_law:
  assumes "pf_holds th view xs ps qs h f"
  shows "\<exists>qs' h' f'. PtrField_Clear th h f = Some (h', f') \<and> pf_holds th view [] [] qs' h' f' \<and>
    heap_step (set (ps @ qs)) h (set qs') h' \<and> length qs' \<le> length (ps @ qs)"
proof -
  have c: "pf_cells ([] @ ps @ []) qs f" "distinct ps" "distinct (ps @ qs)" using assms by (simp_all add: pf_holds_def)
  obtain h' where h': "clear_cells th (length ps) 0 (pf_elements f) h = Some h'"
    "\<forall>q. load_object q h' = (if q \<in> set ps then map_option (th_Clear th) (load_object q h) else load_object q h)"
    using clear_cells_law [OF c(1,2), of h th] pf_holds_live [OF assms] by auto
  let ?f = "f\<lparr>pf_current_size := 0\<rparr>"
  have "pf_cells [] (ps @ qs) ?f" by (rule pf_cells_border [of ps qs]) (use c(1) in simp_all)
  moreover have "map_option view (load_object q h') = Some (view (th_New th))" if "q \<in> set (ps @ qs)" for q
    using that h'(2) clear_law assms pf_holds_live [OF assms that] by (cases "q \<in> set ps") (auto simp: pf_holds_def)
  ultimately have "pf_holds th view [] [] (ps @ qs) h' ?f" using c(3) by (simp add: pf_holds_def)
  moreover have "heap_step (set (ps @ qs)) h (set (ps @ qs)) h'" using h'(2) by (auto simp: heap_step_def)
  ultimately show ?thesis
    using h'(1) pf_cells_sizes(1) [of ps qs f] c(1) by (intro exI [of _ "ps @ qs"] exI [of _ h'] exI [of _ ?f]) (simp add: PtrField_Clear_def)
qed

lemma merge_cells_law:
  "pf_holds th view xs ps qs h f \<Longrightarrow> pf_holds th view ys rs ss h other \<Longrightarrow> set (rs @ ss) \<inter> set (ps @ qs) = {} \<Longrightarrow>
   i + k = length ys \<Longrightarrow> 2 * int (length (ps @ qs) + k) \<le> INT_MAX \<Longrightarrow>
   \<exists>ps' qs' h' f'. merge_cells th k (int i) other h f = Some (h', f') \<and> pf_holds th view (xs @ drop i ys) ps' qs' h' f' \<and>
     heap_step (set (ps @ qs)) h (set (ps' @ qs')) h' \<and> length (ps' @ qs') \<le> length (ps @ qs) + k"
proof (induction k arbitrary: i xs ps qs h f)
  case 0
  then show ?case by (intro exI [of _ ps] exI [of _ qs] exI [of _ h] exI [of _ f]) simp
next
  case (Suc k)
  obtain v where v: "PtrField_Get (int i) h other = Some v" "view v = ys ! i"
    using PtrField_Get_law [OF Suc.prems(2), of i] Suc.prems(4) by auto
  obtain p qs1 h1 f1 where a: "PtrField_Add th h f = Some (p, h1, f1)" "pf_holds th view (xs @ [view (th_New th)]) (ps @ [p]) qs1 h1 f1"
    "heap_step (set (ps @ qs)) h (set ((ps @ [p]) @ qs1)) h1" "length (ps @ [p]) + length qs1 \<le> length (ps @ qs) + 1"
    using PtrField_Add_law [OF Suc.prems(1)] Suc.prems(5) by auto
  have "map_option view (load_object p h1) = Some (view (th_New th))" using a(2) pf_holds_length [OF a(2)] by (auto simp: pf_holds_def)
  then obtain w where w: "load_object p h1 = Some w" "view w = view (th_New th)" by auto
  note l = pf_holds_length [OF Suc.prems(1)]
  obtain h2 where h2: "update_object (th_Merge th v) p h1 = Some h2" "pf_holds th view (xs @ [ys ! i]) (ps @ [p]) qs1 h2 f1"
    "heap_step (set ((ps @ [p]) @ qs1)) h1 (set ((ps @ [p]) @ qs1)) h2"
    using pf_holds_update [OF a(2), of "length ps" w "th_Merge th v"] w merge_law [OF w(2), of v] v(2) l
    by (auto simp: nth_append list_update_append)
  note step = heap_step_trans [OF a(3) h2(3)]
  note o = pf_holds_frame [OF Suc.prems(2) step Suc.prems(3)]
  have "(i + 1) + k = length ys" "2 * int (length ((ps @ [p]) @ qs1) + k) \<le> INT_MAX" using Suc.prems(4,5) a(4) by simp_all
  from Suc.IH [OF h2(2) o(1,2) this] obtain ps' qs' h' f' where
    r: "merge_cells th k (int (i + 1)) other h2 f1 = Some (h', f')" "pf_holds th view ((xs @ [ys ! i]) @ drop (i + 1) ys) ps' qs' h' f'"
      "heap_step (set ((ps @ [p]) @ qs1)) h2 (set (ps' @ qs')) h'" "length (ps' @ qs') \<le> length ((ps @ [p]) @ qs1) + k" by blast
  have "drop i ys = ys ! i # drop (i + 1) ys" using Suc.prems(4) by (simp add: Cons_nth_drop_Suc)
  then show ?case
    using v(1) a(1,4) h2(1) r heap_step_trans [OF step r(3)]
    by (intro exI [of _ ps'] exI [of _ qs'] exI [of _ h'] exI [of _ f']) (simp add: add.commute)
qed

lemma PtrField_MergeFrom_law:
  assumes "pf_holds th view xs ps qs h f" and "pf_holds th view ys rs ss h other" and "set (rs @ ss) \<inter> set (ps @ qs) = {}"
    and "2 * int (length (ps @ qs) + length ys) \<le> INT_MAX"
  shows "\<exists>ps' qs' h' f'. PtrField_MergeFrom th other h f = Some (h', f') \<and> pf_holds th view (xs @ ys) ps' qs' h' f' \<and>
    heap_step (set (ps @ qs)) h (set (ps' @ qs')) h' \<and> length (ps' @ qs') \<le> length (ps @ qs) + length ys"
proof -
  have s: "pf_current_size f = int (length ps)" "pf_current_size other = int (length ys)"
    using assms(1,2) pf_holds_length [OF assms(2)] by (auto simp: pf_holds_def pf_cells_def)
  then have "2 * (pf_current_size f + pf_current_size other) \<le> INT_MAX" using assms(4) by simp
  then obtain f1 where f1: "PtrField_Reserve (pf_current_size f + pf_current_size other) f = Some f1" "pf_holds th view xs ps qs h f1"
    using PtrField_Reserve_holds [OF assms(1)] by blast
  show ?thesis
    using merge_cells_law [OF f1(2) assms(2,3), of 0 "length ys"] assms(4) f1(1) s(2) by (simp add: PtrField_MergeFrom_def)
qed

lemma PtrField_CopyFrom_law:
  assumes "pf_holds th view xs ps qs h f" and "pf_holds th view ys rs ss h other" and "set (rs @ ss) \<inter> set (ps @ qs) = {}"
    and "2 * int (length (ps @ qs) + length ys) \<le> INT_MAX"
  shows "\<exists>ps' qs' h' f'. PtrField_CopyFrom th other h f = Some (h', f') \<and> pf_holds th view ys ps' qs' h' f' \<and>
    heap_step (set (ps @ qs)) h (set (ps' @ qs')) h' \<and> length (ps' @ qs') \<le> length (ps @ qs) + length ys"
proof -
  obtain qs1 h1 f1 where c: "PtrField_Clear th h f = Some (h1, f1)" "pf_holds th view [] [] qs1 h1 f1"
    "heap_step (set (ps @ qs)) h (set ([] @ qs1)) h1" "length qs1 \<le> length (ps @ qs)"
    using PtrField_Clear_law [OF assms(1)] by auto
  note o = pf_holds_frame [OF assms(2) c(3) assms(3)]
  have "2 * int (length ([] @ qs1) + length ys) \<le> INT_MAX" using assms(4) c(4) by simp
  from PtrField_MergeFrom_law [OF c(2) o this] show ?thesis
    using c(1,4) heap_step_trans [OF c(3)] by (fastforce simp: PtrField_CopyFrom_def)
qed

end

section \<open>Sequences of operations\<close>

text \<open>What a client does with a field, its part of the memory management included.\<close>

datatype 'e ptr_op =
    Ptr_Add 'e | Ptr_AddFromCleared 'e | Ptr_Set nat 'e | Ptr_RemoveLast | Ptr_Clear | Ptr_Delete nat nat | Ptr_SwapElements nat nat
  | Ptr_AddAllocated 'e | Ptr_ReleaseLast | Ptr_AddCleared | Ptr_ReleaseCleared | Ptr_Reserve int | Ptr_Merge "'e list" | Ptr_Copy "'e list"

definition add_value :: "'e type_handler \<Rightarrow> 'e \<Rightarrow> 'e objects \<times> ptr_field \<Rightarrow> ('e objects \<times> ptr_field) option" where
  "add_value th v s = do {
     (p, h, f) \<leftarrow> PtrField_Add th (fst s) (snd s);
     h \<leftarrow> update_object (\<lambda>_. v) p h;
     Some (h, f) }"

fun ptr_adds :: "'e type_handler \<Rightarrow> 'e list \<Rightarrow> 'e objects \<times> ptr_field \<Rightarrow> ('e objects \<times> ptr_field) option" where
  "ptr_adds th [] s = Some s"
| "ptr_adds th (v # vs) s = do { s \<leftarrow> add_value th v s; ptr_adds th vs s }"

fun ptr_step :: "'e type_handler \<Rightarrow> 'e ptr_op \<Rightarrow> 'e objects \<times> ptr_field \<Rightarrow> ('e objects \<times> ptr_field) option" where
  "ptr_step th (Ptr_Add v) s = add_value th v s"
| "ptr_step th (Ptr_AddFromCleared v) (h, f) = do {
     (r, f) \<leftarrow> AddFromCleared f;
     (case r of
        None \<Rightarrow> add_value th v (h, f)
      | Some p \<Rightarrow> do { h \<leftarrow> update_object (\<lambda>_. v) p h; Some (h, f) }) }"
| "ptr_step th (Ptr_Set i v) (h, f) = do {
     p \<leftarrow> PtrField_Mutable (int i) f;
     h \<leftarrow> update_object (\<lambda>_. v) p h;
     Some (h, f) }"
| "ptr_step th Ptr_RemoveLast (h, f) = PtrField_RemoveLast th h f"
| "ptr_step th Ptr_Clear (h, f) = PtrField_Clear th h f"
| "ptr_step th (Ptr_Delete start num) (h, f) = PtrField_DeleteSubrange (int start) (int num) h f"
| "ptr_step th (Ptr_SwapElements i j) (h, f) = do { f \<leftarrow> PtrField_SwapElements (int i) (int j) f; Some (h, f) }"
| "ptr_step th (Ptr_AddAllocated v) (h, f) = (let (p, h) = new_object v h in AddAllocated p h f)"
| "ptr_step th Ptr_ReleaseLast (h, f) = do {
     (p, f) \<leftarrow> ReleaseLast f;
     h \<leftarrow> delete_object p h;
     Some (h, f) }"
| "ptr_step th Ptr_AddCleared (h, f) = (let (p, h) = new_object (th_New th) h in do { f \<leftarrow> AddCleared p f; Some (h, f) })"
| "ptr_step th Ptr_ReleaseCleared (h, f) =
     (if ClearedCount f > 0 then do {
        (p, f) \<leftarrow> ReleaseCleared f;
        h \<leftarrow> delete_object p h;
        Some (h, f) }
      else Some (h, f))"
| "ptr_step th (Ptr_Reserve n) (h, f) = do { f \<leftarrow> PtrField_Reserve n f; Some (h, f) }"
| "ptr_step th (Ptr_Merge vs) (h, f) = do {
     (h, other) \<leftarrow> ptr_adds th vs (h, PtrField_new);
     (h, f) \<leftarrow> PtrField_MergeFrom th other h f;
     h \<leftarrow> PtrField_Destroy other h;
     Some (h, f) }"
| "ptr_step th (Ptr_Copy vs) (h, f) = do {
     (h, other) \<leftarrow> ptr_adds th vs (h, PtrField_new);
     (h, f) \<leftarrow> PtrField_CopyFrom th other h f;
     h \<leftarrow> PtrField_Destroy other h;
     Some (h, f) }"

fun ptr_steps :: "'e type_handler \<Rightarrow> 'e ptr_op list \<Rightarrow> 'e objects \<times> ptr_field \<Rightarrow> ('e objects \<times> ptr_field) option" where
  "ptr_steps th [] s = Some s"
| "ptr_steps th (x # ops) s = do { s \<leftarrow> ptr_step th x s; ptr_steps th ops s }"

text \<open>The same on the list of what is visible of the elements; \<open>None\<close> when the client breaks a precondition.\<close>

fun view_step :: "('e \<Rightarrow> 'v) \<Rightarrow> 'e ptr_op \<Rightarrow> 'v list \<Rightarrow> 'v list option" where
  "view_step view (Ptr_Add v) xs = Some (xs @ [view v])"
| "view_step view (Ptr_AddFromCleared v) xs = Some (xs @ [view v])"
| "view_step view (Ptr_Set i v) xs = (if i < length xs then Some (xs[i := view v]) else None)"
| "view_step view Ptr_RemoveLast xs = (if xs = [] then None else Some (butlast xs))"
| "view_step view Ptr_Clear xs = Some []"
| "view_step view (Ptr_Delete start num) xs =
     (if start + num \<le> length xs then Some (take start xs @ drop (start + num) xs) else None)"
| "view_step view (Ptr_SwapElements i j) xs =
     (if i < length xs \<and> j < length xs then Some (xs[i := xs ! j, j := xs ! i]) else None)"
| "view_step view (Ptr_AddAllocated v) xs = Some (xs @ [view v])"
| "view_step view Ptr_ReleaseLast xs = (if xs = [] then None else Some (butlast xs))"
| "view_step view Ptr_AddCleared xs = Some xs"
| "view_step view Ptr_ReleaseCleared xs = Some xs"
| "view_step view (Ptr_Reserve n) xs = (if 2 * n \<le> INT_MAX then Some xs else None)"
| "view_step view (Ptr_Merge vs) xs = Some (xs @ map view vs)"
| "view_step view (Ptr_Copy vs) xs = Some (map view vs)"

fun view_steps :: "('e \<Rightarrow> 'v) \<Rightarrow> 'e ptr_op list \<Rightarrow> 'v list \<Rightarrow> 'v list option" where
  "view_steps view [] xs = Some xs"
| "view_steps view (x # ops) xs = do { xs \<leftarrow> view_step view x xs; view_steps view ops xs }"

text \<open>How many objects an operation may add to the array.\<close>

fun op_objects :: "'e ptr_op \<Rightarrow> nat" where
  "op_objects (Ptr_Add v) = 1"
| "op_objects (Ptr_AddFromCleared v) = 1"
| "op_objects (Ptr_AddAllocated v) = 1"
| "op_objects Ptr_AddCleared = 1"
| "op_objects (Ptr_Merge vs) = length vs"
| "op_objects (Ptr_Copy vs) = length vs"
| "op_objects _ = 0"

text \<open>Objects that are only there during an operation.\<close>

lemma heap_step_temporary:
  assumes "heap_step {} h B h1" and "heap_step A h1 A' h2" and "heap_step B h2 {} h3" and "A \<inter> B = {}" and "A' \<inter> B = {}"
  shows "heap_step A h A' h3"
proof -
  have b: "load_object p h = None" "load_object p h3 = None" if "p \<in> B" for p using assms(1,3) that by (auto simp: heap_step_def)
  have nb: "load_object p h1 = load_object p h" "load_object p h3 = load_object p h2" if "p \<notin> B" for p
    using assms(1,3) that by (auto simp: heap_step_def)
  show ?thesis
    unfolding heap_step_def
  proof (intro conjI ballI allI impI)
    fix p
    show "load_object p h3 = load_object p h" if "p \<notin> A \<union> A'" using assms(2) that b nb by (cases "p \<in> B") (auto simp: heap_step_def)
    show "load_object p h = None" if "p \<in> A' - A" using assms(2,5) that nb [of p] by (cases "p \<in> B") (auto simp: heap_step_def)
    show "load_object p h3 = None" if "p \<in> A - A'" using assms(2,4) that nb [of p] by (cases "p \<in> B") (auto simp: heap_step_def)
  qed
qed

context element_type
begin

text \<open>The result of an operation that may add \<open>n\<close> objects.\<close>

definition field_result :: "'v list \<Rightarrow> nat list \<Rightarrow> nat list \<Rightarrow> 'e objects \<Rightarrow> nat \<Rightarrow> ('e objects \<times> ptr_field) option \<Rightarrow> bool" where
  "field_result ys ps qs h n r \<longleftrightarrow> (\<exists>ps' qs' h' f'. r = Some (h', f') \<and> pf_holds th view ys ps' qs' h' f' \<and>
     heap_step (set (ps @ qs)) h (set (ps' @ qs')) h' \<and> length (ps' @ qs') \<le> length (ps @ qs) + n)"

lemma field_resultI:
  "r = Some (h', f') \<Longrightarrow> pf_holds th view ys ps' qs' h' f' \<Longrightarrow> heap_step (set (ps @ qs)) h (set (ps' @ qs')) h' \<Longrightarrow>
   length (ps' @ qs') \<le> length (ps @ qs) + n \<Longrightarrow> field_result ys ps qs h n r"
  by (auto simp: field_result_def)

lemma add_value_law:
  assumes "pf_holds th view xs ps qs h f" and "2 * (int (length (ps @ qs)) + 1) \<le> INT_MAX"
  shows "field_result (xs @ [view v]) ps qs h 1 (add_value th v (h, f))"
proof -
  obtain p qs1 h1 f1 where a: "PtrField_Add th h f = Some (p, h1, f1)" "pf_holds th view (xs @ [view (th_New th)]) (ps @ [p]) qs1 h1 f1"
    "heap_step (set (ps @ qs)) h (set ((ps @ [p]) @ qs1)) h1" "length (ps @ [p]) + length qs1 \<le> length (ps @ qs) + 1"
    using PtrField_Add_law [OF assms] by blast
  obtain w where "load_object p h1 = Some w" using pf_holds_live [OF a(2), of p] by auto
  then obtain h2 where "update_object (\<lambda>_. v) p h1 = Some h2" "pf_holds th view (xs @ [view v]) (ps @ [p]) qs1 h2 f1"
    "heap_step (set ((ps @ [p]) @ qs1)) h1 (set ((ps @ [p]) @ qs1)) h2"
    using pf_holds_update [OF a(2), of "length ps" w "\<lambda>_. v"] pf_holds_length [OF assms(1)] by (auto simp: list_update_append)
  then show ?thesis
    using a(1,4) heap_step_trans [OF a(3)] by (intro field_resultI [of _ h2 f1 _ "ps @ [p]" qs1]) (simp_all add: add_value_def)
qed

lemma ptr_adds_law:
  "pf_holds th view xs ps qs h f \<Longrightarrow> 2 * int (length (ps @ qs) + length vs) \<le> INT_MAX \<Longrightarrow>
   field_result (xs @ map view vs) ps qs h (length vs) (ptr_adds th vs (h, f))"
proof (induction vs arbitrary: xs ps qs h f)
  case Nil
  then show ?case by (intro field_resultI [of _ h f _ ps qs]) simp_all
next
  case (Cons v vs)
  have "2 * (int (length (ps @ qs)) + 1) \<le> INT_MAX" using Cons.prems(2) by simp
  from add_value_law [OF Cons.prems(1) this, of v] obtain ps1 qs1 h1 f1 where
    a: "add_value th v (h, f) = Some (h1, f1)" "pf_holds th view (xs @ [view v]) ps1 qs1 h1 f1"
      "heap_step (set (ps @ qs)) h (set (ps1 @ qs1)) h1" "length (ps1 @ qs1) \<le> length (ps @ qs) + 1"
    by (auto simp: field_result_def)
  have "2 * int (length (ps1 @ qs1) + length vs) \<le> INT_MAX" using Cons.prems(2) a(4) by simp
  from Cons.IH [OF a(2) this] obtain ps2 qs2 h2 f2 where
    "ptr_adds th vs (h1, f1) = Some (h2, f2)" "pf_holds th view ((xs @ [view v]) @ map view vs) ps2 qs2 h2 f2"
      "heap_step (set (ps1 @ qs1)) h1 (set (ps2 @ qs2)) h2" "length (ps2 @ qs2) \<le> length (ps1 @ qs1) + length vs"
    by (auto simp: field_result_def)
  then show ?case
    using a(1,4) heap_step_trans [OF a(3)] by (intro field_resultI [of _ h2 f2 _ ps2 qs2]) simp_all
qed

text \<open>An operation that takes its values from another field, which is destroyed afterwards.\<close>

lemma other_field_law:
  assumes "pf_holds th view xs ps qs h f" and "2 * int (length (ps @ qs) + length vs) \<le> INT_MAX"
    and "\<And>rs ss h other. pf_holds th view xs ps qs h f \<Longrightarrow> pf_holds th view (map view vs) rs ss h other \<Longrightarrow>
      set (rs @ ss) \<inter> set (ps @ qs) = {} \<Longrightarrow> field_result ys ps qs h (length vs) (use_other other h f)"
  shows "field_result ys ps qs h (length vs)
    (do { (h, other) \<leftarrow> ptr_adds th vs (h, PtrField_new); (h, f) \<leftarrow> use_other other h f; h \<leftarrow> PtrField_Destroy other h; Some (h, f) })"
proof -
  have "2 * int (length ([] @ [] :: nat list) + length vs) \<le> INT_MAX" using assms(2) by simp
  from ptr_adds_law [OF pf_holds_new [where h = h] this] obtain rs ss h1 other where
    o: "ptr_adds th vs (h, PtrField_new) = Some (h1, other)" "pf_holds th view (map view vs) rs ss h1 other"
      "heap_step {} h (set (rs @ ss)) h1" by (auto simp: field_result_def)
  note f1 = pf_holds_frame [OF assms(1) o(3)]
  have f1': "pf_holds th view xs ps qs h1 f" "set (ps @ qs) \<inter> set (rs @ ss) = {}" by (rule f1, simp)+
  then have d: "set (rs @ ss) \<inter> set (ps @ qs) = {}" by blast
  obtain ps' qs' h2 f2 where u: "use_other other h1 f = Some (h2, f2)" "pf_holds th view ys ps' qs' h2 f2"
    "heap_step (set (ps @ qs)) h1 (set (ps' @ qs')) h2" "length (ps' @ qs') \<le> length (ps @ qs) + length vs"
    using assms(3) [OF f1'(1) o(2) d] by (auto simp: field_result_def)
  note o2 = pf_holds_frame [OF o(2) u(3) d]
  obtain h3 where h3: "PtrField_Destroy other h2 = Some h3" "heap_step (set (rs @ ss)) h2 {} h3"
    using PtrField_Destroy_law [OF o2(1)] by blast
  have d': "set (ps' @ qs') \<inter> set (rs @ ss) = {}" using o2(2) by blast
  have "pf_holds th view ys ps' qs' h3 f2" by (rule pf_holds_frame(1) [OF u(2) h3(2) d'])
  moreover have "heap_step (set (ps @ qs)) h (set (ps' @ qs')) h3" by (rule heap_step_temporary [OF o(3) u(3) h3(2) f1'(2) d'])
  ultimately show ?thesis using o(1) u(1,4) h3(1) by (intro field_resultI [of _ h3 f2 _ ps' qs']) simp_all
qed

end

lemma delete_released:
  assumes "pf_holds th view xs ps qs h f" and "load_object p h \<noteq> None" and "p \<notin> set (ps @ qs)"
  shows "\<exists>h'. delete_object p h = Some h' \<and> pf_holds th view xs ps qs h' f \<and> heap_step (insert p (set (ps @ qs))) h (set (ps @ qs)) h'"
proof -
  obtain h' where h': "delete_object p h = Some h'" "\<forall>q. load_object q h' = (if q = p then None else load_object q h)"
    using delete_object_law [OF assms(2)] by blast
  have "pf_holds th view xs ps qs h' f" by (rule pf_holds_heap [OF assms(1)]) (use h'(2) assms(3) in auto)
  moreover have "heap_step (insert p (set (ps @ qs))) h (set (ps @ qs)) h'" using h'(2) assms(3) by (auto simp: heap_step_def)
  ultimately show ?thesis using h'(1) by blast
qed

lemma new_beside:
  assumes "pf_holds th view xs ps qs h f" and "new_object v h = (p, h')"
  shows "pf_holds th view xs ps qs h' f" and "load_object p h' = Some v" and "p \<notin> set (ps @ qs)"
    and "heap_step (set (ps @ qs)) h (insert p (set (ps @ qs))) h'"
proof -
  have fresh: "p \<notin> set (ps @ qs)" using pf_holds_live [OF assms(1)] new_object_fresh [OF assms(2)] by blast
  then show "p \<notin> set (ps @ qs)" .
  show "pf_holds th view xs ps qs h' f" by (rule pf_holds_heap [OF assms(1)]) (use load_new_object [OF assms(2)] fresh in auto)
  show "load_object p h' = Some v" using load_new_object [OF assms(2), of p] by simp
  show "heap_step (set (ps @ qs)) h (insert p (set (ps @ qs))) h'" using new_object_step [OF assms(2)] .
qed

context element_type
begin

lemma same_heap: "pf_holds th view ys ps' qs' h f' \<Longrightarrow> set (ps' @ qs') = set (ps @ qs) \<Longrightarrow> length (ps' @ qs') \<le> length (ps @ qs) + n \<Longrightarrow>
  field_result ys ps qs h n (Some (h, f'))"
  by (intro field_resultI [of _ h f' _ ps' qs']) simp_all

lemma step_AddFromCleared:
  assumes "pf_holds th view xs ps qs h f" and "2 * (int (length (ps @ qs)) + 1) \<le> INT_MAX"
  shows "field_result (xs @ [view v]) ps qs h 1 (ptr_step th (Ptr_AddFromCleared v) (h, f))"
proof (cases qs)
  case Nil
  then show ?thesis using AddFromCleared_law [OF assms(1)] add_value_law [OF assms, of v] by simp
next
  case (Cons q qs')
  obtain f' where f': "AddFromCleared f = Some (Some q, f')" "pf_holds th view (xs @ [view (th_New th)]) (ps @ [q]) qs' h f'"
    using AddFromCleared_law [OF assms(1)] Cons by auto
  obtain w where "load_object q h = Some w" using pf_holds_live [OF assms(1), of q] Cons by auto
  then obtain h' where "update_object (\<lambda>_. v) q h = Some h'" "pf_holds th view (xs @ [view v]) (ps @ [q]) qs' h' f'"
    "heap_step (set ((ps @ [q]) @ qs')) h (set ((ps @ [q]) @ qs')) h'"
    using pf_holds_update [OF f'(2), of "length ps" w "\<lambda>_. v"] pf_holds_length [OF assms(1)] by (auto simp: list_update_append)
  then show ?thesis using f'(1) Cons by (intro field_resultI [of _ h' f' _ "ps @ [q]" qs']) simp_all
qed

lemma step_Set:
  assumes "pf_holds th view xs ps qs h f" and "i < length xs"
  shows "field_result (xs[i := view v]) ps qs h 0 (ptr_step th (Ptr_Set i v) (h, f))"
proof -
  note l = pf_holds_length [OF assms(1)]
  obtain w where "load_object (ps ! i) h = Some w" using pf_holds_live [OF assms(1), of "ps ! i"] assms(2) l by auto
  then obtain h' where "update_object (\<lambda>_. v) (ps ! i) h = Some h'" "pf_holds th view (xs[i := view v]) ps qs h' f"
    "heap_step (set (ps @ qs)) h (set (ps @ qs)) h'"
    using pf_holds_update [OF assms(1), of i w "\<lambda>_. v"] assms(2) l by auto
  moreover have "PtrField_Mutable (int i) f = Some (ps ! i)"
    using load_cell_at [of ps qs f "int i" i] assms l by (simp add: PtrField_Mutable_def pf_holds_def nth_append)
  ultimately show ?thesis by (intro field_resultI [of _ h' f _ ps qs]) simp_all
qed

lemma step_AddAllocated:
  assumes "pf_holds th view xs ps qs h f" and "2 * (int (length (ps @ qs)) + 1) \<le> INT_MAX"
  shows "field_result (xs @ [view v]) ps qs h 1 (ptr_step th (Ptr_AddAllocated v) (h, f))"
proof -
  obtain p h1 where n: "new_object v h = (p, h1)" by (cases "new_object v h")
  note b = new_beside [OF assms(1) n]
  obtain qs' h' f' where "AddAllocated p h1 f = Some (h', f')" "pf_holds th view (xs @ [view v]) (ps @ [p]) qs' h' f'"
    "heap_step (insert p (set (ps @ qs))) h1 (set ((ps @ [p]) @ qs')) h'" "length (ps @ [p]) + length qs' \<le> length (ps @ qs) + 1"
    using AddAllocated_law [OF b(1) assms(2) b(2,3)] by blast
  then show ?thesis using n heap_step_trans [OF b(4)] by (intro field_resultI [of _ h' f' _ "ps @ [p]" qs']) simp_all
qed

lemma step_ReleaseLast:
  assumes "pf_holds th view xs ps qs h f" and "xs \<noteq> []"
  shows "field_result (butlast xs) ps qs h 0 (ptr_step th Ptr_ReleaseLast (h, f))"
proof -
  obtain p qs' f' v where r: "ReleaseLast f = Some (p, f')" "load_object p h = Some v" "p \<in> set ps"
    "set (butlast ps @ qs') = set (ps @ qs) - {p}" "pf_holds th view (butlast xs) (butlast ps) qs' h f'"
    using ReleaseLast_law [OF assms] by blast
  obtain h' where h': "delete_object p h = Some h'" "pf_holds th view (butlast xs) (butlast ps) qs' h' f'"
    "heap_step (insert p (set (butlast ps @ qs'))) h (set (butlast ps @ qs')) h'"
    using delete_released [OF r(5), of p] r(2,4) by auto
  have i: "insert p (set (butlast ps @ qs')) = set (ps @ qs)" using r(3,4) by auto
  have "distinct (butlast ps @ qs')" "distinct (ps @ qs)" using r(5) assms(1) by (simp_all add: pf_holds_def)
  then have "length (butlast ps @ qs') \<le> length (ps @ qs)"
    using r(4) card_mono [of "set (ps @ qs)" "set (butlast ps @ qs')"] by (metis Diff_subset List.finite_set distinct_card)
  then show ?thesis using r(1) h' unfolding i by (intro field_resultI [of _ h' f' _ "butlast ps" qs']) simp_all
qed

lemma step_AddCleared:
  assumes "pf_holds th view xs ps qs h f" and "2 * (int (length (ps @ qs)) + 1) \<le> INT_MAX"
  shows "field_result xs ps qs h 1 (ptr_step th Ptr_AddCleared (h, f))"
proof -
  obtain p h1 where n: "new_object (th_New th) h = (p, h1)" by (cases "new_object (th_New th) h")
  note b = new_beside [OF assms(1) n]
  obtain f' where "AddCleared p f = Some f'" "pf_holds th view xs ps (qs @ [p]) h1 f'"
    using AddCleared_law [OF b(1) assms(2) b(2) refl b(3)] by blast
  then show ?thesis using n b(4) by (intro field_resultI [of _ h1 f' _ ps "qs @ [p]"]) (simp_all add: Un_commute)
qed

lemma step_ReleaseCleared:
  assumes "pf_holds th view xs ps qs h f"
  shows "field_result xs ps qs h 0 (ptr_step th Ptr_ReleaseCleared (h, f))"
proof -
  have c: "ClearedCount f = int (length qs)"
    using assms pf_cells_sizes(1,2) [of ps qs f] by (simp add: ClearedCount_def pf_holds_def)
  show ?thesis
  proof (cases qs rule: rev_cases)
    case Nil
    then show ?thesis using c same_heap [OF assms refl] by simp
  next
    case (snoc qs0 q)
    obtain f' where f': "ReleaseCleared f = Some (q, f')" "pf_holds th view xs ps qs0 h f'"
      using ReleaseCleared_law [OF assms [unfolded snoc]] by blast
    have "q \<notin> set (ps @ qs0)" "load_object q h \<noteq> None"
      using assms snoc pf_holds_live [OF assms, of q] by (auto simp: pf_holds_def)
    then obtain h' where "delete_object q h = Some h'" "pf_holds th view xs ps qs0 h' f'"
      "heap_step (insert q (set (ps @ qs0))) h (set (ps @ qs0)) h'"
      using delete_released [OF f'(2), of q] by blast
    then show ?thesis using c f'(1) snoc by (intro field_resultI [of _ h' f' _ ps qs0]) simp_all
  qed
qed

lemma ptr_step_law:
  assumes "pf_holds th view xs ps qs h f" and "view_step view x xs = Some ys"
    and "2 * int (length (ps @ qs) + op_objects x) \<le> INT_MAX"
  shows "field_result ys ps qs h (op_objects x) (ptr_step th x (h, f))"
proof (cases x)
  case (Ptr_Add v)
  then show ?thesis using assms add_value_law [OF assms(1), of v] by simp
next
  case (Ptr_AddFromCleared v)
  then show ?thesis using assms step_AddFromCleared [OF assms(1), of v] by simp
next
  case (Ptr_Set i v)
  then show ?thesis using assms(2) step_Set [OF assms(1), of i v] by (simp split: if_splits)
next
  case Ptr_RemoveLast
  then show ?thesis
    using assms(2) PtrField_RemoveLast_law [OF assms(1)] by (simp add: field_result_def split: if_splits)
next
  case Ptr_Clear
  obtain qs' h' f' where "PtrField_Clear th h f = Some (h', f')" "pf_holds th view [] [] qs' h' f'"
    "heap_step (set (ps @ qs)) h (set qs') h'" "length qs' \<le> length (ps @ qs)" using PtrField_Clear_law [OF assms(1)] by blast
  then show ?thesis using Ptr_Clear assms(2) by (intro field_resultI [of _ h' f' _ "[]" qs']) simp_all
next
  case (Ptr_Delete start num)
  then have le: "start + num \<le> length xs" and ys: "ys = take start xs @ drop (start + num) xs" using assms(2) by (simp_all split: if_splits)
  then show ?thesis
    using Ptr_Delete PtrField_DeleteSubrange_law [OF assms(1) le] unfolding field_result_def by fastforce
next
  case (Ptr_SwapElements i j)
  then have l: "i < length xs" "j < length xs" and ys: "ys = xs[i := xs ! j, j := xs ! i]" using assms(2) by (simp_all split: if_splits)
  obtain ps' f' where "PtrField_SwapElements (int i) (int j) f = Some f'" "set ps' = set ps" "length ps' = length ps"
    "pf_holds th view ys ps' qs h f'" using PtrField_SwapElements_holds [OF assms(1) l] ys by blast
  then show ?thesis using Ptr_SwapElements same_heap by simp
next
  case (Ptr_AddAllocated v)
  then show ?thesis using assms step_AddAllocated [OF assms(1), of v] by simp
next
  case Ptr_ReleaseLast
  then show ?thesis using assms(2) step_ReleaseLast [OF assms(1)] by (simp split: if_splits)
next
  case Ptr_AddCleared
  then show ?thesis using assms step_AddCleared [OF assms(1)] by simp
next
  case Ptr_ReleaseCleared
  then show ?thesis using assms step_ReleaseCleared [OF assms(1)] by simp
next
  case (Ptr_Reserve n)
  then have n: "2 * n \<le> INT_MAX" and ys: "ys = xs" using assms(2) by (simp_all split: if_splits)
  then obtain f' where "PtrField_Reserve n f = Some f'" "pf_holds th view xs ps qs h f'"
    using PtrField_Reserve_holds [OF assms(1) n] by blast
  then show ?thesis using Ptr_Reserve ys same_heap by simp
next
  case (Ptr_Merge vs)
  then have ys: "ys = xs @ map view vs" and room: "2 * int (length (ps @ qs) + length vs) \<le> INT_MAX" using assms(2,3) by simp_all
  have "field_result ys ps qs h (length vs) (PtrField_MergeFrom th other h f)"
    if "pf_holds th view xs ps qs h f" "pf_holds th view (map view vs) rs ss h other" "set (rs @ ss) \<inter> set (ps @ qs) = {}" for rs ss h other
    using PtrField_MergeFrom_law [OF that] room ys by (simp add: field_result_def)
  from other_field_law [where use_other = "PtrField_MergeFrom th", OF assms(1) room this] show ?thesis using Ptr_Merge by simp
next
  case (Ptr_Copy vs)
  then have ys: "ys = map view vs" and room: "2 * int (length (ps @ qs) + length vs) \<le> INT_MAX" using assms(2,3) by simp_all
  have "field_result ys ps qs h (length vs) (PtrField_CopyFrom th other h f)"
    if "pf_holds th view xs ps qs h f" "pf_holds th view (map view vs) rs ss h other" "set (rs @ ss) \<inter> set (ps @ qs) = {}" for rs ss h other
    using PtrField_CopyFrom_law [OF that] room ys by (simp add: field_result_def)
  from other_field_law [where use_other = "PtrField_CopyFrom th", OF assms(1) room this] show ?thesis using Ptr_Copy by simp
qed

lemma ptr_steps_law:
  "pf_holds th view xs ps qs h f \<Longrightarrow> view_steps view ops xs = Some ys \<Longrightarrow>
   2 * int (length (ps @ qs) + sum_list (map op_objects ops)) \<le> INT_MAX \<Longrightarrow>
   field_result ys ps qs h (sum_list (map op_objects ops)) (ptr_steps th ops (h, f))"
proof (induction ops arbitrary: xs ps qs h f)
  case Nil
  then show ?case using same_heap [of ys ps qs h f] by simp
next
  case (Cons x ops)
  obtain zs where zs: "view_step view x xs = Some zs" "view_steps view ops zs = Some ys"
    using Cons.prems(2) by (auto simp: bind_eq_Some_conv)
  have "2 * int (length (ps @ qs) + op_objects x) \<le> INT_MAX" using Cons.prems(3) by simp
  from ptr_step_law [OF Cons.prems(1) zs(1) this] obtain ps1 qs1 h1 f1 where
    s: "ptr_step th x (h, f) = Some (h1, f1)" "pf_holds th view zs ps1 qs1 h1 f1" "heap_step (set (ps @ qs)) h (set (ps1 @ qs1)) h1"
      "length (ps1 @ qs1) \<le> length (ps @ qs) + op_objects x" by (auto simp: field_result_def)
  have "2 * int (length (ps1 @ qs1) + sum_list (map op_objects ops)) \<le> INT_MAX" using Cons.prems(3) s(4) by simp
  from Cons.IH [OF s(2) zs(2) this] obtain ps2 qs2 h2 f2 where
    "ptr_steps th ops (h1, f1) = Some (h2, f2)" "pf_holds th view ys ps2 qs2 h2 f2" "heap_step (set (ps1 @ qs1)) h1 (set (ps2 @ qs2)) h2"
      "length (ps2 @ qs2) \<le> length (ps1 @ qs1) + sum_list (map op_objects ops)" by (auto simp: field_result_def)
  then show ?case
    using s(1,4) heap_step_trans [OF s(3)] by (intro field_resultI [of _ h2 f2 _ ps2 qs2]) simp_all
qed

end

section \<open>Strings and messages\<close>

interpretation string_elements: element_type StringTypeHandler "\<lambda>s. s"
  by unfold_locales (simp_all add: StringTypeHandler_def)

interpretation name_part_elements: element_type NamePart_TypeHandler np_view
  by unfold_locales (simp_all add: NamePart_TypeHandler_def NamePart_new_view MergeFrom_view split_beta prod_eq_iff)

text \<open>
  C23.
  Any sequence of operations on a new field of strings or messages that a list allows, with at most \<open>2 ^ 30 - 1\<close> objects, the
  transfers of ownership included, uses no deleted object, deletes none twice, stays inside the array and leaves the field with
  the values of the list, whatever cleared objects have been used again; and when it is destroyed no object is left behind.
\<close>

theorem repeated_ptr_field_owns_its_objects:
  assumes "element_type th view" and "view_steps view ops [] = Some xs" and "sum_list (map op_objects ops) < 2 ^ 30"
  shows "\<exists>h f h'. ptr_steps th ops ([], PtrField_new) = Some (h, f) \<and>
    pf_size f = int (length xs) \<and> map (\<lambda>i. map_option view (PtrField_Get (int i) h f)) [0..<length xs] = map Some xs \<and>
    PtrField_Destroy f h = Some h' \<and> (\<forall>p. load_object p h' = None)"
proof -
  have "2 * int (length ([] @ [] :: nat list) + sum_list (map op_objects ops)) \<le> INT_MAX" using assms(3) by (simp add: INT_MAX_def)
  from element_type.ptr_steps_law [OF assms(1) pf_holds_new [where h = "[]"] assms(2) this]
  obtain ps qs h f where r: "ptr_steps th ops ([], PtrField_new) = Some (h, f)" "pf_holds th view xs ps qs h f"
    "heap_step {} [] (set (ps @ qs)) h"
    by (auto simp: element_type.field_result_def [OF assms(1)])
  obtain h' where h': "PtrField_Destroy f h = Some h'" "heap_step (set (ps @ qs)) h {} h'"
    using PtrField_Destroy_law [OF r(2)] by blast
  have "load_object p ([] :: 'a objects) = None" for p by (simp add: load_object_def mem_get_def)
  then have "\<forall>p. load_object p h' = None" using heap_step_trans [OF r(3) h'(2)] by (simp add: heap_step_def)
  moreover have "map (\<lambda>i. map_option view (PtrField_Get (int i) h f)) [0..<length xs] = map Some xs"
    using PtrField_Get_law [OF r(2)] by (intro nth_equalityI) fastforce+
  moreover have "pf_size f = int (length xs)"
    using r(2) pf_holds_length [OF r(2)] by (simp add: pf_holds_def pf_cells_def pf_size_def)
  ultimately show ?thesis using r(1) h'(1) by blast
qed

theorem repeated_ptr_field_owns_its_objects_witness:
  "\<exists>h f h'. ptr_steps NamePart_TypeHandler
       [Ptr_Add (set_name_part [7] NamePart_new), Ptr_AddAllocated (set_name_part [8] NamePart_new), Ptr_RemoveLast,
        Ptr_Merge [set_is_extension True NamePart_new], Ptr_SwapElements 0 1] ([], PtrField_new) = Some (h, f) \<and>
    map_option np_view (PtrField_Get 0 h f) = Some (None, Some True, []) \<and>
    map_option np_view (PtrField_Get 1 h f) = Some (Some [7], None, []) \<and>
    PtrField_Destroy f h = Some h' \<and> (\<forall>p. load_object p h' = None)"
proof -
  let ?ops = "[Ptr_Add (set_name_part [7] NamePart_new), Ptr_AddAllocated (set_name_part [8] NamePart_new), Ptr_RemoveLast,
        Ptr_Merge [set_is_extension True NamePart_new], Ptr_SwapElements 0 1]"
  have "view_steps np_view ?ops [] = Some [(None, Some True, []), (Some [7], None, [])]"
    by (simp add: NamePart_new_view)
  from repeated_ptr_field_owns_its_objects [OF name_part_elements.element_type_axioms this]
  show ?thesis by auto
qed

end
